(* ===== verification/Prelude.thy ===== *)
theory Prelude
  imports Main "HOL-Library.Word"
begin

text \<open>
  Shared vocabulary of the development.

  \<^item> Machine types: \<open>u8\<close>, \<open>u32\<close> (C++ \<open>unsigned\<close>) and \<open>u64\<close> (\<open>unsigned long long\<close>,
    \<open>size_t\<close>, \<open>uint64_t\<close>, \<open>new_addr_type\<close>) are words of that width, so arithmetic wraps as it
    does in the simulator.
  \<^item> Failures: a failed \<open>assert\<close>, an \<open>abort()\<close>, a thrown exception and an operation whose
    C++ behaviour is undefined (integer division by zero, an out-of-range array access, the read
    of an uninitialised variable) are values of \<open>cpp_error\<close>; an operation that may fail returns
    a \<open>'a res\<close>.  \<open>check c k\<close> is \<open>assert(c); k\<close> and \<open>andThen\<close> is sequencing.
  \<^item> The lemma collections of the development: \<open>res_simps\<close> (inversion of sequencing) and
    \<open>word_nat\<close> (transfer from words to natural numbers).
\<close>

unbundle bit_operations_syntax

named_theorems res_simps "inversion rules for fallible computations"
named_theorems word_nat "transfer of word expressions to natural numbers"

type_synonym u8 = "8 word"
type_synonym u32 = "32 word"
type_synonym u64 = "64 word"

section \<open>Failures\<close>

datatype cpp_error =
    Assertion
  | Abort
  | InvalidArgument
  | Thrown
  | Undefined

type_synonym 'a res = "cpp_error + 'a"

definition check :: "bool \<Rightarrow> 'a res \<Rightarrow> 'a res" where
  "check c k = (if c then k else Inl Assertion)"

definition defined :: "bool \<Rightarrow> 'a res \<Rightarrow> 'a res" where
  "defined c k = (if c then k else Inl Undefined)"

fun andThen :: "'a res \<Rightarrow> ('a \<Rightarrow> 'b res) \<Rightarrow> 'b res" where
  "andThen (Inl e) k = Inl e"
| "andThen (Inr x) k = k x"

fun is_ok :: "'a res \<Rightarrow> bool" where
  "is_ok (Inl e) = False"
| "is_ok (Inr x) = True"

lemma check_True [simp]: "check True k = k"
  and check_False [simp]: "check False k = Inl Assertion"
  by (simp_all add: check_def)

lemma defined_True [simp]: "defined True k = k"
  and defined_False [simp]: "defined False k = Inl Undefined"
  by (simp_all add: defined_def)

lemma check_Inr [res_simps]: "check c k = Inr y \<longleftrightarrow> c \<and> k = Inr y"
  by (simp add: check_def)

lemma defined_Inr [res_simps]: "defined c k = Inr y \<longleftrightarrow> c \<and> k = Inr y"
  by (simp add: defined_def)

lemma andThen_Inr [res_simps]: "andThen m k = Inr y \<longleftrightarrow> (\<exists>x. m = Inr x \<and> k x = Inr y)"
  by (cases m) auto

lemma andThen_cong [fundef_cong]:
  "m = m' \<Longrightarrow> (\<And>x. m' = Inr x \<Longrightarrow> k x = k' x) \<Longrightarrow> andThen m k = andThen m' k'"
  by (cases m') auto

lemma andThen_assoc: "andThen (andThen m f) g = andThen m (\<lambda>x. andThen (f x) g)"
  by (cases m) auto

lemma is_ok_iff: "is_ok m \<longleftrightarrow> (\<exists>x. m = Inr x)"
  by (cases m) auto

lemma check_cong [cong]: "c = c' \<Longrightarrow> (c' \<Longrightarrow> k = k') \<Longrightarrow> check c k = check c' k'"
  by (simp add: check_def)

lemma defined_cong [cong]: "c = c' \<Longrightarrow> (c' \<Longrightarrow> k = k') \<Longrightarrow> defined c k = defined c' k'"
  by (simp add: defined_def)

text \<open>A loop over a list whose body may fail.\<close>

fun foldM :: "('a \<Rightarrow> 's \<Rightarrow> 's res) \<Rightarrow> 'a list \<Rightarrow> 's \<Rightarrow> 's res" where
  "foldM f [] s = Inr s"
| "foldM f (x # xs) s = andThen (f x s) (foldM f xs)"

lemma foldM_append: "foldM f (xs @ ys) s = andThen (foldM f xs s) (foldM f ys)"
  by (induction xs arbitrary: s) (auto split: sum.splits, metis andThen.simps old.sum.exhaust)

lemma foldM_invariant:
  assumes "\<And>x s. x \<in> set xs \<Longrightarrow> P s \<Longrightarrow> \<exists>s'. f x s = Inr s' \<and> P s'" and "P s"
  shows "\<exists>s'. foldM f xs s = Inr s' \<and> P s'"
  using assms
proof (induction xs arbitrary: s)
  case (Cons x xs)
  then obtain s1 where "f x s = Inr s1" "P s1" by (meson list.set_intros(1))
  with Cons show ?case by auto
qed simp

section \<open>Words as natural numbers\<close>

lemma unat_lt: "unat (x :: 'a::len word) < 2 ^ LENGTH('a)"
  by (rule unsigned_less)

lemma unat_widen: "unat (ucast (x :: u32) :: u64) = unat x"
proof -
  have "unat x < 2 ^ 64" using unat_lt [of x] by simp
  then show ?thesis by (simp add: unsigned_ucast_eq take_bit_nat_eq_self)
qed

lemma unat_plus_one [word_nat]:
  fixes x :: "'a::len word"
  assumes "unat x + 1 < 2 ^ LENGTH('a)"
  shows "unat (x + 1) = unat x + 1"
proof -
  have "unat (x + 1) = (unat x + unat (1 :: 'a word)) mod 2 ^ LENGTH('a)"
    by (rule unat_word_ariths)
  moreover have "unat (1 :: 'a word) = 1" by simp
  ultimately show ?thesis using assms by simp
qed

lemma unat_minus_one [word_nat]:
  fixes x :: "'a::len word"
  assumes "x \<noteq> 0"
  shows "unat (x - 1) = unat x - 1"
proof -
  have "1 \<le> x" using assms by (simp add: word_le_nat_alt unat_gt_0 Suc_leI)
  then show ?thesis by (simp add: unat_sub)
qed

lemma unat_add_le [word_nat]:
  fixes x y :: "'a::len word"
  assumes "unat x + unat y < 2 ^ LENGTH('a)"
  shows "unat (x + y) = unat x + unat y"
  using assms by (simp add: unat_word_ariths)

lemma unat_mult_le [word_nat]:
  fixes x y :: "'a::len word"
  assumes "unat x * unat y < 2 ^ LENGTH('a)"
  shows "unat (x * y) = unat x * unat y"
  using assms by (simp add: unat_word_ariths)

lemma unat_of_nat_lt [word_nat]:
  assumes "n < 2 ^ LENGTH('a)"
  shows "unat (of_nat n :: 'a::len word) = n"
  using assms by (simp add: unat_of_nat)

lemma unat_drop_bit [word_nat]: "unat (drop_bit n (v :: 'a::len word)) = unat v div 2 ^ n"
  unfolding unsigned_drop_bit_eq
  by (simp add: drop_bit_eq_div take_bit_nat_eq_self_iff [THEN iffD2, OF unat_lt])

lemma unat_two_power [word_nat]:
  assumes "n < LENGTH('a)"
  shows "unat (2 ^ n :: 'a::len word) = 2 ^ n"
proof -
  have "unat (of_nat (2 ^ n) :: 'a word) = 2 ^ n"
    using assms by (intro unat_of_nat_lt) simp
  then show ?thesis by simp
qed

section \<open>Lists\<close>

lemma last_butlast_update: "xs \<noteq> [] \<Longrightarrow> butlast xs @ [y] = xs[length xs - 1 := y]"
  by (induction xs) (auto split: nat.split)

lemma distinct_map_fst_inj:
  "distinct (map fst xs) \<Longrightarrow> (k, v) \<in> set xs \<Longrightarrow> (k, w) \<in> set xs \<Longrightarrow> v = w"
  by (metis map_of_is_SomeI option.inject)

end
