(* ===== verification/Fifo_Spec.thy ===== *)
theory Fifo_Spec
  imports Prelude
begin

text \<open>
  The contract shared by the simulator's two bounded queues: the linked-list
  \<open>fifo_pipeline\<close> of \<open>delayqueue.h\<close> and the ring buffer \<open>tex_cache::fifo\<close> of \<open>gpu-cache.h\<close>.
  An implementation provides an invariant, the list of elements it holds (oldest first), the
  conditions under which the source's assertions let it accept or deliver an element, and the two
  state-changing operations.  A delivery may return nothing (\<open>None\<close>): a delay queue delivers
  empty slots.
\<close>

datatype 'a fifo_op = Put 'a | Get

fun puts :: "'a fifo_op list \<Rightarrow> 'a list" where
  "puts [] = []"
| "puts (Put x # ops) = x # puts ops"
| "puts (Get # ops) = puts ops"

fun opt_list :: "'a option \<Rightarrow> 'a list" where
  "opt_list None = []"
| "opt_list (Some x) = [x]"

text \<open>A sequence of operations by the client: what came out, and the final queue.\<close>

fun run_ops ::
  "('a \<Rightarrow> 'q \<Rightarrow> 'q res) \<Rightarrow> ('q \<Rightarrow> ('a option \<times> 'q) res) \<Rightarrow> 'a fifo_op list \<Rightarrow> 'q
     \<Rightarrow> ('a list \<times> 'q) res" where
  "run_ops put get [] q = Inr ([], q)"
| "run_ops put get (Put x # ops) q = andThen (put x q) (run_ops put get ops)"
| "run_ops put get (Get # ops) q =
     andThen (get q) (\<lambda>(r, q').
       andThen (run_ops put get ops q') (\<lambda>(out, q''). Inr (opt_list r @ out, q'')))"

locale bounded_fifo =
  fixes invar :: "'q \<Rightarrow> bool"
    and items :: "'q \<Rightarrow> 'a list"
    and full :: "'q \<Rightarrow> bool"
    and ready :: "'q \<Rightarrow> bool"
    and put :: "'a \<Rightarrow> 'q \<Rightarrow> 'q res"
    and get :: "'q \<Rightarrow> ('a option \<times> 'q) res"
  assumes put_ok: "invar q \<Longrightarrow> \<not> full q \<Longrightarrow>
      \<exists>q'. put x q = Inr q' \<and> invar q' \<and> items q' = items q @ [x]"
    and put_full: "invar q \<Longrightarrow> full q \<Longrightarrow> put x q = Inl Assertion"
    and get_ok: "invar q \<Longrightarrow> ready q \<Longrightarrow>
      \<exists>r q'. get q = Inr (r, q') \<and> invar q' \<and> items q = opt_list r @ items q'"
    and get_stuck: "invar q \<Longrightarrow> \<not> ready q \<Longrightarrow> get q = Inl Assertion"
begin

lemma put_Inr:
  assumes "invar q" and "put x q = Inr q'"
  shows "\<not> full q \<and> invar q' \<and> items q' = items q @ [x]"
proof -
  have "\<not> full q" using put_full [OF assms(1)] assms(2) by auto
  with put_ok [OF assms(1) this, of x] assms(2) show ?thesis by auto
qed

lemma get_Inr:
  assumes "invar q" and "get q = Inr (r, q')"
  shows "invar q' \<and> items q = opt_list r @ items q'"
proof -
  have "ready q" using get_stuck [OF assms(1)] assms(2) by auto
  from get_ok [OF assms(1) this] assms(2) show ?thesis by auto
qed

text \<open>First in, first out, over any sequence of operations that runs without a failed assertion:
  nothing is lost, duplicated, invented or reordered.\<close>

lemma run_order:
  "invar q \<Longrightarrow> run_ops put get ops q = Inr (out, q') \<Longrightarrow>
     invar q' \<and> items q @ puts ops = out @ items q'"
proof (induction ops arbitrary: q out q' rule: puts.induct)
  case 1
  then show ?case by simp
next
  case (2 x ops)
  then obtain q1 where "put x q = Inr q1" and "run_ops put get ops q1 = Inr (out, q')"
    by (auto simp: res_simps)
  with 2 put_Inr [of q x q1] show ?case by fastforce
next
  case (3 ops)
  then obtain r q1 out' where "get q = Inr (r, q1)"
    and "run_ops put get ops q1 = Inr (out', q')" and "out = opt_list r @ out'"
    by (auto simp: res_simps)
  with 3 get_Inr [of q r q1] show ?case by fastforce
qed

end

end
