(* ===== verification/Delay_Queue.thy ===== *)
theory Delay_Queue
  imports Fifo_Spec
begin

text \<open>
  \<open>fifo_pipeline\<close> of \<open>src/src/gpgpu-sim/delayqueue.h\<close>, the queue between every pair of
  pipeline stages of the memory system.  The singly linked list from \<open>m_head\<close> to \<open>m_tail\<close> is the
  list \<open>fp_nodes\<close> (\<open>m_head == NULL\<close> is \<open>[]\<close>); a node whose \<open>m_data\<close> is \<open>NULL\<close> is \<open>None\<close>.  The two
  counters are kept apart from the list, at 32 bits, as the code keeps them.

  Shown: the queue implements \<open>bounded_fifo\<close>; \<open>pop\<close> delivers the slots in order and refills the
  pipeline, so that an element pushed into the last slot of a pipeline of length \<open>L\<close> leaves with
  the \<open>L\<close>-th \<open>pop\<close>; \<open>set_min_length\<close> keeps the elements; \<open>m_n_element\<close> counts the elements of
  a queue without delay and drifts below zero in one with a delay.
\<close>

section \<open>Model\<close>

record 'a fifo_pipeline =
  fp_min_len :: u32
  fp_max_len :: u32
  fp_length :: u32
  fp_n_element :: u32
  fp_nodes :: "'a option list"

definition push :: "'a option \<Rightarrow> 'a fifo_pipeline \<Rightarrow> 'a fifo_pipeline res" where
  "push data q = check (fp_length q < fp_max_len q)
     (if fp_nodes q \<noteq> [] then
        (if last (fp_nodes q) \<noteq> None \<or> fp_length q < fp_min_len q then
           Inr (q\<lparr>fp_nodes := fp_nodes q @ [data], fp_length := fp_length q + 1,
                  fp_n_element := fp_n_element q + 1\<rparr>)
         else Inr (q\<lparr>fp_nodes := butlast (fp_nodes q) @ [data]\<rparr>))
      else Inr (q\<lparr>fp_nodes := [data], fp_length := fp_length q + 1,
                  fp_n_element := fp_n_element q + 1\<rparr>))"

fun push_null_times :: "nat \<Rightarrow> 'a fifo_pipeline \<Rightarrow> 'a fifo_pipeline res" where
  "push_null_times 0 q = Inr q"
| "push_null_times (Suc n) q = andThen (push None q) (push_null_times n)"

definition fifo_pipeline_new :: "u32 \<Rightarrow> u32 \<Rightarrow> 'a fifo_pipeline res" where
  "fifo_pipeline_new minlen maxlen = check (maxlen \<noteq> 0)
     (push_null_times (unat minlen)
        \<lparr>fp_min_len = minlen, fp_max_len = maxlen, fp_length = 0, fp_n_element = 0,
         fp_nodes = []\<rparr>)"

text \<open>\<open>uncount\<close> is the \<open>m_n_element--\<close> that follows an inserted \<open>NULL\<close>.\<close>

definition uncount :: "'a fifo_pipeline \<Rightarrow> 'a fifo_pipeline" where
  "uncount q = q\<lparr>fp_n_element := fp_n_element q - 1\<rparr>"

definition pop :: "'a fifo_pipeline \<Rightarrow> ('a option \<times> 'a fifo_pipeline) res" where
  "pop q =
     (case fp_nodes q of
        [] \<Rightarrow> Inr (None, q)
      | data # next \<Rightarrow>
          (let q1 = q\<lparr>fp_nodes := next, fp_length := fp_length q - 1\<rparr> in
           check (fp_length q1 = 0 \<longrightarrow> next = [])
             (let q2 = uncount q1 in
              if fp_min_len q2 \<noteq> 0 \<and> fp_length q2 < fp_min_len q2
              then andThen (push None q2) (\<lambda>q3. Inr (data, uncount q3))
              else Inr (data, q2))))"

definition top :: "'a fifo_pipeline \<Rightarrow> 'a option" where
  "top q = (case fp_nodes q of [] \<Rightarrow> None | data # _ \<Rightarrow> data)"

text \<open>The two loops of \<open>set_min_length\<close>.\<close>

function grow :: "'a fifo_pipeline \<Rightarrow> 'a fifo_pipeline res" where
  "grow q = (if fp_length q < fp_min_len q
             then andThen (push None q) (\<lambda>q'. grow (uncount q')) else Inr q)"
  by pat_completeness auto
termination
proof (relation "measure (\<lambda>q. unat (fp_min_len q) - unat (fp_length q))")
  fix q q' :: "'a fifo_pipeline"
  assume lt: "fp_length q < fp_min_len q" and p: "push None q = Inr q'"
  from lt have "unat (fp_length q) < unat (fp_min_len q)" by (simp add: word_less_nat_alt)
  moreover from p lt have "fp_min_len q' = fp_min_len q" "fp_length q' = fp_length q + 1"
    by (auto simp: push_def res_simps split: if_splits)
  moreover have "unat (fp_length q) + 1 < 2 ^ LENGTH(32)"
    using calculation(1) unat_lt [of "fp_min_len q"] by linarith
  ultimately show "(uncount q', q) \<in> measure (\<lambda>q. unat (fp_min_len q) - unat (fp_length q))"
    by (simp add: uncount_def unat_plus_one)
qed simp

function shrink :: "'a fifo_pipeline \<Rightarrow> 'a fifo_pipeline res" where
  "shrink q =
     (if fp_length q > fp_min_len q then
        defined (fp_nodes q \<noteq> [])
          (if last (fp_nodes q) = None then
             (if length (fp_nodes q) = 1
              then check (hd (fp_nodes q) = None)
                     (andThen (pop q) (\<lambda>(data, q'). shrink q'))
              else shrink (q\<lparr>fp_nodes := butlast (fp_nodes q),
                             fp_length := fp_length q - 1\<rparr>))
           else Inr q)
      else Inr q)"
  by pat_completeness auto
termination
proof (relation "measure (\<lambda>q. unat (fp_length q))")
  fix q :: "'a fifo_pipeline" and x data q'
  assume gt: "fp_min_len q < fp_length q" and one: "length (fp_nodes q) = 1"
    and p: "pop q = Inr x" and x: "(data, q') = x"
  from one obtain d where d: "fp_nodes q = [d]" by (cases "fp_nodes q") auto
  have nz: "fp_length q \<noteq> 0" using gt by auto
  have "\<not> fp_length q - 1 < fp_min_len q"
    using gt nz by (simp add: word_less_nat_alt unat_minus_one)
  then have "fp_length q' = fp_length q - 1"
    using p x d by (auto simp: pop_def Let_def uncount_def res_simps)
  then show "(q', q) \<in> measure (\<lambda>q. unat (fp_length q))"
    using nz by (simp add: unat_minus_one unat_gt_0)
next
  fix q :: "'a fifo_pipeline"
  assume "fp_min_len q < fp_length q"
  then have "fp_length q \<noteq> 0" by auto
  then show "(q\<lparr>fp_nodes := butlast (fp_nodes q), fp_length := fp_length q - 1\<rparr>, q)
      \<in> measure (\<lambda>q. unat (fp_length q))"
    by (simp add: unat_minus_one unat_gt_0)
qed simp

definition set_min_length :: "u32 \<Rightarrow> 'a fifo_pipeline \<Rightarrow> 'a fifo_pipeline res" where
  "set_min_length new_min_len q =
     (if new_min_len = fp_min_len q then Inr q
      else if new_min_len > fp_min_len q then grow (q\<lparr>fp_min_len := new_min_len\<rparr>)
      else check (fp_nodes q \<noteq> []) (shrink (q\<lparr>fp_min_len := new_min_len\<rparr>)))"

definition full :: "'a fifo_pipeline \<Rightarrow> bool" where
  "full q \<longleftrightarrow> fp_max_len q \<noteq> 0 \<and> fp_length q \<ge> fp_max_len q"

definition is_avilable_size :: "u32 \<Rightarrow> 'a fifo_pipeline \<Rightarrow> bool" where
  "is_avilable_size sz q \<longleftrightarrow> fp_max_len q \<noteq> 0 \<and> fp_length q + sz - 1 \<ge> fp_max_len q"

definition empty :: "'a fifo_pipeline \<Rightarrow> bool" where
  "empty q \<longleftrightarrow> fp_nodes q = []"

definition get_n_element :: "'a fifo_pipeline \<Rightarrow> u32" where
  "get_n_element q = fp_n_element q"

definition get_length :: "'a fifo_pipeline \<Rightarrow> u32" where
  "get_length q = fp_length q"

definition get_max_len :: "'a fifo_pipeline \<Rightarrow> u32" where
  "get_max_len q = fp_max_len q"

declare grow.simps [simp del] shrink.simps [simp del]

section \<open>Invariant and contents\<close>

text \<open>The counter is the length of the list, which lies between the delay and the capacity.\<close>

definition fp_wf :: "'a fifo_pipeline \<Rightarrow> bool" where
  "fp_wf q \<longleftrightarrow> fp_max_len q \<noteq> 0 \<and> length (fp_nodes q) = unat (fp_length q) \<and>
     fp_min_len q \<le> fp_length q \<and> fp_length q \<le> fp_max_len q"

definition fp_items :: "'a fifo_pipeline \<Rightarrow> 'a list" where
  "fp_items q = List.map_filter id (fp_nodes q)"

definition push_data :: "'a \<Rightarrow> 'a fifo_pipeline \<Rightarrow> 'a fifo_pipeline res" where
  "push_data x = push (Some x)"

lemma map_filter_id_None [simp]: "List.map_filter id (xs @ [None]) = List.map_filter id xs"
  by (simp add: map_filter_def)

lemma map_filter_id_Some [simp]:
  "List.map_filter id (xs @ [Some x]) = List.map_filter id xs @ [x]"
  by (simp add: map_filter_def)

lemma map_filter_id_butlast:
  "xs \<noteq> [] \<Longrightarrow> last xs = None \<Longrightarrow> List.map_filter id (butlast xs) = List.map_filter id xs"
  by (metis append_butlast_last_id map_filter_id_None)

lemma not_full_iff: "fp_wf q \<Longrightarrow> \<not> full q \<longleftrightarrow> fp_length q < fp_max_len q"
  by (auto simp: fp_wf_def full_def)

lemma length_lt_max_unat:
  assumes "(len :: u32) < m"
  shows "unat (len + 1) = unat len + 1"
proof -
  have "unat len + 1 < 2 ^ LENGTH(32)"
    using assms unat_lt [of m] by (simp add: word_less_nat_alt)
  then show ?thesis by (rule unat_plus_one)
qed

text \<open>A \<open>push\<close> below capacity always succeeds and adds the element at the end.\<close>

lemma push_ok:
  assumes wf: "fp_wf q" and nf: "\<not> full q"
  shows "\<exists>q'. push (Some x) q = Inr q' \<and> fp_wf q' \<and> fp_items q' = fp_items q @ [x]"
proof -
  from wf nf have lt: "fp_length q < fp_max_len q" by (simp add: not_full_iff)
  then have u: "unat (fp_length q + 1) = unat (fp_length q) + 1" by (rule length_lt_max_unat)
  have le: "fp_length q + 1 \<le> fp_max_len q"
    using lt u by (simp add: word_le_nat_alt word_less_nat_alt)
  have mn: "fp_min_len q \<le> fp_length q + 1"
    using wf u by (simp add: fp_wf_def word_le_nat_alt)
  consider (empty) "fp_nodes q = []"
    | (append) "fp_nodes q \<noteq> []" "last (fp_nodes q) \<noteq> None \<or> fp_length q < fp_min_len q"
    | (overwrite) "fp_nodes q \<noteq> []" "last (fp_nodes q) = None" "\<not> fp_length q < fp_min_len q"
    by blast
  then show ?thesis
  proof cases
    case empty
    with wf lt u le mn show ?thesis
      by (simp add: push_def fp_wf_def fp_items_def map_filter_def)
  next
    case append
    with wf lt u le mn show ?thesis by (simp add: push_def fp_wf_def fp_items_def)
  next
    case overwrite
    then have "0 < length (fp_nodes q)" by simp
    with overwrite wf lt show ?thesis
      by (simp add: push_def fp_wf_def fp_items_def map_filter_id_butlast)
  qed
qed

lemma push_full: "fp_wf q \<Longrightarrow> full q \<Longrightarrow> push x q = Inl Assertion"
  by (auto simp: push_def check_def fp_wf_def full_def)

text \<open>\<open>pop\<close> never fails: it removes the first slot and, in a pipeline with a delay, appends an
  empty one when the length would fall below the delay.\<close>

definition refill :: "'a fifo_pipeline \<Rightarrow> 'a option list" where
  "refill q = (if fp_length q - 1 < fp_min_len q then [None] else [])"

lemma pop_Nil: "fp_nodes q = [] \<Longrightarrow> pop q = Inr (None, q)"
  by (simp add: pop_def)

lemma pop_Cons:
  assumes wf: "fp_wf q" and nodes: "fp_nodes q = d # ds"
  shows "pop q = Inr (d, q\<lparr>fp_nodes := ds @ refill q,
      fp_length := fp_length q - 1 + of_nat (length (refill q)),
      fp_n_element := fp_n_element q - 1\<rparr>)"
proof -
  have nz: "fp_length q \<noteq> 0" using wf nodes by (auto simp: fp_wf_def)
  then have u: "unat (fp_length q - 1) = unat (fp_length q) - 1" by (rule unat_minus_one)
  have z: "fp_length q - 1 = 0 \<longrightarrow> ds = []"
    using wf nodes u by (auto simp: fp_wf_def)
  have "0 < unat (fp_length q)" using nz by (simp add: unat_gt_0)
  then have lt: "fp_length q - 1 < fp_max_len q"
    using wf u by (auto simp: fp_wf_def word_less_nat_alt word_le_nat_alt)
  show ?thesis
  proof (cases "fp_length q - 1 < fp_min_len q")
    case True
    then have "fp_min_len q \<noteq> 0" by auto
    with True lt nodes z show ?thesis
      by (auto simp: pop_def push_def uncount_def refill_def Let_def)
  next
    case False
    with nodes z show ?thesis by (auto simp: pop_def uncount_def refill_def Let_def)
  qed
qed

lemma pop_Cons_wf:
  assumes wf: "fp_wf q" and nodes: "fp_nodes q = d # ds"
  shows "fp_wf (q\<lparr>fp_nodes := ds @ refill q,
      fp_length := fp_length q - 1 + of_nat (length (refill q)), fp_n_element := n\<rparr>)"
proof -
  have nz: "fp_length q \<noteq> 0" using wf nodes by (auto simp: fp_wf_def)
  then have u: "unat (fp_length q - 1) = unat (fp_length q) - 1" by (rule unat_minus_one)
  show ?thesis
  proof (cases "fp_length q - 1 < fp_min_len q")
    case True
    with wf nodes nz show ?thesis by (auto simp: fp_wf_def refill_def unat_gt_0)
  next
    case False
    with wf nodes nz u show ?thesis
      by (auto simp: fp_wf_def refill_def word_le_nat_alt word_less_nat_alt)
  qed
qed

lemma pop_ok:
  assumes "fp_wf q"
  shows "\<exists>r q'. pop q = Inr (r, q') \<and> fp_wf q' \<and> fp_items q = opt_list r @ fp_items q'"
proof (cases "fp_nodes q")
  case Nil
  with assms show ?thesis by (simp add: pop_Nil)
next
  case (Cons d ds)
  from pop_Cons [OF assms Cons] pop_Cons_wf [OF assms Cons] Cons show ?thesis
    by (cases d) (auto simp: fp_items_def map_filter_def refill_def)
qed

interpretation pipe: bounded_fifo fp_wf fp_items full "\<lambda>_. True" push_data pop
proof unfold_locales
  fix q :: "'a fifo_pipeline" and x
  show "fp_wf q \<Longrightarrow> \<not> full q \<Longrightarrow>
      \<exists>q'. push_data x q = Inr q' \<and> fp_wf q' \<and> fp_items q' = fp_items q @ [x]"
    unfolding push_data_def by (rule push_ok)
  show "fp_wf q \<Longrightarrow> full q \<Longrightarrow> push_data x q = Inl Assertion"
    unfolding push_data_def by (rule push_full)
  show "fp_wf q \<Longrightarrow> \<exists>r q'. pop q = Inr (r, q') \<and> fp_wf q' \<and> fp_items q = opt_list r @ fp_items q'"
    by (rule pop_ok)
qed simp

section \<open>Order and delay\<close>

text \<open>\<open>n\<close> consecutive pops, with what each returned.\<close>

fun pops :: "nat \<Rightarrow> 'a fifo_pipeline \<Rightarrow> ('a option list \<times> 'a fifo_pipeline) res" where
  "pops 0 q = Inr ([], q)"
| "pops (Suc n) q = andThen (pop q) (\<lambda>(d, q').
     andThen (pops n q') (\<lambda>(ds, q''). Inr (d # ds, q'')))"

lemma pops_take:
  "fp_wf q \<Longrightarrow> n \<le> length (fp_nodes q) \<Longrightarrow>
     \<exists>q'. pops n q = Inr (take n (fp_nodes q), q') \<and> fp_wf q'"
proof (induction n arbitrary: q)
  case 0
  then show ?case by simp
next
  case (Suc n)
  then obtain d ds where nodes: "fp_nodes q = d # ds" by (cases "fp_nodes q") auto
  let ?q = "q\<lparr>fp_nodes := ds @ refill q,
      fp_length := fp_length q - 1 + of_nat (length (refill q)),
      fp_n_element := fp_n_element q - 1\<rparr>"
  have "fp_wf ?q" using Suc.prems(1) nodes by (rule pop_Cons_wf)
  moreover have "n \<le> length (fp_nodes ?q)" using Suc.prems nodes by simp
  ultimately obtain q' where q': "pops n ?q = Inr (take n (ds @ refill q), q')" "fp_wf q'"
    using Suc.IH [of ?q] by auto
  moreover have "n \<le> length ds" using Suc.prems nodes by simp
  ultimately show ?case using pop_Cons [OF Suc.prems(1) nodes] nodes by simp
qed

text \<open>FIFO order of the delay queue.  Over any sequence of pushes and pops that violates no
  assertion, the elements delivered followed by the elements still queued are the elements queued
  at the start followed by the elements pushed, in order; and the counter invariant is kept.\<close>

theorem fifo_pipeline_order:
  assumes "fp_wf q" and "run_ops push_data pop ops q = Inr (out, q')"
  shows "fp_wf q' \<and> fp_items q @ puts ops = out @ fp_items q'"
  using assms by (rule pipe.run_order)

text \<open>The delay.  An element pushed into the empty last slot of a pipeline whose length
  equals its delay \<open>L\<close> is delivered by exactly the \<open>L\<close>-th of the following pops; the pops before
  it deliver the slots that were in front.\<close>

theorem fifo_pipeline_delay:
  assumes wf: "fp_wf q" and len: "fp_length q = fp_min_len q" and L: "fp_min_len q \<noteq> 0"
    and lt: "fp_length q < fp_max_len q" and tail: "last (fp_nodes q) = None"
  shows "\<exists>q1 q2. push (Some x) q = Inr q1 \<and>
    pops (unat (fp_min_len q)) q1 = Inr (butlast (fp_nodes q) @ [Some x], q2)"
proof -
  have ne: "fp_nodes q \<noteq> []" using wf len L by (auto simp: fp_wf_def unat_eq_zero)
  let ?q1 = "q\<lparr>fp_nodes := butlast (fp_nodes q) @ [Some x]\<rparr>"
  have push: "push (Some x) q = Inr ?q1"
    using lt ne tail len by (simp add: push_def)
  have "length (fp_nodes ?q1) = length (fp_nodes q)"
    using ne by (cases "fp_nodes q" rule: rev_cases) auto
  then have l: "length (fp_nodes ?q1) = unat (fp_min_len q)"
    using wf len by (simp add: fp_wf_def)
  with wf have "fp_wf ?q1" by (simp add: fp_wf_def len)
  from pops_take [OF this, of "unat (fp_min_len q)"] l push show ?thesis by auto
qed

section \<open>Resizing\<close>

lemma grow_ok:
  "fp_max_len q \<noteq> 0 \<Longrightarrow> length (fp_nodes q) = unat (fp_length q) \<Longrightarrow> fp_length q \<le> fp_max_len q
   \<Longrightarrow> fp_min_len q \<le> fp_max_len q \<Longrightarrow>
     \<exists>q'. grow q = Inr q' \<and> fp_wf q' \<and> fp_items q' = fp_items q \<and> fp_min_len q' = fp_min_len q"
proof (induction q rule: grow.induct)
  case (1 q)
  show ?case
  proof (cases "fp_length q < fp_min_len q")
    case True
    then have lt: "fp_length q < fp_max_len q" using "1.prems"(4) by (rule order.strict_trans2)
    then have u: "unat (fp_length q + 1) = unat (fp_length q) + 1" by (rule length_lt_max_unat)
    then have le: "fp_length q + 1 \<le> fp_max_len q"
      using lt by (simp add: word_le_nat_alt word_less_nat_alt)
    let ?q = "q\<lparr>fp_nodes := fp_nodes q @ [None], fp_length := fp_length q + 1,
      fp_n_element := fp_n_element q + 1\<rparr>"
    have p: "push None q = Inr ?q" using True lt by (simp add: push_def)
    have "\<exists>q'. grow (uncount ?q) = Inr q' \<and> fp_wf q' \<and> fp_items q' = fp_items (uncount ?q) \<and>
        fp_min_len q' = fp_min_len (uncount ?q)"
      using "1.prems" u le by (intro "1.IH" [OF True p]) (simp_all add: uncount_def)
    with p True show ?thesis
      by (simp add: grow.simps [of q]) (simp add: uncount_def fp_items_def)
  next
    case False
    with "1.prems" show ?thesis by (simp add: grow.simps [of q] fp_wf_def)
  qed
qed

lemma shrink_ok:
  "fp_max_len q \<noteq> 0 \<Longrightarrow> length (fp_nodes q) = unat (fp_length q) \<Longrightarrow> fp_length q \<le> fp_max_len q
   \<Longrightarrow> fp_min_len q \<le> fp_length q \<Longrightarrow>
     \<exists>q'. shrink q = Inr q' \<and> fp_wf q' \<and> fp_items q' = fp_items q \<and> fp_min_len q' = fp_min_len q"
proof (induction q rule: shrink.induct)
  case (1 q)
  have wf: "fp_wf q" using "1.prems" by (simp add: fp_wf_def)
  show ?case
  proof (cases "fp_min_len q < fp_length q \<and> last (fp_nodes q) = None")
    case False
    then have "shrink q = Inr q"
      using "1.prems" by (subst shrink.simps) (auto simp: defined_def unat_eq_zero)
    with wf show ?thesis by simp
  next
    case True
    then have gt: "fp_min_len q < fp_length q" and t: "last (fp_nodes q) = None" by auto
    then have nz: "fp_length q \<noteq> 0" by auto
    then have u: "unat (fp_length q - 1) = unat (fp_length q) - 1" by (rule unat_minus_one)
    have pos: "0 < unat (fp_length q)" using nz by (simp add: unat_gt_0)
    have ne: "fp_nodes q \<noteq> []" using "1.prems"(2) pos by auto
    have mn: "fp_min_len q \<le> fp_length q - 1"
      using gt u by (simp add: word_le_nat_alt word_less_nat_alt)
    have mx: "fp_length q - 1 \<le> fp_max_len q"
      using "1.prems"(3) u by (simp add: word_le_nat_alt)
    show ?thesis
    proof (cases "length (fp_nodes q) = 1")
      case one: True
      with t obtain d where d: "fp_nodes q = [None]"
        by (cases "fp_nodes q") auto
      let ?q = "q\<lparr>fp_nodes := [], fp_length := fp_length q - 1,
        fp_n_element := fp_n_element q - 1\<rparr>"
      have p: "pop q = Inr (None, ?q)"
        using pop_Cons [OF wf d] mn by (simp add: refill_def)
      have "\<exists>q'. shrink ?q = Inr q' \<and> fp_wf q' \<and> fp_items q' = fp_items ?q \<and>
          fp_min_len q' = fp_min_len ?q"
        using "1.prems" u mn mx one
        by (intro "1.IH"(1) [OF gt t one p refl]) (simp_all add: d)
      with p d gt show ?thesis
        by (simp add: shrink.simps [of q]) (simp add: fp_items_def map_filter_def)
    next
      case False
      let ?q = "q\<lparr>fp_nodes := butlast (fp_nodes q), fp_length := fp_length q - 1\<rparr>"
      have "\<exists>q'. shrink ?q = Inr q' \<and> fp_wf q' \<and> fp_items q' = fp_items ?q \<and>
          fp_min_len q' = fp_min_len ?q"
        using "1.prems" u mn mx by (intro "1.IH"(2) [OF gt t False]) simp_all
      with False gt ne t show ?thesis
        by (simp add: shrink.simps [of q]) (simp add: fp_items_def map_filter_id_butlast)
    qed
  qed
qed

text \<open>Changing the delay of a queue to any value up to its capacity succeeds, keeps the
  queued elements and their order, and restores the counter invariant.\<close>

theorem set_min_length_keeps_items:
  assumes wf: "fp_wf q" and le: "n \<le> fp_max_len q"
  shows "\<exists>q'. set_min_length n q = Inr q' \<and> fp_wf q' \<and> fp_items q' = fp_items q \<and>
    fp_min_len q' = n"
proof -
  let ?q = "q\<lparr>fp_min_len := n\<rparr>"
  consider (same) "n = fp_min_len q" | (larger) "n > fp_min_len q" | (smaller) "n < fp_min_len q"
    by (rule linorder_cases)
  then show ?thesis
  proof cases
    case same
    with wf show ?thesis by (simp add: set_min_length_def)
  next
    case larger
    with grow_ok [of ?q] wf le show ?thesis
      by (auto simp: set_min_length_def fp_wf_def fp_items_def)
  next
    case smaller
    have "n < fp_length q" using smaller wf by (auto simp: fp_wf_def)
    then have "fp_nodes q \<noteq> []" using wf by (auto simp: fp_wf_def unat_eq_zero)
    moreover have "n \<le> fp_length q" using \<open>n < fp_length q\<close> by simp
    ultimately show ?thesis
      using smaller shrink_ok [of ?q] wf by (auto simp: set_min_length_def fp_wf_def fp_items_def)
  qed
qed

section \<open>The element counter\<close>

text \<open>Queues without delay hold no empty slot: the counter, the length and the number of queued
  elements agree.\<close>

definition fp_exact :: "'a fifo_pipeline \<Rightarrow> bool" where
  "fp_exact q \<longleftrightarrow> fp_wf q \<and> fp_min_len q = 0 \<and> None \<notin> set (fp_nodes q) \<and>
     fp_n_element q = fp_length q"

lemma map_filter_id_length: "None \<notin> set xs \<Longrightarrow> length (List.map_filter id xs) = length xs"
  by (induction xs) (auto simp: map_filter_def, metis option.exhaust)

lemma fp_exact_count: "fp_exact q \<Longrightarrow> unat (get_n_element q) = length (fp_items q)"
  by (simp add: fp_exact_def fp_wf_def get_n_element_def fp_items_def map_filter_id_length)

lemma push_data_exact:
  assumes "fp_exact q" and "push_data x q = Inr q'"
  shows "fp_exact q'"
proof -
  have wf: "fp_wf q" using assms by (simp add: fp_exact_def)
  have "fp_wf q'" using pipe.put_Inr [OF wf assms(2)] by simp
  moreover have "fp_nodes q \<noteq> [] \<longrightarrow> last (fp_nodes q) \<noteq> None"
    using assms(1) by (metis fp_exact_def last_in_set)
  ultimately show ?thesis
    using assms by (auto simp: push_data_def push_def fp_exact_def res_simps split: if_splits)
qed

lemma pop_exact:
  assumes "fp_exact q" and "pop q = Inr (r, q')"
  shows "fp_exact q'"
proof (cases "fp_nodes q")
  case Nil
  with assms show ?thesis by (simp add: pop_Nil)
next
  case (Cons d ds)
  have wf: "fp_wf q" using assms by (simp add: fp_exact_def)
  from pop_Cons_wf [OF wf Cons] pop_Cons [OF wf Cons] assms Cons show ?thesis
    by (auto simp: fp_exact_def refill_def)
qed

lemma run_ops_exact:
  "fp_exact q \<Longrightarrow> run_ops push_data pop ops q = Inr (out, q') \<Longrightarrow> fp_exact q'"
proof (induction ops arbitrary: q out q' rule: puts.induct)
  case (2 x ops)
  then show ?case by (fastforce simp: res_simps dest: push_data_exact)
next
  case (3 ops)
  then show ?case by (fastforce simp: res_simps dest: pop_exact)
qed simp

lemma new_no_delay:
  "maxlen \<noteq> 0 \<Longrightarrow> fifo_pipeline_new 0 maxlen = Inr \<lparr>fp_min_len = 0, fp_max_len = maxlen,
     fp_length = 0, fp_n_element = 0, fp_nodes = []\<rparr>"
  by (simp add: fifo_pipeline_new_def)

text \<open>In a queue constructed without delay (every queue of the L2 and of the compression
  path), \<open>get_n_element()\<close> is at any time the number of queued elements, and so is
  \<open>get_length()\<close>.\<close>

theorem n_element_exact_without_delay:
  assumes "fifo_pipeline_new 0 maxlen = Inr q0" and "run_ops push_data pop ops q0 = Inr (out, q)"
  shows "unat (get_n_element q) = length (fp_items q) \<and> get_length q = get_n_element q"
proof -
  have "maxlen \<noteq> 0" using assms(1) by (auto simp: fifo_pipeline_new_def res_simps)
  with assms(1) have "fp_exact q0"
    by (auto simp: new_no_delay fp_exact_def fp_wf_def)
  then have "fp_exact q" using assms(2) by (rule run_ops_exact)
  then show ?thesis by (simp add: fp_exact_count) (simp add: fp_exact_def get_length_def get_n_element_def)
qed

text \<open>With a delay the constructor counts the \<open>NULL\<close> slots it inserts, \<open>pop\<close> uncounts every slot it
  removes, and the slot it inserts in exchange is not counted: the counter falls by one per pop.\<close>

definition idle :: "u32 \<Rightarrow> u32 \<Rightarrow> u32 \<Rightarrow> 'a fifo_pipeline" where
  "idle L M n = \<lparr>fp_min_len = L, fp_max_len = M, fp_length = L, fp_n_element = n,
     fp_nodes = replicate (unat L) None\<rparr>"

lemma idle_wf: "L \<le> M \<Longrightarrow> M \<noteq> 0 \<Longrightarrow> fp_wf (idle L M n)"
  by (simp add: idle_def fp_wf_def)

lemma push_null_times_append:
  assumes "unat (fp_length q) + n \<le> unat (fp_min_len q)" and "fp_min_len q \<le> fp_max_len q"
  shows "push_null_times n q = Inr (q\<lparr>fp_nodes := fp_nodes q @ replicate n None,
    fp_length := fp_length q + of_nat n, fp_n_element := fp_n_element q + of_nat n\<rparr>)"
  using assms
proof (induction n arbitrary: q)
  case 0
  then show ?case by simp
next
  case (Suc n)
  then have lt: "fp_length q < fp_min_len q" by (simp add: word_less_nat_alt)
  with Suc.prems have lt': "fp_length q < fp_max_len q" by simp
  have u: "unat (fp_length q + 1) = unat (fp_length q) + 1" using lt by (rule length_lt_max_unat)
  let ?q = "q\<lparr>fp_nodes := fp_nodes q @ [None], fp_length := fp_length q + 1,
      fp_n_element := fp_n_element q + 1\<rparr>"
  have "push None q = Inr ?q" using lt lt' by (simp add: push_def)
  moreover have "unat (fp_length ?q) + n \<le> unat (fp_min_len ?q)" using Suc.prems u by simp
  ultimately show ?case using Suc.IH [of ?q] Suc.prems(2)
    by (simp add: algebra_simps)
qed

lemma new_idle: "L \<le> M \<Longrightarrow> M \<noteq> 0 \<Longrightarrow> fifo_pipeline_new L M = Inr (idle L M L)"
  by (simp add: fifo_pipeline_new_def push_null_times_append idle_def)

lemma pop_idle:
  assumes "L \<le> M" and "L \<noteq> 0"
  shows "pop (idle L M n) = Inr (None, idle L M (n - 1))"
proof -
  have M: "M \<noteq> 0" using assms by auto
  obtain k where k: "unat L = Suc k" using assms(2) by (metis not0_implies_Suc unat_eq_zero)
  have r: "refill (idle L M n :: 'a fifo_pipeline) = [None]"
    using assms(2) by (simp add: refill_def idle_def word_less_nat_alt unat_minus_one k)
  have nodes: "fp_nodes (idle L M n :: 'a fifo_pipeline) = None # replicate k None"
    by (simp add: idle_def k)
  have "pop (idle L M n :: 'a fifo_pipeline) = Inr (None, (idle L M n)\<lparr>fp_nodes :=
      replicate k None @ [None], fp_length := L, fp_n_element := n - 1\<rparr>)"
    using pop_Cons [OF idle_wf [OF assms(1) M] nodes] by (simp add: r) (simp add: idle_def)
  also have "\<dots> = Inr (None, idle L M (n - 1))"
    by (simp add: idle_def k replicate_append_same)
  finally show ?thesis .
qed

lemma pops_idle:
  "L \<le> M \<Longrightarrow> L \<noteq> 0 \<Longrightarrow>
     pops k (idle L M n) = Inr (replicate k None, idle L M (n - of_nat k))"
  by (induction k arbitrary: n) (simp_all add: pop_idle algebra_simps)

text \<open>The counter of a delay queue underflows.  A freshly constructed queue of delay \<open>L > 0\<close>
  that is only popped reports \<open>L - k\<close> elements (modulo \<open>2 ^ 32\<close>) after \<open>k\<close> pops, although it never
  held an element: after \<open>L + 1\<close> pops \<open>get_n_element()\<close> is \<open>2 ^ 32 - 1\<close>.\<close>

theorem n_element_underflow_with_delay:
  assumes "0 < L" and "L \<le> M"
  shows "\<exists>q0 q1 :: 'a fifo_pipeline. fifo_pipeline_new L M = Inr q0 \<and>
    pops (unat L + 1) q0 = Inr (replicate (unat L + 1) None, q1) \<and>
    fp_items q0 = [] \<and> fp_items q1 = [] \<and> unat (get_n_element q1) = 2 ^ 32 - 1"
proof -
  have L: "L \<noteq> 0" and M: "M \<noteq> 0" using assms by auto
  have e: "fp_items (idle L M n :: 'a fifo_pipeline) = []" for n
    by (simp add: fp_items_def idle_def map_filter_def)
  have "L - of_nat (unat L + 1) = - 1" by simp
  then have "pops (unat L + 1) (idle L M L :: 'a fifo_pipeline) =
      Inr (replicate (unat L + 1) None, idle L M (- 1))"
    using pops_idle [OF assms(2) L, of "unat L + 1" L] by simp
  moreover have "unat (get_n_element (idle L M (- 1) :: 'a fifo_pipeline)) = 2 ^ 32 - 1"
    by (simp add: get_n_element_def idle_def unsigned_minus_1_eq_mask mask_eq_exp_minus_1)
  ultimately show ?thesis using new_idle [OF assms(2) M] e by blast
qed

text \<open>\<open>is_avilable_size\<close> answers the opposite of its name: it holds when \<open>sz\<close> more slots do not fit.\<close>

lemma is_avilable_size_means_too_small:
  assumes "fp_wf q" and "sz \<noteq> 0" and "unat (fp_length q) + unat sz < 2 ^ 32"
  shows "is_avilable_size sz q \<longleftrightarrow> unat (fp_max_len q) < unat (fp_length q) + unat sz"
proof -
  have "unat (fp_length q + sz) = unat (fp_length q) + unat sz"
    using assms(3) by (simp add: unat_add_le)
  moreover from this have "fp_length q + sz \<noteq> 0"
    using assms(2) by (metis add_is_0 unat_0 unat_eq_zero)
  ultimately have "unat (fp_length q + sz - 1) = unat (fp_length q) + unat sz - 1"
    by (simp add: unat_minus_one)
  moreover have "0 < unat sz" using assms(2) by (simp add: unat_gt_0)
  ultimately show ?thesis
    using assms(1) by (auto simp: is_avilable_size_def fp_wf_def word_le_nat_alt)
qed

end
