(* ===== verification/Cache_Block.thy ===== *)
theory Cache_Block
  imports Prelude
begin

text \<open>
  The cache blocks of \<open>src/src/gpgpu-sim/gpu-cache.h\<close>: the abstract \<open>cache_block_t\<close> (here the record
  of the fields its subclasses inherit), \<open>line_cache_block\<close> (one state per line) and
  \<open>sector_cache_block\<close> (one state per 32-byte sector, arrays of \<open>SECTOR_CHUNCK_SIZE\<close> elements as
  lists).  The virtual functions of \<open>cache_block_t\<close> are the functions on \<open>cache_block\<close>, which
  dispatch on the dynamic type.  Times are 64-bit in a line and 32-bit in a sector, as declared.

  \<open>block_contract\<close> states what the tag array relies on, for one sector mask; both subclasses are
  shown to keep it.
\<close>

section \<open>Constants and enumerations\<close>

type_synonym sector_mask = "4 word"

definition SECTOR_CHUNCK_SIZE :: nat where "SECTOR_CHUNCK_SIZE = 4"

definition SECTOR_SIZE :: u32 where "SECTOR_SIZE = 32"

datatype cache_block_state = INVALID | RESERVED | VALID | MODIFIED

datatype cache_request_status = HIT | HIT_RESERVED | MISS | RESERVATION_FAIL | SECTOR_MISS

datatype cache_reservation_fail_reason =
    LINE_ALLOC_FAIL
  | MISS_QUEUE_FULL
  | MSHR_ENRTY_FAIL
  | MSHR_MERGE_ENRTY_FAIL
  | MSHR_RW_PENDING

datatype cache_event_type =
    WRITE_BACK_REQUEST_SENT
  | READ_REQUEST_SENT
  | WRITE_REQUEST_SENT
  | WRITE_ALLOCATE_SENT

record evicted_block_info =
  ev_block_addr :: u64
  ev_modified_size :: u32

definition no_evicted_block :: evicted_block_info where
  "no_evicted_block = \<lparr>ev_block_addr = 0, ev_modified_size = 0\<rparr>"

record cache_event =
  ce_type :: cache_event_type
  ce_evicted_block :: evicted_block_info

definition cache_event_of :: "cache_event_type \<Rightarrow> cache_event" where
  "cache_event_of t = \<lparr>ce_type = t, ce_evicted_block = no_evicted_block\<rparr>"

definition mask_count :: "sector_mask \<Rightarrow> nat" where
  "mask_count m = length (filter (bit m) [0..<SECTOR_CHUNCK_SIZE])"

text \<open>\<open>mem_access_sector_mask_t().set(j)\<close>.\<close>

definition sector :: "nat \<Rightarrow> sector_mask" where
  "sector j = set_bit j 0"

section \<open>Line blocks\<close>

record cache_block_t =
  m_tag :: u64
  m_block_addr :: u64

record line_cache_block = cache_block_t +
  lb_alloc_time :: u64
  lb_last_access_time :: u64
  lb_fill_time :: u64
  lb_status :: cache_block_state
  lb_ignore_on_fill_status :: bool
  lb_set_modified_on_fill :: bool
  lb_readable :: bool

definition line_cache_block_new :: line_cache_block where
  "line_cache_block_new = \<lparr>m_tag = 0, m_block_addr = 0, lb_alloc_time = 0, lb_last_access_time = 0,
     lb_fill_time = 0, lb_status = INVALID, lb_ignore_on_fill_status = False,
     lb_set_modified_on_fill = False, lb_readable = True\<rparr>"

definition line_allocate :: "u64 \<Rightarrow> u64 \<Rightarrow> u32 \<Rightarrow> line_cache_block \<Rightarrow> line_cache_block" where
  "line_allocate tag block_addr time b = b\<lparr>m_tag := tag, m_block_addr := block_addr,
     lb_alloc_time := ucast time, lb_last_access_time := ucast time, lb_fill_time := 0,
     lb_status := RESERVED, lb_ignore_on_fill_status := False, lb_set_modified_on_fill := False\<rparr>"

definition line_fill :: "u32 \<Rightarrow> line_cache_block \<Rightarrow> line_cache_block" where
  "line_fill time b = b\<lparr>lb_status := (if lb_set_modified_on_fill b then MODIFIED else VALID),
     lb_fill_time := ucast time\<rparr>"

section \<open>Sector blocks\<close>

record sector_cache_block = cache_block_t +
  sb_sector_alloc_time :: "u32 list"
  sb_last_sector_access_time :: "u32 list"
  sb_sector_fill_time :: "u32 list"
  sb_line_alloc_time :: u32
  sb_line_last_access_time :: u32
  sb_line_fill_time :: u32
  sb_status :: "cache_block_state list"
  sb_ignore_on_fill_status :: "bool list"
  sb_set_modified_on_fill :: "bool list"
  sb_readable :: "bool list"

text \<open>\<open>init()\<close> resets every field but the tag and the block address.\<close>

definition sector_init :: "sector_cache_block \<Rightarrow> sector_cache_block" where
  "sector_init b = b\<lparr>sb_sector_alloc_time := replicate SECTOR_CHUNCK_SIZE 0,
     sb_sector_fill_time := replicate SECTOR_CHUNCK_SIZE 0,
     sb_last_sector_access_time := replicate SECTOR_CHUNCK_SIZE 0,
     sb_status := replicate SECTOR_CHUNCK_SIZE INVALID,
     sb_ignore_on_fill_status := replicate SECTOR_CHUNCK_SIZE False,
     sb_set_modified_on_fill := replicate SECTOR_CHUNCK_SIZE False,
     sb_readable := replicate SECTOR_CHUNCK_SIZE True,
     sb_line_alloc_time := 0, sb_line_last_access_time := 0, sb_line_fill_time := 0\<rparr>"

definition sector_cache_block_new :: sector_cache_block where
  "sector_cache_block_new = sector_init \<lparr>m_tag = 0, m_block_addr = 0, sb_sector_alloc_time = [],
     sb_last_sector_access_time = [], sb_sector_fill_time = [], sb_line_alloc_time = 0,
     sb_line_last_access_time = 0, sb_line_fill_time = 0, sb_status = [],
     sb_ignore_on_fill_status = [], sb_set_modified_on_fill = [], sb_readable = []\<rparr>"

definition get_sector_index :: "sector_mask \<Rightarrow> nat res" where
  "get_sector_index m = check (mask_count m = 1)
     (case find (bit m) [0..<SECTOR_CHUNCK_SIZE] of Some i \<Rightarrow> Inr i | None \<Rightarrow> Inl Undefined)"

definition sector_allocate_line ::
  "u64 \<Rightarrow> u64 \<Rightarrow> u32 \<Rightarrow> sector_mask \<Rightarrow> sector_cache_block \<Rightarrow> sector_cache_block res" where
  "sector_allocate_line tag block_addr time m b =
     (let b1 = (sector_init b)\<lparr>m_tag := tag, m_block_addr := block_addr\<rparr> in
      andThen (get_sector_index m) (\<lambda>s.
        Inr (b1\<lparr>sb_sector_alloc_time := (sb_sector_alloc_time b1)[s := time],
          sb_last_sector_access_time := (sb_last_sector_access_time b1)[s := time],
          sb_sector_fill_time := (sb_sector_fill_time b1)[s := 0],
          sb_status := (sb_status b1)[s := RESERVED],
          sb_ignore_on_fill_status := (sb_ignore_on_fill_status b1)[s := False],
          sb_set_modified_on_fill := (sb_set_modified_on_fill b1)[s := False],
          sb_line_alloc_time := time, sb_line_last_access_time := time,
          sb_line_fill_time := 0\<rparr>)))"

definition sector_is_invalid_line :: "sector_cache_block \<Rightarrow> bool" where
  "sector_is_invalid_line b \<longleftrightarrow> (\<forall>s \<in> set (sb_status b). s = INVALID)"

definition sector_allocate_sector ::
  "u32 \<Rightarrow> sector_mask \<Rightarrow> sector_cache_block \<Rightarrow> sector_cache_block res" where
  "sector_allocate_sector time m b = check (\<not> sector_is_invalid_line b)
     (andThen (get_sector_index m) (\<lambda>s.
        Inr (b\<lparr>sb_sector_alloc_time := (sb_sector_alloc_time b)[s := time],
          sb_last_sector_access_time := (sb_last_sector_access_time b)[s := time],
          sb_sector_fill_time := (sb_sector_fill_time b)[s := 0],
          sb_set_modified_on_fill := (sb_set_modified_on_fill b)[s := (sb_status b ! s = MODIFIED)],
          sb_status := (sb_status b)[s := RESERVED],
          sb_ignore_on_fill_status := (sb_ignore_on_fill_status b)[s := False],
          sb_readable := (sb_readable b)[s := True],
          sb_line_last_access_time := time, sb_line_fill_time := 0\<rparr>)))"

definition sector_fill :: "u32 \<Rightarrow> sector_mask \<Rightarrow> sector_cache_block \<Rightarrow> sector_cache_block res" where
  "sector_fill time m b = andThen (get_sector_index m) (\<lambda>s.
     Inr (b\<lparr>sb_status := (sb_status b)[s := if sb_set_modified_on_fill b ! s then MODIFIED else VALID],
       sb_sector_fill_time := (sb_sector_fill_time b)[s := time], sb_line_fill_time := time\<rparr>))"

definition sector_get_modified_size :: "sector_cache_block \<Rightarrow> u32" where
  "sector_get_modified_size b =
     of_nat (length (filter (\<lambda>s. s = MODIFIED) (sb_status b))) * SECTOR_SIZE"

section \<open>The virtual functions\<close>

datatype cache_block = Line line_cache_block | Sector sector_cache_block

fun block_tag :: "cache_block \<Rightarrow> u64" where
  "block_tag (Line b) = m_tag b"
| "block_tag (Sector b) = m_tag b"

fun block_block_addr :: "cache_block \<Rightarrow> u64" where
  "block_block_addr (Line b) = m_block_addr b"
| "block_block_addr (Sector b) = m_block_addr b"

fun block_allocate :: "u64 \<Rightarrow> u64 \<Rightarrow> u32 \<Rightarrow> sector_mask \<Rightarrow> cache_block \<Rightarrow> cache_block res" where
  "block_allocate tag ba time m (Line b) = Inr (Line (line_allocate tag ba time b))"
| "block_allocate tag ba time m (Sector b) =
     andThen (sector_allocate_line tag ba time m b) (\<lambda>b'. Inr (Sector b'))"

fun block_fill :: "u32 \<Rightarrow> sector_mask \<Rightarrow> cache_block \<Rightarrow> cache_block res" where
  "block_fill time m (Line b) = Inr (Line (line_fill time b))"
| "block_fill time m (Sector b) = andThen (sector_fill time m b) (\<lambda>b'. Inr (Sector b'))"

fun is_invalid_line :: "cache_block \<Rightarrow> bool" where
  "is_invalid_line (Line b) \<longleftrightarrow> lb_status b = INVALID"
| "is_invalid_line (Sector b) \<longleftrightarrow> sector_is_invalid_line b"

fun is_valid_line :: "cache_block \<Rightarrow> bool" where
  "is_valid_line (Line b) \<longleftrightarrow> lb_status b = VALID"
| "is_valid_line (Sector b) \<longleftrightarrow> \<not> sector_is_invalid_line b"

fun is_reserved_line :: "cache_block \<Rightarrow> bool" where
  "is_reserved_line (Line b) \<longleftrightarrow> lb_status b = RESERVED"
| "is_reserved_line (Sector b) \<longleftrightarrow> (\<exists>s \<in> set (sb_status b). s = RESERVED)"

fun is_modified_line :: "cache_block \<Rightarrow> bool" where
  "is_modified_line (Line b) \<longleftrightarrow> lb_status b = MODIFIED"
| "is_modified_line (Sector b) \<longleftrightarrow> (\<exists>s \<in> set (sb_status b). s = MODIFIED)"

fun get_status :: "sector_mask \<Rightarrow> cache_block \<Rightarrow> cache_block_state res" where
  "get_status m (Line b) = Inr (lb_status b)"
| "get_status m (Sector b) = andThen (get_sector_index m) (\<lambda>s. Inr (sb_status b ! s))"

fun set_status :: "cache_block_state \<Rightarrow> sector_mask \<Rightarrow> cache_block \<Rightarrow> cache_block res" where
  "set_status st m (Line b) = Inr (Line (b\<lparr>lb_status := st\<rparr>))"
| "set_status st m (Sector b) = andThen (get_sector_index m) (\<lambda>s.
     Inr (Sector (b\<lparr>sb_status := (sb_status b)[s := st]\<rparr>)))"

fun get_last_access_time :: "cache_block \<Rightarrow> u64" where
  "get_last_access_time (Line b) = lb_last_access_time b"
| "get_last_access_time (Sector b) = ucast (sb_line_last_access_time b)"

fun set_last_access_time :: "u64 \<Rightarrow> sector_mask \<Rightarrow> cache_block \<Rightarrow> cache_block res" where
  "set_last_access_time time m (Line b) = Inr (Line (b\<lparr>lb_last_access_time := time\<rparr>))"
| "set_last_access_time time m (Sector b) = andThen (get_sector_index m) (\<lambda>s.
     Inr (Sector (b\<lparr>sb_last_sector_access_time := (sb_last_sector_access_time b)[s := ucast time],
       sb_line_last_access_time := ucast time\<rparr>)))"

fun get_alloc_time :: "cache_block \<Rightarrow> u64" where
  "get_alloc_time (Line b) = lb_alloc_time b"
| "get_alloc_time (Sector b) = ucast (sb_line_alloc_time b)"

fun set_ignore_on_fill :: "bool \<Rightarrow> sector_mask \<Rightarrow> cache_block \<Rightarrow> cache_block res" where
  "set_ignore_on_fill v m (Line b) = Inr (Line (b\<lparr>lb_ignore_on_fill_status := v\<rparr>))"
| "set_ignore_on_fill v m (Sector b) = andThen (get_sector_index m) (\<lambda>s.
     Inr (Sector (b\<lparr>sb_ignore_on_fill_status := (sb_ignore_on_fill_status b)[s := v]\<rparr>)))"

fun set_modified_on_fill :: "bool \<Rightarrow> sector_mask \<Rightarrow> cache_block \<Rightarrow> cache_block res" where
  "set_modified_on_fill v m (Line b) = Inr (Line (b\<lparr>lb_set_modified_on_fill := v\<rparr>))"
| "set_modified_on_fill v m (Sector b) = andThen (get_sector_index m) (\<lambda>s.
     Inr (Sector (b\<lparr>sb_set_modified_on_fill := (sb_set_modified_on_fill b)[s := v]\<rparr>)))"

fun get_modified_size :: "cache_block \<Rightarrow> u32" where
  "get_modified_size (Line b) = of_nat SECTOR_CHUNCK_SIZE * SECTOR_SIZE"
| "get_modified_size (Sector b) = sector_get_modified_size b"

fun set_m_readable :: "bool \<Rightarrow> sector_mask \<Rightarrow> cache_block \<Rightarrow> cache_block res" where
  "set_m_readable v m (Line b) = Inr (Line (b\<lparr>lb_readable := v\<rparr>))"
| "set_m_readable v m (Sector b) = andThen (get_sector_index m) (\<lambda>s.
     Inr (Sector (b\<lparr>sb_readable := (sb_readable b)[s := v]\<rparr>)))"

fun is_readable :: "sector_mask \<Rightarrow> cache_block \<Rightarrow> bool res" where
  "is_readable m (Line b) = Inr (lb_readable b)"
| "is_readable m (Sector b) = andThen (get_sector_index m) (\<lambda>s. Inr (sb_readable b ! s))"

text \<open>The cast \<open>((sector_cache_block *)line)->allocate_sector\<close>: undefined on a line block.\<close>

fun block_allocate_sector :: "u32 \<Rightarrow> sector_mask \<Rightarrow> cache_block \<Rightarrow> cache_block res" where
  "block_allocate_sector time m (Line b) = Inl Undefined"
| "block_allocate_sector time m (Sector b) =
     andThen (sector_allocate_sector time m b) (\<lambda>b'. Inr (Sector b'))"

section \<open>Sector masks\<close>

definition single :: "sector_mask \<Rightarrow> bool" where
  "single m \<longleftrightarrow> mask_count m = 1"

definition sidx :: "sector_mask \<Rightarrow> nat" where
  "sidx m = hd (filter (bit m) [0..<SECTOR_CHUNCK_SIZE])"

lemma find_filter_hd: "filter P xs \<noteq> [] \<Longrightarrow> find P xs = Some (hd (filter P xs))"
  by (induction xs) auto

lemma get_sector_index_single: "single m \<Longrightarrow> get_sector_index m = Inr (sidx m)"
proof -
  assume s: "single m"
  then have "filter (bit m) [0..<SECTOR_CHUNCK_SIZE] \<noteq> []"
    by (auto simp: single_def mask_count_def)
  from find_filter_hd [OF this] s show ?thesis
    by (simp add: get_sector_index_def sidx_def single_def)
qed

lemma get_sector_index_Inr [res_simps]: "get_sector_index m = Inr s \<longleftrightarrow> single m \<and> s = sidx m"
  by (cases "single m") (auto simp: get_sector_index_single, simp add: get_sector_index_def single_def)

lemma sidx_mem: "single m \<Longrightarrow> sidx m < 4 \<and> bit m (sidx m)"
proof -
  assume "single m"
  then have "filter (bit m) [0..<SECTOR_CHUNCK_SIZE] \<noteq> []"
    by (auto simp: single_def mask_count_def)
  from hd_in_set [OF this] show ?thesis by (simp add: sidx_def SECTOR_CHUNCK_SIZE_def)
qed

lemma single_sector: "j < 4 \<Longrightarrow> single (sector j) \<and> sidx (sector j) = j"
proof -
  assume j: "j < 4"
  have b: "bit (sector j) i \<longleftrightarrow> i = j" if "i < 4" for i
    using j that by (auto simp: sector_def bit_simps)
  have "filter (bit (sector j)) [0..<4] = filter (\<lambda>i. i = j) [0..<4]"
    using b by (intro filter_cong) auto
  also have "\<dots> = [j]"
  proof -
    have "j \<in> {0, 1, 2, 3}" using j by auto
    then show ?thesis by (auto simp: upt_rec)
  qed
  finally have f: "filter (bit (sector j)) [0..<SECTOR_CHUNCK_SIZE] = [j]"
    by (simp add: SECTOR_CHUNCK_SIZE_def)
  show ?thesis unfolding single_def mask_count_def sidx_def f by simp
qed

lemma single_eq_sector: "single m \<Longrightarrow> m = sector (sidx m)"
proof -
  assume s: "single m"
  have "bit m i \<longleftrightarrow> i = sidx m" if "i < 4" for i
  proof -
    obtain x where x: "filter (bit m) [0..<4] = [x]"
      using s by (auto simp: single_def mask_count_def SECTOR_CHUNCK_SIZE_def length_Suc_conv)
    have "bit m i \<longleftrightarrow> i \<in> set (filter (bit m) [0..<4])" using that by simp
    also have "\<dots> \<longleftrightarrow> i = x" by (simp only: x list.set singleton_iff)
    finally show ?thesis using x by (simp add: sidx_def SECTOR_CHUNCK_SIZE_def)
  qed
  then show ?thesis
    using sidx_mem [OF s] by (intro bit_word_eqI) (auto simp: sector_def bit_simps)
qed

section \<open>The contract of a cache block\<close>

text \<open>\<open>status j b\<close> is the state of sector \<open>j\<close>, \<open>dirty j b\<close> whether its next fill makes it
  \<open>MODIFIED\<close>, and \<open>covers b m j\<close> whether an operation under mask \<open>m\<close> acts on sector \<open>j\<close>.\<close>

locale block_contract =
  fixes wf :: "'b \<Rightarrow> bool"
    and covers :: "'b \<Rightarrow> sector_mask \<Rightarrow> nat \<Rightarrow> bool"
    and status :: "nat \<Rightarrow> 'b \<Rightarrow> cache_block_state"
    and dirty :: "nat \<Rightarrow> 'b \<Rightarrow> bool"
    and tag :: "'b \<Rightarrow> u64"
    and allocate :: "u64 \<Rightarrow> u64 \<Rightarrow> u32 \<Rightarrow> sector_mask \<Rightarrow> 'b \<Rightarrow> 'b res"
    and fill :: "u32 \<Rightarrow> sector_mask \<Rightarrow> 'b \<Rightarrow> 'b res"
    and set_st :: "cache_block_state \<Rightarrow> sector_mask \<Rightarrow> 'b \<Rightarrow> 'b res"
    and set_dirty :: "bool \<Rightarrow> sector_mask \<Rightarrow> 'b \<Rightarrow> 'b res"
  assumes covers_own: "wf b \<Longrightarrow> single m \<Longrightarrow> covers b m (sidx m)"
    and allocate_law: "wf b \<Longrightarrow> single m \<Longrightarrow> \<exists>b'. allocate t a time m b = Inr b' \<and> wf b' \<and>
      tag b' = t \<and> covers b' = covers b \<and>
      (\<forall>j < 4. status j b' = (if covers b m j then RESERVED else INVALID) \<and> \<not> dirty j b')"
    and fill_law: "wf b \<Longrightarrow> single m \<Longrightarrow> \<exists>b'. fill time m b = Inr b' \<and> wf b' \<and> tag b' = tag b \<and>
      covers b' = covers b \<and>
      (\<forall>j < 4. status j b' = (if covers b m j then (if dirty (sidx m) b then MODIFIED else VALID)
                             else status j b) \<and> dirty j b' = dirty j b)"
    and set_st_law: "wf b \<Longrightarrow> single m \<Longrightarrow> \<exists>b'. set_st st m b = Inr b' \<and> wf b' \<and> tag b' = tag b \<and>
      covers b' = covers b \<and>
      (\<forall>j < 4. status j b' = (if covers b m j then st else status j b) \<and> dirty j b' = dirty j b)"
    and set_dirty_law: "wf b \<Longrightarrow> single m \<Longrightarrow> \<exists>b'. set_dirty v m b = Inr b' \<and> wf b' \<and>
      tag b' = tag b \<and> covers b' = covers b \<and>
      (\<forall>j < 4. status j b' = status j b \<and> dirty j b' = (if covers b m j then v else dirty j b))"
begin

text \<open>The life of a block: allocated on a miss it is reserved, the fill makes the requested sector
  valid, or modified when a write merged into the pending miss asked for it.\<close>

lemma allocate_fill:
  assumes "wf b" and "single m"
  shows "\<exists>b'. andThen (allocate t a time m b) (fill time' m) = Inr b' \<and> wf b' \<and> tag b' = t \<and>
    status (sidx m) b' = VALID"
proof -
  obtain b1 where b1: "allocate t a time m b = Inr b1" "wf b1" "tag b1 = t" "covers b1 = covers b"
    "\<forall>j < 4. status j b1 = (if covers b m j then RESERVED else INVALID) \<and> \<not> dirty j b1"
    using allocate_law [OF assms] by blast
  obtain b2 where "fill time' m b1 = Inr b2" "wf b2" "tag b2 = tag b1"
    "\<forall>j < 4. status j b2 = (if covers b1 m j then (if dirty (sidx m) b1 then MODIFIED else VALID)
                             else status j b1)"
    using fill_law [OF b1(2) assms(2)] by blast
  with b1 sidx_mem [OF assms(2)] covers_own [OF assms] show ?thesis by auto
qed

lemma allocate_dirty_fill:
  assumes "wf b" and "single m"
  shows "\<exists>b'. andThen (andThen (allocate t a time m b) (set_dirty True m)) (fill time' m) = Inr b' \<and>
    wf b' \<and> tag b' = t \<and> status (sidx m) b' = MODIFIED"
proof -
  obtain b1 where b1: "allocate t a time m b = Inr b1" "wf b1" "tag b1 = t" "covers b1 = covers b"
    using allocate_law [OF assms] by blast
  obtain b2 where b2: "set_dirty True m b1 = Inr b2" "wf b2" "tag b2 = tag b1" "covers b2 = covers b1"
    "\<forall>j < 4. dirty j b2 = (if covers b1 m j then True else dirty j b1)"
    using set_dirty_law [OF b1(2) assms(2)] by blast
  obtain b3 where "fill time' m b2 = Inr b3" "wf b3" "tag b3 = tag b2"
    "\<forall>j < 4. status j b3 = (if covers b2 m j then (if dirty (sidx m) b2 then MODIFIED else VALID)
                             else status j b2)"
    using fill_law [OF b2(2) assms(2)] by blast
  with b1 b2 sidx_mem [OF assms(2)] covers_own [OF assms] show ?thesis by auto
qed

end

fun block_wf :: "cache_block \<Rightarrow> bool" where
  "block_wf (Line b) \<longleftrightarrow> True"
| "block_wf (Sector b) \<longleftrightarrow> length (sb_sector_alloc_time b) = 4 \<and>
     length (sb_last_sector_access_time b) = 4 \<and> length (sb_sector_fill_time b) = 4 \<and>
     length (sb_status b) = 4 \<and> length (sb_ignore_on_fill_status b) = 4 \<and>
     length (sb_set_modified_on_fill b) = 4 \<and> length (sb_readable b) = 4"

fun block_covers :: "cache_block \<Rightarrow> sector_mask \<Rightarrow> nat \<Rightarrow> bool" where
  "block_covers (Line b) m j \<longleftrightarrow> True"
| "block_covers (Sector b) m j \<longleftrightarrow> j = sidx m"

fun block_state :: "nat \<Rightarrow> cache_block \<Rightarrow> cache_block_state" where
  "block_state j (Line b) = lb_status b"
| "block_state j (Sector b) = sb_status b ! j"

fun block_dirty :: "nat \<Rightarrow> cache_block \<Rightarrow> bool" where
  "block_dirty j (Line b) = lb_set_modified_on_fill b"
| "block_dirty j (Sector b) = sb_set_modified_on_fill b ! j"

lemmas sector_defs = sector_allocate_line_def sector_fill_def sector_init_def
  sector_allocate_sector_def sector_is_invalid_line_def Let_def SECTOR_CHUNCK_SIZE_def

lemma block_covers_Line: "block_covers (Line b) = (\<lambda>m j. True)"
  and block_covers_Sector: "block_covers (Sector b') = (\<lambda>m j. j = sidx m)"
  by (auto intro!: ext)

interpretation blk: block_contract block_wf block_covers block_state block_dirty block_tag
  block_allocate block_fill set_status set_modified_on_fill
proof unfold_locales
  fix b :: cache_block and m t a time st v
  assume wf: "block_wf b" and s: "single m"
  note i = get_sector_index_single [OF s] and k = sidx_mem [OF s]
  note covers = block_covers_Line block_covers_Sector
  show "block_covers b m (sidx m)" by (cases b) auto
  show "\<exists>b'. block_allocate t a time m b = Inr b' \<and> block_wf b' \<and> block_tag b' = t \<and>
      block_covers b' = block_covers b \<and>
      (\<forall>j < 4. block_state j b' = (if block_covers b m j then RESERVED else INVALID) \<and>
        \<not> block_dirty j b')"
    using wf k by (cases b) (auto simp: i sector_defs line_allocate_def covers nth_list_update)
  show "\<exists>b'. block_fill time m b = Inr b' \<and> block_wf b' \<and> block_tag b' = block_tag b \<and>
      block_covers b' = block_covers b \<and>
      (\<forall>j < 4. block_state j b' = (if block_covers b m j
           then (if block_dirty (sidx m) b then MODIFIED else VALID) else block_state j b) \<and>
        block_dirty j b' = block_dirty j b)"
    using wf k by (cases b) (auto simp: i sector_defs line_fill_def covers nth_list_update)
  show "\<exists>b'. set_status st m b = Inr b' \<and> block_wf b' \<and> block_tag b' = block_tag b \<and>
      block_covers b' = block_covers b \<and>
      (\<forall>j < 4. block_state j b' = (if block_covers b m j then st else block_state j b) \<and>
        block_dirty j b' = block_dirty j b)"
    using wf k by (cases b) (auto simp: i covers nth_list_update)
  show "\<exists>b'. set_modified_on_fill v m b = Inr b' \<and> block_wf b' \<and> block_tag b' = block_tag b \<and>
      block_covers b' = block_covers b \<and>
      (\<forall>j < 4. block_state j b' = block_state j b \<and>
        block_dirty j b' = (if block_covers b m j then v else block_dirty j b))"
    using wf k by (cases b) (auto simp: i covers nth_list_update)
qed

section \<open>Lines and sectors\<close>

lemma mem_nth4: "length xs = 4 \<Longrightarrow> v \<in> set xs \<longleftrightarrow> (\<exists>j < 4. xs ! j = v)"
  by (auto simp: in_set_conv_nth)

lemma all_set_nth4: "length xs = 4 \<Longrightarrow> (\<forall>x \<in> set xs. x = v) \<longleftrightarrow> (\<forall>j < 4. xs ! j = v)"
  by (simp add: all_set_conv_all_nth)

lemma ex_lt4 [simp]: "\<exists>j. j < (4 :: nat)"
  by (rule exI [of _ 0]) simp

lemma is_invalid_line_iff: "block_wf b \<Longrightarrow> is_invalid_line b \<longleftrightarrow> (\<forall>j < 4. block_state j b = INVALID)"
  by (cases b) (use ex_lt4 in \<open>auto simp: sector_is_invalid_line_def all_set_nth4\<close>)

lemma is_reserved_line_iff: "block_wf b \<Longrightarrow> is_reserved_line b \<longleftrightarrow> (\<exists>j < 4. block_state j b = RESERVED)"
  by (cases b) (auto simp: mem_nth4)

lemma is_modified_line_iff: "block_wf b \<Longrightarrow> is_modified_line b \<longleftrightarrow> (\<exists>j < 4. block_state j b = MODIFIED)"
  by (cases b) (auto simp: mem_nth4)

lemma get_status_single:
  "block_wf b \<Longrightarrow> single m \<Longrightarrow> get_status m b = Inr (block_state (sidx m) b)"
  by (cases b) (auto simp: get_sector_index_single)

lemma get_status_Inr: "get_status m b = Inr s \<Longrightarrow> s = block_state (sidx m) b"
  by (cases b) (auto simp: res_simps)

lemma set_last_access_time_ok:
  assumes "block_wf b" and "single m"
  shows "\<exists>b'. set_last_access_time t m b = Inr b' \<and> block_wf b' \<and> block_tag b' = block_tag b \<and>
    block_block_addr b' = block_block_addr b \<and> (\<forall>j. block_state j b' = block_state j b) \<and>
    (\<forall>j. block_dirty j b' = block_dirty j b)"
  using assms by (cases b) (auto simp: get_sector_index_single)

lemma block_allocate_sector_ok:
  assumes "block_wf (Sector b)" and "single m" and "\<not> is_invalid_line (Sector b)"
  shows "\<exists>b'. block_allocate_sector t m (Sector b) = Inr (Sector b') \<and> block_wf (Sector b') \<and>
    m_tag b' = m_tag b \<and> m_block_addr b' = m_block_addr b \<and>
    (\<forall>j < 4. sb_status b' ! j = (if j = sidx m then RESERVED else sb_status b ! j) \<and>
       sb_set_modified_on_fill b' ! j =
         (if j = sidx m then sb_status b ! j = MODIFIED else sb_set_modified_on_fill b ! j))"
  using assms sidx_mem [OF assms(2)]
  by (auto simp: get_sector_index_single sector_defs nth_list_update)

text \<open>A dirty sector that is fetched again keeps its dirty mark.  Under fetch-on-write, a read of
  a sector that was partially written (\<open>MODIFIED\<close> but not readable) reserves the sector again with
  \<open>allocate_sector\<close>; when the data arrives the sector is \<open>MODIFIED\<close>, not \<open>VALID\<close>, so the write is
  not lost on eviction, and the other sectors of the line are untouched.\<close>

theorem refetch_keeps_dirty:
  assumes "block_wf (Sector b)" and "single m" and "sb_status b ! sidx m = MODIFIED"
  shows "\<exists>b'. andThen (block_allocate_sector t m (Sector b)) (block_fill t' m) = Inr (Sector b') \<and>
    sb_status b' ! sidx m = MODIFIED \<and> m_tag b' = m_tag b \<and>
    (\<forall>j < 4. j \<noteq> sidx m \<longrightarrow> sb_status b' ! j = sb_status b ! j)"
proof -
  note k = sidx_mem [OF assms(2)]
  have "\<not> is_invalid_line (Sector b)" using assms k is_invalid_line_iff [OF assms(1)] by force
  from block_allocate_sector_ok [OF assms(1,2) this, of t] obtain b1 where
    b1: "block_allocate_sector t m (Sector b) = Inr (Sector b1)" "block_wf (Sector b1)"
      "m_tag b1 = m_tag b" "\<forall>j < 4. sb_status b1 ! j = (if j = sidx m then RESERVED else sb_status b ! j)"
      "sb_set_modified_on_fill b1 ! sidx m" using assms(3) k by auto
  have "block_fill t' m (Sector b1) = Inr (Sector (b1\<lparr>
      sb_status := (sb_status b1)[sidx m := MODIFIED],
      sb_sector_fill_time := (sb_sector_fill_time b1)[sidx m := t'], sb_line_fill_time := t'\<rparr>))"
    using b1(5) by (simp add: sector_fill_def get_sector_index_single [OF assms(2)])
  with b1 k show ?thesis by (auto simp: nth_list_update)
qed

text \<open>What an eviction writes back: 32 bytes per modified sector, at most a line.\<close>

lemma unat_SECTOR_SIZE [simp]: "unat SECTOR_SIZE = 32"
  by (simp add: SECTOR_SIZE_def)

lemma modified_size_sector:
  assumes "block_wf (Sector b)"
  shows "unat (get_modified_size (Sector b)) = 32 * card {j. j < 4 \<and> block_state j (Sector b) = MODIFIED}"
proof -
  let ?n = "length (filter (\<lambda>s. s = MODIFIED) (sb_status b))"
  have "?n = card {j. j < 4 \<and> sb_status b ! j = MODIFIED}"
    using assms by (simp add: length_filter_conv_card)
  moreover have "?n \<le> 4" using assms length_filter_le [of _ "sb_status b"] by simp
  then have "unat (of_nat ?n * SECTOR_SIZE :: u32) = ?n * 32"
    by (simp add: unat_mult_le unat_of_nat_lt)
  ultimately show ?thesis by (simp add: sector_get_modified_size_def)
qed

lemma modified_size_bounds:
  assumes "block_wf b" and "is_modified_line b"
  shows "32 \<le> unat (get_modified_size b) \<and> unat (get_modified_size b) \<le> 128"
proof (cases b)
  case (Line l)
  then show ?thesis by (simp add: SECTOR_CHUNCK_SIZE_def SECTOR_SIZE_def)
next
  case (Sector s)
  let ?M = "{j. j < 4 \<and> block_state j (Sector s) = MODIFIED}"
  have "?M \<noteq> {}" using is_modified_line_iff [OF assms(1)] assms(2) Sector by auto
  then have "1 \<le> card ?M" by (simp add: Suc_leI card_gt_0_iff)
  moreover have "card ?M \<le> card {..<4::nat}" by (intro card_mono) auto
  ultimately show ?thesis using modified_size_sector [of s] assms(1) Sector by simp
qed

end
