(* ===== verification/Gpu_Misc.thy ===== *)
theory Gpu_Misc
  imports Prelude
begin

text \<open>
  \<open>src/src/gpgpu-sim/gpu-misc.{h,cc}\<close>: the branch-free integer logarithm every size parameter of
  the caches goes through, and the minimum macros.  Shown: \<open>LOGB2\<close> is the floor of the binary
  logarithm for every non-zero 32-bit argument, and exact on powers of two.
\<close>

section \<open>Model\<close>

definition LOGB2 :: "u32 \<Rightarrow> u32" where
  "LOGB2 v0 =
    (let r0 = 0;
         s1 = (if v0 AND 0xFFFF0000 \<noteq> 0 then 16 else 0); v1 = drop_bit s1 v0; r1 = r0 OR of_nat s1;
         s2 = (if v1 AND 0xFF00 \<noteq> 0 then 8 else 0); v2 = drop_bit s2 v1; r2 = r1 OR of_nat s2;
         s3 = (if v2 AND 0xF0 \<noteq> 0 then 4 else 0); v3 = drop_bit s3 v2; r3 = r2 OR of_nat s3;
         s4 = (if v3 AND 0xC \<noteq> 0 then 2 else 0); v4 = drop_bit s4 v3; r4 = r3 OR of_nat s4;
         s5 = (if v4 AND 0x2 \<noteq> 0 then 1 else 0); r5 = r4 OR of_nat s5
     in r5)"

definition gs_min2 :: "u32 \<Rightarrow> u32 \<Rightarrow> u32" where
  "gs_min2 a b = (if a < b then a else b)"

definition min3 :: "u32 \<Rightarrow> u32 \<Rightarrow> u32 \<Rightarrow> u32" where
  "min3 x y z = (if x < y \<and> x < z then x else gs_min2 y z)"

section \<open>Correctness\<close>

text \<open>One halving step: the upper \<open>k\<close> of \<open>2 * k\<close> bits are tested and shifted out when set.\<close>

lemma upper_bits_zero:
  fixes n :: nat
  assumes "n < 2 ^ (k + k)"
  shows "n AND push_bit k (mask k) = 0 \<longleftrightarrow> n < 2 ^ k"
proof -
  have "n AND push_bit k (mask k) = push_bit k (take_bit k (drop_bit k n))"
    by (rule bit_eqI) (auto simp: bit_simps)
  also have "take_bit k (drop_bit k n) = n div 2 ^ k"
    using assms by (simp add: take_bit_eq_mod drop_bit_eq_div less_mult_imp_div_less power_add)
  also have "push_bit k (n div 2 ^ k) = 0 \<longleftrightarrow> n < 2 ^ k"
    by (simp add: push_bit_eq_mult div_eq_0_iff)
  finally show ?thesis .
qed

lemma halving_step:
  fixes v m :: u32
  assumes v: "unat v < 2 ^ (k + k)" "0 < unat v" and m: "unat m = push_bit k (mask k)"
    and s: "s = (if v AND m \<noteq> 0 then k else 0)"
  shows "unat (drop_bit s v) < 2 ^ k \<and> 0 < unat (drop_bit s v)"
proof -
  have "v AND m = 0 \<longleftrightarrow> unat v AND push_bit k (mask k) = 0"
    by (simp add: m [symmetric] unsigned_and_eq [symmetric] unat_eq_zero)
  then have z: "v AND m = 0 \<longleftrightarrow> unat v < 2 ^ k" by (simp add: upper_bits_zero [OF v(1)])
  have "unat v div 2 ^ k < 2 ^ k"
    using v(1) by (simp add: less_mult_imp_div_less power_add)
  with z v(2) show ?thesis
    by (auto simp: s unat_drop_bit div_greater_zero_iff)
qed

lemma floor_log_unique:
  assumes "(n::nat) div 2 ^ r = 1"
  shows "2 ^ r \<le> n \<and> n < 2 ^ Suc r"
proof -
  have "n = 2 ^ r * (n div 2 ^ r) + n mod 2 ^ r" by simp
  with assms have "n = 2 ^ r + n mod 2 ^ r" by simp
  moreover have "n mod 2 ^ r < 2 ^ r" by simp
  ultimately show ?thesis by (simp del: mod_less_divisor)
qed

lemma LOGB2_bounds:
  assumes "v \<noteq> 0"
  shows "2 ^ unat (LOGB2 v) \<le> unat v \<and> unat v < 2 ^ Suc (unat (LOGB2 v))"
proof -
  define s1 where "s1 = (if v AND 0xFFFF0000 \<noteq> 0 then 16 else 0::nat)"
  define v1 where "v1 = drop_bit s1 v"
  define s2 where "s2 = (if v1 AND 0xFF00 \<noteq> 0 then 8 else 0::nat)"
  define v2 where "v2 = drop_bit s2 v1"
  define s3 where "s3 = (if v2 AND 0xF0 \<noteq> 0 then 4 else 0::nat)"
  define v3 where "v3 = drop_bit s3 v2"
  define s4 where "s4 = (if v3 AND 0xC \<noteq> 0 then 2 else 0::nat)"
  define v4 where "v4 = drop_bit s4 v3"
  define s5 where "s5 = (if v4 AND 0x2 \<noteq> 0 then 1 else 0::nat)"
  have pos: "0 < unat v" using assms by (simp add: unat_gt_0)
  have "unat v < 2 ^ (16 + 16)" using unat_lt [of v] by simp
  then have b1: "unat v1 < 2 ^ (8 + 8) \<and> 0 < unat v1"
    using halving_step [OF _ pos _ s1_def] by (simp add: v1_def mask_eq_exp_minus_1 push_bit_eq_mult)
  then have b2: "unat v2 < 2 ^ (4 + 4) \<and> 0 < unat v2"
    using halving_step [OF _ _ _ s2_def] by (simp add: v2_def mask_eq_exp_minus_1 push_bit_eq_mult)
  then have b3: "unat v3 < 2 ^ (2 + 2) \<and> 0 < unat v3"
    using halving_step [OF _ _ _ s3_def] by (simp add: v3_def mask_eq_exp_minus_1 push_bit_eq_mult)
  then have b4: "unat v4 < 2 ^ (1 + 1) \<and> 0 < unat v4"
    using halving_step [OF _ _ _ s4_def] by (simp add: v4_def mask_eq_exp_minus_1 push_bit_eq_mult)
  then have "unat (drop_bit s5 v4) < 2 ^ 1 \<and> 0 < unat (drop_bit s5 v4)"
    using halving_step [OF _ _ _ s5_def] by (simp add: mask_eq_exp_minus_1 push_bit_eq_mult)
  then have one: "unat (drop_bit s5 v4) = 1" by simp
  have "unat v div 2 ^ (s1 + s2 + s3 + s4 + s5) = 1"
    using one by (simp add: v4_def v3_def v2_def v1_def unat_drop_bit add.commute add.left_commute)
  moreover have "LOGB2 v = of_nat s1 OR of_nat s2 OR of_nat s3 OR of_nat s4 OR of_nat s5"
    unfolding LOGB2_def Let_def s1_def [symmetric] v1_def [symmetric] s2_def [symmetric]
      v2_def [symmetric] s3_def [symmetric] v3_def [symmetric] s4_def [symmetric]
      v4_def [symmetric] s5_def [symmetric]
    by (simp add: or.assoc)
  then have "unat (LOGB2 v) = s1 + s2 + s3 + s4 + s5"
    by (simp add: s1_def s2_def s3_def s4_def s5_def)
  ultimately show ?thesis using floor_log_unique by metis
qed

text \<open>\<open>LOGB2\<close> is the floor of the binary logarithm: for every non-zero 32-bit \<open>v\<close>,
  \<open>2 ^ LOGB2 v \<le> v < 2 ^ (LOGB2 v + 1)\<close>.\<close>

theorem LOGB2_floor_log:
  "v \<noteq> 0 \<Longrightarrow> 2 ^ unat (LOGB2 v) \<le> unat v \<and> unat v < 2 ^ Suc (unat (LOGB2 v))"
  by (rule LOGB2_bounds)

lemma LOGB2_power: "n < 32 \<Longrightarrow> unat (LOGB2 (2 ^ n)) = n"
proof -
  assume n: "n < 32"
  then have u: "unat (2 ^ n :: u32) = 2 ^ n" by (simp add: unat_two_power)
  then have "(2 ^ n :: u32) \<noteq> 0" by (metis power_not_zero unat_0 zero_neq_numeral)
  from LOGB2_bounds [OF this] u have "unat (LOGB2 (2 ^ n)) \<le> n" "n < Suc (unat (LOGB2 (2 ^ n)))"
    by (simp_all add: power_less_imp_less_exp [of 2] del: power_Suc)
  then show ?thesis by simp
qed

lemma min3_correct: "min3 x y z = min x (min y z)"
  by (auto simp: min3_def gs_min2_def min_def)

end
