(* ===== verification/Hashing.thy ===== *)
theory Hashing
  imports Prelude
begin

text \<open>
  \<open>src/src/gpgpu-sim/hashing.cc\<close>: the index hash functions of the cache sets, the L1 banks and
  the memory partitions.  A \<open>std::bitset\<close> is read through \<open>bit\<close>; \<open>^\<close> on bits is \<open>bxor\<close>;
  \<open>to_ulong\<close> is \<open>to_u32\<close>, least significant bit first.

  Shown: each of the three IPOLY tables computes the residue of the line address modulo an
  irreducible polynomial over GF(2) (the reference definition \<open>residue\<close>; for 16 sets it is not the one
  the comment names).  From that, the lines at a power-of-two stride from an aligned base fall into
  pairwise different sets as long as the table reads the bits they differ in; the comment promises it of
  all strides, but unaligned neighbours and strides beyond the table collide.  The PAE table, in which
  three pairs of terms cancel, maps the 32 indices onto at most 16.
\<close>

section \<open>Model\<close>

definition bxor :: "bool \<Rightarrow> bool \<Rightarrow> bool" where
  "bxor a b \<longleftrightarrow> a \<noteq> b"

definition xors :: "bool list \<Rightarrow> bool" where
  "xors bs = foldr bxor bs False"

definition to_u32 :: "bool list \<Rightarrow> u32" where
  "to_u32 bs = horner_sum of_bool 2 bs"

definition ipoly_hash_function :: "u64 \<Rightarrow> u32 \<Rightarrow> u32 \<Rightarrow> u32 res" where
  "ipoly_hash_function higher_bits index bank_set_num =
    (let a = bit higher_bits; b = bit index in
     if bank_set_num = 16 then Inr (to_u32
       [xors [a 11, a 10, a 9, a 8, a 6, a 4, a 3, a 0, b 0],
        xors [a 12, a 8, a 7, a 6, a 5, a 3, a 1, a 0, b 1],
        xors [a 9, a 8, a 7, a 6, a 4, a 2, a 1, b 2],
        xors [a 10, a 9, a 8, a 7, a 5, a 3, a 2, b 3]])
     else if bank_set_num = 32 then Inr (to_u32
       [xors [a 13, a 12, a 11, a 10, a 9, a 6, a 5, a 3, a 0, b 0],
        xors [a 14, a 13, a 12, a 11, a 10, a 7, a 6, a 4, a 1, b 1],
        xors [a 14, a 10, a 9, a 8, a 7, a 6, a 3, a 2, a 0, b 2],
        xors [a 11, a 10, a 9, a 8, a 7, a 4, a 3, a 1, b 3],
        xors [a 12, a 11, a 10, a 9, a 8, a 5, a 4, a 2, b 4]])
     else if bank_set_num = 64 then Inr (to_u32
       [xors [a 18, a 17, a 16, a 15, a 12, a 10, a 6, a 5, a 0, b 0],
        xors [a 15, a 13, a 12, a 11, a 10, a 7, a 5, a 1, a 0, b 1],
        xors [a 16, a 14, a 13, a 12, a 11, a 8, a 6, a 2, a 1, b 2],
        xors [a 17, a 15, a 14, a 13, a 12, a 9, a 7, a 3, a 2, b 3],
        xors [a 18, a 16, a 15, a 14, a 13, a 10, a 8, a 4, a 3, b 4],
        xors [a 17, a 16, a 15, a 14, a 11, a 9, a 5, a 4, b 5]])
     else Inl Assertion)"

definition bitwise_hash_function :: "u64 \<Rightarrow> u32 \<Rightarrow> u32 \<Rightarrow> u32" where
  "bitwise_hash_function higher_bits index bank_set_num =
     ucast (ucast index XOR (higher_bits AND ucast (bank_set_num - 1)))"

definition PAE_hash_function :: "u64 \<Rightarrow> u32 \<Rightarrow> u32 \<Rightarrow> u32 res" where
  "PAE_hash_function higher_bits index bank_set_num =
    (let a = bit higher_bits; b = bit index in
     if bank_set_num = 32 then Inr (to_u32
       [xors [a 13, a 10, a 9, a 5, a 0, b 3, b 0, b 0],
        xors [a 12, a 11, a 6, a 1, b 3, b 2, b 1, b 1],
        xors [a 14, a 9, a 8, a 7, a 2, b 1, b 2],
        xors [a 11, a 10, a 8, a 3, b 2, b 3, b 3],
        xors [a 12, a 9, a 8, a 5, a 4, b 1, b 0, b 4]])
     else Inl Assertion)"

section \<open>Exclusive-or of bits and bit vectors\<close>

lemma bxor_commute: "bxor a b = bxor b a"
  and bxor_left_commute: "bxor a (bxor b c) = bxor b (bxor a c)"
  and bxor_assoc: "bxor (bxor a b) c = bxor a (bxor b c)"
  and bxor_False [simp]: "bxor False b = b" "bxor b False = b"
  and bxor_self [simp]: "bxor a a = False"
  and bxor_left_self [simp]: "bxor a (bxor a b) = b"
  by (auto simp: bxor_def)

lemmas bxor_ac = bxor_assoc bxor_commute bxor_left_commute

lemma bxor_cancel_right: "bxor a b = bxor a' b \<longleftrightarrow> a = a'"
  by (auto simp: bxor_def)

lemma bxor_cancel_left: "bxor b a = bxor b a' \<longleftrightarrow> a = a'"
  by (auto simp: bxor_def)

lemma bit_to_u32: "bit (to_u32 bs) n \<longleftrightarrow> n < length bs \<and> n < 32 \<and> bs ! n"
  by (auto simp: to_u32_def bit_horner_sum_bit_word_iff)

lemma to_u32_inject:
  assumes "length xs = length ys" and "length xs \<le> 32" and "to_u32 xs = to_u32 ys"
  shows "xs = ys"
proof (rule nth_equalityI)
  fix i assume "i < length xs"
  then have "bit (to_u32 xs) i \<longleftrightarrow> xs ! i" "bit (to_u32 ys) i \<longleftrightarrow> ys ! i"
    using assms(1,2) by (auto simp: bit_to_u32)
  with assms(3) show "xs ! i = ys ! i" by simp
qed (fact assms(1))

lemma to_u32_bound:
  assumes "length bs < 32"
  shows "unat (to_u32 bs) < 2 ^ length bs"
proof -
  have "to_u32 bs = take_bit (length bs) (to_u32 bs)"
    by (rule bit_word_eqI) (auto simp: bit_take_bit_iff bit_to_u32)
  then have "unat (to_u32 bs) = take_bit (length bs) (unat (to_u32 bs))"
    by (metis unsigned_take_bit_eq)
  then show ?thesis by (metis take_bit_nat_less_exp)
qed

section \<open>Reference: residues of polynomials over GF(2)\<close>

text \<open>A residue modulo a polynomial of degree \<open>k\<close> is a list of \<open>k\<close> coefficients.  \<open>taps\<close> are the
  lower coefficients of the modulus, so \<open>x ^ k = taps\<close>.  \<open>mulx\<close> multiplies by \<open>x\<close>; \<open>residue\<close> is
  Horner's scheme over the bits of the address, least significant first.\<close>

definition mulx :: "bool list \<Rightarrow> bool list \<Rightarrow> bool list" where
  "mulx taps r = map2 (\<lambda>p b. bxor (p \<and> last r) b) taps (False # butlast r)"

definition vxor :: "bool list \<Rightarrow> bool list \<Rightarrow> bool list" where
  "vxor xs ys = map2 bxor xs ys"

definition unit_vec :: "nat \<Rightarrow> bool \<Rightarrow> bool list" where
  "unit_vec k b = b # replicate (k - 1) False"

definition residue :: "bool list \<Rightarrow> bool list \<Rightarrow> bool list" where
  "residue taps bs =
     foldr (\<lambda>b r. vxor (unit_vec (length taps) b) (mulx taps r)) bs (replicate (length taps) False)"

text \<open>The moduli \<open>x^4 + x + 1\<close>, \<open>x^5 + x^2 + 1\<close> and \<open>x^6 + x + 1\<close>, and the number of address
  bits each table reads.\<close>

fun ipoly_taps :: "nat \<Rightarrow> bool list" where
  "ipoly_taps k = (if k = 4 then [True, True, False, False]
                   else if k = 5 then [True, False, True, False, False]
                   else [True, True, False, False, False, False])"

fun ipoly_bits :: "nat \<Rightarrow> nat" where
  "ipoly_bits k = (if k = 4 then 17 else if k = 5 then 20 else 25)"

definition ipoly_index :: "nat \<Rightarrow> u64 \<Rightarrow> u32 res" where
  "ipoly_index k line =
     ipoly_hash_function (drop_bit k line) (ucast (line AND mask k)) (2 ^ k)"

lemmas residue_eval = residue_def mulx_def vxor_def unit_vec_def xors_def

lemma upt_eval: "[0..<17] = [0,1,2,3,4,5,6,7,8,9,10,11,12,13,14,15,16]"
  "[0..<20] = [0,1,2,3,4,5,6,7,8,9,10,11,12,13,14,15,16,17,18,19]"
  "[0..<25] = [0,1,2,3,4,5,6,7,8,9,10,11,12,13,14,15,16,17,18,19,20,21,22,23,24]"
  by (simp_all add: upt_rec)

text \<open>The tables are evaluated from the highest bit down, so that the accumulator stays in normal
  form.\<close>

lemma residue_fold:
  "residue taps bs = fold (\<lambda>b r. vxor (unit_vec (length taps) b) (mulx taps r)) (rev bs)
     (replicate (length taps) False)"
  by (simp add: residue_def foldr_conv_fold)

lemma residue_table_4: "residue (ipoly_taps 4)
    [b0, b1, b2, b3, b4, b5, b6, b7, b8, b9, b10, b11, b12, b13, b14, b15, b16] =
   [xors [b15, b14, b13, b12, b10, b8, b7, b4, b0],
    xors [b16, b12, b11, b10, b9, b7, b5, b4, b1],
    xors [b13, b12, b11, b10, b8, b6, b5, b2],
    xors [b14, b13, b12, b11, b9, b7, b6, b3]]"
  by (simp add: residue_fold mulx_def vxor_def unit_vec_def xors_def bxor_ac)

lemma ipoly_residue_4:
  "ipoly_index 4 line = Inr (to_u32 (residue (ipoly_taps 4) (map (bit line) [0..<17])))"
  by (simp add: ipoly_index_def ipoly_hash_function_def upt_eval residue_table_4 bit_simps
      del: ipoly_taps.simps)

lemma residue_table_5: "residue (ipoly_taps 5)
    [b0, b1, b2, b3, b4, b5, b6, b7, b8, b9, b10, b11, b12, b13, b14, b15, b16, b17, b18,
    b19] =
   [xors [b18, b17, b16, b15, b14, b11, b10, b8, b5, b0],
    xors [b19, b18, b17, b16, b15, b12, b11, b9, b6, b1],
    xors [b19, b15, b14, b13, b12, b11, b8, b7, b5, b2],
    xors [b16, b15, b14, b13, b12, b9, b8, b6, b3],
    xors [b17, b16, b15, b14, b13, b10, b9, b7, b4]]"
  by (simp add: residue_fold mulx_def vxor_def unit_vec_def xors_def bxor_ac)

lemma ipoly_residue_5:
  "ipoly_index 5 line = Inr (to_u32 (residue (ipoly_taps 5) (map (bit line) [0..<20])))"
  by (simp add: ipoly_index_def ipoly_hash_function_def upt_eval residue_table_5 bit_simps
      del: ipoly_taps.simps)

lemma residue_table_6: "residue (ipoly_taps 6)
    [b0, b1, b2, b3, b4, b5, b6, b7, b8, b9, b10, b11, b12, b13, b14, b15, b16, b17, b18,
    b19, b20, b21, b22, b23, b24] =
   [xors [b24, b23, b22, b21, b18, b16, b12, b11, b6, b0],
    xors [b21, b19, b18, b17, b16, b13, b11, b7, b6, b1],
    xors [b22, b20, b19, b18, b17, b14, b12, b8, b7, b2],
    xors [b23, b21, b20, b19, b18, b15, b13, b9, b8, b3],
    xors [b24, b22, b21, b20, b19, b16, b14, b10, b9, b4],
    xors [b23, b22, b21, b20, b17, b15, b11, b10, b5]]"
  by (simp add: residue_fold mulx_def vxor_def unit_vec_def xors_def bxor_ac)

lemma ipoly_residue_6:
  "ipoly_index 6 line = Inr (to_u32 (residue (ipoly_taps 6) (map (bit line) [0..<25])))"
  by (simp add: ipoly_index_def ipoly_hash_function_def upt_eval residue_table_6 bit_simps
      del: ipoly_taps.simps)

text \<open>Polynomials over GF(2) as lists of coefficients, the constant first.  A polynomial is irreducible if it
  is no product of two polynomials (with a leading coefficient) of positive degree.\<close>

fun padd :: "bool list \<Rightarrow> bool list \<Rightarrow> bool list" where
  "padd [] ys = ys"
| "padd (x # xs) [] = x # xs"
| "padd (x # xs) (y # ys) = bxor x y # padd xs ys"

fun pmul :: "bool list \<Rightarrow> bool list \<Rightarrow> bool list" where
  "pmul [] ys = []"
| "pmul (x # xs) ys = padd (map ((\<and>) x) ys) (False # pmul xs ys)"

definition gf2_irreducible :: "bool list \<Rightarrow> bool" where
  "gf2_irreducible p \<longleftrightarrow> 2 \<le> length p \<and>
     (\<forall>xs ys. xs \<noteq> [] \<and> ys \<noteq> [] \<and> last xs \<and> last ys \<and> pmul xs ys = p \<longrightarrow> length xs = 1 \<or> length ys = 1)"

lemma length_padd [simp]: "length (padd xs ys) = max (length xs) (length ys)"
  by (induction xs ys rule: padd.induct) auto

lemma length_pmul: "xs \<noteq> [] \<Longrightarrow> ys \<noteq> [] \<Longrightarrow> last xs \<Longrightarrow> length (pmul xs ys) + 1 = length xs + length ys"
proof (induction xs)
  case (Cons x xs)
  then have "1 \<le> length ys" by (simp add: Suc_le_eq)
  with Cons show ?case by (cases "xs = []") auto
qed simp

text \<open>Two factors of positive degree leave finitely many lengths; each is refuted coefficient by coefficient.\<close>

lemma length_last_2: "length xs = 2 \<Longrightarrow> last xs \<Longrightarrow> \<exists>a. xs = [a, True]"
  by (cases xs; cases "tl xs"; simp)

lemma length_last_3: "length xs = 3 \<Longrightarrow> last xs \<Longrightarrow> \<exists>a b. xs = [a, b, True]"
  by (auto simp: length_Suc_conv numeral_eq_Suc)

lemma length_last_4: "length xs = 4 \<Longrightarrow> last xs \<Longrightarrow> \<exists>a b c. xs = [a, b, c, True]"
  by (auto simp: length_Suc_conv numeral_eq_Suc)

lemma length_last_5: "length xs = 5 \<Longrightarrow> last xs \<Longrightarrow> \<exists>a b c d. xs = [a, b, c, d, True]"
  by (auto simp: length_Suc_conv numeral_eq_Suc)

lemma length_last_6: "length xs = 6 \<Longrightarrow> last xs \<Longrightarrow> \<exists>a b c d e. xs = [a, b, c, d, e, True]"
  by (auto simp: length_Suc_conv numeral_eq_Suc)

lemmas length_last = length_last_2 length_last_3 length_last_4 length_last_5 length_last_6

lemma irreducible_by_lengths:
  assumes "2 \<le> length p"
    and "\<And>xs ys. length xs + length ys = length p + 1 \<Longrightarrow> 2 \<le> length xs \<Longrightarrow> 2 \<le> length ys \<Longrightarrow>
      last xs \<Longrightarrow> last ys \<Longrightarrow> pmul xs ys \<noteq> p"
  shows "gf2_irreducible p"
  unfolding gf2_irreducible_def
proof (intro conjI allI impI, rule assms(1), rule ccontr)
  fix xs ys assume h: "xs \<noteq> [] \<and> ys \<noteq> [] \<and> last xs \<and> last ys \<and> pmul xs ys = p" "\<not> (length xs = 1 \<or> length ys = 1)"
  then have "0 < length xs" "0 < length ys" by simp_all
  then have "2 \<le> length xs" "2 \<le> length ys" using h(2) by linarith+
  moreover have "length xs + length ys = length p + 1" using length_pmul [of xs ys] h(1) by auto
  ultimately show False using assms(2) h(1) by blast
qed

lemma irreducible_19: "gf2_irreducible [True, True, False, False, True]"
proof (rule irreducible_by_lengths)
  fix xs ys :: "bool list" assume l: "length xs + length ys = length [True, True, False, False, True] + 1"
    "2 \<le> length xs" "2 \<le> length ys" "last xs" "last ys"
  then consider "length xs = 2" "length ys = 4" | "length xs = 3" "length ys = 3" | "length xs = 4" "length ys = 2"
    by (simp; linarith)
  then show "pmul xs ys \<noteq> [True, True, False, False, True]"
    by cases (use l in \<open>auto simp: bxor_def dest!: length_last\<close>)
qed simp

lemma irreducible_37: "gf2_irreducible [True, False, True, False, False, True]"
proof (rule irreducible_by_lengths)
  fix xs ys :: "bool list" assume l: "length xs + length ys = length [True, False, True, False, False, True] + 1"
    "2 \<le> length xs" "2 \<le> length ys" "last xs" "last ys"
  then consider "length xs = 2" "length ys = 5" | "length xs = 3" "length ys = 4" | "length xs = 4" "length ys = 3"
    | "length xs = 5" "length ys = 2"
    by (simp; linarith)
  then show "pmul xs ys \<noteq> [True, False, True, False, False, True]"
    by cases (use l in \<open>auto simp: bxor_def dest!: length_last\<close>)
qed simp

lemma irreducible_67: "gf2_irreducible [True, True, False, False, False, False, True]"
proof (rule irreducible_by_lengths)
  fix xs ys :: "bool list" assume l: "length xs + length ys = length [True, True, False, False, False, False, True] + 1"
    "2 \<le> length xs" "2 \<le> length ys" "last xs" "last ys"
  then consider "length xs = 2" "length ys = 6" | "length xs = 3" "length ys = 5" | "length xs = 4" "length ys = 4"
    | "length xs = 5" "length ys = 3" | "length xs = 6" "length ys = 2"
    by (simp; linarith)
  then show "pmul xs ys \<noteq> [True, True, False, False, False, False, True]"
    by cases (use l in \<open>auto simp: bxor_def dest!: length_last\<close>)
qed simp

text \<open>C39: the IPOLY table of each supported size computes the residue of the line address modulo
  an irreducible polynomial over GF(2).  The line address is the concatenation of \<open>higher_bits\<close>
  and the \<open>k\<close>-bit index, read up to the highest bit the table mentions.  As numbers the polynomials are
  19, 37 and 67; the comment in the source says 5 for 16 banks.\<close>

theorem ipoly_is_polynomial_residue:
  assumes "k \<in> {4, 5, 6}"
  shows "ipoly_index k line =
      Inr (to_u32 (residue (ipoly_taps k) (map (bit line) [0..<ipoly_bits k]))) \<and>
    gf2_irreducible (ipoly_taps k @ [True]) \<and>
    horner_sum of_bool 2 (ipoly_taps k @ [True]) = (if k = 4 then 19 else if k = 5 then 37 else 67 :: nat)"
proof -
  consider "k = 4" | "k = 5" | "k = 6" using assms by blast
  then show ?thesis
  proof cases
    case 1
    then show ?thesis using ipoly_residue_4 [of line] irreducible_19 by simp
  next
    case 2
    then show ?thesis using ipoly_residue_5 [of line] irreducible_37 by simp
  next
    case 3
    then show ?thesis using ipoly_residue_6 [of line] irreducible_67 by simp
  qed
qed

theorem ipoly_is_polynomial_residue_witness:
  "ipoly_index 4 0x11 = Inr (to_u32 (residue (ipoly_taps 4) (map (bit (0x11 :: u64)) [0..<17]))) \<and>
   gf2_irreducible (ipoly_taps 4 @ [True])"
  using ipoly_is_polynomial_residue [of 4 "0x11"] by (simp del: ipoly_taps.simps)

section \<open>No conflicts at power-of-two strides\<close>

lemma length_mulx [simp]: "length r = length taps \<Longrightarrow> 0 < length taps \<Longrightarrow>
    length (mulx taps r) = length taps"
  by (simp add: mulx_def)

lemma length_residue [simp]: "0 < length taps \<Longrightarrow> length (residue taps bs) = length taps"
  by (induction bs) (simp_all add: residue_def vxor_def unit_vec_def)

lemma residue_Cons:
  "residue taps (b # bs) = vxor (unit_vec (length taps) b) (mulx taps (residue taps bs))"
  by (simp add: residue_def)

lemma vxor_unit_False: "0 < length r \<Longrightarrow> vxor (unit_vec (length r) False) r = r"
  by (rule nth_equalityI) (auto simp: vxor_def unit_vec_def nth_Cons' )

lemma residue_shift: "0 < length taps \<Longrightarrow> residue taps (False # bs) = mulx taps (residue taps bs)"
  using vxor_unit_False [of "mulx taps (residue taps bs)"] by (simp add: residue_Cons)

lemma nth_mulx:
  assumes "length r = length taps" and "i < length taps"
  shows "mulx taps r ! i = bxor (taps ! i \<and> last r) (i \<noteq> 0 \<and> r ! (i - 1))"
  using assms by (cases i) (auto simp: mulx_def nth_butlast)

lemma nth_vxor: "length xs = length ys \<Longrightarrow> i < length xs \<Longrightarrow>
    vxor xs ys ! i = bxor (xs ! i) (ys ! i)"
  by (simp add: vxor_def)

lemma length_vxor [simp]: "length xs = length ys \<Longrightarrow> length (vxor xs ys) = length xs"
  by (simp add: vxor_def)

lemma last_vxor: "length xs = length ys \<Longrightarrow> xs \<noteq> [] \<Longrightarrow>
    last (vxor xs ys) = bxor (last xs) (last ys)"
  by (induction xs ys rule: list_induct2) (auto simp: vxor_def)

lemma mulx_linear:
  assumes "length r = length taps" and "length s = length taps" and "taps \<noteq> []"
  shows "mulx taps (vxor r s) = vxor (mulx taps r) (mulx taps s)"
proof (rule nth_equalityI)
  show "length (mulx taps (vxor r s)) = length (vxor (mulx taps r) (mulx taps s))"
    using assms by simp
  fix i assume "i < length (mulx taps (vxor r s))"
  then have i: "i < length taps" using assms by simp
  have r: "r \<noteq> []" using assms by auto
  have "i - 1 < length r" using i assms(1) by simp
  then show "mulx taps (vxor r s) ! i = vxor (mulx taps r) (mulx taps s) ! i"
    using assms i r by (auto simp: nth_mulx nth_vxor last_vxor bxor_def)
qed

lemma vxor_interchange:
  "length a = n \<Longrightarrow> length b = n \<Longrightarrow> length c = n \<Longrightarrow> length d = n \<Longrightarrow>
     vxor (vxor a b) (vxor c d) = vxor (vxor a c) (vxor b d)"
  by (rule nth_equalityI) (auto simp: nth_vxor bxor_def)

lemma unit_vec_linear: "vxor (unit_vec k a) (unit_vec k b) = unit_vec k (bxor a b)"
  by (rule nth_equalityI) (auto simp: vxor_def unit_vec_def nth_Cons')

lemma residue_linear:
  "length xs = length ys \<Longrightarrow> taps \<noteq> [] \<Longrightarrow>
     residue taps (vxor xs ys) = vxor (residue taps xs) (residue taps ys)"
proof (induction xs ys rule: list_induct2)
  case Nil
  have "vxor (replicate k False) (replicate k False) = replicate k False" for k
    by (rule nth_equalityI) (auto simp: vxor_def)
  then show ?case by (simp add: residue_def vxor_def)
next
  case (Cons x xs y ys)
  have len: "length (unit_vec (length taps) b) = length taps" for b
    using Cons.prems by (cases taps) (simp_all add: unit_vec_def)
  have "residue taps (vxor (x # xs) (y # ys)) =
      vxor (unit_vec (length taps) (bxor x y)) (mulx taps (residue taps (vxor xs ys)))"
    by (simp add: vxor_def residue_Cons)
  also have "\<dots> = vxor (vxor (unit_vec (length taps) x) (unit_vec (length taps) y))
      (vxor (mulx taps (residue taps xs)) (mulx taps (residue taps ys)))"
    using Cons by (simp add: mulx_linear unit_vec_linear)
  also have "\<dots> = vxor (residue taps (x # xs)) (residue taps (y # ys))"
    using Cons.prems len by (simp add: residue_Cons vxor_interchange [where n = "length taps"])
  finally show ?case .
qed

lemma mulx_zero:
  assumes "mulx (True # ts) r = replicate (Suc (length ts)) False" and "length r = Suc (length ts)"
  shows "r = replicate (Suc (length ts)) False"
proof (rule nth_equalityI)
  fix i assume i: "i < length r"
  have z: "mulx (True # ts) r ! j = False" if "j < Suc (length ts)" for j
    using assms(1) that by (simp add: nth_replicate del: replicate_Suc)
  have l: "\<not> last r" using z [of 0] assms(2) by (simp add: nth_mulx)
  show "r ! i = replicate (Suc (length ts)) False ! i"
  proof (cases "Suc i < Suc (length ts)")
    case True
    with z [of "Suc i"] l assms(2) show ?thesis by (simp add: nth_mulx del: replicate_Suc)
  next
    case False
    then have "i = length r - 1" using i assms(2) by simp
    moreover have "r \<noteq> []" using assms(2) by auto
    ultimately have "\<not> r ! i" using l by (simp add: last_conv_nth)
    then show ?thesis using i assms(2) by (simp del: replicate_Suc)
  qed
qed (simp add: assms(2))

lemma residue_zeros: "taps \<noteq> [] \<Longrightarrow> residue taps (replicate t False) = replicate (length taps) False"
proof (induction t)
  case 0
  then show ?case by (simp add: residue_def)
next
  case (Suc t)
  have "mulx taps (replicate (length taps) False) = replicate (length taps) False"
    by (rule nth_equalityI) (use Suc.prems in \<open>auto simp: nth_mulx\<close>)
  with Suc show ?case by (simp add: residue_shift)
qed

lemma residue_small:
  "length ds \<le> length taps \<Longrightarrow> taps \<noteq> [] \<Longrightarrow>
     residue taps (ds @ replicate t False) = ds @ replicate (length taps - length ds) False"
proof (induction ds)
  case Nil
  then show ?case by (simp add: residue_zeros)
next
  case (Cons d ds)
  let ?r = "ds @ replicate (length taps - length ds) False"
  have len: "length ?r = length taps" and nl: "\<not> last ?r"
    using Cons.prems by (auto simp: last_append)
  have "vxor (unit_vec (length taps) d) (mulx taps ?r) =
      (d # ds) @ replicate (length taps - length (d # ds)) False"
  proof (rule nth_equalityI)
    show "length (vxor (unit_vec (length taps) d) (mulx taps ?r)) =
        length ((d # ds) @ replicate (length taps - length (d # ds)) False)"
      using Cons.prems len by (simp add: vxor_def unit_vec_def)
    fix i assume "i < length (vxor (unit_vec (length taps) d) (mulx taps ?r))"
    then have i: "i < length taps" using Cons.prems len by (simp add: vxor_def unit_vec_def)
    have "vxor (unit_vec (length taps) d) (mulx taps ?r) ! i =
        bxor (unit_vec (length taps) d ! i) (i \<noteq> 0 \<and> ?r ! (i - 1))"
      using i len nl Cons.prems by (simp add: nth_vxor unit_vec_def nth_mulx)
    also have "\<dots> = ((d # ds) @ replicate (length taps - length (d # ds)) False) ! i"
      using i by (cases i) (auto simp: unit_vec_def nth_append)
    finally show "vxor (unit_vec (length taps) d) (mulx taps ?r) ! i =
        ((d # ds) @ replicate (length taps - length (d # ds)) False) ! i" .
  qed
  with Cons show ?case by (simp add: residue_Cons)
qed

lemma residue_window_nonzero:
  assumes "taps = True # ts" and "length ds = length taps" and "True \<in> set ds"
  shows "residue taps (replicate s False @ ds @ replicate t False) \<noteq> replicate (length taps) False"
proof (induction s)
  case 0
  have "ds \<noteq> replicate (length taps) False" using assms(3) by (auto simp: in_set_replicate)
  then show ?case using residue_small [of ds taps t] assms by simp
next
  case (Suc s)
  let ?r = "residue taps (replicate s False @ ds @ replicate t False)"
  have "mulx taps ?r \<noteq> replicate (length taps) False"
    using Suc mulx_zero [of ts ?r] assms(1) by (auto simp del: replicate_Suc)
  then show ?case using assms(1) by (simp add: residue_shift)
qed

lemma residue_window_distinct:
  assumes "taps = True # ts" and len: "length xs = length ys"
    and w: "s + length taps \<le> length xs"
    and same: "\<And>i. i < length xs \<Longrightarrow> i < s \<or> s + length taps \<le> i \<Longrightarrow> xs ! i = ys ! i"
    and ne: "xs \<noteq> ys"
  shows "residue taps xs \<noteq> residue taps ys"
proof
  assume eq: "residue taps xs = residue taps ys"
  define ds where "ds = take (length taps) (drop s (vxor xs ys))"
  define t where "t = length xs - (s + length taps)"
  have lds: "length ds = length taps" using w len by (simp add: ds_def)
  have split: "vxor xs ys = replicate s False @ ds @ replicate t False"
  proof (rule nth_equalityI)
    show "length (vxor xs ys) = length (replicate s False @ ds @ replicate t False)"
      using len w lds by (simp add: t_def)
    fix i assume "i < length (vxor xs ys)"
    then have i: "i < length xs" using len by simp
    then have "vxor xs ys ! i = bxor (xs ! i) (ys ! i)" using len by (simp add: nth_vxor)
    then show "vxor xs ys ! i = (replicate s False @ ds @ replicate t False) ! i"
      using i w len lds same [OF i] by (auto simp: nth_append nth_vxor ds_def t_def)
  qed
  obtain i where i: "i < length xs" "xs ! i \<noteq> ys ! i"
    using ne len by (auto simp: list_eq_iff_nth_eq)
  then have "vxor xs ys ! i" using len by (simp add: nth_vxor bxor_def)
  moreover have "i < length (vxor xs ys)" using i len by simp
  ultimately have "True \<in> set (vxor xs ys)" by (auto simp: in_set_conv_nth)
  then have "True \<in> set ds" unfolding split by (auto simp: in_set_replicate)
  from residue_window_nonzero [OF assms(1) lds this, of s t]
  have "residue taps (vxor xs ys) \<noteq> replicate (length taps) False" unfolding split .
  moreover have "residue taps (vxor xs ys) = replicate (length taps) False"
  proof -
    have "vxor (residue taps ys) (residue taps ys) = replicate (length taps) False"
      using assms(1) by (intro nth_equalityI) (simp_all add: nth_vxor del: replicate_Suc)
    with residue_linear [OF len, of taps] eq assms(1) show ?thesis by simp
  qed
  ultimately show False by simp
qed

lemma ipoly_window_distinct:
  assumes k: "k \<in> {4, 5, 6}" and w: "s + k \<le> ipoly_bits k"
    and same: "\<And>i. i < s \<or> s + k \<le> i \<Longrightarrow> bit a i = bit b i" and ne: "a \<noteq> b"
  shows "ipoly_index k a \<noteq> ipoly_index k b"
proof -
  let ?n = "ipoly_bits k"
  let ?xs = "map (bit a) [0..<?n]" and ?ys = "map (bit b) [0..<?n]"
  obtain ts where taps: "ipoly_taps k = True # ts" and lt: "length (ipoly_taps k) = k"
    using k by auto
  obtain i where i: "bit a i \<noteq> bit b i" using ne bit_word_eqI by blast
  then have "i < ?n" using same [of i] w by fastforce
  with i have "?xs \<noteq> ?ys" by auto
  then have res: "residue (ipoly_taps k) ?xs \<noteq> residue (ipoly_taps k) ?ys"
    using same w lt by (intro residue_window_distinct [OF taps, where s = s]) auto
  have "length (residue (ipoly_taps k) bs) = k" for bs
    using lt k by (subst length_residue) auto
  moreover have "k \<le> 32" using k by auto
  ultimately have "to_u32 (residue (ipoly_taps k) ?xs) \<noteq> to_u32 (residue (ipoly_taps k) ?ys)"
    using res to_u32_inject by metis
  with k show ?thesis
    using ipoly_residue_4 ipoly_residue_5 ipoly_residue_6 by (auto simp del: ipoly_taps.simps)
qed

text \<open>Neighbours from an unaligned base, and lines that differ in a bit the table does not read.\<close>

lemma ipoly_collisions:
  assumes "k \<in> {4, 5, 6}"
  shows "\<exists>c d. c < d \<and> unat d - unat c < 2 ^ k \<and> ipoly_index k c = ipoly_index k d"
    and "ipoly_index k 0 = ipoly_index k (2 ^ ipoly_bits k)"
proof -
  have "ipoly_index 4 2 = ipoly_index 4 17" "ipoly_index 5 4 = ipoly_index 5 33" "ipoly_index 6 2 = ipoly_index 6 65"
    "ipoly_index 4 0 = ipoly_index 4 (2 ^ 17)" "ipoly_index 5 0 = ipoly_index 5 (2 ^ 20)"
    "ipoly_index 6 0 = ipoly_index 6 (2 ^ 25)"
    by code_simp+
  note c = this
  consider "k = 4" | "k = 5" | "k = 6" using assms by blast
  then show "\<exists>c d. c < d \<and> unat d - unat c < 2 ^ k \<and> ipoly_index k c = ipoly_index k d"
  proof cases
    case 1
    then show ?thesis using c(1) by (intro exI [of _ 2] exI [of _ 17]) simp
  next
    case 2
    then show ?thesis using c(2) by (intro exI [of _ 4] exI [of _ 33]) simp
  next
    case 3
    then show ?thesis using c(3) by (intro exI [of _ 2] exI [of _ 65]) simp
  qed
  show "ipoly_index k 0 = ipoly_index k (2 ^ ipoly_bits k)" using assms c(4-6) by auto
qed

text \<open>C40: where IPOLY indexing is conflict-free, and where not.  Two different line addresses that agree
  outside a window of \<open>k\<close> consecutive bits starting at bit \<open>s\<close> (the \<open>2 ^ k\<close> lines at stride \<open>2 ^ s\<close> from a base
  aligned to \<open>2 ^ (s + k)\<close>) fall into different sets, provided the window lies inside the bits the table
  reads.  The alignment and the window matter: for every supported size some two of \<open>2 ^ k\<close> consecutive lines
  from an unaligned base share a set, and so do all lines at the stride of the first bit that is not read.\<close>

theorem ipoly_conflict_free:
  assumes k: "k \<in> {4, 5, 6}" and w: "s + k \<le> ipoly_bits k"
    and same: "\<And>i. i < s \<or> s + k \<le> i \<Longrightarrow> bit a i = bit b i" and ne: "a \<noteq> b"
  shows "ipoly_index k a \<noteq> ipoly_index k b \<and>
    (\<exists>c d. c < d \<and> unat d - unat c < 2 ^ k \<and> ipoly_index k c = ipoly_index k d) \<and>
    ipoly_index k 0 = ipoly_index k (2 ^ ipoly_bits k)"
  using ipoly_window_distinct [OF assms] ipoly_collisions [OF k] by blast

theorem ipoly_conflict_free_witness:
  "ipoly_index 5 (push_bit 12 3) \<noteq> ipoly_index 5 (push_bit 12 5)"
proof (rule conjunct1 [OF ipoly_conflict_free [where s = 12]])
  have "\<not> bit (3 :: u64) j" "\<not> bit (5 :: u64) j" if "5 \<le> j" for j
    using that bit_take_bit_iff [of 5 "3 :: u64" j] bit_take_bit_iff [of 5 "5 :: u64" j]
    by simp_all
  then show "bit (push_bit 12 3 :: u64) i = bit (push_bit 12 5 :: u64) i"
    if "i < 12 \<or> 12 + 5 \<le> i" for i
    using that by (auto simp only: bit_push_bit_iff)
qed simp_all

section \<open>Bounds, and the PAE table\<close>

lemma ipoly_result:
  "ipoly_hash_function hb index n = Inr r \<Longrightarrow>
     \<exists>bs. r = to_u32 bs \<and> length bs \<in> {4, 5, 6} \<and> n = 2 ^ length bs"
  by (auto simp: ipoly_hash_function_def Let_def split: if_splits intro!: exI conjI)

lemma ipoly_bound:
  assumes "ipoly_hash_function hb index n = Inr r"
  shows "r < n"
proof -
  from ipoly_result [OF assms] obtain bs where bs: "r = to_u32 bs" "length bs \<in> {4, 5, 6}"
    "n = 2 ^ length bs" by blast
  then have "length bs < 32" by auto
  from to_u32_bound [OF this] this bs(1,3) show ?thesis
    by (simp add: word_less_nat_alt unat_two_power)
qed

lemma ipoly_ok_iff: "is_ok (ipoly_hash_function hb index n) \<longleftrightarrow> n \<in> {16, 32, 64}"
  by (auto simp: ipoly_hash_function_def Let_def)

lemma bitwise_hash_involution:
  "bitwise_hash_function hb (bitwise_hash_function hb index bank) bank = index"
  by (rule bit_word_eqI) (auto simp: bitwise_hash_function_def bit_simps)

lemma bitwise_hash_bound:
  assumes "bank = 2 ^ k" and "k < 32" and "index < bank"
  shows "bitwise_hash_function hb index bank < bank"
proof -
  have m: "bank - 1 = mask k" by (simp add: assms(1) mask_eq_exp_minus_1)
  have u: "unat bank = 2 ^ k" using assms by (simp add: unat_two_power)
  have "unat (take_bit k index) = unat index"
    using assms(3) u by (simp add: word_less_nat_alt unsigned_take_bit_eq take_bit_nat_eq_self)
  then have i: "take_bit k index = index" by (simp only: word_unat_eq_iff)
  have "take_bit k (bitwise_hash_function hb index bank) = bitwise_hash_function hb index bank"
    unfolding bitwise_hash_function_def m using bit_take_bit_iff [of k index] i
    by (intro bit_word_eqI) (auto simp: bit_simps)
  then have "unat (bitwise_hash_function hb index bank) < 2 ^ k"
    by (metis take_bit_nat_less_exp unsigned_take_bit_eq)
  then show ?thesis using u by (simp add: word_less_nat_alt)
qed

text \<open>The PAE table is not a permutation.  The terms \<open>b[0] ^ b[0]\<close>, \<open>b[1] ^ b[1]\<close> and
  \<open>b[3] ^ b[3]\<close> cancel, so for every address the indices \<open>1\<close> and \<open>16\<close> are mapped to the same
  partition, and bit 1 of the result is determined by bits 0 and 3: at most 16 of the 32 partitions are
  reachable from one value of the higher bits.\<close>

theorem PAE_not_injective:
  "PAE_hash_function hb 1 32 = PAE_hash_function hb 16 32 \<and>
   (\<exists>c. \<forall>index. \<exists>r. PAE_hash_function hb index 32 = Inr r \<and>
      bit r 1 = bxor c (bxor (bit r 0) (bit r 3)))"
proof
  show "PAE_hash_function hb 1 32 = PAE_hash_function hb 16 32"
    by (simp add: PAE_hash_function_def xors_def Let_def)
  let ?a = "bit hb"
  let ?c = "xors [?a 13, ?a 10, ?a 9, ?a 5, ?a 0, ?a 12, ?a 11, ?a 6, ?a 1, ?a 11, ?a 10, ?a 8, ?a 3]"
  have "bit r 1 = bxor ?c (bxor (bit r 0) (bit r 3))"
    if r: "PAE_hash_function hb index 32 = Inr r" for index r
  proof -
    let ?b = "bit index"
    define l where "l = [xors [?a 13, ?a 10, ?a 9, ?a 5, ?a 0, ?b 3, ?b 0, ?b 0],
        xors [?a 12, ?a 11, ?a 6, ?a 1, ?b 3, ?b 2, ?b 1, ?b 1],
        xors [?a 14, ?a 9, ?a 8, ?a 7, ?a 2, ?b 1, ?b 2],
        xors [?a 11, ?a 10, ?a 8, ?a 3, ?b 2, ?b 3, ?b 3],
        xors [?a 12, ?a 9, ?a 8, ?a 5, ?a 4, ?b 1, ?b 0, ?b 4]]"
    have "r = to_u32 l" using r by (simp only: PAE_hash_function_def Let_def l_def simp_thms if_True sum.inject)
    then have "bit r 0 = l ! 0" "bit r 1 = l ! 1" "bit r 3 = l ! 3"
      by (simp_all add: bit_to_u32) (simp_all add: l_def)
    moreover have "l ! 0 = xors [?a 13, ?a 10, ?a 9, ?a 5, ?a 0, ?b 3, ?b 0, ?b 0]"
      "l ! 1 = xors [?a 12, ?a 11, ?a 6, ?a 1, ?b 3, ?b 2, ?b 1, ?b 1]"
      "l ! 3 = xors [?a 11, ?a 10, ?a 8, ?a 3, ?b 2, ?b 3, ?b 3]"
      by (simp_all only: l_def nth_Cons_0 nth_Cons_Suc One_nat_def numeral_3_eq_3)
    ultimately have "bit r 0 = xors [?a 13, ?a 10, ?a 9, ?a 5, ?a 0, ?b 3, ?b 0, ?b 0]"
      "bit r 1 = xors [?a 12, ?a 11, ?a 6, ?a 1, ?b 3, ?b 2, ?b 1, ?b 1]"
      "bit r 3 = xors [?a 11, ?a 10, ?a 8, ?a 3, ?b 2, ?b 3, ?b 3]" by (simp_all only:)
    then show ?thesis by (simp only: xors_def foldr.simps comp_def id_def bxor_ac
          bxor_False bxor_self bxor_left_self)
  qed
  moreover have "\<exists>r. PAE_hash_function hb index 32 = Inr r" for index
    by (simp add: PAE_hash_function_def Let_def)
  ultimately show "\<exists>c. \<forall>index. \<exists>r. PAE_hash_function hb index 32 = Inr r \<and>
      bit r 1 = bxor c (bxor (bit r 0) (bit r 3))" by blast
qed

end
