(* ===== verification/Cache_Config.thy ===== *)
theory Cache_Config
  imports Cache_Block Gpu_Misc Hashing
begin

text \<open>
  \<open>cache_config\<close>, \<open>l1d_cache_config\<close> and \<open>l2_cache_config\<close> of \<open>gpu-cache.h\<close> with the set-index
  functions of \<open>gpu-cache.cc\<close>.  \<open>init\<close> parses the configuration string with \<open>sscanf\<close>, whose
  directives \<open>%c\<close>, \<open>%u\<close> and literal characters are modelled here; a number that does not fit an
  \<open>unsigned\<close> is undefined, as the C standard leaves it.  The anonymous unions of the class are one
  field each.  Fields the constructor does not set keep the value the object had.  \<open>cc_class\<close> is
  the dynamic type: an \<open>l2_cache_config\<close> overrides \<open>set_index\<close> and carries the address mapping,
  whose \<open>partition_address\<close> is a function argument.

  Shown: what a configuration accepted by \<open>init\<close> guarantees; the masks of \<open>block_addr\<close> and
  \<open>mshr_addr\<close>; the set index is in range and depends on the line only, for every index function;
  the bank selection of the L1 shifts by the interleaving size instead of its logarithm.
\<close>

section \<open>The configuration record\<close>

datatype FuncCache = FuncCachePreferNone | FuncCachePreferShared | FuncCachePreferL1

datatype replacement_policy_t = LRU | FIFO

datatype write_policy_t = READ_ONLY | WRITE_BACK | WRITE_THROUGH | WRITE_EVICT | LOCAL_WB_GLOBAL_WT

datatype allocation_policy_t = ON_MISS | ON_FILL | STREAMING

datatype write_allocate_policy_t =
    NO_WRITE_ALLOCATE
  | WRITE_ALLOCATE
  | FETCH_ON_WRITE
  | LAZY_FETCH_ON_READ

datatype mshr_config_t = TEX_FIFO | ASSOC | SECTOR_TEX_FIFO | SECTOR_ASSOC

datatype set_index_function =
    LINEAR_SET_FUNCTION
  | BITWISE_XORING_FUNCTION
  | HASH_IPOLY_FUNCTION
  | FERMI_HASH_SET_FUNCTION
  | CUSTOM_SET_FUNCTION

datatype cache_type = NORMAL | SECTOR

text \<open>The numbers of the enumeration, for the option that selects a function by number.\<close>

fun sif_code :: "set_index_function \<Rightarrow> u32" where
  "sif_code LINEAR_SET_FUNCTION = 0"
| "sif_code BITWISE_XORING_FUNCTION = 1"
| "sif_code HASH_IPOLY_FUNCTION = 2"
| "sif_code FERMI_HASH_SET_FUNCTION = 3"
| "sif_code CUSTOM_SET_FUNCTION = 4"

datatype config_class = Base_config | L2_config "(u64 \<Rightarrow> u64) option"

record cache_config =
  cc_class :: config_class
  m_config_string :: "string option"
  cache_status :: FuncCache
  m_valid :: bool
  m_disabled :: bool
  m_line_sz :: u32
  m_line_sz_log2 :: u32
  m_nset :: u32
  m_nset_log2 :: u32
  m_assoc :: u32
  m_atom_sz :: u32
  m_sector_sz_log2 :: u32
  original_m_assoc :: u32
  m_is_streaming :: bool
  m_replacement_policy :: replacement_policy_t
  m_write_policy :: write_policy_t
  m_alloc_policy :: allocation_policy_t
  m_mshr_type :: mshr_config_t
  m_cache_type :: cache_type
  m_write_alloc_policy :: write_allocate_policy_t
  m_mshr_entries :: u32
  m_mshr_max_merge :: u32
  m_miss_queue_size :: u32
  m_result_fifo_entries :: u32
  m_data_port_width :: u32
  m_set_index_function :: set_index_function

definition MAX_DEFAULT_CACHE_SIZE_MULTIBLIER :: u32 where
  "MAX_DEFAULT_CACHE_SIZE_MULTIBLIER = 4"

definition MAX_WARP_PER_SM :: u32 where "MAX_WARP_PER_SM = 64"

definition cache_config_new :: "cache_config \<Rightarrow> cache_config" where
  "cache_config_new c = c\<lparr>m_valid := False, m_disabled := False, m_config_string := None,
     m_data_port_width := 0, m_set_index_function := LINEAR_SET_FUNCTION, m_is_streaming := False\<rparr>"

section \<open>Scanning\<close>

datatype directive = Conv_c | Conv_u | Lit char

datatype scanned = Chr_tok char | Uns_tok u32

definition is_space :: "char \<Rightarrow> bool" where
  "is_space c \<longleftrightarrow> c \<in> set [CHR '' '', CHR 0x09, CHR 0x0A, CHR 0x0B, CHR 0x0C, CHR 0x0D]"

definition is_digit :: "char \<Rightarrow> bool" where
  "is_digit c \<longleftrightarrow> (48 :: int) \<le> of_char c \<and> of_char c \<le> (57 :: int)"

definition digits_value :: "string \<Rightarrow> int" where
  "digits_value ds = foldl (\<lambda>n c. 10 * n + (of_char c - 48)) 0 ds"

text \<open>\<open>%u\<close>: white space, an optional sign, a non-empty run of digits.\<close>

definition scan_u :: "string \<Rightarrow> (bool \<times> int \<times> string) option" where
  "scan_u s =
     (let s1 = dropWhile is_space s;
          neg = (s1 \<noteq> [] \<and> hd s1 = CHR ''-'');
          s2 = (if s1 \<noteq> [] \<and> (hd s1 = CHR ''-'' \<or> hd s1 = CHR ''+'') then tl s1 else s1);
          ds = takeWhile is_digit s2
      in if ds = [] then None else Some (neg, digits_value ds, dropWhile is_digit s2))"

fun sscanf :: "directive list \<Rightarrow> string \<Rightarrow> scanned list res" where
  "sscanf [] s = Inr []"
| "sscanf (Lit c # ds) s =
     (case s of [] \<Rightarrow> Inr [] | x # xs \<Rightarrow> if x = c then sscanf ds xs else Inr [])"
| "sscanf (Conv_c # ds) s =
     (case s of [] \<Rightarrow> Inr []
      | x # xs \<Rightarrow> andThen (sscanf ds xs) (\<lambda>toks. Inr (Chr_tok x # toks)))"
| "sscanf (Conv_u # ds) s =
     (case scan_u s of None \<Rightarrow> Inr []
      | Some (neg, n, rest) \<Rightarrow> defined (n < 2 ^ 32 \<and> (neg \<longrightarrow> n = 0))
          (andThen (sscanf ds rest) (\<lambda>toks. Inr (Uns_tok (of_int n) # toks))))"

definition cache_format :: "directive list" where
  "cache_format =
     (let colon = Lit (CHR '':''); comma = Lit (CHR '','') in
      [Conv_c, colon, Conv_u, colon, Conv_u, colon, Conv_u, comma,
       Conv_c, colon, Conv_c, colon, Conv_c, colon, Conv_c, colon, Conv_c, comma,
       Conv_c, colon, Conv_u, colon, Conv_u, comma, Conv_u, colon, Conv_u, comma, Conv_u])"

text \<open>The numeric targets of the scan, by the position of their directive.\<close>

fun store_token :: "nat \<Rightarrow> scanned \<Rightarrow> cache_config \<Rightarrow> cache_config" where
  "store_token i (Chr_tok x) c = c"
| "store_token i (Uns_tok n) c =
     (if i = 1 then c\<lparr>m_nset := n\<rparr> else if i = 2 then c\<lparr>m_line_sz := n\<rparr>
      else if i = 3 then c\<lparr>m_assoc := n\<rparr> else if i = 10 then c\<lparr>m_mshr_entries := n\<rparr>
      else if i = 11 then c\<lparr>m_mshr_max_merge := n\<rparr>
      else if i = 12 then c\<lparr>m_miss_queue_size := n\<rparr>
      else if i = 13 then c\<lparr>m_result_fifo_entries := n\<rparr>
      else if i = 14 then c\<lparr>m_data_port_width := n\<rparr> else c)"

definition store_tokens :: "scanned list \<Rightarrow> cache_config \<Rightarrow> cache_config" where
  "store_tokens toks c = fold (\<lambda>(i, t). store_token i t) (enumerate 0 toks) c"

fun tok_char :: "scanned \<Rightarrow> char" where
  "tok_char (Chr_tok x) = x"
| "tok_char (Uns_tok n) = CHR 0x00"

section \<open>\<open>init\<close>\<close>

definition parse_ct :: "char \<Rightarrow> cache_type res" where
  "parse_ct x = (if x = CHR ''N'' then Inr NORMAL else if x = CHR ''S'' then Inr SECTOR
     else Inl Abort)"

definition parse_rp :: "char \<Rightarrow> replacement_policy_t res" where
  "parse_rp x = (if x = CHR ''L'' then Inr LRU else if x = CHR ''F'' then Inr FIFO else Inl Abort)"

definition parse_wp :: "char \<Rightarrow> write_policy_t res" where
  "parse_wp x = (if x = CHR ''R'' then Inr READ_ONLY else if x = CHR ''B'' then Inr WRITE_BACK
     else if x = CHR ''T'' then Inr WRITE_THROUGH else if x = CHR ''E'' then Inr WRITE_EVICT
     else if x = CHR ''L'' then Inr LOCAL_WB_GLOBAL_WT else Inl Abort)"

definition parse_ap :: "char \<Rightarrow> allocation_policy_t res" where
  "parse_ap x = (if x = CHR ''m'' then Inr ON_MISS else if x = CHR ''f'' then Inr ON_FILL
     else if x = CHR ''s'' then Inr STREAMING else Inl Abort)"

definition parse_mshr_type :: "char \<Rightarrow> nat \<Rightarrow> mshr_config_t res" where
  "parse_mshr_type x ntok =
     (if x = CHR ''F'' then check (ntok = 14) (Inr TEX_FIFO)
      else if x = CHR ''T'' then check (ntok = 14) (Inr SECTOR_TEX_FIFO)
      else if x = CHR ''A'' then Inr ASSOC else if x = CHR ''S'' then Inr SECTOR_ASSOC
      else Inl Abort)"

definition parse_wap :: "char \<Rightarrow> write_allocate_policy_t res" where
  "parse_wap x = (if x = CHR ''N'' then Inr NO_WRITE_ALLOCATE
     else if x = CHR ''W'' then Inr WRITE_ALLOCATE else if x = CHR ''F'' then Inr FETCH_ON_WRITE
     else if x = CHR ''L'' then Inr LAZY_FETCH_ON_READ else Inl Abort)"

definition parse_sif :: "char \<Rightarrow> set_index_function res" where
  "parse_sif x = (if x = CHR ''H'' then Inr FERMI_HASH_SET_FUNCTION
     else if x = CHR ''P'' then Inr HASH_IPOLY_FUNCTION
     else if x = CHR ''C'' then Inr CUSTOM_SET_FUNCTION
     else if x = CHR ''L'' then Inr LINEAR_SET_FUNCTION else Inl Abort)"

text \<open>The streaming policy becomes allocate-on-fill with as many MSHR entries as lines.\<close>

definition init_streaming :: "cache_config \<Rightarrow> cache_config" where
  "init_streaming c =
     (if m_alloc_policy c = STREAMING then
        (let n = m_nset c * m_assoc c * MAX_DEFAULT_CACHE_SIZE_MULTIBLIER;
             n' = (if m_cache_type c = SECTOR then n * of_nat SECTOR_CHUNCK_SIZE else n)
         in c\<lparr>m_is_streaming := True, m_alloc_policy := ON_FILL, m_mshr_entries := n',
              m_mshr_max_merge := MAX_WARP_PER_SM\<rparr>)
      else c)"

definition init_sizes :: "cache_config \<Rightarrow> cache_config" where
  "init_sizes c = c\<lparr>m_line_sz_log2 := LOGB2 (m_line_sz c), m_nset_log2 := LOGB2 (m_nset c),
     m_valid := True, m_atom_sz := (if m_cache_type c = SECTOR then SECTOR_SIZE else m_line_sz c),
     m_sector_sz_log2 := LOGB2 SECTOR_SIZE, original_m_assoc := m_assoc c\<rparr>"

definition init_checks :: "cache_config \<Rightarrow> cache_config res" where
  "init_checks c =
     check (\<not> (m_alloc_policy c = ON_FILL \<and> m_write_policy c = WRITE_BACK))
     (check (\<not> ((m_write_alloc_policy c = FETCH_ON_WRITE \<or> m_write_alloc_policy c = LAZY_FETCH_ON_READ)
               \<and> m_alloc_policy c = ON_FILL))
     (check (m_cache_type c = SECTOR \<longrightarrow>
               m_line_sz c div SECTOR_SIZE = of_nat SECTOR_CHUNCK_SIZE \<and>
               m_line_sz c mod SECTOR_SIZE = 0)
     (let c' = (if m_data_port_width c = 0 then c\<lparr>m_data_port_width := m_line_sz c\<rparr> else c) in
      defined (m_data_port_width c' \<noteq> 0)
     (check (m_line_sz c' mod m_data_port_width c' = 0) (Inr c')))))"

text \<open>\<open>init\<close> after the token count has been checked.\<close>

definition init_policies :: "scanned list \<Rightarrow> cache_config \<Rightarrow> cache_config res" where
  "init_policies toks c =
     andThen (parse_ct (tok_char (toks ! 0))) (\<lambda>ct.
     andThen (parse_rp (tok_char (toks ! 4))) (\<lambda>rp.
     andThen (parse_wp (tok_char (toks ! 5))) (\<lambda>wp.
     andThen (parse_ap (tok_char (toks ! 6))) (\<lambda>ap.
       let c1 = init_streaming (c\<lparr>m_cache_type := ct, m_replacement_policy := rp,
                  m_write_policy := wp, m_alloc_policy := ap\<rparr>) in
     andThen (parse_mshr_type (tok_char (toks ! 9)) (length toks)) (\<lambda>mt.
       let c2 = init_sizes (c1\<lparr>m_mshr_type := mt\<rparr>) in
     andThen (parse_wap (tok_char (toks ! 7))) (\<lambda>wap.
     andThen (init_checks (c2\<lparr>m_write_alloc_policy := wap\<rparr>)) (\<lambda>c3.
     andThen (parse_sif (tok_char (toks ! 8))) (\<lambda>sif.
       Inr (c3\<lparr>m_set_index_function := sif\<rparr>)))))))))"

definition init :: "string option \<Rightarrow> FuncCache \<Rightarrow> cache_config \<Rightarrow> cache_config res" where
  "init config status c =
     (case config of None \<Rightarrow> Inl Assertion
      | Some s \<Rightarrow> andThen (sscanf cache_format s) (\<lambda>toks.
          let c0 = store_tokens toks (c\<lparr>cache_status := status\<rparr>) in
          if length toks < 12
          then (if s = ''none'' then Inr (c0\<lparr>m_disabled := True\<rparr>) else Inl Abort)
          else init_policies toks c0))"

section \<open>Accessors\<close>

definition get_line_sz :: "cache_config \<Rightarrow> u32 res" where
  "get_line_sz c = check (m_valid c) (Inr (m_line_sz c))"

definition get_atom_sz :: "cache_config \<Rightarrow> u32 res" where
  "get_atom_sz c = check (m_valid c) (Inr (m_atom_sz c))"

definition get_num_lines :: "cache_config \<Rightarrow> u32 res" where
  "get_num_lines c = check (m_valid c) (Inr (m_nset c * m_assoc c))"

definition get_max_num_lines :: "cache_config \<Rightarrow> u32 res" where
  "get_max_num_lines c = check (m_valid c)
     (Inr (MAX_DEFAULT_CACHE_SIZE_MULTIBLIER * m_nset c * original_m_assoc c))"

definition get_max_assoc :: "cache_config \<Rightarrow> u32 res" where
  "get_max_assoc c = check (m_valid c) (Inr (MAX_DEFAULT_CACHE_SIZE_MULTIBLIER * original_m_assoc c))"

definition get_nset :: "cache_config \<Rightarrow> u32 res" where
  "get_nset c = check (m_valid c) (Inr (m_nset c))"

definition get_total_size_inKB :: "cache_config \<Rightarrow> u32 res" where
  "get_total_size_inKB c = check (m_valid c) (Inr ((m_assoc c * m_nset c * m_line_sz c) div 1024))"

definition set_assoc :: "u32 \<Rightarrow> cache_config \<Rightarrow> cache_config" where
  "set_assoc n c = c\<lparr>m_assoc := n\<rparr>"

definition tag :: "cache_config \<Rightarrow> u64 \<Rightarrow> u64" where
  "tag c addr = addr AND NOT (ucast (m_line_sz c - 1))"

definition block_addr :: "cache_config \<Rightarrow> u64 \<Rightarrow> u64" where
  "block_addr c addr = addr AND NOT (ucast (m_line_sz c - 1))"

definition mshr_addr :: "cache_config \<Rightarrow> u64 \<Rightarrow> u64" where
  "mshr_addr c addr = addr AND NOT (ucast (m_atom_sz c - 1))"

section \<open>Set index\<close>

text \<open>A shift by 64 or more of a 64-bit address is undefined.\<close>

definition shr64 :: "u64 \<Rightarrow> u32 \<Rightarrow> u64 res" where
  "shr64 x n = defined (n < 64) (Inr (drop_bit (unat n) x))"

definition hash_function :: "u64 \<Rightarrow> u32 \<Rightarrow> u32 \<Rightarrow> u32 \<Rightarrow> u32 \<Rightarrow> u32 res" where
  "hash_function addr nset line_sz_log2 nset_log2 index_function =
     andThen
       (if index_function = sif_code FERMI_HASH_SET_FUNCTION then
          check (nset = 32 \<or> nset = 64)
            (andThen (shr64 addr line_sz_log2) (\<lambda>l.
               let lower_xor = ucast (l AND 0x1F) :: u32;
                   upper_xor = ucast (drop_bit 13 (addr AND 0xE000)) OR
                     ucast (drop_bit 14 (addr AND 0x20000)) OR ucast (drop_bit 15 (addr AND 0x80000));
                   set_index = lower_xor XOR upper_xor
               in Inr (if nset = 64 then set_index OR ucast (drop_bit 7 (addr AND 0x1000))
                       else set_index)))
        else if index_function = sif_code BITWISE_XORING_FUNCTION then
          andThen (shr64 addr (line_sz_log2 + nset_log2)) (\<lambda>higher_bits.
          andThen (shr64 addr line_sz_log2) (\<lambda>l.
            Inr (bitwise_hash_function higher_bits (ucast (l AND ucast (nset - 1))) nset)))
        else if index_function = sif_code HASH_IPOLY_FUNCTION then
          andThen (shr64 addr (line_sz_log2 + nset_log2)) (\<lambda>higher_bits.
          andThen (shr64 addr line_sz_log2) (\<lambda>l.
            ipoly_hash_function higher_bits (ucast (l AND ucast (nset - 1))) nset))
        else if index_function = sif_code CUSTOM_SET_FUNCTION then Inr 0
        else if index_function = sif_code LINEAR_SET_FUNCTION then
          andThen (shr64 addr line_sz_log2) (\<lambda>l. Inr (ucast (l AND ucast (nset - 1))))
        else Inl Assertion)
     (\<lambda>set_index. check (set_index < nset) (Inr set_index))"

definition config_set_index :: "cache_config \<Rightarrow> u64 \<Rightarrow> u32 res" where
  "config_set_index c addr = hash_function addr (m_nset c) (m_line_sz_log2 c) (m_nset_log2 c)
     (sif_code (m_set_index_function c))"

definition l2_set_index :: "(u64 \<Rightarrow> u64) option \<Rightarrow> cache_config \<Rightarrow> u64 \<Rightarrow> u32 res" where
  "l2_set_index mapping c addr =
     config_set_index c (case mapping of Some partition_address \<Rightarrow> partition_address addr
                         | None \<Rightarrow> addr)"

fun set_index_of :: "config_class \<Rightarrow> cache_config \<Rightarrow> u64 \<Rightarrow> u32 res" where
  "set_index_of Base_config c addr = config_set_index c addr"
| "set_index_of (L2_config mapping) c addr = l2_set_index mapping c addr"

definition set_index :: "cache_config \<Rightarrow> u64 \<Rightarrow> u32 res" where
  "set_index c addr = set_index_of (cc_class c) c addr"

definition l2_init :: "(u64 \<Rightarrow> u64) option \<Rightarrow> cache_config \<Rightarrow> cache_config res" where
  "l2_init mapping c = andThen (init (m_config_string c) FuncCachePreferNone c)
     (\<lambda>c'. Inr (c'\<lparr>cc_class := L2_config mapping\<rparr>))"

record l1d_cache_config = cache_config +
  l1_latency :: u32
  l1_banks :: u32
  m_l1_banks_log2 :: u32
  l1_banks_byte_interleaving :: u32
  m_banks_byte_interleaving_log2 :: u32
  l1_banks_hashing_function :: u32

definition l1d_init :: "string option \<Rightarrow> FuncCache \<Rightarrow> l1d_cache_config \<Rightarrow> l1d_cache_config res" where
  "l1d_init config status c =
     (let c1 = c\<lparr>m_banks_byte_interleaving_log2 := LOGB2 (l1_banks_byte_interleaving c),
                 m_l1_banks_log2 := LOGB2 (l1_banks c)\<rparr> in
      andThen (init config status (cache_config.truncate c1)) (\<lambda>b.
        Inr (cache_config.extend b (l1d_cache_config.fields (l1_latency c1) (l1_banks c1)
          (m_l1_banks_log2 c1) (l1_banks_byte_interleaving c1) (m_banks_byte_interleaving_log2 c1)
          (l1_banks_hashing_function c1)))))"

definition set_bank :: "l1d_cache_config \<Rightarrow> u64 \<Rightarrow> u32 res" where
  "set_bank c addr = hash_function addr (l1_banks c) (l1_banks_byte_interleaving c)
     (m_l1_banks_log2 c) (l1_banks_hashing_function c)"

section \<open>What \<open>init\<close> guarantees\<close>

definition config_ok :: "cache_config \<Rightarrow> bool" where
  "config_ok c \<longleftrightarrow> m_valid c \<and> m_alloc_policy c \<noteq> STREAMING \<and>
     (m_alloc_policy c = ON_FILL \<longrightarrow> m_write_policy c \<noteq> WRITE_BACK \<and>
        m_write_alloc_policy c \<noteq> FETCH_ON_WRITE \<and> m_write_alloc_policy c \<noteq> LAZY_FETCH_ON_READ) \<and>
     (m_cache_type c = SECTOR \<longrightarrow> m_line_sz c = 128 \<and> m_atom_sz c = SECTOR_SIZE) \<and>
     (m_cache_type c = NORMAL \<longrightarrow> m_atom_sz c = m_line_sz c) \<and>
     m_data_port_width c \<noteq> 0 \<and> m_line_sz c mod m_data_port_width c = 0 \<and>
     m_line_sz_log2 c = LOGB2 (m_line_sz c) \<and> m_nset_log2 c = LOGB2 (m_nset c) \<and>
     original_m_assoc c = m_assoc c \<and> m_set_index_function c \<noteq> BITWISE_XORING_FUNCTION"

lemma sector_line_size:
  fixes x :: u32
  assumes "x div 32 = 4" and "x mod 32 = 0"
  shows "x = 128"
proof -
  have "x = x div 32 * 32 + x mod 32" by (rule div_mult_mod_eq [symmetric])
  then show ?thesis using assms by simp
qed

lemma init_streaming_keeps:
  "m_cache_type (init_streaming c) = m_cache_type c" "m_write_policy (init_streaming c) = m_write_policy c"
  "m_line_sz (init_streaming c) = m_line_sz c" "m_alloc_policy (init_streaming c) \<noteq> STREAMING"
  "m_assoc (init_streaming c) = m_assoc c" "m_nset (init_streaming c) = m_nset c"
  "m_data_port_width (init_streaming c) = m_data_port_width c"
  by (simp_all add: init_streaming_def Let_def)

lemma init_checks_Inr:
  assumes "init_checks c = Inr c'"
  shows "\<not> (m_alloc_policy c = ON_FILL \<and> m_write_policy c = WRITE_BACK)"
    "\<not> ((m_write_alloc_policy c = FETCH_ON_WRITE \<or> m_write_alloc_policy c = LAZY_FETCH_ON_READ) \<and>
        m_alloc_policy c = ON_FILL)"
    "m_cache_type c = SECTOR \<Longrightarrow> m_line_sz c = 128"
    "c' = c\<lparr>m_data_port_width := m_data_port_width c'\<rparr>"
    "m_data_port_width c' \<noteq> 0" "m_line_sz c mod m_data_port_width c' = 0"
  using assms sector_line_size [of "m_line_sz c"]
  by (auto simp: init_checks_def res_simps Let_def SECTOR_SIZE_def SECTOR_CHUNCK_SIZE_def
      split: if_splits)

lemma parse_sif_not_bitwise: "parse_sif x = Inr f \<Longrightarrow> f \<noteq> BITWISE_XORING_FUNCTION"
  by (auto simp: parse_sif_def split: if_splits)

lemma init_policies_ok:
  assumes "init_policies toks c = Inr c'"
  shows "config_ok c'"
proof -
  from assms obtain ct rp wp ap mt wap c3 sif where
    chk: "init_checks ((init_sizes ((init_streaming (c\<lparr>m_cache_type := ct, m_replacement_policy := rp,
        m_write_policy := wp, m_alloc_policy := ap\<rparr>))\<lparr>m_mshr_type := mt\<rparr>))
        \<lparr>m_write_alloc_policy := wap\<rparr>) = Inr c3"
      and sif: "parse_sif (tok_char (toks ! 8)) = Inr sif"
      and c': "c' = c3\<lparr>m_set_index_function := sif\<rparr>"
    unfolding init_policies_def Let_def andThen_Inr sum.inject by blast
  define c1 where "c1 = init_streaming (c\<lparr>m_cache_type := ct, m_replacement_policy := rp,
        m_write_policy := wp, m_alloc_policy := ap\<rparr>)"
  have ap: "m_alloc_policy c1 \<noteq> STREAMING" by (simp add: c1_def init_streaming_keeps)
  define c2 where "c2 = (init_sizes (c1\<lparr>m_mshr_type := mt\<rparr>))\<lparr>m_write_alloc_policy := wap\<rparr>"
  have c2: "m_valid c2" "m_alloc_policy c2 = m_alloc_policy c1" "original_m_assoc c2 = m_assoc c2"
    "m_line_sz_log2 c2 = LOGB2 (m_line_sz c2)" "m_nset_log2 c2 = LOGB2 (m_nset c2)"
    "m_atom_sz c2 = (if m_cache_type c2 = SECTOR then SECTOR_SIZE else m_line_sz c2)"
    by (simp_all add: c2_def init_sizes_def)
  from chk have "init_checks c2 = Inr c3" by (simp only: c1_def c2_def)
  note facts = init_checks_Inr [OF this]
  obtain w where w: "c3 = c2\<lparr>m_data_port_width := w\<rparr>" using facts(4) by blast
  show ?thesis
    unfolding config_ok_def c' w using facts(1,2,3,5,6) c2 ap parse_sif_not_bitwise [OF sif]
    by (auto simp: w)
qed

lemma init_config_ok:
  assumes "init (Some s) st c = Inr c'" and "s \<noteq> ''none''"
  shows "config_ok c'"
  using assms by (auto simp: init_def res_simps Let_def split: if_splits intro: init_policies_ok)

text \<open>A configuration object before construction, for the concrete runs below.\<close>

definition blank_config :: cache_config where
  "blank_config = \<lparr>cc_class = Base_config, m_config_string = None, cache_status = FuncCachePreferNone,
     m_valid = False, m_disabled = False, m_line_sz = 0, m_line_sz_log2 = 0, m_nset = 0,
     m_nset_log2 = 0, m_assoc = 0, m_atom_sz = 0, m_sector_sz_log2 = 0, original_m_assoc = 0,
     m_is_streaming = False, m_replacement_policy = LRU, m_write_policy = READ_ONLY,
     m_alloc_policy = ON_MISS, m_mshr_type = ASSOC, m_cache_type = NORMAL,
     m_write_alloc_policy = NO_WRITE_ALLOCATE, m_mshr_entries = 0, m_mshr_max_merge = 0,
     m_miss_queue_size = 0, m_result_fifo_entries = 0, m_data_port_width = 0,
     m_set_index_function = LINEAR_SET_FUNCTION\<rparr>"

text \<open>A configuration string that \<open>init\<close> accepts (other than \<open>none\<close>) yields a consistent
  configuration: valid; the streaming policy resolved; no write-back and no fetch-on-write together
  with allocate-on-fill (the combinations the comments call deadlocking); sectors of 32 bytes in
  lines of 128; a non-zero port width that divides the line; the logarithms those of the sizes; and
  the bitwise-xor index function never selected.\<close>

theorem init_accepts_consistent:
  assumes "init (Some s) status c = Inr c'" and "s \<noteq> ''none''"
  shows "config_ok c'"
  using assms by (rule init_config_ok)

section \<open>Line addresses\<close>

lemma ucast_mask32: "k \<le> 32 \<Longrightarrow> (ucast (mask k :: u32) :: u64) = mask k"
  by (rule bit_word_eqI) (auto simp: bit_simps)

lemma pow_minus_one_mask: "(2 ^ k - 1 :: u32) = mask k"
  by (simp add: mask_eq_exp_minus_1)

lemma block_addr_pow2:
  assumes "m_line_sz c = 2 ^ k" and "k < 32"
  shows "block_addr c addr = push_bit k (drop_bit k addr)"
  unfolding block_addr_def assms(1) pow_minus_one_mask
  using assms(2) by (intro bit_word_eqI) (auto simp: ucast_mask32 bit_simps)

lemma mshr_addr_pow2:
  assumes "m_atom_sz c = 2 ^ k" and "k < 32"
  shows "mshr_addr c addr = push_bit k (drop_bit k addr)"
  unfolding mshr_addr_def assms(1) pow_minus_one_mask
  using assms(2) by (intro bit_word_eqI) (auto simp: ucast_mask32 bit_simps)

lemma tag_is_block_addr: "tag c addr = block_addr c addr"
  by (simp add: tag_def block_addr_def)

lemma block_addr_idem: "block_addr c (block_addr c addr) = block_addr c addr"
  by (simp add: block_addr_def and.assoc)

lemma tag_block_addr: "tag c (block_addr c addr) = block_addr c addr"
  by (simp add: tag_is_block_addr block_addr_idem)

lemma drop_block_addr:
  assumes "m_line_sz c = 2 ^ k" and "k < 32" and "k \<le> n"
  shows "drop_bit n (block_addr c addr) = drop_bit n addr"
  using assms(3) by (intro bit_word_eqI)
    (auto simp: block_addr_pow2 [OF assms(1,2)] bit_simps dest: bit_imp_le_length)

lemma and_block_addr:
  assumes "m_line_sz c = 2 ^ k" and "k < 32" and "\<And>i. i < k \<Longrightarrow> \<not> bit v i"
  shows "block_addr c addr AND v = addr AND v"
proof (rule bit_word_eqI)
  fix n assume "n < LENGTH(64)"
  then show "bit (block_addr c addr AND v) n = bit (addr AND v) n"
    using assms(3) [of n] by (cases "n < k") (auto simp: block_addr_pow2 [OF assms(1,2)] bit_simps)
qed

section \<open>The set index\<close>

lemma LOGB2_lt: "unat (LOGB2 v) < 32"
proof (cases "v = 0")
  case True
  then show ?thesis by (simp add: LOGB2_def)
next
  case False
  then have "(2 :: nat) ^ unat (LOGB2 v) < 2 ^ 32" using LOGB2_bounds [of v] unat_lt [of v] by simp
  then show ?thesis by (rule power_less_imp_less_exp [rotated]) simp
qed

lemma shr64_LOGB2: "shr64 addr (LOGB2 v) = Inr (drop_bit (unat (LOGB2 v)) addr)"
  using LOGB2_lt [of v] by (simp add: shr64_def word_less_nat_alt)

lemma unat_LOGB2_add: "unat (LOGB2 v + LOGB2 w) = unat (LOGB2 v) + unat (LOGB2 w)"
  using LOGB2_lt [of v] LOGB2_lt [of w] by (intro unat_add_le) simp

lemma shr64_LOGB2_add:
  "shr64 addr (LOGB2 v + LOGB2 w) = Inr (drop_bit (unat (LOGB2 v) + unat (LOGB2 w)) addr)"
  using LOGB2_lt [of v] LOGB2_lt [of w] by (simp add: shr64_def word_less_nat_alt unat_LOGB2_add)

lemma masked_index: "(ucast (l AND ucast (m :: u32)) :: u32) = ucast (l :: u64) AND m"
  by (rule bit_word_eqI) (auto simp: bit_simps)

lemma masked_index_lt: "(n :: u32) \<noteq> 0 \<Longrightarrow> ucast (l AND ucast (n - 1) :: u64) < n"
proof -
  assume n: "n \<noteq> 0"
  have "ucast l AND (n - 1) \<le> n - 1" by (rule word_and_le1)
  moreover have "n - 1 < n" using n by (simp add: word_less_nat_alt unat_minus_one unat_gt_0)
  ultimately show ?thesis unfolding masked_index by (rule le_less_trans)
qed

lemma no_high_bits_lt:
  fixes w :: u32
  assumes "\<And>i. k \<le> i \<Longrightarrow> i < 32 \<Longrightarrow> \<not> bit w i"
  shows "unat w < 2 ^ k"
proof -
  have "bit (take_bit k w) n = bit w n" if "n < 32" for n
    using assms [of n] that by (cases "n < k") (auto simp: bit_simps)
  then have "take_bit k w = w" by (intro bit_word_eqI) simp
  then have "unat w = take_bit k (unat w)" by (metis unsigned_take_bit_eq)
  then show ?thesis by (metis take_bit_nat_less_exp)
qed

text \<open>The bit fields the Fermi hash reads.\<close>

lemma fermi_masks:
  "(0x1F :: u64) = mask 5" "(0xE000 :: u64) = push_bit 13 (mask 3)"
  "(0x20000 :: u64) = push_bit 17 (mask 1)" "(0x80000 :: u64) = push_bit 19 (mask 1)"
  "(0x1000 :: u64) = push_bit 12 (mask 1)"
  by (simp_all add: mask_eq_exp_minus_1 push_bit_eq_mult)

lemma bit_8_16_32:
  fixes i :: nat
  shows "bit (8 :: 'a::semiring_bit_operations) i \<Longrightarrow> i = 3"
    "bit (16 :: 'a) i \<Longrightarrow> i = 4" "bit (32 :: 'a) i \<Longrightarrow> i = 5"
  using bit_exp_iff [of 3 i, where 'a = 'a] bit_exp_iff [of 4 i, where 'a = 'a]
    bit_exp_iff [of 5 i, where 'a = 'a] by auto

definition fermi_index :: "u64 \<Rightarrow> u64 \<Rightarrow> u32" where
  "fermi_index l addr = ucast (l AND 0x1F) XOR (ucast (drop_bit 13 (addr AND 0xE000)) OR
     ucast (drop_bit 14 (addr AND 0x20000)) OR ucast (drop_bit 15 (addr AND 0x80000)))"

lemma fermi_index_lt: "unat (fermi_index l addr) < 32"
proof -
  have "unat (fermi_index l addr) < 2 ^ 5"
    unfolding fermi_index_def fermi_masks
    by (rule no_high_bits_lt) (auto simp: bit_simps dest: bit_8_16_32)
  then show ?thesis by simp
qed

lemma fermi_index_64_lt:
  "unat (fermi_index l addr OR ucast (drop_bit 7 (addr AND 0x1000))) < 64"
proof -
  have "unat (fermi_index l addr OR ucast (drop_bit 7 (addr AND 0x1000))) < 2 ^ 6"
    unfolding fermi_index_def fermi_masks
    by (rule no_high_bits_lt) (auto simp: bit_simps dest: bit_8_16_32)
  then show ?thesis by simp
qed

definition index_supported :: "cache_config \<Rightarrow> bool" where
  "index_supported c \<longleftrightarrow> (case m_set_index_function c of
       LINEAR_SET_FUNCTION \<Rightarrow> m_nset c \<noteq> 0
     | BITWISE_XORING_FUNCTION \<Rightarrow> (\<exists>k < 32. m_nset c = 2 ^ k)
     | HASH_IPOLY_FUNCTION \<Rightarrow> m_nset c \<in> {16, 32, 64}
     | FERMI_HASH_SET_FUNCTION \<Rightarrow> m_nset c \<in> {32, 64}
     | CUSTOM_SET_FUNCTION \<Rightarrow> m_nset c \<noteq> 0)"

definition logs_ok :: "cache_config \<Rightarrow> bool" where
  "logs_ok c \<longleftrightarrow> m_line_sz_log2 c = LOGB2 (m_line_sz c) \<and> m_nset_log2 c = LOGB2 (m_nset c)"

lemma hash_fermi:
  "nset = 32 \<or> nset = 64 \<Longrightarrow> hash_function addr nset (LOGB2 v) w (sif_code FERMI_HASH_SET_FUNCTION) =
     Inr (let i = fermi_index (drop_bit (unat (LOGB2 v)) addr) addr in
          if nset = 64 then i OR ucast (drop_bit 7 (addr AND 0x1000)) else i)"
  using fermi_index_lt [of "drop_bit (unat (LOGB2 v)) addr" addr]
    fermi_index_64_lt [of "drop_bit (unat (LOGB2 v)) addr" addr]
  by (auto simp: hash_function_def shr64_LOGB2 fermi_index_def Let_def word_less_nat_alt or.assoc)

lemma hash_linear:
  "nset \<noteq> 0 \<Longrightarrow> hash_function addr nset (LOGB2 v) w (sif_code LINEAR_SET_FUNCTION) =
     Inr (ucast (drop_bit (unat (LOGB2 v)) addr AND ucast (nset - 1)))"
  by (simp add: hash_function_def shr64_LOGB2 masked_index_lt)

lemma hash_ipoly:
  assumes "ipoly_hash_function (drop_bit (unat (LOGB2 v) + unat (LOGB2 w)) addr)
     (ucast (drop_bit (unat (LOGB2 v)) addr AND ucast (nset - 1))) nset = Inr r"
  shows "hash_function addr nset (LOGB2 v) (LOGB2 w) (sif_code HASH_IPOLY_FUNCTION) = Inr r"
  using assms ipoly_bound [OF assms]
  by (simp add: hash_function_def shr64_LOGB2 shr64_LOGB2_add)

lemma hash_bitwise:
  assumes "nset = 2 ^ k" and "k < 32"
  shows "hash_function addr nset (LOGB2 v) (LOGB2 w) (sif_code BITWISE_XORING_FUNCTION) =
     Inr (bitwise_hash_function (drop_bit (unat (LOGB2 v) + unat (LOGB2 w)) addr)
       (ucast (drop_bit (unat (LOGB2 v)) addr AND ucast (nset - 1))) nset)"
proof -
  have "unat nset = 2 ^ k" using assms by (simp add: unat_two_power)
  then have "nset \<noteq> 0" by auto
  from bitwise_hash_bound [OF assms masked_index_lt [OF this]] show ?thesis
    by (simp add: hash_function_def shr64_LOGB2 shr64_LOGB2_add)
qed

lemma config_set_index_total:
  assumes "index_supported c" and "logs_ok c"
  shows "\<exists>s. config_set_index c addr = Inr s \<and> s < m_nset c"
proof -
  have "is_ok (config_set_index c addr)"
  proof (cases "m_set_index_function c")
    case HASH_IPOLY_FUNCTION
    with assms(1) obtain r where "ipoly_hash_function
        (drop_bit (unat (LOGB2 (m_line_sz c)) + unat (LOGB2 (m_nset c))) addr)
        (ucast (drop_bit (unat (LOGB2 (m_line_sz c))) addr AND ucast (m_nset c - 1))) (m_nset c) = Inr r"
      using ipoly_ok_iff [of "drop_bit (unat (LOGB2 (m_line_sz c)) + unat (LOGB2 (m_nset c))) addr"
          "ucast (drop_bit (unat (LOGB2 (m_line_sz c))) addr AND ucast (m_nset c - 1))" "m_nset c"]
      unfolding index_supported_def is_ok_iff by (metis set_index_function.simps(23))
    from hash_ipoly [OF this] show ?thesis
      using HASH_IPOLY_FUNCTION assms(2) by (simp add: config_set_index_def logs_ok_def)
  next
    case CUSTOM_SET_FUNCTION
    then show ?thesis using assms(1)
      by (simp add: config_set_index_def index_supported_def hash_function_def word_gt_0)
  qed (use assms in \<open>auto simp: config_set_index_def index_supported_def logs_ok_def
        hash_fermi hash_linear hash_bitwise simp del: sif_code.simps\<close>)
  then show ?thesis
    by (auto simp: is_ok_iff config_set_index_def hash_function_def res_simps)
qed

lemma fermi_bits_block_addr:
  assumes "m_line_sz c = 2 ^ k" and "k \<le> 12"
  shows "block_addr c addr AND 0xE000 = addr AND 0xE000" "block_addr c addr AND 0x20000 = addr AND 0x20000"
    "block_addr c addr AND 0x80000 = addr AND 0x80000" "block_addr c addr AND 0x1000 = addr AND 0x1000"
proof -
  have low: "\<not> bit (push_bit n v :: u64) i" if "i < k" "12 \<le> n" for n i v
    using that assms(2) by (simp add: bit_push_bit_iff)
  have k: "k < 32" using assms(2) by simp
  show "block_addr c addr AND 0xE000 = addr AND 0xE000" "block_addr c addr AND 0x20000 = addr AND 0x20000"
    "block_addr c addr AND 0x80000 = addr AND 0x80000" "block_addr c addr AND 0x1000 = addr AND 0x1000"
    unfolding fermi_masks by (rule and_block_addr [OF assms(1) k], rule low; simp)+
qed

lemma config_set_index_block:
  assumes "m_line_sz c = 2 ^ k" and "k \<le> 12" and "logs_ok c"
  shows "config_set_index c (block_addr c addr) = config_set_index c addr"
proof -
  have k: "unat (LOGB2 (m_line_sz c)) = k" using assms by (simp add: LOGB2_power)
  have d: "drop_bit (k + n) (block_addr c addr) = drop_bit (k + n) addr" for n
    using drop_block_addr [OF assms(1)] assms(2) by simp
  have s: "shr64 (block_addr c addr) (m_line_sz_log2 c) = shr64 addr (m_line_sz_log2 c)"
    "shr64 (block_addr c addr) (m_line_sz_log2 c + m_nset_log2 c) =
       shr64 addr (m_line_sz_log2 c + m_nset_log2 c)"
    using assms(3) d [of 0] d [of "unat (LOGB2 (m_nset c))"]
    unfolding logs_ok_def by (simp_all only: shr64_LOGB2 shr64_LOGB2_add k add_0_right)
  show ?thesis
    unfolding config_set_index_def hash_function_def s fermi_bits_block_addr [OF assms(1,2)] ..
qed

text \<open>The set index is total, in range and a function of the line.  For every index function and
  every number of sets the function supports, \<open>set_index\<close> of a cache with lines of a power-of-two
  size up to 4 KB succeeds for every address, is smaller than the number of sets, and is the same
  for all addresses of a line; the cache accesses its tags by line address only.\<close>

theorem set_index_of_line:
  assumes "cc_class c = Base_config" and "index_supported c" and "logs_ok c"
    and "m_line_sz c = 2 ^ k" and "k \<le> 12"
  shows "\<exists>s. set_index c addr = Inr s \<and> s < m_nset c \<and>
    (\<forall>addr'. block_addr c addr' = block_addr c addr \<longrightarrow> set_index c addr' = Inr s)"
proof -
  obtain s where s: "config_set_index c addr = Inr s" "s < m_nset c"
    using config_set_index_total [OF assms(2,3)] by blast
  have "config_set_index c addr' = Inr s" if "block_addr c addr' = block_addr c addr" for addr'
    using that s(1) config_set_index_block [OF assms(4,5,3)] by metis
  with s assms(1) show ?thesis by (auto simp: set_index_def)
qed

text \<open>Consecutive lines go to consecutive sets under the linear function: with a power-of-two
  number of sets the index is the line number modulo the number of sets.\<close>

theorem linear_set_index:
  assumes "m_set_index_function c = LINEAR_SET_FUNCTION" and "logs_ok c" and "cc_class c = Base_config"
    and "m_line_sz c = 2 ^ k" and "k < 32" and "m_nset c = 2 ^ n" and "n < 32"
  shows "\<exists>s. set_index c addr = Inr s \<and> unat s = (unat addr div 2 ^ k) mod 2 ^ n"
proof -
  have nz: "m_nset c \<noteq> 0" using assms(6) unat_two_power [of n, where 'a = 32] assms(7) by auto
  have k: "unat (LOGB2 (m_line_sz c)) = k" using assms by (simp add: LOGB2_power)
  let ?s = "ucast (drop_bit k addr AND ucast (m_nset c - 1)) :: u32"
  have "set_index c addr = Inr ?s"
    using assms(1,2,3) hash_linear [OF nz, of addr "m_line_sz c" "m_nset_log2 c"]
    by (simp add: set_index_def config_set_index_def logs_ok_def k)
  moreover have "drop_bit k addr AND ucast (m_nset c - 1) = take_bit n (drop_bit k addr)"
    using assms(7) unfolding assms(6) pow_minus_one_mask
    by (intro bit_word_eqI) (auto simp: bit_simps ucast_mask32)
  then have "?s = ucast (take_bit n (drop_bit k addr))" by simp
  moreover have "unat (ucast (take_bit n (drop_bit k addr)) :: u32) = (unat addr div 2 ^ k) mod 2 ^ n"
  proof -
    have "(unat addr div 2 ^ k) mod 2 ^ n < 2 ^ 32"
      using assms(7) power_increasing [of n 32 "2 :: nat"]
      by (intro less_le_trans [OF mod_less_divisor]) auto
    moreover have "unat (take_bit n (drop_bit k addr)) = (unat addr div 2 ^ k) mod 2 ^ n"
      by (subst unsigned_take_bit_eq) (simp only: take_bit_eq_mod unat_drop_bit)
    ultimately show ?thesis by (simp add: unsigned_ucast_eq take_bit_nat_eq_self)
  qed
  ultimately show ?thesis by auto
qed

text \<open>The bank of an L1 access is computed with the interleaving granularity itself where its
  logarithm is meant (\<open>init\<close> computes that logarithm and nothing reads it).  With the usual 32-byte
  interleaving and the linear function, every address below 4 GB falls into bank 0.\<close>

theorem set_bank_interleaving:
  assumes "l1_banks_byte_interleaving c = 32" and "l1_banks_hashing_function c = 0"
    and "l1_banks c \<noteq> 0" and "addr < 2 ^ 32"
  shows "set_bank c addr = Inr 0"
proof -
  have "unat addr < 2 ^ 32" using assms(4) by (simp add: word_less_nat_alt)
  then have "unat (drop_bit 32 addr) = 0" by (simp add: unat_drop_bit)
  then have "drop_bit 32 addr = 0" by (simp add: unat_eq_zero)
  then show ?thesis
    using assms by (simp add: set_bank_def hash_function_def shr64_def word_gt_0)
qed

end
