(* ===== verification/Mem_Fetch.thy ===== *)
theory Mem_Fetch
  imports Cache_Config
begin

text \<open>
  Memory requests: \<open>mem_access_t\<close> of \<open>abstract_hardware_model.h\<close>, \<open>mem_fetch\<close> of
  \<open>gpgpu-sim/mem_fetch.{h,cc}\<close> and the two allocators that create requests.  Requests are shared by
  pointer between the caches and queues, so they live in an explicit store: a \<open>mem_fetch *\<close> is an
  \<open>mfref\<close>, \<open>new\<close> takes the next unused reference, \<open>delete\<close> removes it, and reading through a
  reference that is not in the store is undefined.  The \<open>world\<close> holds that store, the counters the
  constructors advance and the two cycle counters of the simulator the data caches read.

  The address mapping of a \<open>memory_config\<close> (\<open>addrdec_tlx\<close> and \<open>partition_address\<close>) is a pair of
  functions in its record.  Of a \<open>warp_inst_t\<close> only the fields a request reads are kept.
\<close>

section \<open>Accesses\<close>

datatype mem_access_type =
    GLOBAL_ACC_R
  | LOCAL_ACC_R
  | CONST_ACC_R
  | TEXTURE_ACC_R
  | GLOBAL_ACC_W
  | LOCAL_ACC_W
  | L1_WRBK_ACC
  | L2_WRBK_ACC
  | INST_ACC_R
  | L1_WR_ALLOC_R
  | L2_WR_ALLOC_R

record mem_access_t =
  ma_uid :: u32
  ma_addr :: u64
  ma_write :: bool
  ma_req_size :: u32
  ma_type :: mem_access_type
  ma_warp_mask :: u32
  ma_byte_mask :: "128 word"
  ma_sector_mask :: sector_mask

definition byte_count :: "128 word \<Rightarrow> nat" where
  "byte_count m = length (filter (bit m) [0..<128])"

section \<open>Requests\<close>

datatype memory_space =
    undefined_space
  | reg_space
  | local_space
  | shared_space
  | sstarr_space
  | param_space_unclassified
  | param_space_kernel
  | param_space_local
  | const_space
  | tex_space
  | surf_space
  | global_space
  | generic_space
  | instruction_space

record warp_inst =
  wi_uid :: u32
  wi_empty :: bool
  wi_pc :: u32
  wi_warp_id :: u32
  wi_isatomic :: bool
  wi_space :: memory_space

text \<open>A default-constructed \<open>warp_inst_t\<close>: empty, all ones as program counter.\<close>

definition warp_inst_empty :: warp_inst where
  "warp_inst_empty = \<lparr>wi_uid = 0, wi_empty = True, wi_pc = - 1, wi_warp_id = 0, wi_isatomic = False,
     wi_space = undefined_space\<rparr>"

record addrdec_t =
  ad_chip :: u32
  ad_bk :: u32
  ad_row :: u32
  ad_col :: u32
  ad_burst :: u32
  ad_sub_partition :: u32

record memory_config =
  mc_addrdec_tlx :: "u64 \<Rightarrow> addrdec_t"
  mc_partition_address :: "u64 \<Rightarrow> u64"
  mc_icnt_flit_size :: u32

datatype mf_type = READ_REQUEST | WRITE_REQUEST | READ_REPLY | WRITE_ACK

datatype mem_fetch_status =
    MEM_FETCH_INITIALIZED
  | IN_L1I_MISS_QUEUE
  | IN_L1D_MISS_QUEUE
  | IN_L1T_MISS_QUEUE
  | IN_L1C_MISS_QUEUE
  | IN_L1TLB_MISS_QUEUE
  | IN_VM_MANAGER_QUEUE
  | IN_ICNT_TO_MEM
  | IN_PARTITION_ROP_DELAY
  | IN_PARTITION_ICNT_TO_L2_QUEUE
  | IN_PARTITION_L2_TO_DRAM_QUEUE
  | IN_PARTITION_DRAM_LATENCY_QUEUE
  | IN_PARTITION_L2_MISS_QUEUE
  | IN_PARTITION_MC_INTERFACE_QUEUE
  | IN_PARTITION_MC_INPUT_QUEUE
  | IN_PARTITION_MC_BANK_ARB_QUEUE
  | IN_PARTITION_DRAM
  | IN_PARTITION_MC_RETURNQ
  | IN_PARTITION_DRAM_TO_L2_QUEUE
  | IN_PARTITION_L2_FILL_QUEUE
  | IN_PARTITION_L2_TO_ICNT_QUEUE
  | IN_ICNT_TO_SHADER
  | IN_CLUSTER_TO_SHADER_QUEUE
  | IN_SHADER_LDST_RESPONSE_FIFO
  | IN_SHADER_FETCHED
  | IN_SHADER_L1T_ROB
  | MEM_FETCH_DELETED
  | NUM_MEM_REQ_STAT
  | IN_PARTITION_COMPRESSOR_MISS_QUEUE
  | IN_HUFFMAN_META_DATA_CACHE

type_synonym mfref = nat

record mem_fetch =
  mf_request_uid :: u32
  mf_sid :: u32
  mf_tpc :: u32
  mf_wid :: u32
  mf_status :: mem_fetch_status
  mf_status_change :: u64
  mf_access :: mem_access_t
  mf_data_size :: u32
  mf_ctrl_size :: u32
  mf_partition_addr :: u64
  mf_raw_addr :: addrdec_t
  mf_type :: mf_type
  mf_timestamp :: u32
  mf_timestamp2 :: u32
  mf_inst :: warp_inst
  mf_mem_config :: memory_config
  mf_icnt_flit_size :: u32
  mf_original_mf :: "mfref option"
  mf_original_wr_mf :: "mfref option"
  mf_compressed :: bool
  mf_is_meta_data_request :: bool

record world =
  w_heap :: "mfref \<rightharpoonup> mem_fetch"
  w_next :: mfref
  w_next_mf_request_uid :: u32
  w_next_access_uid :: u32
  gpu_tot_sim_cycle :: u64
  gpu_sim_cycle :: u64

definition deref :: "mfref \<Rightarrow> world \<Rightarrow> mem_fetch res" where
  "deref r w = (case w_heap w r of None \<Rightarrow> Inl Undefined | Some mf \<Rightarrow> Inr mf)"

definition update_mf :: "mfref \<Rightarrow> (mem_fetch \<Rightarrow> mem_fetch) \<Rightarrow> world \<Rightarrow> world res" where
  "update_mf r f w = (case w_heap w r of None \<Rightarrow> Inl Undefined
     | Some mf \<Rightarrow> Inr (w\<lparr>w_heap := (w_heap w)(r \<mapsto> f mf)\<rparr>))"

definition delete_mf :: "mfref \<Rightarrow> world \<Rightarrow> world res" where
  "delete_mf r w = (case w_heap w r of None \<Rightarrow> Inl Undefined
     | Some mf \<Rightarrow> Inr (w\<lparr>w_heap := (w_heap w)(r := None)\<rparr>))"

text \<open>The two public constructors of \<open>mem_access_t\<close>; \<open>init\<close> draws the next access id.\<close>

definition mem_access_masked :: "mem_access_type \<Rightarrow> u64 \<Rightarrow> u32 \<Rightarrow> bool \<Rightarrow> u32 \<Rightarrow> 128 word \<Rightarrow>
    sector_mask \<Rightarrow> world \<Rightarrow> mem_access_t \<times> world" where
  "mem_access_masked type addr sz wr active bytes sectors w =
     (let uid = w_next_access_uid w + 1 in
      (\<lparr>ma_uid = uid, ma_addr = addr, ma_write = wr, ma_req_size = sz, ma_type = type,
        ma_warp_mask = active, ma_byte_mask = bytes, ma_sector_mask = sectors\<rparr>,
       w\<lparr>w_next_access_uid := uid\<rparr>))"

definition mem_access_plain ::
  "mem_access_type \<Rightarrow> u64 \<Rightarrow> u32 \<Rightarrow> bool \<Rightarrow> world \<Rightarrow> mem_access_t \<times> world" where
  "mem_access_plain type addr sz wr w = mem_access_masked type addr sz wr 0 0 0 w"

definition mem_fetch_new :: "mem_access_t \<Rightarrow> warp_inst option \<Rightarrow> u32 \<Rightarrow> u32 \<Rightarrow> u32 \<Rightarrow> u32 \<Rightarrow>
    memory_config \<Rightarrow> u64 \<Rightarrow> mfref option \<Rightarrow> mfref option \<Rightarrow> world \<Rightarrow> (mfref \<times> world) res" where
  "mem_fetch_new access inst ctrl_size wid sid tpc config cycle original_mf original_wr_mf w =
     (let uid = w_next_mf_request_uid w; raw = mc_addrdec_tlx config (ma_addr access);
          r = w_next w in
      check (case inst of None \<Rightarrow> True | Some i \<Rightarrow> \<not> wi_empty i \<and> wid = wi_warp_id i)
      (andThen (case original_mf of None \<Rightarrow> Inr raw
                | Some o_mf \<Rightarrow> andThen (deref o_mf w) (\<lambda>om.
                    Inr (raw\<lparr>ad_chip := ad_chip (mf_raw_addr om),
                             ad_sub_partition := ad_sub_partition (mf_raw_addr om)\<rparr>)))
       (\<lambda>raw'. Inr (r, w\<lparr>w_next := Suc r, w_next_mf_request_uid := uid + 1,
          w_heap := (w_heap w)(r \<mapsto>
            \<lparr>mf_request_uid = uid, mf_sid = sid, mf_tpc = tpc, mf_wid = wid,
             mf_status = MEM_FETCH_INITIALIZED, mf_status_change = cycle, mf_access = access,
             mf_data_size = ma_req_size access, mf_ctrl_size = ctrl_size,
             mf_partition_addr = mc_partition_address config (ma_addr access), mf_raw_addr = raw',
             mf_type = (if ma_write access then WRITE_REQUEST else READ_REQUEST),
             mf_timestamp = ucast cycle, mf_timestamp2 = 0,
             mf_inst = (case inst of None \<Rightarrow> warp_inst_empty | Some i \<Rightarrow> i),
             mf_mem_config = config, mf_icnt_flit_size = mc_icnt_flit_size config,
             mf_original_mf = original_mf, mf_original_wr_mf = original_wr_mf,
             mf_compressed = False, mf_is_meta_data_request = False\<rparr>)\<rparr>))))"

definition mf_set_status :: "mem_fetch_status \<Rightarrow> u64 \<Rightarrow> mem_fetch \<Rightarrow> mem_fetch" where
  "mf_set_status status cycle mf = mf\<lparr>mf_status := status, mf_status_change := cycle\<rparr>"

definition get_addr :: "mem_fetch \<Rightarrow> u64" where
  "get_addr mf = ma_addr (mf_access mf)"

definition set_addr :: "u64 \<Rightarrow> mem_fetch \<Rightarrow> mem_fetch" where
  "set_addr addr mf = mf\<lparr>mf_access := (mf_access mf)\<lparr>ma_addr := addr\<rparr>\<rparr>"

definition set_data_size :: "u32 \<Rightarrow> mem_fetch \<Rightarrow> mem_fetch" where
  "set_data_size sz mf = mf\<lparr>mf_data_size := sz\<rparr>"

definition mf_size :: "mem_fetch \<Rightarrow> u32" where
  "mf_size mf = mf_data_size mf + mf_ctrl_size mf"

definition is_write :: "mem_fetch \<Rightarrow> bool" where
  "is_write mf = ma_write (mf_access mf)"

definition get_access_type :: "mem_fetch \<Rightarrow> mem_access_type" where
  "get_access_type mf = ma_type (mf_access mf)"

definition get_access_sector_mask :: "mem_fetch \<Rightarrow> sector_mask" where
  "get_access_sector_mask mf = ma_sector_mask (mf_access mf)"

definition get_access_byte_mask :: "mem_fetch \<Rightarrow> 128 word" where
  "get_access_byte_mask mf = ma_byte_mask (mf_access mf)"

definition isatomic :: "mem_fetch \<Rightarrow> bool" where
  "isatomic mf = (if wi_empty (mf_inst mf) then False else wi_isatomic (mf_inst mf))"

definition istexture :: "mem_fetch \<Rightarrow> bool" where
  "istexture mf = (if wi_empty (mf_inst mf) then False else wi_space (mf_inst mf) = tex_space)"

definition isconst :: "mem_fetch \<Rightarrow> bool" where
  "isconst mf = (if wi_empty (mf_inst mf) then False
     else wi_space (mf_inst mf) = const_space \<or> wi_space (mf_inst mf) = param_space_kernel)"

definition set_reply :: "mem_fetch \<Rightarrow> mem_fetch res" where
  "set_reply mf = check (get_access_type mf \<noteq> L1_WRBK_ACC \<and> get_access_type mf \<noteq> L2_WRBK_ACC)
     (case mf_type mf of
        READ_REQUEST \<Rightarrow> check (\<not> is_write mf) (Inr (mf\<lparr>mf_type := READ_REPLY\<rparr>))
      | WRITE_REQUEST \<Rightarrow> check (is_write mf) (Inr (mf\<lparr>mf_type := WRITE_ACK\<rparr>))
      | _ \<Rightarrow> Inr mf)"

definition set_chip :: "u32 \<Rightarrow> mem_fetch \<Rightarrow> mem_fetch" where
  "set_chip chip_id mf = mf\<lparr>mf_raw_addr := (mf_raw_addr mf)\<lparr>ad_chip := chip_id\<rparr>\<rparr>"

definition set_parition :: "u32 \<Rightarrow> mem_fetch \<Rightarrow> mem_fetch" where
  "set_parition p mf = mf\<lparr>mf_raw_addr := (mf_raw_addr mf)\<lparr>ad_sub_partition := p\<rparr>\<rparr>"

definition get_num_flits :: "bool \<Rightarrow> mem_fetch \<Rightarrow> u32 res" where
  "get_num_flits simt_to_mem mf =
     (let sz = (if isatomic mf \<or> (simt_to_mem \<and> is_write mf) \<or> \<not> (simt_to_mem \<or> is_write mf)
                then mf_size mf else mf_ctrl_size mf) in
      defined (mf_icnt_flit_size mf \<noteq> 0)
        (Inr (sz div mf_icnt_flit_size mf + (if sz mod mf_icnt_flit_size mf \<noteq> 0 then 1 else 0))))"

section \<open>Allocators\<close>

definition READ_PACKET_SIZE :: u32 where "READ_PACKET_SIZE = 8"

definition WRITE_PACKET_SIZE :: u32 where "WRITE_PACKET_SIZE = 8"

datatype mem_fetch_allocator =
    Core_allocator u32 u32 memory_config
  | Partition_allocator memory_config

fun mf_alloc :: "mem_fetch_allocator \<Rightarrow> u64 \<Rightarrow> mem_access_type \<Rightarrow> u32 \<Rightarrow> bool \<Rightarrow> u64 \<Rightarrow> world \<Rightarrow>
    (mfref \<times> world) res" where
  "mf_alloc (Core_allocator core_id cluster_id config) addr type sz wr cycle w =
     (let (access, w') = mem_access_plain type addr sz wr w in
      mem_fetch_new access None (if wr then WRITE_PACKET_SIZE else READ_PACKET_SIZE) (- 1) core_id
        cluster_id config cycle None None w')"
| "mf_alloc (Partition_allocator config) addr type sz wr cycle w = check wr
     (let (access, w') = mem_access_plain type addr sz wr w in
      mem_fetch_new access None WRITE_PACKET_SIZE (- 1) (- 1) (- 1) config cycle None None w')"

end
