(* ===== verification/Tag_Array.thy ===== *)
theory Tag_Array
  imports Mem_Fetch
begin

text \<open>
  \<open>tag_array\<close> of \<open>gpu-cache.{h,cc}\<close>: the tag store of every cache.  The configuration the code
  reaches through the reference \<open>m_config\<close> is an argument; the lines are a list; \<open>pending_lines\<close> is
  a map.  An index result passed by reference (\<open>unsigned &idx\<close>) is an option: \<open>None\<close> when the code
  leaves it as it was.  The visualizer log is output only and is left out.

  Shown: what \<open>probe\<close> returns on every kind of set; that the replacement victim is an invalid line
  if there is one and otherwise the least recently used (or first allocated) line that is not
  reserved; that an access evicts and allocates as the policies say; that a set never holds a tag
  twice; what \<open>flush\<close> and \<open>invalidate\<close> reach.
\<close>

section \<open>Model\<close>

record tag_array =
  ta_lines :: "cache_block list"
  ta_access :: u32
  ta_miss :: u32
  ta_pending_hit :: u32
  ta_res_fail :: u32
  ta_sector_miss :: u32
  ta_prev_snapshot_access :: u32
  ta_prev_snapshot_miss :: u32
  ta_prev_snapshot_pending_hit :: u32
  ta_core_id :: int
  ta_type_id :: int
  ta_is_used :: bool
  ta_pending_lines :: "u64 \<rightharpoonup> u32"

definition tag_array_init :: "int \<Rightarrow> int \<Rightarrow> cache_block list \<Rightarrow> tag_array" where
  "tag_array_init core_id type_id lines = \<lparr>ta_lines = lines, ta_access = 0, ta_miss = 0,
     ta_pending_hit = 0, ta_res_fail = 0, ta_sector_miss = 0, ta_prev_snapshot_access = 0,
     ta_prev_snapshot_miss = 0, ta_prev_snapshot_pending_hit = 0, ta_core_id = core_id,
     ta_type_id = type_id, ta_is_used = False, ta_pending_lines = Map.empty\<rparr>"

definition tag_array_new :: "cache_config \<Rightarrow> int \<Rightarrow> int \<Rightarrow> tag_array res" where
  "tag_array_new c core_id type_id = andThen (get_max_num_lines c) (\<lambda>n.
     Inr (tag_array_init core_id type_id
       (replicate (unat n) (case m_cache_type c of NORMAL \<Rightarrow> Line line_cache_block_new
                            | SECTOR \<Rightarrow> Sector sector_cache_block_new))))"

definition add_pending_line :: "cache_config \<Rightarrow> mem_fetch \<Rightarrow> tag_array \<Rightarrow> tag_array" where
  "add_pending_line c mf ta =
     (let addr = block_addr c (get_addr mf) in
      if ta_pending_lines ta addr = None
      then ta\<lparr>ta_pending_lines := (ta_pending_lines ta)(addr \<mapsto> wi_uid (mf_inst mf))\<rparr> else ta)"

definition remove_pending_line :: "cache_config \<Rightarrow> mem_fetch \<Rightarrow> tag_array \<Rightarrow> tag_array" where
  "remove_pending_line c mf ta =
     (let addr = block_addr c (get_addr mf) in
      if ta_pending_lines ta addr \<noteq> None
      then ta\<lparr>ta_pending_lines := (ta_pending_lines ta)(addr := None)\<rparr> else ta)"

text \<open>The locals of \<open>probe\<close> and one iteration of its loop over the ways.\<close>

record candidates =
  invalid_line :: u32
  valid_line :: u32
  valid_timestamp :: u64
  all_reserved :: bool

definition no_candidates :: candidates where
  "no_candidates = \<lparr>invalid_line = - 1, valid_line = - 1, valid_timestamp = ucast (- 1 :: u32),
     all_reserved = True\<rparr>"

definition victim_time :: "cache_config \<Rightarrow> cache_block \<Rightarrow> u64" where
  "victim_time c line = (case m_replacement_policy c of LRU \<Rightarrow> get_last_access_time line
     | FIFO \<Rightarrow> get_alloc_time line)"

definition note_candidate :: "cache_config \<Rightarrow> u32 \<Rightarrow> cache_block \<Rightarrow> candidates \<Rightarrow> candidates" where
  "note_candidate c index line cs =
     (if \<not> is_reserved_line line then
        (let cs' = cs\<lparr>all_reserved := False\<rparr> in
         if is_invalid_line line then cs'\<lparr>invalid_line := index\<rparr>
         else if victim_time c line < valid_timestamp cs'
         then cs'\<lparr>valid_timestamp := victim_time c line, valid_line := index\<rparr> else cs')
      else cs)"

definition sector_or_miss :: "cache_config \<Rightarrow> cache_request_status" where
  "sector_or_miss c = (if m_cache_type c = SECTOR then SECTOR_MISS else MISS)"

text \<open>The answer when the tag of a way matches: \<open>None\<close> lets the loop go on.\<close>

definition match_way :: "cache_config \<Rightarrow> sector_mask \<Rightarrow> cache_block \<Rightarrow> cache_request_status option res" where
  "match_way c msk line = andThen (get_status msk line) (\<lambda>st.
     case st of
       RESERVED \<Rightarrow> Inr (Some HIT_RESERVED)
     | VALID \<Rightarrow> Inr (Some HIT)
     | MODIFIED \<Rightarrow> andThen (is_readable msk line) (\<lambda>readable.
         Inr (Some (if readable then HIT else sector_or_miss c)))
     | INVALID \<Rightarrow> Inr (if is_valid_line line then Some (sector_or_miss c) else None))"

fun probe_ways :: "cache_config \<Rightarrow> cache_block list \<Rightarrow> u32 \<Rightarrow> u64 \<Rightarrow> sector_mask \<Rightarrow> nat list \<Rightarrow>
    candidates \<Rightarrow> ((cache_request_status \<times> u32) option \<times> candidates) res" where
  "probe_ways c lines si t msk [] cs = Inr (None, cs)"
| "probe_ways c lines si t msk (way # ways) cs =
     (let index = si * m_assoc c + of_nat way; line = lines ! unat index in
      defined (unat index < length lines)
        (andThen (if block_tag line = t then match_way c msk line else Inr None) (\<lambda>m.
           case m of Some st \<Rightarrow> Inr (Some (st, index), cs)
           | None \<Rightarrow> probe_ways c lines si t msk ways (note_candidate c index line cs))))"

definition probe_mask :: "cache_config \<Rightarrow> u64 \<Rightarrow> sector_mask \<Rightarrow> bool \<Rightarrow> mem_fetch option \<Rightarrow> tag_array \<Rightarrow>
    (cache_request_status \<times> u32 option) res" where
  "probe_mask c addr msk probe_mode mf ta =
     andThen (set_index c addr) (\<lambda>si.
     andThen (probe_ways c (ta_lines ta) si (tag c addr) msk [0..<unat (m_assoc c)] no_candidates)
       (\<lambda>(found, cs). case found of
          Some (st, index) \<Rightarrow> Inr (st, Some index)
        | None \<Rightarrow>
            if all_reserved cs then check (m_alloc_policy c = ON_MISS) (Inr (RESERVATION_FAIL, None))
            else andThen (if invalid_line cs \<noteq> - 1 then Inr (invalid_line cs)
                          else if valid_line cs \<noteq> - 1 then Inr (valid_line cs) else Inl Abort)
              (\<lambda>idx. if probe_mode \<and> m_is_streaming c then
                  check (mf \<noteq> None)
                    (if \<not> is_write (the mf) \<and>
                        (case ta_pending_lines ta (block_addr c addr) of None \<Rightarrow> False
                         | Some uid \<Rightarrow> uid \<noteq> wi_uid (mf_inst (the mf)))
                     then Inr (sector_or_miss c, Some idx) else Inr (MISS, Some idx))
                 else Inr (MISS, Some idx))))"

definition probe :: "cache_config \<Rightarrow> u64 \<Rightarrow> mem_fetch \<Rightarrow> bool \<Rightarrow> tag_array \<Rightarrow>
    (cache_request_status \<times> u32 option) res" where
  "probe c addr mf probe_mode ta =
     probe_mask c addr (get_access_sector_mask mf) probe_mode (Some mf) ta"

definition get_block :: "u32 \<Rightarrow> tag_array \<Rightarrow> cache_block res" where
  "get_block idx ta = defined (unat idx < length (ta_lines ta)) (Inr (ta_lines ta ! unat idx))"

text \<open>A call of a virtual function on \<open>m_lines[idx]\<close>.\<close>

definition on_line :: "u32 \<Rightarrow> (cache_block \<Rightarrow> cache_block res) \<Rightarrow> tag_array \<Rightarrow> tag_array res" where
  "on_line idx f ta = andThen (get_block idx ta) (\<lambda>b.
     andThen (f b) (\<lambda>b'. Inr (ta\<lparr>ta_lines := (ta_lines ta)[unat idx := b']\<rparr>)))"

text \<open>The reference parameters of \<open>access\<close>: the index, the write-back flag, the evicted block.\<close>

record access_out =
  ao_idx :: u32
  ao_wb :: bool
  ao_evicted :: evicted_block_info

definition tag_access_miss :: "cache_config \<Rightarrow> u64 \<Rightarrow> u32 \<Rightarrow> access_out \<Rightarrow> mem_fetch \<Rightarrow> tag_array \<Rightarrow>
    (access_out \<times> tag_array) res" where
  "tag_access_miss c addr time ao mf ta =
     (let ta1 = ta\<lparr>ta_miss := ta_miss ta + 1\<rparr> in
      if m_alloc_policy c = ON_MISS then
        andThen (get_block (ao_idx ao) ta1) (\<lambda>b.
          let ao1 = (if is_modified_line b
                     then ao\<lparr>ao_wb := True, ao_evicted := \<lparr>ev_block_addr = block_block_addr b,
                               ev_modified_size = get_modified_size b\<rparr>\<rparr>
                     else ao) in
          andThen (on_line (ao_idx ao)
              (block_allocate (tag c addr) (block_addr c addr) time (get_access_sector_mask mf)) ta1)
            (\<lambda>ta2. Inr (ao1, ta2)))
      else Inr (ao, ta1))"

definition tag_access :: "cache_config \<Rightarrow> u64 \<Rightarrow> u32 \<Rightarrow> access_out \<Rightarrow> mem_fetch \<Rightarrow> tag_array \<Rightarrow>
    (cache_request_status \<times> access_out \<times> tag_array) res" where
  "tag_access c addr time ao mf ta =
     (let ta0 = ta\<lparr>ta_access := ta_access ta + 1, ta_is_used := True\<rparr> in
      andThen (probe c addr mf False ta0) (\<lambda>(st, idx).
        let ao1 = (case idx of Some i \<Rightarrow> ao\<lparr>ao_idx := i\<rparr> | None \<Rightarrow> ao);
            msk = get_access_sector_mask mf in
        case st of
          HIT_RESERVED \<Rightarrow>
            andThen (on_line (ao_idx ao1) (set_last_access_time (ucast time) msk)
                (ta0\<lparr>ta_pending_hit := ta_pending_hit ta0 + 1\<rparr>)) (\<lambda>ta'. Inr (st, ao1, ta'))
        | HIT \<Rightarrow>
            andThen (on_line (ao_idx ao1) (set_last_access_time (ucast time) msk) ta0)
              (\<lambda>ta'. Inr (st, ao1, ta'))
        | MISS \<Rightarrow> andThen (tag_access_miss c addr time ao1 mf ta0) (\<lambda>(ao2, ta'). Inr (st, ao2, ta'))
        | SECTOR_MISS \<Rightarrow> check (m_cache_type c = SECTOR)
            (let ta1 = ta0\<lparr>ta_sector_miss := ta_sector_miss ta0 + 1\<rparr> in
             if m_alloc_policy c = ON_MISS
             then andThen (on_line (ao_idx ao1) (block_allocate_sector time msk) ta1)
                    (\<lambda>ta'. Inr (st, ao1, ta'))
             else Inr (st, ao1, ta1))
        | RESERVATION_FAIL \<Rightarrow> Inr (st, ao1, ta0\<lparr>ta_res_fail := ta_res_fail ta0 + 1\<rparr>)))"

text \<open>The overload without write-back asserts that none is needed.\<close>

definition tag_access_no_wb :: "cache_config \<Rightarrow> u64 \<Rightarrow> u32 \<Rightarrow> u32 \<Rightarrow> mem_fetch \<Rightarrow> tag_array \<Rightarrow>
    (cache_request_status \<times> u32 \<times> tag_array) res" where
  "tag_access_no_wb c addr time idx mf ta =
     andThen (tag_access c addr time \<lparr>ao_idx = idx, ao_wb = False, ao_evicted = no_evicted_block\<rparr> mf ta)
       (\<lambda>(st, ao, ta'). check (\<not> ao_wb ao) (Inr (st, ao_idx ao, ta')))"

definition tag_fill_addr :: "cache_config \<Rightarrow> u64 \<Rightarrow> u32 \<Rightarrow> sector_mask \<Rightarrow> tag_array \<Rightarrow> tag_array res" where
  "tag_fill_addr c addr time msk ta =
     andThen (probe_mask c addr msk False None ta) (\<lambda>(st, idx).
       andThen (case idx of Some i \<Rightarrow> Inr i | None \<Rightarrow> Inl Undefined) (\<lambda>i.
       andThen
         (if st = MISS
          then on_line i (block_allocate (tag c addr) (block_addr c addr) time msk) ta
          else if st = SECTOR_MISS
          then check (m_cache_type c = SECTOR) (on_line i (block_allocate_sector time msk) ta)
          else Inr ta)
         (on_line i (block_fill time msk))))"

definition tag_fill_index :: "cache_config \<Rightarrow> u32 \<Rightarrow> u32 \<Rightarrow> mem_fetch \<Rightarrow> tag_array \<Rightarrow> tag_array res" where
  "tag_fill_index c idx time mf ta = check (m_alloc_policy c = ON_MISS)
     (on_line idx (block_fill time (get_access_sector_mask mf)) ta)"

definition invalidate_block :: "cache_block \<Rightarrow> cache_block res" where
  "invalidate_block = foldM (\<lambda>j. set_status INVALID (sector j)) [0..<SECTOR_CHUNCK_SIZE]"

definition tag_flush :: "cache_config \<Rightarrow> tag_array \<Rightarrow> tag_array res" where
  "tag_flush c ta =
     (if \<not> ta_is_used ta then Inr ta
      else andThen (get_num_lines c) (\<lambda>n.
        andThen (foldM (\<lambda>i. on_line (of_nat i)
            (\<lambda>b. if is_modified_line b then invalidate_block b else Inr b)) [0..<unat n] ta)
          (\<lambda>ta'. Inr (ta'\<lparr>ta_is_used := False\<rparr>))))"

definition tag_invalidate :: "cache_config \<Rightarrow> tag_array \<Rightarrow> tag_array res" where
  "tag_invalidate c ta =
     (if \<not> ta_is_used ta then Inr ta
      else andThen (get_num_lines c) (\<lambda>n.
        andThen (foldM (\<lambda>i. on_line (of_nat i) invalidate_block) [0..<unat n] ta)
          (\<lambda>ta'. Inr (ta'\<lparr>ta_is_used := False\<rparr>))))"

text \<open>\<open>windowed_miss_rate\<close> divides these two numbers (and is zero when the second is).\<close>

definition windowed_miss_rate_operands :: "tag_array \<Rightarrow> u32 \<times> u32" where
  "windowed_miss_rate_operands ta =
     (let n_access = ta_access ta - ta_prev_snapshot_access ta;
          n_miss = (ta_miss ta + ta_sector_miss ta) - ta_prev_snapshot_miss ta
      in (n_miss + ta_sector_miss ta, n_access))"

definition new_window :: "tag_array \<Rightarrow> tag_array" where
  "new_window ta = ta\<lparr>ta_prev_snapshot_access := ta_access ta,
     ta_prev_snapshot_miss := ta_miss ta + ta_sector_miss ta,
     ta_prev_snapshot_pending_hit := ta_pending_hit ta\<rparr>"

definition tag_get_stats :: "tag_array \<Rightarrow> u32 \<times> u32 \<times> u32 \<times> u32" where
  "tag_get_stats ta = (ta_access ta, ta_miss ta + ta_sector_miss ta, ta_pending_hit ta, ta_res_fail ta)"

section \<open>Well-formed tag arrays\<close>

fun block_kind :: "cache_type \<Rightarrow> cache_block \<Rightarrow> bool" where
  "block_kind NORMAL (Line b) = True"
| "block_kind SECTOR (Sector b) = True"
| "block_kind _ _ = False"

definition ta_wf :: "cache_config \<Rightarrow> tag_array \<Rightarrow> bool" where
  "ta_wf c ta \<longleftrightarrow> (\<forall>b \<in> set (ta_lines ta). block_wf b \<and> block_kind (m_cache_type c) b) \<and>
     unat (m_nset c) * unat (m_assoc c) \<le> length (ta_lines ta) \<and> length (ta_lines ta) < 2 ^ 32"

text \<open>The line of way \<open>way\<close> in set \<open>si\<close>.\<close>

definition line_index :: "cache_config \<Rightarrow> u32 \<Rightarrow> nat \<Rightarrow> nat" where
  "line_index c si way = unat si * unat (m_assoc c) + way"

definition line_at :: "cache_config \<Rightarrow> tag_array \<Rightarrow> u32 \<Rightarrow> nat \<Rightarrow> cache_block" where
  "line_at c ta si way = ta_lines ta ! line_index c si way"

definition ways :: "cache_config \<Rightarrow> nat list" where
  "ways c = [0..<unat (m_assoc c)]"

lemma line_index_lt:
  assumes "ta_wf c ta" and "si < m_nset c" and "way < unat (m_assoc c)"
  shows "line_index c si way < length (ta_lines ta)"
proof -
  have "unat si + 1 \<le> unat (m_nset c)" using assms(2) by (simp add: word_less_nat_alt)
  then have "(unat si + 1) * unat (m_assoc c) \<le> unat (m_nset c) * unat (m_assoc c)"
    by (rule mult_le_mono1)
  then show ?thesis using assms(1,3) by (simp add: ta_wf_def line_index_def)
qed

lemma line_index_word:
  assumes "ta_wf c ta" and "si < m_nset c" and "way < unat (m_assoc c)"
  shows "unat (si * m_assoc c + of_nat way) = line_index c si way"
proof -
  have "line_index c si way < 2 ^ 32"
    using line_index_lt [OF assms] assms(1) by (simp add: ta_wf_def)
  moreover have "way < 2 ^ 32" using assms(3) unat_lt [of "m_assoc c"] by simp
  ultimately show ?thesis
    by (simp add: line_index_def unat_add_le unat_mult_le unat_of_nat_lt)
qed

lemma index_not_sentinel: "unat i < n \<Longrightarrow> n < 2 ^ 32 \<Longrightarrow> (i :: u32) \<noteq> - 1"
  by (auto simp: unsigned_minus_1_eq_mask mask_eq_exp_minus_1)

lemma line_at_wf:
  assumes "ta_wf c ta" and "si < m_nset c" and "way < unat (m_assoc c)"
  shows "block_wf (line_at c ta si way)" "block_kind (m_cache_type c) (line_at c ta si way)"
  using line_index_lt [OF assms] assms(1) by (auto simp: ta_wf_def line_at_def)

section \<open>What the loop of \<open>probe\<close> computes\<close>

definition match_state :: "cache_config \<Rightarrow> sector_mask \<Rightarrow> cache_block \<Rightarrow> cache_request_status option" where
  "match_state c msk b = (case match_way c msk b of Inr m \<Rightarrow> m | Inl e \<Rightarrow> None)"

lemma is_readable_ok: "block_wf b \<Longrightarrow> single msk \<Longrightarrow> \<exists>r. is_readable msk b = Inr r"
  by (cases b) (auto simp: get_sector_index_single)

lemma match_way_ok:
  assumes "block_wf b" and "single msk"
  shows "match_way c msk b = Inr (match_state c msk b)"
proof -
  obtain r where "is_readable msk b = Inr r" using is_readable_ok [OF assms] by blast
  then show ?thesis
    by (auto simp: match_state_def match_way_def get_status_single [OF assms] split: cache_block_state.split)
qed

lemma match_state_None:
  assumes "block_wf b" and "single msk" and "block_kind k b" and "match_state c msk b = None"
  shows "is_invalid_line b"
proof -
  obtain r where r: "is_readable msk b = Inr r" using is_readable_ok [OF assms(1,2)] by blast
  have "block_state (sidx msk) b = INVALID \<and> \<not> is_valid_line b"
    using assms(4) r by (auto simp: match_state_def match_way_def get_status_single [OF assms(1,2)]
        split: cache_block_state.splits if_splits)
  then show ?thesis by (cases b) auto
qed

text \<open>The answer of the loop for one set: the first way whose tag matches and whose state answers.\<close>

definition way_answer :: "cache_config \<Rightarrow> tag_array \<Rightarrow> u32 \<Rightarrow> u64 \<Rightarrow> sector_mask \<Rightarrow> nat \<Rightarrow>
    cache_request_status option" where
  "way_answer c ta si t msk way =
     (if block_tag (line_at c ta si way) = t then match_state c msk (line_at c ta si way) else None)"

lemma probe_ways_step:
  assumes "ta_wf c ta" and "si < m_nset c" and "way < unat (m_assoc c)" and "single msk"
  shows "probe_ways c (ta_lines ta) si t msk (way # ws) cs =
    (case way_answer c ta si t msk way of
       Some st \<Rightarrow> Inr (Some (st, si * m_assoc c + of_nat way), cs)
     | None \<Rightarrow> probe_ways c (ta_lines ta) si t msk ws
         (note_candidate c (si * m_assoc c + of_nat way) (line_at c ta si way) cs))"
proof -
  note i = line_index_word [OF assms(1-3)] and l = line_index_lt [OF assms(1-3)]
  note m = match_way_ok [OF line_at_wf(1) [OF assms(1-3)] assms(4), of c]
  show ?thesis
    using m l by (simp add: i line_at_def [symmetric] way_answer_def split: option.split)
qed

lemma probe_ways_find:
  assumes "ta_wf c ta" and "si < m_nset c" and "single msk" and "set ws \<subseteq> {..<unat (m_assoc c)}"
  shows "probe_ways c (ta_lines ta) si t msk ws cs =
    Inr (case find (\<lambda>w. way_answer c ta si t msk w \<noteq> None) ws of
      Some w \<Rightarrow> (Some (the (way_answer c ta si t msk w), si * m_assoc c + of_nat w),
        fold (\<lambda>w. note_candidate c (si * m_assoc c + of_nat w) (line_at c ta si w))
          (takeWhile (\<lambda>w. way_answer c ta si t msk w = None) ws) cs)
    | None \<Rightarrow> (None,
        fold (\<lambda>w. note_candidate c (si * m_assoc c + of_nat w) (line_at c ta si w)) ws cs))"
  using assms(4)
proof (induction ws arbitrary: cs)
  case (Cons w ws)
  then have "w < unat (m_assoc c)" by simp
  from probe_ways_step [OF assms(1,2) this assms(3), of t ws cs] Cons show ?case
    by (auto simp del: probe_ways.simps split: option.split)
qed simp

section \<open>The replacement candidates\<close>

text \<open>What the locals of \<open>probe\<close> say after the ways \<open>ws\<close>, where \<open>L\<close> is the line and \<open>I\<close> the index
  of a way.  The oldest time seen starts at \<open>(unsigned)-1\<close>.\<close>

definition replaceable :: "cache_block \<Rightarrow> bool" where
  "replaceable b \<longleftrightarrow> \<not> is_reserved_line b \<and> \<not> is_invalid_line b"

definition reserved_ok :: "(nat \<Rightarrow> cache_block) \<Rightarrow> nat list \<Rightarrow> candidates \<Rightarrow> bool" where
  "reserved_ok L ws cs \<longleftrightarrow> (all_reserved cs \<longleftrightarrow> (\<forall>w \<in> set ws. is_reserved_line (L w)))"

definition invalid_ok :: "(nat \<Rightarrow> cache_block) \<Rightarrow> (nat \<Rightarrow> u32) \<Rightarrow> nat list \<Rightarrow> candidates \<Rightarrow> bool" where
  "invalid_ok L I ws cs \<longleftrightarrow>
     (if invalid_line cs = - 1 then (\<forall>w \<in> set ws. is_reserved_line (L w) \<or> \<not> is_invalid_line (L w))
      else (\<exists>w \<in> set ws. invalid_line cs = I w \<and> is_invalid_line (L w) \<and> \<not> is_reserved_line (L w)))"

definition oldest_ok :: "cache_config \<Rightarrow> (nat \<Rightarrow> cache_block) \<Rightarrow> (nat \<Rightarrow> u32) \<Rightarrow> nat list \<Rightarrow>
    candidates \<Rightarrow> bool" where
  "oldest_ok c L I ws cs \<longleftrightarrow>
     (\<forall>w \<in> set ws. replaceable (L w) \<longrightarrow> valid_timestamp cs \<le> victim_time c (L w)) \<and>
     (if valid_line cs = - 1 then valid_timestamp cs = ucast (- 1 :: u32)
      else (\<exists>w \<in> set ws. valid_line cs = I w \<and> replaceable (L w) \<and>
              valid_timestamp cs = victim_time c (L w)))"

definition candidates_ok :: "cache_config \<Rightarrow> (nat \<Rightarrow> cache_block) \<Rightarrow> (nat \<Rightarrow> u32) \<Rightarrow> nat list \<Rightarrow>
    candidates \<Rightarrow> bool" where
  "candidates_ok c L I ws cs \<longleftrightarrow> reserved_ok L ws cs \<and> invalid_ok L I ws cs \<and> oldest_ok c L I ws cs"

lemma no_candidates_ok: "candidates_ok c L I [] no_candidates"
  by (simp add: candidates_ok_def reserved_ok_def invalid_ok_def oldest_ok_def no_candidates_def)

lemma note_reserved_ok:
  "reserved_ok L ws cs \<Longrightarrow> reserved_ok L (ws @ [w]) (note_candidate c (I w) (L w) cs)"
  by (auto simp: reserved_ok_def note_candidate_def Let_def)

lemma note_invalid_ok:
  "invalid_ok L I ws cs \<Longrightarrow> I w \<noteq> - 1 \<Longrightarrow> invalid_ok L I (ws @ [w]) (note_candidate c (I w) (L w) cs)"
  by (auto simp: invalid_ok_def note_candidate_def Let_def split: if_splits)

lemma note_oldest_ok:
  assumes ok: "oldest_ok c L I ws cs" and i: "I w \<noteq> - 1"
  shows "oldest_ok c L I (ws @ [w]) (note_candidate c (I w) (L w) cs)"
proof (cases "replaceable (L w) \<and> victim_time c (L w) < valid_timestamp cs")
  case True
  then have "note_candidate c (I w) (L w) cs = cs\<lparr>all_reserved := False,
      valid_timestamp := victim_time c (L w), valid_line := I w\<rparr>"
    by (simp add: note_candidate_def replaceable_def)
  moreover have "\<forall>v \<in> set ws. replaceable (L v) \<longrightarrow> victim_time c (L w) \<le> victim_time c (L v)"
    using ok True by (auto simp: oldest_ok_def)
  ultimately show ?thesis using True i by (simp add: oldest_ok_def)
next
  case False
  then have "valid_timestamp (note_candidate c (I w) (L w) cs) = valid_timestamp cs"
    "valid_line (note_candidate c (I w) (L w) cs) = valid_line cs"
    by (auto simp: note_candidate_def replaceable_def Let_def)
  moreover have "replaceable (L w) \<longrightarrow> valid_timestamp cs \<le> victim_time c (L w)"
    using False by auto
  ultimately show ?thesis using ok by (auto simp: oldest_ok_def split: if_splits)
qed

lemma note_candidate_ok:
  "candidates_ok c L I ws cs \<Longrightarrow> I w \<noteq> - 1 \<Longrightarrow>
     candidates_ok c L I (ws @ [w]) (note_candidate c (I w) (L w) cs)"
  by (simp add: candidates_ok_def note_reserved_ok note_invalid_ok note_oldest_ok)

lemma fold_candidates_ok:
  assumes "candidates_ok c L I us cs" and "\<forall>w \<in> set ws. I w \<noteq> - 1"
  shows "candidates_ok c L I (us @ ws) (fold (\<lambda>w. note_candidate c (I w) (L w)) ws cs)"
  using assms
proof (induction ws arbitrary: us cs)
  case (Cons w ws)
  from note_candidate_ok [OF Cons.prems(1), of w] Cons.prems(2)
  have "candidates_ok c L I (us @ [w]) (note_candidate c (I w) (L w) cs)" by simp
  from Cons.IH [OF this] Cons.prems(2) show ?case by simp
qed simp

section \<open>What \<open>probe\<close> returns\<close>

text \<open>The index word of a way.\<close>

definition way_word :: "cache_config \<Rightarrow> u32 \<Rightarrow> nat \<Rightarrow> u32" where
  "way_word c si w = si * m_assoc c + of_nat w"

definition set_candidates :: "cache_config \<Rightarrow> tag_array \<Rightarrow> u32 \<Rightarrow> candidates" where
  "set_candidates c ta si =
     fold (\<lambda>w. note_candidate c (way_word c si w) (line_at c ta si w)) (ways c) no_candidates"

lemma set_candidates_ok:
  assumes "ta_wf c ta" and "si < m_nset c"
  shows "candidates_ok c (line_at c ta si) (way_word c si) (ways c) (set_candidates c ta si)"
proof -
  have "\<forall>w \<in> set (ways c). way_word c si w \<noteq> - 1"
  proof
    fix w assume "w \<in> set (ways c)"
    then have w: "w < unat (m_assoc c)" by (simp add: ways_def)
    show "way_word c si w \<noteq> - 1"
      using line_index_word [OF assms w] line_index_lt [OF assms w] assms(1)
      by (intro index_not_sentinel [of _ "length (ta_lines ta)"]) (auto simp: way_word_def ta_wf_def)
  qed
  from fold_candidates_ok [OF no_candidates_ok this] show ?thesis
    by (simp add: set_candidates_def)
qed

lemma probe_ways_all:
  assumes "ta_wf c ta" and "si < m_nset c" and "single msk"
  shows "probe_ways c (ta_lines ta) si t msk [0..<unat (m_assoc c)] no_candidates =
    Inr (case find (\<lambda>w. way_answer c ta si t msk w \<noteq> None) (ways c) of
      Some w \<Rightarrow> (Some (the (way_answer c ta si t msk w), way_word c si w),
        fold (\<lambda>w. note_candidate c (way_word c si w) (line_at c ta si w))
          (takeWhile (\<lambda>w. way_answer c ta si t msk w = None) (ways c)) no_candidates)
    | None \<Rightarrow> (None, set_candidates c ta si))"
proof -
  have "set (ways c) \<subseteq> {..<unat (m_assoc c)}" by (auto simp: ways_def)
  from probe_ways_find [OF assms this, of t no_candidates] show ?thesis
    unfolding way_word_def set_candidates_def ways_def [symmetric] .
qed

lemma find_way:
  assumes "find P (ways c) = Some w"
  shows "w < unat (m_assoc c) \<and> P w"
  using assms by (auto simp: find_Some_iff ways_def)

lemma find_no_way: "find P (ways c) = None \<longleftrightarrow> (\<forall>w < unat (m_assoc c). \<not> P w)"
  by (auto simp: find_None_iff ways_def)

text \<open>The four outcomes of a plain probe, for a set \<open>si\<close> and the tag of the address.\<close>

definition probe_spec :: "cache_config \<Rightarrow> tag_array \<Rightarrow> u32 \<Rightarrow> u64 \<Rightarrow> sector_mask \<Rightarrow>
    (cache_request_status \<times> u32 option) res" where
  "probe_spec c ta si t msk =
     (case find (\<lambda>w. way_answer c ta si t msk w \<noteq> None) (ways c) of
        Some w \<Rightarrow> Inr (the (way_answer c ta si t msk w), Some (way_word c si w))
      | None \<Rightarrow>
          (let cs = set_candidates c ta si in
           if \<forall>w < unat (m_assoc c). is_reserved_line (line_at c ta si w)
           then check (m_alloc_policy c = ON_MISS) (Inr (RESERVATION_FAIL, None))
           else if invalid_line cs \<noteq> - 1 then Inr (MISS, Some (invalid_line cs))
           else if valid_line cs \<noteq> - 1 then Inr (MISS, Some (valid_line cs)) else Inl Abort))"

lemma probe_mask_spec:
  assumes "ta_wf c ta" and "set_index c addr = Inr si" and "si < m_nset c" and "single msk"
  shows "probe_mask c addr msk False mf ta = probe_spec c ta si (tag c addr) msk"
proof (cases "find (\<lambda>w. way_answer c ta si (tag c addr) msk w \<noteq> None) (ways c)")
  case None
  have "all_reserved (set_candidates c ta si) \<longleftrightarrow>
      (\<forall>w < unat (m_assoc c). is_reserved_line (line_at c ta si w))"
    using set_candidates_ok [OF assms(1,3)] by (auto simp: candidates_ok_def reserved_ok_def ways_def)
  with None show ?thesis
    by (auto simp: probe_mask_def probe_spec_def assms(2) probe_ways_all [OF assms(1,3,4)] Let_def)
next
  case (Some w)
  then show ?thesis
    by (simp add: probe_mask_def probe_spec_def assms(2) probe_ways_all [OF assms(1,3,4)])
qed

lemma way_word_unat:
  assumes "ta_wf c ta" and "si < m_nset c" and "w < unat (m_assoc c)"
  shows "unat (way_word c si w) = line_index c si w"
  using line_index_word [OF assms] by (simp add: way_word_def)

lemma answer_line:
  assumes "ta_wf c ta" and "si < m_nset c" and "w < unat (m_assoc c)" and "single msk"
    and "way_answer c ta si t msk w = Some st"
  shows "block_tag (line_at c ta si w) = t" "\<not> is_invalid_line (line_at c ta si w)"
    "st \<noteq> RESERVATION_FAIL" "st = SECTOR_MISS \<Longrightarrow> m_cache_type c = SECTOR"
proof -
  let ?b = "line_at c ta si w"
  note wf = line_at_wf [OF assms(1-3)]
  obtain r where r: "is_readable msk ?b = Inr r" using is_readable_ok [OF wf(1) assms(4)] by blast
  show tg: "block_tag ?b = t" using assms(5) by (simp add: way_answer_def split: if_splits)
  have m: "match_state c msk ?b = Some st" using assms(5) tg by (simp add: way_answer_def)
  show "st \<noteq> RESERVATION_FAIL" "st = SECTOR_MISS \<Longrightarrow> m_cache_type c = SECTOR"
    using m r by (auto simp: match_state_def match_way_def get_status_single [OF wf(1) assms(4)]
        sector_or_miss_def split: cache_block_state.splits if_splits)
  show "\<not> is_invalid_line ?b"
  proof
    assume "is_invalid_line ?b"
    then have "block_state (sidx msk) ?b = INVALID" "\<not> is_valid_line ?b"
      using is_invalid_line_iff [OF wf(1)] sidx_mem [OF assms(4)] by (auto, cases ?b, auto)
    then show False using m by (simp add: match_state_def match_way_def get_status_single [OF wf(1) assms(4)])
  qed
qed

lemma no_answer_invalid:
  assumes "ta_wf c ta" and "si < m_nset c" and "w < unat (m_assoc c)" and "single msk"
    and "way_answer c ta si t msk w = None" and "block_tag (line_at c ta si w) = t"
  shows "is_invalid_line (line_at c ta si w)"
  using match_state_None [OF line_at_wf(1) [OF assms(1-3)] assms(4) line_at_wf(2) [OF assms(1-3)]] assms(5,6)
  by (simp add: way_answer_def)

text \<open>The replacement victim of a set: an invalid line, or, when every line that is not reserved is
  valid, the one with the oldest access (or allocation) time.\<close>

definition is_victim :: "cache_config \<Rightarrow> tag_array \<Rightarrow> u32 \<Rightarrow> nat \<Rightarrow> bool" where
  "is_victim c ta si w \<longleftrightarrow> w < unat (m_assoc c) \<and> \<not> is_reserved_line (line_at c ta si w) \<and>
     (is_invalid_line (line_at c ta si w) \<or>
      (\<forall>v < unat (m_assoc c). is_reserved_line (line_at c ta si v) \<or>
         (\<not> is_invalid_line (line_at c ta si v) \<and>
          victim_time c (line_at c ta si w) \<le> victim_time c (line_at c ta si v))))"

lemma victim_of_candidates:
  assumes "ta_wf c ta" and "si < m_nset c"
    and "idx = (if invalid_line (set_candidates c ta si) \<noteq> - 1
      then invalid_line (set_candidates c ta si) else valid_line (set_candidates c ta si))"
    and "idx \<noteq> - 1"
  shows "\<exists>w. is_victim c ta si w \<and> idx = way_word c si w"
proof -
  let ?cs = "set_candidates c ta si" let ?L = "line_at c ta si"
  have ok: "invalid_ok ?L (way_word c si) (ways c) ?cs" "oldest_ok c ?L (way_word c si) (ways c) ?cs"
    using set_candidates_ok [OF assms(1,2)] by (auto simp: candidates_ok_def)
  show ?thesis
  proof (cases "invalid_line ?cs = - 1")
    case True
    then have "valid_line ?cs \<noteq> - 1" "idx = valid_line ?cs" using assms(3,4) by auto
    with ok(2) obtain w where w: "w \<in> set (ways c)" "idx = way_word c si w" "replaceable (?L w)"
      "\<forall>v \<in> set (ways c). replaceable (?L v) \<longrightarrow> victim_time c (?L w) \<le> victim_time c (?L v)"
      by (auto simp: oldest_ok_def)
    moreover have "\<forall>v \<in> set (ways c). is_reserved_line (?L v) \<or> \<not> is_invalid_line (?L v)"
      using ok(1) True by (simp add: invalid_ok_def)
    ultimately show ?thesis
      by (intro exI [of _ w]) (auto simp: is_victim_def ways_def replaceable_def)
  next
    case False
    with ok(1) assms(3) show ?thesis by (auto simp: invalid_ok_def is_victim_def ways_def)
  qed
qed

text \<open>The outcome of a probe of set \<open>si\<close> for tag \<open>t\<close>: an answer of the first way that has one, or
  the victim when no way has one, or a reservation failure when all ways are reserved.\<close>

definition probe_outcome :: "cache_config \<Rightarrow> tag_array \<Rightarrow> u32 \<Rightarrow> u64 \<Rightarrow> sector_mask \<Rightarrow>
    cache_request_status \<Rightarrow> u32 option \<Rightarrow> bool" where
  "probe_outcome c ta si t msk st idx \<longleftrightarrow>
     (case idx of
        None \<Rightarrow> st = RESERVATION_FAIL \<and> m_alloc_policy c = ON_MISS \<and>
          (\<forall>w < unat (m_assoc c). is_reserved_line (line_at c ta si w) \<and> way_answer c ta si t msk w = None)
      | Some i \<Rightarrow> \<exists>w < unat (m_assoc c). i = way_word c si w \<and>
          (way_answer c ta si t msk w = Some st \<and> (\<forall>v < w. way_answer c ta si t msk v = None) \<or>
           st = MISS \<and> is_victim c ta si w \<and> (\<forall>v < unat (m_assoc c). way_answer c ta si t msk v = None)))"

lemma probe_spec_outcome:
  assumes "ta_wf c ta" and "si < m_nset c" and "probe_spec c ta si t msk = Inr (st, idx)"
  shows "probe_outcome c ta si t msk st idx"
proof (cases "find (\<lambda>w. way_answer c ta si t msk w \<noteq> None) (ways c)")
  case None
  then have none: "\<forall>w < unat (m_assoc c). way_answer c ta si t msk w = None"
    by (simp add: find_no_way)
  show ?thesis
  proof (cases "\<forall>w < unat (m_assoc c). is_reserved_line (line_at c ta si w)")
    case True
    then show ?thesis using assms(3) None none by (auto simp: probe_spec_def probe_outcome_def res_simps)
  next
    case False
    then obtain i where i: "idx = Some i" "st = MISS" "i \<noteq> - 1"
      "i = (if invalid_line (set_candidates c ta si) \<noteq> - 1
        then invalid_line (set_candidates c ta si) else valid_line (set_candidates c ta si))"
      using assms(3) None by (auto simp: probe_spec_def Let_def split: if_splits)
    from victim_of_candidates [OF assms(1,2) i(4,3)] i none show ?thesis
      by (auto simp: probe_outcome_def is_victim_def)
  qed
next
  case (Some w)
  then have "st = the (way_answer c ta si t msk w)" "idx = Some (way_word c si w)"
    using assms(3) by (auto simp: probe_spec_def)
  moreover obtain i where "i < unat (m_assoc c)" "w = i" "way_answer c ta si t msk w \<noteq> None"
    "\<forall>j < i. way_answer c ta si t msk j = None"
    using Some by (auto simp: find_Some_iff ways_def)
  ultimately show ?thesis by (auto simp: probe_outcome_def)
qed

text \<open>C36: the outcome of a probe.  In a well-formed tag array, \<open>probe\<close> reports a hit, a pending hit or
  a sector miss only at a line of the right set that carries the tag and is in the corresponding
  state; it reports a reservation failure only when every line of the set is reserved; and on a miss
  it selects either the (unreadable) line with this very tag or the replacement victim, in which case
  every line of the set with this tag is invalid.\<close>

theorem probe_correct:
  assumes "ta_wf c ta" and "set_index c addr = Inr si" and "si < m_nset c"
    and "single (get_access_sector_mask mf)" and "probe c addr mf False ta = Inr (st, idx)"
  shows "case idx of
      None \<Rightarrow> st = RESERVATION_FAIL \<and> (\<forall>w < unat (m_assoc c). is_reserved_line (line_at c ta si w))
    | Some i \<Rightarrow> \<exists>w < unat (m_assoc c). unat i = line_index c si w \<and>
        (block_tag (line_at c ta si w) = tag c addr \<and>
           match_state c (get_access_sector_mask mf) (line_at c ta si w) = Some st \<or>
         st = MISS \<and> is_victim c ta si w \<and>
           (\<forall>v < unat (m_assoc c). block_tag (line_at c ta si v) = tag c addr \<longrightarrow>
              is_invalid_line (line_at c ta si v)))"
proof -
  let ?m = "get_access_sector_mask mf"
  have "probe_spec c ta si (tag c addr) ?m = Inr (st, idx)"
    using assms(5) probe_mask_spec [OF assms(1-4)] by (simp add: probe_def)
  note out = probe_spec_outcome [OF assms(1,3) this]
  show ?thesis
  proof (cases idx)
    case None
    with out show ?thesis by (simp add: probe_outcome_def)
  next
    case (Some i)
    with out obtain w where w: "w < unat (m_assoc c)" "i = way_word c si w"
      "way_answer c ta si (tag c addr) ?m w = Some st \<or> st = MISS \<and> is_victim c ta si w \<and>
       (\<forall>v < unat (m_assoc c). way_answer c ta si (tag c addr) ?m v = None)"
      by (auto simp: probe_outcome_def)
    moreover have "unat i = line_index c si w" using way_word_unat [OF assms(1,3) w(1)] w(2) by simp
    moreover have "block_tag (line_at c ta si w) = tag c addr \<and> match_state c ?m (line_at c ta si w) = Some st"
      if "way_answer c ta si (tag c addr) ?m w = Some st"
      using that by (simp add: way_answer_def split: if_splits)
    moreover have "block_tag (line_at c ta si v) = tag c addr \<longrightarrow> is_invalid_line (line_at c ta si v)"
      if "v < unat (m_assoc c)" "way_answer c ta si (tag c addr) ?m v = None" for v
      using no_answer_invalid [OF assms(1,3) that(1) assms(4) that(2)] by blast
    ultimately show ?thesis unfolding Some by (simp, intro exI [of _ w]) blast
  qed
qed

text \<open>A small cache for concrete runs: two sets of two 128-byte lines, allocate on miss.\<close>

definition small_config :: cache_config where
  "small_config = init_sizes (blank_config\<lparr>m_line_sz := 128, m_nset := 2, m_assoc := 2,
     m_write_policy := WRITE_BACK, m_mshr_entries := 4, m_mshr_max_merge := 2,
     m_miss_queue_size := 4, m_data_port_width := 32\<rparr>)"

definition small_tags :: tag_array where
  "small_tags = tag_array_init 0 0 (replicate 16 (Line line_cache_block_new))"

definition test_mem_config :: memory_config where
  "test_mem_config = \<lparr>mc_addrdec_tlx = (\<lambda>a. \<lparr>ad_chip = 0, ad_bk = 0, ad_row = 0, ad_col = 0,
     ad_burst = 0, ad_sub_partition = 0\<rparr>), mc_partition_address = (\<lambda>a. a), mc_icnt_flit_size = 32\<rparr>"

definition test_fetch :: "u64 \<Rightarrow> bool \<Rightarrow> mem_fetch" where
  "test_fetch addr wr = \<lparr>mf_request_uid = 1, mf_sid = 0, mf_tpc = 0, mf_wid = 0,
     mf_status = MEM_FETCH_INITIALIZED, mf_status_change = 0,
     mf_access = \<lparr>ma_uid = 1, ma_addr = addr, ma_write = wr, ma_req_size = 32,
       ma_type = (if wr then GLOBAL_ACC_W else GLOBAL_ACC_R), ma_warp_mask = 1, ma_byte_mask = 0,
       ma_sector_mask = sector 0\<rparr>,
     mf_data_size = 32, mf_ctrl_size = 8, mf_partition_addr = addr,
     mf_raw_addr = mc_addrdec_tlx test_mem_config addr,
     mf_type = (if wr then WRITE_REQUEST else READ_REQUEST), mf_timestamp = 0, mf_timestamp2 = 0,
     mf_inst = warp_inst_empty, mf_mem_config = test_mem_config, mf_icnt_flit_size = 32,
     mf_original_mf = None, mf_original_wr_mf = None, mf_compressed = False,
     mf_is_meta_data_request = False\<rparr>"

lemma small_tags_wf: "ta_wf small_config small_tags"
  by (simp add: ta_wf_def small_tags_def tag_array_init_def small_config_def init_sizes_def
      blank_config_def)

lemma test_fetch_single: "single (get_access_sector_mask (test_fetch a wr))"
  using single_sector [of 0] by (simp add: test_fetch_def get_access_sector_mask_def)

lemma small_set_index: "set_index small_config 0x100 = Inr 0" "m_nset small_config = 2"
  by code_simp+

theorem probe_correct_witness:
  "\<exists>i. probe small_config 0x100 (test_fetch 0x100 False) False small_tags = Inr (MISS, Some i) \<and>
     (\<exists>w < 2. unat i = w \<and> is_victim small_config small_tags 0 w)"
proof -
  have p: "probe small_config 0x100 (test_fetch 0x100 False) False small_tags = Inr (MISS, Some 1)"
    by code_simp
  have a: "m_assoc small_config = 2" by (simp add: small_config_def init_sizes_def blank_config_def)
  have "match_state small_config (get_access_sector_mask (test_fetch 0x100 False))
      (line_at small_config small_tags 0 w) \<noteq> Some MISS" if "w < 2" for w
    using that
    by (auto simp: line_at_def line_index_def a small_tags_def tag_array_init_def match_state_def
        match_way_def line_cache_block_new_def)
  with probe_correct [OF small_tags_wf small_set_index(1) _ test_fetch_single p] p show ?thesis
    by (auto simp: small_set_index(2) a line_index_def)
qed

section \<open>Accesses keep the invariants\<close>

definition unique_tags :: "cache_config \<Rightarrow> tag_array \<Rightarrow> bool" where
  "unique_tags c ta \<longleftrightarrow> (\<forall>si < m_nset c. \<forall>v < unat (m_assoc c). \<forall>w < unat (m_assoc c).
     v \<noteq> w \<and> block_tag (line_at c ta si v) = block_tag (line_at c ta si w) \<longrightarrow>
     is_invalid_line (line_at c ta si v) \<or> is_invalid_line (line_at c ta si w))"

lemma line_index_inj:
  assumes "w < unat (m_assoc c)" and "v < unat (m_assoc c)"
  shows "line_index c si w = line_index c sj v \<longleftrightarrow> si = sj \<and> w = v"
proof
  assume eq: "line_index c si w = line_index c sj v"
  let ?n = "unat (m_assoc c)"
  have "(unat si * ?n + w) div ?n = (unat sj * ?n + v) div ?n"
    "(unat si * ?n + w) mod ?n = (unat sj * ?n + v) mod ?n"
    using eq by (simp_all add: line_index_def)
  then show "si = sj \<and> w = v" using assms by (simp add: word_unat_eq_iff)
qed simp

text \<open>Replacing the line of way \<open>w\<close>.\<close>

definition put_line :: "cache_config \<Rightarrow> u32 \<Rightarrow> nat \<Rightarrow> cache_block \<Rightarrow> tag_array \<Rightarrow> tag_array" where
  "put_line c si w b ta = ta\<lparr>ta_lines := (ta_lines ta)[line_index c si w := b]\<rparr>"

lemma line_at_put:
  assumes "ta_wf c ta" and "si < m_nset c" and "w < unat (m_assoc c)" and "v < unat (m_assoc c)"
  shows "line_at c (put_line c si w b ta) sj v = (if sj = si \<and> v = w then b else line_at c ta sj v)"
  using line_index_lt [OF assms(1-3)] line_index_inj [OF assms(3,4), of si sj]
  by (auto simp: line_at_def put_line_def nth_list_update)

lemma put_line_wf:
  assumes "ta_wf c ta" and "block_wf b" and "block_kind (m_cache_type c) b"
  shows "ta_wf c (put_line c si w b ta)"
  using assms set_update_subset_insert [of "ta_lines ta" "line_index c si w" b]
  by (auto simp: ta_wf_def put_line_def)

lemma put_line_unique:
  assumes "ta_wf c ta" and "unique_tags c ta" and "si < m_nset c" and "w < unat (m_assoc c)"
    and "\<And>v. v < unat (m_assoc c) \<Longrightarrow> v \<noteq> w \<Longrightarrow> block_tag (line_at c ta si v) = block_tag b \<Longrightarrow>
      is_invalid_line (line_at c ta si v)"
  shows "unique_tags c (put_line c si w b ta)"
  unfolding unique_tags_def
proof (intro allI impI)
  fix sj u v
  assume a: "sj < m_nset c" "u < unat (m_assoc c)" "v < unat (m_assoc c)"
    and b: "u \<noteq> v \<and> block_tag (line_at c (put_line c si w b ta) sj u) =
      block_tag (line_at c (put_line c si w b ta) sj v)"
  note l = line_at_put [OF assms(1,3,4)]
  show "is_invalid_line (line_at c (put_line c si w b ta) sj u) \<or>
      is_invalid_line (line_at c (put_line c si w b ta) sj v)"
  proof (cases "sj = si \<and> (u = w \<or> v = w)")
    case True
    then show ?thesis using a b assms(5) [of u] assms(5) [of v] by (auto simp: l)
  next
    case False
    then show ?thesis using a b assms(2) unfolding unique_tags_def
      by (simp add: l split: if_splits) blast
  qed
qed

lemma on_line_put:
  assumes "ta_wf c ta" and "si < m_nset c" and "w < unat (m_assoc c)"
    and "f (line_at c ta si w) = Inr b"
  shows "on_line (way_word c si w) f ta = Inr (put_line c si w b ta)"
  using assms(4) line_index_lt [OF assms(1-3)] way_word_unat [OF assms(1-3)]
  by (simp add: on_line_def get_block_def line_at_def put_line_def)

lemma block_kind_op:
  assumes "block_kind k b"
  shows "set_last_access_time time msk b = Inr b' \<Longrightarrow> block_kind k b'"
    "block_allocate tg a time' msk b = Inr b' \<Longrightarrow> block_kind k b'"
    "block_allocate_sector time' msk b = Inr b' \<Longrightarrow> block_kind k b'"
    "block_fill time' msk b = Inr b' \<Longrightarrow> block_kind k b'"
    "set_status st msk b = Inr b' \<Longrightarrow> block_kind k b'"
    "set_modified_on_fill v msk b = Inr b' \<Longrightarrow> block_kind k b'"
    "set_ignore_on_fill v msk b = Inr b' \<Longrightarrow> block_kind k b'"
    "set_m_readable v msk b = Inr b' \<Longrightarrow> block_kind k b'"
  using assms by (cases k; cases b; auto simp: res_simps)+

text \<open>The counter an outcome advances; the lines are untouched.\<close>

definition count_access :: "cache_request_status \<Rightarrow> tag_array \<Rightarrow> tag_array" where
  "count_access st ta =
     (let ta0 = ta\<lparr>ta_access := ta_access ta + 1, ta_is_used := True\<rparr> in
      case st of HIT \<Rightarrow> ta0 | HIT_RESERVED \<Rightarrow> ta0\<lparr>ta_pending_hit := ta_pending_hit ta + 1\<rparr>
      | MISS \<Rightarrow> ta0\<lparr>ta_miss := ta_miss ta + 1\<rparr> | SECTOR_MISS \<Rightarrow> ta0\<lparr>ta_sector_miss := ta_sector_miss ta + 1\<rparr>
      | RESERVATION_FAIL \<Rightarrow> ta0\<lparr>ta_res_fail := ta_res_fail ta + 1\<rparr>)"

lemma count_access_lines [simp]: "ta_lines (count_access st ta) = ta_lines ta"
  by (cases st) (simp_all add: count_access_def)

lemma count_access_wf [simp]: "ta_wf c (count_access st ta) = ta_wf c ta"
  by (simp add: ta_wf_def)

lemma count_access_line_at [simp]: "line_at c (count_access st ta) si w = line_at c ta si w"
  by (simp add: line_at_def)

lemma count_access_unique [simp]: "unique_tags c (count_access st ta) = unique_tags c ta"
  by (simp add: unique_tags_def)

lemma probe_spec_lines: "ta_lines ta' = ta_lines ta \<Longrightarrow> probe_spec c ta' = probe_spec c ta"
proof -
  assume "ta_lines ta' = ta_lines ta"
  then have "line_at c ta' = line_at c ta" by (intro ext) (simp add: line_at_def)
  then show ?thesis by (intro ext) (simp only: probe_spec_def set_candidates_def way_answer_def)
qed

text \<open>The evicted-block report of an allocating miss.\<close>

definition evict_report :: "cache_block \<Rightarrow> access_out \<Rightarrow> access_out" where
  "evict_report b ao = (if is_modified_line b
     then ao\<lparr>ao_wb := True, ao_evicted := \<lparr>ev_block_addr = block_block_addr b,
            ev_modified_size = get_modified_size b\<rparr>\<rparr> else ao)"

text \<open>The access as a function of the probe: one equation per outcome.\<close>

lemma tag_access_probe:
  assumes "ta_wf c ta" and "set_index c addr = Inr si" and "si < m_nset c"
    and "single (get_access_sector_mask mf)"
    and "probe_spec c ta si (tag c addr) (get_access_sector_mask mf) = Inr (st, idx)"
    and "m_alloc_policy c = ON_MISS"
  shows "tag_access c addr time ao mf ta =
    (case idx of None \<Rightarrow> Inr (RESERVATION_FAIL, ao, count_access RESERVATION_FAIL ta)
     | Some i \<Rightarrow>
         (case st of
            MISS \<Rightarrow> andThen (get_block i ta) (\<lambda>b.
              andThen (on_line i (block_allocate (tag c addr) (block_addr c addr) time
                  (get_access_sector_mask mf)) (count_access MISS ta))
                (\<lambda>ta'. Inr (MISS, evict_report b (ao\<lparr>ao_idx := i\<rparr>), ta')))
          | SECTOR_MISS \<Rightarrow> andThen (on_line i (block_allocate_sector time (get_access_sector_mask mf))
                (count_access SECTOR_MISS ta)) (\<lambda>ta'. Inr (SECTOR_MISS, ao\<lparr>ao_idx := i\<rparr>, ta'))
          | _ \<Rightarrow> andThen (on_line i (set_last_access_time (ucast time) (get_access_sector_mask mf))
                (count_access st ta)) (\<lambda>ta'. Inr (st, ao\<lparr>ao_idx := i\<rparr>, ta'))))"
proof -
  let ?ta0 = "ta\<lparr>ta_access := ta_access ta + 1, ta_is_used := True\<rparr>"
  have "ta_wf c ?ta0" using assms(1) by (simp add: ta_wf_def)
  from probe_mask_spec [OF this assms(2-4)] have p: "probe c addr mf False ?ta0 = Inr (st, idx)"
    using assms(5) by (simp add: probe_def probe_spec_lines [of ?ta0 ta])
  note out = probe_spec_outcome [OF assms(1,3,5)]
  show ?thesis
  proof (cases idx)
    case None
    then have "st = RESERVATION_FAIL" using out by (simp add: probe_outcome_def)
    with None show ?thesis by (simp add: tag_access_def p count_access_def Let_def)
  next
    case (Some i)
    with out obtain w where w: "w < unat (m_assoc c)"
      "way_answer c ta si (tag c addr) (get_access_sector_mask mf) w = Some st \<or> st = MISS"
      by (auto simp: probe_outcome_def)
    have "st \<noteq> RESERVATION_FAIL" "st = SECTOR_MISS \<Longrightarrow> m_cache_type c = SECTOR"
      using w(2) answer_line(3,4) [OF assms(1,3) w(1) assms(4)] by auto
    with Some show ?thesis
      by (cases st) (auto simp: tag_access_def p count_access_def Let_def tag_access_miss_def assms(6)
          get_block_def evict_report_def andThen_assoc if_distrib [of "\<lambda>x. (MISS, x)"] cong: if_cong)
  qed
qed

text \<open>No recorded time has reached the initial value of the oldest time, so a victim is found.\<close>

definition times_in_range :: "cache_config \<Rightarrow> tag_array \<Rightarrow> u32 \<Rightarrow> bool" where
  "times_in_range c ta si \<longleftrightarrow>
     (\<forall>w < unat (m_assoc c). victim_time c (line_at c ta si w) < ucast (- 1 :: u32))"

lemma probe_spec_total:
  assumes "ta_wf c ta" and "si < m_nset c" and "times_in_range c ta si" and "m_alloc_policy c = ON_MISS"
  shows "\<exists>st idx. probe_spec c ta si t msk = Inr (st, idx)"
proof (cases "find (\<lambda>w. way_answer c ta si t msk w \<noteq> None) (ways c)")
  case None
  let ?cs = "set_candidates c ta si" let ?L = "line_at c ta si"
  have ok: "invalid_ok ?L (way_word c si) (ways c) ?cs" "oldest_ok c ?L (way_word c si) (ways c) ?cs"
    using set_candidates_ok [OF assms(1,2)] by (auto simp: candidates_ok_def)
  have "valid_line ?cs \<noteq> - 1"
    if "w < unat (m_assoc c)" "\<not> is_reserved_line (?L w)" "invalid_line ?cs = - 1" for w
  proof
    assume "valid_line ?cs = - 1"
    moreover have "replaceable (?L w)"
      using that ok(1) by (auto simp: invalid_ok_def replaceable_def ways_def)
    ultimately have "ucast (- 1 :: u32) \<le> victim_time c (?L w)"
      using that ok(2) by (auto simp: oldest_ok_def ways_def)
    then show False using assms(3) that(1) by (simp add: times_in_range_def not_le [symmetric])
  qed
  then show ?thesis using None assms(4) by (auto simp: probe_spec_def Let_def)
qed (auto simp: probe_spec_def)

lemma block_allocate_ok:
  assumes "ta_wf c ta" and "si < m_nset c" and "w < unat (m_assoc c)" and "single msk"
  shows "\<exists>b. block_allocate tg a time msk (line_at c ta si w) = Inr b \<and> block_wf b \<and>
    block_kind (m_cache_type c) b \<and> block_tag b = tg \<and> block_state (sidx msk) b = RESERVED"
proof -
  note wf = line_at_wf [OF assms(1-3)]
  from blk.allocate_law [OF wf(1) assms(4), of tg a time] obtain b where
    "block_allocate tg a time msk (line_at c ta si w) = Inr b" "block_wf b" "block_tag b = tg"
    "\<forall>j < 4. block_state j b = (if block_covers (line_at c ta si w) msk j then RESERVED else INVALID)"
    by blast
  with blk.covers_own [OF wf(1) assms(4)] sidx_mem [OF assms(4)] block_kind_op(2) [OF wf(2)] show ?thesis
    by auto
qed

text \<open>A miss that allocates: the line of way \<open>w\<close> is replaced and reported when it was modified.\<close>

lemma tag_access_alloc:
  assumes "ta_wf c ta" and "set_index c addr = Inr si" and "si < m_nset c"
    and "single (get_access_sector_mask mf)" and "m_alloc_policy c = ON_MISS"
    and "w < unat (m_assoc c)"
    and "probe_spec c ta si (tag c addr) (get_access_sector_mask mf) = Inr (MISS, Some (way_word c si w))"
  shows "\<exists>b. tag_access c addr time ao mf ta = Inr (MISS,
      evict_report (line_at c ta si w) (ao\<lparr>ao_idx := way_word c si w\<rparr>),
      put_line c si w b (count_access MISS ta)) \<and>
    block_wf b \<and> block_kind (m_cache_type c) b \<and> block_tag b = tag c addr \<and>
    block_state (sidx (get_access_sector_mask mf)) b = RESERVED"
proof -
  have wf: "ta_wf c (count_access MISS ta)" using assms(1) by simp
  obtain b where b: "block_allocate (tag c addr) (block_addr c addr) time (get_access_sector_mask mf)
      (line_at c (count_access MISS ta) si w) = Inr b" "block_wf b" "block_kind (m_cache_type c) b"
      "block_tag b = tag c addr" "block_state (sidx (get_access_sector_mask mf)) b = RESERVED"
    using block_allocate_ok [OF wf assms(3,6,4)] by blast
  have "get_block (way_word c si w) ta = Inr (line_at c ta si w)"
    using line_index_lt [OF assms(1,3,6)] way_word_unat [OF assms(1,3,6)]
    by (simp add: get_block_def line_at_def)
  moreover have "on_line (way_word c si w) (block_allocate (tag c addr) (block_addr c addr) time
      (get_access_sector_mask mf)) (count_access MISS ta) = Inr (put_line c si w b (count_access MISS ta))"
    using wf assms(3,6) b(1) by (rule on_line_put)
  ultimately show ?thesis using b
    by (intro exI [of _ b]) (simp add: tag_access_probe [OF assms(1-4,7,5)])
qed

lemma invalid_by_state:
  "block_wf b \<Longrightarrow> block_wf b' \<Longrightarrow> (\<And>j. block_state j b' = block_state j b) \<Longrightarrow>
     is_invalid_line b' = is_invalid_line b"
  by (simp add: is_invalid_line_iff)

lemma tag_access_safe_lemma:
  assumes wf: "ta_wf c ta" and si: "set_index c addr = Inr si" "si < m_nset c"
    and m: "single (get_access_sector_mask mf)" and om: "m_alloc_policy c = ON_MISS"
    and ti: "times_in_range c ta si"
  shows "\<exists>st ao' ta'. tag_access c addr time ao mf ta = Inr (st, ao', ta') \<and> ta_wf c ta' \<and>
    (unique_tags c ta \<longrightarrow> unique_tags c ta')"
proof -
  let ?m = "get_access_sector_mask mf"
  obtain st idx where p: "probe_spec c ta si (tag c addr) ?m = Inr (st, idx)"
    using probe_spec_total [OF wf si(2) ti om] by blast
  note acc = tag_access_probe [OF wf si m p om, of time ao]
  note out = probe_spec_outcome [OF wf si(2) p]
  show ?thesis
  proof (cases idx)
    case None
    then show ?thesis using acc wf by simp
  next
    case (Some i)
    with out obtain w where w: "w < unat (m_assoc c)" "i = way_word c si w"
      and ans: "way_answer c ta si (tag c addr) ?m w = Some st \<and>
          (\<forall>v < w. way_answer c ta si (tag c addr) ?m v = None) \<or>
        st = MISS \<and> is_victim c ta si w \<and>
          (\<forall>v < unat (m_assoc c). way_answer c ta si (tag c addr) ?m v = None)"
      by (auto simp: probe_outcome_def)
    note lw = line_at_wf [OF wf si(2) w(1)]
    have other: "is_invalid_line (line_at c ta si v)"
      if "unique_tags c ta" "v < unat (m_assoc c)" "v \<noteq> w" "block_tag (line_at c ta si v) = tag c addr" for v
    proof (cases "way_answer c ta si (tag c addr) ?m w = Some st")
      case True
      from answer_line(1,2) [OF wf si(2) w(1) m True] that w(1) si(2) show ?thesis
        unfolding unique_tags_def by metis
    next
      case False
      then show ?thesis using ans that no_answer_invalid [OF wf si(2) that(2) m] by auto
    qed
    have ans': "way_answer c ta si (tag c addr) ?m w = Some st" if "st \<noteq> MISS" using ans that by auto
    have put: "ta_wf c (put_line c si w b (count_access st ta)) \<and>
        (unique_tags c ta \<longrightarrow> unique_tags c (put_line c si w b (count_access st ta)))"
      if "block_wf b" "block_kind (m_cache_type c) b" "block_tag b = tag c addr" for b
      using that other wf si(2) w(1) by (auto intro!: put_line_wf put_line_unique)
    show ?thesis
    proof (cases "st = MISS")
      case True
      with tag_access_alloc [OF wf si m om w(1), of time ao] p Some w(2) put show ?thesis by fastforce
    next
      case miss: False
      note line = answer_line [OF wf si(2) w(1) m ans' [OF miss]]
      show ?thesis
      proof (cases "st = SECTOR_MISS")
        case True
        then obtain sb where sb: "line_at c ta si w = Sector sb"
          using lw(2) line(4) by (cases "line_at c ta si w") auto
        from block_allocate_sector_ok [of sb ?m time] obtain b' where b':
          "block_allocate_sector time ?m (line_at c ta si w) = Inr (Sector b')" "block_wf (Sector b')"
          "block_tag (Sector b') = tag c addr"
          using lw(1) line(1,2) m sb by auto
        have "on_line i (block_allocate_sector time ?m) (count_access SECTOR_MISS ta) =
            Inr (put_line c si w (Sector b') (count_access SECTOR_MISS ta))"
          unfolding w(2) using b'(1) wf si(2) w(1) by (intro on_line_put) simp_all
        with acc Some True put [OF b'(2) _ b'(3)] line(4) show ?thesis by simp
      next
        case False
        from set_last_access_time_ok [OF lw(1) m, of "ucast time"] obtain b where b:
          "set_last_access_time (ucast time) ?m (line_at c ta si w) = Inr b" "block_wf b"
          "block_tag b = tag c addr" using line(1) by auto
        have "on_line i (set_last_access_time (ucast time) ?m) (count_access st ta) =
            Inr (put_line c si w b (count_access st ta))"
          unfolding w(2) using b(1) wf si(2) w(1) by (intro on_line_put) simp_all
        with acc Some miss False line(3) put [OF b(2) block_kind_op(1) [OF lw(2) b(1)] b(3)] show ?thesis
          by (cases st) auto
      qed
    qed
  qed
qed

text \<open>C35: an access neither fails nor breaks the tag store.  In a well-formed allocate-on-miss tag
  array whose recorded times are below \<open>2 ^ 32 - 1\<close>, every access with a one-sector mask succeeds
  (no assertion, abort or out-of-range line), keeps the array well formed, and keeps each tag at most
  once among the lines of a set that are not invalid.\<close>

theorem tag_access_safe:
  assumes "ta_wf c ta" and "set_index c addr = Inr si" and "si < m_nset c"
    and "single (get_access_sector_mask mf)" and "m_alloc_policy c = ON_MISS"
    and "times_in_range c ta si" and "unique_tags c ta"
  shows "\<exists>st ao' ta'. tag_access c addr time ao mf ta = Inr (st, ao', ta') \<and> ta_wf c ta' \<and>
    unique_tags c ta'"
  using tag_access_safe_lemma [OF assms(1-6), of time ao] assms(7) by blast

lemma small_tags_line: "w < 2 \<Longrightarrow> line_at small_config small_tags 0 w = Line line_cache_block_new"
  by (simp add: line_at_def line_index_def small_tags_def tag_array_init_def)

lemma small_assoc: "m_assoc small_config = 2" "m_alloc_policy small_config = ON_MISS"
  by (simp_all add: small_config_def init_sizes_def blank_config_def)

lemma small_policy: "m_replacement_policy small_config = LRU"
  by (simp add: small_config_def init_sizes_def blank_config_def)

lemma small_times: "times_in_range small_config small_tags 0"
proof -
  have "(0 :: u64) < ucast (- 1 :: u32)" by code_simp
  then show ?thesis
    by (simp add: times_in_range_def small_tags_line small_assoc victim_time_def small_policy
        line_cache_block_new_def)
qed

lemma small_unique: "unique_tags small_config small_tags"
proof -
  have "line_at small_config small_tags si w = Line line_cache_block_new"
    if "si < m_nset small_config" "w < unat (m_assoc small_config)" for si w
    using line_index_lt [OF small_tags_wf that]
    by (simp add: line_at_def small_tags_def tag_array_init_def)
  then show ?thesis by (auto simp: unique_tags_def line_cache_block_new_def)
qed

lemma small_in_range: "(0 :: u32) < m_nset small_config"
  by (simp add: small_set_index(2))

theorem tag_access_safe_witness:
  "\<exists>st ao' ta'. tag_access small_config 0x100 7
     \<lparr>ao_idx = 0, ao_wb = False, ao_evicted = no_evicted_block\<rparr> (test_fetch 0x100 False) small_tags =
     Inr (st, ao', ta') \<and> ta_wf small_config ta' \<and> unique_tags small_config ta'"
  by (rule tag_access_safe [OF small_tags_wf small_set_index(1) small_in_range test_fetch_single
        small_assoc(2) small_times small_unique])

text \<open>C37: a miss that allocates reserves the line.  The access replaces exactly one line of the set; if
  that line was modified, the write-back flag is raised with its address and modified size, and
  otherwise the flag is left alone; every other line is unchanged; and a further probe of the same
  sector finds the line pending, at the index the access returned.\<close>

theorem miss_allocates_and_reports:
  assumes "ta_wf c ta" and "set_index c addr = Inr si" and "si < m_nset c"
    and "single (get_access_sector_mask mf)" and "m_alloc_policy c = ON_MISS"
    and "times_in_range c ta si" and "tag_access c addr time ao mf ta = Inr (MISS, ao', ta')"
  shows "\<exists>w < unat (m_assoc c). unat (ao_idx ao') = line_index c si w \<and>
    (is_modified_line (line_at c ta si w) \<longrightarrow> ao_wb ao' \<and> ao_evicted ao' =
       \<lparr>ev_block_addr = block_block_addr (line_at c ta si w),
        ev_modified_size = get_modified_size (line_at c ta si w)\<rparr>) \<and>
    (\<not> is_modified_line (line_at c ta si w) \<longrightarrow> ao_wb ao' = ao_wb ao) \<and>
    (\<forall>j. j \<noteq> line_index c si w \<longrightarrow> ta_lines ta' ! j = ta_lines ta ! j) \<and>
    probe c addr mf False ta' = Inr (HIT_RESERVED, Some (ao_idx ao'))"
proof -
  let ?m = "get_access_sector_mask mf"
  obtain st idx where p: "probe_spec c ta si (tag c addr) ?m = Inr (st, idx)"
    using probe_spec_total [OF assms(1,3,6,5)] by blast
  note acc = tag_access_probe [OF assms(1-4) p assms(5), of time ao]
  obtain i where i: "idx = Some i" and st: "st = MISS"
    using assms(7) unfolding acc by (cases idx; cases st) (auto simp: res_simps)
  from probe_spec_outcome [OF assms(1,3) p] i st obtain w where
    w: "w < unat (m_assoc c)" "i = way_word c si w"
      "\<forall>v < w. way_answer c ta si (tag c addr) ?m v = None"
    by (auto simp: probe_outcome_def)
  from tag_access_alloc [OF assms(1-5) w(1), of time ao] p i st w(2) assms(7) obtain b where
    b: "ao' = evict_report (line_at c ta si w) (ao\<lparr>ao_idx := way_word c si w\<rparr>)"
      "ta' = put_line c si w b (count_access MISS ta)" "block_wf b" "block_kind (m_cache_type c) b"
      "block_tag b = tag c addr" "block_state (sidx ?m) b = RESERVED" by auto
  have wf': "ta_wf c ta'" using b assms(1) by (simp add: put_line_wf)
  have wf1: "ta_wf c (count_access MISS ta)" using assms(1) by simp
  have before: "way_answer c ta' si (tag c addr) ?m v = way_answer c ta si (tag c addr) ?m v"
    if "v < w" for v
    using line_at_put [OF wf1 assms(3) w(1), of v b si] that w(1) by (simp add: b(2) way_answer_def)
  have here: "way_answer c ta' si (tag c addr) ?m w = Some HIT_RESERVED"
    using line_at_put [OF wf1 assms(3) w(1,1), of b si] b
    by (simp add: way_answer_def match_state_def match_way_def get_status_single [OF b(3) assms(4)])
  have "find (\<lambda>v. way_answer c ta' si (tag c addr) ?m v \<noteq> None) (ways c) = Some w"
    using before here w(1,3) by (auto simp: find_Some_iff ways_def intro!: exI [of _ w])
  then have "probe_spec c ta' si (tag c addr) ?m = Inr (HIT_RESERVED, Some (way_word c si w))"
    by (simp add: probe_spec_def here)
  then have "probe c addr mf False ta' = Inr (HIT_RESERVED, Some (way_word c si w))"
    using probe_mask_spec [OF wf' assms(2-4)] by (simp add: probe_def)
  moreover have "ao_idx ao' = way_word c si w" by (simp add: b(1) evict_report_def)
  ultimately show ?thesis
    using w(1) way_word_unat [OF assms(1,3) w(1)]
    by (intro exI [of _ w]) (simp add: b(1,2) evict_report_def put_line_def)
qed

theorem miss_allocates_and_reports_witness:
  "\<exists>ao' ta'. tag_access small_config 0x100 7
     \<lparr>ao_idx = 0, ao_wb = False, ao_evicted = no_evicted_block\<rparr> (test_fetch 0x100 False) small_tags =
     Inr (MISS, ao', ta') \<and>
     probe small_config 0x100 (test_fetch 0x100 False) False ta' = Inr (HIT_RESERVED, Some (ao_idx ao'))"
proof -
  let ?ao = "\<lparr>ao_idx = 0, ao_wb = False, ao_evicted = no_evicted_block\<rparr>"
  have "(case tag_access small_config 0x100 7 ?ao (test_fetch 0x100 False) small_tags of
      Inr (st, ao', ta') \<Rightarrow> st = MISS | Inl e \<Rightarrow> False)" by code_simp
  then obtain ao' ta' where a: "tag_access small_config 0x100 7 ?ao (test_fetch 0x100 False) small_tags =
      Inr (MISS, ao', ta')" by (auto split: sum.splits)
  from miss_allocates_and_reports [OF small_tags_wf small_set_index(1) small_in_range test_fetch_single
      small_assoc(2) small_times a] a show ?thesis by blast
qed

section \<open>Fills, flushes and invalidation\<close>

text \<open>An address-directed fill of an absent line makes it a hit.  When a plain probe misses,
  \<open>fill(addr, time, mask)\<close> allocates the victim and validates the sector in one step (the
  allocate-on-fill caches and the warm-up of the L2 by memory copies rely on it), and the next probe of
  the address hits at the filled line.\<close>

theorem fill_on_miss_then_hit:
  assumes "ta_wf c ta" and "set_index c addr = Inr si" and "si < m_nset c" and "single msk"
    and "probe_mask c addr msk False None ta = Inr (MISS, Some i)"
  shows "\<exists>ta'. tag_fill_addr c addr time msk ta = Inr ta' \<and> ta_wf c ta' \<and>
    probe_mask c addr msk False None ta' = Inr (HIT, Some i)"
proof -
  note p = assms(5) [unfolded probe_mask_spec [OF assms(1-4)]]
  from probe_spec_outcome [OF assms(1,3) p] obtain w where
    w: "w < unat (m_assoc c)" "i = way_word c si w" "\<forall>v < w. way_answer c ta si (tag c addr) msk v = None"
    by (auto simp: probe_outcome_def)
  note lw = line_at_wf [OF assms(1,3) w(1)]
  from blk.allocate_fill [OF lw(1) assms(4), of "tag c addr" "block_addr c addr" time time]
  obtain b1 b2 where b1: "block_allocate (tag c addr) (block_addr c addr) time msk (line_at c ta si w) = Inr b1"
    and b2: "block_fill time msk b1 = Inr b2" "block_wf b2" "block_tag b2 = tag c addr"
      "block_state (sidx msk) b2 = VALID"
    by (auto simp: res_simps)
  have wf1: "block_wf b1" using blk.allocate_law [OF lw(1) assms(4)] b1 by (metis Inr_inject)
  have k1: "block_kind (m_cache_type c) b1" using block_kind_op(2) [OF lw(2) b1] .
  have k2: "block_kind (m_cache_type c) b2" using block_kind_op(4) [OF k1 b2(1)] .
  let ?ta1 = "put_line c si w b1 ta" let ?ta2 = "put_line c si w b2 ta"
  have ta1: "ta_wf c ?ta1" using put_line_wf [OF assms(1) wf1 k1] .
  have l1: "line_at c ?ta1 si w = b1" using line_at_put [OF assms(1,3) w(1,1)] by simp
  have "on_line i (block_allocate (tag c addr) (block_addr c addr) time msk) ta = Inr ?ta1"
    unfolding w(2) using assms(1,3) w(1) b1 by (rule on_line_put)
  moreover have "on_line i (block_fill time msk) ?ta1 = Inr (put_line c si w b2 ?ta1)"
    unfolding w(2) using ta1 assms(3) w(1) by (rule on_line_put) (simp add: l1 b2(1))
  moreover have "put_line c si w b2 ?ta1 = ?ta2" by (simp add: put_line_def)
  ultimately have fill: "tag_fill_addr c addr time msk ta = Inr ?ta2"
    using assms(5) by (simp add: tag_fill_addr_def)
  have wf2: "ta_wf c ?ta2" using put_line_wf [OF assms(1) b2(2) k2] .
  have before: "way_answer c ?ta2 si (tag c addr) msk v = way_answer c ta si (tag c addr) msk v"
    if "v < w" for v
    using line_at_put [OF assms(1,3) w(1), of v b2 si] that w(1) by (simp add: way_answer_def)
  have here: "way_answer c ?ta2 si (tag c addr) msk w = Some HIT"
    using line_at_put [OF assms(1,3) w(1,1), of b2 si] b2(3,4)
    by (simp add: way_answer_def match_state_def match_way_def get_status_single [OF b2(2) assms(4)])
  have "find (\<lambda>v. way_answer c ?ta2 si (tag c addr) msk v \<noteq> None) (ways c) = Some w"
    using before here w(1,3) by (auto simp: find_Some_iff ways_def intro!: exI [of _ w])
  then have "probe_spec c ?ta2 si (tag c addr) msk = Inr (HIT, Some i)"
    by (simp add: probe_spec_def here w(2))
  with fill wf2 probe_mask_spec [OF wf2 assms(2-4)] show ?thesis by auto
qed

text \<open>What a fill brings in is not flushed.  \<open>fill\<close> does not set \<open>is_used\<close>, and both \<open>flush\<close> and
  \<open>invalidate\<close> return at once while it is unset: lines brought into an unused cache by a fill alone
  (the L2 warm-up of memory copies) survive an invalidation of \<open>all entries\<close>.\<close>

theorem fill_survives_invalidate:
  assumes "\<not> ta_is_used ta" and "tag_fill_addr c addr time msk ta = Inr ta'"
  shows "tag_invalidate c ta' = Inr ta' \<and> tag_flush c ta' = Inr ta'"
proof -
  have on: "ta_is_used ta2 = ta_is_used ta1" if "on_line i f ta1 = Inr ta2" for i f ta1 ta2
    using that by (auto simp: on_line_def res_simps)
  from assms(2) have "ta_is_used ta' = ta_is_used ta"
    by (auto simp: tag_fill_addr_def res_simps split: if_splits option.splits dest!: on)
  then show ?thesis using assms(1) by (simp add: tag_invalidate_def tag_flush_def)
qed

lemma get_sector_index_sector: "j < 4 \<Longrightarrow> get_sector_index (sector j) = Inr j"
  using single_sector [of j] by (simp add: get_sector_index_single)

lemma invalidate_block_ok:
  assumes "block_wf b"
  shows "\<exists>b'. invalidate_block b = Inr b' \<and> block_wf b' \<and> (\<forall>k. block_kind k b' = block_kind k b) \<and>
    is_invalid_line b' \<and> block_tag b' = block_tag b"
proof (cases b)
  case (Line l)
  then show ?thesis
    by (auto simp: invalidate_block_def SECTOR_CHUNCK_SIZE_def upt_rec elim: block_kind.elims)
next
  case (Sector s)
  obtain s0 s1 s2 s3 where st: "sb_status s = [s0, s1, s2, s3]"
    using assms Sector by (auto simp: length_Suc_conv numeral_eq_Suc)
  have k: "block_kind k (Sector x) = (k = SECTOR)" for k x by (cases k) auto
  have "invalidate_block b = Inr (Sector (s\<lparr>sb_status := [INVALID, INVALID, INVALID, INVALID]\<rparr>))"
    by (simp add: invalidate_block_def Sector SECTOR_CHUNCK_SIZE_def upt_rec get_sector_index_sector st)
  then show ?thesis using assms Sector by (simp add: k sector_is_invalid_line_def)
qed

lemma invalidate_loop:
  assumes "ta_wf c ta" and "n \<le> length (ta_lines ta)"
  shows "\<exists>ta'. foldM (\<lambda>i. on_line (of_nat i) invalidate_block) [0..<n] ta = Inr ta' \<and> ta_wf c ta' \<and>
    length (ta_lines ta') = length (ta_lines ta) \<and> (\<forall>i < n. is_invalid_line (ta_lines ta' ! i))"
  using assms(2)
proof (induction n)
  case 0
  then show ?case using assms(1) by simp
next
  case (Suc n)
  then obtain ta1 where ta1: "foldM (\<lambda>i. on_line (of_nat i) invalidate_block) [0..<n] ta = Inr ta1"
    "ta_wf c ta1" "length (ta_lines ta1) = length (ta_lines ta)" "\<forall>i < n. is_invalid_line (ta_lines ta1 ! i)"
    by auto
  have n: "n < length (ta_lines ta1)" using Suc.prems ta1(3) by simp
  then have u: "unat (of_nat n :: u32) = n" using ta1(2) by (intro unat_of_nat_lt) (simp add: ta_wf_def)
  let ?b = "ta_lines ta1 ! n"
  have b: "block_wf ?b" "block_kind (m_cache_type c) ?b" using ta1(2) n by (auto simp: ta_wf_def)
  from invalidate_block_ok [OF b(1)] obtain b' where b': "invalidate_block ?b = Inr b'" "block_wf b'"
    "block_kind (m_cache_type c) b'" "is_invalid_line b'" using b(2) by auto
  let ?ta2 = "ta1\<lparr>ta_lines := (ta_lines ta1)[n := b']\<rparr>"
  have "on_line (of_nat n) invalidate_block ta1 = Inr ?ta2"
    using n b'(1) u by (simp add: on_line_def get_block_def)
  moreover have "ta_wf c ?ta2"
    using ta1(2) b'(2,3) set_update_subset_insert [of "ta_lines ta1" n b'] by (auto simp: ta_wf_def)
  ultimately show ?case
    using ta1 b'(4) n by (auto simp: foldM_append nth_list_update less_Suc_eq)
qed

text \<open>Invalidation empties a cache that was accessed.  If the tag array was used since the last flush,
  \<open>invalidate\<close> succeeds, leaves every line of the cache invalid and the array well formed, so no probe
  of any address hits afterwards.\<close>

theorem invalidate_empties:
  assumes "ta_wf c ta" and "ta_is_used ta" and "m_valid c"
  shows "\<exists>ta'. tag_invalidate c ta = Inr ta' \<and> ta_wf c ta' \<and> \<not> ta_is_used ta' \<and>
    (\<forall>i < unat (m_nset c) * unat (m_assoc c). is_invalid_line (ta_lines ta' ! i)) \<and>
    (\<forall>addr si msk. set_index c addr = Inr si \<and> si < m_nset c \<and> single msk \<longrightarrow>
       (\<forall>i. probe_mask c addr msk False None ta' \<noteq> Inr (HIT, i)))"
proof -
  let ?n = "unat (m_nset c) * unat (m_assoc c)"
  have n: "?n \<le> length (ta_lines ta)" "?n < 2 ^ 32" using assms(1) by (auto simp: ta_wf_def)
  then have "get_num_lines c = Inr (m_nset c * m_assoc c)" "unat (m_nset c * m_assoc c) = ?n"
    using assms(3) by (auto simp: get_num_lines_def unat_mult_le)
  with invalidate_loop [OF assms(1) n(1)] assms(2) obtain ta1 where
    ta1: "tag_invalidate c ta = Inr (ta1\<lparr>ta_is_used := False\<rparr>)" "ta_wf c ta1"
      "\<forall>i < ?n. is_invalid_line (ta_lines ta1 ! i)"
    by (auto simp: tag_invalidate_def)
  let ?ta' = "ta1\<lparr>ta_is_used := False\<rparr>"
  have wf: "ta_wf c ?ta'" using ta1(2) by (simp add: ta_wf_def)
  have "probe_mask c addr msk False None ?ta' \<noteq> Inr (HIT, i)"
    if s: "set_index c addr = Inr si" "si < m_nset c" "single msk" for addr si msk i
  proof
    assume "probe_mask c addr msk False None ?ta' = Inr (HIT, i)"
    then have "probe_outcome c ?ta' si (tag c addr) msk HIT i"
      using probe_mask_spec [OF wf s] probe_spec_outcome [OF wf s(2)] by simp
    then obtain w where w: "w < unat (m_assoc c)" "way_answer c ?ta' si (tag c addr) msk w = Some HIT"
      by (auto simp: probe_outcome_def split: option.splits)
    from answer_line(2) [OF wf s(2) w(1) s(3) w(2)] have "\<not> is_invalid_line (line_at c ?ta' si w)" .
    moreover have "line_index c si w < ?n"
    proof -
      have "(unat si + 1) * unat (m_assoc c) \<le> ?n"
        using s(2) by (intro mult_le_mono1) (simp add: word_less_nat_alt)
      then show ?thesis using w(1) by (simp add: line_index_def)
    qed
    ultimately show False using ta1(3) by (simp add: line_at_def)
  qed
  with ta1 wf show ?thesis by auto
qed

text \<open>The window's miss count adds the sector misses of all earlier windows a second time.\<close>

lemma windowed_miss_counts_old_sector_misses:
  "windowed_miss_rate_operands (new_window ta) = (ta_sector_miss ta, 0)"
  by (simp add: windowed_miss_rate_operands_def new_window_def)

end
