(* ===== verification/Mshr.thy ===== *)
theory Mshr
  imports Mem_Fetch "HOL-Library.AList"
begin

text \<open>
  \<open>mshr_table\<close> of \<open>gpu-cache.{h,cc}\<close>: the miss-status holding registers, a bounded table of pending
  blocks, each with the bounded list of requests merged into it.  The hash map is an association
  list with distinct keys (only its size and its lookups are observable); \<open>operator[]\<close> on an absent
  key inserts a default entry, as in C++.  Whether a request is atomic or a write is read by the
  callers from the store and passed along.

  \<open>request_table\<close> is the contract the caches rely on.  Shown: the table implements it; \<open>add\<close> succeeds
  exactly when \<open>full\<close> denies; a filled block hands out its merged requests in order, each once, and
  then releases its entry; the read-after-write test is what its name says.
\<close>

section \<open>Model\<close>

record mshr_entry =
  me_list :: "mfref list"
  me_has_atomic :: bool

definition mshr_entry_new :: mshr_entry where
  "mshr_entry_new = \<lparr>me_list = [], me_has_atomic = False\<rparr>"

record mshr_table =
  mt_num_entries :: u32
  mt_max_merged :: u32
  mt_data :: "(u64 \<times> mshr_entry) list"
  mt_current_response :: "u64 list"

definition mshr_table_new :: "u32 \<Rightarrow> u32 \<Rightarrow> mshr_table" where
  "mshr_table_new num_entries max_merged = \<lparr>mt_num_entries = num_entries, mt_max_merged = max_merged,
     mt_data = [], mt_current_response = []\<rparr>"

text \<open>\<open>m_data[block_addr]\<close>: the entry, after inserting a default one when there is none.\<close>

definition mshr_entry_at :: "u64 \<Rightarrow> mshr_table \<Rightarrow> mshr_entry" where
  "mshr_entry_at a t = (case map_of (mt_data t) a of Some e \<Rightarrow> e | None \<Rightarrow> mshr_entry_new)"

definition mshr_put :: "u64 \<Rightarrow> mshr_entry \<Rightarrow> mshr_table \<Rightarrow> mshr_table" where
  "mshr_put a e t = t\<lparr>mt_data := AList.update a e (mt_data t)\<rparr>"

definition mshr_probe :: "u64 \<Rightarrow> mshr_table \<Rightarrow> bool" where
  "mshr_probe a t \<longleftrightarrow> map_of (mt_data t) a \<noteq> None"

definition mshr_full :: "u64 \<Rightarrow> mshr_table \<Rightarrow> bool" where
  "mshr_full a t \<longleftrightarrow> (case map_of (mt_data t) a of
       Some e \<Rightarrow> unat (mt_max_merged t) \<le> length (me_list e)
     | None \<Rightarrow> unat (mt_num_entries t) \<le> length (mt_data t))"

definition mshr_add :: "u64 \<Rightarrow> mfref \<Rightarrow> bool \<Rightarrow> mshr_table \<Rightarrow> mshr_table res" where
  "mshr_add a mf atomic t =
     (let e = mshr_entry_at a t; e1 = e\<lparr>me_list := me_list e @ [mf]\<rparr>; t1 = mshr_put a e1 t in
      check (length (mt_data t1) \<le> unat (mt_num_entries t1))
      (check (length (me_list e1) \<le> unat (mt_max_merged t1))
        (Inr (if atomic then mshr_put a (e1\<lparr>me_has_atomic := True\<rparr>) t1 else t1))))"

text \<open>The scan of \<open>is_read_after_write_pending\<close>; \<open>wr\<close> asks a request whether it is a write, through
  its pointer.\<close>

fun raw_scan :: "(mfref \<Rightarrow> bool res) \<Rightarrow> bool \<Rightarrow> mfref list \<Rightarrow> bool res" where
  "raw_scan wr write_found [] = Inr False"
| "raw_scan wr write_found (m # ms) = andThen (wr m) (\<lambda>b.
     if b then raw_scan wr True ms
     else if write_found then Inr True else raw_scan wr write_found ms)"

definition is_read_after_write_pending ::
  "(mfref \<Rightarrow> bool res) \<Rightarrow> u64 \<Rightarrow> mshr_table \<Rightarrow> (bool \<times> mshr_table) res" where
  "is_read_after_write_pending wr a t =
     (let e = mshr_entry_at a t in
      andThen (raw_scan wr False (me_list e)) (\<lambda>b. Inr (b, mshr_put a e t)))"

definition mshr_mark_ready :: "u64 \<Rightarrow> mshr_table \<Rightarrow> (bool \<times> mshr_table) res" where
  "mshr_mark_ready a t = check (map_of (mt_data t) a \<noteq> None)
     (let t1 = t\<lparr>mt_current_response := mt_current_response t @ [a]\<rparr> in
      check (length (mt_current_response t1) \<le> length (mt_data t1))
        (Inr (me_has_atomic (mshr_entry_at a t), t1)))"

definition mshr_access_ready :: "mshr_table \<Rightarrow> bool" where
  "mshr_access_ready t \<longleftrightarrow> mt_current_response t \<noteq> []"

definition mshr_next_access :: "mshr_table \<Rightarrow> (mfref \<times> mshr_table) res" where
  "mshr_next_access t = check (mshr_access_ready t)
     (let a = hd (mt_current_response t); e = mshr_entry_at a t in
      check (me_list e \<noteq> [])
        (let e1 = e\<lparr>me_list := tl (me_list e)\<rparr> in
         Inr (hd (me_list e),
              if me_list e1 = []
              then t\<lparr>mt_data := AList.delete a (mt_data t),
                     mt_current_response := tl (mt_current_response t)\<rparr>
              else mshr_put a e1 t)))"

definition check_mshr_parameters :: "u32 \<Rightarrow> u32 \<Rightarrow> mshr_table \<Rightarrow> unit res" where
  "check_mshr_parameters num_entries max_merged t =
     check (mt_num_entries t = num_entries) (check (mt_max_merged t = max_merged) (Inr ()))"

section \<open>The contract\<close>

text \<open>\<open>pending t a\<close> are the requests merged for block \<open>a\<close>, oldest first; \<open>ready t\<close> the blocks whose
  data has arrived, in order of arrival.\<close>

fun takes :: "('t \<Rightarrow> ('r \<times> 't) res) \<Rightarrow> nat \<Rightarrow> 't \<Rightarrow> ('r list \<times> 't) res" where
  "takes get 0 t = Inr ([], t)"
| "takes get (Suc n) t = andThen (get t) (\<lambda>(r, t').
     andThen (takes get n t') (\<lambda>(rs, t''). Inr (r # rs, t'')))"

locale request_table =
  fixes invar :: "'t \<Rightarrow> bool"
    and pending :: "'t \<Rightarrow> 'a \<Rightarrow> 'r list"
    and ready :: "'t \<Rightarrow> 'a list"
    and full :: "'a \<Rightarrow> 't \<Rightarrow> bool"
    and add :: "'a \<Rightarrow> 'r \<Rightarrow> 't \<Rightarrow> 't res"
    and mark_ready :: "'a \<Rightarrow> 't \<Rightarrow> 't res"
    and next_access :: "'t \<Rightarrow> ('r \<times> 't) res"
  assumes add_ok: "invar t \<Longrightarrow> \<not> full a t \<Longrightarrow> \<exists>t'. add a r t = Inr t' \<and> invar t' \<and>
      pending t' = (pending t)(a := pending t a @ [r]) \<and> ready t' = ready t"
    and add_full: "invar t \<Longrightarrow> full a t \<Longrightarrow> add a r t = Inl Assertion"
    and mark_ok: "invar t \<Longrightarrow> pending t a \<noteq> [] \<Longrightarrow> a \<notin> set (ready t) \<Longrightarrow>
      \<exists>t'. mark_ready a t = Inr t' \<and> invar t' \<and> pending t' = pending t \<and> ready t' = ready t @ [a]"
    and ready_pending: "invar t \<Longrightarrow> a \<in> set (ready t) \<Longrightarrow> pending t a \<noteq> []"
    and next_ok: "invar t \<Longrightarrow> ready t = a # as \<Longrightarrow> pending t a = r # rs \<Longrightarrow>
      \<exists>t'. next_access t = Inr (r, t') \<and> invar t' \<and> pending t' = (pending t)(a := rs) \<and>
        ready t' = (if rs = [] then as else ready t)"
    and next_stuck: "invar t \<Longrightarrow> ready t = [] \<Longrightarrow> next_access t = Inl Assertion"
begin

lemma add_iff: "invar t \<Longrightarrow> is_ok (add a r t) \<longleftrightarrow> \<not> full a t"
  using add_ok [of t a r] add_full [of t a r] by (cases "full a t") auto

text \<open>The block at the head of the ready list hands out all its requests, in order, and then leaves.\<close>

lemma drain:
  "invar t \<Longrightarrow> ready t = a # as \<Longrightarrow> pending t a = rs \<Longrightarrow>
     \<exists>t'. takes next_access (length rs) t = Inr (rs, t') \<and> invar t' \<and> ready t' = as \<and>
       pending t' = (pending t)(a := [])"
proof (induction rs arbitrary: t)
  case Nil
  then show ?case using ready_pending [of t a] by simp
next
  case (Cons r rs)
  from next_ok [OF Cons.prems] obtain t1 where t1: "next_access t = Inr (r, t1)" "invar t1"
    "pending t1 = (pending t)(a := rs)" "ready t1 = (if rs = [] then as else ready t)" by blast
  show ?case
  proof (cases "rs = []")
    case True
    then show ?thesis using t1 by (auto simp: fun_upd_def)
  next
    case False
    then have "ready t1 = a # as" "pending t1 a = rs" using t1 Cons.prems(2) by auto
    from Cons.IH [OF t1(2) this] t1 show ?thesis by fastforce
  qed
qed

end

section \<open>The table implements the contract\<close>

definition mshr_wf :: "mshr_table \<Rightarrow> bool" where
  "mshr_wf t \<longleftrightarrow> distinct (map fst (mt_data t)) \<and> length (mt_data t) \<le> unat (mt_num_entries t) \<and>
     (\<forall>(a, e) \<in> set (mt_data t). me_list e \<noteq> [] \<and> length (me_list e) \<le> unat (mt_max_merged t)) \<and>
     distinct (mt_current_response t) \<and> set (mt_current_response t) \<subseteq> fst ` set (mt_data t) \<and>
     mt_max_merged t \<noteq> 0"

definition mshr_pending :: "mshr_table \<Rightarrow> u64 \<Rightarrow> mfref list" where
  "mshr_pending t a = me_list (mshr_entry_at a t)"

definition mshr_ready_block :: "u64 \<Rightarrow> mshr_table \<Rightarrow> mshr_table res" where
  "mshr_ready_block a t = andThen (mshr_mark_ready a t) (\<lambda>(b, t'). Inr t')"

lemma mshr_table_new_wf: "max_merged \<noteq> 0 \<Longrightarrow> mshr_wf (mshr_table_new n max_merged)"
  by (simp add: mshr_wf_def mshr_table_new_def)

lemma length_update:
  "length (AList.update k v al) = (if k \<in> fst ` set al then length al else Suc (length al))"
  by (induction al) auto

lemma entry_at_mem:
  "(a, e) \<in> set (mt_data t) \<Longrightarrow> distinct (map fst (mt_data t)) \<Longrightarrow> mshr_entry_at a t = e"
  by (simp add: mshr_entry_at_def)

lemma entry_at_put: "mshr_entry_at b (mshr_put a e t) = (if b = a then e else mshr_entry_at b t)"
  by (simp add: mshr_entry_at_def mshr_put_def update_conv')

lemma pending_put:
  "mshr_pending (mshr_put a e t) = (mshr_pending t)(a := me_list e)"
  by (rule ext) (simp add: mshr_pending_def entry_at_put)

lemma key_iff: "a \<in> fst ` set (mt_data t) \<longleftrightarrow> map_of (mt_data t) a \<noteq> None"
  by (simp add: map_of_eq_None_iff)

lemma put_keys: "fst ` set (mt_data (mshr_put a e t)) = insert a (fst ` set (mt_data t))"
  by (simp add: mshr_put_def dom_update [unfolded dom_map_of_conv_image_fst])

lemma put_distinct: "distinct (map fst (mt_data t)) \<Longrightarrow> distinct (map fst (mt_data (mshr_put a e t)))"
  by (simp add: mshr_put_def distinct_update)

lemma put_entries:
  assumes "distinct (map fst (mt_data t))" and "(b, e') \<in> set (mt_data (mshr_put a e t))"
  shows "b = a \<and> e' = e \<or> b \<noteq> a \<and> (b, e') \<in> set (mt_data t)"
proof -
  have d: "distinct (map fst (AList.update a e (mt_data t)))" using assms(1) by (rule distinct_update)
  have "map_of (AList.update a e (mt_data t)) b = Some e'"
    using assms(2) d by (simp add: mshr_put_def)
  then have "((map_of (mt_data t))(a \<mapsto> e)) b = Some e'" by (simp add: update_conv')
  then show ?thesis by (auto split: if_splits dest: map_of_SomeD)
qed

lemma mshr_put_wf:
  assumes "mshr_wf t" and "me_list e \<noteq> []" and "length (me_list e) \<le> unat (mt_max_merged t)"
    and "a \<in> fst ` set (mt_data t) \<or> length (mt_data t) < unat (mt_num_entries t)"
  shows "mshr_wf (mshr_put a e t)"
proof -
  have d: "distinct (map fst (mt_data t))" using assms(1) by (simp add: mshr_wf_def)
  have "length (mt_data (mshr_put a e t)) \<le> unat (mt_num_entries t)"
    using assms(1,4) by (auto simp: mshr_put_def length_update mshr_wf_def)
  moreover have "me_list e' \<noteq> [] \<and> length (me_list e') \<le> unat (mt_max_merged t)"
    if "(b, e') \<in> set (mt_data (mshr_put a e t))" for b e'
    using put_entries [OF d that] assms(1,2,3) by (auto simp: mshr_wf_def)
  ultimately show ?thesis
    using assms(1) put_distinct [OF d] put_keys [of a e t]
    unfolding mshr_wf_def by (auto simp: mshr_put_def)
qed

lemma mshr_add_ok:
  assumes "mshr_wf t" and "\<not> mshr_full a t"
  shows "\<exists>t'. mshr_add a r atomic t = Inr t' \<and> mshr_wf t' \<and>
    mshr_pending t' = (mshr_pending t)(a := mshr_pending t a @ [r]) \<and>
    mt_current_response t' = mt_current_response t"
proof -
  let ?e = "mshr_entry_at a t" let ?e1 = "?e\<lparr>me_list := me_list ?e @ [r]\<rparr>"
  have mm: "0 < unat (mt_max_merged t)" using assms(1) by (simp add: mshr_wf_def unat_gt_0)
  have len: "length (me_list ?e1) \<le> unat (mt_max_merged t)"
    using assms(2) mm by (auto simp: mshr_full_def mshr_entry_at_def mshr_entry_new_def split: option.splits)
  have key: "a \<in> fst ` set (mt_data t) \<or> length (mt_data t) < unat (mt_num_entries t)"
    using assms(2) by (auto simp: mshr_full_def key_iff split: option.splits)
  define e2 where "e2 = (if atomic then ?e1\<lparr>me_has_atomic := True\<rparr> else ?e1)"
  have put2: "mshr_put a x (mshr_put a y t) = mshr_put a x t" for x y
  proof -
    have "AList.update a x (AList.update a y al) = AList.update a x al" for al
      by (induction al) auto
    then show ?thesis by (simp add: mshr_put_def)
  qed
  have "length (mt_data (mshr_put a ?e1 t)) \<le> unat (mt_num_entries t)"
    using key assms(1) by (auto simp: mshr_put_def length_update mshr_wf_def)
  then have "mshr_add a r atomic t = Inr (mshr_put a e2 t)"
    using len unfolding mshr_add_def Let_def e2_def by (simp add: put2) (simp add: mshr_put_def)
  moreover have "mshr_wf (mshr_put a e2 t)"
    using len key assms(1) by (intro mshr_put_wf) (auto simp: e2_def)
  moreover have "mshr_pending (mshr_put a e2 t) = (mshr_pending t)(a := mshr_pending t a @ [r])"
    by (simp add: pending_put e2_def) (simp add: mshr_pending_def)
  ultimately show ?thesis by (auto simp: mshr_put_def)
qed

lemma mshr_add_full:
  assumes "mshr_wf t" and "mshr_full a t"
  shows "mshr_add a r atomic t = Inl Assertion"
proof (cases "map_of (mt_data t) a")
  case None
  then have "a \<notin> fst ` set (mt_data t)" by (simp add: map_of_eq_None_iff)
  with None assms(2) show ?thesis by (simp add: mshr_add_def mshr_full_def mshr_put_def length_update Let_def)
next
  case (Some e)
  with assms(2) show ?thesis
    by (simp add: mshr_add_def mshr_full_def mshr_entry_at_def mshr_put_def Let_def check_def)
qed

lemma mshr_next_ok:
  assumes "mshr_wf t" and "mt_current_response t = a # as" and "mshr_pending t a = r # rs"
  shows "\<exists>t'. mshr_next_access t = Inr (r, t') \<and> mshr_wf t' \<and>
    mshr_pending t' = (mshr_pending t)(a := rs) \<and>
    mt_current_response t' = (if rs = [] then as else mt_current_response t)"
proof -
  let ?e = "mshr_entry_at a t"
  have l: "me_list ?e = r # rs" using assms(3) by (simp add: mshr_pending_def)
  have key: "a \<in> fst ` set (mt_data t)" using assms(1,2) by (auto simp: mshr_wf_def)
  show ?thesis
  proof (cases "rs = []")
    case True
    let ?t = "t\<lparr>mt_data := AList.delete a (mt_data t), mt_current_response := as\<rparr>"
    have "mshr_next_access t = Inr (r, ?t)"
      using assms(2) l True by (simp add: mshr_next_access_def mshr_access_ready_def Let_def)
    moreover have "mshr_wf ?t"
    proof -
      have "set as \<subseteq> fst ` set (mt_data t) - {a}" "distinct as"
        using assms(1,2) by (auto simp: mshr_wf_def)
      moreover have "fst ` set (AList.delete a (mt_data t)) = fst ` set (mt_data t) - {a}"
        by (auto simp: AList.delete_eq)
      moreover have "set (AList.delete a (mt_data t)) \<subseteq> set (mt_data t)"
        by (auto simp: AList.delete_eq)
      moreover have "length (AList.delete a (mt_data t)) \<le> length (mt_data t)"
        by (rule length_delete_le)
      ultimately show ?thesis
        using assms(1) unfolding mshr_wf_def by (auto simp: distinct_delete)
    qed
    moreover have "mshr_pending ?t = (mshr_pending t)(a := rs)"
      using True by (auto simp: mshr_pending_def mshr_entry_at_def delete_conv' mshr_entry_new_def)
    ultimately show ?thesis using True by auto
  next
    case False
    let ?t = "mshr_put a (?e\<lparr>me_list := rs\<rparr>) t"
    have "mshr_next_access t = Inr (r, ?t)"
      using assms(2) l False by (simp add: mshr_next_access_def mshr_access_ready_def Let_def)
    moreover have "mshr_wf ?t"
    proof (rule mshr_put_wf [OF assms(1)])
      obtain e where e: "(a, e) \<in> set (mt_data t)" using key by auto
      then have "?e = e" using assms(1) by (intro entry_at_mem) (auto simp: mshr_wf_def)
      with e assms(1) have "length (r # rs) \<le> unat (mt_max_merged t)"
        using l by (auto simp: mshr_wf_def)
      then show "length (me_list (?e\<lparr>me_list := rs\<rparr>)) \<le> unat (mt_max_merged t)" by simp
    qed (use False key in auto)
    ultimately show ?thesis using False by (auto simp: pending_put) (simp add: mshr_put_def)
  qed
qed

interpretation mshr: request_table mshr_wf mshr_pending mt_current_response mshr_full
  "\<lambda>a r. mshr_add a r atomic" mshr_ready_block mshr_next_access for atomic
proof unfold_locales
  fix t :: mshr_table and a r rs as
  assume wf: "mshr_wf t"
  show "\<exists>t'. mshr_add a r atomic t = Inr t' \<and> mshr_wf t' \<and>
      mshr_pending t' = (mshr_pending t)(a := mshr_pending t a @ [r]) \<and>
      mt_current_response t' = mt_current_response t" if "\<not> mshr_full a t"
    using wf that by (rule mshr_add_ok)
  show "mshr_add a r atomic t = Inl Assertion" if "mshr_full a t" using wf that by (rule mshr_add_full)
  show pend: "mshr_pending t b \<noteq> []" if "b \<in> set (mt_current_response t)" for b
  proof -
    have "b \<in> fst ` set (mt_data t)" using wf that by (auto simp: mshr_wf_def)
    then obtain e where e: "(b, e) \<in> set (mt_data t)" by auto
    then show ?thesis using wf entry_at_mem [OF e] by (auto simp: mshr_wf_def mshr_pending_def)
  qed
  show "\<exists>t'. mshr_ready_block a t = Inr t' \<and> mshr_wf t' \<and> mshr_pending t' = mshr_pending t \<and>
      mt_current_response t' = mt_current_response t @ [a]"
    if p: "mshr_pending t a \<noteq> []" and n: "a \<notin> set (mt_current_response t)"
  proof -
    have key: "a \<in> fst ` set (mt_data t)" "map_of (mt_data t) a \<noteq> None"
      using p by (auto simp: key_iff mshr_pending_def mshr_entry_at_def mshr_entry_new_def
          split: option.splits)
    have d: "distinct (a # mt_current_response t)" "set (a # mt_current_response t) \<subseteq> fst ` set (mt_data t)"
      using wf n key(1) by (auto simp: mshr_wf_def)
    have "length (a # mt_current_response t) = card (set (a # mt_current_response t))"
      using d(1) by (rule distinct_card [symmetric])
    also have "\<dots> \<le> card (fst ` set (mt_data t))" using d(2) by (intro card_mono) auto
    also have "\<dots> = length (mt_data t)"
      using wf distinct_card [of "map fst (mt_data t)"] by (simp add: mshr_wf_def)
    finally show ?thesis
      using key(2) wf d by (auto simp: mshr_ready_block_def mshr_mark_ready_def mshr_wf_def
          mshr_pending_def mshr_entry_at_def)
  qed
  show "\<exists>t'. mshr_next_access t = Inr (r, t') \<and> mshr_wf t' \<and>
      mshr_pending t' = (mshr_pending t)(a := rs) \<and>
      mt_current_response t' = (if rs = [] then as else mt_current_response t)"
    if "mt_current_response t = a # as" "mshr_pending t a = r # rs"
    using wf that by (rule mshr_next_ok)
  show "mshr_next_access t = Inl Assertion" if "mt_current_response t = []"
    using that by (simp add: mshr_next_access_def mshr_access_ready_def)
qed

section \<open>Properties\<close>

text \<open>C38: merged misses are answered in order.  When the fill of block \<open>a\<close> arrives and no other block is
  ready, \<open>next_access\<close> hands out exactly the requests merged under \<open>a\<close>, in the order they were added;
  then nothing is ready any more, the entry of \<open>a\<close> is free, and the requests of all other blocks are
  still pending as before.\<close>

theorem mshr_fill_drains:
  assumes "mshr_wf t" and "mt_current_response t = []" and "mshr_pending t a \<noteq> []"
  shows "\<exists>t1 t2. mshr_ready_block a t = Inr t1 \<and>
    takes mshr_next_access (length (mshr_pending t a)) t1 = Inr (mshr_pending t a, t2) \<and>
    mshr_wf t2 \<and> \<not> mshr_access_ready t2 \<and> mshr_pending t2 a = [] \<and>
    (\<forall>b. b \<noteq> a \<longrightarrow> mshr_pending t2 b = mshr_pending t b)"
proof -
  from mshr.mark_ok [OF assms(1,3)] assms(2) obtain t1 where t1: "mshr_ready_block a t = Inr t1"
    "mshr_wf t1" "mshr_pending t1 = mshr_pending t" "mt_current_response t1 = [a]" by auto
  then have "mshr_pending t1 a = mshr_pending t a" by simp
  from mshr.drain [OF t1(2,4) this] t1(1,3) show ?thesis
    by (auto simp: mshr_access_ready_def)
qed

theorem mshr_fill_drains_witness:
  "\<exists>t t1 t2. andThen (mshr_add 0x80 1 False (mshr_table_new 4 2)) (mshr_add 0x80 2 False) = Inr t \<and>
     mshr_ready_block 0x80 t = Inr t1 \<and> takes mshr_next_access 2 t1 = Inr ([1, 2], t2) \<and>
     \<not> mshr_access_ready t2"
proof -
  let ?t = "\<lparr>mt_num_entries = 4, mt_max_merged = 2,
    mt_data = [(0x80, \<lparr>me_list = [1, 2], me_has_atomic = False\<rparr>)], mt_current_response = []\<rparr>"
  have "andThen (mshr_add 0x80 1 False (mshr_table_new 4 2)) (mshr_add 0x80 2 False) = Inr ?t"
    by (simp add: mshr_add_def mshr_table_new_def mshr_entry_at_def mshr_put_def mshr_entry_new_def Let_def)
  moreover have "mshr_wf ?t" "mt_current_response ?t = []" "mshr_pending ?t 0x80 = [1, 2]"
    by (simp_all add: mshr_wf_def mshr_pending_def mshr_entry_at_def)
  ultimately show ?thesis using mshr_fill_drains [of ?t "0x80"] by (auto simp: numeral_2_eq_2)
qed

text \<open>\<open>full\<close> is exact.  In a well-formed table, adding a request to a block violates one of the two
  size assertions of \<open>add\<close> if and only if \<open>full\<close> says so for that block.\<close>

theorem mshr_full_exact:
  assumes "mshr_wf t"
  shows "is_ok (mshr_add a r atomic t) \<longleftrightarrow> \<not> mshr_full a t"
  using mshr.add_iff [OF assms] .

lemma raw_scan_iff:
  "raw_scan (\<lambda>m. Inr (wr m)) f ms = Inr ((f \<and> (\<exists>m \<in> set ms. \<not> wr m)) \<or>
     (\<exists>i j. i < j \<and> j < length ms \<and> wr (ms ! i) \<and> \<not> wr (ms ! j)))"
proof (induction ms arbitrary: f)
  case (Cons m ms)
  have shift: "(\<exists>i j. i < j \<and> j < length (m # ms) \<and> wr ((m # ms) ! i) \<and> \<not> wr ((m # ms) ! j)) \<longleftrightarrow>
      (wr m \<and> (\<exists>x \<in> set ms. \<not> wr x)) \<or>
      (\<exists>i j. i < j \<and> j < length ms \<and> wr (ms ! i) \<and> \<not> wr (ms ! j))" (is "?l = ?r")
  proof
    assume ?l
    then obtain i j where ij: "i < j" "j < length (m # ms)" "wr ((m # ms) ! i)" "\<not> wr ((m # ms) ! j)"
      by blast
    then obtain j' where j: "j = Suc j'" by (cases j) auto
    show ?r
    proof (cases i)
      case 0
      then show ?thesis using ij j by auto
    next
      case (Suc i')
      then show ?thesis using ij j by auto
    qed
  next
    assume ?r
    then show ?l
    proof
      assume "wr m \<and> (\<exists>x \<in> set ms. \<not> wr x)"
      then obtain j where "j < length ms" "\<not> wr (ms ! j)" "wr m" by (auto simp: in_set_conv_nth)
      then show ?l by (intro exI [of _ 0] exI [of _ "Suc j"]) auto
    next
      assume "\<exists>i j. i < j \<and> j < length ms \<and> wr (ms ! i) \<and> \<not> wr (ms ! j)"
      then obtain i j where "i < j" "j < length ms" "wr (ms ! i)" "\<not> wr (ms ! j)" by blast
      then show ?l by (intro exI [of _ "Suc i"] exI [of _ "Suc j"]) auto
    qed
  qed
  show ?case unfolding shift using Cons.IH by (cases "wr m") auto
qed simp

text \<open>The hazard test of fetch-on-write.  \<open>is_read_after_write_pending\<close> answers true exactly when some
  read was merged into the block after some write, and it changes nothing that is pending.\<close>

theorem read_after_write_exact:
  "\<exists>t'. is_read_after_write_pending (\<lambda>m. Inr (wr m)) a t =
     Inr (\<exists>i j. i < j \<and> j < length (mshr_pending t a) \<and> wr (mshr_pending t a ! i) \<and>
        \<not> wr (mshr_pending t a ! j), t') \<and>
   mshr_pending t' = mshr_pending t"
proof -
  have "mshr_pending (mshr_put a (mshr_entry_at a t) t) = mshr_pending t"
    by (intro ext) (simp add: mshr_pending_def entry_at_put)
  then show ?thesis
    by (simp add: is_read_after_write_pending_def Let_def raw_scan_iff mshr_pending_def)
qed

end
