(* ===== verification/Cache_Stats.thy ===== *)
theory Cache_Stats
  imports Mem_Fetch
begin

text \<open>
  \<open>cache_stats\<close>, \<open>cache_sub_stats\<close> and \<open>cache_sub_stats_pw\<close> of \<open>gpu-cache.{h,cc}\<close>: the counters every
  cache keeps per access type and outcome.  The vectors of vectors are lists of lists; the enumeration
  arguments the code passes as \<open>int\<close> are integers, checked by \<open>check_valid\<close> before they index.  Counters
  wrap at 64 bits, the per-window sums at 32.  Printing is left out.

  Shown: an increment changes one cell by one; every counted access is a hit, a miss or a pending hit
  in the summary; what the accumulation operators add, and what they forget.
\<close>

section \<open>Model\<close>

definition NUM_MEM_ACCESS_TYPE :: nat where "NUM_MEM_ACCESS_TYPE = 11"

definition NUM_CACHE_REQUEST_STATUS :: nat where "NUM_CACHE_REQUEST_STATUS = 5"

definition NUM_CACHE_RESERVATION_FAIL_STATUS :: nat where "NUM_CACHE_RESERVATION_FAIL_STATUS = 5"

fun type_code :: "mem_access_type \<Rightarrow> int" where
  "type_code GLOBAL_ACC_R = 0"
| "type_code LOCAL_ACC_R = 1"
| "type_code CONST_ACC_R = 2"
| "type_code TEXTURE_ACC_R = 3"
| "type_code GLOBAL_ACC_W = 4"
| "type_code LOCAL_ACC_W = 5"
| "type_code L1_WRBK_ACC = 6"
| "type_code L2_WRBK_ACC = 7"
| "type_code INST_ACC_R = 8"
| "type_code L1_WR_ALLOC_R = 9"
| "type_code L2_WR_ALLOC_R = 10"

fun status_code :: "cache_request_status \<Rightarrow> int" where
  "status_code HIT = 0"
| "status_code HIT_RESERVED = 1"
| "status_code MISS = 2"
| "status_code RESERVATION_FAIL = 3"
| "status_code SECTOR_MISS = 4"

fun fail_code :: "cache_reservation_fail_reason \<Rightarrow> int" where
  "fail_code LINE_ALLOC_FAIL = 0"
| "fail_code MISS_QUEUE_FULL = 1"
| "fail_code MSHR_ENRTY_FAIL = 2"
| "fail_code MSHR_MERGE_ENRTY_FAIL = 3"
| "fail_code MSHR_RW_PENDING = 4"

type_synonym counters = "u64 list list"

definition zero_counters :: "nat \<Rightarrow> counters" where
  "zero_counters n = replicate NUM_MEM_ACCESS_TYPE (replicate n 0)"

definition cell :: "counters \<Rightarrow> nat \<Rightarrow> nat \<Rightarrow> u64" where
  "cell m t s = m ! t ! s"

definition set_cell :: "nat \<Rightarrow> nat \<Rightarrow> u64 \<Rightarrow> counters \<Rightarrow> counters" where
  "set_cell t s v m = m[t := (m ! t)[s := v]]"

record cache_stats =
  cs_stats :: counters
  cs_stats_pw :: counters
  cs_fail_stats :: counters
  cs_port_available_cycles :: u64
  cs_data_port_busy_cycles :: u64
  cs_fill_port_busy_cycles :: u64

definition cache_stats_new :: cache_stats where
  "cache_stats_new = \<lparr>cs_stats = zero_counters NUM_CACHE_REQUEST_STATUS,
     cs_stats_pw = zero_counters NUM_CACHE_REQUEST_STATUS,
     cs_fail_stats = zero_counters NUM_CACHE_RESERVATION_FAIL_STATUS,
     cs_port_available_cycles = 0, cs_data_port_busy_cycles = 0, cs_fill_port_busy_cycles = 0\<rparr>"

definition stats_clear :: "cache_stats \<Rightarrow> cache_stats" where
  "stats_clear cs = cs\<lparr>cs_stats := map (map (\<lambda>_. 0)) (cs_stats cs),
     cs_fail_stats := map (map (\<lambda>_. 0)) (cs_fail_stats cs), cs_port_available_cycles := 0,
     cs_data_port_busy_cycles := 0, cs_fill_port_busy_cycles := 0\<rparr>"

definition stats_clear_pw :: "cache_stats \<Rightarrow> cache_stats" where
  "stats_clear_pw cs = cs\<lparr>cs_stats_pw := map (map (\<lambda>_. 0)) (cs_stats_pw cs)\<rparr>"

definition check_valid :: "int \<Rightarrow> int \<Rightarrow> bool" where
  "check_valid type status \<longleftrightarrow> type \<ge> 0 \<and> type < int NUM_MEM_ACCESS_TYPE \<and> status \<ge> 0 \<and>
     status < int NUM_CACHE_REQUEST_STATUS"

definition check_fail_valid :: "int \<Rightarrow> int \<Rightarrow> bool" where
  "check_fail_valid type fail \<longleftrightarrow> type \<ge> 0 \<and> type < int NUM_MEM_ACCESS_TYPE \<and> fail \<ge> 0 \<and>
     fail < int NUM_CACHE_RESERVATION_FAIL_STATUS"

definition inc_cell :: "int \<Rightarrow> int \<Rightarrow> counters \<Rightarrow> counters" where
  "inc_cell t s m = set_cell (nat t) (nat s) (cell m (nat t) (nat s) + 1) m"

definition inc_stats :: "int \<Rightarrow> int \<Rightarrow> cache_stats \<Rightarrow> cache_stats res" where
  "inc_stats type outcome cs = check (check_valid type outcome)
     (Inr (cs\<lparr>cs_stats := inc_cell type outcome (cs_stats cs)\<rparr>))"

definition inc_stats_pw :: "int \<Rightarrow> int \<Rightarrow> cache_stats \<Rightarrow> cache_stats res" where
  "inc_stats_pw type outcome cs = check (check_valid type outcome)
     (Inr (cs\<lparr>cs_stats_pw := inc_cell type outcome (cs_stats_pw cs)\<rparr>))"

definition inc_fail_stats :: "int \<Rightarrow> int \<Rightarrow> cache_stats \<Rightarrow> cache_stats res" where
  "inc_fail_stats type fail cs = check (check_fail_valid type fail)
     (Inr (cs\<lparr>cs_fail_stats := inc_cell type fail (cs_fail_stats cs)\<rparr>))"

definition select_stats_status ::
  "cache_request_status \<Rightarrow> cache_request_status \<Rightarrow> cache_request_status" where
  "select_stats_status probe access =
     (if probe = HIT_RESERVED \<and> access \<noteq> RESERVATION_FAIL then probe
      else if probe = SECTOR_MISS \<and> access = MISS then probe else access)"

definition stats_at :: "int \<Rightarrow> int \<Rightarrow> bool \<Rightarrow> cache_stats \<Rightarrow> u64 res" where
  "stats_at type outcome fail_outcome cs =
     (if fail_outcome
      then check (check_fail_valid type outcome) (Inr (cell (cs_fail_stats cs) (nat type) (nat outcome)))
      else check (check_valid type outcome) (Inr (cell (cs_stats cs) (nat type) (nat outcome))))"

text \<open>Cell-wise addition of the first \<open>n\<close> columns.\<close>

definition add_counters :: "nat \<Rightarrow> counters \<Rightarrow> counters \<Rightarrow> counters" where
  "add_counters n a b = map (\<lambda>t. map (\<lambda>s. cell a t s + cell b t s) [0..<n]) [0..<NUM_MEM_ACCESS_TYPE]"

definition stats_plus :: "cache_stats \<Rightarrow> cache_stats \<Rightarrow> cache_stats" where
  "stats_plus a b = cache_stats_new\<lparr>
     cs_stats := add_counters NUM_CACHE_REQUEST_STATUS (cs_stats a) (cs_stats b),
     cs_fail_stats := add_counters NUM_CACHE_RESERVATION_FAIL_STATUS (cs_fail_stats a) (cs_fail_stats b),
     cs_port_available_cycles := cs_port_available_cycles a + cs_port_available_cycles b,
     cs_data_port_busy_cycles := cs_data_port_busy_cycles a + cs_data_port_busy_cycles b,
     cs_fill_port_busy_cycles := cs_fill_port_busy_cycles a + cs_fill_port_busy_cycles b\<rparr>"

definition stats_accumulate :: "cache_stats \<Rightarrow> cache_stats \<Rightarrow> cache_stats" where
  "stats_accumulate a b = a\<lparr>
     cs_stats := add_counters NUM_CACHE_REQUEST_STATUS (cs_stats a) (cs_stats b),
     cs_stats_pw := add_counters NUM_CACHE_REQUEST_STATUS (cs_stats_pw a) (cs_stats b),
     cs_fail_stats := add_counters NUM_CACHE_RESERVATION_FAIL_STATUS (cs_fail_stats a) (cs_fail_stats b),
     cs_port_available_cycles := cs_port_available_cycles a + cs_port_available_cycles b,
     cs_data_port_busy_cycles := cs_data_port_busy_cycles a + cs_data_port_busy_cycles b,
     cs_fill_port_busy_cycles := cs_fill_port_busy_cycles a + cs_fill_port_busy_cycles b\<rparr>"

text \<open>The loop nest both queries and both summaries share.\<close>

definition all_cells :: "(nat \<times> nat) list" where
  "all_cells = List.product [0..<NUM_MEM_ACCESS_TYPE] [0..<NUM_CACHE_REQUEST_STATUS]"

definition get_stats :: "mem_access_type list \<Rightarrow> cache_request_status list \<Rightarrow> cache_stats \<Rightarrow> u64 res" where
  "get_stats types statuses cs =
     foldM (\<lambda>(t, s) total. check (check_valid (type_code t) (status_code s))
         (Inr (total + cell (cs_stats cs) (nat (type_code t)) (nat (status_code s)))))
       (List.product types statuses) 0"

definition get_fail_stats ::
  "mem_access_type list \<Rightarrow> cache_reservation_fail_reason list \<Rightarrow> cache_stats \<Rightarrow> u64 res" where
  "get_fail_stats types fails cs =
     foldM (\<lambda>(t, s) total. check (check_fail_valid (type_code t) (fail_code s))
         (Inr (total + cell (cs_fail_stats cs) (nat (type_code t)) (nat (fail_code s)))))
       (List.product types fails) 0"

record cache_sub_stats =
  css_accesses :: u64
  css_misses :: u64
  css_pending_hits :: u64
  css_res_fails :: u64
  css_port_available_cycles :: u64
  css_data_port_busy_cycles :: u64
  css_fill_port_busy_cycles :: u64

definition sub_stats_clear :: cache_sub_stats where
  "sub_stats_clear = \<lparr>css_accesses = 0, css_misses = 0, css_pending_hits = 0, css_res_fails = 0,
     css_port_available_cycles = 0, css_data_port_busy_cycles = 0, css_fill_port_busy_cycles = 0\<rparr>"

definition sub_stats_plus :: "cache_sub_stats \<Rightarrow> cache_sub_stats \<Rightarrow> cache_sub_stats" where
  "sub_stats_plus a b = \<lparr>css_accesses = css_accesses a + css_accesses b,
     css_misses = css_misses a + css_misses b, css_pending_hits = css_pending_hits a + css_pending_hits b,
     css_res_fails = css_res_fails a + css_res_fails b,
     css_port_available_cycles = css_port_available_cycles a + css_port_available_cycles b,
     css_data_port_busy_cycles = css_data_port_busy_cycles a + css_data_port_busy_cycles b,
     css_fill_port_busy_cycles = css_fill_port_busy_cycles a + css_fill_port_busy_cycles b\<rparr>"

text \<open>One iteration of the loop of \<open>get_sub_stats\<close>; the outcomes by their numbers.\<close>

definition sub_stats_step :: "cache_stats \<Rightarrow> nat \<times> nat \<Rightarrow> cache_sub_stats \<Rightarrow> cache_sub_stats" where
  "sub_stats_step cs ts css =
     (let v = cell (cs_stats cs) (fst ts) (snd ts); s = int (snd ts);
          c1 = (if s = status_code HIT \<or> s = status_code MISS \<or> s = status_code SECTOR_MISS \<or>
                   s = status_code HIT_RESERVED
                then css\<lparr>css_accesses := css_accesses css + v\<rparr> else css);
          c2 = (if s = status_code MISS \<or> s = status_code SECTOR_MISS
                then c1\<lparr>css_misses := css_misses c1 + v\<rparr> else c1);
          c3 = (if s = status_code HIT_RESERVED
                then c2\<lparr>css_pending_hits := css_pending_hits c2 + v\<rparr> else c2)
      in if s = status_code RESERVATION_FAIL
         then c3\<lparr>css_res_fails := css_res_fails c3 + v\<rparr> else c3)"

definition get_sub_stats :: "cache_stats \<Rightarrow> cache_sub_stats" where
  "get_sub_stats cs = (fold (sub_stats_step cs) all_cells sub_stats_clear)\<lparr>
     css_port_available_cycles := cs_port_available_cycles cs,
     css_data_port_busy_cycles := cs_data_port_busy_cycles cs,
     css_fill_port_busy_cycles := cs_fill_port_busy_cycles cs\<rparr>"

record cache_sub_stats_pw =
  pw_accesses :: u32
  pw_write_misses :: u32
  pw_write_hits :: u32
  pw_write_pending_hits :: u32
  pw_write_res_fails :: u32
  pw_read_misses :: u32
  pw_read_hits :: u32
  pw_read_pending_hits :: u32
  pw_read_res_fails :: u32

definition sub_stats_pw_clear :: cache_sub_stats_pw where
  "sub_stats_pw_clear = \<lparr>pw_accesses = 0, pw_write_misses = 0, pw_write_hits = 0,
     pw_write_pending_hits = 0, pw_write_res_fails = 0, pw_read_misses = 0, pw_read_hits = 0,
     pw_read_pending_hits = 0, pw_read_res_fails = 0\<rparr>"

definition sub_stats_pw_accumulate ::
  "cache_sub_stats_pw \<Rightarrow> cache_sub_stats_pw \<Rightarrow> cache_sub_stats_pw" where
  "sub_stats_pw_accumulate a b = a\<lparr>pw_accesses := pw_accesses a + pw_accesses b,
     pw_write_misses := pw_write_misses a + pw_write_misses b,
     pw_read_misses := pw_read_misses a + pw_read_misses b,
     pw_write_pending_hits := pw_write_pending_hits a + pw_write_pending_hits b,
     pw_read_pending_hits := pw_read_pending_hits a + pw_read_pending_hits b,
     pw_write_res_fails := pw_write_res_fails a + pw_write_res_fails b,
     pw_read_res_fails := pw_read_res_fails a + pw_read_res_fails b\<rparr>"

definition sub_stats_pw_plus ::
  "cache_sub_stats_pw \<Rightarrow> cache_sub_stats_pw \<Rightarrow> cache_sub_stats_pw" where
  "sub_stats_pw_plus a b = sub_stats_pw_clear\<lparr>pw_accesses := pw_accesses a + pw_accesses b,
     pw_write_misses := pw_write_misses a + pw_write_misses b,
     pw_read_misses := pw_read_misses a + pw_read_misses b,
     pw_write_pending_hits := pw_write_pending_hits a + pw_write_pending_hits b,
     pw_read_pending_hits := pw_read_pending_hits a + pw_read_pending_hits b,
     pw_write_res_fails := pw_write_res_fails a + pw_write_res_fails b,
     pw_read_res_fails := pw_read_res_fails a + pw_read_res_fails b\<rparr>"

text \<open>\<open>unsigned += unsigned long long\<close>: the sum is truncated to 32 bits.\<close>

definition add32 :: "u32 \<Rightarrow> u64 \<Rightarrow> u32" where
  "add32 a v = ucast (ucast a + v)"

definition is_read_type :: "int \<Rightarrow> bool" where
  "is_read_type t \<longleftrightarrow> t = type_code GLOBAL_ACC_R \<or> t = type_code CONST_ACC_R \<or> t = type_code INST_ACC_R"

definition sub_stats_pw_step ::
  "cache_stats \<Rightarrow> nat \<times> nat \<Rightarrow> cache_sub_stats_pw \<Rightarrow> cache_sub_stats_pw" where
  "sub_stats_pw_step cs ts css =
     (let v = cell (cs_stats_pw cs) (fst ts) (snd ts); t = int (fst ts); s = int (snd ts);
          wr = (t = type_code GLOBAL_ACC_W);
          c1 = (if s = status_code HIT \<or> s = status_code MISS \<or> s = status_code SECTOR_MISS \<or>
                   s = status_code HIT_RESERVED
                then css\<lparr>pw_accesses := add32 (pw_accesses css) v\<rparr> else css);
          c2 = (if s = status_code HIT then
                  (if is_read_type t then c1\<lparr>pw_read_hits := add32 (pw_read_hits c1) v\<rparr>
                   else if wr then c1\<lparr>pw_write_hits := add32 (pw_write_hits c1) v\<rparr> else c1) else c1);
          c3 = (if s = status_code MISS \<or> s = status_code SECTOR_MISS then
                  (if is_read_type t then c2\<lparr>pw_read_misses := add32 (pw_read_misses c2) v\<rparr>
                   else if wr then c2\<lparr>pw_write_misses := add32 (pw_write_misses c2) v\<rparr> else c2) else c2);
          c4 = (if s = status_code HIT_RESERVED then
                  (if is_read_type t then c3\<lparr>pw_read_pending_hits := add32 (pw_read_pending_hits c3) v\<rparr>
                   else if wr then c3\<lparr>pw_write_pending_hits := add32 (pw_write_pending_hits c3) v\<rparr>
                   else c3) else c3)
      in if s = status_code RESERVATION_FAIL then
           (if is_read_type t then c4\<lparr>pw_read_res_fails := add32 (pw_read_res_fails c4) v\<rparr>
            else if wr then c4\<lparr>pw_write_res_fails := add32 (pw_write_res_fails c4) v\<rparr> else c4)
         else c4)"

definition get_sub_stats_pw :: "cache_stats \<Rightarrow> cache_sub_stats_pw" where
  "get_sub_stats_pw cs = fold (sub_stats_pw_step cs) all_cells sub_stats_pw_clear"

definition sample_cache_port_utility :: "bool \<Rightarrow> bool \<Rightarrow> cache_stats \<Rightarrow> cache_stats" where
  "sample_cache_port_utility data_port_busy fill_port_busy cs =
     (let c1 = cs\<lparr>cs_port_available_cycles := cs_port_available_cycles cs + 1\<rparr>;
          c2 = (if data_port_busy
                then c1\<lparr>cs_data_port_busy_cycles := cs_data_port_busy_cycles c1 + 1\<rparr> else c1)
      in if fill_port_busy
         then c2\<lparr>cs_fill_port_busy_cycles := cs_fill_port_busy_cycles c2 + 1\<rparr> else c2)"

section \<open>Properties\<close>

definition stats_wf :: "cache_stats \<Rightarrow> bool" where
  "stats_wf cs \<longleftrightarrow> length (cs_stats cs) = 11 \<and> (\<forall>r \<in> set (cs_stats cs). length r = 5) \<and>
     length (cs_stats_pw cs) = 11 \<and> (\<forall>r \<in> set (cs_stats_pw cs). length r = 5) \<and>
     length (cs_fail_stats cs) = 11 \<and> (\<forall>r \<in> set (cs_fail_stats cs). length r = 5)"

lemma cell_set_cell:
  assumes "t < length m" and "s < length (m ! t)"
  shows "cell (set_cell t s v m) t' s' = (if t' = t \<and> s' = s then v else cell m t' s')"
  using assms by (auto simp: cell_def set_cell_def nth_list_update)

lemma set_cell_shape:
  assumes "length m = 11" and "\<forall>r \<in> set m. length r = 5"
  shows "length (set_cell t s v m) = 11 \<and> (\<forall>r \<in> set (set_cell t s v m). length r = 5)"
proof (cases "t < length m")
  case True
  then have "length ((m ! t)[s := v]) = 5" using assms(2) by simp
  then show ?thesis
    using assms set_update_subset_insert [of m t "(m ! t)[s := v]"] by (auto simp: set_cell_def)
next
  case False
  then show ?thesis using assms by (simp add: set_cell_def list_update_beyond)
qed

lemma cache_stats_new_wf: "stats_wf cache_stats_new"
  by (simp add: stats_wf_def cache_stats_new_def zero_counters_def NUM_MEM_ACCESS_TYPE_def
      NUM_CACHE_REQUEST_STATUS_def NUM_CACHE_RESERVATION_FAIL_STATUS_def)

lemma enum_codes_valid:
  "check_valid (type_code t) (status_code s)" "check_fail_valid (type_code t) (fail_code f)"
  by (cases t; cases s; simp add: check_valid_def NUM_MEM_ACCESS_TYPE_def NUM_CACHE_REQUEST_STATUS_def)
    (cases t; cases f; simp add: check_fail_valid_def NUM_MEM_ACCESS_TYPE_def
      NUM_CACHE_RESERVATION_FAIL_STATUS_def)

lemma inc_cell_shape:
  "length m = 11 \<Longrightarrow> \<forall>r \<in> set m. length r = 5 \<Longrightarrow>
     length (inc_cell a b m) = 11 \<and> (\<forall>r \<in> set (inc_cell a b m). length r = 5)"
  unfolding inc_cell_def by (rule set_cell_shape)

lemma inc_stats_wf: "stats_wf cs \<Longrightarrow> inc_stats a b cs = Inr cs' \<Longrightarrow> stats_wf cs'"
  by (auto simp add: inc_stats_def res_simps stats_wf_def dest!: inc_cell_shape [of "cs_stats cs" a b])

lemma inc_stats_pw_wf: "stats_wf cs \<Longrightarrow> inc_stats_pw a b cs = Inr cs' \<Longrightarrow> stats_wf cs'"
  by (auto simp add: inc_stats_pw_def res_simps stats_wf_def
      dest!: inc_cell_shape [of "cs_stats_pw cs" a b])

lemma inc_fail_stats_wf: "stats_wf cs \<Longrightarrow> inc_fail_stats a b cs = Inr cs' \<Longrightarrow> stats_wf cs'"
  by (auto simp add: inc_fail_stats_def res_simps stats_wf_def
      dest!: inc_cell_shape [of "cs_fail_stats cs" a b])

text \<open>One access, one count.  Recording an access type with an outcome succeeds for every pair of
  enumeration values, and afterwards \<open>operator()\<close> reads the old value plus one at that pair and the
  old value at every other valid pair.\<close>

theorem inc_stats_one_cell:
  assumes "stats_wf cs"
  shows "\<exists>cs'. inc_stats (type_code t) (status_code s) cs = Inr cs' \<and> stats_wf cs' \<and>
    (\<forall>t' s'. stats_at (type_code t') (status_code s') False cs' =
       andThen (stats_at (type_code t') (status_code s') False cs)
         (\<lambda>v. Inr (if t' = t \<and> s' = s then v + 1 else v)))"
proof -
  have bounds: "nat (type_code t) < 11" "nat (status_code s) < 5" for t s
    using enum_codes_valid(1) [of t s]
    by (auto simp: check_valid_def NUM_MEM_ACCESS_TYPE_def NUM_CACHE_REQUEST_STATUS_def)
  have inj: "nat (type_code t') = nat (type_code t) \<longleftrightarrow> t' = t"
    "nat (status_code s') = nat (status_code s) \<longleftrightarrow> s' = s" for t' s'
    by (cases t'; cases t; simp) (cases s'; cases s; simp)
  have l: "nat (type_code t) < length (cs_stats cs)"
    "nat (status_code s) < length (cs_stats cs ! nat (type_code t))"
    using assms bounds(1) [of t] bounds(2) [of s] by (auto simp: stats_wf_def)
  let ?cs = "cs\<lparr>cs_stats := inc_cell (type_code t) (status_code s) (cs_stats cs)\<rparr>"
  have i: "inc_stats (type_code t) (status_code s) cs = Inr ?cs"
    by (simp add: inc_stats_def enum_codes_valid)
  then show ?thesis
    using inc_stats_wf [OF assms i]
    by (simp add: stats_at_def enum_codes_valid inc_cell_def cell_set_cell [OF l] inj)
qed

definition hits_of :: "cache_stats \<Rightarrow> (nat \<times> nat) list \<Rightarrow> u64" where
  "hits_of cs ts = sum_list (map (\<lambda>(t, s). if s = 0 then cell (cs_stats cs) t s else 0) ts)"

lemma sub_stats_fold:
  "\<forall>(t, s) \<in> set ts. s < 5 \<Longrightarrow>
   css_accesses (fold (sub_stats_step cs) ts css) - css_misses (fold (sub_stats_step cs) ts css) -
     css_pending_hits (fold (sub_stats_step cs) ts css) =
   css_accesses css - css_misses css - css_pending_hits css + hits_of cs ts"
proof (induction ts arbitrary: css)
  case (Cons x ts)
  obtain t s where x: "x = (t, s)" by (cases x)
  have s: "s = 0 \<or> s = 1 \<or> s = 2 \<or> s = 3 \<or> s = 4" using Cons.prems x by auto
  have "css_accesses (sub_stats_step cs x css) - css_misses (sub_stats_step cs x css) -
      css_pending_hits (sub_stats_step cs x css) =
      css_accesses css - css_misses css - css_pending_hits css +
      (if s = 0 then cell (cs_stats cs) t s else 0)"
    using s by (elim disjE) (simp_all add: x sub_stats_step_def Let_def)
  moreover have "hits_of cs (x # ts) = (if s = 0 then cell (cs_stats cs) t s else 0) + hits_of cs ts"
    by (simp add: hits_of_def x)
  ultimately show ?case using Cons.IH [of "sub_stats_step cs x css"] Cons.prems
    by (simp only: fold_simps list.set insert_iff ball_simps(7) ac_simps) simp
qed (simp add: hits_of_def)

text \<open>The summary balances.  Whatever the counters are, the accesses \<open>get_sub_stats\<close> reports are the
  hits of all types plus the misses plus the pending hits it reports (modulo \<open>2 ^ 64\<close>); failed
  reservations are counted apart.\<close>

theorem sub_stats_balance:
  "css_accesses (get_sub_stats cs) =
     hits_of cs all_cells + css_misses (get_sub_stats cs) + css_pending_hits (get_sub_stats cs)"
proof -
  have "\<forall>(t, s) \<in> set all_cells. s < 5" by (auto simp: all_cells_def NUM_CACHE_REQUEST_STATUS_def)
  from sub_stats_fold [OF this, of cs sub_stats_clear] show ?thesis
    by (simp add: get_sub_stats_def sub_stats_clear_def algebra_simps)
qed

text \<open>Accumulation drops the hits of the per-window summary: \<open>+=\<close> leaves \<open>read_hits\<close> and
  \<open>write_hits\<close> as they were and \<open>+\<close> returns zero for both, while the access count, which includes
  the hits, is added.\<close>

theorem window_sum_drops_hits:
  "pw_read_hits (sub_stats_pw_accumulate a b) = pw_read_hits a \<and>
   pw_write_hits (sub_stats_pw_accumulate a b) = pw_write_hits a \<and>
   pw_read_hits (sub_stats_pw_plus a b) = 0 \<and> pw_write_hits (sub_stats_pw_plus a b) = 0 \<and>
   pw_accesses (sub_stats_pw_accumulate a b) = pw_accesses a + pw_accesses b"
  by (simp add: sub_stats_pw_accumulate_def sub_stats_pw_plus_def sub_stats_pw_clear_def)

text \<open>\<open>cache_stats::operator+=\<close> adds the totals of its argument, not its window, to the window.\<close>

lemma accumulate_window_adds_totals:
  "t < 11 \<Longrightarrow> s < 5 \<Longrightarrow> cell (cs_stats_pw (stats_accumulate a b)) t s =
     cell (cs_stats_pw a) t s + cell (cs_stats b) t s"
  by (simp add: stats_accumulate_def add_counters_def cell_def [of "map _ _"]
      NUM_MEM_ACCESS_TYPE_def NUM_CACHE_REQUEST_STATUS_def)

lemma stats_plus_cell:
  "t < 11 \<Longrightarrow> s < 5 \<Longrightarrow> cell (cs_stats (stats_plus a b)) t s =
     cell (cs_stats a) t s + cell (cs_stats b) t s"
  by (simp add: stats_plus_def add_counters_def cell_def [of "map _ _"]
      NUM_MEM_ACCESS_TYPE_def NUM_CACHE_REQUEST_STATUS_def)

end
