(* ===== verification/Baseline_Cache.thy ===== *)
theory Baseline_Cache
  imports Tag_Array Mshr Cache_Stats
begin

text \<open>
  \<open>baseline_cache\<close> and \<open>read_only_cache\<close> of \<open>gpu-cache.{h,cc}\<close> with the port bandwidth accounting and
  the event queries.  A cache is the record of its members; the configuration behind the reference
  \<open>m_config\<close> is an argument, and so is the virtual \<open>mem_fetch_interface\<close> below the cache (its \<open>full\<close>
  and \<open>push\<close>, on a port state of any type).  Requests live in the \<open>world\<close>.  The two port counters are
  C \<open>int\<close>s: 32-bit words read as signed numbers.

  Shown: a read miss that is sent to memory and filled returns the request with its own address and
  size, readable through \<open>next_access\<close>; the write-back query answers true for any event list that is not empty.
\<close>

section \<open>Events\<close>

fun was_write_sent :: "cache_event list \<Rightarrow> bool" where
  "was_write_sent [] = False"
| "was_write_sent (e # es) = (if ce_type e = WRITE_REQUEST_SENT then True else was_write_sent es)"

text \<open>The \<open>return true\<close> is not guarded by the condition: it ends the loop at the first event.\<close>

fun was_writeback_sent :: "cache_event list \<Rightarrow> cache_event \<Rightarrow> bool \<times> cache_event" where
  "was_writeback_sent [] wb_event = (False, wb_event)"
| "was_writeback_sent (e # es) wb_event =
     (True, if ce_type e = WRITE_BACK_REQUEST_SENT then e else wb_event)"

fun was_read_sent :: "cache_event list \<Rightarrow> bool" where
  "was_read_sent [] = False"
| "was_read_sent (e # es) = (if ce_type e = READ_REQUEST_SENT then True else was_read_sent es)"

fun was_writeallocate_sent :: "cache_event list \<Rightarrow> bool" where
  "was_writeallocate_sent [] = False"
| "was_writeallocate_sent (e # es) =
     (if ce_type e = WRITE_ALLOCATE_SENT then True else was_writeallocate_sent es)"

section \<open>State\<close>

record extra_mf_fields =
  ex_valid :: bool
  ex_block_addr :: u64
  ex_addr :: u64
  ex_cache_index :: u32
  ex_data_size :: u32
  ex_pending_read :: u32

definition extra_mf_fields_new :: "u64 \<Rightarrow> u64 \<Rightarrow> u32 \<Rightarrow> u32 \<Rightarrow> cache_config \<Rightarrow> extra_mf_fields" where
  "extra_mf_fields_new a ad i d c = \<lparr>ex_valid = True, ex_block_addr = a, ex_addr = ad,
     ex_cache_index = i, ex_data_size = d,
     ex_pending_read = (if m_mshr_type c = SECTOR_ASSOC then m_line_sz c div SECTOR_SIZE else 0)\<rparr>"

record baseline_cache =
  bc_tag_array :: tag_array
  bc_mshrs :: mshr_table
  bc_miss_queue :: "mfref list"
  bc_miss_queue_status :: mem_fetch_status
  bc_extra_mf_fields :: "mfref \<rightharpoonup> extra_mf_fields"
  bc_stats :: cache_stats
  bc_data_port_occupied_cycles :: u32
  bc_fill_port_occupied_cycles :: u32

definition baseline_cache_new ::
  "cache_config \<Rightarrow> int \<Rightarrow> int \<Rightarrow> mem_fetch_status \<Rightarrow> baseline_cache res" where
  "baseline_cache_new c core_id type_id status =
     andThen (tag_array_new c core_id type_id) (\<lambda>ta.
       check (m_mshr_type c = ASSOC \<or> m_mshr_type c = SECTOR_ASSOC)
         (Inr \<lparr>bc_tag_array = ta, bc_mshrs = mshr_table_new (m_mshr_entries c) (m_mshr_max_merge c),
            bc_miss_queue = [], bc_miss_queue_status = status, bc_extra_mf_fields = Map.empty,
            bc_stats = cache_stats_new, bc_data_port_occupied_cycles = 0,
            bc_fill_port_occupied_cycles = 0\<rparr>))"

definition update_cache_parameters ::
  "cache_config \<Rightarrow> 'a baseline_cache_scheme \<Rightarrow> (cache_config \<times> 'a baseline_cache_scheme) res" where
  "update_cache_parameters config bc =
     andThen (check_mshr_parameters (m_mshr_entries config) (m_mshr_max_merge config) (bc_mshrs bc))
       (\<lambda>_. Inr (config, bc))"

section \<open>Port bandwidth\<close>

definition use_data_port :: "cache_config \<Rightarrow> u32 \<Rightarrow> cache_request_status \<Rightarrow> cache_event list \<Rightarrow>
    'a baseline_cache_scheme \<Rightarrow> 'a baseline_cache_scheme res" where
  "use_data_port c data_size outcome events bc =
     (let port_width = m_data_port_width c;
          occupy = (\<lambda>n. bc\<lparr>bc_data_port_occupied_cycles := bc_data_port_occupied_cycles bc + n\<rparr>) in
      case outcome of
        HIT \<Rightarrow> defined (port_width \<noteq> 0)
          (Inr (occupy (data_size div port_width + (if data_size mod port_width > 0 then 1 else 0))))
      | SECTOR_MISS \<Rightarrow> Inr bc
      | RESERVATION_FAIL \<Rightarrow> Inr bc
      | _ \<Rightarrow>
          (let (sent, ev) = was_writeback_sent events (cache_event_of WRITE_BACK_REQUEST_SENT) in
           if sent then defined (port_width \<noteq> 0)
               (Inr (occupy (ev_modified_size (ce_evicted_block ev) div port_width)))
           else Inr bc))"

definition use_fill_port ::
  "cache_config \<Rightarrow> 'a baseline_cache_scheme \<Rightarrow> 'a baseline_cache_scheme res" where
  "use_fill_port c bc = andThen (get_atom_sz c) (\<lambda>atom. defined (m_data_port_width c \<noteq> 0)
     (Inr (bc\<lparr>bc_fill_port_occupied_cycles :=
        bc_fill_port_occupied_cycles bc + atom div m_data_port_width c\<rparr>)))"

definition replenish :: "u32 \<Rightarrow> u32" where
  "replenish n = (if 0 < sint n then n - 1 else n)"

definition replenish_port_bandwidth ::
  "'a baseline_cache_scheme \<Rightarrow> 'a baseline_cache_scheme res" where
  "replenish_port_bandwidth bc =
     (let d = replenish (bc_data_port_occupied_cycles bc);
          f = replenish (bc_fill_port_occupied_cycles bc) in
      check (0 \<le> sint d) (check (0 \<le> sint f)
        (Inr (bc\<lparr>bc_data_port_occupied_cycles := d, bc_fill_port_occupied_cycles := f\<rparr>))))"

definition data_port_free :: "'a baseline_cache_scheme \<Rightarrow> bool" where
  "data_port_free bc \<longleftrightarrow> bc_data_port_occupied_cycles bc = 0"

definition fill_port_free :: "'a baseline_cache_scheme \<Rightarrow> bool" where
  "fill_port_free bc \<longleftrightarrow> bc_fill_port_occupied_cycles bc = 0"

section \<open>Operations\<close>

definition miss_queue_full :: "cache_config \<Rightarrow> nat \<Rightarrow> 'a baseline_cache_scheme \<Rightarrow> bool" where
  "miss_queue_full c num_miss bc \<longleftrightarrow>
     unat (m_miss_queue_size c) \<le> length (bc_miss_queue bc) + num_miss"

definition count_fail :: "mem_fetch \<Rightarrow> cache_reservation_fail_reason \<Rightarrow> 'a baseline_cache_scheme \<Rightarrow>
    'a baseline_cache_scheme res" where
  "count_fail m reason bc = andThen (inc_fail_stats (type_code (get_access_type m)) (fail_code reason)
     (bc_stats bc)) (\<lambda>s. Inr (bc\<lparr>bc_stats := s\<rparr>))"

definition count_outcome :: "mem_fetch \<Rightarrow> cache_request_status \<Rightarrow> cache_request_status \<Rightarrow>
    'a baseline_cache_scheme \<Rightarrow> 'a baseline_cache_scheme res" where
  "count_outcome m probe_st access_st bc =
     (let t = type_code (get_access_type m);
          s = status_code (select_stats_status probe_st access_st) in
      andThen (inc_stats t s (bc_stats bc)) (\<lambda>s1.
      andThen (inc_stats_pw t s s1) (\<lambda>s2. Inr (bc\<lparr>bc_stats := s2\<rparr>))))"

text \<open>\<open>cycle\<close> sends the oldest miss when the port takes it, samples and frees the data ports.\<close>

definition baseline_cycle :: "(u32 \<Rightarrow> bool \<Rightarrow> 'p \<Rightarrow> bool) \<Rightarrow> (mfref \<Rightarrow> 'p \<Rightarrow> 'p) \<Rightarrow> world \<Rightarrow> 'p \<Rightarrow>
    'a baseline_cache_scheme \<Rightarrow> ('p \<times> 'a baseline_cache_scheme) res" where
  "baseline_cycle mem_full mem_push w p bc =
     andThen
       (case bc_miss_queue bc of [] \<Rightarrow> Inr (p, bc)
        | mf # rest \<Rightarrow> andThen (deref mf w) (\<lambda>m.
            Inr (if \<not> mem_full (mf_size m) (is_write m) p
                 then (mem_push mf p, bc\<lparr>bc_miss_queue := rest\<rparr>) else (p, bc))))
       (\<lambda>(p', bc1).
         let bc2 = bc1\<lparr>bc_stats := sample_cache_port_utility (\<not> data_port_free bc1)
                         (\<not> fill_port_free bc1) (bc_stats bc1)\<rparr> in
         andThen (replenish_port_bandwidth bc2) (\<lambda>bc3. Inr (p', bc3)))"

text \<open>The first part of \<open>fill\<close>: with sectored MSHRs the parts of a split request are counted down; only
  the last one goes on, as the original request (\<open>Some\<close>).\<close>

definition fill_join :: "cache_config \<Rightarrow> mfref \<Rightarrow> world \<Rightarrow> 'a baseline_cache_scheme \<Rightarrow>
    (mfref option \<times> world \<times> 'a baseline_cache_scheme) res" where
  "fill_join c mf w bc =
     (if m_mshr_type c = SECTOR_ASSOC then
        andThen (deref mf w) (\<lambda>m.
          case mf_original_mf m of None \<Rightarrow> Inl Assertion
          | Some orig \<Rightarrow>
              (case bc_extra_mf_fields bc orig of None \<Rightarrow> Inl Assertion
               | Some e \<Rightarrow>
                   (let e1 = e\<lparr>ex_pending_read := ex_pending_read e - 1\<rparr>;
                        bc1 = bc\<lparr>bc_extra_mf_fields := (bc_extra_mf_fields bc)(orig \<mapsto> e1)\<rparr> in
                    andThen (delete_mf mf w) (\<lambda>w1.
                      Inr (if ex_pending_read e1 > 0 then None else Some orig, w1, bc1)))))
      else Inr (Some mf, w, bc))"

definition fill_finish :: "cache_config \<Rightarrow> mfref \<Rightarrow> u32 \<Rightarrow> world \<Rightarrow> 'a baseline_cache_scheme \<Rightarrow>
    (world \<times> 'a baseline_cache_scheme) res" where
  "fill_finish c mf time w bc =
     (case bc_extra_mf_fields bc mf of None \<Rightarrow> Inl Assertion
      | Some e \<Rightarrow> check (ex_valid e)
          (andThen (update_mf mf (\<lambda>m. set_addr (ex_addr e) (set_data_size (ex_data_size e) m)) w) (\<lambda>w1.
           andThen (deref mf w1) (\<lambda>m.
           andThen
             (case m_alloc_policy c of
                ON_MISS \<Rightarrow> tag_fill_index c (ex_cache_index e) time m (bc_tag_array bc)
              | ON_FILL \<Rightarrow> andThen (tag_fill_addr c (ex_block_addr e) time (get_access_sector_mask m)
                    (bc_tag_array bc))
                  (\<lambda>ta. Inr (if m_is_streaming c then remove_pending_line c m ta else ta))
              | STREAMING \<Rightarrow> Inl Abort) (\<lambda>ta1.
           andThen (mshr_mark_ready (ex_block_addr e) (bc_mshrs bc)) (\<lambda>(has_atomic, ms).
           andThen
             (if has_atomic then check (m_alloc_policy c = ON_MISS)
                (on_line (ex_cache_index e) (set_status MODIFIED (get_access_sector_mask m)) ta1)
              else Inr ta1) (\<lambda>ta2.
           andThen (use_fill_port c (bc\<lparr>bc_tag_array := ta2, bc_mshrs := ms,
               bc_extra_mf_fields := (bc_extra_mf_fields bc)(mf := None)\<rparr>)) (\<lambda>bc1.
           Inr (w1, bc1)))))))))"

definition baseline_fill :: "cache_config \<Rightarrow> mfref \<Rightarrow> u32 \<Rightarrow> world \<Rightarrow> 'a baseline_cache_scheme \<Rightarrow>
    (world \<times> 'a baseline_cache_scheme) res" where
  "baseline_fill c mf time w bc =
     andThen (fill_join c mf w bc) (\<lambda>(joined, w1, bc1).
       case joined of None \<Rightarrow> Inr (w1, bc1) | Some mf' \<Rightarrow> fill_finish c mf' time w1 bc1)"

definition waiting_for_fill :: "mfref \<Rightarrow> 'a baseline_cache_scheme \<Rightarrow> bool" where
  "waiting_for_fill mf bc \<longleftrightarrow> bc_extra_mf_fields bc mf \<noteq> None"

definition baseline_access_ready :: "'a baseline_cache_scheme \<Rightarrow> bool" where
  "baseline_access_ready bc \<longleftrightarrow> mshr_access_ready (bc_mshrs bc)"

definition baseline_next_access ::
  "'a baseline_cache_scheme \<Rightarrow> (mfref \<times> 'a baseline_cache_scheme) res" where
  "baseline_next_access bc =
     andThen (mshr_next_access (bc_mshrs bc)) (\<lambda>(mf, ms). Inr (mf, bc\<lparr>bc_mshrs := ms\<rparr>))"

definition baseline_flush ::
  "cache_config \<Rightarrow> 'a baseline_cache_scheme \<Rightarrow> 'a baseline_cache_scheme res" where
  "baseline_flush c bc = andThen (tag_flush c (bc_tag_array bc)) (\<lambda>ta. Inr (bc\<lparr>bc_tag_array := ta\<rparr>))"

definition baseline_invalidate ::
  "cache_config \<Rightarrow> 'a baseline_cache_scheme \<Rightarrow> 'a baseline_cache_scheme res" where
  "baseline_invalidate c bc =
     andThen (tag_invalidate c (bc_tag_array bc)) (\<lambda>ta. Inr (bc\<lparr>bc_tag_array := ta\<rparr>))"

definition force_tag_access :: "cache_config \<Rightarrow> u64 \<Rightarrow> u32 \<Rightarrow> sector_mask \<Rightarrow> 'a baseline_cache_scheme \<Rightarrow>
    'a baseline_cache_scheme res" where
  "force_tag_access c addr time msk bc =
     andThen (tag_fill_addr c addr time msk (bc_tag_array bc)) (\<lambda>ta. Inr (bc\<lparr>bc_tag_array := ta\<rparr>))"

text \<open>The tag access of the read-miss handler; \<open>read_only\<close> selects the overload that asserts that no
  write-back arises.\<close>

definition fresh_out :: "u32 \<Rightarrow> access_out" where
  "fresh_out idx = \<lparr>ao_idx = idx, ao_wb = False, ao_evicted = no_evicted_block\<rparr>"

definition read_tag_access :: "cache_config \<Rightarrow> bool \<Rightarrow> u64 \<Rightarrow> u32 \<Rightarrow> u32 \<Rightarrow> mem_fetch \<Rightarrow> tag_array \<Rightarrow>
    (access_out \<times> tag_array) res" where
  "read_tag_access c read_only block_address time cache_index m ta =
     (if read_only
      then andThen (tag_access_no_wb c block_address time cache_index m ta)
             (\<lambda>(st, idx, ta'). Inr (fresh_out idx, ta'))
      else andThen (tag_access c block_address time (fresh_out cache_index) m ta)
             (\<lambda>(st, ao, ta'). Inr (ao, ta')))"

text \<open>The reference results of \<open>send_read_request\<close>.\<close>

record read_out =
  ro_do_miss :: bool
  ro_wb :: bool
  ro_evicted :: evicted_block_info

definition no_miss :: read_out where
  "no_miss = \<lparr>ro_do_miss = False, ro_wb = False, ro_evicted = no_evicted_block\<rparr>"

definition send_read_request :: "cache_config \<Rightarrow> u64 \<Rightarrow> u32 \<Rightarrow> mfref \<Rightarrow> u32 \<Rightarrow> bool \<Rightarrow> bool \<Rightarrow>
    cache_event list \<Rightarrow> world \<Rightarrow> 'a baseline_cache_scheme \<Rightarrow>
    (read_out \<times> cache_event list \<times> world \<times> 'a baseline_cache_scheme) res" where
  "send_read_request c block_address cache_index mf time read_only wa events w bc =
     andThen (deref mf w) (\<lambda>m.
       let ma = mshr_addr c (get_addr m);
           mshr_hit = mshr_probe ma (bc_mshrs bc);
           mshr_avail = (\<not> mshr_full ma (bc_mshrs bc)) in
       if mshr_hit \<and> mshr_avail then
         andThen (read_tag_access c read_only block_address time cache_index m (bc_tag_array bc)) (\<lambda>(ao, ta).
         andThen (mshr_add ma mf (isatomic m) (bc_mshrs bc)) (\<lambda>ms.
           Inr (\<lparr>ro_do_miss = True, ro_wb = ao_wb ao, ro_evicted = ao_evicted ao\<rparr>, events, w,
                bc\<lparr>bc_tag_array := ta, bc_mshrs := ms\<rparr>)))
       else if \<not> mshr_hit \<and> mshr_avail \<and>
               length (bc_miss_queue bc) < unat (m_miss_queue_size c) then
         andThen (read_tag_access c read_only block_address time cache_index m (bc_tag_array bc)) (\<lambda>(ao, ta).
         andThen (mshr_add ma mf (isatomic m) (bc_mshrs bc)) (\<lambda>ms.
         andThen (get_atom_sz c) (\<lambda>atom.
         andThen (update_mf mf (\<lambda>m. mf_set_status (bc_miss_queue_status bc) (ucast time)
             (set_addr ma (set_data_size atom m))) w) (\<lambda>w1.
           let ta1 = (if m_is_streaming c \<and> m_cache_type c = SECTOR then add_pending_line c m ta else ta);
               e = extra_mf_fields_new ma (get_addr m) (ao_idx ao) (mf_data_size m) c in
           Inr (\<lparr>ro_do_miss = True, ro_wb = ao_wb ao, ro_evicted = ao_evicted ao\<rparr>,
                if wa then events else events @ [cache_event_of READ_REQUEST_SENT], w1,
                bc\<lparr>bc_tag_array := ta1, bc_mshrs := ms,
                   bc_extra_mf_fields := (bc_extra_mf_fields bc)(mf \<mapsto> e),
                   bc_miss_queue := bc_miss_queue bc @ [mf]\<rparr>)))))
       else if mshr_hit \<and> \<not> mshr_avail then
         andThen (count_fail m MSHR_MERGE_ENRTY_FAIL bc) (\<lambda>bc1. Inr (no_miss, events, w, bc1))
       else if \<not> mshr_hit \<and> \<not> mshr_avail then
         andThen (count_fail m MSHR_ENRTY_FAIL bc) (\<lambda>bc1. Inr (no_miss, events, w, bc1))
       else Inl Assertion)"

section \<open>The read-only cache\<close>

definition read_only_access :: "cache_config \<Rightarrow> u64 \<Rightarrow> mfref \<Rightarrow> u32 \<Rightarrow> cache_event list \<Rightarrow> world \<Rightarrow>
    'a baseline_cache_scheme \<Rightarrow>
    (cache_request_status \<times> cache_event list \<times> world \<times> 'a baseline_cache_scheme) res" where
  "read_only_access c addr mf time events w bc =
     andThen (deref mf w) (\<lambda>m.
     andThen (get_atom_sz c) (\<lambda>atom.
       check (mf_data_size m \<le> atom) (check (m_write_policy c = READ_ONLY) (check (\<not> is_write m)
       (let ba = block_addr c addr in
        andThen (probe c ba m False (bc_tag_array bc)) (\<lambda>(st, idx).
          let cache_index = (case idx of Some i \<Rightarrow> i | None \<Rightarrow> - 1) in
          andThen
            (if st = HIT then
               andThen (tag_access_no_wb c ba time cache_index m (bc_tag_array bc)) (\<lambda>(st', i, ta).
                 Inr (st', events, w, bc\<lparr>bc_tag_array := ta\<rparr>))
             else if st \<noteq> RESERVATION_FAIL then
               (if \<not> miss_queue_full c 0 bc then
                  andThen (send_read_request c ba cache_index mf time True False events w bc)
                    (\<lambda>(ro, events', w', bc').
                      Inr (if ro_do_miss ro then MISS else RESERVATION_FAIL, events', w', bc'))
                else andThen (count_fail m MISS_QUEUE_FULL bc) (\<lambda>bc'.
                  Inr (RESERVATION_FAIL, events, w, bc')))
             else andThen (count_fail m LINE_ALLOC_FAIL bc) (\<lambda>bc'. Inr (RESERVATION_FAIL, events, w, bc')))
            (\<lambda>(cache_st, events', w', bc').
              andThen (count_outcome m st cache_st bc') (\<lambda>bc''. Inr (cache_st, events', w', bc'')))))))))"

section \<open>Properties\<close>

lemma mshr_new_request:
  assumes "mshr_wf t" and "\<not> mshr_probe a t" and "mshr_add a r atomic t = Inr t'"
  shows "mshr_wf t'" "mshr_pending t' a = [r]" "mt_current_response t' = mt_current_response t"
proof -
  have "\<not> mshr_full a t" using mshr_add_full [OF assms(1), of a r atomic] assms(3) by auto
  from mshr_add_ok [OF assms(1) this, of r atomic] assms(2,3)
  show "mshr_wf t'" "mshr_pending t' a = [r]" "mt_current_response t' = mt_current_response t"
    by (auto simp: mshr_pending_def mshr_entry_at_def mshr_probe_def mshr_entry_new_def)
qed

lemma deref_update_mf: "update_mf r f w = Inr w' \<Longrightarrow> deref r w = Inr m \<Longrightarrow> deref r w' = Inr (f m)"
  by (auto simp: update_mf_def deref_def split: option.splits)

text \<open>What a new read miss leaves behind.\<close>

lemma send_read_new:
  assumes "send_read_request c ba i mf time ro wa events w bc = Inr (r, ev, w1, bc1)"
    and "deref mf w = Inr m" and "\<not> mshr_probe (mshr_addr c (get_addr m)) (bc_mshrs bc)" and "ro_do_miss r"
  shows "\<exists>idx atom ms. get_atom_sz c = Inr atom \<and>
    mshr_add (mshr_addr c (get_addr m)) mf (isatomic m) (bc_mshrs bc) = Inr ms \<and> bc_mshrs bc1 = ms \<and>
    bc_miss_queue bc1 = bc_miss_queue bc @ [mf] \<and>
    bc_extra_mf_fields bc1 = (bc_extra_mf_fields bc)(mf \<mapsto>
      extra_mf_fields_new (mshr_addr c (get_addr m)) (get_addr m) idx (mf_data_size m) c) \<and>
    deref mf w1 = Inr (mf_set_status (bc_miss_queue_status bc) (ucast time)
      (set_addr (mshr_addr c (get_addr m)) (set_data_size atom m)))"
proof -
  let ?ma = "mshr_addr c (get_addr m)"
  have *: "\<not> mshr_full ?ma (bc_mshrs bc) \<and> length (bc_miss_queue bc) < unat (m_miss_queue_size c)"
    using assms by (auto simp: send_read_request_def res_simps Let_def no_miss_def split: if_splits)
  from assms(1-3) * obtain ao :: access_out and ms atom where
    ms: "mshr_add ?ma mf (isatomic m) (bc_mshrs bc) = Inr ms" "get_atom_sz c = Inr atom"
    and w: "update_mf mf (\<lambda>m. mf_set_status (bc_miss_queue_status bc) (ucast time)
        (set_addr ?ma (set_data_size atom m))) w = Inr w1"
    and b: "bc_mshrs bc1 = ms" "bc_miss_queue bc1 = bc_miss_queue bc @ [mf]" "bc_extra_mf_fields bc1 =
      (bc_extra_mf_fields bc)(mf \<mapsto> extra_mf_fields_new ?ma (get_addr m) (ao_idx ao) (mf_data_size m) c)"
    by (auto simp: send_read_request_def res_simps Let_def)
  show ?thesis
    by (rule exI [of _ "ao_idx ao"], rule exI [of _ atom], rule exI [of _ ms])
      (simp add: ms b deref_update_mf [OF w assms(2)])
qed

lemma fill_finish_ok:
  assumes e: "bc_extra_mf_fields bc mf = Some e" "ex_valid e" and m: "deref mf w = Inr m"
    and s: "single (get_access_sector_mask m)" and om: "m_alloc_policy c = ON_MISS"
    and i: "unat (ex_cache_index e) < length (ta_lines (bc_tag_array bc))"
      "block_wf (ta_lines (bc_tag_array bc) ! unat (ex_cache_index e))"
    and t: "mshr_wf (bc_mshrs bc)" "mshr_pending (bc_mshrs bc) (ex_block_addr e) \<noteq> []"
      "ex_block_addr e \<notin> set (mt_current_response (bc_mshrs bc))"
    and p: "get_atom_sz c = Inr atom" "m_data_port_width c \<noteq> 0"
  shows "\<exists>w' bc' t'. fill_finish c mf time w bc = Inr (w', bc') \<and>
    deref mf w' = Inr (set_addr (ex_addr e) (set_data_size (ex_data_size e) m)) \<and>
    mshr_ready_block (ex_block_addr e) (bc_mshrs bc) = Inr t' \<and> bc_mshrs bc' = t' \<and>
    bc_extra_mf_fields bc' = (bc_extra_mf_fields bc)(mf := None)"
proof -
  let ?msk = "get_access_sector_mask m" and ?ls = "ta_lines (bc_tag_array bc)"
  let ?i = "unat (ex_cache_index e)"
  let ?m' = "set_addr (ex_addr e) (set_data_size (ex_data_size e) m)"
  have u: "update_mf mf (\<lambda>m. set_addr (ex_addr e) (set_data_size (ex_data_size e) m)) w =
      Inr (w\<lparr>w_heap := (w_heap w)(mf \<mapsto> ?m')\<rparr>)" (is "_ = Inr ?w")
    using m by (auto simp: update_mf_def deref_def split: option.splits)
  have d: "deref mf ?w = Inr ?m'" by (simp add: deref_def)
  have msk: "get_access_sector_mask ?m' = ?msk"
    by (simp add: get_access_sector_mask_def set_addr_def set_data_size_def)
  obtain b where b: "block_fill time ?msk (?ls ! ?i) = Inr b" "block_wf b"
    using blk.fill_law [OF i(2) s, of time] by blast
  obtain b2 where b2: "set_status MODIFIED ?msk b = Inr b2"
    using blk.set_st_law [OF b(2) s, of MODIFIED] by blast
  obtain at t' where mk: "mshr_mark_ready (ex_block_addr e) (bc_mshrs bc) = Inr (at, t')"
    using mshr.mark_ok [OF t] by (auto simp: mshr_ready_block_def res_simps)
  have f: "tag_fill_index c (ex_cache_index e) time ?m' (bc_tag_array bc) =
      Inr ((bc_tag_array bc)\<lparr>ta_lines := ?ls[?i := b]\<rparr>)"
    using om i(1) b(1) by (simp add: tag_fill_index_def on_line_def get_block_def msk)
  have g: "on_line (ex_cache_index e) (set_status MODIFIED ?msk) ((bc_tag_array bc)\<lparr>ta_lines := ?ls[?i := b]\<rparr>)
      = Inr ((bc_tag_array bc)\<lparr>ta_lines := ?ls[?i := b2]\<rparr>)"
    using i(1) b2 by (simp add: on_line_def get_block_def)
  show ?thesis
    using e om p by (simp add: fill_finish_def u d f mk g msk use_fill_port_def mshr_ready_block_def)
qed

text \<open>C32: the round trip of a read miss in an allocate-on-miss cache with associative MSHRs (\<open>ASSOC\<close>, one
  request for the whole line or sector, not split by sectors).  A new miss is queued with the block address
  and size of the transfer and waits for its fill; when the fill arrives, the request gets its own address
  and size back, no longer waits, and is what \<open>next_access\<close> returns; then nothing is ready.  The last two
  line hypotheses are what \<open>tag_array::access\<close> guarantees.\<close>

theorem miss_fill_roundtrip:
  assumes "send_read_request c ba i mf time ro wa events w bc = Inr (r, ev, w1, bc1)" and "ro_do_miss r"
    and "deref mf w = Inr m" and "single (get_access_sector_mask m)"
    and "\<not> mshr_probe (mshr_addr c (get_addr m)) (bc_mshrs bc)"
    and "mshr_wf (bc_mshrs bc)" and "mt_current_response (bc_mshrs bc) = []"
    and "m_mshr_type c = ASSOC" and "m_alloc_policy c = ON_MISS" and "m_data_port_width c \<noteq> 0"
    and "\<And>e. bc_extra_mf_fields bc1 mf = Some e \<Longrightarrow>
      unat (ex_cache_index e) < length (ta_lines (bc_tag_array bc1)) \<and>
      block_wf (ta_lines (bc_tag_array bc1) ! unat (ex_cache_index e))"
  shows "waiting_for_fill mf bc1 \<and> bc_miss_queue bc1 = bc_miss_queue bc @ [mf] \<and>
    (\<exists>m1. deref mf w1 = Inr m1 \<and> get_addr m1 = mshr_addr c (get_addr m) \<and> get_atom_sz c = Inr (mf_data_size m1)) \<and>
    (\<exists>w2 bc2 m2 bc3. baseline_fill c mf time2 w1 bc1 = Inr (w2, bc2) \<and> \<not> waiting_for_fill mf bc2 \<and>
       deref mf w2 = Inr m2 \<and> get_addr m2 = get_addr m \<and> mf_data_size m2 = mf_data_size m \<and>
       baseline_next_access bc2 = Inr (mf, bc3) \<and> \<not> baseline_access_ready bc3)"
proof -
  let ?ma = "mshr_addr c (get_addr m)"
  obtain idx atom ms where n: "get_atom_sz c = Inr atom"
      "mshr_add ?ma mf (isatomic m) (bc_mshrs bc) = Inr ms" "bc_mshrs bc1 = ms"
      "bc_miss_queue bc1 = bc_miss_queue bc @ [mf]"
      "bc_extra_mf_fields bc1 = (bc_extra_mf_fields bc)(mf \<mapsto>
         extra_mf_fields_new ?ma (get_addr m) idx (mf_data_size m) c)"
      "deref mf w1 = Inr (mf_set_status (bc_miss_queue_status bc) (ucast time)
         (set_addr ?ma (set_data_size atom m)))" (is "_ = Inr ?m1")
    using send_read_new [OF assms(1,3,5,2)] by blast
  let ?e = "extra_mf_fields_new ?ma (get_addr m) idx (mf_data_size m) c"
  note t = mshr_new_request [OF assms(6,5) n(2)]
  have e: "bc_extra_mf_fields bc1 mf = Some ?e" using n(5) by simp
  have fields: "ex_valid ?e" "ex_block_addr ?e = ?ma" "ex_addr ?e = get_addr m" "ex_data_size ?e = mf_data_size m"
    by (simp_all add: extra_mf_fields_new_def)
  have m1: "single (get_access_sector_mask ?m1)" "get_addr ?m1 = ?ma" "mf_data_size ?m1 = atom"
    using assms(4) by (simp_all add: mf_set_status_def set_addr_def set_data_size_def get_addr_def
        get_access_sector_mask_def)
  have "mshr_wf (bc_mshrs bc1)" "mshr_pending (bc_mshrs bc1) (ex_block_addr ?e) \<noteq> []"
    "ex_block_addr ?e \<notin> set (mt_current_response (bc_mshrs bc1))"
    using t n(3) assms(7) fields by simp_all
  from fill_finish_ok [OF e fields(1) n(6) m1(1) assms(9) _ _ this n(1) assms(10), of time2]
  obtain w2 bc2 t' where f: "fill_finish c mf time2 w1 bc1 = Inr (w2, bc2)"
      "deref mf w2 = Inr (set_addr (get_addr m) (set_data_size (mf_data_size m) ?m1))"
      "mshr_ready_block ?ma ms = Inr t'" "bc_mshrs bc2 = t'"
      "bc_extra_mf_fields bc2 = (bc_extra_mf_fields bc1)(mf := None)"
    using assms(11) [OF e] fields n(3) by auto
  from mshr.mark_ok [of ms ?ma] t assms(7) f(3) have
    "mshr_wf t'" "mt_current_response t' = [?ma]" "mshr_pending t' ?ma = [mf]" by auto
  from mshr_next_ok [OF this] obtain t3 where "mshr_next_access t' = Inr (mf, t3)"
    "mt_current_response t3 = []" by auto
  then have nx: "\<exists>bc3. baseline_next_access bc2 = Inr (mf, bc3) \<and> \<not> baseline_access_ready bc3"
    using f(4) by (simp add: baseline_next_access_def baseline_access_ready_def mshr_access_ready_def)
  have "baseline_fill c mf time2 w1 bc1 = Inr (w2, bc2)"
    using f(1) assms(8) by (simp add: baseline_fill_def fill_join_def)
  then show ?thesis using nx f(2,5) n(1,4,6) m1 e
    by (simp add: waiting_for_fill_def get_addr_def set_addr_def set_data_size_def)
qed

text \<open>A concrete cache, and a store that holds the request \<open>0\<close>.\<close>

definition test_world :: "bool \<Rightarrow> world" where
  "test_world wr = \<lparr>w_heap = [0 \<mapsto> test_fetch 0x100 wr], w_next = 1, w_next_mf_request_uid = 2,
     w_next_access_uid = 1, gpu_tot_sim_cycle = 0, gpu_sim_cycle = 0\<rparr>"

definition test_baseline :: baseline_cache where
  "test_baseline = \<lparr>bc_tag_array = small_tags, bc_mshrs = mshr_table_new 4 2, bc_miss_queue = [],
     bc_miss_queue_status = IN_L1D_MISS_QUEUE, bc_extra_mf_fields = Map.empty,
     bc_stats = cache_stats_new, bc_data_port_occupied_cycles = 0, bc_fill_port_occupied_cycles = 0\<rparr>"

theorem miss_fill_roundtrip_witness:
  "\<exists>r ev w1 bc1 w2 bc2 bc3. send_read_request small_config 0x100 0 0 7 False False [] (test_world False)
       test_baseline = Inr (r, ev, w1, bc1) \<and> baseline_fill small_config 0 9 w1 bc1 = Inr (w2, bc2) \<and>
     baseline_next_access bc2 = Inr (0, bc3)"
proof -
  have "(case send_read_request small_config 0x100 0 0 7 False False [] (test_world False) test_baseline of
       Inl e \<Rightarrow> False | Inr (r, ev, w1, bc1) \<Rightarrow> ro_do_miss r \<and>
         (case bc_extra_mf_fields bc1 0 of None \<Rightarrow> False | Some e \<Rightarrow>
           unat (ex_cache_index e) < length (ta_lines (bc_tag_array bc1)) \<and>
           block_wf (ta_lines (bc_tag_array bc1) ! unat (ex_cache_index e))))" by code_simp
  then obtain r ev w1 bc1 where
    a: "send_read_request small_config 0x100 0 0 7 False False [] (test_world False) test_baseline =
         Inr (r, ev, w1, bc1)" "ro_do_miss r"
    and e: "\<And>e. bc_extra_mf_fields bc1 0 = Some e \<Longrightarrow>
      unat (ex_cache_index e) < length (ta_lines (bc_tag_array bc1)) \<and>
      block_wf (ta_lines (bc_tag_array bc1) ! unat (ex_cache_index e))"
    by (auto split: sum.splits option.splits)
  have m: "deref 0 (test_world False) = Inr (test_fetch 0x100 False)"
    by (simp add: deref_def test_world_def)
  have t: "\<not> mshr_probe (mshr_addr small_config (get_addr (test_fetch 0x100 False))) (bc_mshrs test_baseline)"
    "mshr_wf (bc_mshrs test_baseline)" "mt_current_response (bc_mshrs test_baseline) = []"
    by (simp_all add: test_baseline_def mshr_table_new_wf) (simp_all add: mshr_table_new_def mshr_probe_def)
  have c: "m_mshr_type small_config = ASSOC" "m_alloc_policy small_config = ON_MISS"
    "m_data_port_width small_config \<noteq> 0"
    by (simp_all add: small_config_def init_sizes_def blank_config_def)
  from miss_fill_roundtrip [OF a m test_fetch_single t c e, of 9] a(1) show ?thesis by blast
qed

text \<open>\<open>was_writeback_sent\<close> is true for every event list that is not empty, and only the first event
  is looked at: a write-back recorded later is not found.  The \<open>return true\<close> of the loop is outside
  the \<open>if\<close> its indentation puts it in.\<close>

theorem writeback_query_answers_any_event:
  "fst (was_writeback_sent events ev) \<longleftrightarrow> events \<noteq> []"
  by (cases events) simp_all

end
