(* ===== verification/Data_Cache.thy ===== *)
theory Data_Cache
  imports Baseline_Cache
begin

text \<open>
  \<open>data_cache\<close> of \<open>gpu-cache.{h,cc}\<close>, the common implementation of the L1 and L2 data caches: the four
  write-hit and four write-miss policies, the read handlers, and the access function that dispatches
  on the outcome of the tag probe.  The member-function pointers are values of \<open>wr_hit_fn\<close> and
  \<open>wr_miss_fn\<close>; the record extends \<open>baseline_cache\<close> as the class does.

  Shown: whatever the policies, an access keeps the miss queue within its configured size; an access
  that is refused changes no tag, no MSHR and no queue; a write that hits a write-back cache dirties
  exactly its sector and sends nothing.
\<close>

section \<open>State and construction\<close>

datatype wr_hit_fn = wr_hit_wb_fn | wr_hit_wt_fn | wr_hit_we_fn | wr_hit_global_we_local_wb_fn

datatype wr_miss_fn =
    wr_miss_no_wa_fn
  | wr_miss_wa_naive_fn
  | wr_miss_wa_fetch_on_write_fn
  | wr_miss_wa_lazy_fetch_on_read_fn

record data_cache = baseline_cache +
  dc_wr_alloc_type :: mem_access_type
  dc_wrbk_type :: mem_access_type
  dc_memfetch_creator :: mem_fetch_allocator
  dc_wr_hit :: wr_hit_fn
  dc_wr_miss :: wr_miss_fn

fun select_wr_hit :: "write_policy_t \<Rightarrow> wr_hit_fn res" where
  "select_wr_hit READ_ONLY = Inl Assertion"
| "select_wr_hit WRITE_BACK = Inr wr_hit_wb_fn"
| "select_wr_hit WRITE_THROUGH = Inr wr_hit_wt_fn"
| "select_wr_hit WRITE_EVICT = Inr wr_hit_we_fn"
| "select_wr_hit LOCAL_WB_GLOBAL_WT = Inr wr_hit_global_we_local_wb_fn"

fun select_wr_miss :: "write_allocate_policy_t \<Rightarrow> wr_miss_fn" where
  "select_wr_miss NO_WRITE_ALLOCATE = wr_miss_no_wa_fn"
| "select_wr_miss WRITE_ALLOCATE = wr_miss_wa_naive_fn"
| "select_wr_miss FETCH_ON_WRITE = wr_miss_wa_fetch_on_write_fn"
| "select_wr_miss LAZY_FETCH_ON_READ = wr_miss_wa_lazy_fetch_on_read_fn"

definition data_cache_new :: "cache_config \<Rightarrow> int \<Rightarrow> int \<Rightarrow> mem_fetch_allocator \<Rightarrow> mem_fetch_status \<Rightarrow>
    mem_access_type \<Rightarrow> mem_access_type \<Rightarrow> data_cache res" where
  "data_cache_new c core_id type_id mfcreator status wr_alloc_type wrbk_type =
     andThen (baseline_cache_new c core_id type_id status) (\<lambda>bc.
     andThen (select_wr_hit (m_write_policy c)) (\<lambda>wh.
       Inr (baseline_cache.extend bc (data_cache.fields wr_alloc_type wrbk_type mfcreator wh
         (select_wr_miss (m_write_alloc_policy c))))))"

definition l1_cache_new :: "cache_config \<Rightarrow> int \<Rightarrow> int \<Rightarrow> mem_fetch_allocator \<Rightarrow> mem_fetch_status \<Rightarrow>
    data_cache res" where
  "l1_cache_new c core_id type_id mfcreator status =
     data_cache_new c core_id type_id mfcreator status L1_WR_ALLOC_R L1_WRBK_ACC"

definition l2_cache_new :: "cache_config \<Rightarrow> int \<Rightarrow> int \<Rightarrow> mem_fetch_allocator \<Rightarrow> mem_fetch_status \<Rightarrow>
    data_cache res" where
  "l2_cache_new c core_id type_id mfcreator status =
     data_cache_new c core_id type_id mfcreator status L2_WR_ALLOC_R L2_WRBK_ACC"

type_synonym outcome = "cache_request_status \<times> cache_event list \<times> world \<times> data_cache"

definition total_cycle :: "world \<Rightarrow> u64" where
  "total_cycle w = gpu_tot_sim_cycle w + gpu_sim_cycle w"

section \<open>Requests sent below\<close>

definition send_write_request :: "mfref \<Rightarrow> cache_event \<Rightarrow> u32 \<Rightarrow> cache_event list \<Rightarrow> world \<Rightarrow> data_cache \<Rightarrow>
    (cache_event list \<times> world \<times> data_cache) res" where
  "send_write_request mf request time events w dc =
     andThen (update_mf mf (mf_set_status (bc_miss_queue_status dc) (ucast time)) w) (\<lambda>w1.
       Inr (events @ [request], w1, dc\<lparr>bc_miss_queue := bc_miss_queue dc @ [mf]\<rparr>))"

text \<open>The write-back of an evicted block, with the chip and partition of the request that evicts it.\<close>

definition send_write_back :: "mfref \<Rightarrow> evicted_block_info \<Rightarrow> cache_event \<Rightarrow> u32 \<Rightarrow> cache_event list \<Rightarrow>
    world \<Rightarrow> data_cache \<Rightarrow> (cache_event list \<times> world \<times> data_cache) res" where
  "send_write_back mf evicted request time events w dc =
     andThen (mf_alloc (dc_memfetch_creator dc) (ev_block_addr evicted) (dc_wrbk_type dc)
         (ev_modified_size evicted) True (total_cycle w) w) (\<lambda>(wb, w1).
     andThen (deref mf w1) (\<lambda>m.
     andThen (update_mf wb (\<lambda>b. set_parition (ad_sub_partition (mf_raw_addr m))
         (set_chip (ad_chip (mf_raw_addr m)) b)) w1) (\<lambda>w2.
       send_write_request wb request time events w2 dc)))"

definition maybe_write_back :: "cache_config \<Rightarrow> bool \<Rightarrow> mfref \<Rightarrow> evicted_block_info \<Rightarrow> cache_event \<Rightarrow> u32 \<Rightarrow>
    cache_event list \<Rightarrow> world \<Rightarrow> data_cache \<Rightarrow> (cache_event list \<times> world \<times> data_cache) res" where
  "maybe_write_back c wb mf evicted request time events w dc =
     (if wb \<and> m_write_policy c \<noteq> WRITE_THROUGH
      then send_write_back mf evicted request time events w dc else Inr (events, w, dc))"

definition write_back_event :: "evicted_block_info \<Rightarrow> cache_event" where
  "write_back_event evicted = \<lparr>ce_type = WRITE_BACK_REQUEST_SENT, ce_evicted_block = evicted\<rparr>"

text \<open>The read request a write miss generates.\<close>

definition write_allocate_fetch :: "cache_config \<Rightarrow> mem_fetch \<Rightarrow> mfref option \<Rightarrow> world \<Rightarrow> data_cache \<Rightarrow>
    (mfref \<times> world) res" where
  "write_allocate_fetch c m original_wr_mf w dc =
     andThen (get_atom_sz c) (\<lambda>atom.
       let (ma, w1) = mem_access_masked (dc_wr_alloc_type dc) (get_addr m) atom False
             (ma_warp_mask (mf_access m)) (get_access_byte_mask m) (get_access_sector_mask m) w in
       mem_fetch_new ma None (mf_ctrl_size m) (mf_wid m) (mf_sid m) (mf_tpc m) (mf_mem_config m)
         (total_cycle w1) None original_wr_mf w1)"

section \<open>Write hits\<close>

text \<open>\<open>get_block(index)->f\<close> on the cache's tag array.\<close>

definition on_block :: "u32 \<Rightarrow> (cache_block \<Rightarrow> cache_block res) \<Rightarrow> data_cache \<Rightarrow> data_cache res" where
  "on_block idx f dc = andThen (on_line idx f (bc_tag_array dc)) (\<lambda>ta. Inr (dc\<lparr>bc_tag_array := ta\<rparr>))"

definition touch_modified :: "cache_config \<Rightarrow> u64 \<Rightarrow> u32 \<Rightarrow> mem_fetch \<Rightarrow> u32 \<Rightarrow> data_cache \<Rightarrow> data_cache res" where
  "touch_modified c addr cache_index m time dc =
     andThen (tag_access_no_wb c (block_addr c addr) time cache_index m (bc_tag_array dc)) (\<lambda>(st, i, ta).
       on_block i (set_status MODIFIED (get_access_sector_mask m)) (dc\<lparr>bc_tag_array := ta\<rparr>))"

definition wr_hit_wb :: "cache_config \<Rightarrow> u64 \<Rightarrow> u32 \<Rightarrow> mfref \<Rightarrow> u32 \<Rightarrow> cache_event list \<Rightarrow> world \<Rightarrow>
    data_cache \<Rightarrow> outcome res" where
  "wr_hit_wb c addr cache_index mf time events w dc =
     andThen (deref mf w) (\<lambda>m.
     andThen (touch_modified c addr cache_index m time dc) (\<lambda>dc1. Inr (HIT, events, w, dc1)))"

definition refuse :: "mem_fetch \<Rightarrow> cache_reservation_fail_reason \<Rightarrow> cache_event list \<Rightarrow> world \<Rightarrow>
    data_cache \<Rightarrow> outcome res" where
  "refuse m reason events w dc =
     andThen (count_fail m reason dc) (\<lambda>dc1. Inr (RESERVATION_FAIL, events, w, dc1))"

definition wr_hit_wt :: "cache_config \<Rightarrow> u64 \<Rightarrow> u32 \<Rightarrow> mfref \<Rightarrow> u32 \<Rightarrow> cache_event list \<Rightarrow> world \<Rightarrow>
    data_cache \<Rightarrow> outcome res" where
  "wr_hit_wt c addr cache_index mf time events w dc =
     andThen (deref mf w) (\<lambda>m.
       if miss_queue_full c 0 dc then refuse m MISS_QUEUE_FULL events w dc
       else andThen (touch_modified c addr cache_index m time dc) (\<lambda>dc1.
            andThen (send_write_request mf (cache_event_of WRITE_REQUEST_SENT) time events w dc1)
              (\<lambda>(events', w', dc2). Inr (HIT, events', w', dc2))))"

definition wr_hit_we :: "cache_config \<Rightarrow> u64 \<Rightarrow> u32 \<Rightarrow> mfref \<Rightarrow> u32 \<Rightarrow> cache_event list \<Rightarrow> world \<Rightarrow>
    data_cache \<Rightarrow> outcome res" where
  "wr_hit_we c addr cache_index mf time events w dc =
     andThen (deref mf w) (\<lambda>m.
       if miss_queue_full c 0 dc then refuse m MISS_QUEUE_FULL events w dc
       else andThen (send_write_request mf (cache_event_of WRITE_REQUEST_SENT) time events w dc)
              (\<lambda>(events', w', dc1).
                andThen (on_block cache_index (set_status INVALID (get_access_sector_mask m)) dc1)
                  (\<lambda>dc2. Inr (HIT, events', w', dc2))))"

definition wr_hit_global_we_local_wb :: "cache_config \<Rightarrow> u64 \<Rightarrow> u32 \<Rightarrow> mfref \<Rightarrow> u32 \<Rightarrow> cache_event list \<Rightarrow>
    world \<Rightarrow> data_cache \<Rightarrow> outcome res" where
  "wr_hit_global_we_local_wb c addr cache_index mf time events w dc =
     andThen (deref mf w) (\<lambda>m.
       if get_access_type m = GLOBAL_ACC_W then wr_hit_we c addr cache_index mf time events w dc
       else wr_hit_wb c addr cache_index mf time events w dc)"

section \<open>Write misses\<close>

text \<open>The test that the worst case (\<open>k\<close> further requests) can be handled, and the reason counted when
  it cannot.\<close>

definition mshr_usable :: "cache_config \<Rightarrow> u64 \<Rightarrow> data_cache \<Rightarrow> bool" where
  "mshr_usable c ma dc \<longleftrightarrow>
     (let mshr_hit = mshr_probe ma (bc_mshrs dc); mshr_avail = (\<not> mshr_full ma (bc_mshrs dc)) in
      (mshr_hit \<and> mshr_avail) \<or>
      (\<not> mshr_hit \<and> mshr_avail \<and> length (bc_miss_queue dc) < unat (m_miss_queue_size c)))"

definition refuse_alloc :: "cache_config \<Rightarrow> nat \<Rightarrow> u64 \<Rightarrow> mem_fetch \<Rightarrow> cache_event list \<Rightarrow> world \<Rightarrow>
    data_cache \<Rightarrow> outcome res" where
  "refuse_alloc c k ma m events w dc =
     (let mshr_hit = mshr_probe ma (bc_mshrs dc); mshr_avail = (\<not> mshr_full ma (bc_mshrs dc)) in
      if miss_queue_full c k dc then refuse m MISS_QUEUE_FULL events w dc
      else if mshr_hit \<and> \<not> mshr_avail then refuse m MSHR_MERGE_ENRTY_FAIL events w dc
      else if \<not> mshr_hit \<and> \<not> mshr_avail then refuse m MSHR_ENRTY_FAIL events w dc
      else Inl Assertion)"

definition wr_miss_wa_naive :: "cache_config \<Rightarrow> u64 \<Rightarrow> u32 \<Rightarrow> mfref \<Rightarrow> u32 \<Rightarrow> cache_event list \<Rightarrow>
    cache_request_status \<Rightarrow> world \<Rightarrow> data_cache \<Rightarrow> outcome res" where
  "wr_miss_wa_naive c addr cache_index mf time events status w dc =
     andThen (deref mf w) (\<lambda>m.
       let ma = mshr_addr c (get_addr m) in
       if miss_queue_full c 2 dc \<or> \<not> mshr_usable c ma dc then refuse_alloc c 2 ma m events w dc
       else
         andThen (send_write_request mf (cache_event_of WRITE_REQUEST_SENT) time events w dc)
           (\<lambda>(events1, w1, dc1).
         andThen (write_allocate_fetch c m None w1 dc1) (\<lambda>(n_mf, w2).
         andThen (send_read_request c (block_addr c addr) cache_index n_mf time False True events1 w2 dc1)
           (\<lambda>(ro, events2, w3, dc2).
           let events3 = events2 @ [cache_event_of WRITE_ALLOCATE_SENT] in
           if ro_do_miss ro then
             check (ro_wb ro \<and> m_write_policy c \<noteq> WRITE_THROUGH \<longrightarrow> status = MISS)
               (andThen (maybe_write_back c (ro_wb ro) mf (ro_evicted ro)
                   (write_back_event (ro_evicted ro)) time events3 w3 dc2)
                 (\<lambda>(events4, w4, dc3). Inr (MISS, events4, w4, dc3)))
           else Inr (RESERVATION_FAIL, events3, w3, dc2)))))"

text \<open>A write of a whole sector or line: no data has to be fetched.\<close>

definition write_whole :: "cache_config \<Rightarrow> u64 \<Rightarrow> u32 \<Rightarrow> mfref \<Rightarrow> mem_fetch \<Rightarrow> u32 \<Rightarrow>
    (cache_request_status \<Rightarrow> u32 \<Rightarrow> data_cache \<Rightarrow> data_cache res) \<Rightarrow> cache_event list \<Rightarrow> world \<Rightarrow>
    data_cache \<Rightarrow> outcome res" where
  "write_whole c addr cache_index mf m time mark events w dc =
     andThen (tag_access c (block_addr c addr) time (fresh_out cache_index) m (bc_tag_array dc))
       (\<lambda>(st, ao, ta).
         check (st \<noteq> HIT)
         (andThen (on_block (ao_idx ao) (set_status MODIFIED (get_access_sector_mask m))
             (dc\<lparr>bc_tag_array := ta\<rparr>)) (\<lambda>dc1.
          andThen (mark st (ao_idx ao) dc1) (\<lambda>dc2.
            if st \<noteq> RESERVATION_FAIL then
              andThen (maybe_write_back c (ao_wb ao) mf (ao_evicted ao)
                  (write_back_event (ao_evicted ao)) time events w dc2)
                (\<lambda>(events', w', dc3). Inr (MISS, events', w', dc3))
            else Inr (RESERVATION_FAIL, events, w, dc2)))))"

definition mark_fetch_on_write :: "sector_mask \<Rightarrow> cache_request_status \<Rightarrow> u32 \<Rightarrow> data_cache \<Rightarrow> data_cache res" where
  "mark_fetch_on_write msk st idx dc =
     (if st = HIT_RESERVED then on_block idx (set_ignore_on_fill True msk) dc else Inr dc)"

definition mark_lazy_fetch :: "cache_config \<Rightarrow> mem_fetch \<Rightarrow> cache_request_status \<Rightarrow> u32 \<Rightarrow> data_cache \<Rightarrow>
    data_cache res" where
  "mark_lazy_fetch c m st idx dc =
     (let msk = get_access_sector_mask m in
      andThen (if st = HIT_RESERVED
               then andThen (on_block idx (set_ignore_on_fill True msk) dc)
                      (on_block idx (set_modified_on_fill True msk))
               else Inr dc) (\<lambda>dc1.
      andThen (get_atom_sz c) (\<lambda>atom.
        on_block idx (set_m_readable (byte_count (get_access_byte_mask m) = unat atom) msk) dc1)))"

definition wr_miss_wa_fetch_on_write :: "cache_config \<Rightarrow> u64 \<Rightarrow> u32 \<Rightarrow> mfref \<Rightarrow> u32 \<Rightarrow> cache_event list \<Rightarrow>
    world \<Rightarrow> data_cache \<Rightarrow> outcome res" where
  "wr_miss_wa_fetch_on_write c addr cache_index mf time events w dc =
     andThen (deref mf w) (\<lambda>m.
     andThen (get_atom_sz c) (\<lambda>atom.
       let ma = mshr_addr c (get_addr m); msk = get_access_sector_mask m in
       if byte_count (get_access_byte_mask m) = unat atom then
         (if miss_queue_full c 0 dc then refuse m MISS_QUEUE_FULL events w dc
          else write_whole c addr cache_index mf m time (mark_fetch_on_write msk) events w dc)
       else if miss_queue_full c 1 dc \<or> \<not> mshr_usable c ma dc then refuse_alloc c 1 ma m events w dc
       else andThen
         (if mshr_probe ma (bc_mshrs dc)
          then is_read_after_write_pending (\<lambda>r. andThen (deref r w) (\<lambda>x. Inr (is_write x))) ma (bc_mshrs dc)
          else Inr (False, bc_mshrs dc)) (\<lambda>(hazard, ms).
         let dc0 = dc\<lparr>bc_mshrs := ms\<rparr> in
         if hazard \<and> is_write m then refuse m MSHR_RW_PENDING events w dc0
         else
           andThen (write_allocate_fetch c m (Some mf) w dc0) (\<lambda>(n_mf, w1).
           andThen (send_read_request c (block_addr c addr) cache_index n_mf time False True events w1 dc0)
             (\<lambda>(ro, events1, w2, dc1).
           andThen (on_block cache_index (set_modified_on_fill True msk) dc1) (\<lambda>dc2.
             let events2 = events1 @ [cache_event_of WRITE_ALLOCATE_SENT] in
             if ro_do_miss ro then
               andThen (maybe_write_back c (ro_wb ro) mf (ro_evicted ro)
                   (write_back_event (ro_evicted ro)) time events2 w2 dc2)
                 (\<lambda>(events3, w3, dc3). Inr (MISS, events3, w3, dc3))
             else Inr (RESERVATION_FAIL, events2, w2, dc2)))))))"

definition wr_miss_wa_lazy_fetch_on_read :: "cache_config \<Rightarrow> u64 \<Rightarrow> u32 \<Rightarrow> mfref \<Rightarrow> u32 \<Rightarrow>
    cache_event list \<Rightarrow> world \<Rightarrow> data_cache \<Rightarrow> outcome res" where
  "wr_miss_wa_lazy_fetch_on_read c addr cache_index mf time events w dc =
     andThen (deref mf w) (\<lambda>m.
       if miss_queue_full c 0 dc then refuse m MISS_QUEUE_FULL events w dc
       else write_whole c addr cache_index mf m time (mark_lazy_fetch c m) events w dc)"

definition wr_miss_no_wa :: "cache_config \<Rightarrow> u64 \<Rightarrow> u32 \<Rightarrow> mfref \<Rightarrow> u32 \<Rightarrow> cache_event list \<Rightarrow> world \<Rightarrow>
    data_cache \<Rightarrow> outcome res" where
  "wr_miss_no_wa c addr cache_index mf time events w dc =
     andThen (deref mf w) (\<lambda>m.
       if miss_queue_full c 0 dc then refuse m MISS_QUEUE_FULL events w dc
       else andThen (send_write_request mf (cache_event_of WRITE_REQUEST_SENT) time events w dc)
              (\<lambda>(events', w', dc'). Inr (MISS, events', w', dc')))"

section \<open>Reads\<close>

definition rd_hit_base :: "cache_config \<Rightarrow> u64 \<Rightarrow> u32 \<Rightarrow> mfref \<Rightarrow> u32 \<Rightarrow> cache_event list \<Rightarrow> world \<Rightarrow>
    data_cache \<Rightarrow> outcome res" where
  "rd_hit_base c addr cache_index mf time events w dc =
     andThen (deref mf w) (\<lambda>m.
     andThen (tag_access_no_wb c (block_addr c addr) time cache_index m (bc_tag_array dc)) (\<lambda>(st, i, ta).
     andThen (if isatomic m then check (get_access_type m = GLOBAL_ACC_R)
                (on_block i (set_status MODIFIED (get_access_sector_mask m)) (dc\<lparr>bc_tag_array := ta\<rparr>))
              else Inr (dc\<lparr>bc_tag_array := ta\<rparr>)) (\<lambda>dc1. Inr (HIT, events, w, dc1))))"

definition rd_miss_base :: "cache_config \<Rightarrow> u64 \<Rightarrow> u32 \<Rightarrow> mfref \<Rightarrow> u32 \<Rightarrow> cache_event list \<Rightarrow> world \<Rightarrow>
    data_cache \<Rightarrow> outcome res" where
  "rd_miss_base c addr cache_index mf time events w dc =
     andThen (deref mf w) (\<lambda>m.
       if miss_queue_full c 1 dc then refuse m MISS_QUEUE_FULL events w dc
       else andThen (send_read_request c (block_addr c addr) cache_index mf time False False events w dc)
              (\<lambda>(ro, events1, w1, dc1).
                if ro_do_miss ro then
                  andThen (maybe_write_back c (ro_wb ro) mf (ro_evicted ro)
                      (cache_event_of WRITE_BACK_REQUEST_SENT) time events1 w1 dc1)
                    (\<lambda>(events2, w2, dc2). Inr (MISS, events2, w2, dc2))
                else Inr (RESERVATION_FAIL, events1, w1, dc1)))"

section \<open>Dispatch\<close>

fun wr_hit :: "wr_hit_fn \<Rightarrow> cache_config \<Rightarrow> u64 \<Rightarrow> u32 \<Rightarrow> mfref \<Rightarrow> u32 \<Rightarrow> cache_event list \<Rightarrow> world \<Rightarrow>
    data_cache \<Rightarrow> outcome res" where
  "wr_hit wr_hit_wb_fn c addr i mf time events w dc = wr_hit_wb c addr i mf time events w dc"
| "wr_hit wr_hit_wt_fn c addr i mf time events w dc = wr_hit_wt c addr i mf time events w dc"
| "wr_hit wr_hit_we_fn c addr i mf time events w dc = wr_hit_we c addr i mf time events w dc"
| "wr_hit wr_hit_global_we_local_wb_fn c addr i mf time events w dc =
     wr_hit_global_we_local_wb c addr i mf time events w dc"

fun wr_miss :: "wr_miss_fn \<Rightarrow> cache_config \<Rightarrow> u64 \<Rightarrow> u32 \<Rightarrow> mfref \<Rightarrow> u32 \<Rightarrow> cache_event list \<Rightarrow>
    cache_request_status \<Rightarrow> world \<Rightarrow> data_cache \<Rightarrow> outcome res" where
  "wr_miss wr_miss_no_wa_fn c addr i mf time events st w dc = wr_miss_no_wa c addr i mf time events w dc"
| "wr_miss wr_miss_wa_naive_fn c addr i mf time events st w dc =
     wr_miss_wa_naive c addr i mf time events st w dc"
| "wr_miss wr_miss_wa_fetch_on_write_fn c addr i mf time events st w dc =
     wr_miss_wa_fetch_on_write c addr i mf time events w dc"
| "wr_miss wr_miss_wa_lazy_fetch_on_read_fn c addr i mf time events st w dc =
     wr_miss_wa_lazy_fetch_on_read c addr i mf time events w dc"

definition process_tag_probe :: "cache_config \<Rightarrow> bool \<Rightarrow> cache_request_status \<Rightarrow> u64 \<Rightarrow> u32 \<Rightarrow> mfref \<Rightarrow>
    u32 \<Rightarrow> cache_event list \<Rightarrow> world \<Rightarrow> data_cache \<Rightarrow> outcome res" where
  "process_tag_probe c wr probe_status addr cache_index mf time events w dc =
     andThen (deref mf w) (\<lambda>m.
     andThen
       (if wr then
          (if probe_status = HIT then wr_hit (dc_wr_hit dc) c addr cache_index mf time events w dc
           else if probe_status \<noteq> RESERVATION_FAIL \<or> m_write_alloc_policy c = NO_WRITE_ALLOCATE
           then wr_miss (dc_wr_miss dc) c addr cache_index mf time events probe_status w dc
           else andThen (count_fail m LINE_ALLOC_FAIL dc) (\<lambda>dc1. Inr (probe_status, events, w, dc1)))
        else
          (if probe_status = HIT then rd_hit_base c addr cache_index mf time events w dc
           else if probe_status \<noteq> RESERVATION_FAIL then rd_miss_base c addr cache_index mf time events w dc
           else andThen (count_fail m LINE_ALLOC_FAIL dc) (\<lambda>dc1. Inr (probe_status, events, w, dc1))))
       (\<lambda>(access_status, events1, w1, dc1).
         andThen (deref mf w1) (\<lambda>m1.
         andThen (use_data_port c (mf_data_size m1) access_status events1 dc1) (\<lambda>dc2.
           Inr (access_status, events1, w1, dc2)))))"

definition data_access :: "cache_config \<Rightarrow> u64 \<Rightarrow> mfref \<Rightarrow> u32 \<Rightarrow> cache_event list \<Rightarrow> world \<Rightarrow> data_cache \<Rightarrow>
    outcome res" where
  "data_access c addr mf time events w dc =
     andThen (deref mf w) (\<lambda>m.
     andThen (get_atom_sz c) (\<lambda>atom.
       check (mf_data_size m \<le> atom)
       (andThen (probe c (block_addr c addr) m True (bc_tag_array dc)) (\<lambda>(probe_status, idx).
        andThen (process_tag_probe c (is_write m) probe_status addr
            (case idx of Some i \<Rightarrow> i | None \<Rightarrow> - 1) mf time events w dc)
          (\<lambda>(access_status, events1, w1, dc1).
            andThen (count_outcome m probe_status access_status dc1) (\<lambda>dc2.
              Inr (access_status, events1, w1, dc2)))))))"

definition l1_access :: "cache_config \<Rightarrow> u64 \<Rightarrow> mfref \<Rightarrow> u32 \<Rightarrow> cache_event list \<Rightarrow> world \<Rightarrow> data_cache \<Rightarrow>
    outcome res" where
  "l1_access c addr mf time events w dc = data_access c addr mf time events w dc"

definition l2_access :: "cache_config \<Rightarrow> u64 \<Rightarrow> mfref \<Rightarrow> u32 \<Rightarrow> cache_event list \<Rightarrow> world \<Rightarrow> data_cache \<Rightarrow>
    outcome res" where
  "l2_access c addr mf time events w dc = data_access c addr mf time events w dc"

section \<open>The miss queue stays within its size\<close>

abbreviation qlen :: "'a baseline_cache_scheme \<Rightarrow> nat" where
  "qlen dc \<equiv> length (bc_miss_queue dc)"

lemma count_fail_frame:
  "count_fail m reason dc = Inr dc' \<Longrightarrow> dc' = dc\<lparr>bc_stats := bc_stats dc'\<rparr>"
  by (auto simp: count_fail_def res_simps)

lemma count_outcome_frame:
  "count_outcome m a b dc = Inr dc' \<Longrightarrow> dc' = dc\<lparr>bc_stats := bc_stats dc'\<rparr>"
  by (auto simp: count_outcome_def res_simps Let_def)

lemma refuse_frame:
  "refuse m reason events w dc = Inr (st, ev', w', dc') \<Longrightarrow>
     st = RESERVATION_FAIL \<and> ev' = events \<and> w' = w \<and> dc' = dc\<lparr>bc_stats := bc_stats dc'\<rparr>"
  by (auto simp: refuse_def res_simps dest: count_fail_frame)

lemma refuse_alloc_frame:
  "refuse_alloc c k ma m events w dc = Inr (st, ev', w', dc') \<Longrightarrow>
     st = RESERVATION_FAIL \<and> ev' = events \<and> w' = w \<and> dc' = dc\<lparr>bc_stats := bc_stats dc'\<rparr>"
  by (auto simp: refuse_alloc_def Let_def split: if_splits dest: refuse_frame)

lemma on_block_queue: "on_block i f dc = Inr dc' \<Longrightarrow> dc' = dc\<lparr>bc_tag_array := bc_tag_array dc'\<rparr>"
  by (auto simp: on_block_def res_simps)

lemma touch_modified_queue:
  "touch_modified c addr i m time dc = Inr dc' \<Longrightarrow> dc' = dc\<lparr>bc_tag_array := bc_tag_array dc'\<rparr>"
  by (auto simp: touch_modified_def res_simps on_block_def)

lemma send_write_request_queue:
  "send_write_request mf request time events w dc = Inr (ev', w', dc') \<Longrightarrow>
     dc' = dc\<lparr>bc_miss_queue := bc_miss_queue dc @ [mf]\<rparr>"
  by (auto simp: send_write_request_def res_simps)

lemma maybe_write_back_queue:
  "maybe_write_back c wb mf ev request time events w dc = Inr (ev', w', dc') \<Longrightarrow> qlen dc' \<le> qlen dc + 1"
  by (auto simp: maybe_write_back_def send_write_back_def res_simps split: if_splits
      dest!: send_write_request_queue)

lemma send_read_request_queue:
  "send_read_request c ba i mf time ro wa events w dc = Inr (r, ev', w', dc') \<Longrightarrow> qlen dc' \<le> qlen dc + 1"
  by (auto simp: send_read_request_def res_simps Let_def split: if_splits)
    (auto simp: count_fail_def res_simps)

lemma use_data_port_frame:
  "use_data_port c sz st events dc = Inr dc' \<Longrightarrow>
     dc' = dc\<lparr>bc_data_port_occupied_cycles := bc_data_port_occupied_cycles dc'\<rparr>"
  by (cases st) (auto simp: use_data_port_def res_simps Let_def split: if_splits prod.splits)

lemma on_block_qlen: "on_block i f dc = Inr dc' \<Longrightarrow> qlen dc' = qlen dc"
  by (auto simp: on_block_def res_simps)

lemma write_whole_queue:
  assumes "write_whole c addr i mf m time mark events w dc = Inr (st, ev', w', dc')"
    and "\<And>s j d d'. mark s j d = Inr d' \<Longrightarrow> qlen d' = qlen d"
  shows "qlen dc' \<le> qlen dc + 1"
  using assms(1)
  by (auto simp: write_whole_def res_simps split: if_splits
      dest!: on_block_qlen assms(2) maybe_write_back_queue)

lemma mark_qlen:
  "mark_fetch_on_write msk s j d = Inr d' \<Longrightarrow> qlen d' = qlen d"
  "mark_lazy_fetch c m s j d = Inr d' \<Longrightarrow> qlen d' = qlen d"
  by (auto simp: mark_fetch_on_write_def mark_lazy_fetch_def res_simps Let_def split: if_splits
      dest!: on_block_qlen)

lemma count_fail_qlen: "count_fail m reason dc = Inr dc' \<Longrightarrow> qlen dc' = qlen dc"
  by (auto simp: count_fail_def res_simps)

lemma refuse_qlen: "refuse m reason events w dc = Inr (st, ev', w', dc') \<Longrightarrow> qlen dc' = qlen dc"
  by (auto simp: refuse_def res_simps dest!: count_fail_qlen)

lemma refuse_alloc_qlen:
  "refuse_alloc c k ma m events w dc = Inr (st, ev', w', dc') \<Longrightarrow> qlen dc' = qlen dc"
  by (auto simp: refuse_alloc_def Let_def split: if_splits dest: refuse_qlen)

lemma touch_modified_qlen: "touch_modified c addr i m time dc = Inr dc' \<Longrightarrow> qlen dc' = qlen dc"
  by (auto simp: touch_modified_def res_simps dest!: on_block_qlen)

lemma send_write_request_qlen:
  "send_write_request mf request time events w dc = Inr (ev', w', dc') \<Longrightarrow> qlen dc' = qlen dc + 1"
  by (auto dest: send_write_request_queue)

lemma raw_mshrs_qlen: "qlen (dc\<lparr>bc_mshrs := ms\<rparr>) = qlen dc" by simp

lemmas qlen_dests = refuse_qlen refuse_alloc_qlen touch_modified_qlen send_write_request_qlen
  maybe_write_back_queue send_read_request_queue on_block_qlen count_fail_qlen

definition queue_bound :: "cache_config \<Rightarrow> 'a baseline_cache_scheme \<Rightarrow> bool" where
  "queue_bound c dc \<longleftrightarrow> qlen dc \<le> unat (m_miss_queue_size c)"

lemma wr_hit_bound:
  assumes "wr_hit f c addr i mf time events w dc = Inr (st, ev', w', dc')" and "queue_bound c dc"
  shows "queue_bound c dc'"
proof -
  have we: "qlen dc' \<le> unat (m_miss_queue_size c)"
    if "wr_hit_we c addr i mf time events w dc = Inr (st, ev', w', dc')"
    using that assms(2)
    by (auto simp: wr_hit_we_def res_simps miss_queue_full_def queue_bound_def split: if_splits
        dest!: qlen_dests)
  have wb: "qlen dc' \<le> unat (m_miss_queue_size c)"
    if "wr_hit_wb c addr i mf time events w dc = Inr (st, ev', w', dc')"
    using that assms(2) by (auto simp: wr_hit_wb_def res_simps queue_bound_def dest!: qlen_dests)
  show ?thesis
  proof (cases f)
    case wr_hit_wt_fn
    then show ?thesis using assms
      by (auto simp: wr_hit_wt_def res_simps miss_queue_full_def queue_bound_def split: if_splits
          dest!: qlen_dests)
  next
    case wr_hit_global_we_local_wb_fn
    then show ?thesis using assms we wb
      by (auto simp: wr_hit_global_we_local_wb_def res_simps queue_bound_def split: if_splits)
  qed (use assms we wb in \<open>auto simp: queue_bound_def\<close>)
qed

lemma naive_bound:
  assumes "wr_miss_wa_naive c addr i mf time events s w dc = Inr (st, ev', w', dc')" and "queue_bound c dc"
  shows "queue_bound c dc'"
  using assms
  by (auto simp: wr_miss_wa_naive_def res_simps miss_queue_full_def queue_bound_def Let_def
      split: if_splits dest!: qlen_dests)

lemma fetch_on_write_bound:
  assumes "wr_miss_wa_fetch_on_write c addr i mf time events w dc = Inr (st, ev', w', dc')"
    and "queue_bound c dc"
  shows "queue_bound c dc'"
  using assms
  by (auto simp: wr_miss_wa_fetch_on_write_def res_simps miss_queue_full_def queue_bound_def Let_def
      split: if_splits dest!: qlen_dests write_whole_queue [OF _ mark_qlen(1)])

lemma wr_miss_bound:
  assumes "wr_miss f c addr i mf time events s w dc = Inr (st, ev', w', dc')" and "queue_bound c dc"
  shows "queue_bound c dc'"
proof (cases f)
  case wr_miss_no_wa_fn
  then show ?thesis using assms
    by (auto simp: wr_miss_no_wa_def res_simps miss_queue_full_def queue_bound_def split: if_splits
        dest!: qlen_dests)
next
  case wr_miss_wa_lazy_fetch_on_read_fn
  then show ?thesis using assms
    by (auto simp: wr_miss_wa_lazy_fetch_on_read_def res_simps miss_queue_full_def queue_bound_def
        split: if_splits dest!: qlen_dests write_whole_queue [OF _ mark_qlen(2)])
qed (use assms in \<open>auto intro: naive_bound fetch_on_write_bound\<close>)

lemma rd_bound:
  assumes "queue_bound c dc"
  shows "rd_hit_base c addr i mf time events w dc = Inr (st, ev', w', dc') \<Longrightarrow> queue_bound c dc'"
    "rd_miss_base c addr i mf time events w dc = Inr (st, ev', w', dc') \<Longrightarrow> queue_bound c dc'"
  using assms
  by (auto simp: rd_hit_base_def rd_miss_base_def res_simps miss_queue_full_def queue_bound_def
      split: if_splits dest!: qlen_dests)

lemma use_data_port_qlen: "use_data_port c sz st events dc = Inr dc' \<Longrightarrow> qlen dc' = qlen dc"
  by (cases st) (auto simp: use_data_port_def res_simps Let_def split: if_splits prod.splits)

lemma count_outcome_qlen: "count_outcome m a b dc = Inr dc' \<Longrightarrow> qlen dc' = qlen dc"
  by (auto simp: count_outcome_def res_simps Let_def)

lemma process_tag_probe_bound:
  assumes "process_tag_probe c wr ps addr i mf time events w dc = Inr (st, ev', w', dc')"
    and "queue_bound c dc"
  shows "queue_bound c dc'"
proof -
  from assms(1) obtain dc1 where 1: "qlen dc' = qlen dc1" and 2:
    "(\<exists>f. wr_hit f c addr i mf time events w dc = Inr (st, ev', w', dc1)) \<or>
     (\<exists>f. wr_miss f c addr i mf time events ps w dc = Inr (st, ev', w', dc1)) \<or>
     rd_hit_base c addr i mf time events w dc = Inr (st, ev', w', dc1) \<or>
     rd_miss_base c addr i mf time events w dc = Inr (st, ev', w', dc1) \<or> qlen dc1 = qlen dc"
    by (auto simp: process_tag_probe_def res_simps split: if_splits
        dest!: use_data_port_qlen count_fail_qlen)
  from 2 have "queue_bound c dc1"
  proof (elim disjE exE)
    assume "qlen dc1 = qlen dc"
    then show ?thesis using assms(2) by (simp add: queue_bound_def)
  qed (use assms(2) in \<open>blast intro: wr_hit_bound wr_miss_bound rd_bound\<close>)+
  then show ?thesis using 1 by (simp add: queue_bound_def)
qed

text \<open>C30: the miss queue never overflows.  Whatever the write policies and the outcome, an access by a data
  cache that returns leaves at most \<open>m_miss_queue_size\<close> requests in the miss queue if there were no
  more before: the space each handler checks for covers the write, the read and the write-back it may
  send.\<close>

theorem data_access_queue_bound:
  assumes "data_access c addr mf time events w dc = Inr (st, ev', w', dc')" and "queue_bound c dc"
  shows "queue_bound c dc'"
proof -
  from assms(1) obtain m ps i dc1 where
    "process_tag_probe c (is_write m) ps addr i mf time events w dc = Inr (st, ev', w', dc1)"
    "qlen dc' = qlen dc1"
    by (auto simp: data_access_def res_simps dest!: count_outcome_qlen)
  with process_tag_probe_bound [OF this(1) assms(2)] show ?thesis by (simp add: queue_bound_def)
qed

text \<open>A concrete write-back cache.\<close>

definition test_cache :: "wr_hit_fn \<Rightarrow> wr_miss_fn \<Rightarrow> data_cache" where
  "test_cache wh wm = \<lparr>bc_tag_array = small_tags, bc_mshrs = mshr_table_new 4 2, bc_miss_queue = [],
     bc_miss_queue_status = IN_L1D_MISS_QUEUE, bc_extra_mf_fields = Map.empty,
     bc_stats = cache_stats_new, bc_data_port_occupied_cycles = 0, bc_fill_port_occupied_cycles = 0,
     dc_wr_alloc_type = L1_WR_ALLOC_R, dc_wrbk_type = L1_WRBK_ACC,
     dc_memfetch_creator = Core_allocator 0 0 test_mem_config, dc_wr_hit = wh, dc_wr_miss = wm\<rparr>"

theorem data_access_queue_bound_witness:
  "\<exists>ev' w' dc'. data_access small_config 0x100 0 7 [] (test_world True)
       (test_cache wr_hit_wb_fn wr_miss_wa_naive_fn) = Inr (MISS, ev', w', dc') \<and>
     queue_bound small_config dc' \<and> bc_miss_queue dc' = [0, 1]"
proof -
  have "(case data_access small_config 0x100 0 7 [] (test_world True)
       (test_cache wr_hit_wb_fn wr_miss_wa_naive_fn) of Inl e \<Rightarrow> False
     | Inr (st, ev', w', dc') \<Rightarrow> st = MISS \<and> bc_miss_queue dc' = [0, 1])" by code_simp
  then obtain ev' w' dc' where a: "data_access small_config 0x100 0 7 [] (test_world True)
       (test_cache wr_hit_wb_fn wr_miss_wa_naive_fn) = Inr (MISS, ev', w', dc')"
     and "bc_miss_queue dc' = [0, 1]" by (auto split: sum.splits)
  moreover have "queue_bound small_config (test_cache wr_hit_wb_fn wr_miss_wa_naive_fn)"
    by (simp add: queue_bound_def test_cache_def)
  ultimately show ?thesis using data_access_queue_bound [OF a] by blast
qed

section \<open>Refused accesses\<close>

lemma match_way_not_fail: "match_way c msk b = Inr (Some st) \<Longrightarrow> st \<noteq> RESERVATION_FAIL"
proof -
  assume m: "match_way c msk b = Inr (Some st)"
  then obtain s where "get_status msk b = Inr s" by (auto simp: match_way_def res_simps)
  with m show ?thesis
    by (cases s) (auto simp: match_way_def res_simps sector_or_miss_def split: if_splits)
qed

lemma probe_ways_not_fail:
  "probe_ways c ls si t msk ws cs = Inr (Some (st, i), cs') \<Longrightarrow> st \<noteq> RESERVATION_FAIL"
  by (induction ws arbitrary: cs)
    (auto simp: res_simps Let_def split: if_splits option.splits dest: match_way_not_fail)

text \<open>Whether a probe fails does not depend on its mode.\<close>

lemma probe_fail_mode:
  assumes "probe c addr m mode ta = Inr (st, idx)" and "st \<noteq> RESERVATION_FAIL"
    and "probe c addr m mode' ta' = Inr (st', idx')" and "ta_lines ta' = ta_lines ta"
  shows "st' \<noteq> RESERVATION_FAIL"
proof -
  obtain si found cs where
    s: "set_index c addr = Inr si" "probe_ways c (ta_lines ta) si (tag c addr) (get_access_sector_mask m)
      [0..<unat (m_assoc c)] no_candidates = Inr (found, cs)"
    using assms(1) by (auto simp: probe_def probe_mask_def res_simps)
  show ?thesis
  proof (cases found)
    case None
    then have "\<not> all_reserved cs" using assms(1,2) s
      by (auto simp: probe_def probe_mask_def res_simps)
    then show ?thesis using assms(3,4) s None
      by (auto simp: probe_def probe_mask_def res_simps sector_or_miss_def split: if_splits)
  next
    case (Some f)
    then obtain s' i where f: "found = Some (s', i)" by (cases f) auto
    then have "s' \<noteq> RESERVATION_FAIL" using s(2) probe_ways_not_fail by blast
    then show ?thesis using assms(3,4) s f by (auto simp: probe_def probe_mask_def res_simps)
  qed
qed

lemma tag_access_status:
  assumes "tag_access c addr time ao m ta = Inr (st, ao', ta')"
  shows "\<exists>idx. probe c addr m False (ta\<lparr>ta_access := ta_access ta + 1, ta_is_used := True\<rparr>) = Inr (st, idx)"
proof -
  from assms obtain s idx where p: "probe c addr m False
      (ta\<lparr>ta_access := ta_access ta + 1, ta_is_used := True\<rparr>) = Inr (s, idx)"
    by (auto simp: tag_access_def res_simps Let_def)
  with assms have "s = st"
    by (cases s) (auto simp: tag_access_def res_simps Let_def split: if_splits)
  with p show ?thesis by blast
qed

lemma tag_access_not_fail:
  assumes "probe c addr m mode ta = Inr (ps, idx)" and "ps \<noteq> RESERVATION_FAIL"
    and "tag_access c addr time ao m ta = Inr (st, ao', ta')"
  shows "st \<noteq> RESERVATION_FAIL"
proof -
  obtain idx' where p: "probe c addr m False
      (ta\<lparr>ta_access := ta_access ta + 1, ta_is_used := True\<rparr>) = Inr (st, idx')"
    using tag_access_status [OF assms(3)] by blast
  show ?thesis by (rule probe_fail_mode [OF assms(1,2) p]) simp
qed

lemma send_read_no_miss:
  assumes "send_read_request c ba i mf time ro wa events w dc = Inr (r, ev', w', dc')" and "\<not> ro_do_miss r"
  shows "ev' = events \<and> w' = w \<and> dc' = dc\<lparr>bc_stats := bc_stats dc'\<rparr>"
  using assms by (auto simp: send_read_request_def res_simps Let_def split: if_splits dest: count_fail_frame)

lemma send_read_usable:
  assumes "send_read_request c ba i mf time ro wa events w dc = Inr (r, ev', w', dc')"
    and "deref mf w = Inr m" and "mshr_usable c (mshr_addr c (get_addr m)) dc"
  shows "ro_do_miss r"
  using assms by (auto simp: send_read_request_def res_simps Let_def mshr_usable_def split: if_splits)

text \<open>The fetch of a write miss asks for the block of the write.\<close>

lemma write_allocate_fetch_addr:
  assumes "write_allocate_fetch c m o_mf w dc = Inr (n, w')"
  shows "\<exists>m'. deref n w' = Inr m' \<and> get_addr m' = get_addr m"
  using assms by (auto simp: write_allocate_fetch_def mem_access_masked_def mem_fetch_new_def Let_def
      res_simps deref_def get_addr_def)

lemma naive_refused:
  assumes "wr_miss_wa_naive c addr i mf time events s w dc = Inr (RESERVATION_FAIL, ev', w', dc')"
  shows "ev' = events \<and> w' = w \<and> dc' = dc\<lparr>bc_stats := bc_stats dc'\<rparr>"
proof -
  obtain m where m: "deref mf w = Inr m" using assms by (auto simp: wr_miss_wa_naive_def res_simps)
  let ?ma = "mshr_addr c (get_addr m)"
  show ?thesis
  proof (cases "miss_queue_full c 2 dc \<or> \<not> mshr_usable c ?ma dc")
    case True
    then show ?thesis using assms m refuse_alloc_frame [of c 2 ?ma m events w dc]
      by (auto simp: wr_miss_wa_naive_def Let_def)
  next
    case False
    with assms m obtain ev1 w1 dc1 n w2 r ev2 w3 dc2 where
      a: "send_write_request mf (cache_event_of WRITE_REQUEST_SENT) time events w dc = Inr (ev1, w1, dc1)"
        "write_allocate_fetch c m None w1 dc1 = Inr (n, w2)"
        "send_read_request c (block_addr c addr) i n time False True ev1 w2 dc1 = Inr (r, ev2, w3, dc2)"
        "\<not> ro_do_miss r"
      by (auto simp: wr_miss_wa_naive_def Let_def res_simps split: if_splits)
    have "mshr_usable c ?ma dc1"
      using False send_write_request_queue [OF a(1)]
      by (auto simp: mshr_usable_def Let_def miss_queue_full_def)
    then have "ro_do_miss r"
      using send_read_usable [OF a(3)] write_allocate_fetch_addr [OF a(2)] by auto
    with a(4) show ?thesis by simp
  qed
qed

lemma update_present: "map_of al a = Some e \<Longrightarrow> AList.update a e al = al"
  by (induction al) auto

lemma raw_pending_same:
  assumes "mshr_probe a t" and "is_read_after_write_pending wr a t = Inr (b, t')"
  shows "t' = t"
proof -
  obtain e where e: "map_of (mt_data t) a = Some e" using assms(1) by (auto simp: mshr_probe_def)
  then have "t' = t\<lparr>mt_data := AList.update a e (mt_data t)\<rparr>" using assms(2)
    by (auto simp: is_read_after_write_pending_def res_simps Let_def mshr_put_def mshr_entry_at_def)
  then show ?thesis using update_present [OF e] by simp
qed

lemma write_whole_refused:
  assumes "write_whole c addr i mf m time mark events w dc = Inr (RESERVATION_FAIL, ev', w', dc')"
    and "probe c (block_addr c addr) m mode (bc_tag_array dc) = Inr (ps, idx)" and "ps \<noteq> RESERVATION_FAIL"
  shows False
proof -
  from assms(1) obtain ao ta where
    "tag_access c (block_addr c addr) time (fresh_out i) m (bc_tag_array dc) = Inr (RESERVATION_FAIL, ao, ta)"
    by (auto simp: write_whole_def res_simps split: if_splits)
  from tag_access_not_fail [OF assms(2,3) this] show False by simp
qed

lemma fetch_on_write_refused:
  assumes "wr_miss_wa_fetch_on_write c addr i mf time events w dc = Inr (RESERVATION_FAIL, ev', w', dc')"
    and m: "deref mf w = Inr m"
    and "probe c (block_addr c addr) m mode (bc_tag_array dc) = Inr (ps, idx)" and "ps \<noteq> RESERVATION_FAIL"
  shows "ev' = events \<and> w' = w \<and> dc' = dc\<lparr>bc_stats := bc_stats dc'\<rparr>"
proof -
  obtain atom where atom: "get_atom_sz c = Inr atom"
    using assms(1) m by (auto simp: wr_miss_wa_fetch_on_write_def res_simps)
  let ?ma = "mshr_addr c (get_addr m)" and ?msk = "get_access_sector_mask m"
  show ?thesis
  proof (cases "byte_count (get_access_byte_mask m) = unat atom")
    case True
    have nf: "write_whole c addr i mf m time mark events w dc \<noteq> Inr (RESERVATION_FAIL, ev', w', dc')" for mark
      using write_whole_refused [OF _ assms(3,4)] by blast
    show ?thesis using assms(1) m atom True nf
      by (auto simp: wr_miss_wa_fetch_on_write_def split: if_splits dest: refuse_frame)
  next
    case part: False
    show ?thesis
    proof (cases "miss_queue_full c 1 dc \<or> \<not> mshr_usable c ?ma dc")
      case True
      then show ?thesis using assms(1) m atom part refuse_alloc_frame [of c 1 ?ma m events w dc]
        by (auto simp: wr_miss_wa_fetch_on_write_def Let_def)
    next
      case False
      let ?wr = "\<lambda>r. andThen (deref r w) (\<lambda>x. Inr (is_write x))"
      from assms(1) m atom part False obtain hz ms where
        h: "(if mshr_probe ?ma (bc_mshrs dc) then is_read_after_write_pending ?wr ?ma (bc_mshrs dc)
             else Inr (False, bc_mshrs dc)) = Inr (hz, ms)"
        by (auto simp: wr_miss_wa_fetch_on_write_def Let_def res_simps)
      then have ms: "dc\<lparr>bc_mshrs := ms\<rparr> = dc"
        using raw_pending_same [of ?ma "bc_mshrs dc" ?wr hz ms] by (auto split: if_splits)
      show ?thesis
      proof (cases "hz \<and> is_write m")
        case True
        then show ?thesis using assms(1) m atom part False h ms
          by (auto simp: wr_miss_wa_fetch_on_write_def Let_def dest: refuse_frame)
      next
        case nh: False
        with assms(1) m atom part False h ms obtain n w1 r ev1 w2 dc1 where
          a: "write_allocate_fetch c m (Some mf) w dc = Inr (n, w1)"
            "send_read_request c (block_addr c addr) i n time False True events w1 dc = Inr (r, ev1, w2, dc1)"
            "\<not> ro_do_miss r"
          by (auto simp: wr_miss_wa_fetch_on_write_def Let_def res_simps split: if_splits)
        have "ro_do_miss r"
          using send_read_usable [OF a(2)] write_allocate_fetch_addr [OF a(1)] False by auto
        with a(3) show ?thesis by simp
      qed
    qed
  qed
qed

lemma lazy_refused:
  assumes "wr_miss_wa_lazy_fetch_on_read c addr i mf time events w dc = Inr (RESERVATION_FAIL, ev', w', dc')"
    and m: "deref mf w = Inr m"
    and "probe c (block_addr c addr) m mode (bc_tag_array dc) = Inr (ps, idx)" and "ps \<noteq> RESERVATION_FAIL"
  shows "ev' = events \<and> w' = w \<and> dc' = dc\<lparr>bc_stats := bc_stats dc'\<rparr>"
proof -
  have nf: "write_whole c addr i mf m time mark events w dc \<noteq> Inr (RESERVATION_FAIL, ev', w', dc')" for mark
    using write_whole_refused [OF _ assms(3,4)] by blast
  show ?thesis using assms(1) m nf
    by (auto simp: wr_miss_wa_lazy_fetch_on_read_def split: if_splits dest: refuse_frame)
qed

lemma no_wa_refused:
  assumes "wr_miss_no_wa c addr i mf time events w dc = Inr (RESERVATION_FAIL, ev', w', dc')"
  shows "ev' = events \<and> w' = w \<and> dc' = dc\<lparr>bc_stats := bc_stats dc'\<rparr>"
  using assms by (auto simp: wr_miss_no_wa_def res_simps split: if_splits dest: refuse_frame)

lemma wr_hit_refused:
  assumes "wr_hit f c addr i mf time events w dc = Inr (RESERVATION_FAIL, ev', w', dc')"
  shows "ev' = events \<and> w' = w \<and> dc' = dc\<lparr>bc_stats := bc_stats dc'\<rparr>"
  using assms
  by (cases f) (auto simp: wr_hit_wb_def wr_hit_wt_def wr_hit_we_def wr_hit_global_we_local_wb_def res_simps
      split: if_splits dest: refuse_frame)

lemma rd_refused:
  "rd_hit_base c addr i mf time events w dc \<noteq> Inr (RESERVATION_FAIL, ev', w', dc')"
  "rd_miss_base c addr i mf time events w dc = Inr (RESERVATION_FAIL, ev', w', dc') \<Longrightarrow>
     ev' = events \<and> w' = w \<and> dc' = dc\<lparr>bc_stats := bc_stats dc'\<rparr>"
  by (auto simp: rd_hit_base_def rd_miss_base_def res_simps split: if_splits
      dest: refuse_frame send_read_no_miss)

lemma wr_miss_refused:
  assumes "wr_miss (select_wr_miss p) c addr i mf time events ps w dc = Inr (RESERVATION_FAIL, ev', w', dc')"
    and "deref mf w = Inr m"
    and "probe c (block_addr c addr) m mode (bc_tag_array dc) = Inr (ps, idx)"
    and "ps \<noteq> RESERVATION_FAIL \<or> p = NO_WRITE_ALLOCATE"
  shows "ev' = events \<and> w' = w \<and> dc' = dc\<lparr>bc_stats := bc_stats dc'\<rparr>"
proof (cases p)
  case NO_WRITE_ALLOCATE
  then show ?thesis using assms(1) no_wa_refused by simp
next
  case WRITE_ALLOCATE
  then show ?thesis using assms(1) naive_refused by simp
next
  case FETCH_ON_WRITE
  then show ?thesis using assms fetch_on_write_refused [OF _ assms(2,3)] by simp
next
  case LAZY_FETCH_ON_READ
  then show ?thesis using assms lazy_refused [OF _ assms(2,3)] by simp
qed

lemma refused_port: "use_data_port c sz RESERVATION_FAIL events dc = Inr dc"
  by (simp add: use_data_port_def)

lemma process_refused:
  assumes "process_tag_probe c wr ps addr i mf time events w dc = Inr (RESERVATION_FAIL, ev', w', dc')"
    and "deref mf w = Inr m"
    and "probe c (block_addr c addr) m mode (bc_tag_array dc) = Inr (ps, idx)"
    and "dc_wr_miss dc = select_wr_miss (m_write_alloc_policy c)"
  shows "ev' = events \<and> w' = w \<and> dc' = dc\<lparr>bc_stats := bc_stats dc'\<rparr>"
  using assms
  by (auto simp: process_tag_probe_def res_simps refused_port rd_refused(1) split: if_splits
      dest: wr_hit_refused wr_miss_refused [OF _ assms(2,3)] rd_refused(2) count_fail_frame)

lemma stats_frame_trans:
  "d1 = d\<lparr>bc_stats := s1\<rparr> \<Longrightarrow> d2 = d1\<lparr>bc_stats := s2\<rparr> \<Longrightarrow> d2 = d\<lparr>bc_stats := bc_stats d2\<rparr>"
  for d :: data_cache
  by simp

lemma refused_access_frame:
  assumes "data_access c addr mf time events w dc = Inr (RESERVATION_FAIL, ev', w', dc')"
    and "dc_wr_miss dc = select_wr_miss (m_write_alloc_policy c)"
  shows "ev' = events \<and> w' = w \<and> dc' = dc\<lparr>bc_stats := bc_stats dc'\<rparr>"
proof -
  from assms(1) obtain m ps idx i dc1 where
    m: "deref mf w = Inr m"
    and p: "probe c (block_addr c addr) m True (bc_tag_array dc) = Inr (ps, idx)"
    and r: "process_tag_probe c (is_write m) ps addr i mf time events w dc = Inr (RESERVATION_FAIL, ev', w', dc1)"
    and o: "count_outcome m ps RESERVATION_FAIL dc1 = Inr dc'"
    by (auto simp: data_access_def res_simps)
  have "dc1 = dc\<lparr>bc_stats := bc_stats dc1\<rparr>" "ev' = events" "w' = w"
    using process_refused [OF r m p assms(2)] by auto
  then show ?thesis using stats_frame_trans [OF _ count_outcome_frame [OF o]] by blast
qed

text \<open>An access is a hit only on a line that is present, and then it asks for no data.\<close>

lemma wr_hit_no_read:
  assumes "wr_hit f c addr i mf time [] w dc = Inr (HIT, ev', w', dc')"
  shows "\<not> was_read_sent ev'"
  using assms
  by (cases f) (auto simp: wr_hit_wb_def wr_hit_wt_def wr_hit_we_def wr_hit_global_we_local_wb_def refuse_def
      send_write_request_def res_simps cache_event_of_def split: if_splits)

lemma rd_hit_no_read: "rd_hit_base c addr i mf time [] w dc = Inr (HIT, ev', w', dc') \<Longrightarrow> \<not> was_read_sent ev'"
  by (auto simp: rd_hit_base_def res_simps split: if_splits)

lemma miss_no_hit:
  "wr_miss f c addr i mf time events st w dc = Inr (HIT, ev', w', dc') \<Longrightarrow> False"
  "rd_miss_base c addr i mf time events w dc = Inr (HIT, ev', w', dc') \<Longrightarrow> False"
proof -
  have refuse: "refuse m reason events w dc \<noteq> Inr (HIT, ev', w', dc')" for m reason events w dc
    by (auto simp: refuse_def res_simps)
  then have alloc: "refuse_alloc c k ma m events w dc \<noteq> Inr (HIT, ev', w', dc')" for k ma m events w dc
    by (auto simp: refuse_alloc_def Let_def)
  have whole: "write_whole c addr i mf m time mark events w dc \<noteq> Inr (HIT, ev', w', dc')" for m mark
    by (auto simp: write_whole_def res_simps split: if_splits)
  show "wr_miss f c addr i mf time events st w dc = Inr (HIT, ev', w', dc') \<Longrightarrow> False"
    using refuse alloc whole
    by (cases f) (auto simp: wr_miss_no_wa_def wr_miss_wa_naive_def wr_miss_wa_fetch_on_write_def
        wr_miss_wa_lazy_fetch_on_read_def Let_def res_simps split: if_splits)
  show "rd_miss_base c addr i mf time events w dc = Inr (HIT, ev', w', dc') \<Longrightarrow> False"
    using refuse by (auto simp: rd_miss_base_def res_simps split: if_splits)
qed

lemma process_hit_no_read:
  assumes "process_tag_probe c wr ps addr i mf time [] w dc = Inr (HIT, ev', w', dc')"
  shows "\<not> was_read_sent ev'"
  using assms
  by (auto simp: process_tag_probe_def res_simps split: if_splits dest: wr_hit_no_read rd_hit_no_read miss_no_hit)

lemma hit_sends_no_read:
  assumes "data_access c addr mf time [] w dc = Inr (HIT, ev', w', dc')"
  shows "\<not> was_read_sent ev'"
  using assms by (auto simp: data_access_def res_simps dest: process_hit_no_read)

text \<open>C31: a refused access has no effect.  When a data cache answers \<open>RESERVATION_FAIL\<close>, whichever write
  policies it was built with, nothing but the statistics has changed: no tag, timestamp or reservation,
  no MSHR, no queued request, no event and no request in memory.  The requester can retry later as if
  it had not tried.\<close>

theorem refused_access_changes_nothing:
  assumes "data_access c addr mf time events w dc = Inr (RESERVATION_FAIL, ev', w', dc')"
    and "dc_wr_miss dc = select_wr_miss (m_write_alloc_policy c)"
  shows "ev' = events \<and> w' = w \<and> dc' = dc\<lparr>bc_stats := bc_stats dc'\<rparr>"
  using assms by (rule refused_access_frame)

theorem refused_access_changes_nothing_witness:
  "\<exists>dc'. data_access (small_config\<lparr>m_write_alloc_policy := WRITE_ALLOCATE\<rparr>) 0x100 0 7 [] (test_world True)
       (test_cache wr_hit_wb_fn wr_miss_wa_naive_fn\<lparr>bc_miss_queue := [5, 6]\<rparr>) =
       Inr (RESERVATION_FAIL, [], test_world True, dc') \<and> bc_miss_queue dc' = [5, 6]"
proof -
  let ?d = "test_cache wr_hit_wb_fn wr_miss_wa_naive_fn\<lparr>bc_miss_queue := [5, 6]\<rparr>"
  have "(case data_access (small_config\<lparr>m_write_alloc_policy := WRITE_ALLOCATE\<rparr>) 0x100 0 7 [] (test_world True) ?d of Inl e \<Rightarrow> False
     | Inr (st, ev', w', dc') \<Rightarrow> st = RESERVATION_FAIL)" by code_simp
  then obtain ev' w' dc' where
    a: "data_access (small_config\<lparr>m_write_alloc_policy := WRITE_ALLOCATE\<rparr>) 0x100 0 7 [] (test_world True) ?d = Inr (RESERVATION_FAIL, ev', w', dc')"
    by (auto split: sum.splits)
  moreover have "dc_wr_miss ?d = select_wr_miss (m_write_alloc_policy (small_config\<lparr>m_write_alloc_policy := WRITE_ALLOCATE\<rparr>))"
    by (simp add: test_cache_def small_config_def init_sizes_def blank_config_def)
  note r = refused_access_changes_nothing [OF a this]
  from r have "ev' = []" "w' = test_world True" by blast+
  moreover from r have "dc' = ?d\<lparr>bc_stats := bc_stats dc'\<rparr>" by blast
  from arg_cong [OF this, of bc_miss_queue] have "bc_miss_queue dc' = [5, 6]" by simp
  ultimately show ?thesis by blast
qed

section \<open>A write hit in a write-back cache\<close>

lemma probe_found:
  "probe c addr m mode ta = Inr (HIT, idx) \<Longrightarrow> ta_lines ta' = ta_lines ta \<Longrightarrow>
     probe c addr m mode' ta' = Inr (HIT, idx)"
  by (auto simp: probe_def probe_mask_def res_simps sector_or_miss_def split: option.splits if_splits)

lemma set_last_access_time_frame:
  "set_last_access_time t msk b = Inr b' \<Longrightarrow> (\<forall>j. block_state j b' = block_state j b) \<and>
     block_tag b' = block_tag b \<and> block_covers b' = block_covers b \<and> block_wf b' = block_wf b"
  by (cases b) (auto simp: res_simps intro!: ext)

lemma set_status_frame:
  "set_status st msk b = Inr b' \<Longrightarrow> block_wf b \<Longrightarrow> block_tag b' = block_tag b \<and>
     (\<forall>j < 4. block_state j b' = (if block_covers b msk j then st else block_state j b))"
  by (cases b) (auto simp: res_simps nth_list_update sidx_mem)

lemma on_line_eq:
  "on_line i f ta = Inr ta' \<longleftrightarrow> unat i < length (ta_lines ta) \<and>
     (\<exists>b'. f (ta_lines ta ! unat i) = Inr b' \<and> ta' = ta\<lparr>ta_lines := (ta_lines ta)[unat i := b']\<rparr>)"
  by (auto simp: on_line_def get_block_def res_simps)

lemma touch_modified_hit:
  assumes "touch_modified c addr i0 m time dc = Inr dc'" and "ta_lines (bc_tag_array dc) = ls"
    and "probe c (block_addr c addr) m True (bc_tag_array dc) = Inr (HIT, Some i)" and "block_wf (ls ! unat i)"
  shows "\<exists>b'. ta_lines (bc_tag_array dc') = ls[unat i := b'] \<and> unat i < length ls \<and>
     block_tag b' = block_tag (ls ! unat i) \<and> (\<forall>j < 4. block_state j b' =
       (if block_covers (ls ! unat i) (get_access_sector_mask m) j then MODIFIED
        else block_state j (ls ! unat i)))"
proof -
  let ?msk = "get_access_sector_mask m" and ?b = "ls ! unat i"
  let ?ta0 = "(bc_tag_array dc)\<lparr>ta_access := ta_access (bc_tag_array dc) + 1, ta_is_used := True\<rparr>"
  have p: "probe c (block_addr c addr) m False ?ta0 = Inr (HIT, Some i)"
    by (rule probe_found [OF assms(3)]) simp
  obtain b1 b2 where b: "unat i < length ls" "set_last_access_time (ucast time) ?msk ?b = Inr b1"
      "set_status MODIFIED ?msk b1 = Inr b2" "ta_lines (bc_tag_array dc') = ls[unat i := b2]"
    using assms(1,2) p
    by (auto simp: touch_modified_def tag_access_no_wb_def tag_access_def Let_def res_simps on_block_def
        on_line_eq)
  note f1 = set_last_access_time_frame [OF b(2)]
  then have "block_wf b1" using assms(4) by blast
  from set_status_frame [OF b(3) this] f1 b(1,4) show ?thesis by auto
qed

text \<open>A write that hits a write-back cache stays in the cache.  If the probe finds the block, the access
  answers \<open>HIT\<close>, marks the written sector (the whole line in a line cache) \<open>MODIFIED\<close>, leaves every
  other sector and every other line as it was, and sends nothing: the events, the requests in memory,
  the miss queue, the MSHRs and the bookkeeping of pending fills are unchanged.\<close>

theorem write_hit_dirties_its_sector:
  assumes "data_access c addr mf time events w dc = Inr (st, ev', w', dc')"
    and "deref mf w = Inr m" and "is_write m" and "dc_wr_hit dc = wr_hit_wb_fn"
    and "probe c (block_addr c addr) m True (bc_tag_array dc) = Inr (HIT, Some i)"
    and "block_wf (ta_lines (bc_tag_array dc) ! unat i)"
  shows "st = HIT \<and> ev' = events \<and> w' = w \<and> bc_miss_queue dc' = bc_miss_queue dc \<and>
    bc_mshrs dc' = bc_mshrs dc \<and> bc_extra_mf_fields dc' = bc_extra_mf_fields dc \<and>
    (let b = ta_lines (bc_tag_array dc) ! unat i in
     \<exists>b'. ta_lines (bc_tag_array dc') = (ta_lines (bc_tag_array dc))[unat i := b'] \<and>
       unat i < length (ta_lines (bc_tag_array dc)) \<and> block_tag b' = block_tag b \<and>
       (\<forall>j < 4. block_state j b' =
          (if block_covers b (get_access_sector_mask m) j then MODIFIED else block_state j b)))"
proof -
  from assms(1-5) obtain dc1 dc2 where
    t: "touch_modified c addr i m time dc = Inr dc1"
    and u: "use_data_port c (mf_data_size m) HIT events dc1 = Inr dc2"
    and o: "count_outcome m HIT HIT dc2 = Inr dc'" and st: "st = HIT" "ev' = events" "w' = w"
    by (auto simp: data_access_def process_tag_probe_def wr_hit_wb_def res_simps)
  have same: "bc_tag_array dc' = bc_tag_array dc1" "bc_miss_queue dc' = bc_miss_queue dc1"
    "bc_mshrs dc' = bc_mshrs dc1" "bc_extra_mf_fields dc' = bc_extra_mf_fields dc1"
    using arg_cong [OF use_data_port_frame [OF u], of bc_tag_array]
      arg_cong [OF use_data_port_frame [OF u], of bc_miss_queue]
      arg_cong [OF use_data_port_frame [OF u], of bc_mshrs]
      arg_cong [OF use_data_port_frame [OF u], of bc_extra_mf_fields]
      arg_cong [OF count_outcome_frame [OF o], of bc_tag_array]
      arg_cong [OF count_outcome_frame [OF o], of bc_miss_queue]
      arg_cong [OF count_outcome_frame [OF o], of bc_mshrs]
      arg_cong [OF count_outcome_frame [OF o], of bc_extra_mf_fields] by simp_all
  have rest: "bc_miss_queue dc1 = bc_miss_queue dc" "bc_mshrs dc1 = bc_mshrs dc"
    "bc_extra_mf_fields dc1 = bc_extra_mf_fields dc"
    using arg_cong [OF touch_modified_queue [OF t], of bc_miss_queue]
      arg_cong [OF touch_modified_queue [OF t], of bc_mshrs]
      arg_cong [OF touch_modified_queue [OF t], of bc_extra_mf_fields] by simp_all
  show ?thesis
    using touch_modified_hit [OF t refl assms(5,6)] by (simp add: Let_def st same rest)
qed

definition test_block :: line_cache_block where
  "test_block = line_cache_block_new\<lparr>m_tag := 0x100, m_block_addr := 0x100, lb_status := VALID\<rparr>"

definition warm_cache :: data_cache where
  "warm_cache = (test_cache wr_hit_wb_fn wr_miss_wa_naive_fn)\<lparr>bc_tag_array := small_tags\<lparr>ta_lines :=
     (ta_lines small_tags)[1 := Line test_block]\<rparr>\<rparr>"

end
