(* ===== verification/Sub_Partition.thy ===== *)
theory Sub_Partition
  imports Delay_Queue Data_Cache "HOL-Library.Multiset"
begin

text \<open>
  \<open>memory_sub_partition\<close> of \<open>gpgpu-sim/l2cache.{h,cc}\<close>: an L2 bank between the interconnect and the DRAM of its
  partition.  Requests arrive through the ROP delay queue (textures directly) in the queue to the L2; the L2 sends
  its misses to the DRAM queue through \<open>L2interface\<close>; replies of the DRAM fill the L2 or go on to the
  interconnect.  The queues are \<open>fifo_pipeline\<close>s, the bank is a \<open>data_cache\<close>, and requests live in the \<open>world\<close>.
  The four lengths that \<open>sscanf\<close> reads from \<open>gpgpu_L2_queue_config\<close> are fields of the configuration.  The calls
  into the functional simulator (\<open>do_atomic\<close>) and the latency statistics are left out.

  Shown: how a request is split into sectors, and what the parts lose; without an L2 nothing fails, requests reach
  the DRAM and replies the interconnect in order, and the tracker is exact; a cycle follows the answer of the L2;
  the ROP queue stops when the cycle counter passes 32 bits.
\<close>

section \<open>Model\<close>

record partition_config =
  pc_L2_config :: cache_config
  pc_L2_texure_only :: bool
  pc_rop_latency :: u32
  pc_n_mem_sub_partition :: u32
  pc_icnt_L2 :: u32
  pc_L2_dram :: u32
  pc_dram_L2 :: u32
  pc_L2_icnt :: u32
  pc_mem_config :: memory_config

record rop_delay_t =
  rd_ready_cycle :: u64
  rd_req :: mfref

record memory_sub_partition =
  sp_L2cache :: "data_cache option"
  sp_rop :: "rop_delay_t list"
  sp_icnt_L2_queue :: "mfref fifo_pipeline"
  sp_L2_dram_queue :: "mfref fifo_pipeline"
  sp_dram_L2_queue :: "mfref fifo_pipeline"
  sp_L2_icnt_queue :: "mfref fifo_pipeline"
  sp_L2_similarity_queue :: "mfref fifo_pipeline"
  sp_request_tracker :: "mfref set"
  sp_memcpy_cycle_offset :: u32


text \<open>\<open>m_L2cache\<close> is not set when the L2 is disabled.\<close>

definition with_L2 :: "memory_sub_partition \<Rightarrow> (data_cache \<Rightarrow> 'a res) \<Rightarrow> 'a res" where
  "with_L2 s k = (case sp_L2cache s of None \<Rightarrow> Inl Undefined | Some dc \<Rightarrow> k dc)"

text \<open>\<open>mf->set_status(status, cycle)\<close> and \<open>mf->set_reply()\<close> through a pointer.\<close>

definition status_at :: "mem_fetch_status \<Rightarrow> mfref \<Rightarrow> world \<Rightarrow> world res" where
  "status_at status mf w = update_mf mf (mf_set_status status (total_cycle w)) w"

definition reply_at :: "mfref \<Rightarrow> world \<Rightarrow> world res" where
  "reply_at mf w = andThen (deref mf w) (\<lambda>m. andThen (set_reply m) (\<lambda>m'. update_mf mf (\<lambda>_. m') w))"

type_synonym partition_state = "memory_sub_partition \<times> world"

definition push_L2_icnt :: "mfref \<Rightarrow> partition_state \<Rightarrow> partition_state res" where
  "push_L2_icnt mf st = andThen (push (Some mf) (sp_L2_icnt_queue (fst st))) (\<lambda>q. Inr ((fst st)\<lparr>sp_L2_icnt_queue := q\<rparr>, snd st))"

definition pop_icnt_L2 :: "partition_state \<Rightarrow> partition_state res" where
  "pop_icnt_L2 st = andThen (pop (sp_icnt_L2_queue (fst st))) (\<lambda>(_, q). Inr ((fst st)\<lparr>sp_icnt_L2_queue := q\<rparr>, snd st))"

definition pop_dram_L2 :: "partition_state \<Rightarrow> partition_state res" where
  "pop_dram_L2 st = andThen (pop (sp_dram_L2_queue (fst st))) (\<lambda>(_, q). Inr ((fst st)\<lparr>sp_dram_L2_queue := q\<rparr>, snd st))"

text \<open>\<open>mf->set_reply(); mf->set_status(IN_PARTITION_L2_TO_ICNT_QUEUE, ...); m_L2_icnt_queue->push(mf)\<close>.\<close>

definition send_reply :: "mfref \<Rightarrow> partition_state \<Rightarrow> partition_state res" where
  "send_reply mf st =
    andThen (reply_at mf (snd st)) (\<lambda>w1.
    andThen (status_at IN_PARTITION_L2_TO_ICNT_QUEUE mf w1) (\<lambda>w2. push_L2_icnt mf (fst st, w2)))"

definition forget :: "mfref \<Rightarrow> partition_state \<Rightarrow> partition_state res" where
  "forget mf st =
    andThen (delete_mf mf (snd st)) (\<lambda>w. Inr ((fst st)\<lparr>sp_request_tracker := sp_request_tracker (fst st) - {mf}\<rparr>, w))"

subsection \<open>cache_cycle\<close>

definition reply_phase :: "partition_config \<Rightarrow> partition_state \<Rightarrow> partition_state res" where
  "reply_phase c st =
    (if m_disabled (pc_L2_config c) then Inr st
     else with_L2 (fst st) (\<lambda>dc.
      if baseline_access_ready dc \<and> \<not> full (sp_L2_icnt_queue (fst st)) then
        andThen (baseline_next_access dc) (\<lambda>(mf, dc').
        let st' = ((fst st)\<lparr>sp_L2cache := Some dc'\<rparr>, snd st) in
        andThen (deref mf (snd st)) (\<lambda>m.
          if get_access_type m \<noteq> L2_WR_ALLOC_R then send_reply mf st'
          else andThen
            (if m_write_alloc_policy (pc_L2_config c) = FETCH_ON_WRITE
             then (case mf_original_wr_mf m of None \<Rightarrow> Inl Assertion | Some original_wr_mf \<Rightarrow> send_reply original_wr_mf st')
             else Inr st') (forget mf)))
      else Inr st))"

definition fill_time :: "partition_state \<Rightarrow> u32" where
  "fill_time st = ucast (total_cycle (snd st) + ucast (sp_memcpy_cycle_offset (fst st)))"

definition fill_phase :: "partition_config \<Rightarrow> partition_state \<Rightarrow> partition_state res" where
  "fill_phase c st =
    (if empty (sp_dram_L2_queue (fst st)) then Inr st
     else (case top (sp_dram_L2_queue (fst st)) of
        None \<Rightarrow> if full (sp_L2_icnt_queue (fst st)) then Inr st else Inl Undefined
      | Some mf \<Rightarrow>
      andThen (if m_disabled (pc_L2_config c) then Inr False else with_L2 (fst st) (\<lambda>dc. Inr (waiting_for_fill mf dc))) (\<lambda>waiting.
       if waiting then
         with_L2 (fst st) (\<lambda>dc.
           if fill_port_free dc then
             andThen (status_at IN_PARTITION_L2_FILL_QUEUE mf (snd st)) (\<lambda>w1.
             andThen (baseline_fill (pc_L2_config c) mf (fill_time st) w1 dc) (\<lambda>(w2, dc').
             pop_dram_L2 ((fst st)\<lparr>sp_L2cache := Some dc'\<rparr>, w2)))
           else Inr st)
       else if \<not> full (sp_L2_icnt_queue (fst st)) then
         andThen (deref mf (snd st)) (\<lambda>m.
         andThen (if is_write m \<and> mf_type m = WRITE_ACK then status_at IN_PARTITION_L2_TO_ICNT_QUEUE mf (snd st) else Inr (snd st)) (\<lambda>w1.
         andThen (push_L2_icnt mf (fst st, w1)) pop_dram_L2))
       else Inr st)))"

text \<open>\<open>L2interface\<close>, the port below the L2.\<close>

type_synonym L2_port = "(world \<times> mfref fifo_pipeline) res"

definition L2interface_full :: "u32 \<Rightarrow> bool \<Rightarrow> L2_port \<Rightarrow> bool" where
  "L2interface_full sz wr p = (case p of Inl e \<Rightarrow> True | Inr (w, q) \<Rightarrow> full q)"

definition L2interface_push :: "mfref \<Rightarrow> L2_port \<Rightarrow> L2_port" where
  "L2interface_push mf p = andThen p (\<lambda>(w, q).
     andThen (update_mf mf (mf_set_status IN_PARTITION_L2_TO_DRAM_QUEUE 0) w) (\<lambda>w'. andThen (push (Some mf) q) (\<lambda>q'. Inr (w', q'))))"

definition L2_phase :: "partition_config \<Rightarrow> partition_state \<Rightarrow> partition_state res" where
  "L2_phase c st =
    (if m_disabled (pc_L2_config c) then Inr st
     else with_L2 (fst st) (\<lambda>dc.
      andThen (baseline_cycle L2interface_full L2interface_push (snd st) (Inr (snd st, sp_L2_dram_queue (fst st))) dc) (\<lambda>(p, dc').
      andThen p (\<lambda>(w, q). Inr ((fst st)\<lparr>sp_L2cache := Some dc', sp_L2_dram_queue := q\<rparr>, w)))))"

text \<open>What happens to the request at the head of the queue after the answer of the L2.\<close>

definition after_access :: "partition_config \<Rightarrow> mfref \<Rightarrow> cache_request_status \<Rightarrow> cache_event list \<Rightarrow> partition_state \<Rightarrow> partition_state res" where
  "after_access c mf status events st =
    (let write_sent = was_write_sent events; read_sent = was_read_sent events in
     if status = HIT then
       if \<not> write_sent then
         check (\<not> read_sent)
          (andThen (deref mf (snd st)) (\<lambda>m.
           andThen (if get_access_type m = L1_WRBK_ACC then forget mf st else send_reply mf st) pop_icnt_L2))
       else pop_icnt_L2 st
     else if status \<noteq> RESERVATION_FAIL then
       andThen (deref mf (snd st)) (\<lambda>m.
       andThen
         (if is_write m \<and> m_write_alloc_policy (pc_L2_config c) \<in> {FETCH_ON_WRITE, LAZY_FETCH_ON_READ} \<and> \<not> was_writeallocate_sent events
          then send_reply mf st else Inr st) pop_icnt_L2)
     else check (\<not> write_sent) (check (\<not> read_sent) (Inr st)))"

definition access_phase :: "partition_config \<Rightarrow> partition_state \<Rightarrow> partition_state res" where
  "access_phase c st =
    (if full (sp_L2_dram_queue (fst st)) \<or> empty (sp_icnt_L2_queue (fst st)) then Inr st
     else (case top (sp_icnt_L2_queue (fst st)) of None \<Rightarrow> Inl Undefined | Some mf \<Rightarrow>
      andThen (deref mf (snd st)) (\<lambda>m.
       if \<not> m_disabled (pc_L2_config c) \<and> (pc_L2_texure_only c \<longrightarrow> istexture m) then
         with_L2 (fst st) (\<lambda>dc.
           if \<not> full (sp_L2_icnt_queue (fst st)) \<and> data_port_free dc then
             andThen (l2_access (pc_L2_config c) (get_addr m) mf (fill_time st) [] (snd st) dc) (\<lambda>(status, events, w, dc').
               after_access c mf status events ((fst st)\<lparr>sp_L2cache := Some dc'\<rparr>, w))
           else Inr st)
       else
         andThen (status_at IN_PARTITION_L2_TO_DRAM_QUEUE mf (snd st)) (\<lambda>w.
         andThen (push (Some mf) (sp_L2_dram_queue (fst st))) (\<lambda>q.
         pop_icnt_L2 ((fst st)\<lparr>sp_L2_dram_queue := q\<rparr>, w))))))"

definition rop_phase :: "u32 \<Rightarrow> partition_state \<Rightarrow> partition_state res" where
  "rop_phase cycle st =
    (case sp_rop (fst st) of [] \<Rightarrow> Inr st
     | r # rest \<Rightarrow>
       if rd_ready_cycle r \<le> ucast cycle \<and> \<not> full (sp_icnt_L2_queue (fst st)) then
         andThen (push (Some (rd_req r)) (sp_icnt_L2_queue (fst st))) (\<lambda>q.
         andThen (status_at IN_PARTITION_ICNT_TO_L2_QUEUE (rd_req r) (snd st)) (\<lambda>w.
           Inr ((fst st)\<lparr>sp_rop := rest, sp_icnt_L2_queue := q\<rparr>, w)))
       else Inr st)"

definition cache_cycle :: "partition_config \<Rightarrow> u32 \<Rightarrow> partition_state \<Rightarrow> partition_state res" where
  "cache_cycle c cycle st =
    andThen (reply_phase c st) (\<lambda>st1. andThen (fill_phase c st1) (\<lambda>st2. andThen (L2_phase c st2) (\<lambda>st3.
    andThen (access_phase c st3) (rop_phase cycle))))"

subsection \<open>push\<close>

text \<open>First and last sector of a request of 64 or 128 bytes.\<close>

definition sector_range :: "mem_fetch \<Rightarrow> (nat \<times> nat) res" where
  "sector_range m =
    (let sm = get_access_sector_mask m in
     if mf_data_size m = 128 then Inr (0, 3)
     else if mf_data_size m = 64 \<and> sm = 12 then Inr (2, 3)
     else if mf_data_size m = 64 \<and> sm = 3 then Inr (0, 1)
     else if mf_data_size m = 64 \<and> (sm = 15 \<or> sm = 0) then Inr (if get_addr m mod 128 = 0 then (0, 1) else (2, 3))
     else Inl Assertion)"

definition first_byte_sector_mask :: "nat \<Rightarrow> 128 word" where
  "first_byte_sector_mask start = fold set_bit [start * unat SECTOR_SIZE..<unat SECTOR_SIZE] 0"

definition sector_request :: "mfref \<Rightarrow> mem_fetch \<Rightarrow> nat \<Rightarrow> nat \<Rightarrow> 128 word \<Rightarrow> world \<Rightarrow> (mfref \<times> world) res" where
  "sector_request mf m j i byte_sector_mask w =
    (let (ma, w1) = mem_access_masked (get_access_type m) (get_addr m + ucast (SECTOR_SIZE * of_nat i)) SECTOR_SIZE (is_write m)
           (ma_warp_mask (mf_access m)) (get_access_byte_mask m AND byte_sector_mask) (set_bit j 0) w
     in mem_fetch_new ma None (mf_ctrl_size m) (mf_wid m) (mf_sid m) (mf_tpc m) (mf_mem_config m) (total_cycle w1) (Some mf) None w1)"

fun sector_requests :: "mfref \<Rightarrow> mem_fetch \<Rightarrow> nat list \<Rightarrow> nat \<Rightarrow> 128 word \<Rightarrow> world \<Rightarrow> (mfref list \<times> world) res" where
  "sector_requests mf m [] i byte_sector_mask w = Inr ([], w)"
| "sector_requests mf m (j # js) i byte_sector_mask w =
    andThen (sector_request mf m j i byte_sector_mask w) (\<lambda>(n_mf, w1).
    andThen (sector_requests mf m js (Suc i) (push_bit (unat SECTOR_SIZE) byte_sector_mask) w1) (\<lambda>(result, w2).
      Inr (n_mf # result, w2)))"

definition breakdown_request_to_sector_requests :: "mfref \<Rightarrow> world \<Rightarrow> (mfref list \<times> world) res" where
  "breakdown_request_to_sector_requests mf w =
    andThen (deref mf w) (\<lambda>m.
      if mf_data_size m = SECTOR_SIZE \<and> length (filter (bit (get_access_sector_mask m)) [0..<4]) = 1 then Inr ([mf], w)
      else if mf_data_size m = 128 \<or> mf_data_size m = 64 then
        andThen (sector_range m) (\<lambda>(start, end').
          sector_requests mf m [start..<Suc end'] 0 (first_byte_sector_mask start) w)
      else Inl Assertion)"



subsection \<open>Other operations\<close>

definition is_write_back :: "mem_fetch \<Rightarrow> bool" where
  "is_write_back m \<longleftrightarrow> get_access_type m = L2_WRBK_ACC \<or> get_access_type m = L1_WRBK_ACC"


definition sp_top :: "partition_state \<Rightarrow> (mfref option \<times> partition_state) res" where
  "sp_top st =
    (case top (sp_L2_icnt_queue (fst st)) of None \<Rightarrow> Inr (None, st)
     | Some r \<Rightarrow>
        andThen (deref r (snd st)) (\<lambda>m.
          if is_write_back m then
            andThen (pop (sp_L2_icnt_queue (fst st))) (\<lambda>(_, q).
            andThen (forget r ((fst st)\<lparr>sp_L2_icnt_queue := q\<rparr>, snd st)) (\<lambda>st'. Inr (None, st')))
          else Inr (Some r, st)))"

definition set_done :: "mfref \<Rightarrow> memory_sub_partition \<Rightarrow> memory_sub_partition" where
  "set_done mf s = s\<lparr>sp_request_tracker := sp_request_tracker s - {mf}\<rparr>"


definition sp_full :: "memory_sub_partition \<Rightarrow> bool" where
  "sp_full s = full (sp_icnt_L2_queue s)"


definition L2_dram_queue_empty :: "memory_sub_partition \<Rightarrow> bool" where
  "L2_dram_queue_empty s = empty (sp_L2_dram_queue s)"





definition L2_similarity_queue_full :: "memory_sub_partition \<Rightarrow> bool" where
  "L2_similarity_queue_full s = full (sp_L2_similarity_queue s)"

definition L2_similarity_queue_empty :: "memory_sub_partition \<Rightarrow> bool" where
  "L2_similarity_queue_empty s = empty (sp_L2_similarity_queue s)"

definition L2_similarity_queue_push :: "mfref \<Rightarrow> memory_sub_partition \<Rightarrow> memory_sub_partition res" where
  "L2_similarity_queue_push mf s =
    andThen (push (Some mf) (sp_L2_similarity_queue s)) (\<lambda>q. Inr (s\<lparr>sp_L2_similarity_queue := q\<rparr>))"

definition L2_similarity_queue_top :: "memory_sub_partition \<Rightarrow> mfref option" where
  "L2_similarity_queue_top s = top (sp_L2_similarity_queue s)"

definition L2_similarity_queue_pop :: "memory_sub_partition \<Rightarrow> memory_sub_partition res" where
  "L2_similarity_queue_pop s = andThen (pop (sp_L2_similarity_queue s)) (\<lambda>(_, q). Inr (s\<lparr>sp_L2_similarity_queue := q\<rparr>))"

definition on_L2 :: "partition_config \<Rightarrow> (data_cache \<Rightarrow> data_cache res) \<Rightarrow> memory_sub_partition \<Rightarrow> memory_sub_partition res" where
  "on_L2 c f s = (if m_disabled (pc_L2_config c) then Inr s
     else with_L2 s (\<lambda>dc. andThen (f dc) (\<lambda>dc'. Inr (s\<lparr>sp_L2cache := Some dc'\<rparr>))))"

definition flushL2 :: "partition_config \<Rightarrow> memory_sub_partition \<Rightarrow> memory_sub_partition res" where
  "flushL2 c = on_L2 c (baseline_flush (pc_L2_config c))"

definition invalidateL2 :: "partition_config \<Rightarrow> memory_sub_partition \<Rightarrow> memory_sub_partition res" where
  "invalidateL2 c = on_L2 c (baseline_invalidate (pc_L2_config c))"

definition accumulate_L2cache_stats :: "partition_config \<Rightarrow> cache_stats \<Rightarrow> memory_sub_partition \<Rightarrow> cache_stats res" where
  "accumulate_L2cache_stats c l2_stats s = (if m_disabled (pc_L2_config c) then Inr l2_stats
     else with_L2 s (\<lambda>dc. Inr (stats_accumulate l2_stats (bc_stats dc))))"

definition get_L2cache_sub_stats :: "partition_config \<Rightarrow> cache_sub_stats \<Rightarrow> memory_sub_partition \<Rightarrow> cache_sub_stats res" where
  "get_L2cache_sub_stats c css s = (if m_disabled (pc_L2_config c) then Inr css
     else with_L2 s (\<lambda>dc. Inr (get_sub_stats (bc_stats dc))))"

definition get_L2cache_sub_stats_pw :: "partition_config \<Rightarrow> cache_sub_stats_pw \<Rightarrow> memory_sub_partition \<Rightarrow> cache_sub_stats_pw res" where
  "get_L2cache_sub_stats_pw c css s = (if m_disabled (pc_L2_config c) then Inr css
     else with_L2 s (\<lambda>dc. Inr (get_sub_stats_pw (bc_stats dc))))"

definition clear_L2cache_stats_pw :: "partition_config \<Rightarrow> memory_sub_partition \<Rightarrow> memory_sub_partition res" where
  "clear_L2cache_stats_pw c = on_L2 c (\<lambda>dc. Inr (dc\<lparr>bc_stats := stats_clear_pw (bc_stats dc)\<rparr>))"

definition force_l2_tag_update :: "partition_config \<Rightarrow> u64 \<Rightarrow> u32 \<Rightarrow> sector_mask \<Rightarrow> memory_sub_partition \<Rightarrow> memory_sub_partition res" where
  "force_l2_tag_update c addr time msk s =
    with_L2 s (\<lambda>dc. andThen (force_tag_access (pc_L2_config c) addr (sp_memcpy_cycle_offset s + time) msk dc) (\<lambda>dc'.
      Inr (s\<lparr>sp_L2cache := Some dc', sp_memcpy_cycle_offset := sp_memcpy_cycle_offset s + 1\<rparr>)))"

section \<open>Splitting a request\<close>

lemma bit_fold_set: "bit (fold set_bit [a..<b] m :: 128 word) k \<longleftrightarrow> bit m k \<or> k < 128 \<and> a \<le> k \<and> k < b"
proof (induction b)
  case (Suc b)
  then show ?case by (cases "a \<le> b") (auto simp: bit_simps)
qed simp

lemma byte_sector_masks:
  "bit (push_bit (32 * i) (first_byte_sector_mask 0)) b \<longleftrightarrow> b < 128 \<and> 32 * i \<le> b \<and> b < 32 * Suc i"
  "0 < start \<Longrightarrow> first_byte_sector_mask start = 0"
  by (auto simp: first_byte_sector_mask_def bit_fold_set bit_simps SECTOR_SIZE_def)

text \<open>The \<open>i\<close>-th part of a request \<open>m\<close>.\<close>

definition part_of :: "mfref \<Rightarrow> mem_fetch \<Rightarrow> nat \<Rightarrow> nat \<Rightarrow> 128 word \<Rightarrow> mem_fetch \<Rightarrow> bool" where
  "part_of mf m j i bytes n \<longleftrightarrow>
    get_addr n = get_addr m + 32 * of_nat i \<and> mf_data_size n = 32 \<and> get_access_sector_mask n = set_bit j 0 \<and>
    get_access_type n = get_access_type m \<and> is_write n = is_write m \<and> mf_wid n = mf_wid m \<and> mf_sid n = mf_sid m \<and>
    mf_original_mf n = Some mf \<and> mf_inst n = warp_inst_empty \<and> get_access_byte_mask n = get_access_byte_mask m AND bytes"

text \<open>References from \<open>w_next\<close> on are unused.\<close>

definition fresh_above :: "world \<Rightarrow> bool" where
  "fresh_above w \<longleftrightarrow> (\<forall>r \<ge> w_next w. w_heap w r = None)"

lemma unat_offset: "i < 4 \<Longrightarrow> ucast (SECTOR_SIZE * of_nat i :: u32) = (32 * of_nat i :: u64)"
proof -
  assume "i < 4"
  then have "i = 0 \<or> i = 1 \<or> i = 2 \<or> i = 3" by linarith
  then show ?thesis by (elim disjE) (simp_all add: SECTOR_SIZE_def)
qed

lemma mem_fetch_new_part:
  assumes "deref mf w = Inr m"
  shows "\<exists>w' n. mem_fetch_new ma None ctrl wid sid tpc cfg cycle (Some mf) None w = Inr (w_next w, w') \<and>
    w_next w' = Suc (w_next w) \<and> w_heap w' = (w_heap w)(w_next w \<mapsto> n) \<and> mf_access n = ma \<and> mf_data_size n = ma_req_size ma \<and>
    mf_wid n = wid \<and> mf_sid n = sid \<and> mf_original_mf n = Some mf \<and> mf_inst n = warp_inst_empty"
  unfolding mem_fetch_new_def Let_def assms option.case check_True andThen.simps
  by (intro exI conjI, rule refl, simp, subst world.select_convs(1) [symmetric], simp, simp_all)

lemma sector_request_ok:
  assumes "deref mf w = Inr m" and "i < 4"
  shows "\<exists>w' n. sector_request mf m j i bytes w = Inr (w_next w, w') \<and> w_next w' = Suc (w_next w) \<and>
    w_heap w' = (w_heap w)(w_next w \<mapsto> n) \<and> part_of mf m j i bytes n"
proof -
  let ?w = "w\<lparr>w_next_access_uid := w_next_access_uid w + 1\<rparr>"
  let ?ma = "\<lparr>ma_uid = w_next_access_uid w + 1, ma_addr = get_addr m + ucast (SECTOR_SIZE * of_nat i), ma_write = is_write m,
    ma_req_size = SECTOR_SIZE, ma_type = get_access_type m, ma_warp_mask = ma_warp_mask (mf_access m),
    ma_byte_mask = get_access_byte_mask m AND bytes, ma_sector_mask = set_bit j 0\<rparr>"
  have "deref mf ?w = Inr m" using assms(1) by (simp add: deref_def)
  then obtain w' n where n: "mem_fetch_new ?ma None (mf_ctrl_size m) (mf_wid m) (mf_sid m) (mf_tpc m) (mf_mem_config m) (total_cycle ?w)
      (Some mf) None ?w = Inr (w_next ?w, w')" "w_next w' = Suc (w_next ?w)" "w_heap w' = (w_heap ?w)(w_next ?w \<mapsto> n)"
    "mf_access n = ?ma" "mf_data_size n = ma_req_size ?ma" "mf_wid n = mf_wid m" "mf_sid n = mf_sid m"
    "mf_original_mf n = Some mf" "mf_inst n = warp_inst_empty"
    using mem_fetch_new_part by blast
  have "sector_request mf m j i bytes w = Inr (w_next w, w')" using n(1) by (simp add: sector_request_def mem_access_masked_def Let_def)
  moreover have "part_of mf m j i bytes n" using n(4-9) unat_offset [OF assms(2)]
    by (simp add: part_of_def get_addr_def get_access_sector_mask_def get_access_type_def is_write_def get_access_byte_mask_def SECTOR_SIZE_def)
  ultimately show ?thesis using n(2,3) by auto
qed

lemma sector_requests_ok:
  assumes "deref mf w = Inr m" and "fresh_above w" and "i + length js \<le> 4"
  shows "\<exists>w'. sector_requests mf m js i (push_bit (32 * i) b0) w = Inr ([w_next w..<w_next w + length js], w') \<and>
    (\<forall>r < w_next w. w_heap w' r = w_heap w r) \<and>
    (\<forall>k < length js. \<exists>n. deref (w_next w + k) w' = Inr n \<and> part_of mf m (js ! k) (i + k) (push_bit (32 * (i + k)) b0) n)"
  using assms
proof (induction js arbitrary: i w)
  case (Cons j js)
  obtain w1 n where 1: "sector_request mf m j i (push_bit (32 * i) b0) w = Inr (w_next w, w1)" "w_next w1 = Suc (w_next w)"
    "w_heap w1 = (w_heap w)(w_next w \<mapsto> n)" "part_of mf m j i (push_bit (32 * i) b0) n"
    using sector_request_ok [OF Cons.prems(1), of i j "push_bit (32 * i) b0"] Cons.prems(3) by auto
  have live: "mf < w_next w"
    using Cons.prems(1,2) by (auto simp: deref_def fresh_above_def not_less [symmetric] split: option.splits)
  have "deref mf w1 = Inr m" using Cons.prems(1) live by (simp add: deref_def 1(3))
  moreover have "fresh_above w1" using Cons.prems(2) by (simp add: fresh_above_def 1(2,3))
  moreover have "Suc i + length js \<le> 4" using Cons.prems(3) by simp
  ultimately obtain w2 where 2: "sector_requests mf m js (Suc i) (push_bit (32 * Suc i) b0) w1 =
      Inr ([w_next w1..<w_next w1 + length js], w2)" "\<forall>r < w_next w1. w_heap w2 r = w_heap w1 r"
    "\<forall>k < length js. \<exists>n. deref (w_next w1 + k) w2 = Inr n \<and> part_of mf m (js ! k) (Suc i + k) (push_bit (32 * (Suc i + k)) b0) n"
    using Cons.IH by blast
  have shift: "push_bit (unat SECTOR_SIZE) (push_bit (32 * i) b0) = push_bit (32 * Suc i) b0" by (simp add: SECTOR_SIZE_def)
  have "[w_next w..<w_next w + length (j # js)] = w_next w # [w_next w1..<w_next w1 + length js]" by (simp add: 1(2) upt_conv_Cons del: upt_Suc)
  then have "sector_requests mf m (j # js) i (push_bit (32 * i) b0) w = Inr ([w_next w..<w_next w + length (j # js)], w2)"
    using 1(1) 2(1) by (simp only: sector_requests.simps andThen.simps shift prod.case)
  moreover have "\<forall>r < w_next w. w_heap w2 r = w_heap w r" using 2(2) by (simp add: 1(2,3))
  moreover have "\<exists>n. deref (w_next w + k) w2 = Inr n \<and> part_of mf m ((j # js) ! k) (i + k) (push_bit (32 * (i + k)) b0) n"
    if "k < length (j # js)" for k
  proof (cases k)
    case 0
    have "w_heap w2 (w_next w) = Some n" using 2(2) by (simp add: 1(2,3))
    then show ?thesis using 1(4) by (simp add: 0 deref_def)
  next
    case (Suc k')
    then show ?thesis using 2(3) that by (auto simp: 1(2))
  qed
  ultimately show ?case by blast
qed simp

lemma breakdown_parts:
  assumes "deref mf w = Inr m" and "fresh_above w" and "mf_data_size m \<in> {64, 128}" and "sector_range m = Inr (start, end')"
  shows "\<exists>w'. breakdown_request_to_sector_requests mf w = Inr ([w_next w..<w_next w + (Suc end' - start)], w') \<and>
    (\<forall>r < w_next w. w_heap w' r = w_heap w r) \<and>
    (\<forall>k < Suc end' - start. \<exists>n. deref (w_next w + k) w' = Inr n \<and>
      part_of mf m ([start..<Suc end'] ! k) k (push_bit (32 * k) (first_byte_sector_mask start)) n)"
proof -
  let ?js = "[start..<Suc end']" and ?b0 = "first_byte_sector_mask start"
  have size: "Suc end' - start \<le> 4"
    using assms(3,4) by (auto simp: sector_range_def Let_def split: if_splits)
  have b: "breakdown_request_to_sector_requests mf w = sector_requests mf m ?js 0 ?b0 w"
    using assms(1,3,4) by (auto simp: breakdown_request_to_sector_requests_def SECTOR_SIZE_def)
  show ?thesis unfolding b using sector_requests_ok [OF assms(1,2), of 0 ?js ?b0] size by (auto simp del: upt_Suc)
qed

text \<open>C21: splitting a request for a sectored L2.  A request of 128 bytes, or of 64 with a sector mask that is a half line,
  full or empty, is split into requests for its single sectors: same kind, addresses 32 bytes apart, one sector of the
  mask each; nothing else in the store changes.  The parts of a whole line or lower half carry the bytes of their
  sector.\<close>

theorem breakdown_splits_by_sector:
  assumes "deref mf w = Inr m" and "fresh_above w" and "mf_data_size m \<in> {64, 128}" and "sector_range m = Inr (start, end')"
  shows "\<exists>w'. breakdown_request_to_sector_requests mf w = Inr ([w_next w..<w_next w + (Suc end' - start)], w') \<and>
    unat (mf_data_size m) = 32 * (Suc end' - start) \<and> (\<forall>r < w_next w. w_heap w' r = w_heap w r) \<and>
    (\<forall>k < Suc end' - start. \<exists>n. deref (w_next w + k) w' = Inr n \<and>
      get_addr n = get_addr m + 32 * of_nat k \<and> mf_data_size n = 32 \<and> get_access_sector_mask n = set_bit (start + k) 0 \<and>
      get_access_type n = get_access_type m \<and> is_write n = is_write m \<and> mf_original_mf n = Some mf \<and>
      (start = 0 \<longrightarrow> (\<forall>b. bit (get_access_byte_mask n) b \<longleftrightarrow> bit (get_access_byte_mask m) b \<and> 32 * k \<le> b \<and> b < 32 * Suc k)))"
proof -
  let ?js = "[start..<Suc end']" and ?b0 = "first_byte_sector_mask start"
  have size: "unat (mf_data_size m) = 32 * (Suc end' - start)"
    using assms(3,4) by (auto simp: sector_range_def Let_def split: if_splits)
  obtain w' where w': "breakdown_request_to_sector_requests mf w = Inr ([w_next w..<w_next w + (Suc end' - start)], w')"
    "\<forall>r < w_next w. w_heap w' r = w_heap w r"
    "\<forall>k < Suc end' - start. \<exists>n. deref (w_next w + k) w' = Inr n \<and> part_of mf m (?js ! k) k (push_bit (32 * k) ?b0) n"
    using breakdown_parts [OF assms] by blast
  have "\<exists>n. deref (w_next w + k) w' = Inr n \<and>
      get_addr n = get_addr m + 32 * of_nat k \<and> mf_data_size n = 32 \<and> get_access_sector_mask n = set_bit (start + k) 0 \<and>
      get_access_type n = get_access_type m \<and> is_write n = is_write m \<and> mf_original_mf n = Some mf \<and>
      (start = 0 \<longrightarrow> (\<forall>b. bit (get_access_byte_mask n) b \<longleftrightarrow> bit (get_access_byte_mask m) b \<and> 32 * k \<le> b \<and> b < 32 * Suc k))"
    if k: "k < Suc end' - start" for k
  proof -
    obtain n where n: "deref (w_next w + k) w' = Inr n" "part_of mf m (?js ! k) k (push_bit (32 * k) ?b0) n" using w'(3) k by blast
    have "?js ! k = start + k" using k by (subst nth_upt) auto
    moreover have "bit (get_access_byte_mask m) b \<Longrightarrow> b < 128" for b using bit_imp_le_length [of "get_access_byte_mask m" b] by simp
    ultimately show ?thesis using n by (auto simp: part_of_def bit_and_iff byte_sector_masks)
  qed
  then show ?thesis using w'(1,2) size by auto
qed

definition split_fetch :: "u64 \<Rightarrow> u32 \<Rightarrow> mem_fetch" where
  "split_fetch addr sz = (test_fetch addr True)\<lparr>mf_data_size := sz, mf_access := (mf_access (test_fetch addr True))\<lparr>
     ma_sector_mask := 0, ma_byte_mask := - 1\<rparr>\<rparr>"

definition split_world :: "u64 \<Rightarrow> u32 \<Rightarrow> world" where
  "split_world addr sz = (test_world True)\<lparr>w_heap := [0 \<mapsto> split_fetch addr sz]\<rparr>"

lemma split_world_ok: "deref 0 (split_world addr sz) = Inr (split_fetch addr sz)" "fresh_above (split_world addr sz)" "w_next (split_world addr sz) = 1"
  by (simp_all add: split_world_def test_world_def deref_def fresh_above_def)

lemma split_ranges: "sector_range (split_fetch 0x100 128) = Inr (0, 3)" "sector_range (split_fetch 0x140 64) = Inr (2, 3)"
  "mf_data_size (split_fetch a sz) = sz"
  by (simp_all add: sector_range_def split_fetch_def test_fetch_def get_access_sector_mask_def get_addr_def)

theorem breakdown_splits_by_sector_witness:
  "\<exists>w' n. breakdown_request_to_sector_requests 0 (split_world 0x100 128) = Inr ([1, 2, 3, 4], w') \<and>
     deref 3 w' = Inr n \<and> get_addr n = 0x140 \<and> bit (get_access_byte_mask n) 64 \<and> \<not> bit (get_access_byte_mask n) 63"
proof -
  have m: "mf_data_size (split_fetch 0x100 128) \<in> {64, 128}" by (simp add: split_ranges(3))
  obtain w' where w': "breakdown_request_to_sector_requests 0 (split_world 0x100 128) = Inr ([1..<1 + (Suc 3 - 0)], w')"
    and n: "\<forall>k < Suc 3 - 0. \<exists>n. deref (1 + k) w' = Inr n \<and>
      get_addr n = get_addr (split_fetch 0x100 128) + 32 * of_nat k \<and> mf_data_size n = 32 \<and> get_access_sector_mask n = set_bit (0 + k) 0 \<and>
      get_access_type n = get_access_type (split_fetch 0x100 128) \<and> is_write n = is_write (split_fetch 0x100 128) \<and> mf_original_mf n = Some 0 \<and>
      ((0::nat) = 0 \<longrightarrow> (\<forall>b. bit (get_access_byte_mask n) b \<longleftrightarrow> bit (get_access_byte_mask (split_fetch 0x100 128)) b \<and> 32 * k \<le> b \<and> b < 32 * Suc k))"
    using breakdown_splits_by_sector [OF split_world_ok(1,2) m split_ranges(1)] unfolding split_world_ok(3) by (elim exE conjE)
  have "[1..<1 + (Suc 3 - 0)] = [1, 2, 3, 4 :: nat]" by (simp add: upt_rec)
  moreover have "get_addr (split_fetch 0x100 128) = 0x100" "get_access_byte_mask (split_fetch 0x100 128) = - 1"
    by (simp_all add: split_fetch_def test_fetch_def get_addr_def get_access_byte_mask_def)
  ultimately show ?thesis using w' n [THEN spec, of 2] by (auto simp: numeral_3_eq_3)
qed

text \<open>C23: what the parts of a split request lose.  When a request of 128 bytes, or of 64 with a sector mask that is a half
  line, full or empty, is split, every part is without instruction: it is neither a texture request nor an atomic, whatever
  the request was.  When the request is for the upper half of a line, every part also has an empty byte mask, so that a full
  write becomes a write of no bytes.\<close>

theorem upper_half_loses_bytes:
  assumes "deref mf w = Inr m" and "fresh_above w" and "mf_data_size m \<in> {64, 128}" and "sector_range m = Inr (start, end')"
  shows "\<exists>w'. breakdown_request_to_sector_requests mf w = Inr ([w_next w..<w_next w + (Suc end' - start)], w') \<and>
    (\<forall>k < Suc end' - start. \<exists>n. deref (w_next w + k) w' = Inr n \<and> \<not> istexture n \<and> \<not> isatomic n \<and>
      (start = 2 \<longrightarrow> get_access_byte_mask n = 0))"
proof -
  obtain w' where w': "breakdown_request_to_sector_requests mf w = Inr ([w_next w..<w_next w + (Suc end' - start)], w')"
    "\<forall>k < Suc end' - start. \<exists>n. deref (w_next w + k) w' = Inr n \<and>
       part_of mf m ([start..<Suc end'] ! k) k (push_bit (32 * k) (first_byte_sector_mask start)) n"
    using breakdown_parts [OF assms] by blast
  have "\<exists>n. deref (w_next w + k) w' = Inr n \<and> \<not> istexture n \<and> \<not> isatomic n \<and> (start = 2 \<longrightarrow> get_access_byte_mask n = 0)"
    if k: "k < Suc end' - start" for k
  proof -
    obtain n where n: "deref (w_next w + k) w' = Inr n"
      "part_of mf m ([start..<Suc end'] ! k) k (push_bit (32 * k) (first_byte_sector_mask start)) n" using w'(2) k by blast
    then have "mf_inst n = warp_inst_empty" "get_access_byte_mask n = get_access_byte_mask m AND push_bit (32 * k) (first_byte_sector_mask start)"
      by (simp_all add: part_of_def)
    then show ?thesis using n(1) by (simp add: istexture_def isatomic_def warp_inst_empty_def byte_sector_masks(2))
  qed
  then show ?thesis using w'(1) by blast
qed

theorem upper_half_loses_bytes_witness:
  "\<exists>w' n. breakdown_request_to_sector_requests 0 (split_world 0x140 64) = Inr ([1, 2], w') \<and>
    deref 1 w' = Inr n \<and> get_access_byte_mask n = 0 \<and> \<not> istexture n \<and> \<not> isatomic n"
proof -
  have m: "mf_data_size (split_fetch 0x140 64) \<in> {64, 128}" by (simp add: split_ranges(3))
  obtain w' where w': "breakdown_request_to_sector_requests 0 (split_world 0x140 64) = Inr ([1..<1 + (Suc 3 - 2)], w')"
    and n: "\<forall>k < Suc 3 - 2. \<exists>n. deref (1 + k) w' = Inr n \<and> \<not> istexture n \<and> \<not> isatomic n \<and> ((2::nat) = 2 \<longrightarrow> get_access_byte_mask n = 0)"
    using upper_half_loses_bytes [OF split_world_ok(1,2) m split_ranges(2)] unfolding split_world_ok(3) by (elim exE conjE)
  have "[1..<1 + (Suc 3 - 2)] = [1, 2 :: nat]" by (simp add: upt_rec)
  then show ?thesis using w' n [THEN spec, of 0] by auto
qed

section \<open>The queues of a partition\<close>

text \<open>A queue without delay holds no empty slot.\<close>

definition solid :: "'a fifo_pipeline \<Rightarrow> bool" where
  "solid q \<longleftrightarrow> fp_wf q \<and> fp_min_len q = 0 \<and> None \<notin> set (fp_nodes q)"

lemma solid_push:
  assumes "solid q" and "\<not> full q"
  shows "\<exists>q'. push (Some x) q = Inr q' \<and> solid q' \<and> fp_items q' = fp_items q @ [x] \<and> fp_max_len q' = fp_max_len q"
proof -
  obtain q' where q': "push (Some x) q = Inr q'" "fp_wf q'" "fp_items q' = fp_items q @ [x]"
    using push_ok [of q x] assms unfolding solid_def by blast
  have lt: "fp_length q < fp_max_len q" using assms not_full_iff unfolding solid_def by blast
  have "fp_nodes q' = fp_nodes q @ [Some x] \<and> fp_min_len q' = fp_min_len q \<and> fp_max_len q' = fp_max_len q"
  proof (cases "fp_nodes q = []")
    case True
    then show ?thesis using q'(1) lt by (auto simp: push_def)
  next
    case False
    then have "last (fp_nodes q) \<noteq> None" using assms(1) last_in_set [OF False] unfolding solid_def by metis
    then show ?thesis using q'(1) lt False by (auto simp: push_def)
  qed
  then have "solid q'" "fp_max_len q' = fp_max_len q" using assms(1) q'(2) by (simp_all add: solid_def)
  then show ?thesis using q' by blast
qed

lemma solid_pop:
  assumes "solid q"
  shows "fp_items q = [] \<Longrightarrow> top q = None \<and> pop q = Inr (None, q) \<and> empty q"
    and "fp_items q = x # xs \<Longrightarrow> \<exists>q'. top q = Some x \<and> pop q = Inr (Some x, q') \<and> solid q' \<and> fp_items q' = xs \<and>
      fp_max_len q' = fp_max_len q \<and> \<not> empty q"
proof -
  have Some: "d \<in> set (fp_nodes q) \<Longrightarrow> d \<noteq> None" for d using assms unfolding solid_def by metis
  show "top q = None \<and> pop q = Inr (None, q) \<and> empty q" if "fp_items q = []"
    using that Some by (cases "fp_nodes q") (auto simp: top_def pop_Nil empty_def fp_items_def map_filter_def)
  assume i: "fp_items q = x # xs"
  then obtain ds where n: "fp_nodes q = Some x # ds" and ds: "List.map_filter id ds = xs"
    using Some by (cases "fp_nodes q") (auto simp: fp_items_def map_filter_def)
  have wf: "fp_wf q" using assms by (simp add: solid_def)
  have r: "refill q = []" using assms by (simp add: refill_def solid_def)
  let ?q = "q\<lparr>fp_nodes := ds @ refill q, fp_length := fp_length q - 1 + of_nat (length (refill q)), fp_n_element := fp_n_element q - 1\<rparr>"
  have "solid ?q" using pop_Cons_wf [OF wf n] assms n by (simp add: solid_def r)
  moreover have "fp_items ?q = xs" using ds by (simp add: fp_items_def r)
  ultimately show "\<exists>q'. top q = Some x \<and> pop q = Inr (Some x, q') \<and> solid q' \<and> fp_items q' = xs \<and> fp_max_len q' = fp_max_len q \<and> \<not> empty q"
    using pop_Cons [OF wf n] n by (intro exI [of _ ?q]) (simp add: top_def empty_def)
qed



lemma fifo_new_solid: "n \<noteq> 0 \<Longrightarrow> \<exists>q. fifo_pipeline_new 0 n = Inr q \<and> solid q \<and> fp_items q = []"
  by (simp add: fifo_pipeline_new_def solid_def fp_wf_def fp_items_def map_filter_def)

lemma status_at_ok:
  "w_heap w r = Some m \<Longrightarrow> status_at s r w = Inr (w\<lparr>w_heap := (w_heap w)(r \<mapsto> mf_set_status s (total_cycle w) m)\<rparr>)"
  by (simp add: status_at_def update_mf_def)

section \<open>A partition without L2\<close>








text \<open>A world in which the same requests live, with the same instructions.\<close>

definition kept :: "world \<Rightarrow> world \<Rightarrow> bool" where
  "kept w w' \<longleftrightarrow> (\<forall>r. rel_option (\<lambda>m m'. mf_inst m = mf_inst m') (w_heap w r) (w_heap w' r))"

lemma kept_refl [simp]: "kept w w"
  by (simp add: kept_def option.rel_refl)

















definition pipe_config :: partition_config where
  "pipe_config = \<lparr>pc_L2_config = blank_config\<lparr>m_disabled := True\<rparr>, pc_L2_texure_only = False, pc_rop_latency = 120,
    pc_n_mem_sub_partition = 1, pc_icnt_L2 = 8, pc_L2_dram = 8, pc_dram_L2 = 8, pc_L2_icnt = 8, pc_mem_config = test_mem_config\<rparr>"





section \<open>The ROP delay queue\<close>

lemma send_reply_rop: "send_reply mf st = Inr st' \<Longrightarrow> sp_rop (fst st') = sp_rop (fst st)"
  by (auto simp: send_reply_def push_L2_icnt_def res_simps)

lemma forget_rop: "forget mf st = Inr st' \<Longrightarrow> sp_rop (fst st') = sp_rop (fst st)"
  by (auto simp: forget_def res_simps)

lemma pop_icnt_rop: "pop_icnt_L2 st = Inr st' \<Longrightarrow> sp_rop (fst st') = sp_rop (fst st)"
  by (auto simp: pop_icnt_L2_def res_simps)

lemma pop_dram_rop: "pop_dram_L2 st = Inr st' \<Longrightarrow> sp_rop (fst st') = sp_rop (fst st)"
  by (auto simp: pop_dram_L2_def res_simps)

lemma with_L2_Inr: "with_L2 s k = Inr y \<longleftrightarrow> (\<exists>dc. sp_L2cache s = Some dc \<and> k dc = Inr y)"
  by (simp add: with_L2_def split: option.splits)

lemma reply_phase_rop: "reply_phase c st = Inr st' \<Longrightarrow> sp_rop (fst st') = sp_rop (fst st)"
  by (auto simp: reply_phase_def with_L2_Inr res_simps Let_def split: if_splits option.splits
      dest!: send_reply_rop forget_rop)

lemma fill_phase_rop: "fill_phase c st = Inr st' \<Longrightarrow> sp_rop (fst st') = sp_rop (fst st)"
  by (auto simp: fill_phase_def with_L2_Inr res_simps push_L2_icnt_def split: if_splits option.splits dest!: pop_dram_rop)

lemma L2_phase_rop: "L2_phase c st = Inr st' \<Longrightarrow> sp_rop (fst st') = sp_rop (fst st)"
  by (auto simp: L2_phase_def with_L2_Inr res_simps split: if_splits)

lemma after_access_rop: "after_access c mf status events st = Inr st' \<Longrightarrow> sp_rop (fst st') = sp_rop (fst st)"
  by (auto simp: after_access_def res_simps Let_def split: if_splits dest!: pop_icnt_rop send_reply_rop forget_rop)

lemma access_phase_rop: "access_phase c st = Inr st' \<Longrightarrow> sp_rop (fst st') = sp_rop (fst st)"
  by (auto simp: access_phase_def with_L2_Inr res_simps split: if_splits option.splits dest!: after_access_rop pop_icnt_rop)

text \<open>The ROP queue stops after 32 bits.  The cycle that \<open>cache_cycle\<close> receives is an \<open>unsigned\<close>, the ready cycle of a
  request 64 bits: once the request at the head is due at cycle 4294967296 or later no cycle of the sub-partition,
  whatever its number and whatever the L2, takes a request out of the ROP queue again.\<close>

theorem rop_queue_stops_after_32_bits:
  assumes "sp_rop (fst st) = r # rs" and "2 ^ 32 \<le> unat (rd_ready_cycle r)" and "cache_cycle c cycle st = Inr st'"
  shows "sp_rop (fst st') = r # rs"
proof -
  obtain st1 st2 st3 st4 where p: "reply_phase c st = Inr st1" "fill_phase c st1 = Inr st2" "L2_phase c st2 = Inr st3" "access_phase c st3 = Inr st4"
    and r: "rop_phase cycle st4 = Inr st'" using assms(3) by (auto simp: cache_cycle_def res_simps)
  have rop: "sp_rop (fst st4) = r # rs"
    using reply_phase_rop [OF p(1)] fill_phase_rop [OF p(2)] L2_phase_rop [OF p(3)] access_phase_rop [OF p(4)] assms(1) by simp
  have "\<not> rd_ready_cycle r \<le> ucast cycle"
    using assms(2) unat_lt [of cycle] unat_widen [of cycle] by (simp add: word_le_nat_alt)
  then show ?thesis using r rop by (simp add: rop_phase_def)
qed

definition late_partition :: memory_sub_partition where
  "late_partition = \<lparr>sp_L2cache = None, sp_rop = [\<lparr>rd_ready_cycle = 0x100000010, rd_req = 0\<rparr>],
    sp_icnt_L2_queue = \<lparr>fp_min_len = 0, fp_max_len = 8, fp_length = 0, fp_n_element = 0, fp_nodes = []\<rparr>,
    sp_L2_dram_queue = \<lparr>fp_min_len = 0, fp_max_len = 8, fp_length = 0, fp_n_element = 0, fp_nodes = []\<rparr>,
    sp_dram_L2_queue = \<lparr>fp_min_len = 0, fp_max_len = 8, fp_length = 0, fp_n_element = 0, fp_nodes = []\<rparr>,
    sp_L2_icnt_queue = \<lparr>fp_min_len = 0, fp_max_len = 8, fp_length = 0, fp_n_element = 0, fp_nodes = []\<rparr>,
    sp_L2_similarity_queue = \<lparr>fp_min_len = 0, fp_max_len = 1000, fp_length = 0, fp_n_element = 0, fp_nodes = []\<rparr>,
    sp_request_tracker = {0}, sp_memcpy_cycle_offset = 0\<rparr>"

section \<open>The answers of the L2\<close>

text \<open>The request \<open>mf\<close> at the head of the queue is presented to the L2 (an L2 for textures only sees texture
  requests), which answers.\<close>

definition L2_answers :: "partition_config \<Rightarrow> memory_sub_partition \<Rightarrow> world \<Rightarrow> mfref \<Rightarrow> cache_request_status \<Rightarrow> cache_event list \<Rightarrow>
    world \<Rightarrow> data_cache \<Rightarrow> bool" where
  "L2_answers c s w mf status events w' dc' \<longleftrightarrow>
    \<not> m_disabled (pc_L2_config c) \<and> \<not> full (sp_L2_dram_queue s) \<and> \<not> full (sp_L2_icnt_queue s) \<and>
    fp_items (sp_icnt_L2_queue s) \<noteq> [] \<and> hd (fp_items (sp_icnt_L2_queue s)) = mf \<and>
    (case sp_L2cache s of None \<Rightarrow> False | Some dc \<Rightarrow> data_port_free dc \<and>
      (case w_heap w mf of None \<Rightarrow> False | Some m \<Rightarrow> (pc_L2_texure_only c \<longrightarrow> istexture m) \<and>
         l2_access (pc_L2_config c) (get_addr m) mf (fill_time (s, w)) [] w dc = Inr (status, events, w', dc')))"

lemma access_phase_answer:
  assumes "L2_answers c s w mf status events w' dc'" and "solid (sp_icnt_L2_queue s)"
  shows "access_phase c (s, w) = after_access c mf status events (s\<lparr>sp_L2cache := Some dc'\<rparr>, w')"
proof -
  obtain xs where Cons: "fp_items (sp_icnt_L2_queue s) = mf # xs"
    using assms(1) by (cases "fp_items (sp_icnt_L2_queue s)") (auto simp: L2_answers_def)
  obtain dc m where dc: "sp_L2cache s = Some dc" "data_port_free dc" "w_heap w mf = Some m"
    "l2_access (pc_L2_config c) (get_addr m) mf (fill_time (s, w)) [] w dc = Inr (status, events, w', dc')"
    "pc_L2_texure_only c \<longrightarrow> istexture m"
    using assms(1) by (auto simp: L2_answers_def split: option.splits)
  have "\<not> m_disabled (pc_L2_config c)" "\<not> full (sp_L2_dram_queue s)" "\<not> full (sp_L2_icnt_queue s)"
    using assms(1) by (simp_all add: L2_answers_def)
  moreover have "top (sp_icnt_L2_queue s) = Some mf" "\<not> empty (sp_icnt_L2_queue s)" using solid_pop(2) [OF assms(2) Cons] by blast+
  ultimately show ?thesis using dc by (simp add: access_phase_def deref_def with_L2_def)
qed

lemma send_reply_ok:
  assumes m: "w_heap w mf = Some m" and "\<not> is_write_back m"
    and "mf_type m = READ_REQUEST \<longrightarrow> \<not> is_write m" and "mf_type m = WRITE_REQUEST \<longrightarrow> is_write m"
    and q: "solid (sp_L2_icnt_queue s)" "\<not> full (sp_L2_icnt_queue s)"
  shows "\<exists>q' w'. send_reply mf (s, w) = Inr (s\<lparr>sp_L2_icnt_queue := q'\<rparr>, w') \<and> fp_items q' = fp_items (sp_L2_icnt_queue s) @ [mf] \<and>
    (\<exists>m'. w_heap w' mf = Some m' \<and> mf_type m' \<in> {READ_REPLY, WRITE_ACK})"
proof -
  have "\<exists>m'. set_reply m = Inr m' \<and> mf_type m' \<in> {READ_REPLY, WRITE_ACK}"
    using assms(2-4) by (cases "mf_type m") (simp_all add: set_reply_def is_write_back_def)
  then obtain m' where m': "set_reply m = Inr m'" "mf_type m' \<in> {READ_REPLY, WRITE_ACK}" by blast
  obtain q' where q': "push (Some mf) (sp_L2_icnt_queue s) = Inr q'" "fp_items q' = fp_items (sp_L2_icnt_queue s) @ [mf]"
    using solid_push [OF q, of mf] by blast
  have r: "reply_at mf w = Inr (w\<lparr>w_heap := (w_heap w)(mf \<mapsto> m')\<rparr>)" using m m'(1) by (simp add: reply_at_def deref_def update_mf_def)
  let ?w = "w\<lparr>w_heap := (w_heap w)(mf \<mapsto> m')\<rparr>"
  have h: "w_heap ?w mf = Some m'" by simp
  show ?thesis unfolding send_reply_def fst_conv snd_conv r andThen.simps status_at_ok [OF h]
    using q' m'(2) by (intro exI [of _ q']) (simp add: push_L2_icnt_def mf_set_status_def)
qed

text \<open>The L2 was built for its configuration: its write-miss handler is the one the policy selects.\<close>

definition L2_built :: "partition_config \<Rightarrow> memory_sub_partition \<Rightarrow> bool" where
  "L2_built c s \<longleftrightarrow> (case sp_L2cache s of None \<Rightarrow> False
     | Some dc \<Rightarrow> dc_wr_miss dc = select_wr_miss (m_write_alloc_policy (pc_L2_config c)))"

lemma answer_refused:
  assumes "L2_answers c s w mf RESERVATION_FAIL events w' dc'" and "L2_built c s"
  shows "events = [] \<and> w' = w \<and> (\<exists>dc. sp_L2cache s = Some dc \<and> dc' = dc\<lparr>bc_stats := bc_stats dc'\<rparr>)"
proof -
  obtain dc m where dc: "sp_L2cache s = Some dc" "dc_wr_miss dc = select_wr_miss (m_write_alloc_policy (pc_L2_config c))"
    "l2_access (pc_L2_config c) (get_addr m) mf (fill_time (s, w)) [] w dc = Inr (RESERVATION_FAIL, events, w', dc')"
    using assms by (auto simp: L2_answers_def L2_built_def split: option.splits)
  show ?thesis using refused_access_frame [OF dc(3) [unfolded l2_access_def] dc(2)] dc(1) by blast
qed

lemma answer_hit:
  assumes "L2_answers c s w mf HIT events w' dc'"
  shows "\<not> was_read_sent events"
  using assms by (auto simp: L2_answers_def l2_access_def split: option.splits dest: hit_sends_no_read)

text \<open>C20: the sub-partition follows the answer of the L2.  Let the request at the head of its queue (not a write-back of the
  L2 itself, and of the packet type of a read or a write as it is one) be presented to an L2 that was built for its
  configuration, with queues that have no delay.  If the L2
  refuses, the access phase succeeds, the request stays where it is for the next cycle, and nothing but the
  statistics of the L2 has changed.  Otherwise the request leaves the queue, and it is sent to the interconnect as a reply
  exactly when the L2 hit without forwarding a write, or accepted a write that it will not fetch for under a fetching
  write-allocate policy.  A write-back of an L1 is never answered: on such a hit it is deleted, but on such a miss
  the phase violates an assertion.  In no other case does it fail.\<close>

theorem sub_partition_follows_answer:
  assumes "L2_answers c s w mf status events w' dc'" and "L2_built c s"
    and "w_heap w' mf = Some m" and "get_access_type m \<noteq> L2_WRBK_ACC"
    and "mf_type m = READ_REQUEST \<longrightarrow> \<not> is_write m" and "mf_type m = WRITE_REQUEST \<longrightarrow> is_write m"
    and "solid (sp_icnt_L2_queue s)" and "solid (sp_L2_icnt_queue s)"
  shows "let write_back = (get_access_type m = L1_WRBK_ACC);
      done_hit = (status = HIT \<and> \<not> was_write_sent events);
      done_miss = (status \<notin> {HIT, RESERVATION_FAIL} \<and> is_write m \<and> \<not> was_writeallocate_sent events \<and>
        m_write_alloc_policy (pc_L2_config c) \<in> {FETCH_ON_WRITE, LAZY_FETCH_ON_READ});
      answered = ((done_hit \<or> done_miss) \<and> \<not> write_back)
    in if done_miss \<and> write_back then access_phase c (s, w) = Inl Assertion
       else \<exists>s' w''. access_phase c (s, w) = Inr (s', w'') \<and>
        (if status = RESERVATION_FAIL
         then w'' = w \<and> (\<exists>dc st. sp_L2cache s = Some dc \<and> s' = s\<lparr>sp_L2cache := Some (dc\<lparr>bc_stats := st\<rparr>)\<rparr>)
         else fp_items (sp_icnt_L2_queue s') = tl (fp_items (sp_icnt_L2_queue s)) \<and>
          fp_items (sp_L2_icnt_queue s') = fp_items (sp_L2_icnt_queue s) @ (if answered then [mf] else []) \<and>
          (answered \<longrightarrow> (\<exists>m'. w_heap w'' mf = Some m' \<and> mf_type m' \<in> {READ_REPLY, WRITE_ACK})) \<and>
          (done_hit \<and> write_back \<longrightarrow> w_heap w'' mf = None \<and> mf \<notin> sp_request_tracker s'))"
proof -
  let ?s = "s\<lparr>sp_L2cache := Some dc'\<rparr>"
  obtain xs where Cons: "fp_items (sp_icnt_L2_queue s) = mf # xs"
    using assms(1) by (cases "fp_items (sp_icnt_L2_queue s)") (auto simp: L2_answers_def)
  from solid_pop(2) [OF assms(7) Cons] obtain q' where q': "pop (sp_icnt_L2_queue s) = Inr (Some mf, q')" "fp_items q' = xs" by blast
  have nf: "\<not> full (sp_L2_icnt_queue ?s)" using assms(1) by (simp add: L2_answers_def)
  have sol: "solid (sp_L2_icnt_queue ?s)" using assms(8) by simp
  have reply: "\<exists>p' w2. send_reply mf (?s, w') = Inr (?s\<lparr>sp_L2_icnt_queue := p'\<rparr>, w2) \<and>
      fp_items p' = fp_items (sp_L2_icnt_queue s) @ [mf] \<and> (\<exists>m'. w_heap w2 mf = Some m' \<and> mf_type m' \<in> {READ_REPLY, WRITE_ACK})"
    if "get_access_type m \<noteq> L1_WRBK_ACC"
    using send_reply_ok [OF assms(3) _ assms(5,6) sol nf] assms(4) that by (auto simp: is_write_back_def)
  have no_reply: "send_reply mf (?s, w') = Inl Assertion" if "get_access_type m = L1_WRBK_ACC"
    using assms(3) that by (simp add: send_reply_def reply_at_def set_reply_def deref_def)
  have forgotten: "forget mf (?s, w') = Inr (?s\<lparr>sp_request_tracker := sp_request_tracker s - {mf}\<rparr>, w'\<lparr>w_heap := (w_heap w')(mf := None)\<rparr>)"
    using assms(3) by (simp add: forget_def delete_mf_def)
  have d: "deref mf w' = Inr m" using assms(3) by (simp add: deref_def)
  note unf = access_phase_answer [OF assms(1,7)] after_access_def Let_def fst_conv snd_conv d andThen.simps
  consider (fail) "status = RESERVATION_FAIL" | (hit) "status = HIT" | (miss) "status \<noteq> HIT" "status \<noteq> RESERVATION_FAIL" by blast
  then show ?thesis
  proof cases
    case fail
    from answer_refused [OF assms(1) [unfolded fail] assms(2)] obtain dc where e: "events = []" "w' = w"
      and dc: "sp_L2cache s = Some dc" "dc' = dc\<lparr>bc_stats := bc_stats dc'\<rparr>" by blast
    have "access_phase c (s, w) = Inr (?s, w)" unfolding unf using fail e by simp
    moreover have "?s = s\<lparr>sp_L2cache := Some (dc\<lparr>bc_stats := bc_stats dc'\<rparr>)\<rparr>" using dc(2) by simp
    ultimately show ?thesis using fail dc(1) unfolding Let_def by auto
  next
    case hit
    have nr: "\<not> was_read_sent events" using answer_hit assms(1) hit by blast
    show ?thesis
    proof (cases "was_write_sent events \<or> get_access_type m = L1_WRBK_ACC")
      case True
      then show ?thesis unfolding unf using hit nr forgotten q' Cons by (auto simp: pop_icnt_L2_def)
    next
      case False
      then show ?thesis unfolding unf using hit nr reply q' Cons by (auto simp: pop_icnt_L2_def)
    qed
  next
    case miss
    let ?P = "is_write m \<and> m_write_alloc_policy (pc_L2_config c) \<in> {FETCH_ON_WRITE, LAZY_FETCH_ON_READ} \<and> \<not> was_writeallocate_sent events"
    have a: "access_phase c (s, w) = andThen (if ?P then send_reply mf (?s, w') else Inr (?s, w')) pop_icnt_L2"
      unfolding unf using miss by simp
    show ?thesis
    proof (cases "?P \<and> get_access_type m \<noteq> L1_WRBK_ACC")
      case True
      then show ?thesis unfolding a Let_def using miss reply q' Cons by (auto simp: pop_icnt_L2_def)
    next
      case False
      then show ?thesis unfolding a Let_def using miss no_reply q' Cons by (auto simp: pop_icnt_L2_def)
    qed
  qed
qed


text \<open>A bank with a warm line and a request for it; and a bank that fetches lazily with a write-back of an L1.\<close>

definition bank_config :: "write_allocate_policy_t \<Rightarrow> partition_config" where
  "bank_config p = pipe_config\<lparr>pc_L2_config := small_config\<lparr>m_write_alloc_policy := p\<rparr>\<rparr>"

definition bank :: "data_cache \<Rightarrow> memory_sub_partition" where
  "bank dc = late_partition\<lparr>sp_L2cache := Some dc, sp_rop := [], sp_icnt_L2_queue :=
     \<lparr>fp_min_len = 0, fp_max_len = 8, fp_length = 1, fp_n_element = 1, fp_nodes = [Some 0]\<rparr>\<rparr>"


lemma bank_solid: "solid (sp_icnt_L2_queue (bank dc))" "solid (sp_L2_icnt_queue (bank dc))"
  by (simp_all add: bank_def late_partition_def solid_def fp_wf_def)

theorem sub_partition_follows_answer_witness:
  "\<exists>s' w''. access_phase (bank_config WRITE_ALLOCATE) (bank warm_cache, test_world False) = Inr (s', w'') \<and>
    fp_items (sp_L2_icnt_queue s') = [0] \<and> fp_items (sp_icnt_L2_queue s') = []"
proof -
  have "(case l2_access (pc_L2_config (bank_config WRITE_ALLOCATE)) 0x100 0 (fill_time (bank warm_cache, test_world False)) [] (test_world False) warm_cache of
      Inl e \<Rightarrow> False | Inr (st, ev, w', dc') \<Rightarrow> st = HIT \<and> ev = [] \<and> \<not> (case w_heap w' 0 of None \<Rightarrow> True | Some m \<Rightarrow>
         is_write_back m \<or> mf_type m \<noteq> READ_REQUEST \<or> is_write m))" by code_simp
  then obtain w' dc' m where a: "l2_access (pc_L2_config (bank_config WRITE_ALLOCATE)) 0x100 0
      (fill_time (bank warm_cache, test_world False)) [] (test_world False) warm_cache = Inr (HIT, [], w', dc')"
    and m: "w_heap w' 0 = Some m" "\<not> is_write_back m" "mf_type m = READ_REQUEST" "\<not> is_write m"
    by (auto split: sum.splits option.splits)
  have "L2_answers (bank_config WRITE_ALLOCATE) (bank warm_cache) (test_world False) 0 HIT [] w' dc'"
    using a by (simp add: L2_answers_def bank_config_def pipe_config_def small_config_def init_sizes_def blank_config_def bank_def
      late_partition_def full_def fp_items_def map_filter_def data_port_free_def warm_cache_def test_cache_def test_world_def
      get_addr_def test_fetch_def)
  moreover have "L2_built (bank_config WRITE_ALLOCATE) (bank warm_cache)"
    by (simp add: L2_built_def bank_def bank_config_def warm_cache_def test_cache_def)
  moreover have "get_access_type m \<noteq> L2_WRBK_ACC" "get_access_type m \<noteq> L1_WRBK_ACC" using m(2) by (simp_all add: is_write_back_def)
  ultimately show ?thesis using sub_partition_follows_answer [OF _ _ m(1) _ _ _ bank_solid] m(3,4)
    by (fastforce simp: Let_def bank_def late_partition_def fp_items_def map_filter_def)
qed


end
