(* ===== verification/Dram.thy ===== *)
theory Dram
  imports Complex_Main Sub_Partition Hashing
begin

text \<open>
  \<open>dram_t\<close> of \<open>src/src/gpgpu-sim/dram.{h,cc}\<close>, its FR-FCFS scheduler (\<open>dram_sched.{h,cc}\<close>) and the
  derived timing parameters of \<open>memory_config::init\<close> (\<open>gpu-sim.h\<close>).

  Requests (\<open>dram_req_t\<close>) are shared between the queues, the banks and the burst pipeline \<open>rwq\<close>, so they
  live in the store \<open>d_reqs\<close> of the controller.  An iterator into a bank queue of the scheduler is the
  request it points at (every request is queued once), and \<open>m_last_row\<close>, a pointer to a bin, is the row
  of that bin.  The two functions that issue commands return the command, in the names the code prints
  under \<open>DRAM_VERIFY\<close>, instead of \<open>true\<close>.  The callback \<open>set_done\<close> of the partition is a parameter.  The
  counters of \<open>memory_stats_t\<close> and \<open>Stats\<close> are not kept.
\<close>

section \<open>Model\<close>

subsection \<open>Configuration\<close>

datatype dram_ctrl_t = DRAM_FIFO | DRAM_FRFCFS

record dram_config =
  nbk :: u32
  nbkgrp :: u32
  bk_tag_length :: u32
  tCCD :: u32
  tCCDL :: u32
  tRRD :: u32
  tRCD :: u32
  tRCDWR :: u32
  tRAS :: u32
  tRP :: u32
  tRC :: u32
  tCDLR :: u32
  tWR :: u32
  tRTW :: u32
  tWTR :: u32
  tWTP :: u32
  tRTPL :: u32
  CL :: u32
  WL :: u32
  BL :: u32
  busW :: u32
  gpu_n_mem_per_ctrlr :: u32
  data_command_freq_ratio :: u32
  dram_atom_size :: u32
  elimnate_rw_turnaround :: bool
  scheduler_type :: dram_ctrl_t
  sched_queue_size :: u32
  return_queue_size :: u32
  write_queue_size :: u32
  write_high_watermark :: u32
  write_low_watermark :: u32
  seperate_write_queue_enabled :: bool
  dram_bnk_indexing_policy :: u32
  dram_bnkgrp_indexing_policy :: u32
  dual_bus_interface :: bool
  memlatency_stat :: bool
  m_n_mem :: u32
  m_n_sub_partition_per_memory_channel :: u32
  m_n_mem_sub_partition :: u32

text \<open>The number of bits of \<open>nbkt\<close>: the loop counts the shifts until the \<open>int\<close> is no longer positive.\<close>

fun shift_count :: "nat \<Rightarrow> nat" where
  "shift_count n = (if n = 0 then 0 else Suc (shift_count (n div 2)))"

declare shift_count.simps [simp del]

definition burst_cycles :: "dram_config \<Rightarrow> u32" where
  "burst_cycles c = BL c div data_command_freq_ratio c"

definition derive_timing :: "dram_config \<Rightarrow> dram_config res" where
  "derive_timing c =
     defined (nbkgrp c \<noteq> 0)
     (let nbkt = sint (nbk c div nbkgrp c);
          c1 = c\<lparr>bk_tag_length := of_nat (shift_count (nat nbkt)) - 1, tRCDWR := tRCD c - (WL c + 1)\<rparr> in
      defined (data_command_freq_ratio c \<noteq> 0)
      (let b = burst_cycles c;
           c2 = (if elimnate_rw_turnaround c then c1\<lparr>tRTW := 0, tWTR := 0\<rparr>
                 else c1\<lparr>tRTW := CL c + b + 2 - WL c, tWTR := WL c + b + tCDLR c\<rparr>);
           c3 = c2\<lparr>tWTP := WL c + b + tWR c, dram_atom_size := BL c * busW c * gpu_n_mem_per_ctrlr c\<rparr> in
       check (0 < m_n_sub_partition_per_memory_channel c)
       (check (nbk c mod m_n_sub_partition_per_memory_channel c = 0)
         (Inr (c3\<lparr>m_n_mem_sub_partition := m_n_mem c * m_n_sub_partition_per_memory_channel c\<rparr>)))))"

subsection \<open>Requests and banks\<close>

datatype rw_mode = READ | WRITE

datatype bank_state = BANK_IDLE | BANK_ACTIVE

type_synonym reqref = nat

record dram_req_t =
  dr_row :: u32
  dr_col :: u32
  dr_bk :: u32
  dr_nbytes :: u32
  dr_txbytes :: u32
  dr_dqbytes :: u32
  dr_timestamp :: u32
  dr_rw :: rw_mode
  dr_addr :: u64
  dr_insertion_time :: u32
  dr_data :: mfref

record bankgrp_t =
  g_CCDLc :: u32
  g_RTPLc :: u32

record bank_t =
  b_RCDc :: u32
  b_RCDWRc :: u32
  b_RASc :: u32
  b_RPc :: u32
  b_RCc :: u32
  b_WTPc :: u32
  b_RTPc :: u32
  b_state :: bank_state
  b_curr_row :: u32
  b_mrq :: "reqref option"
  b_n_access :: u32
  b_n_idle :: u32
  b_bkgrpindex :: u32

subsection \<open>Statistics of the controller\<close>

record dram_counts =
  n_cmd :: u64
  n_activity :: u64
  n_nop :: u64
  n_act :: u64
  n_pre :: u64
  n_rd :: u64
  n_rd_L2_A :: u64
  n_wr :: u64
  n_wr_WB :: u64
  n_req :: u64
  max_mrqs_temp :: u64
  bwutil :: u32
  max_mrqs :: u32
  ave_mrqs :: u32
  write_occupied_cycles :: u32
  read_occupied_cycles :: u32
  issued_two :: u64
  issued_total :: u64
  issued_total_row :: u64
  issued_total_col :: u64

record dram_partial =
  n_cmd_partial :: u32
  n_activity_partial :: u32
  n_nop_partial :: u32
  n_act_partial :: u32
  n_pre_partial :: u32
  n_req_partial :: u32
  ave_mrqs_partial :: u32
  bwutil_partial :: u32

record dram_bandwidth =
  wasted_bw_row :: u64
  wasted_bw_col :: u64
  util_bw :: u64
  idle_bw :: u64
  RCDc_limit :: u64
  CCDLc_limit :: u64
  CCDLc_limit_alone :: u64
  CCDc_limit :: u64
  WTRc_limit :: u64
  WTRc_limit_alone :: u64
  RCDWRc_limit :: u64
  RTWc_limit :: u64
  RTWc_limit_alone :: u64
  rwq_limit :: u64

record dram_locality =
  access_num :: u64
  read_num :: u64
  write_num :: u64
  hits_num :: u64
  hits_read_num :: u64
  hits_write_num :: u64
  banks_1time :: u64
  banks_acess_total :: u64
  banks_acess_total_after :: u64
  banks_time_rw :: u64
  banks_access_rw_total :: u64
  banks_time_ready :: u64
  banks_access_ready_total :: u64
  write_to_read_ratio_blp_rw_average :: real
  bkgrp_parallsim_rw :: u64

subsection \<open>The scheduler and the controller\<close>

datatype memory_mode = READ_MODE | WRITE_MODE

text \<open>One set of queues: per bank the queue (newest first), its bins by row and the row being served.\<close>

record bank_queues =
  q_queue :: "reqref list"
  q_bins :: "u32 \<rightharpoonup> reqref list"
  q_last_row :: "u32 option"

record frfcfs_scheduler =
  fs_num_pending :: u32
  fs_num_write_pending :: u32
  fs_queues :: "bank_queues list"
  fs_write_queues :: "bank_queues list"
  fs_service_time :: "u32 list"
  fs_service_timestamp :: "u32 list"
  fs_mode :: memory_mode

record dram_t =
  d_id :: u32
  d_bkgrp :: "bankgrp_t list"
  d_bk :: "bank_t list"
  d_prio :: u32
  d_RRDc :: u32
  d_CCDc :: u32
  d_RTWc :: u32
  d_WTRc :: u32
  d_rw :: rw_mode
  d_rwq :: "reqref fifo_pipeline"
  d_mrqq :: "reqref fifo_pipeline"
  d_returnq :: "mfref fifo_pipeline"
  d_sched :: frfcfs_scheduler
  d_reqs :: "reqref \<rightharpoonup> dram_req_t"
  d_next :: reqref
  d_counts :: dram_counts
  d_partial :: dram_partial
  d_bandwidth :: dram_bandwidth
  d_locality :: dram_locality

datatype dram_command = RD | WR | ACT | PRE

subsection \<open>Access to banks, groups and requests\<close>

definition bank :: "nat \<Rightarrow> dram_t \<Rightarrow> bank_t" where
  "bank j d = d_bk d ! j"

definition on_bank :: "nat \<Rightarrow> (bank_t \<Rightarrow> bank_t) \<Rightarrow> dram_t \<Rightarrow> dram_t" where
  "on_bank j f d = d\<lparr>d_bk := (d_bk d)[j := f (d_bk d ! j)]\<rparr>"

definition on_group :: "nat \<Rightarrow> (bankgrp_t \<Rightarrow> bankgrp_t) \<Rightarrow> dram_t \<Rightarrow> dram_t" where
  "on_group g f d = d\<lparr>d_bkgrp := (d_bkgrp d)[g := f (d_bkgrp d ! g)]\<rparr>"

definition req_at :: "reqref \<Rightarrow> dram_t \<Rightarrow> dram_req_t res" where
  "req_at r d = (case d_reqs d r of None \<Rightarrow> Inl Undefined | Some q \<Rightarrow> Inr q)"

definition set_req :: "reqref \<Rightarrow> dram_req_t \<Rightarrow> dram_t \<Rightarrow> dram_t" where
  "set_req r q d = d\<lparr>d_reqs := (d_reqs d)(r \<mapsto> q)\<rparr>"

text \<open>\<open>get_bankgrp_number\<close>; for any other policy the function ends without a value.\<close>

definition get_bankgrp_number :: "dram_config \<Rightarrow> nat \<Rightarrow> nat res" where
  "get_bankgrp_number c i =
     (if dram_bnkgrp_indexing_policy c = 0 then
        defined (unat (bk_tag_length c) < 32) (Inr (unat (drop_bit (unat (bk_tag_length c)) (of_nat i :: u32))))
      else if dram_bnkgrp_indexing_policy c = 1 then Inr (unat ((of_nat i :: u32) AND (nbkgrp c - 1)))
      else Inl Undefined)"

subsection \<open>Construction\<close>

definition bank_queues_new :: bank_queues where
  "bank_queues_new = \<lparr>q_queue = [], q_bins = Map.empty, q_last_row = None\<rparr>"

definition frfcfs_scheduler_new :: "dram_config \<Rightarrow> frfcfs_scheduler" where
  "frfcfs_scheduler_new c =
     \<lparr>fs_num_pending = 0, fs_num_write_pending = 0,
      fs_queues = replicate (unat (nbk c)) bank_queues_new,
      fs_write_queues = (if seperate_write_queue_enabled c then replicate (unat (nbk c)) bank_queues_new else []),
      fs_service_time = replicate (unat (nbk c)) 0, fs_service_timestamp = replicate (unat (nbk c)) 0,
      fs_mode = READ_MODE\<rparr>"

definition bank_new :: "dram_config \<Rightarrow> nat \<Rightarrow> bank_t" where
  "bank_new c i = \<lparr>b_RCDc = 0, b_RCDWRc = 0, b_RASc = 0, b_RPc = 0, b_RCc = 0, b_WTPc = 0, b_RTPc = 0,
     b_state = BANK_IDLE, b_curr_row = 0, b_mrq = None, b_n_access = 0, b_n_idle = 0,
     b_bkgrpindex = of_nat i div (nbk c div nbkgrp c)\<rparr>"

text \<open>The constructor leaves \<open>banks_time_rw\<close> and \<open>banks_access_rw_total\<close> as it finds them (\<open>junk\<close>).\<close>

definition dram_new :: "u32 \<Rightarrow> dram_config \<Rightarrow> dram_locality \<Rightarrow> dram_t res" where
  "dram_new partition_id c junk =
     andThen (fifo_pipeline_new (CL c) (CL c + 1)) (\<lambda>rwq.
     andThen (fifo_pipeline_new 0 2) (\<lambda>mrqq.
     andThen (fifo_pipeline_new 0 (if return_queue_size c = 0 then 1024 else return_queue_size c)) (\<lambda>returnq.
     defined (nbk c \<noteq> 0 \<and> nbkgrp c \<noteq> 0 \<and> nbk c div nbkgrp c \<noteq> 0)
     (Inr \<lparr>d_id = partition_id, d_bkgrp = replicate (unat (nbkgrp c)) \<lparr>g_CCDLc = 0, g_RTPLc = 0\<rparr>,
        d_bk = map (bank_new c) [0..<unat (nbk c)], d_prio = 0, d_RRDc = 0, d_CCDc = 0, d_RTWc = 0, d_WTRc = 0,
        d_rw = READ, d_rwq = rwq, d_mrqq = mrqq, d_returnq = returnq, d_sched = frfcfs_scheduler_new c,
        d_reqs = Map.empty, d_next = 0,
        d_counts = \<lparr>n_cmd = 0, n_activity = 0, n_nop = 0, n_act = 0, n_pre = 0, n_rd = 0, n_rd_L2_A = 0, n_wr = 0,
          n_wr_WB = 0, n_req = 0, max_mrqs_temp = 0, bwutil = 0, max_mrqs = 0, ave_mrqs = 0,
          write_occupied_cycles = 0, read_occupied_cycles = 0, issued_two = 0, issued_total = 0,
          issued_total_row = 0, issued_total_col = 0\<rparr>,
        d_partial = \<lparr>n_cmd_partial = 0, n_activity_partial = 0, n_nop_partial = 0, n_act_partial = 0,
          n_pre_partial = 0, n_req_partial = 0, ave_mrqs_partial = 0, bwutil_partial = 0\<rparr>,
        d_bandwidth = \<lparr>wasted_bw_row = 0, wasted_bw_col = 0, util_bw = 0, idle_bw = 0, RCDc_limit = 0,
          CCDLc_limit = 0, CCDLc_limit_alone = 0, CCDc_limit = 0, WTRc_limit = 0, WTRc_limit_alone = 0,
          RCDWRc_limit = 0, RTWc_limit = 0, RTWc_limit_alone = 0, rwq_limit = 0\<rparr>,
        d_locality = \<lparr>access_num = 0, read_num = 0, write_num = 0, hits_num = 0, hits_read_num = 0,
          hits_write_num = 0, banks_1time = 0, banks_acess_total = 0, banks_acess_total_after = 0,
          banks_time_rw = banks_time_rw junk, banks_access_rw_total = banks_access_rw_total junk,
          banks_time_ready = 0, banks_access_ready_total = 0, write_to_read_ratio_blp_rw_average = 0,
          bkgrp_parallsim_rw = 0\<rparr>\<rparr>))))"

subsection \<open>Entering the controller\<close>

definition dram_full :: "dram_config \<Rightarrow> bool \<Rightarrow> dram_t \<Rightarrow> bool" where
  "dram_full c wr d =
     (case scheduler_type c of
        DRAM_FRFCFS \<Rightarrow>
          (if sched_queue_size c = 0 then False
           else if seperate_write_queue_enabled c \<and> wr
           then fs_num_write_pending (d_sched d) \<ge> write_queue_size c
           else fs_num_pending (d_sched d) \<ge> sched_queue_size c)
      | DRAM_FIFO \<Rightarrow> full (d_mrqq d))"

definition que_length :: "dram_config \<Rightarrow> dram_t \<Rightarrow> u32" where
  "que_length c d = (case scheduler_type c of DRAM_FRFCFS \<Rightarrow> fs_num_pending (d_sched d)
     | DRAM_FIFO \<Rightarrow> get_length (d_mrqq d))"

definition returnq_full :: "dram_t \<Rightarrow> bool" where
  "returnq_full d = full (d_returnq d)"

definition return_queue_pop :: "dram_t \<Rightarrow> (mfref option \<times> dram_t) res" where
  "return_queue_pop d = andThen (pop (d_returnq d)) (\<lambda>(r, q). Inr (r, d\<lparr>d_returnq := q\<rparr>))"

definition return_queue_top :: "dram_t \<Rightarrow> mfref option" where
  "return_queue_top d = top (d_returnq d)"

text \<open>The bank of a request under the indexing policy; \<open>CUSTOM_BK_INDEX\<close> (3) leaves it unset.\<close>

definition bank_index :: "dram_config \<Rightarrow> addrdec_t \<Rightarrow> u32 res" where
  "bank_index c x =
     (if dram_bnk_indexing_policy c = 0 then Inr (ad_bk x)
      else if dram_bnk_indexing_policy c = 1 then
        (let b = bitwise_hash_function (ucast (ad_row x)) (ad_bk x) (nbk c) in check (b < nbk c) (Inr b))
      else if dram_bnk_indexing_policy c = 2 then
        andThen (ipoly_hash_function (ucast (ad_row x)) (ad_bk x) (nbk c)) (\<lambda>b. check (b < nbk c) (Inr b))
      else if dram_bnk_indexing_policy c = 3 then Inl Undefined
      else Inl Assertion)"

definition dram_req_new :: "dram_config \<Rightarrow> mfref \<Rightarrow> mem_fetch \<Rightarrow> world \<Rightarrow> dram_req_t res" where
  "dram_req_new c mf m w =
     andThen (bank_index c (mf_raw_addr m)) (\<lambda>b.
       Inr \<lparr>dr_row = ad_row (mf_raw_addr m), dr_col = ad_col (mf_raw_addr m), dr_bk = b,
         dr_nbytes = mf_data_size m, dr_txbytes = 0, dr_dqbytes = 0, dr_timestamp = ucast (total_cycle w),
         dr_rw = (if is_write m then WRITE else READ), dr_addr = get_addr m,
         dr_insertion_time = ucast (gpu_sim_cycle w), dr_data = mf\<rparr>)"

definition dram_push :: "dram_config \<Rightarrow> mfref \<Rightarrow> dram_t \<Rightarrow> world \<Rightarrow> (dram_t \<times> world) res" where
  "dram_push c mf d w =
     andThen (deref mf w) (\<lambda>m.
     check (d_id d = ad_chip (mf_raw_addr m))
     (andThen (dram_req_new c mf m w) (\<lambda>q.
      andThen (status_at IN_PARTITION_MC_INTERFACE_QUEUE mf w) (\<lambda>w1.
      andThen (push (Some (d_next d)) (d_mrqq d)) (\<lambda>mrqq.
      let n = que_length c (d\<lparr>d_mrqq := mrqq\<rparr>); s = d_counts d; p = d_partial d in
      Inr (d\<lparr>d_mrqq := mrqq, d_reqs := (d_reqs d)(d_next d \<mapsto> q), d_next := Suc (d_next d),
             d_counts := s\<lparr>n_req := n_req s + 1,
               max_mrqs_temp := (if ucast n > max_mrqs_temp s then ucast n else max_mrqs_temp s)\<rparr>,
             d_partial := p\<lparr>n_req_partial := n_req_partial p + 1\<rparr>\<rparr>, w1))))))"

subsection \<open>The FR-FCFS scheduler\<close>

definition enqueue_req :: "reqref \<Rightarrow> u32 \<Rightarrow> bank_queues \<Rightarrow> bank_queues" where
  "enqueue_req r row q =
     q\<lparr>q_queue := r # q_queue q,
       q_bins := (q_bins q)(row \<mapsto> r # (case q_bins q row of None \<Rightarrow> [] | Some l \<Rightarrow> l))\<rparr>"

definition on_queue :: "nat \<Rightarrow> (bank_queues \<Rightarrow> bank_queues) \<Rightarrow> bank_queues list \<Rightarrow> bank_queues list res" where
  "on_queue b f qs = defined (b < length qs) (Inr (qs[b := f (qs ! b)]))"

definition add_req :: "dram_config \<Rightarrow> reqref \<Rightarrow> dram_req_t \<Rightarrow> bool \<Rightarrow> frfcfs_scheduler \<Rightarrow> frfcfs_scheduler res" where
  "add_req c r q wr s =
     (if seperate_write_queue_enabled c \<and> wr then
        check (fs_num_write_pending s < write_queue_size c)
          (andThen (on_queue (unat (dr_bk q)) (enqueue_req r (dr_row q)) (fs_write_queues s)) (\<lambda>qs.
             Inr (s\<lparr>fs_num_write_pending := fs_num_write_pending s + 1, fs_write_queues := qs\<rparr>)))
      else
        check (fs_num_pending s < sched_queue_size c)
          (andThen (on_queue (unat (dr_bk q)) (enqueue_req r (dr_row q)) (fs_queues s)) (\<lambda>qs.
             Inr (s\<lparr>fs_num_pending := fs_num_pending s + 1, fs_queues := qs\<rparr>))))"

definition data_collection :: "nat \<Rightarrow> u64 \<Rightarrow> frfcfs_scheduler \<Rightarrow> frfcfs_scheduler" where
  "data_collection b cycle s = s\<lparr>fs_service_time := (fs_service_time s)[b := 0],
     fs_service_timestamp := (fs_service_timestamp s)[b := ucast cycle]\<rparr>"

definition schedule_mode :: "dram_config \<Rightarrow> frfcfs_scheduler \<Rightarrow> memory_mode" where
  "schedule_mode c s =
     (if seperate_write_queue_enabled c then
        (if fs_mode s = READ_MODE \<and> fs_num_write_pending s \<ge> write_high_watermark c then WRITE_MODE
         else if fs_mode s = WRITE_MODE \<and> fs_num_write_pending s < write_low_watermark c then READ_MODE
         else fs_mode s)
      else fs_mode s)"

text \<open>The row to serve, and whether it is a row hit: the bin of the row being served, else that of the
  open row, else that of the oldest request.\<close>

definition select_row :: "u32 \<Rightarrow> bank_queues \<Rightarrow> dram_t \<Rightarrow> (u32 \<times> bool) res" where
  "select_row curr_row q d =
     (case q_last_row q of
        Some row \<Rightarrow> Inr (row, True)
      | None \<Rightarrow>
          (if q_bins q curr_row \<noteq> None then Inr (curr_row, True)
           else andThen (req_at (last (q_queue q)) d) (\<lambda>x.
             check (q_bins q (dr_row x) \<noteq> None) (Inr (dr_row x, False)))))"

text \<open>Taking the oldest request of a bin out of the bin and of the queue.\<close>

definition take_req :: "u32 \<Rightarrow> reqref \<Rightarrow> dram_req_t \<Rightarrow> reqref list \<Rightarrow> bank_queues \<Rightarrow> bank_queues" where
  "take_req row r x bin q =
     (let bins = (q_bins q)(row \<mapsto> butlast bin) in
      q\<lparr>q_queue := remove1 r (q_queue q),
        q_bins := (if butlast bin = [] then bins(dr_row x := None) else bins),
        q_last_row := (if butlast bin = [] then None else Some row)\<rparr>)"

definition note_access :: "bool \<Rightarrow> bool \<Rightarrow> dram_locality \<Rightarrow> dram_locality" where
  "note_access hit wr s =
     (let s1 = (if wr then s\<lparr>access_num := access_num s + 1, write_num := write_num s + 1\<rparr>
                else s\<lparr>access_num := access_num s + 1, read_num := read_num s + 1\<rparr>) in
      if hit then (if wr then s1\<lparr>hits_num := hits_num s1 + 1, hits_write_num := hits_write_num s1 + 1\<rparr>
                   else s1\<lparr>hits_num := hits_num s1 + 1, hits_read_num := hits_read_num s1 + 1\<rparr>)
      else s1)"

definition count_scheduled :: "dram_config \<Rightarrow> bool \<Rightarrow> frfcfs_scheduler \<Rightarrow> frfcfs_scheduler res" where
  "count_scheduled c wr s =
     (if seperate_write_queue_enabled c \<and> wr then
        check (fs_num_write_pending s \<noteq> 0) (Inr (s\<lparr>fs_num_write_pending := fs_num_write_pending s - 1\<rparr>))
      else check (fs_num_pending s \<noteq> 0) (Inr (s\<lparr>fs_num_pending := fs_num_pending s - 1\<rparr>)))"

definition schedule_from :: "dram_config \<Rightarrow> nat \<Rightarrow> u32 \<Rightarrow> bank_queues list \<Rightarrow>
    (bank_queues list \<Rightarrow> frfcfs_scheduler \<Rightarrow> frfcfs_scheduler) \<Rightarrow> dram_t \<Rightarrow> world \<Rightarrow> (reqref option \<times> dram_t) res" where
  "schedule_from c b curr_row qs store d w =
     defined (b < length qs)
     (if q_last_row (qs ! b) = None \<and> q_queue (qs ! b) = [] then Inr (None, d)
      else
        andThen (select_row curr_row (qs ! b) d) (\<lambda>(row, hit).
        case q_bins (qs ! b) row of
          None \<Rightarrow> Inl Undefined
        | Some bin \<Rightarrow> defined (bin \<noteq> [])
            (andThen (req_at (last bin) d) (\<lambda>x.
             andThen (deref (dr_data x) w) (\<lambda>m.
             let s1 = (if hit then d_sched d else data_collection b (gpu_sim_cycle w) (d_sched d));
                 s2 = store (qs[b := take_req row (last bin) x bin (qs ! b)]) s1 in
             andThen (count_scheduled c (is_write m) s2) (\<lambda>s3.
               Inr (Some (last bin), d\<lparr>d_sched := s3, d_locality := note_access hit (is_write m) (d_locality d)\<rparr>)))))))"

definition schedule :: "dram_config \<Rightarrow> nat \<Rightarrow> u32 \<Rightarrow> dram_t \<Rightarrow> world \<Rightarrow> (reqref option \<times> dram_t) res" where
  "schedule c b curr_row d0 w =
     (let d = d0\<lparr>d_sched := (d_sched d0)\<lparr>fs_mode := schedule_mode c (d_sched d0)\<rparr>\<rparr>; s = d_sched d in
      if fs_mode s = WRITE_MODE
      then schedule_from c b curr_row (fs_write_queues s) (\<lambda>qs s. s\<lparr>fs_write_queues := qs\<rparr>) d w
      else schedule_from c b curr_row (fs_queues s) (\<lambda>qs s. s\<lparr>fs_queues := qs\<rparr>) d w)"

lemma fp_items_push_None: "push None q = Inr q' \<Longrightarrow> fp_items q' = fp_items q"
  using map_filter_id_None [of "[]"]
  by (auto simp: push_def res_simps fp_items_def map_filter_id_butlast split: if_splits)

lemma fp_items_pop:
  assumes "pop q = Inr (Some r, q')"
  shows "fp_items q = r # fp_items q'"
proof -
  from assms obtain ds where n: "fp_nodes q = Some r # ds"
    by (auto simp: pop_def res_simps Let_def split: list.splits if_splits)
  let ?q = "uncount (q\<lparr>fp_nodes := ds, fp_length := fp_length q - 1\<rparr>)"
  from assms n consider "q' = ?q" | q2 where "push None ?q = Inr q2" "q' = uncount q2"
    by (auto simp: pop_def res_simps Let_def split: if_splits)
  then have "fp_items q' = fp_items ?q"
    by cases (auto simp: uncount_def fp_items_def dest!: fp_items_push_None)
  then show ?thesis by (simp add: n fp_items_def uncount_def List.map_filter_def)
qed

text \<open>Moving the new requests into the scheduler; the pointer of an empty slot would be dereferenced.\<close>

function drain_mrqq :: "dram_config \<Rightarrow> dram_t \<Rightarrow> world \<Rightarrow> (dram_t \<times> world) res" where
  "drain_mrqq c d w =
     (if empty (d_mrqq d) then Inr (d, w)
      else case pop (d_mrqq d) of
        Inl e \<Rightarrow> Inl e
      | Inr (None, q) \<Rightarrow> Inl Undefined
      | Inr (Some r, q) \<Rightarrow>
          andThen (req_at r d) (\<lambda>x.
          andThen (status_at IN_PARTITION_MC_INPUT_QUEUE (dr_data x) w) (\<lambda>w1.
          andThen (deref (dr_data x) w1) (\<lambda>m.
          andThen (add_req c r x (is_write m) (d_sched d)) (\<lambda>s.
            drain_mrqq c (d\<lparr>d_mrqq := q, d_sched := s\<rparr>) w1)))))"
  by pat_completeness auto
termination
proof (relation "measure (\<lambda>(c, d, w). length (fp_items (d_mrqq d)))", goal_cases)
  case (2 c d w x y z b xa m s)
  then show ?case using fp_items_pop [of "d_mrqq d"] by fastforce
qed simp

declare drain_mrqq.simps [simp del]

text \<open>The banks in round-robin order from \<open>prio\<close>.\<close>

definition bank_order :: "dram_config \<Rightarrow> dram_t \<Rightarrow> nat list" where
  "bank_order c d = map (\<lambda>i. unat ((of_nat i + d_prio d) mod nbk c)) [0..<unat (nbk c)]"

fun assign_loop :: "dram_config \<Rightarrow> nat list \<Rightarrow> dram_t \<Rightarrow> world \<Rightarrow> (dram_t \<times> world) res" where
  "assign_loop c [] d w = Inr (d, w)"
| "assign_loop c (b # bs) d w =
     (if b_mrq (bank b d) = None then
        andThen (schedule c b (b_curr_row (bank b d)) d w) (\<lambda>(r, d1).
        case r of
          None \<Rightarrow> assign_loop c bs d1 w
        | Some r \<Rightarrow>
            andThen (req_at r d1) (\<lambda>x.
            andThen (status_at IN_PARTITION_MC_BANK_ARB_QUEUE (dr_data x) w) (\<lambda>w1.
            let d2 = on_bank b (\<lambda>k. k\<lparr>b_mrq := Some r\<rparr>) (d1\<lparr>d_prio := (d_prio d1 + 1) mod nbk c\<rparr>) in
            Inr (if memlatency_stat c then set_req r (x\<lparr>dr_timestamp := ucast (total_cycle w)\<rparr>) d2 else d2, w1))))
      else assign_loop c bs d w)"

definition scheduler_frfcfs :: "dram_config \<Rightarrow> dram_t \<Rightarrow> world \<Rightarrow> (dram_t \<times> world) res" where
  "scheduler_frfcfs c d w = andThen (drain_mrqq c d w) (\<lambda>(d1, w1). assign_loop c (bank_order c d1) d1 w1)"

definition scheduler_fifo :: "dram_config \<Rightarrow> dram_t \<Rightarrow> world \<Rightarrow> (dram_t \<times> world) res" where
  "scheduler_fifo c d w =
     (if empty (d_mrqq d) then Inr (d, w)
      else case top (d_mrqq d) of
        None \<Rightarrow> Inl Undefined
      | Some r \<Rightarrow>
          andThen (req_at r d) (\<lambda>x.
          andThen (status_at IN_PARTITION_MC_BANK_ARB_QUEUE (dr_data x) w) (\<lambda>w1.
          let b = unat (dr_bk x) in
          defined (b < length (d_bk d))
          (if b_mrq (bank b d) = None then
             andThen (pop (d_mrqq d)) (\<lambda>(e, q). Inr (on_bank b (\<lambda>k. k\<lparr>b_mrq := e\<rparr>) (d\<lparr>d_mrqq := q\<rparr>), w1))
           else Inr (d, w1)))))"

subsection \<open>Issuing commands\<close>

definition row_open :: "nat \<Rightarrow> dram_req_t \<Rightarrow> dram_t \<Rightarrow> bool" where
  "row_open j x d \<longleftrightarrow> b_curr_row (bank j d) = dr_row x \<and> b_state (bank j d) = BANK_ACTIVE"

definition can_read :: "nat \<Rightarrow> nat \<Rightarrow> dram_req_t \<Rightarrow> dram_t \<Rightarrow> bool" where
  "can_read j g x d \<longleftrightarrow> d_CCDc d = 0 \<and> b_RCDc (bank j d) = 0 \<and> g_CCDLc (d_bkgrp d ! g) = 0 \<and> dr_rw x = READ \<and>
     d_WTRc d = 0 \<and> row_open j x d \<and> \<not> full (d_rwq d)"

definition can_write :: "nat \<Rightarrow> nat \<Rightarrow> dram_req_t \<Rightarrow> dram_t \<Rightarrow> bool" where
  "can_write j g x d \<longleftrightarrow> d_CCDc d = 0 \<and> b_RCDWRc (bank j d) = 0 \<and> g_CCDLc (d_bkgrp d ! g) = 0 \<and> dr_rw x = WRITE \<and>
     d_RTWc d = 0 \<and> row_open j x d \<and> \<not> full (d_rwq d)"

text \<open>One burst of the request of a bank: into the pipeline (whose length is that of the direction), and
  out of the bank when it was the last.\<close>

definition start_burst :: "dram_config \<Rightarrow> rw_mode \<Rightarrow> nat \<Rightarrow> reqref \<Rightarrow> dram_req_t \<Rightarrow> dram_t \<Rightarrow> dram_t res" where
  "start_burst c dir j r x d =
     andThen (if d_rw d \<noteq> dir then set_min_length (if dir = READ then CL c else WL c) (d_rwq d) else Inr (d_rwq d)) (\<lambda>q.
     andThen (push (Some r) q) (\<lambda>q1.
     let x1 = x\<lparr>dr_txbytes := dr_txbytes x + dram_atom_size c\<rparr> in
     Inr (on_bank j (\<lambda>b. if dr_txbytes x1 < dr_nbytes x1 then b else b\<lparr>b_mrq := None\<rparr>)
           (set_req r x1 (d\<lparr>d_rw := dir, d_rwq := q1\<rparr>)))))"

definition count_read :: "dram_config \<Rightarrow> bool \<Rightarrow> dram_t \<Rightarrow> dram_t" where
  "count_read c wr_alloc d =
     (let s = d_counts d; p = d_partial d; s1 = s\<lparr>read_occupied_cycles := read_occupied_cycles s + 1,
        bwutil := bwutil s + burst_cycles c\<rparr> in
      d\<lparr>d_counts := (if wr_alloc then s1\<lparr>n_rd_L2_A := n_rd_L2_A s + 1\<rparr> else s1\<lparr>n_rd := n_rd s + 1\<rparr>),
        d_partial := p\<lparr>bwutil_partial := bwutil_partial p + burst_cycles c\<rparr>\<rparr>)"

definition count_write :: "dram_config \<Rightarrow> bool \<Rightarrow> dram_t \<Rightarrow> dram_t" where
  "count_write c wb d =
     (let s = d_counts d; p = d_partial d; s1 = s\<lparr>write_occupied_cycles := write_occupied_cycles s + 1,
        bwutil := bwutil s + burst_cycles c\<rparr> in
      d\<lparr>d_counts := (if wb then s1\<lparr>n_wr_WB := n_wr_WB s + 1\<rparr> else s1\<lparr>n_wr := n_wr s + 1\<rparr>),
        d_partial := p\<lparr>bwutil_partial := bwutil_partial p + burst_cycles c\<rparr>\<rparr>)"

definition read_timers :: "dram_config \<Rightarrow> nat \<Rightarrow> nat \<Rightarrow> dram_t \<Rightarrow> dram_t" where
  "read_timers c j g d =
     on_group g (\<lambda>k. k\<lparr>g_CCDLc := tCCDL c, g_RTPLc := tRTPL c\<rparr>)
       (on_bank j (\<lambda>b. b\<lparr>b_RTPc := burst_cycles c, b_n_access := b_n_access b + 1\<rparr>)
         (d\<lparr>d_CCDc := tCCD c, d_RTWc := tRTW c\<rparr>))"

definition write_timers :: "dram_config \<Rightarrow> nat \<Rightarrow> nat \<Rightarrow> dram_t \<Rightarrow> dram_t" where
  "write_timers c j g d =
     on_group g (\<lambda>k. k\<lparr>g_CCDLc := tCCDL c\<rparr>)
       (on_bank j (\<lambda>b. b\<lparr>b_WTPc := tWTP c\<rparr>) (d\<lparr>d_CCDc := tCCD c, d_WTRc := tWTR c\<rparr>))"

text \<open>A bank outside every group is undefined as soon as it has a request.\<close>

definition issue_col_command ::
  "dram_config \<Rightarrow> nat \<Rightarrow> dram_t \<Rightarrow> world \<Rightarrow> (dram_command option \<times> dram_t \<times> world) res" where
  "issue_col_command c j d w =
     andThen (get_bankgrp_number c j) (\<lambda>g.
     case b_mrq (bank j d) of
       None \<Rightarrow> Inr (None, d, w)
     | Some r \<Rightarrow>
         andThen (req_at r d) (\<lambda>x.
         andThen (status_at IN_PARTITION_DRAM (dr_data x) w) (\<lambda>w1.
         defined (g < length (d_bkgrp d) \<and> data_command_freq_ratio c \<noteq> 0)
         (andThen (deref (dr_data x) w1) (\<lambda>m.
          if can_read j g x d then
            andThen (start_burst c READ j r x d) (\<lambda>d1.
              Inr (Some RD, count_read c (get_access_type m = L2_WR_ALLOC_R) (read_timers c j g d1), w1))
          else if can_write j g x d then
            andThen (start_burst c WRITE j r x d) (\<lambda>d1.
              Inr (Some WR, count_write c (get_access_type m = L2_WRBK_ACC) (write_timers c j g d1), w1))
          else Inr (None, d, w1))))))"

definition next_prio :: "dram_config \<Rightarrow> nat \<Rightarrow> u32" where
  "next_prio c j = (of_nat j + 1) mod nbk c"

definition activate :: "dram_config \<Rightarrow> nat \<Rightarrow> dram_req_t \<Rightarrow> dram_t \<Rightarrow> dram_t" where
  "activate c j x d =
     (let s = d_counts d; p = d_partial d in
      on_bank j (\<lambda>b. b\<lparr>b_curr_row := dr_row x, b_state := BANK_ACTIVE, b_RCDc := tRCD c, b_RCDWRc := tRCDWR c,
                    b_RASc := tRAS c, b_RCc := tRC c\<rparr>)
        (d\<lparr>d_RRDc := tRRD c, d_prio := next_prio c j, d_counts := s\<lparr>n_act := n_act s + 1\<rparr>,
           d_partial := p\<lparr>n_act_partial := n_act_partial p + 1\<rparr>\<rparr>))"

definition precharge :: "dram_config \<Rightarrow> nat \<Rightarrow> dram_t \<Rightarrow> dram_t" where
  "precharge c j d =
     (let s = d_counts d; p = d_partial d in
      on_bank j (\<lambda>b. b\<lparr>b_state := BANK_IDLE, b_RPc := tRP c\<rparr>)
        (d\<lparr>d_prio := next_prio c j, d_counts := s\<lparr>n_pre := n_pre s + 1\<rparr>,
           d_partial := p\<lparr>n_pre_partial := n_pre_partial p + 1\<rparr>\<rparr>))"

definition issue_row_command ::
  "dram_config \<Rightarrow> nat \<Rightarrow> dram_t \<Rightarrow> world \<Rightarrow> (dram_command option \<times> dram_t \<times> world) res" where
  "issue_row_command c j d w =
     andThen (get_bankgrp_number c j) (\<lambda>g.
     case b_mrq (bank j d) of
       None \<Rightarrow> Inr (None, d, w)
     | Some r \<Rightarrow>
         andThen (req_at r d) (\<lambda>x.
         andThen (status_at IN_PARTITION_DRAM (dr_data x) w) (\<lambda>w1.
         defined (g < length (d_bkgrp d))
         (let b = bank j d in
          if d_RRDc d = 0 \<and> b_state b = BANK_IDLE \<and> b_RPc b = 0 \<and> b_RCc b = 0
          then Inr (Some ACT, activate c j x d, w1)
          else if b_curr_row b \<noteq> dr_row x \<and> b_state b = BANK_ACTIVE \<and> b_RASc b = 0 \<and> b_WTPc b = 0 \<and>
            b_RTPc b = 0 \<and> g_RTPLc (d_bkgrp d ! g) = 0
          then Inr (Some PRE, precharge c j d, w1)
          else Inr (None, d, w1)))))"

subsection \<open>The cycle\<close>

text \<open>\<open>j = (i + prio) % nbk\<close>, with the current value of \<open>prio\<close>.\<close>

definition rotated :: "dram_config \<Rightarrow> nat \<Rightarrow> dram_t \<Rightarrow> nat" where
  "rotated c i d = unat ((of_nat i + d_prio d) mod nbk c)"

text \<open>An idle bank; the first component counts those that have no timer running.\<close>

definition note_idle :: "nat \<Rightarrow> u32 \<Rightarrow> dram_t \<Rightarrow> u32 \<times> dram_t" where
  "note_idle j k d =
     (let b = bank j d in
      if b_mrq b = None then
        (if d_CCDc d = 0 \<and> d_RRDc d = 0 \<and> d_RTWc d = 0 \<and> d_WTRc d = 0 \<and> b_RCDc b = 0 \<and> b_RASc b = 0 \<and>
            b_RCc b = 0 \<and> b_RPc b = 0 \<and> b_RCDWRc b = 0 then k - 1 else k,
         on_bank j (\<lambda>b. b\<lparr>b_n_idle := b_n_idle b + 1\<rparr>) d)
      else (k, d))"

type_synonym issue_state = "(nat \<times> dram_command) option \<times> (nat \<times> dram_command) option \<times>
  (nat \<times> dram_command) list \<times> u32 \<times> dram_t \<times> world"

text \<open>The state of the issue loops: column command, row command, all commands in order, \<open>k\<close>.\<close>

definition try_col :: "dram_config \<Rightarrow> nat \<Rightarrow> issue_state \<Rightarrow> issue_state res" where
  "try_col c j = (\<lambda>(col, row, cs, k, d, w). andThen (issue_col_command c j d w) (\<lambda>(x, d1, w1).
     case x of None \<Rightarrow> Inr (col, row, cs, k, d1, w1)
     | Some x \<Rightarrow> Inr (Some (j, x), row, cs @ [(j, x)], k, d1, w1)))"

definition try_row :: "dram_config \<Rightarrow> nat \<Rightarrow> issue_state \<Rightarrow> issue_state res" where
  "try_row c j = (\<lambda>(col, row, cs, k, d, w). andThen (issue_row_command c j d w) (\<lambda>(x, d1, w1).
     case x of None \<Rightarrow> Inr (col, row, cs, k, d1, w1)
     | Some x \<Rightarrow> Inr (col, Some (j, x), cs @ [(j, x)], k, d1, w1)))"

definition try_idle :: "nat \<Rightarrow> issue_state \<Rightarrow> issue_state res" where
  "try_idle j = (\<lambda>(col, row, cs, k, d, w). let (k1, d1) = note_idle j k d in Inr (col, row, cs, k1, d1, w))"

definition state_of :: "issue_state \<Rightarrow> dram_t" where
  "state_of = (\<lambda>(col, row, cs, k, d, w). d)"

definition col_of :: "issue_state \<Rightarrow> (nat \<times> dram_command) option" where
  "col_of = (\<lambda>(col, row, cs, k, d, w). col)"

definition row_of :: "issue_state \<Rightarrow> (nat \<times> dram_command) option" where
  "row_of = (\<lambda>(col, row, cs, k, d, w). row)"

definition col_step :: "dram_config \<Rightarrow> nat \<Rightarrow> issue_state \<Rightarrow> issue_state res" where
  "col_step c i st = (if col_of st = None then try_col c (rotated c i (state_of st)) st else Inr st)"

definition row_step :: "dram_config \<Rightarrow> nat \<Rightarrow> issue_state \<Rightarrow> issue_state res" where
  "row_step c i st = (if row_of st = None then try_row c (rotated c i (state_of st)) st else Inr st)"

definition idle_step :: "dram_config \<Rightarrow> nat \<Rightarrow> issue_state \<Rightarrow> issue_state res" where
  "idle_step c i st = try_idle (rotated c i (state_of st)) st"

definition single_step :: "dram_config \<Rightarrow> nat \<Rightarrow> issue_state \<Rightarrow> issue_state res" where
  "single_step c i st =
     (let j = rotated c i (state_of st) in
      andThen (if col_of st = None then try_col c j st else Inr st) (\<lambda>st1.
      andThen (if col_of st1 = None \<and> row_of st1 = None then try_row c j st1 else Inr st1) (try_idle j)))"

definition issue_commands :: "dram_config \<Rightarrow> dram_t \<Rightarrow> world \<Rightarrow> issue_state res" where
  "issue_commands c d w =
     (let is' = [0..<unat (nbk c)]; st = (None, None, [], nbk c, d, w) in
      if dual_bus_interface c then
        andThen (foldM (col_step c) is' st) (\<lambda>st1.
        andThen (foldM (row_step c) is' st1) (foldM (idle_step c) is'))
      else foldM (single_step c) is' st)"

text \<open>Every bank with its group and its request, as the statistics loops read them.\<close>

definition survey :: "dram_config \<Rightarrow> dram_t \<Rightarrow> (nat \<times> nat \<times> dram_req_t option) list res" where
  "survey c d = foldM (\<lambda>j xs. andThen (get_bankgrp_number c j) (\<lambda>g.
     case b_mrq (bank j d) of None \<Rightarrow> Inr (xs @ [(j, g, None)])
     | Some r \<Rightarrow> andThen (req_at r d) (\<lambda>x. defined (g < length (d_bkgrp d)) (Inr (xs @ [(j, g, Some x)])))))
     [0..<unat (nbk c)] []"

definition has_open :: "dram_t \<Rightarrow> rw_mode \<Rightarrow> nat \<times> nat \<times> dram_req_t option \<Rightarrow> bool" where
  "has_open d dir = (\<lambda>(j, g, x). case x of None \<Rightarrow> False | Some x \<Rightarrow> row_open j x d \<and> dr_rw x = dir)"

definition has_ready :: "dram_t \<Rightarrow> nat \<times> nat \<times> dram_req_t option \<Rightarrow> bool" where
  "has_ready d = (\<lambda>(j, g, x). case x of None \<Rightarrow> False | Some x \<Rightarrow> can_read j g x d \<or> can_write j g x d)"

definition tally :: "('a \<Rightarrow> bool) \<Rightarrow> 'a list \<Rightarrow> nat" where
  "tally P xs = length (filter P xs)"

text \<open>\<open>bitset<8>::set\<close> throws for a ninth bank group.\<close>

definition note_parallelism :: "dram_t \<Rightarrow> (nat \<times> nat \<times> dram_req_t option) list \<Rightarrow> dram_locality \<Rightarrow> dram_locality res" where
  "note_parallelism d xs s =
     (let pending = tally (\<lambda>(j, g, x). x \<noteq> None) xs; rd = tally (has_open d READ) xs; wr = tally (has_open d WRITE) xs;
          ready = tally (has_ready d) xs;
          groups = map (\<lambda>(j, g, x). g) (filter (\<lambda>x. has_open d READ x \<or> has_open d WRITE x) xs) in
      if \<exists>g\<in>set groups. 8 \<le> g then Inl Thrown
      else Inr (s\<lparr>banks_1time := banks_1time s + of_nat pending,
        banks_acess_total := (if 0 < pending then banks_acess_total s + 1 else banks_acess_total s),
        banks_time_rw := banks_time_rw s + of_nat (rd + wr),
        bkgrp_parallsim_rw := bkgrp_parallsim_rw s + of_nat (length (remdups groups)),
        write_to_read_ratio_blp_rw_average := (if 0 < rd + wr then write_to_read_ratio_blp_rw_average s + real wr / real (wr + rd)
          else write_to_read_ratio_blp_rw_average s),
        banks_access_rw_total := (if 0 < rd + wr then banks_access_rw_total s + 1 else banks_access_rw_total s),
        banks_time_ready := banks_time_ready s + of_nat ready,
        banks_access_ready_total := (if 0 < ready then banks_access_ready_total s + 1 else banks_access_ready_total s)\<rparr>))"

definition bump :: "bool \<Rightarrow> u64 \<Rightarrow> u64" where
  "bump b n = (if b then n + 1 else n)"

definition note_limit :: "dram_t \<Rightarrow> nat \<times> nat \<times> dram_req_t option \<Rightarrow> dram_bandwidth \<Rightarrow> dram_bandwidth" where
  "note_limit d = (\<lambda>(j, g, x) s.
     let b = bank j d; ccdl = g_CCDLc (d_bkgrp d ! g) \<noteq> 0 in
     if has_open d READ (j, g, x) then
       s\<lparr>RCDc_limit := bump (b_RCDc b \<noteq> 0) (RCDc_limit s), CCDLc_limit := bump ccdl (CCDLc_limit s),
         WTRc_limit := bump (d_WTRc d \<noteq> 0) (WTRc_limit s), CCDc_limit := bump (d_CCDc d \<noteq> 0) (CCDc_limit s),
         rwq_limit := bump (full (d_rwq d)) (rwq_limit s),
         CCDLc_limit_alone := bump (ccdl \<and> d_WTRc d = 0) (CCDLc_limit_alone s),
         WTRc_limit_alone := bump (\<not> ccdl \<and> d_WTRc d \<noteq> 0) (WTRc_limit_alone s)\<rparr>
     else if has_open d WRITE (j, g, x) then
       s\<lparr>RCDWRc_limit := bump (b_RCDWRc b \<noteq> 0) (RCDWRc_limit s), CCDLc_limit := bump ccdl (CCDLc_limit s),
         RTWc_limit := bump (d_RTWc d \<noteq> 0) (RTWc_limit s), CCDc_limit := bump (d_CCDc d \<noteq> 0) (CCDc_limit s),
         rwq_limit := bump (full (d_rwq d)) (rwq_limit s),
         CCDLc_limit_alone := bump (ccdl \<and> d_RTWc d = 0) (CCDLc_limit_alone s),
         RTWc_limit_alone := bump (\<not> ccdl \<and> d_RTWc d \<noteq> 0) (RTWc_limit_alone s)\<rparr>
     else s)"

definition note_bandwidth :: "bool \<Rightarrow> dram_t \<Rightarrow> (nat \<times> nat \<times> dram_req_t option) list \<Rightarrow> dram_bandwidth \<Rightarrow> dram_bandwidth" where
  "note_bandwidth col d xs s =
     (if col \<or> d_CCDc d \<noteq> 0 then s\<lparr>util_bw := util_bw s + 1\<rparr>
      else if \<exists>x\<in>set xs. has_open d READ x \<or> has_open d WRITE x
      then fold (note_limit d) xs (s\<lparr>wasted_bw_col := wasted_bw_col s + 1\<rparr>)
      else if \<exists>(j, g, x)\<in>set xs. x \<noteq> None then s\<lparr>wasted_bw_row := wasted_bw_row s + 1\<rparr>
      else s\<lparr>idle_bw := idle_bw s + 1\<rparr>)"

definition note_queue :: "dram_config \<Rightarrow> dram_t \<Rightarrow> dram_t" where
  "note_queue c d =
     (let n = que_length c d; s = d_counts d; p = d_partial d in
      d\<lparr>d_counts := s\<lparr>max_mrqs := (if n > max_mrqs s then n else max_mrqs s), ave_mrqs := ave_mrqs s + n\<rparr>,
        d_partial := p\<lparr>ave_mrqs_partial := ave_mrqs_partial p + n\<rparr>\<rparr>)"

definition note_issued :: "bool \<Rightarrow> bool \<Rightarrow> u32 \<Rightarrow> dram_t \<Rightarrow> dram_t" where
  "note_issued col row k d =
     (let s = d_counts d; p = d_partial d; issued = (row \<or> col) in
      d\<lparr>d_counts := s\<lparr>n_nop := bump (\<not> issued) (n_nop s), n_activity := bump (k \<noteq> 0) (n_activity s),
          n_cmd := n_cmd s + 1, issued_total := bump issued (issued_total s),
          issued_two := bump (col \<and> row) (issued_two s), issued_total_col := bump col (issued_total_col s),
          issued_total_row := bump row (issued_total_row s)\<rparr>,
        d_partial := p\<lparr>n_nop_partial := (if issued then n_nop_partial p else n_nop_partial p + 1),
          n_activity_partial := (if k \<noteq> 0 then n_activity_partial p + 1 else n_activity_partial p),
          n_cmd_partial := n_cmd_partial p + 1\<rparr>\<rparr>)"

definition DEC2ZERO :: "u32 \<Rightarrow> u32" where
  "DEC2ZERO x = (if x \<noteq> 0 then x - 1 else 0)"

definition decrement_counters :: "dram_t \<Rightarrow> dram_t" where
  "decrement_counters d =
     d\<lparr>d_RRDc := DEC2ZERO (d_RRDc d), d_CCDc := DEC2ZERO (d_CCDc d), d_RTWc := DEC2ZERO (d_RTWc d),
       d_WTRc := DEC2ZERO (d_WTRc d),
       d_bk := map (\<lambda>b. b\<lparr>b_RCDc := DEC2ZERO (b_RCDc b), b_RASc := DEC2ZERO (b_RASc b), b_RCc := DEC2ZERO (b_RCc b),
         b_RPc := DEC2ZERO (b_RPc b), b_RCDWRc := DEC2ZERO (b_RCDWRc b), b_WTPc := DEC2ZERO (b_WTPc b),
         b_RTPc := DEC2ZERO (b_RTPc b)\<rparr>) (d_bk d),
       d_bkgrp := map (\<lambda>g. g\<lparr>g_CCDLc := DEC2ZERO (g_CCDLc g), g_RTPLc := DEC2ZERO (g_RTPLc g)\<rparr>) (d_bkgrp d)\<rparr>"

text \<open>The burst that leaves the pipeline; with the last one the request is answered, or reported done and
  deleted when it is a write-back.\<close>

definition finish_burst :: "dram_config \<Rightarrow> (mfref \<Rightarrow> 'e \<Rightarrow> world \<Rightarrow> ('e \<times> world) res) \<Rightarrow>
    dram_t \<Rightarrow> world \<Rightarrow> 'e \<Rightarrow> (dram_t \<times> world \<times> 'e) res" where
  "finish_burst c report d w e =
     (if full (d_returnq d) then Inr (d, w, e)
      else andThen (pop (d_rwq d)) (\<lambda>(cmd, q).
        case cmd of None \<Rightarrow> Inr (d\<lparr>d_rwq := q\<rparr>, w, e)
        | Some r \<Rightarrow>
            andThen (req_at r d) (\<lambda>x.
            let x1 = x\<lparr>dr_dqbytes := dr_dqbytes x + dram_atom_size c\<rparr>; d1 = d\<lparr>d_rwq := q\<rparr> in
            if dr_dqbytes x1 \<ge> dr_nbytes x1 then
              andThen (status_at IN_PARTITION_MC_RETURNQ (dr_data x) w) (\<lambda>w1.
              andThen (deref (dr_data x) w1) (\<lambda>m.
              if get_access_type m \<noteq> L1_WRBK_ACC \<and> get_access_type m \<noteq> L2_WRBK_ACC then
                andThen (reply_at (dr_data x) w1) (\<lambda>w2.
                andThen (push (Some (dr_data x)) (d_returnq d1)) (\<lambda>rq.
                  Inr (d1\<lparr>d_returnq := rq, d_reqs := (d_reqs d1)(r := None)\<rparr>, w2, e)))
              else
                andThen (report (dr_data x) e w1) (\<lambda>(e1, w2).
                andThen (delete_mf (dr_data x) w2) (\<lambda>w3.
                  Inr (d1\<lparr>d_reqs := (d_reqs d1)(r := None)\<rparr>, w3, e1)))))
            else Inr (set_req r x1 d1, w, e))))"

definition dram_cycle :: "dram_config \<Rightarrow> (mfref \<Rightarrow> 'e \<Rightarrow> world \<Rightarrow> ('e \<times> world) res) \<Rightarrow>
    dram_t \<Rightarrow> world \<Rightarrow> 'e \<Rightarrow> ((nat \<times> dram_command) list \<times> dram_t \<times> world \<times> 'e) res" where
  "dram_cycle c report d w e =
     andThen (finish_burst c report d w e) (\<lambda>(d1, w1, e1).
     andThen (case scheduler_type c of DRAM_FIFO \<Rightarrow> scheduler_fifo c d1 w1 | DRAM_FRFCFS \<Rightarrow> scheduler_frfcfs c d1 w1) (\<lambda>(d2, w2).
     let d3 = note_queue c d2 in
     andThen (survey c d3) (\<lambda>xs.
     andThen (note_parallelism d3 xs (d_locality d3)) (\<lambda>loc.
     andThen (issue_commands c (d3\<lparr>d_locality := loc\<rparr>) w2) (\<lambda>(col, row, cs, k, d4, w3).
     let d5 = note_issued (col \<noteq> None) (row \<noteq> None) k d4 in
     andThen (survey c d5) (\<lambda>ys.
     let l = d_locality d5;
         d6 = d5\<lparr>d_locality := l\<lparr>banks_acess_total_after := bump (\<exists>(j, g, x)\<in>set ys. x \<noteq> None) (banks_acess_total_after l)\<rparr>,
                d_bandwidth := note_bandwidth (col \<noteq> None) d5 ys (d_bandwidth d5)\<rparr> in
     Inr (cs, decrement_counters d6, w3, e1)))))))"

definition set_dram_power_stats :: "dram_t \<Rightarrow> u32 \<times> u32 \<times> u32 \<times> u32 \<times> u32 \<times> u32 \<times> u32 \<times> u32" where
  "set_dram_power_stats d =
     (let s = d_counts d in (ucast (n_cmd s), ucast (n_activity s), ucast (n_nop s), ucast (n_act s), ucast (n_pre s),
        ucast (n_rd s), ucast (n_wr s), ucast (n_req s)))"

end
