(* ===== verification/Dram_Timing.thy ===== *)
theory Dram_Timing
  imports Dram
begin

text \<open>
  The timing of the DRAM commands.  A timer that is armed by one command, counts down once per cycle and
  must be zero for another command keeps the two apart: this is the locale \<open>countdown\<close>, interpreted on the
  counters of the controller.  Shown: over every run of the controller, whatever the scheduler, the bus
  mode and the order of requests, any two commands respect the table \<open>required_gaps\<close> of minimal distances.
\<close>

section \<open>Countdown timers\<close>

locale countdown =
  fixes inv :: "'s \<Rightarrow> bool" and timer :: "'t \<Rightarrow> bool" and val :: "'t \<Rightarrow> 's \<Rightarrow> nat" and limit :: "'t \<Rightarrow> nat"
    and arms :: "'e \<Rightarrow> 't set" and guards :: "'e \<Rightarrow> 't set"
    and issue :: "'e \<Rightarrow> 's \<Rightarrow> 's \<Rightarrow> bool" and quiet :: "'s \<Rightarrow> 's \<Rightarrow> bool" and tick :: "'s \<Rightarrow> 's \<Rightarrow> bool"
  assumes issue_inv: "inv s \<Longrightarrow> issue e s s' \<Longrightarrow> inv s'"
    and quiet_inv: "inv s \<Longrightarrow> quiet s s' \<Longrightarrow> inv s'"
    and tick_inv: "inv s \<Longrightarrow> tick s s' \<Longrightarrow> inv s'"
    and arms_timer: "inv s \<Longrightarrow> issue e s s' \<Longrightarrow> t \<in> arms e \<Longrightarrow> timer t"
    and issue_guard: "inv s \<Longrightarrow> issue e s s' \<Longrightarrow> t \<in> guards e \<Longrightarrow> val t s = 0"
    and issue_arms: "inv s \<Longrightarrow> issue e s s' \<Longrightarrow> timer t \<Longrightarrow> val t s' = (if t \<in> arms e then limit t else val t s)"
    and quiet_val: "inv s \<Longrightarrow> quiet s s' \<Longrightarrow> timer t \<Longrightarrow> val t s' = val t s"
    and tick_val: "inv s \<Longrightarrow> tick s s' \<Longrightarrow> timer t \<Longrightarrow> val t s' = val t s - 1"
begin

text \<open>Runs, with the commands issued; \<open>None\<close> is a tick.\<close>

inductive run :: "'s \<Rightarrow> 'e option list \<Rightarrow> 's \<Rightarrow> bool" where
  run_nil: "run s [] s"
| run_quiet: "run s ls s1 \<Longrightarrow> quiet s1 s2 \<Longrightarrow> run s ls s2"
| run_issue: "run s ls s1 \<Longrightarrow> issue e s1 s2 \<Longrightarrow> run s (ls @ [Some e]) s2"
| run_tick: "run s ls s1 \<Longrightarrow> tick s1 s2 \<Longrightarrow> run s (ls @ [None]) s2"

definition ticks :: "'e option list \<Rightarrow> nat" where
  "ticks ls = length (filter (\<lambda>l. l = None) ls)"

lemma run_inv: "run s ls s' \<Longrightarrow> inv s \<Longrightarrow> inv s'"
  by (induction rule: run.induct) (auto intro: issue_inv quiet_inv tick_inv)

lemma run_trans: "run s1 ls' s2 \<Longrightarrow> run s ls s1 \<Longrightarrow> run s (ls @ ls') s2"
  by (induction rule: run.induct)
    (auto simp: append_assoc [symmetric] simp del: append_assoc intro: run.intros)

text \<open>The value of an armed timer, plus the ticks since, is at least its limit.\<close>

lemma armed_value:
  assumes "run s ls s'" and "inv s"
  shows "ls = xs @ Some e # ys \<Longrightarrow> t \<in> arms e \<Longrightarrow> timer t \<and> limit t \<le> val t s' + ticks ys"
  using assms
proof (induction arbitrary: ys rule: run.induct)
  case (run_quiet s ls s1 s2)
  with quiet_val [OF run_inv [OF run_quiet.hyps(1)] run_quiet.hyps(2)] show ?case by metis
next
  case (run_issue s ls s1 e' s2)
  note inv1 = run_inv [OF run_issue.hyps(1) run_issue.prems(3)]
  show ?case
  proof (cases ys rule: rev_cases)
    case Nil
    with run_issue.prems(1) have "e' = e" by simp
    with arms_timer [OF inv1 run_issue.hyps(2)] issue_arms [OF inv1 run_issue.hyps(2)] run_issue.prems(2)
    show ?thesis by auto
  next
    case (snoc zs l)
    with run_issue.prems(1) have l: "ls = xs @ Some e # zs" "l = Some e'" by simp_all
    from run_issue.IH [OF l(1) run_issue.prems(2,3)] issue_arms [OF inv1 run_issue.hyps(2)]
    show ?thesis by (simp add: snoc l(2) ticks_def)
  qed
next
  case (run_tick s ls s1 s2)
  note inv1 = run_inv [OF run_tick.hyps(1) run_tick.prems(3)]
  show ?case
  proof (cases ys rule: rev_cases)
    case Nil
    with run_tick.prems(1) show ?thesis by simp
  next
    case (snoc zs l)
    with run_tick.prems(1) have l: "ls = xs @ Some e # zs" "l = None" by simp_all
    from run_tick.IH [OF l(1) run_tick.prems(2,3)] have "timer t" "limit t \<le> val t s1 + ticks zs" by simp_all
    moreover have "ticks ys = Suc (ticks zs)" by (simp add: snoc l(2) ticks_def)
    ultimately show ?thesis using tick_val [OF inv1 run_tick.hyps(2), of t] by simp
  qed
qed simp

theorem spacing:
  assumes "run s ls s'" and "inv s"
  shows "ls = xs @ Some e1 # ys @ Some e2 # zs \<Longrightarrow> t \<in> arms e1 \<Longrightarrow> t \<in> guards e2 \<Longrightarrow> limit t \<le> ticks ys"
  using assms
proof (induction arbitrary: zs rule: run.induct)
  case (run_issue s ls s1 e' s2)
  note inv1 = run_inv [OF run_issue.hyps(1) run_issue.prems(4)]
  show ?case
  proof (cases zs rule: rev_cases)
    case Nil
    with run_issue.prems(1) have l: "ls = xs @ Some e1 # ys" "e' = e2" by simp_all
    from armed_value [OF run_issue.hyps(1) run_issue.prems(4) l(1) run_issue.prems(2)]
      issue_guard [OF inv1 run_issue.hyps(2)] run_issue.prems(3) l(2)
    show ?thesis by simp
  next
    case (snoc us l)
    with run_issue.prems(1) have "ls = xs @ Some e1 # ys @ Some e2 # us" by simp
    from run_issue.IH [OF this run_issue.prems(2-4)] show ?thesis .
  qed
next
  case (run_tick s ls s1 s2)
  then obtain us where "ls = xs @ Some e1 # ys @ Some e2 # us" by (cases zs rule: rev_cases) auto
  from run_tick.IH [OF this run_tick.prems(2-4)] show ?case .
qed auto

end

section \<open>The timers of the controller\<close>

datatype timer =
    T_RRD
  | T_CCD
  | T_RTW
  | T_WTR
  | T_RCD nat
  | T_RCDWR nat
  | T_RAS nat
  | T_RP nat
  | T_RC nat
  | T_WTP nat
  | T_RTP nat
  | T_CCDL nat
  | T_RTPL nat

fun timer_val :: "timer \<Rightarrow> dram_t \<Rightarrow> u32" where
  "timer_val T_RRD d = d_RRDc d"
| "timer_val T_CCD d = d_CCDc d"
| "timer_val T_RTW d = d_RTWc d"
| "timer_val T_WTR d = d_WTRc d"
| "timer_val (T_RCD j) d = b_RCDc (bank j d)"
| "timer_val (T_RCDWR j) d = b_RCDWRc (bank j d)"
| "timer_val (T_RAS j) d = b_RASc (bank j d)"
| "timer_val (T_RP j) d = b_RPc (bank j d)"
| "timer_val (T_RC j) d = b_RCc (bank j d)"
| "timer_val (T_WTP j) d = b_WTPc (bank j d)"
| "timer_val (T_RTP j) d = b_RTPc (bank j d)"
| "timer_val (T_CCDL g) d = g_CCDLc (d_bkgrp d ! g)"
| "timer_val (T_RTPL g) d = g_RTPLc (d_bkgrp d ! g)"

fun timer_limit :: "dram_config \<Rightarrow> timer \<Rightarrow> u32" where
  "timer_limit c T_RRD = tRRD c"
| "timer_limit c T_CCD = tCCD c"
| "timer_limit c T_RTW = tRTW c"
| "timer_limit c T_WTR = tWTR c"
| "timer_limit c (T_RCD j) = tRCD c"
| "timer_limit c (T_RCDWR j) = tRCDWR c"
| "timer_limit c (T_RAS j) = tRAS c"
| "timer_limit c (T_RP j) = tRP c"
| "timer_limit c (T_RC j) = tRC c"
| "timer_limit c (T_WTP j) = tWTP c"
| "timer_limit c (T_RTP j) = burst_cycles c"
| "timer_limit c (T_CCDL g) = tCCDL c"
| "timer_limit c (T_RTPL g) = tRTPL c"

definition group_of :: "dram_config \<Rightarrow> nat \<Rightarrow> nat" where
  "group_of c j = (case get_bankgrp_number c j of Inl e \<Rightarrow> 0 | Inr g \<Rightarrow> g)"

fun arms_of :: "dram_config \<Rightarrow> nat \<times> dram_command \<Rightarrow> timer set" where
  "arms_of c (j, RD) = {T_CCD, T_RTW, T_RTP j, T_CCDL (group_of c j), T_RTPL (group_of c j)}"
| "arms_of c (j, WR) = {T_CCD, T_WTR, T_WTP j, T_CCDL (group_of c j)}"
| "arms_of c (j, ACT) = {T_RRD, T_RCD j, T_RCDWR j, T_RAS j, T_RC j}"
| "arms_of c (j, PRE) = {T_RP j}"

fun guards_of :: "dram_config \<Rightarrow> nat \<times> dram_command \<Rightarrow> timer set" where
  "guards_of c (j, RD) = {T_CCD, T_WTR, T_RCD j, T_CCDL (group_of c j)}"
| "guards_of c (j, WR) = {T_CCD, T_RTW, T_RCDWR j, T_CCDL (group_of c j)}"
| "guards_of c (j, ACT) = {T_RRD, T_RP j, T_RC j}"
| "guards_of c (j, PRE) = {T_RAS j, T_WTP j, T_RTP j, T_RTPL (group_of c j)}"

fun timer_ok :: "dram_config \<Rightarrow> timer \<Rightarrow> bool" where
  "timer_ok c T_RRD = True"
| "timer_ok c T_CCD = True"
| "timer_ok c T_RTW = True"
| "timer_ok c T_WTR = True"
| "timer_ok c (T_RCD j) = (j < unat (nbk c))"
| "timer_ok c (T_RCDWR j) = (j < unat (nbk c))"
| "timer_ok c (T_RAS j) = (j < unat (nbk c))"
| "timer_ok c (T_RP j) = (j < unat (nbk c))"
| "timer_ok c (T_RC j) = (j < unat (nbk c))"
| "timer_ok c (T_WTP j) = (j < unat (nbk c))"
| "timer_ok c (T_RTP j) = (j < unat (nbk c))"
| "timer_ok c (T_CCDL g) = (g < unat (nbkgrp c))"
| "timer_ok c (T_RTPL g) = (g < unat (nbkgrp c))"

text \<open>The shape of a controller: as many banks and groups as configured.\<close>

definition shape :: "dram_config \<Rightarrow> dram_t \<Rightarrow> bool" where
  "shape c d \<longleftrightarrow> length (d_bk d) = unat (nbk c) \<and> length (d_bkgrp d) = unat (nbkgrp c)"

text \<open>A step that leaves shape and timers alone.\<close>

definition quiet_step :: "dram_config \<Rightarrow> dram_t \<Rightarrow> dram_t \<Rightarrow> bool" where
  "quiet_step c d d' \<longleftrightarrow> (shape c d \<longrightarrow> shape c d' \<and> (\<forall>t. timer_ok c t \<longrightarrow> timer_val t d' = timer_val t d))"

definition issue_step :: "dram_config \<Rightarrow> nat \<times> dram_command \<Rightarrow> dram_t \<Rightarrow> dram_t \<Rightarrow> bool" where
  "issue_step c e d d' \<longleftrightarrow> (shape c d \<longrightarrow> shape c d' \<and> (\<forall>t\<in>arms_of c e. timer_ok c t) \<and>
     (\<forall>t\<in>guards_of c e. timer_val t d = 0) \<and>
     (\<forall>t. timer_ok c t \<longrightarrow> timer_val t d' = (if t \<in> arms_of c e then timer_limit c t else timer_val t d)))"

definition tick_step :: "dram_config \<Rightarrow> dram_t \<Rightarrow> dram_t \<Rightarrow> bool" where
  "tick_step c d d' \<longleftrightarrow> d' = decrement_counters d"

lemma DEC2ZERO_unat: "unat (DEC2ZERO x) = unat x - 1"
  by (simp add: DEC2ZERO_def unat_minus_one)

lemma tick_timers: "shape c d \<Longrightarrow> timer_ok c t \<Longrightarrow> unat (timer_val t (decrement_counters d)) = unat (timer_val t d) - 1"
  by (cases t) (simp_all add: decrement_counters_def shape_def bank_def DEC2ZERO_unat)

interpretation dram: countdown "shape c" "timer_ok c" "\<lambda>t d. unat (timer_val t d)" "\<lambda>t. unat (timer_limit c t)"
  "arms_of c" "guards_of c" "issue_step c" "quiet_step c" "tick_step c" for c
proof unfold_locales
  show "shape c s \<Longrightarrow> tick_step c s s' \<Longrightarrow> shape c s'" for s s'
    by (simp add: shape_def tick_step_def decrement_counters_def)
  show "shape c s \<Longrightarrow> tick_step c s s' \<Longrightarrow> timer_ok c t \<Longrightarrow> unat (timer_val t s') = unat (timer_val t s) - 1" for s s' t
    by (simp add: tick_step_def tick_timers)
qed (simp_all add: issue_step_def quiet_step_def)

section \<open>Operations that leave the timers alone\<close>

text \<open>What holds of a result, with one rule per construct.\<close>

definition post :: "('a \<Rightarrow> bool) \<Rightarrow> 'a res \<Rightarrow> bool" where
  "post P m \<longleftrightarrow> (\<forall>y. m = Inr y \<longrightarrow> P y)"

named_theorems post_rules "rules for what holds of a result"

lemma post_D: "post P m \<Longrightarrow> m = Inr y \<Longrightarrow> P y"
  by (simp add: post_def)

lemma post_Inl [post_rules]: "post P (Inl e)"
  by (simp add: post_def)

lemma post_Inr [post_rules]: "P y \<Longrightarrow> post P (Inr y)"
  by (simp add: post_def)

lemma post_andThen [post_rules]: "(\<And>x. m = Inr x \<Longrightarrow> post P (k x)) \<Longrightarrow> post P (andThen m k)"
  by (auto simp: post_def res_simps)

lemma post_check [post_rules]: "(b \<Longrightarrow> post P k) \<Longrightarrow> post P (check b k)"
  by (auto simp: post_def res_simps)

lemma post_defined [post_rules]: "(b \<Longrightarrow> post P k) \<Longrightarrow> post P (defined b k)"
  by (auto simp: post_def res_simps)

lemma post_if [post_rules]: "(b \<Longrightarrow> post P m) \<Longrightarrow> (\<not> b \<Longrightarrow> post P m') \<Longrightarrow> post P (if b then m else m')"
  by simp

lemma post_option [post_rules]:
  "(x = None \<Longrightarrow> post P m) \<Longrightarrow> (\<And>y. x = Some y \<Longrightarrow> post P (k y)) \<Longrightarrow>
     post P (case x of None \<Rightarrow> m | Some y \<Rightarrow> k y)"
  by (cases x) simp_all

lemma post_prod [post_rules]: "(\<And>a b. x = (a, b) \<Longrightarrow> post P (k a b)) \<Longrightarrow> post P (case x of (a, b) \<Rightarrow> k a b)"
  by (cases x) simp

definition bank_timers :: "bank_t \<Rightarrow> u32 list" where
  "bank_timers b = [b_RCDc b, b_RCDWRc b, b_RASc b, b_RPc b, b_RCc b, b_WTPc b, b_RTPc b]"

definition same_timers :: "dram_t \<Rightarrow> dram_t \<Rightarrow> bool" where
  "same_timers d d' \<longleftrightarrow> d_RRDc d' = d_RRDc d \<and> d_CCDc d' = d_CCDc d \<and> d_RTWc d' = d_RTWc d \<and> d_WTRc d' = d_WTRc d \<and>
     d_bkgrp d' = d_bkgrp d \<and> map bank_timers (d_bk d') = map bank_timers (d_bk d)"

lemma same_timers_refl [simp]: "same_timers d d"
  by (simp add: same_timers_def)

lemma same_timers_trans: "same_timers d1 d2 \<Longrightarrow> same_timers d2 d3 \<Longrightarrow> same_timers d1 d3"
  by (simp add: same_timers_def)

lemma same_timers_fields:
  "d_RRDc d' = d_RRDc d \<Longrightarrow> d_CCDc d' = d_CCDc d \<Longrightarrow> d_RTWc d' = d_RTWc d \<Longrightarrow> d_WTRc d' = d_WTRc d \<Longrightarrow>
   d_bkgrp d' = d_bkgrp d \<Longrightarrow> d_bk d' = d_bk d \<Longrightarrow> same_timers d d'"
  by (simp add: same_timers_def)

lemma same_timers_on_bank:
  assumes "same_timers d d'" and "\<And>b. bank_timers (f b) = bank_timers b"
  shows "same_timers d (on_bank j f d')"
proof -
  have "map bank_timers ((d_bk d')[j := f (d_bk d' ! j)]) = map bank_timers (d_bk d')"
    by (cases "j < length (d_bk d')") (simp_all add: map_update assms(2) list_update_same_conv list_update_beyond)
  with assms(1) show ?thesis by (simp add: same_timers_def on_bank_def)
qed

lemma same_timers_shape: "same_timers d d' \<Longrightarrow> shape c d \<Longrightarrow> shape c d'"
  by (metis (no_types, lifting) length_map same_timers_def shape_def)

lemma same_timers_val:
  assumes "same_timers d d'" and "shape c d" and "timer_ok c t"
  shows "timer_val t d' = timer_val t d"
proof -
  have l: "length (d_bk d) = unat (nbk c)" "length (d_bk d') = unat (nbk c)"
    using assms(2) same_timers_shape [OF assms(1,2)] by (simp_all add: shape_def)
  have "bank_timers (bank j d') = bank_timers (bank j d)" if "j < unat (nbk c)" for j
    using assms(1) that l unfolding same_timers_def bank_def by (metis nth_map)
  with assms(1,3) show ?thesis by (cases t) (auto simp: same_timers_def bank_timers_def)
qed

lemma same_timers_quiet: "same_timers d d' \<Longrightarrow> quiet_step c d d'"
  by (auto simp: quiet_step_def same_timers_val same_timers_shape)

lemma finish_burst_timers: "finish_burst c report d w e = Inr (d', w', e') \<Longrightarrow> same_timers d d'"
proof -
  have "post (\<lambda>(d', w', e'). same_timers d d') (finish_burst c report d w e)"
    unfolding finish_burst_def Let_def
    by (intro post_rules) (simp_all add: same_timers_def set_req_def)
  then show "finish_burst c report d w e = Inr (d', w', e') \<Longrightarrow> same_timers d d'" by (auto dest: post_D)
qed

lemma schedule_from_timers: "schedule_from c b r qs store d w = Inr (x, d') \<Longrightarrow> same_timers d d'"
proof -
  have "post (\<lambda>(x, d'). same_timers d d') (schedule_from c b r qs store d w)"
    unfolding schedule_from_def Let_def
    by (intro post_rules) (simp_all add: same_timers_def)
  then show "schedule_from c b r qs store d w = Inr (x, d') \<Longrightarrow> same_timers d d'" by (auto dest: post_D)
qed

lemma schedule_timers:
  assumes "schedule c b r d w = Inr (x, d')"
  shows "same_timers d d'"
proof -
  have "same_timers (d\<lparr>d_sched := (d_sched d)\<lparr>fs_mode := schedule_mode c (d_sched d)\<rparr>\<rparr>) d'"
    using assms by (auto simp: schedule_def Let_def split: if_splits dest: schedule_from_timers)
  then show ?thesis by (rule same_timers_trans [rotated]) (simp add: same_timers_def)
qed

lemma drain_mrqq_timers: "drain_mrqq c d w = Inr (d', w') \<Longrightarrow> same_timers d d'"
proof (induction c d w rule: drain_mrqq.induct)
  case (1 c d w)
  show ?case
  proof (cases "empty (d_mrqq d)")
    case True
    with "1.prems" show ?thesis by (simp add: drain_mrqq.simps [of c d w])
  next
    case False
    with "1.prems" obtain r q x w1 m s where p: "pop (d_mrqq d) = Inr (Some r, q)" and x: "req_at r d = Inr x"
      and w1: "status_at IN_PARTITION_MC_INPUT_QUEUE (dr_data x) w = Inr w1" and m: "deref (dr_data x) w1 = Inr m"
      and s: "add_req c r x (is_write m) (d_sched d) = Inr s"
      and rest: "drain_mrqq c (d\<lparr>d_mrqq := q, d_sched := s\<rparr>) w1 = Inr (d', w')"
      by (subst (asm) drain_mrqq.simps) (auto simp: res_simps split: sum.splits prod.splits option.splits)
    have "same_timers (d\<lparr>d_mrqq := q, d_sched := s\<rparr>) d'"
      by (rule "1.IH" [OF False p refl refl x w1 m s rest])
    then show ?thesis by (rule same_timers_trans [rotated]) (simp add: same_timers_def)
  qed
qed

lemma same_timers_set_req: "same_timers d d' \<Longrightarrow> same_timers d (set_req r y d')"
  by (simp add: same_timers_def set_req_def)

lemma same_timers_prio: "same_timers d d' \<Longrightarrow> same_timers d (d'\<lparr>d_prio := p\<rparr>)"
  by (simp add: same_timers_def)

lemma assign_loop_timers: "post (\<lambda>(d', w'). same_timers d d') (assign_loop c bs d w)"
proof (induction bs arbitrary: d)
  case Nil
  show ?case by (simp add: post_Inr)
next
  case (Cons b bs)
  have got: "same_timers d1 (on_bank b (\<lambda>k. k\<lparr>b_mrq := Some r\<rparr>) (d1\<lparr>d_prio := p\<rparr>))" for d1 r p
    by (intro same_timers_on_bank same_timers_prio) (simp_all add: bank_timers_def)
  have next_bank: "post (\<lambda>(d', w'). same_timers d d') (assign_loop c bs d1 w)" if "same_timers d d1" for d1
    using Cons.IH [of d1] that by (auto simp: post_def intro: same_timers_trans)
  show ?case
    unfolding assign_loop.simps Let_def
  proof (intro post_rules, goal_cases)
    case (1 x x1 d1)
    then have "same_timers d d1" by (auto dest: schedule_timers)
    then show ?case by (rule next_bank)
  next
    case (2 x x1 d1 r y w1)
    then have "same_timers d d1" by (auto dest: schedule_timers)
    then have "same_timers d (on_bank b (\<lambda>k. k\<lparr>b_mrq := Some r\<rparr>) (d1\<lparr>d_prio := p\<rparr>))" for p
      using got by (rule same_timers_trans)
    then show ?case by (auto intro: same_timers_set_req)
  next
    case 3
    show ?case by (rule Cons.IH)
  qed
qed

lemma scheduler_frfcfs_timers: "scheduler_frfcfs c d w = Inr (d', w') \<Longrightarrow> same_timers d d'"
  by (auto simp: scheduler_frfcfs_def res_simps split: prod.splits
      dest!: drain_mrqq_timers post_D [OF assign_loop_timers] intro: same_timers_trans)

lemma scheduler_fifo_timers: "scheduler_fifo c d w = Inr (d', w') \<Longrightarrow> same_timers d d'"
  by (auto simp: scheduler_fifo_def res_simps Let_def bank_timers_def split: option.splits if_splits prod.splits
      intro!: same_timers_on_bank same_timers_fields)

lemma note_idle_timers: "note_idle j k d = (k', d') \<Longrightarrow> same_timers d d'"
  by (auto simp: note_idle_def Let_def bank_timers_def split: if_splits intro!: same_timers_on_bank)

lemma dram_push_timers: "dram_push c mf d w = Inr (d', w') \<Longrightarrow> same_timers d d'"
  by (auto simp: dram_push_def res_simps Let_def intro!: same_timers_fields)

lemma return_queue_pop_timers: "return_queue_pop d = Inr (x, d') \<Longrightarrow> same_timers d d'"
  by (auto simp: return_queue_pop_def res_simps split: prod.splits intro!: same_timers_fields)

section \<open>Issuing\<close>

lemma start_burst_timers:
  assumes "start_burst c dir j r x d = Inr d'"
  shows "same_timers d d'"
proof -
  have "post (same_timers d) (start_burst c dir j r x d)"
    unfolding start_burst_def Let_def
    by (intro post_rules same_timers_on_bank) (simp_all add: same_timers_def set_req_def bank_timers_def)
  then show ?thesis using assms by (rule post_D)
qed

lemma count_timers: "same_timers d d' \<Longrightarrow> same_timers d (count_read c b d')" "same_timers d d' \<Longrightarrow> same_timers d (count_write c b d')"
  by (simp_all add: count_read_def count_write_def Let_def same_timers_def)

lemma shape_timers:
  "shape c d \<Longrightarrow> shape c (read_timers c j g d)" "shape c d \<Longrightarrow> shape c (write_timers c j g d)"
  "shape c d \<Longrightarrow> shape c (activate c j x d)" "shape c d \<Longrightarrow> shape c (precharge c j d)"
  by (simp_all add: shape_def read_timers_def write_timers_def activate_def precharge_def Let_def on_bank_def on_group_def)

lemmas effect_simps = bank_def on_bank_def on_group_def Let_def nth_list_update shape_def

lemma command_effects:
  assumes "shape c d" and "j < unat (nbk c)" and "timer_ok c t"
  shows "group_of c j < unat (nbkgrp c) \<Longrightarrow> timer_val t (read_timers c j (group_of c j) d) =
      (if t \<in> arms_of c (j, RD) then timer_limit c t else timer_val t d)"
    and "group_of c j < unat (nbkgrp c) \<Longrightarrow> timer_val t (write_timers c j (group_of c j) d) =
      (if t \<in> arms_of c (j, WR) then timer_limit c t else timer_val t d)"
    and "timer_val t (activate c j x d) = (if t \<in> arms_of c (j, ACT) then timer_limit c t else timer_val t d)"
    and "timer_val t (precharge c j d) = (if t \<in> arms_of c (j, PRE) then timer_limit c t else timer_val t d)"
  using assms
  by (cases t; simp add: read_timers_def write_timers_def activate_def precharge_def effect_simps)+

lemma issue_by_effect:
  assumes s1: "same_timers d d1" and s3: "same_timers d2 d3" and s2: "shape c d1 \<Longrightarrow> shape c d2"
    and eff: "\<And>t. shape c d1 \<Longrightarrow> timer_ok c t \<Longrightarrow>
      timer_val t d2 = (if t \<in> arms_of c e then timer_limit c t else timer_val t d1)"
    and ok: "\<And>t. shape c d \<Longrightarrow> t \<in> arms_of c e \<Longrightarrow> timer_ok c t"
    and guards: "\<forall>t\<in>guards_of c e. timer_val t d = 0"
  shows "issue_step c e d d3"
  unfolding issue_step_def
proof
  assume s: "shape c d"
  note sh1 = same_timers_shape [OF s1 s]
  note sh2 = s2 [OF sh1]
  have "timer_val t d3 = (if t \<in> arms_of c e then timer_limit c t else timer_val t d)" if "timer_ok c t" for t
    using same_timers_val [OF s3 sh2 that] eff [OF sh1 that] same_timers_val [OF s1 s that] by simp
  then show "shape c d3 \<and> (\<forall>t\<in>arms_of c e. timer_ok c t) \<and> (\<forall>t\<in>guards_of c e. timer_val t d = 0) \<and>
    (\<forall>t. timer_ok c t \<longrightarrow> timer_val t d3 = (if t \<in> arms_of c e then timer_limit c t else timer_val t d))"
    using same_timers_shape [OF s3 sh2] ok [OF s] guards by blast
qed

text \<open>What a call of an issue function does: nothing, or one legal command.\<close>

definition issued :: "dram_config \<Rightarrow> nat \<Rightarrow> dram_t \<Rightarrow> dram_command option \<times> dram_t \<times> world \<Rightarrow> bool" where
  "issued c j d = (\<lambda>(x, d', w'). case x of None \<Rightarrow> d' = d | Some cmd \<Rightarrow> issue_step c (j, cmd) d d')"

lemma issue_col_issued:
  assumes "shape c d" and "j < unat (nbk c)"
  shows "post (issued c j d) (issue_col_command c j d w)"
  unfolding issue_col_command_def
proof (intro post_rules, goal_cases)
  case (2 g r x w1 m d1)
  then have g: "g = group_of c j" "g < unat (nbkgrp c)" using assms(1) by (simp_all add: group_of_def shape_def)
  have "issue_step c (j, RD) d (count_read c (get_access_type m = L2_WR_ALLOC_R) (read_timers c j g d1))"
    by (rule issue_by_effect [OF start_burst_timers [OF \<open>start_burst c READ j r x d = Inr d1\<close>] count_timers(1) [OF same_timers_refl]])
      (use 2 g assms(2) in \<open>auto simp: command_effects shape_timers can_read_def\<close>)
  then show ?case by (simp add: issued_def)
next
  case (3 g r x w1 m d1)
  then have g: "g = group_of c j" "g < unat (nbkgrp c)" using assms(1) by (simp_all add: group_of_def shape_def)
  have "issue_step c (j, WR) d (count_write c (get_access_type m = L2_WRBK_ACC) (write_timers c j g d1))"
    by (rule issue_by_effect [OF start_burst_timers [OF \<open>start_burst c WRITE j r x d = Inr d1\<close>] count_timers(2) [OF same_timers_refl]])
      (use 3 g assms(2) in \<open>auto simp: command_effects shape_timers can_write_def\<close>)
  then show ?case by (simp add: issued_def)
qed (simp_all add: issued_def)

lemma issue_row_issued:
  assumes "shape c d" and "j < unat (nbk c)"
  shows "post (issued c j d) (issue_row_command c j d w)"
  unfolding issue_row_command_def Let_def
proof (intro post_rules, goal_cases)
  case (2 g r x w1)
  have "issue_step c (j, ACT) d (activate c j x d)"
    by (rule issue_by_effect [OF same_timers_refl same_timers_refl])
      (use 2 assms(2) in \<open>auto simp: command_effects shape_timers bank_def\<close>)
  then show ?case by (simp add: issued_def)
next
  case (3 g r x w1)
  then have g: "g = group_of c j" by (simp add: group_of_def)
  have "issue_step c (j, PRE) d (precharge c j d)"
    by (rule issue_by_effect [OF same_timers_refl same_timers_refl])
      (use 3 g assms(2) in \<open>auto simp: command_effects shape_timers bank_def\<close>)
  then show ?case by (simp add: issued_def)
qed (simp_all add: issued_def)

section \<open>Cycles\<close>

lemma post_foldM:
  "(\<And>x s. x \<in> set xs \<Longrightarrow> P s \<Longrightarrow> post P (f x s)) \<Longrightarrow> P s \<Longrightarrow> post P (foldM f xs s)"
proof (induction xs arbitrary: s)
  case Nil
  then show ?case by (simp add: post_Inr)
next
  case (Cons x xs)
  have "post P (f x s)" using Cons.prems by simp
  then have "post P (foldM f xs s1)" if "f x s = Inr s1" for s1
    using Cons that by (auto dest: post_D)
  then show ?case by (auto intro: post_rules)
qed

text \<open>The commands issued so far are a run of the timers.\<close>

definition logged :: "dram_config \<Rightarrow> dram_t \<Rightarrow> issue_state \<Rightarrow> bool" where
  "logged c d0 = (\<lambda>(col, row, cs, k, d, w). dram.run c d0 (map Some cs) d)"

lemma issued_logged:
  assumes "logged c d0 (col, row, cs, k, d, w)" and "issued c j d (x, d1, w1)"
  shows "logged c d0 (col', row', (case x of None \<Rightarrow> cs | Some x \<Rightarrow> cs @ [(j, x)]), k', d1, w1)"
  using assms by (auto simp: logged_def issued_def intro: dram.run_issue split: option.splits)

lemma try_logged:
  assumes "shape c d0" and "logged c d0 st" and "j < unat (nbk c)"
  shows "post (logged c d0) (try_col c j st)" and "post (logged c d0) (try_row c j st)"
proof -
  obtain col row cs k d w where st: "st = (col, row, cs, k, d, w)" by (cases st)
  have d: "shape c d" using assms(2) dram.run_inv [OF _ assms(1)] by (auto simp: logged_def st)
  have l: "logged c d0 (col', row', (case x of None \<Rightarrow> cs | Some x \<Rightarrow> cs @ [(j, x)]), k', d1, w1)"
    if "issued c j d (x, d1, w1)" for x d1 w1 col' row' k'
    using assms(2) that unfolding st by (rule issued_logged)
  show "post (logged c d0) (try_col c j st)"
    unfolding try_col_def st prod.case
  proof (intro post_rules, goal_cases)
    case (1 r x p d1 w1)
    with post_D [OF issue_col_issued [OF d assms(3)]] have "issued c j d (None, d1, w1)" by blast
    from l [OF this] show ?case by simp
  next
    case (2 r x p d1 w1 cmd)
    with post_D [OF issue_col_issued [OF d assms(3)]] have "issued c j d (Some cmd, d1, w1)" by blast
    from l [OF this] show ?case by simp
  qed
  show "post (logged c d0) (try_row c j st)"
    unfolding try_row_def st prod.case
  proof (intro post_rules, goal_cases)
    case (1 r x p d1 w1)
    with post_D [OF issue_row_issued [OF d assms(3)]] have "issued c j d (None, d1, w1)" by blast
    from l [OF this] show ?case by simp
  next
    case (2 r x p d1 w1 cmd)
    with post_D [OF issue_row_issued [OF d assms(3)]] have "issued c j d (Some cmd, d1, w1)" by blast
    from l [OF this] show ?case by simp
  qed
qed

lemma try_idle_logged:
  assumes "logged c d0 st"
  shows "post (logged c d0) (try_idle j st)"
proof -
  obtain col row cs k d w where st: "st = (col, row, cs, k, d, w)" by (cases st)
  obtain k1 d1 where n: "note_idle j k d = (k1, d1)" by (cases "note_idle j k d")
  have "quiet_step c d d1" by (rule same_timers_quiet [OF note_idle_timers [OF n]])
  then show ?thesis using assms by (auto simp: try_idle_def st n logged_def post_def intro: dram.run_quiet)
qed

lemma rotated_less: "i < unat (nbk c) \<Longrightarrow> rotated c i' d < unat (nbk c)"
  by (simp add: rotated_def unat_mod)

lemma issue_commands_logged:
  assumes "shape c d"
  shows "post (logged c d) (issue_commands c d w)"
proof -
  have l0: "logged c d (None, None, [], nbk c, d, w)" by (simp add: logged_def dram.run_nil)
  have r: "rotated c i s < unat (nbk c)" if "i \<in> set [0..<unat (nbk c)]" for i s
    using that rotated_less [of i c] by simp
  have col: "post (logged c d) (foldM (col_step c) [0..<unat (nbk c)] st)" if "logged c d st" for st
    by (rule post_foldM [where P = "logged c d", OF _ that]) (auto simp: col_step_def post_Inr intro!: try_logged assms r)
  have row: "post (logged c d) (foldM (row_step c) [0..<unat (nbk c)] st)" if "logged c d st" for st
    by (rule post_foldM [where P = "logged c d", OF _ that]) (auto simp: row_step_def post_Inr intro!: try_logged assms r)
  have idle: "post (logged c d) (foldM (idle_step c) [0..<unat (nbk c)] st)" if "logged c d st" for st
    by (rule post_foldM [where P = "logged c d", OF _ that]) (auto simp: idle_step_def intro!: try_idle_logged)
  have single: "post (logged c d) (foldM (single_step c) [0..<unat (nbk c)] st)" if "logged c d st" for st
  proof (rule post_foldM [where P = "logged c d", OF _ that])
    fix i st
    assume i: "i \<in> set [0..<unat (nbk c)]" and st: "logged c d st"
    note t = try_logged [OF assms _ r [OF i]]
    have a: "logged c d st1" if "(if col_of st = None then try_col c (rotated c i (state_of st)) st else Inr st) = Inr st1" for st1
      using that st post_D [OF t(1) [OF st]] by (auto split: if_splits)
    have b: "logged c d st2" if "logged c d st1"
      "(if col_of st1 = None \<and> row_of st1 = None then try_row c (rotated c i (state_of st)) st1 else Inr st1) = Inr st2" for st1 st2
      using that post_D [OF t(2) [OF that(1)]] by (auto split: if_splits)
    show "post (logged c d) (single_step c i st)"
      unfolding single_step_def Let_def by (intro post_andThen try_idle_logged) (blast intro: a b)
  qed
  show ?thesis
    unfolding issue_commands_def Let_def
    using l0 single post_D [OF col] post_D [OF row] idle
    by (intro post_if post_andThen) blast+
qed

lemma note_timers:
  "same_timers d d' \<Longrightarrow> same_timers d (note_queue c d')" "same_timers d d' \<Longrightarrow> same_timers d (note_issued col row k d')"
  "same_timers d d' \<Longrightarrow> same_timers d (d'\<lparr>d_locality := l\<rparr>)" "same_timers d d' \<Longrightarrow> same_timers d (d'\<lparr>d_bandwidth := b\<rparr>)"
  by (simp_all add: note_queue_def note_issued_def Let_def same_timers_def)

lemma dram_cycle_run:
  assumes "shape c d" and "dram_cycle c report d w e = Inr (cs, d', w', e')"
  shows "dram.run c d (map Some cs @ [None]) d'"
proof -
  have "post (\<lambda>(cs, d', w', e'). dram.run c d (map Some cs @ [None]) d') (dram_cycle c report d w e)"
    unfolding dram_cycle_def Let_def
  proof (intro post_rules, goal_cases)
    case (1 x d1 y w1 e1 z d2 w2 xs loc st col r1 row r2 cs r3 k r4 d4 w3 ys)
    have s1: "same_timers d d1" using 1 by (auto dest: finish_burst_timers)
    have "same_timers d1 d2"
      using 1 by (auto split: dram_ctrl_t.splits dest: scheduler_fifo_timers scheduler_frfcfs_timers)
    then have s2: "same_timers d ((note_queue c d2)\<lparr>d_locality := loc\<rparr>)"
      using s1 by (intro note_timers) (rule same_timers_trans)
    let ?d3 = "(note_queue c d2)\<lparr>d_locality := loc\<rparr>"
    have "logged c ?d3 (col, row, cs, k, d4, w3)"
      using post_D [OF issue_commands_logged [OF same_timers_shape [OF s2 assms(1)]]] 1 by auto
    then have r: "dram.run c ?d3 (map Some cs) d4" by (simp add: logged_def)
    have "dram.run c d [] ?d3" by (rule dram.run_quiet [OF dram.run_nil same_timers_quiet [OF s2]])
    from dram.run_trans [OF r this] have "dram.run c d (map Some cs) d4" by simp
    moreover let ?d5 = "note_issued (col \<noteq> None) (row \<noteq> None) k d4"
    let ?d6 = "?d5\<lparr>d_locality := (d_locality ?d5)\<lparr>banks_acess_total_after :=
        bump (\<exists>(j, g, x)\<in>set ys. x \<noteq> None) (banks_acess_total_after (d_locality ?d5))\<rparr>,
      d_bandwidth := note_bandwidth (col \<noteq> None) ?d5 ys (d_bandwidth ?d5)\<rparr>"
    have "same_timers d4 ?d6" by (intro note_timers same_timers_refl)
    ultimately have "dram.run c d (map Some cs) ?d6" by (auto intro: dram.run_quiet same_timers_quiet)
    then have "dram.run c d (map Some cs @ [None]) (decrement_counters ?d6)"
      by (rule dram.run_tick) (simp add: tick_step_def)
    then show ?case by simp
  qed
  with assms(2) show ?thesis by (auto dest: post_D)
qed

section \<open>Runs of the controller\<close>

text \<open>Requests enter, replies leave and cycles pass in any order, in any state of the surrounding world; the
  commands of each cycle are collected.\<close>

inductive dram_path :: "dram_config \<Rightarrow> (mfref \<Rightarrow> 'e \<Rightarrow> world \<Rightarrow> ('e \<times> world) res) \<Rightarrow>
    dram_t \<Rightarrow> (nat \<times> dram_command) list list \<Rightarrow> dram_t \<Rightarrow> bool" for c report d0 where
  path_start: "dram_path c report d0 [] d0"
| path_cycle: "dram_path c report d0 css d \<Longrightarrow> dram_cycle c report d w e = Inr (cs, d', w', e') \<Longrightarrow>
    dram_path c report d0 (css @ [cs]) d'"
| path_push: "dram_path c report d0 css d \<Longrightarrow> dram_push c mf d w = Inr (d', w') \<Longrightarrow> dram_path c report d0 css d'"
| path_pop: "dram_path c report d0 css d \<Longrightarrow> return_queue_pop d = Inr (r, d') \<Longrightarrow> dram_path c report d0 css d'"

inductive_cases path_startE: "dram_path c report d0 [] d"

definition flat :: "(nat \<times> dram_command) list list \<Rightarrow> (nat \<times> dram_command) option list" where
  "flat css = concat (map (\<lambda>cs. map Some cs @ [None]) css)"

lemma ticks_flat: "dram.ticks (flat css) = length css"
  by (induction css) (simp_all add: flat_def dram.ticks_def)

lemma path_run: "dram_path c report d0 css d \<Longrightarrow> shape c d0 \<Longrightarrow> dram.run c d0 (flat css) d"
proof (induction rule: dram_path.induct)
  case path_start
  show ?case by (simp add: flat_def dram.run_nil)
next
  case (path_cycle css d w e cs d' w' e')
  note r = path_cycle.IH [OF path_cycle.prems]
  have "dram.run c d (map Some cs @ [None]) d'"
    by (rule dram_cycle_run [OF dram.run_inv [OF r path_cycle.prems] path_cycle.hyps(2)])
  from dram.run_trans [OF this r] show ?case by (simp add: flat_def)
next
  case (path_push css d mf w d' w')
  then show ?case using same_timers_quiet [OF dram_push_timers] by (blast intro: dram.run_quiet)
next
  case (path_pop css d r d')
  then show ?case using same_timers_quiet [OF return_queue_pop_timers] by (blast intro: dram.run_quiet)
qed

lemma dram_new_shape: "dram_new i c junk = Inr d \<Longrightarrow> shape c d"
  by (auto simp: dram_new_def res_simps shape_def)

text \<open>The minimal distances between two commands, as a data sheet states them.\<close>

definition same_group :: "dram_config \<Rightarrow> nat \<Rightarrow> nat \<Rightarrow> bool" where
  "same_group c i j \<longleftrightarrow> group_of c i = group_of c j"

fun required_gaps :: "dram_config \<Rightarrow> nat \<times> dram_command \<Rightarrow> nat \<times> dram_command \<Rightarrow> u32 list" where
  "required_gaps c (i, ACT) (j, ACT) = tRRD c # (if i = j then [tRC c] else [])"
| "required_gaps c (i, ACT) (j, RD) = (if i = j then [tRCD c] else [])"
| "required_gaps c (i, ACT) (j, WR) = (if i = j then [tRCDWR c] else [])"
| "required_gaps c (i, ACT) (j, PRE) = (if i = j then [tRAS c] else [])"
| "required_gaps c (i, PRE) (j, ACT) = (if i = j then [tRP c] else [])"
| "required_gaps c (i, PRE) (j, x) = []"
| "required_gaps c (i, RD) (j, RD) = tCCD c # (if same_group c i j then [tCCDL c] else [])"
| "required_gaps c (i, WR) (j, WR) = tCCD c # (if same_group c i j then [tCCDL c] else [])"
| "required_gaps c (i, RD) (j, WR) = tCCD c # tRTW c # (if same_group c i j then [tCCDL c] else [])"
| "required_gaps c (i, WR) (j, RD) = tCCD c # tWTR c # (if same_group c i j then [tCCDL c] else [])"
| "required_gaps c (i, RD) (j, PRE) = (if i = j then [burst_cycles c] else []) @
     (if same_group c i j then [tRTPL c] else [])"
| "required_gaps c (i, WR) (j, PRE) = (if i = j then [tWTP c] else [])"
| "required_gaps c (i, RD) (j, ACT) = []"
| "required_gaps c (i, WR) (j, ACT) = []"

lemma required_gaps_timer:
  "T \<in> set (required_gaps c e1 e2) \<Longrightarrow> \<exists>t\<in>arms_of c e1. t \<in> guards_of c e2 \<and> timer_limit c t = T"
  by (cases e1; cases "snd e1"; cases e2; cases "snd e2") (auto simp: same_group_def split: if_splits)

text \<open>Two events of a list of cycles, in the order in which they are issued.\<close>

definition issued_at :: "'a list list \<Rightarrow> nat \<Rightarrow> nat \<Rightarrow> 'a \<Rightarrow> bool" where
  "issued_at css i p e \<longleftrightarrow> i < length css \<and> p < length (css ! i) \<and> css ! i ! p = e"

lemma issued_split:
  assumes "issued_at css i p e"
  shows "css = take i css @ (take p (css ! i) @ e # drop (Suc p) (css ! i)) # drop (Suc i) css"
  using assms id_take_nth_drop [of i css] id_take_nth_drop [of p "css ! i"] by (simp add: issued_at_def)

lemma flat_between:
  assumes e1: "issued_at css i p e1" and e2: "issued_at css k q e2" and order: "i < k \<or> i = k \<and> p < q"
  shows "\<exists>xs ys zs. flat css = xs @ Some e1 # ys @ Some e2 # zs \<and> dram.ticks ys = k - i"
proof (cases "i = k")
  case True
  let ?cs = "css ! i"
  have pq: "p < q" "q < length ?cs" using order e2 True by (simp_all add: issued_at_def)
  have r: "?cs = take p ?cs @ e1 # drop (Suc p) ?cs"
    using e1 id_take_nth_drop [of p ?cs] by (simp add: issued_at_def)
  have n: "drop (Suc p) ?cs ! (q - Suc p) = e2" "q - Suc p < length (drop (Suc p) ?cs)"
    using pq e2 True by (simp_all add: issued_at_def)
  then obtain as bs where ab: "drop (Suc p) ?cs = as @ e2 # bs" using id_take_nth_drop [OF n(2)] by blast
  have "css = take i css @ (take p ?cs @ e1 # as @ e2 # bs) # drop (Suc i) css"
    using issued_split [OF e1] by (simp only: ab)
  then have "flat css = (flat (take i css) @ map Some (take p ?cs)) @ Some e1 # map Some as @ Some e2 #
      (map Some bs @ None # flat (drop (Suc i) css))"
    by (metis (no_types, lifting) append.assoc append_Cons append_Nil concat.simps(2) concat_append flat_def list.simps(9) map_append)
  then have "\<exists>xs zs. flat css = xs @ Some e1 # map Some as @ Some e2 # zs" by blast
  moreover have "dram.ticks (map Some as) = k - i" by (simp add: dram.ticks_def True)
  ultimately show ?thesis by blast
next
  case False
  then have ik: "i < k" using order by simp
  let ?a = "css ! i" and ?b = "css ! k"
  have k: "k < length css" using e2 by (simp add: issued_at_def)
  let ?rest = "drop (Suc i) css"
  have e2': "issued_at ?rest (k - Suc i) q e2" using e2 ik by (simp add: issued_at_def diff_less_mono)
  have b: "?rest ! (k - Suc i) = ?b" using ik k by simp
  let ?m = "take (k - Suc i) ?rest"
  have css: "css = take i css @ (take p ?a @ e1 # drop (Suc p) ?a) #
      ?m @ (take q ?b @ e2 # drop (Suc q) ?b) # drop (Suc (k - Suc i)) ?rest"
    using issued_split [OF e1] issued_split [OF e2'] by (simp only: b)
  let ?ys = "map Some (drop (Suc p) ?a) @ None # flat ?m @ map Some (take q ?b)"
  have "flat (A @ (a1 @ e1 # a2) # B @ (b1 @ e2 # b2) # C) =
      (flat A @ map Some a1) @ Some e1 # (map Some a2 @ None # flat B @ map Some b1) @ Some e2 #
      (map Some b2 @ None # flat C)" for A B C a1 a2 b1 b2
    by (simp add: flat_def)
  then have "\<exists>xs zs. flat css = xs @ Some e1 # ?ys @ Some e2 # zs" using css by metis
  moreover have "dram.ticks ?ys = Suc (dram.ticks (flat ?m))" by (simp add: dram.ticks_def)
  then have "dram.ticks ?ys = k - i" using ik k by (simp add: ticks_flat)
  ultimately show ?thesis by blast
qed

text \<open>A small controller: two banks in one group, in order.\<close>

definition demo_dram :: dram_config where
  "demo_dram = \<lparr>nbk = 2, nbkgrp = 1, bk_tag_length = 1, tCCD = 2, tCCDL = 2, tRRD = 2, tRCD = 2, tRCDWR = 1, tRAS = 4, tRP = 2,
     tRC = 6, tCDLR = 2, tWR = 2, tRTW = 2, tWTR = 4, tWTP = 4, tRTPL = 2, CL = 1, WL = 1, BL = 2, busW = 4,
     gpu_n_mem_per_ctrlr = 1, data_command_freq_ratio = 2, dram_atom_size = 8, elimnate_rw_turnaround = False,
     scheduler_type = DRAM_FIFO, sched_queue_size = 4, return_queue_size = 4, write_queue_size = 4,
     write_high_watermark = 3, write_low_watermark = 1, seperate_write_queue_enabled = False,
     dram_bnk_indexing_policy = 0, dram_bnkgrp_indexing_policy = 0, dual_bus_interface = False, memlatency_stat = False,
     m_n_mem = 1, m_n_sub_partition_per_memory_channel = 1, m_n_mem_sub_partition = 1\<rparr>"

definition demo_locality :: dram_locality where
  "demo_locality = \<lparr>access_num = 0, read_num = 0, write_num = 0, hits_num = 0, hits_read_num = 0, hits_write_num = 0,
     banks_1time = 0, banks_acess_total = 0, banks_acess_total_after = 0, banks_time_rw = 0, banks_access_rw_total = 0,
     banks_time_ready = 0, banks_access_ready_total = 0, write_to_read_ratio_blp_rw_average = 0, bkgrp_parallsim_rw = 0\<rparr>"

abbreviation demo_cycle :: "dram_t \<Rightarrow> world \<Rightarrow> ((nat \<times> dram_command) list \<times> dram_t \<times> world \<times> unit) res" where
  "demo_cycle d w \<equiv> dram_cycle demo_dram (\<lambda>r e w. Inr (e, w)) d w ()"

text \<open>C15: The DRAM timing is respected.  Over every run of the controller from its construction, with any
  requests, clock values, scheduler, bus mode and indexing, every two commands keep every minimal distance
  of the table \<open>required_gaps\<close>: row to column (\<open>tRCD\<close>, \<open>tRCDWR\<close>), \<open>tRAS\<close>, \<open>tRP\<close>, \<open>tRC\<close>, \<open>tRRD\<close>, column to column
  (\<open>tCCD\<close>, \<open>tCCDL\<close> in a bank group), the turn-arounds \<open>tRTW\<close> and \<open>tWTR\<close>, and read and write to precharge.\<close>

theorem dram_timing_respected:
  assumes "dram_new partition_id c junk = Inr d0" and "dram_path c report d0 css d"
    and "issued_at css i p e1" and "issued_at css k q e2" and "i < k \<or> i = k \<and> p < q"
    and "T \<in> set (required_gaps c e1 e2)"
  shows "unat T \<le> k - i"
proof -
  obtain t where t: "t \<in> arms_of c e1" "t \<in> guards_of c e2" "timer_limit c t = T"
    using required_gaps_timer [OF assms(6)] by blast
  obtain xs ys zs where f: "flat css = xs @ Some e1 # ys @ Some e2 # zs" "dram.ticks ys = k - i"
    using flat_between [OF assms(3-5)] by blast
  have s: "shape c d0" by (rule dram_new_shape [OF assms(1)])
  from dram.spacing [OF path_run [OF assms(2) s] s f(1) t(1,2)] show ?thesis by (simp add: f(2) t(3))
qed

lemma demo_commands:
  "(case andThen (dram_new 0 demo_dram demo_locality) (\<lambda>d0.
      andThen (dram_push demo_dram 0 d0 (test_world False)) (\<lambda>(d1, w1).
      andThen (demo_cycle d1 w1) (\<lambda>(cs1, d2, w2, u).
      andThen (demo_cycle d2 w2) (\<lambda>(cs2, d3, w3, u).
      andThen (demo_cycle d3 w3) (\<lambda>(cs3, d4, w4, u). Inr (cs1, cs2, cs3)))))) of
      Inl e \<Rightarrow> False | Inr cs \<Rightarrow> cs = ([(0, ACT)], [], [(0, RD)]))"
  by code_simp

lemma demo_path:
  "\<exists>d0 d. dram_new 0 demo_dram demo_locality = Inr d0 \<and>
     dram_path demo_dram (\<lambda>r e w. Inr (e :: unit, w)) d0 [[(0, ACT)], [], [(0, RD)]] d"
proof -
  from demo_commands obtain d0 d1 w1 d2 w2 d3 w3 d4 w4 where
    n: "dram_new 0 demo_dram demo_locality = Inr d0" and p: "dram_push demo_dram 0 d0 (test_world False) = Inr (d1, w1)"
    and c: "demo_cycle d1 w1 = Inr ([(0, ACT)], d2, w2, ())" "demo_cycle d2 w2 = Inr ([], d3, w3, ())"
      "demo_cycle d3 w3 = Inr ([(0, RD)], d4, w4, ())"
    by (auto simp: res_simps split: sum.splits)
  let ?path = "dram_path demo_dram (\<lambda>r e w. Inr (e :: unit, w)) d0"
  have "?path [] d1" by (rule dram_path.path_push [OF dram_path.path_start p])
  from dram_path.path_cycle [OF this c(1)] have "?path [[(0, ACT)]] d2" by simp
  from dram_path.path_cycle [OF this c(2)] have "?path [[(0, ACT)], []] d3" by simp
  from dram_path.path_cycle [OF this c(3)] have "?path [[(0, ACT)], [], [(0, RD)]] d4" by simp
  with n show ?thesis by blast
qed

theorem dram_timing_respected_witness:
  "\<exists>d0 d. dram_new 0 demo_dram demo_locality = Inr d0 \<and>
     dram_path demo_dram (\<lambda>r e w. Inr (e :: unit, w)) d0 [[(0, ACT)], [], [(0, RD)]] d \<and> unat (tRCD demo_dram) \<le> 2 - 0"
proof -
  let ?css = "[[(0 :: nat, ACT)], [], [(0, RD)]]"
  obtain d0 d where d: "dram_new 0 demo_dram demo_locality = Inr d0"
    "dram_path demo_dram (\<lambda>r e w. Inr (e :: unit, w)) d0 ?css d"
    using demo_path by blast
  have "issued_at ?css 0 0 (0, ACT)" "issued_at ?css 2 0 (0, RD)" by (simp_all add: issued_at_def)
  from dram_timing_respected [OF d this] d show ?thesis by auto
qed

end
