(* ===== verification/Frfcfs.thy ===== *)
theory Frfcfs
  imports Dram_Timing
begin

text \<open>
  The FR-FCFS scheduler of \<open>dram_sched.cc\<close> refines its specification on one list of waiting requests per
  bank and direction: the bins by row are the waiting requests of each row, the counters count them, and
  \<open>schedule\<close> takes the oldest request of the row being served, else of the open row, else the oldest.
\<close>

section \<open>One bank\<close>

definition row_at :: "dram_t \<Rightarrow> reqref \<Rightarrow> u32 option" where
  "row_at d r = map_option dr_row (d_reqs d r)"

definition bin_of :: "(reqref \<Rightarrow> u32 option) \<Rightarrow> bank_queues \<Rightarrow> u32 \<Rightarrow> reqref list" where
  "bin_of rows q row = filter (\<lambda>r. rows r = Some row) (q_queue q)"

definition queues_ok :: "(reqref \<Rightarrow> u32 option) \<Rightarrow> bank_queues \<Rightarrow> bool" where
  "queues_ok rows q \<longleftrightarrow> distinct (q_queue q) \<and> (\<forall>r\<in>set (q_queue q). rows r \<noteq> None) \<and>
     (\<forall>row. q_bins q row = (if bin_of rows q row = [] then None else Some (bin_of rows q row))) \<and>
     (\<forall>row. q_last_row q = Some row \<longrightarrow> bin_of rows q row \<noteq> [])"

lemma queues_ok_new: "queues_ok rows bank_queues_new"
  by (simp add: queues_ok_def bank_queues_new_def bin_of_def)

lemma queues_ok_cong:
  assumes "queues_ok rows q" and "\<And>r. r \<in> set (q_queue q) \<Longrightarrow> rows' r = rows r"
  shows "queues_ok rows' q"
proof -
  have "bin_of rows' q row = bin_of rows q row" for row
    unfolding bin_of_def by (rule filter_cong) (simp_all add: assms(2))
  with assms show ?thesis by (simp add: queues_ok_def)
qed

lemma queues_ok_enqueue:
  assumes "queues_ok rows q" and "r \<notin> set (q_queue q)" and "rows r = Some row"
  shows "queues_ok rows (enqueue_req r row q)"
proof -
  have b: "bin_of rows (enqueue_req r row q) row' = (if row' = row then r # bin_of rows q row else bin_of rows q row')" for row'
    using assms(3) by (simp add: bin_of_def enqueue_req_def)
  show ?thesis using assms by (auto simp: queues_ok_def b) (auto simp: enqueue_req_def)
qed

lemma filter_remove1_last:
  assumes "distinct xs" and "filter P xs \<noteq> []"
  shows "filter P (remove1 (last (filter P xs)) xs) = butlast (filter P xs)"
proof -
  have "remove1 (last (filter P xs)) (filter P xs) = butlast (filter P xs)"
    using assms by (metis distinct_butlast distinct_filter append_butlast_last_id distinct_append
        distinct.simps(2) list.set_intros(1) remove1_append remove1.simps append_Nil2 not_distinct_conv_prefix disjoint_insert(1) list.simps(15))
  then show ?thesis by (simp add: filter_remove1)
qed

lemma queues_ok_take:
  assumes ok: "queues_ok rows q" and n: "bin_of rows q row \<noteq> []" and x: "dr_row x = row"
  shows "queues_ok rows (take_req row (last (bin_of rows q row)) x (bin_of rows q row) q)" (is "queues_ok rows ?q")
proof -
  let ?r = "last (bin_of rows q row)"
  have d: "distinct (q_queue q)" using ok by (simp add: queues_ok_def)
  have r: "rows ?r = Some row" using n last_in_set [of "bin_of rows q row"] by (simp add: bin_of_def)
  have q: "q_queue ?q = remove1 ?r (q_queue q)" by (simp add: take_req_def Let_def)
  have f: "bin_of rows ?q row' = filter (\<lambda>r. rows r = Some row') (remove1 ?r (q_queue q))" for row'
    by (simp only: bin_of_def [of rows ?q] q)
  have b: "bin_of rows ?q row' = (if row' = row then butlast (bin_of rows q row) else bin_of rows q row')" for row'
  proof (cases "row' = row")
    case True
    have "filter (\<lambda>r. rows r = Some row) (remove1 ?r (q_queue q)) = butlast (bin_of rows q row)"
      using filter_remove1_last [OF d n [unfolded bin_of_def]] by (simp only: bin_of_def)
    with True show ?thesis by (simp only: f if_True refl)
  next
    case False
    then have "filter (\<lambda>r. rows r = Some row') (remove1 ?r (q_queue q)) = filter (\<lambda>r. rows r = Some row') (q_queue q)"
      using r by (simp add: filter_remove1 remove1_idem)
    with False show ?thesis by (simp add: f bin_of_def [of rows q row'])
  qed
  let ?B = "bin_of rows q row"
  have qb: "q_bins ?q row' = (if row' = row then if butlast ?B = [] then None else Some (butlast ?B) else q_bins q row')" for row'
    by (simp add: take_req_def Let_def x)
  have l: "q_last_row ?q = (if butlast ?B = [] then None else Some row)"
    by (simp add: take_req_def Let_def)
  have dq: "distinct (q_queue ?q)" using d by (simp add: q)
  have sq: "\<forall>r\<in>set (q_queue ?q). rows r \<noteq> None"
    using ok notin_set_remove1 unfolding q queues_ok_def by metis
  have bq: "q_bins ?q row' = (if bin_of rows ?q row' = [] then None else Some (bin_of rows ?q row'))" for row'
    unfolding qb b using ok by (simp add: queues_ok_def)
  have lq: "q_last_row ?q = Some row' \<longrightarrow> bin_of rows ?q row' \<noteq> []" for row'
    unfolding l b by auto
  from dq sq show ?thesis unfolding queues_ok_def by (intro conjI allI bq lq)
qed

section \<open>The specification\<close>

definition frfcfs_row :: "(reqref \<Rightarrow> u32 option) \<Rightarrow> u32 option \<Rightarrow> u32 \<Rightarrow> reqref list \<Rightarrow> u32 option" where
  "frfcfs_row rows served open_row waiting =
     (case served of Some row \<Rightarrow> Some row
      | None \<Rightarrow> if \<exists>r\<in>set waiting. rows r = Some open_row then Some open_row else rows (last waiting))"

definition frfcfs_choice :: "(reqref \<Rightarrow> u32 option) \<Rightarrow> u32 option \<Rightarrow> u32 \<Rightarrow> reqref list \<Rightarrow> reqref option" where
  "frfcfs_choice rows served open_row waiting =
     (if waiting = [] then None
      else Some (last (filter (\<lambda>r. rows r = frfcfs_row rows served open_row waiting) waiting)))"

section \<open>All banks\<close>

definition req_kind :: "dram_t \<Rightarrow> world \<Rightarrow> reqref \<Rightarrow> bool option" where
  "req_kind d w r = (case d_reqs d r of None \<Rightarrow> None | Some x \<Rightarrow> map_option is_write (w_heap w (dr_data x)))"

definition queues_hold :: "dram_t \<Rightarrow> world \<Rightarrow> (bool \<Rightarrow> bool) \<Rightarrow> bank_queues list \<Rightarrow> bool" where
  "queues_hold d w P qs \<longleftrightarrow> (\<forall>q\<in>set qs. queues_ok (row_at d) q \<and>
     (\<forall>r\<in>set (q_queue q). \<exists>wr. req_kind d w r = Some wr \<and> P wr))"

definition waiting_count :: "bank_queues list \<Rightarrow> nat" where
  "waiting_count qs = sum_list (map (\<lambda>q. length (q_queue q)) qs)"

definition frfcfs_ok :: "dram_config \<Rightarrow> dram_t \<Rightarrow> world \<Rightarrow> bool" where
  "frfcfs_ok c d w \<longleftrightarrow>
     (let s = d_sched d; sep = seperate_write_queue_enabled c in
      length (fs_queues s) = unat (nbk c) \<and> length (fs_write_queues s) = (if sep then unat (nbk c) else 0) \<and>
      queues_hold d w (\<lambda>wr. sep \<longrightarrow> \<not> wr) (fs_queues s) \<and> queues_hold d w (\<lambda>wr. wr) (fs_write_queues s) \<and>
      (fs_mode s = WRITE_MODE \<longrightarrow> sep) \<and>
      unat (fs_num_pending s) = waiting_count (fs_queues s) \<and>
      unat (fs_num_write_pending s) = waiting_count (fs_write_queues s))"

lemma waiting_count_update:
  "b < length qs \<Longrightarrow> waiting_count (qs[b := q]) + length (q_queue (qs ! b)) = waiting_count qs + length (q_queue q)"
  by (induction qs arbitrary: b) (auto simp: waiting_count_def nth_Cons split: nat.splits)

lemma queues_hold_update:
  "queues_hold d w P qs \<Longrightarrow> queues_ok (row_at d) q \<Longrightarrow> (\<And>r. r \<in> set (q_queue q) \<Longrightarrow> \<exists>wr. req_kind d w r = Some wr \<and> P wr) \<Longrightarrow>
     queues_hold d w P (qs[b := q])"
  unfolding queues_hold_def by (blast dest: set_update_subset_insert [THEN subsetD])

lemma frfcfs_ok_new: "dram_new i c junk = Inr d \<Longrightarrow> frfcfs_ok c d w"
  by (auto simp: dram_new_def res_simps frfcfs_ok_def frfcfs_scheduler_new_def queues_hold_def queues_ok_new
      waiting_count_def sum_list_replicate Let_def) (simp_all add: bank_queues_new_def)

text \<open>What \<open>schedule\<close> does on one set of queues.\<close>

lemma schedule_from_empty:
  assumes "b < length qs" and "queues_hold d w P qs" and "q_queue (qs ! b) = []"
  shows "schedule_from c b open_row qs store d w = Inr (None, d)"
proof -
  have "queues_ok (row_at d) (qs ! b)" using assms(1,2) by (simp add: queues_hold_def)
  then have "q_last_row (qs ! b) = None"
    by (cases "q_last_row (qs ! b)") (simp_all add: queues_ok_def bin_of_def assms(3))
  with assms(1,3) show ?thesis by (simp add: schedule_from_def res_simps)
qed

lemma schedule_from_some:
  assumes b: "b < length qs" and ok: "queues_hold d w P qs" and ne: "q_queue (qs ! b) \<noteq> []"
  obtains row x m hit where
    "frfcfs_row (row_at d) (q_last_row (qs ! b)) open_row (q_queue (qs ! b)) = Some row"
    "bin_of (row_at d) (qs ! b) row \<noteq> []" "dr_row x = row" "P (is_write m)"
    "schedule_from c b open_row qs store d w =
      (let bin = bin_of (row_at d) (qs ! b) row;
           s1 = (if hit then d_sched d else data_collection b (gpu_sim_cycle w) (d_sched d)) in
       andThen (count_scheduled c (is_write m) (store (qs[b := take_req row (last bin) x bin (qs ! b)]) s1)) (\<lambda>s3.
         Inr (Some (last bin), d\<lparr>d_sched := s3, d_locality := note_access hit (is_write m) (d_locality d)\<rparr>)))"
proof -
  let ?q = "qs ! b" and ?rows = "row_at d"
  have q: "queues_ok ?rows ?q" and kind: "\<And>r. r \<in> set (q_queue ?q) \<Longrightarrow> \<exists>wr. req_kind d w r = Some wr \<and> P wr"
    using nth_mem [OF b] ok unfolding queues_hold_def by blast+
  have bins: "q_bins ?q row = (if bin_of ?rows ?q row = [] then None else Some (bin_of ?rows ?q row))" for row
    using q by (simp add: queues_ok_def)
  obtain row hit where row: "frfcfs_row ?rows (q_last_row ?q) open_row (q_queue ?q) = Some row"
    "select_row open_row ?q d = Inr (row, hit)" "bin_of ?rows ?q row \<noteq> []"
  proof (cases "q_last_row ?q")
    case (Some row)
    then have "bin_of ?rows ?q row \<noteq> []" using q by (simp add: queues_ok_def)
    with Some that [of row True] show ?thesis by (simp add: frfcfs_row_def select_row_def)
  next
    case None
    show ?thesis
    proof (cases "bin_of ?rows ?q open_row = []")
      case False
      then have "\<exists>r\<in>set (q_queue ?q). ?rows r = Some open_row" by (auto simp: bin_of_def filter_empty_conv)
      with None False that [of open_row True] show ?thesis by (simp add: frfcfs_row_def select_row_def bins)
    next
      case True
      then have no: "\<not> (\<exists>r\<in>set (q_queue ?q). ?rows r = Some open_row)" by (auto simp: bin_of_def filter_empty_conv)
      have l: "last (q_queue ?q) \<in> set (q_queue ?q)" using ne by simp
      with q obtain row where r: "?rows (last (q_queue ?q)) = Some row" by (auto simp: queues_ok_def)
      then obtain x where x: "d_reqs d (last (q_queue ?q)) = Some x" "dr_row x = row" by (auto simp: row_at_def)
      have n: "bin_of ?rows ?q row \<noteq> []" using l r by (auto simp: bin_of_def filter_empty_conv)
      with None True no r x that [of row False] show ?thesis
        by (simp add: frfcfs_row_def select_row_def bins req_at_def res_simps)
    qed
  qed
  let ?bin = "bin_of ?rows ?q row"
  have mem: "last ?bin \<in> set (q_queue ?q)" "?rows (last ?bin) = Some row"
    using last_in_set [OF row(3)] by (simp_all add: bin_of_def)
  then obtain x where x: "d_reqs d (last ?bin) = Some x" "dr_row x = row" by (auto simp: row_at_def)
  with kind [OF mem(1)] obtain m where m: "w_heap w (dr_data x) = Some m" "P (is_write m)" by (auto simp: req_kind_def)
  show ?thesis
    by (rule that [OF row(1,3) x(2) m(2), of hit])
      (simp add: schedule_from_def b ne row bins req_at_def x deref_def m res_simps Let_def)
qed

section \<open>Every operation keeps the invariant\<close>

text \<open>Whatever leaves the scheduler and the row and kind of its requests alone.\<close>

definition queued :: "frfcfs_scheduler \<Rightarrow> reqref set" where
  "queued s = (\<Union>q\<in>set (fs_queues s) \<union> set (fs_write_queues s). set (q_queue q))"

lemma queues_hold_cong:
  assumes "queues_hold d w P qs"
    and "\<And>q r. q \<in> set qs \<Longrightarrow> r \<in> set (q_queue q) \<Longrightarrow> row_at d' r = row_at d r \<and> req_kind d' w' r = req_kind d w r"
  shows "queues_hold d' w' P qs"
  using assms queues_ok_cong unfolding queues_hold_def by metis

lemma frfcfs_ok_cong:
  assumes ok: "frfcfs_ok c d w" and s: "d_sched d' = d_sched d"
    and r: "\<And>r. r \<in> queued (d_sched d) \<Longrightarrow> row_at d' r = row_at d r \<and> req_kind d' w' r = req_kind d w r"
  shows "frfcfs_ok c d' w'"
proof -
  have "queues_hold d w P qs \<Longrightarrow> queues_hold d' w' P qs"
    if "set qs \<subseteq> set (fs_queues (d_sched d)) \<union> set (fs_write_queues (d_sched d))" for P qs
    using that by (intro queues_hold_cong [of d w P qs d' w'] r) (auto simp: queued_def)
  with ok s show ?thesis by (simp add: frfcfs_ok_def Let_def)
qed

lemma queues_hold_enqueue:
  assumes "queues_hold d w P qs" and "b < length qs" and "r \<notin> set (q_queue (qs ! b))"
    and "row_at d r = Some row" and "req_kind d w r = Some wr" and "P wr"
  shows "queues_hold d w P (qs[b := enqueue_req r row (qs ! b)])"
proof -
  have q: "queues_ok (row_at d) (qs ! b)" "\<And>r. r \<in> set (q_queue (qs ! b)) \<Longrightarrow> \<exists>wr. req_kind d w r = Some wr \<and> P wr"
    using nth_mem [OF assms(2)] assms(1) unfolding queues_hold_def by blast+
  have "set (q_queue (enqueue_req r row (qs ! b))) = insert r (set (q_queue (qs ! b)))" by (simp add: enqueue_req_def)
  with assms q show ?thesis by (intro queues_hold_update queues_ok_enqueue) auto
qed

lemma waiting_count_enqueue:
  assumes "b < length qs"
  shows "waiting_count (qs[b := enqueue_req r row (qs ! b)]) = Suc (waiting_count qs)"
  using waiting_count_update [OF assms, of "enqueue_req r row (qs ! b)"] by (simp add: enqueue_req_def)

lemma unat_plus_one_below: "x < y \<Longrightarrow> unat (x + 1 :: u32) = Suc (unat x)"
proof -
  have "unat y < 2 ^ LENGTH(32)" by (rule unsigned_less)
  moreover assume "x < y"
  ultimately show ?thesis by (simp add: word_less_nat_alt unat_word_ariths(1))
qed

lemma queued_member: "b < length (fs_queues s) \<Longrightarrow> set (q_queue (fs_queues s ! b)) \<subseteq> queued s"
  "b < length (fs_write_queues s) \<Longrightarrow> set (q_queue (fs_write_queues s ! b)) \<subseteq> queued s"
  unfolding queued_def using nth_mem by blast+

lemma queues_hold_sched [simp]: "queues_hold (d\<lparr>d_sched := s\<rparr>) w P qs = queues_hold d w P qs"
  by (simp add: queues_hold_def row_at_def [abs_def] req_kind_def)

lemma add_req_ok:
  assumes ok: "frfcfs_ok c d w" and x: "d_reqs d r = Some x" and m: "w_heap w (dr_data x) = Some m"
    and r: "r \<notin> queued (d_sched d)" and a: "add_req c r x (is_write m) (d_sched d) = Inr s"
  shows "frfcfs_ok c (d\<lparr>d_sched := s\<rparr>) w"
proof -
  let ?s = "d_sched d" and ?b = "unat (dr_bk x)"
  have k: "row_at d r = Some (dr_row x)" "req_kind d w r = Some (is_write m)"
    by (simp_all add: row_at_def req_kind_def x m)
  show ?thesis
  proof (cases "seperate_write_queue_enabled c \<and> is_write m")
    case True
    then obtain room: "fs_num_write_pending ?s < write_queue_size c" "?b < length (fs_write_queues ?s)"
      and s: "s = ?s\<lparr>fs_num_write_pending := fs_num_write_pending ?s + 1,
        fs_write_queues := (fs_write_queues ?s)[?b := enqueue_req r (dr_row x) (fs_write_queues ?s ! ?b)]\<rparr>"
      using a by (auto simp: add_req_def on_queue_def res_simps split: if_splits)
    have "r \<notin> set (q_queue (fs_write_queues ?s ! ?b))" using queued_member(2) [OF room(2)] r by blast
    then have "queues_hold d w (\<lambda>wr. wr) ((fs_write_queues ?s)[?b := enqueue_req r (dr_row x) (fs_write_queues ?s ! ?b)])"
      using ok True k room by (intro queues_hold_enqueue) (auto simp: frfcfs_ok_def Let_def)
    with ok True room show ?thesis
      by (simp add: frfcfs_ok_def Let_def s waiting_count_enqueue unat_plus_one_below [OF room(1)])
  next
    case False
    then obtain room: "fs_num_pending ?s < sched_queue_size c" "?b < length (fs_queues ?s)"
      and s: "s = ?s\<lparr>fs_num_pending := fs_num_pending ?s + 1,
        fs_queues := (fs_queues ?s)[?b := enqueue_req r (dr_row x) (fs_queues ?s ! ?b)]\<rparr>"
      using a by (auto simp: add_req_def on_queue_def res_simps split: if_splits)
    have "r \<notin> set (q_queue (fs_queues ?s ! ?b))" using queued_member(1) [OF room(2)] r by blast
    then have "queues_hold d w (\<lambda>wr. seperate_write_queue_enabled c \<longrightarrow> \<not> wr)
        ((fs_queues ?s)[?b := enqueue_req r (dr_row x) (fs_queues ?s ! ?b)])"
      using ok False k room by (intro queues_hold_enqueue) (auto simp: frfcfs_ok_def Let_def)
    with ok False room show ?thesis
      by (simp add: frfcfs_ok_def Let_def s waiting_count_enqueue unat_plus_one_below [OF room(1)])
  qed
qed

section \<open>Scheduling refines the specification\<close>

definition all_queues :: "bool \<Rightarrow> frfcfs_scheduler \<Rightarrow> bank_queues list" where
  "all_queues wr s = (if wr then fs_write_queues s else fs_queues s)"

text \<open>What one call does to the waiting requests of its bank and to the row being served.\<close>

definition schedule_spec :: "dram_config \<Rightarrow> nat \<Rightarrow> u32 \<Rightarrow> dram_t \<Rightarrow> reqref option \<Rightarrow> dram_t \<Rightarrow> bool" where
  "schedule_spec c b open_row d r d' \<longleftrightarrow>
     (let wr = (schedule_mode c (d_sched d) = WRITE_MODE); q = all_queues wr (d_sched d) ! b;
          q' = all_queues wr (d_sched d') ! b; row = frfcfs_row (row_at d) (q_last_row q) open_row (q_queue q) in
      r = frfcfs_choice (row_at d) (q_last_row q) open_row (q_queue q) \<and>
      q_queue q' = (case r of None \<Rightarrow> q_queue q | Some r \<Rightarrow> remove1 r (q_queue q)) \<and>
      q_last_row q' = (if \<exists>x\<in>set (q_queue q'). row_at d x = row then row else None) \<and>
      (\<forall>wr' b'. wr' = wr \<and> b' \<noteq> b \<or> wr' \<noteq> wr \<longrightarrow> all_queues wr' (d_sched d') ! b' = all_queues wr' (d_sched d) ! b'))"

lemma waiting_count_take:
  assumes "b < length qs" and "r \<in> set (q_queue (qs ! b))" and "q_queue q = remove1 r (q_queue (qs ! b))"
  shows "Suc (waiting_count (qs[b := q])) = waiting_count qs"
proof -
  have "length (q_queue q) = length (q_queue (qs ! b)) - 1" by (simp add: assms(2,3) length_remove1)
  with waiting_count_update [OF assms(1), of q] length_pos_if_in_set [OF assms(2)] show ?thesis by linarith
qed

lemma schedule_mode_sep: "frfcfs_ok c d w \<Longrightarrow> schedule_mode c (d_sched d) = WRITE_MODE \<Longrightarrow> seperate_write_queue_enabled c"
  by (auto simp: frfcfs_ok_def schedule_mode_def Let_def split: if_splits)

text \<open>The part that is the same for both sets of queues.\<close>

lemma schedule_from_ok:
  assumes b: "b < length qs" and ok: "queues_hold d w P qs"
    and cnt: "\<And>wr q s1. P wr \<Longrightarrow> q_queue (qs ! b) \<noteq> [] \<Longrightarrow> fs_num_pending s1 = fs_num_pending (d_sched d) \<Longrightarrow>
        fs_num_write_pending s1 = fs_num_write_pending (d_sched d) \<Longrightarrow> fs_queues s1 = fs_queues (d_sched d) \<Longrightarrow>
        fs_write_queues s1 = fs_write_queues (d_sched d) \<Longrightarrow> fs_mode s1 = fs_mode (d_sched d) \<Longrightarrow>
        \<exists>s3. count_scheduled c wr (store (qs[b := q]) s1) = Inr s3 \<and> Q q s3"
  obtains r d' where "schedule_from c b open_row qs store d w = Inr (r, d')"
    "r = frfcfs_choice (row_at d) (q_last_row (qs ! b)) open_row (q_queue (qs ! b))"
    "d_reqs d' = d_reqs d"
    "r = None \<and> q_queue (qs ! b) = [] \<and> q_last_row (qs ! b) = None \<and> d' = d \<or>
     (\<exists>x row q. r = Some x \<and> x \<in> set (q_queue (qs ! b)) \<and> Q q (d_sched d') \<and> queues_ok (row_at d) q \<and>
        frfcfs_row (row_at d) (q_last_row (qs ! b)) open_row (q_queue (qs ! b)) = Some row \<and>
        q_queue q = remove1 x (q_queue (qs ! b)) \<and>
        q_last_row q = (if \<exists>y\<in>set (q_queue q). row_at d y = Some row then Some row else None))"
proof (cases "q_queue (qs ! b) = []")
  case True
  have "queues_ok (row_at d) (qs ! b)" using b ok by (simp add: queues_hold_def)
  then have "q_last_row (qs ! b) = None"
    by (cases "q_last_row (qs ! b)") (simp_all add: queues_ok_def bin_of_def True)
  with True schedule_from_empty [OF b ok True] that [of None d] show ?thesis by (simp add: frfcfs_choice_def)
next
  case False
  obtain row x m hit where row: "frfcfs_row (row_at d) (q_last_row (qs ! b)) open_row (q_queue (qs ! b)) = Some row"
    and bin: "bin_of (row_at d) (qs ! b) row \<noteq> []" "dr_row x = row" and m: "P (is_write m)"
    and s: "schedule_from c b open_row qs store d w =
      (let bin = bin_of (row_at d) (qs ! b) row;
           s1 = (if hit then d_sched d else data_collection b (gpu_sim_cycle w) (d_sched d)) in
       andThen (count_scheduled c (is_write m) (store (qs[b := take_req row (last bin) x bin (qs ! b)]) s1)) (\<lambda>s3.
         Inr (Some (last bin), d\<lparr>d_sched := s3, d_locality := note_access hit (is_write m) (d_locality d)\<rparr>)))"
    by (rule schedule_from_some [OF b ok False])
  let ?bin = "bin_of (row_at d) (qs ! b) row"
  let ?q = "take_req row (last ?bin) x ?bin (qs ! b)"
  let ?s1 = "if hit then d_sched d else data_collection b (gpu_sim_cycle w) (d_sched d)"
  have "fs_num_pending ?s1 = fs_num_pending (d_sched d)" "fs_num_write_pending ?s1 = fs_num_write_pending (d_sched d)"
    "fs_queues ?s1 = fs_queues (d_sched d)" "fs_write_queues ?s1 = fs_write_queues (d_sched d)" "fs_mode ?s1 = fs_mode (d_sched d)"
    by (simp_all add: data_collection_def)
  from cnt [OF m False this, of ?q] obtain s3
    where s3: "count_scheduled c (is_write m) (store (qs[b := ?q]) ?s1) = Inr s3" "Q ?q s3" by blast
  have qok: "queues_ok (row_at d) (qs ! b)" using nth_mem [OF b] ok by (simp add: queues_hold_def)
  have mem: "last ?bin \<in> set (q_queue (qs ! b))" using last_in_set [OF bin(1)] by (simp add: bin_of_def)
  have q: "q_queue ?q = remove1 (last ?bin) (q_queue (qs ! b))" by (simp add: take_req_def Let_def)
  have "filter (\<lambda>r. row_at d r = Some row) (q_queue ?q) = butlast ?bin"
    unfolding q using filter_remove1_last [OF _ bin(1) [unfolded bin_of_def]] qok by (simp add: queues_ok_def bin_of_def)
  then have "butlast ?bin = [] \<longleftrightarrow> \<not> (\<exists>y\<in>set (q_queue ?q). row_at d y = Some row)"
    by (metis (mono_tags, lifting) filter_empty_conv)
  then have l: "q_last_row ?q = (if \<exists>y\<in>set (q_queue ?q). row_at d y = Some row then Some row else None)"
    by (simp add: take_req_def Let_def)
  have c: "frfcfs_choice (row_at d) (q_last_row (qs ! b)) open_row (q_queue (qs ! b)) = Some (last ?bin)"
    by (simp add: frfcfs_choice_def False row bin_of_def)
  let ?d = "d\<lparr>d_sched := s3, d_locality := note_access hit (is_write m) (d_locality d)\<rparr>"
  have sc: "schedule_from c b open_row qs store d w = Inr (Some (last ?bin), ?d)"
    using s s3(1) by (simp add: Let_def res_simps)
  have res: "Some (last ?bin) = Some (last ?bin) \<and> last ?bin \<in> set (q_queue (qs ! b)) \<and> Q ?q (d_sched ?d) \<and> queues_ok (row_at d) ?q \<and>
      frfcfs_row (row_at d) (q_last_row (qs ! b)) open_row (q_queue (qs ! b)) = Some row \<and>
      q_queue ?q = remove1 (last ?bin) (q_queue (qs ! b)) \<and>
      q_last_row ?q = (if \<exists>y\<in>set (q_queue ?q). row_at d y = Some row then Some row else None)"
    using mem s3(2) queues_ok_take [OF qok bin] row q l by simp
  have r: "d_reqs ?d = d_reqs d" by simp
  show ?thesis by (rule that [OF sc c [symmetric] r]) (intro disjI2 exI, rule res)
qed

text \<open>The two sets of queues, by direction.\<close>

definition set_queues :: "bool \<Rightarrow> bank_queues list \<Rightarrow> frfcfs_scheduler \<Rightarrow> frfcfs_scheduler" where
  "set_queues wr qs s = (if wr then s\<lparr>fs_write_queues := qs\<rparr> else s\<lparr>fs_queues := qs\<rparr>)"

definition pending :: "bool \<Rightarrow> frfcfs_scheduler \<Rightarrow> u32" where
  "pending wr s = (if wr then fs_num_write_pending s else fs_num_pending s)"

definition of_direction :: "dram_config \<Rightarrow> bool \<Rightarrow> bool \<Rightarrow> bool" where
  "of_direction c wr k = (if wr then k else seperate_write_queue_enabled c \<longrightarrow> \<not> k)"

lemma frfcfs_ok_iff:
  "frfcfs_ok c d w \<longleftrightarrow> (fs_mode (d_sched d) = WRITE_MODE \<longrightarrow> seperate_write_queue_enabled c) \<and>
     (\<forall>wr. length (all_queues wr (d_sched d)) = (if wr \<and> \<not> seperate_write_queue_enabled c then 0 else unat (nbk c)) \<and>
        queues_hold d w (of_direction c wr) (all_queues wr (d_sched d)) \<and>
        unat (pending wr (d_sched d)) = waiting_count (all_queues wr (d_sched d)))"
proof -
  have "of_direction c True = (\<lambda>k. k)" "of_direction c False = (\<lambda>k. seperate_write_queue_enabled c \<longrightarrow> \<not> k)"
    by (simp_all add: of_direction_def fun_eq_iff)
  then show ?thesis unfolding frfcfs_ok_def Let_def all_bool_eq by (auto simp: all_queues_def pending_def)
qed

lemma all_queues_mode [simp]: "all_queues wr (s\<lparr>fs_mode := m\<rparr>) = all_queues wr s"
  by (simp add: all_queues_def)

lemma schedule_direction:
  assumes "wr \<longleftrightarrow> schedule_mode c (d_sched d) = WRITE_MODE"
  shows "schedule c b open_row d w = schedule_from c b open_row (all_queues wr (d_sched d)) (set_queues wr)
      (d\<lparr>d_sched := (d_sched d)\<lparr>fs_mode := schedule_mode c (d_sched d)\<rparr>\<rparr>) w"
  using assms by (simp add: schedule_def Let_def all_queues_def set_queues_def [abs_def])

lemma waiting_count_pos:
  assumes "b < length qs" and "q_queue (qs ! b) \<noteq> []"
  shows "0 < waiting_count qs"
proof -
  have "length (q_queue (qs ! b)) \<le> waiting_count qs"
    unfolding waiting_count_def using assms(1) by (intro member_le_sum_list) auto
  with assms(2) show ?thesis by (metis leD length_greater_0_conv not_gr_zero)
qed

definition scheduled :: "bool \<Rightarrow> nat \<Rightarrow> frfcfs_scheduler \<Rightarrow> bank_queues \<Rightarrow> frfcfs_scheduler \<Rightarrow> bool" where
  "scheduled wr b s q s' \<longleftrightarrow> all_queues wr s' = (all_queues wr s)[b := q] \<and> all_queues (\<not> wr) s' = all_queues (\<not> wr) s \<and>
     fs_mode s' = fs_mode s \<and> Suc (unat (pending wr s')) = unat (pending wr s) \<and> pending (\<not> wr) s' = pending (\<not> wr) s"

lemma count_scheduled_ok:
  assumes "of_direction c wr k" and "wr \<longrightarrow> seperate_write_queue_enabled c" and "0 < unat (pending wr s)"
    and "fs_num_pending s1 = fs_num_pending s" "fs_num_write_pending s1 = fs_num_write_pending s"
      "fs_queues s1 = fs_queues s" "fs_write_queues s1 = fs_write_queues s" "fs_mode s1 = fs_mode s"
  shows "\<exists>s3. count_scheduled c k (set_queues wr ((all_queues wr s)[b := q]) s1) = Inr s3 \<and> scheduled wr b s q s3"
  using assms
  by (cases wr) (auto simp: count_scheduled_def set_queues_def scheduled_def all_queues_def pending_def of_direction_def
      unat_minus_one unat_gt_0 res_simps)

lemma scheduled_keeps:
  assumes ok: "frfcfs_ok c d w" and sc: "scheduled W b (d_sched d) q (d_sched d')" and reqs: "d_reqs d' = d_reqs d"
    and b: "b < length (all_queues W (d_sched d))" and x: "x \<in> set (q_queue (all_queues W (d_sched d) ! b))"
    and q: "queues_ok (row_at d) q" "q_queue q = remove1 x (q_queue (all_queues W (d_sched d) ! b))"
  shows "frfcfs_ok c d' w"
proof -
  let ?qs = "all_queues W (d_sched d)"
  have at: "row_at d' = row_at d" "req_kind d' = req_kind d" using reqs by (simp_all add: row_at_def req_kind_def fun_eq_iff)
  have hold: "queues_hold d' w P qs = queues_hold d w P qs" for P qs by (simp only: queues_hold_def at)
  have qs: "queues_hold d w (of_direction c W) ?qs" "unat (pending W (d_sched d)) = waiting_count ?qs"
    using ok by (simp_all add: frfcfs_ok_iff)
  have "queues_hold d w (of_direction c W) (?qs[b := q])"
  proof (rule queues_hold_update [OF qs(1) q(1)])
    fix y assume "y \<in> set (q_queue q)"
    then have "y \<in> set (q_queue (?qs ! b))" unfolding q(2) using set_remove1_subset by fast
    then show "\<exists>wr. req_kind d w y = Some wr \<and> of_direction c W wr"
      using qs(1) nth_mem [OF b] unfolding queues_hold_def by blast
  qed
  moreover have "Suc (waiting_count (?qs[b := q])) = waiting_count ?qs" by (rule waiting_count_take [OF b x q(2)])
  ultimately have same: "queues_hold d' w (of_direction c W) (all_queues W (d_sched d'))"
      "unat (pending W (d_sched d')) = waiting_count (all_queues W (d_sched d'))"
      "length (all_queues W (d_sched d')) = length ?qs"
    using sc qs(2) by (simp_all add: scheduled_def hold)
  have other: "all_queues wr (d_sched d') = all_queues wr (d_sched d)" "pending wr (d_sched d') = pending wr (d_sched d)"
    if "wr \<noteq> W" for wr
  proof -
    have "wr = (\<not> W)" using that by blast
    with sc show "all_queues wr (d_sched d') = all_queues wr (d_sched d)" "pending wr (d_sched d') = pending wr (d_sched d)"
      by (simp_all only: scheduled_def)
  qed
  have mode: "fs_mode (d_sched d') = fs_mode (d_sched d)" using sc by (simp only: scheduled_def)
  have dir: "length (all_queues wr (d_sched d')) = (if wr \<and> \<not> seperate_write_queue_enabled c then 0 else unat (nbk c)) \<and>
      queues_hold d' w (of_direction c wr) (all_queues wr (d_sched d')) \<and>
      unat (pending wr (d_sched d')) = waiting_count (all_queues wr (d_sched d'))" for wr
  proof (cases "wr = W")
    case True
    from ok have "length ?qs = (if W \<and> \<not> seperate_write_queue_enabled c then 0 else unat (nbk c))"
      by (simp only: frfcfs_ok_iff)
    with same True show ?thesis by simp
  next
    case False
    from ok show ?thesis unfolding frfcfs_ok_iff other [OF False] hold by blast
  qed
  have "fs_mode (d_sched d') = WRITE_MODE \<longrightarrow> seperate_write_queue_enabled c" using ok unfolding frfcfs_ok_iff mode by blast
  with dir show ?thesis unfolding frfcfs_ok_iff by blast
qed

lemma scheduled_spec:
  assumes W: "W = (schedule_mode c (d_sched d) = WRITE_MODE)"
    and same: "all_queues W (d_sched d') = (all_queues W (d_sched d))[b := q]"
    and other: "all_queues (\<not> W) (d_sched d') = all_queues (\<not> W) (d_sched d)"
    and b: "b < length (all_queues W (d_sched d))"
    and r: "r = frfcfs_choice (row_at d) (q_last_row (all_queues W (d_sched d) ! b)) open_row (q_queue (all_queues W (d_sched d) ! b))"
    and x: "r = Some x"
    and row: "frfcfs_row (row_at d) (q_last_row (all_queues W (d_sched d) ! b)) open_row (q_queue (all_queues W (d_sched d) ! b)) = Some row"
    and q: "q_queue q = remove1 x (q_queue (all_queues W (d_sched d) ! b))"
    and l: "q_last_row q = (if \<exists>y\<in>set (q_queue q). row_at d y = Some row then Some row else None)"
  shows "schedule_spec c b open_row d r d'"
proof -
  have at: "all_queues W (d_sched d') ! b = q" using b by (simp add: same)
  have rest: "all_queues wr' (d_sched d') ! b' = all_queues wr' (d_sched d) ! b'" if "wr' = W \<and> b' \<noteq> b \<or> wr' \<noteq> W" for wr' b'
  proof (cases "wr' = W")
    case True
    with that show ?thesis by (simp add: same)
  next
    case False
    then have "wr' = (\<not> W)" by blast
    then show ?thesis by (simp only: other)
  qed
  show ?thesis
    unfolding schedule_spec_def Let_def W [symmetric]
  proof (intro conjI allI impI)
    show "r = frfcfs_choice (row_at d) (q_last_row (all_queues W (d_sched d) ! b)) open_row (q_queue (all_queues W (d_sched d) ! b))"
      by (rule r)
    show "q_queue (all_queues W (d_sched d') ! b) = (case r of None \<Rightarrow> q_queue (all_queues W (d_sched d) ! b)
        | Some r \<Rightarrow> remove1 r (q_queue (all_queues W (d_sched d) ! b)))"
      by (simp add: at x q)
    show "q_last_row (all_queues W (d_sched d') ! b) =
        (if \<exists>x\<in>set (q_queue (all_queues W (d_sched d') ! b)).
             row_at d x = frfcfs_row (row_at d) (q_last_row (all_queues W (d_sched d) ! b)) open_row (q_queue (all_queues W (d_sched d) ! b))
         then frfcfs_row (row_at d) (q_last_row (all_queues W (d_sched d) ! b)) open_row (q_queue (all_queues W (d_sched d) ! b))
         else None)"
      by (simp only: at row l)
    fix wr' b'
    show "wr' = W \<and> b' \<noteq> b \<or> wr' \<noteq> W \<Longrightarrow> all_queues wr' (d_sched d') ! b' = all_queues wr' (d_sched d) ! b'"
      by (rule rest)
  qed
qed

lemma schedule_ok:
  assumes ok: "frfcfs_ok c d w" and b: "b < unat (nbk c)"
  obtains r d' where "schedule c b open_row d w = Inr (r, d')" "schedule_spec c b open_row d r d'" "frfcfs_ok c d' w"
proof -
  let ?mode = "schedule_mode c (d_sched d)"
  let ?wr = "?mode = WRITE_MODE" and ?d = "d\<lparr>d_sched := (d_sched d)\<lparr>fs_mode := ?mode\<rparr>\<rparr>"
  let ?qs = "all_queues ?wr (d_sched ?d)"
  have okd: "frfcfs_ok c ?d w"
    using ok schedule_mode_sep [OF ok] by (auto simp: frfcfs_ok_def Let_def)
  have sep: "?wr \<longrightarrow> seperate_write_queue_enabled c" using schedule_mode_sep [OF ok] by simp
  have qs: "b < length ?qs" "queues_hold ?d w (of_direction c ?wr) ?qs" "unat (pending ?wr (d_sched ?d)) = waiting_count ?qs"
    using okd b sep by (auto simp: frfcfs_ok_iff)
  have same: "all_queues wr (d_sched ?d) = all_queues wr (d_sched d)" for wr by (simp add: all_queues_def)
  have rows: "row_at ?d = row_at d" by (simp add: row_at_def fun_eq_iff)
  have cnt: "\<exists>s3. count_scheduled c k (set_queues ?wr (?qs[b := q]) s1) = Inr s3 \<and> scheduled ?wr b (d_sched ?d) q s3"
    if "of_direction c ?wr k" "q_queue (?qs ! b) \<noteq> []" "fs_num_pending s1 = fs_num_pending (d_sched ?d)"
      "fs_num_write_pending s1 = fs_num_write_pending (d_sched ?d)" "fs_queues s1 = fs_queues (d_sched ?d)"
      "fs_write_queues s1 = fs_write_queues (d_sched ?d)" "fs_mode s1 = fs_mode (d_sched ?d)" for k q s1
    using count_scheduled_ok [OF that(1) sep _ that(3-)] waiting_count_pos [OF qs(1) that(2)] qs(3) by simp
  obtain r d' where s: "schedule_from c b open_row ?qs (set_queues ?wr) ?d w = Inr (r, d')"
    and r: "r = frfcfs_choice (row_at ?d) (q_last_row (?qs ! b)) open_row (q_queue (?qs ! b))"
    and reqs: "d_reqs d' = d_reqs ?d"
    and res: "r = None \<and> q_queue (?qs ! b) = [] \<and> q_last_row (?qs ! b) = None \<and> d' = ?d \<or>
     (\<exists>x row q. r = Some x \<and> x \<in> set (q_queue (?qs ! b)) \<and> scheduled ?wr b (d_sched ?d) q (d_sched d') \<and> queues_ok (row_at ?d) q \<and>
        frfcfs_row (row_at ?d) (q_last_row (?qs ! b)) open_row (q_queue (?qs ! b)) = Some row \<and>
        q_queue q = remove1 x (q_queue (?qs ! b)) \<and>
        q_last_row q = (if \<exists>y\<in>set (q_queue q). row_at ?d y = Some row then Some row else None))"
    by (rule schedule_from_ok [where qs = ?qs and d = ?d and store = "set_queues ?wr" and Q = "scheduled ?wr b (d_sched ?d)",
          OF qs(1,2) cnt])
  have sched: "schedule c b open_row d w = Inr (r, d')" using s by (simp only: same schedule_direction [OF refl])
  from res show ?thesis
  proof (elim disjE exE conjE)
    assume "r = None" "q_queue (?qs ! b) = []" "q_last_row (?qs ! b) = None" "d' = ?d"
    with sched okd r that [of None ?d] show ?thesis
      by (simp add: schedule_spec_def Let_def same rows)
  next
    fix x row q
    assume x: "r = Some x" "x \<in> set (q_queue (?qs ! b))" and sc: "scheduled ?wr b (d_sched ?d) q (d_sched d')"
      and q: "queues_ok (row_at ?d) q" and row: "frfcfs_row (row_at ?d) (q_last_row (?qs ! b)) open_row (q_queue (?qs ! b)) = Some row"
      and qq: "q_queue q = remove1 x (q_queue (?qs ! b))"
      and ql: "q_last_row q = (if \<exists>y\<in>set (q_queue q). row_at ?d y = Some row then Some row else None)"
    have "frfcfs_ok c d' w" by (rule scheduled_keeps [OF okd sc reqs qs(1) x(2) q qq])
    moreover have "schedule_spec c b open_row d r d'"
    proof (rule scheduled_spec [OF refl _ _ qs(1) [unfolded same] r [unfolded same rows] x(1) row [unfolded same rows]
        qq [unfolded same] ql [unfolded rows]])
      show "all_queues ?wr (d_sched d') = (all_queues ?wr (d_sched d))[b := q]"
        "all_queues (\<not> ?wr) (d_sched d') = all_queues (\<not> ?wr) (d_sched d)"
        using sc unfolding scheduled_def same by blast+
    qed
    ultimately show ?thesis using that sched by blast
  qed
qed

section \<open>Runs of the scheduler\<close>

text \<open>A controller just built; requests with their fetches enter, banks ask for a request, and everything
  else the simulator does leaves the scheduler and the row and the kind of the waiting requests alone.\<close>

inductive frfcfs_run :: "dram_config \<Rightarrow> dram_t \<Rightarrow> world \<Rightarrow> bool" for c where
  run_new: "dram_new i c junk = Inr d \<Longrightarrow> frfcfs_run c d w"
| run_add: "frfcfs_run c d w \<Longrightarrow> d_reqs d r = Some x \<Longrightarrow> w_heap w (dr_data x) = Some m \<Longrightarrow> r \<notin> queued (d_sched d) \<Longrightarrow>
    add_req c r x (is_write m) (d_sched d) = Inr s \<Longrightarrow> frfcfs_run c (d\<lparr>d_sched := s\<rparr>) w"
| run_schedule: "frfcfs_run c d w \<Longrightarrow> b < unat (nbk c) \<Longrightarrow> schedule c b open_row d w = Inr (r, d') \<Longrightarrow> frfcfs_run c d' w"
| run_other: "frfcfs_run c d w \<Longrightarrow> d_sched d' = d_sched d \<Longrightarrow>
    (\<And>r. r \<in> queued (d_sched d) \<Longrightarrow> row_at d' r = row_at d r \<and> req_kind d' w' r = req_kind d w r) \<Longrightarrow> frfcfs_run c d' w'"

lemma frfcfs_run_ok: "frfcfs_run c d w \<Longrightarrow> frfcfs_ok c d w"
proof (induction rule: frfcfs_run.induct)
  case (run_schedule d w b open_row r d')
  from schedule_ok [OF run_schedule.IH run_schedule.hyps(2), of open_row] run_schedule.hyps(3) show ?case by (metis Inr_inject prod.inject)
next
  case (run_other d w d' w')
  from frfcfs_ok_cong [OF run_other.IH run_other.hyps(2,3)] show ?case .
qed (auto intro: frfcfs_ok_new add_req_ok)

text \<open>C16: FR-FCFS.  Over every run of the scheduler a bank that asks is answered without failure: it gets
  nothing when no request of the current direction waits for it, else the oldest request of the row being
  served, else of the open row, else the oldest request; exactly that request leaves the queues, the row
  stays served while requests for it wait, and the counters are the numbers of the waiting requests.\<close>

theorem frfcfs_refines:
  assumes "frfcfs_run c d w" and "b < unat (nbk c)"
  shows "(\<exists>r d'. schedule c b open_row d w = Inr (r, d') \<and> schedule_spec c b open_row d r d') \<and>
    (\<forall>wr. unat (pending wr (d_sched d)) = waiting_count (all_queues wr (d_sched d)))"
proof
  have ok: "frfcfs_ok c d w" by (rule frfcfs_run_ok [OF assms(1)])
  show "\<exists>r d'. schedule c b open_row d w = Inr (r, d') \<and> schedule_spec c b open_row d r d'"
    by (rule schedule_ok [OF ok assms(2), of open_row]) blast
  show "\<forall>wr. unat (pending wr (d_sched d)) = waiting_count (all_queues wr (d_sched d))"
    using ok by (simp add: frfcfs_ok_iff)
qed

text \<open>Two requests wait for a bank; the younger one hits the open row.\<close>

definition demo_req :: "u32 \<Rightarrow> dram_req_t" where
  "demo_req row = \<lparr>dr_row = row, dr_col = 0, dr_bk = 0, dr_nbytes = 32, dr_txbytes = 0, dr_dqbytes = 0, dr_timestamp = 0,
     dr_rw = READ, dr_addr = 0, dr_insertion_time = 0, dr_data = 0\<rparr>"

lemma replicate_two: "replicate 2 x = [x, x]"
  by (simp add: numeral_2_eq_2)

lemma demo_run:
  obtains d where "frfcfs_run demo_dram d (test_world False)" "d_reqs d = [0 \<mapsto> demo_req 7, 1 \<mapsto> demo_req 5]"
    "schedule_mode demo_dram (d_sched d) = READ_MODE" "q_queue (fs_queues (d_sched d) ! 0) = [1, 0]"
    "q_last_row (fs_queues (d_sched d) ! 0) = None"
proof -
  obtain d0 where d0: "dram_new 0 demo_dram demo_locality = Inr d0" using demo_path by blast
  then have s0: "d_sched d0 = frfcfs_scheduler_new demo_dram" by (auto simp: dram_new_def res_simps)
  let ?w = "test_world False" and ?reqs = "[0 \<mapsto> demo_req 7, 1 \<mapsto> demo_req 5]"
  let ?d1 = "d0\<lparr>d_reqs := ?reqs\<rparr>"
  have q0: "queued (d_sched d0) = {}"
    by (auto simp: s0 queued_def frfcfs_scheduler_new_def bank_queues_new_def)
  have w: "w_heap ?w (dr_data (demo_req row)) = Some (test_fetch 0x100 False)" for row by (simp add: test_world_def demo_req_def)
  have r1: "frfcfs_run demo_dram ?d1 ?w" by (rule run_other [OF run_new [OF d0, of ?w]]) (simp_all add: q0)
  let ?q0 = "enqueue_req 0 7 bank_queues_new" and ?s0 = "frfcfs_scheduler_new demo_dram"
  let ?q1 = "enqueue_req 1 5 ?q0"
  let ?s1 = "?s0\<lparr>fs_num_pending := 1, fs_queues := [?q0, bank_queues_new]\<rparr>"
  let ?s2 = "?s1\<lparr>fs_num_pending := 2, fs_queues := [?q1, bank_queues_new]\<rparr>"
  have two: "fs_queues ?s0 = [bank_queues_new, bank_queues_new]" "fs_num_pending ?s0 = 0"
    by (simp_all add: frfcfs_scheduler_new_def demo_dram_def replicate_two)
  have c: "\<not> seperate_write_queue_enabled demo_dram" "sched_queue_size demo_dram = 4" by (simp_all add: demo_dram_def)
  have a1: "add_req demo_dram 0 (demo_req 7) k (d_sched ?d1) = Inr ?s1" for k
    by (simp add: add_req_def on_queue_def c s0 two demo_req_def res_simps)
  have r2: "frfcfs_run demo_dram (?d1\<lparr>d_sched := ?s1\<rparr>) ?w"
    by (rule run_add [OF r1 _ w _ a1]) (simp_all add: q0)
  have q1: "1 \<notin> queued ?s1" by (auto simp: queued_def enqueue_req_def bank_queues_new_def frfcfs_scheduler_new_def c)
  have a2: "add_req demo_dram 1 (demo_req 5) k ?s1 = Inr ?s2" for k
    by (simp add: add_req_def on_queue_def c demo_req_def res_simps)
  have r3: "frfcfs_run demo_dram (?d1\<lparr>d_sched := ?s1\<rparr>\<lparr>d_sched := ?s2\<rparr>) ?w"
    by (rule run_add [OF r2, of 1 "demo_req 5" "test_fetch 0x100 False"]) (use q1 a2 w in simp_all)
  show ?thesis
    by (rule that [OF r3]) (simp_all add: schedule_mode_def c enqueue_req_def bank_queues_new_def frfcfs_scheduler_new_def)
qed

theorem frfcfs_refines_witness:
  "\<exists>d d'. frfcfs_run demo_dram d (test_world False) \<and> schedule demo_dram 0 5 d (test_world False) = Inr (Some 1, d')"
proof -
  obtain d where d: "frfcfs_run demo_dram d (test_world False)" "d_reqs d = [0 \<mapsto> demo_req 7, 1 \<mapsto> demo_req 5]"
    "schedule_mode demo_dram (d_sched d) = READ_MODE" "q_queue (fs_queues (d_sched d) ! 0) = [1, 0]"
    "q_last_row (fs_queues (d_sched d) ! 0) = None"
    by (rule demo_run)
  have n: "0 < unat (nbk demo_dram)" by (simp add: demo_dram_def)
  have rows: "row_at d = [0 \<mapsto> 7, 1 \<mapsto> 5]" by (simp add: row_at_def d(2) demo_req_def fun_eq_iff)
  from frfcfs_refines [OF d(1) n, of 5] obtain r d' where
    s: "schedule demo_dram 0 5 d (test_world False) = Inr (r, d')" "schedule_spec demo_dram 0 5 d r d'" by blast
  then have "r = Some 1"
    by (simp add: schedule_spec_def Let_def d all_queues_def frfcfs_choice_def frfcfs_row_def rows)
  with s d(1) show ?thesis by blast
qed

end
