(* ===== verification/Dram_Commands.thy ===== *)
theory Dram_Commands
  imports Dram_Timing
begin

text \<open>
  The commands of a DRAM cycle and the counters that the statistics and the power model read.  A cycle
  issues at most one row and one column command, and over every run the counters are the numbers of the
  commands issued.  A controller with a single command bus can nevertheless issue two in one cycle.
\<close>

section \<open>Operations that issue nothing\<close>

lemma finish_burst_counts: "finish_burst c report d w e = Inr (d', w', e') \<Longrightarrow> d_counts d' = d_counts d"
proof -
  have "post (\<lambda>(d', w', e'). d_counts d' = d_counts d) (finish_burst c report d w e)"
    unfolding finish_burst_def Let_def by (intro post_rules) (simp_all add: set_req_def)
  then show "finish_burst c report d w e = Inr (d', w', e') \<Longrightarrow> d_counts d' = d_counts d" by (auto dest: post_D)
qed

lemma schedule_from_counts: "schedule_from c b r qs store d w = Inr (x, d') \<Longrightarrow> d_counts d' = d_counts d"
proof -
  have "post (\<lambda>(x, d'). d_counts d' = d_counts d) (schedule_from c b r qs store d w)"
    unfolding schedule_from_def Let_def by (intro post_rules) simp_all
  then show "schedule_from c b r qs store d w = Inr (x, d') \<Longrightarrow> d_counts d' = d_counts d" by (auto dest: post_D)
qed

lemma schedule_counts: "schedule c b r d w = Inr (x, d') \<Longrightarrow> d_counts d' = d_counts d"
  by (auto simp: schedule_def Let_def split: if_splits dest: schedule_from_counts)

lemma drain_mrqq_counts: "drain_mrqq c d w = Inr (d', w') \<Longrightarrow> d_counts d' = d_counts d"
proof (induction c d w rule: drain_mrqq.induct)
  case (1 c d w)
  show ?case
  proof (cases "empty (d_mrqq d)")
    case True
    with "1.prems" show ?thesis by (simp add: drain_mrqq.simps [of c d w])
  next
    case False
    with "1.prems" obtain r q x w1 m s where p: "pop (d_mrqq d) = Inr (Some r, q)" and x: "req_at r d = Inr x"
      and w1: "status_at IN_PARTITION_MC_INPUT_QUEUE (dr_data x) w = Inr w1" and m: "deref (dr_data x) w1 = Inr m"
      and s: "add_req c r x (is_write m) (d_sched d) = Inr s"
      and rest: "drain_mrqq c (d\<lparr>d_mrqq := q, d_sched := s\<rparr>) w1 = Inr (d', w')"
      by (subst (asm) drain_mrqq.simps) (auto simp: res_simps split: sum.splits prod.splits option.splits)
    from "1.IH" [OF False p refl refl x w1 m s rest] show ?thesis by simp
  qed
qed

lemma counts_untouched [simp]: "d_counts (on_bank j f d) = d_counts d" "d_counts (set_req r x d) = d_counts d"
  "d_counts (on_group g h d) = d_counts d"
  by (simp_all add: on_bank_def set_req_def on_group_def)

lemma assign_loop_counts: "post (\<lambda>(d', w'). d_counts d' = d_counts d) (assign_loop c bs d w)"
proof (induction bs arbitrary: d)
  case Nil
  show ?case by (simp add: post_Inr)
next
  case (Cons b bs)
  have next_bank: "post (\<lambda>(d', w'). d_counts d' = d_counts d) (assign_loop c bs d1 w)" if "d_counts d1 = d_counts d" for d1
    using Cons.IH [of d1] that by (simp add: post_def)
  show ?case
    unfolding assign_loop.simps Let_def
  proof (intro post_rules, goal_cases)
    case (1 x x1 d1)
    then show ?case by (intro next_bank) (auto dest: schedule_counts)
  next
    case (2 x x1 d1 r y w1)
    then have "d_counts d1 = d_counts d" by (auto dest: schedule_counts)
    then show ?case by auto
  next
    case 3
    show ?case by (rule Cons.IH)
  qed
qed

lemma scheduler_counts: "scheduler_frfcfs c d w = Inr (d', w') \<Longrightarrow> d_counts d' = d_counts d"
  "scheduler_fifo c d w = Inr (d', w') \<Longrightarrow> d_counts d' = d_counts d"
  by (auto simp: scheduler_frfcfs_def res_simps split: prod.splits dest!: drain_mrqq_counts post_D [OF assign_loop_counts])
    (auto simp: scheduler_fifo_def res_simps Let_def split: option.splits if_splits prod.splits)

lemma start_burst_counts: "start_burst c dir j r x d = Inr d' \<Longrightarrow> d_counts d' = d_counts d"
proof -
  have "post (\<lambda>d'. d_counts d' = d_counts d) (start_burst c dir j r x d)"
    unfolding start_burst_def Let_def by (intro post_rules) simp
  then show "start_burst c dir j r x d = Inr d' \<Longrightarrow> d_counts d' = d_counts d" by (rule post_D)
qed

section \<open>Commands and their counters\<close>

primrec is_col :: "dram_command \<Rightarrow> bool" where
  "is_col RD = True"
| "is_col WR = True"
| "is_col ACT = False"
| "is_col PRE = False"

primrec command_count :: "dram_command \<Rightarrow> dram_counts \<Rightarrow> u64" where
  "command_count RD s = n_rd s + n_rd_L2_A s"
| "command_count WR s = n_wr s + n_wr_WB s"
| "command_count ACT s = n_act s"
| "command_count PRE s = n_pre s"

definition cycle_counts :: "dram_counts \<Rightarrow> u64 list" where
  "cycle_counts s = [n_cmd s, n_nop s, issued_total s, issued_two s, issued_total_col s, issued_total_row s]"

text \<open>One call of an issue function: at most one command of its kind, and its counter.\<close>

definition counted :: "bool \<Rightarrow> dram_t \<Rightarrow> dram_command option \<times> dram_t \<times> world \<Rightarrow> bool" where
  "counted col d = (\<lambda>(x, d', w'). cycle_counts (d_counts d') = cycle_counts (d_counts d) \<and>
     (\<forall>k. command_count k (d_counts d') = command_count k (d_counts d) + (if x = Some k then 1 else 0)) \<and>
     (\<forall>k. x = Some k \<longrightarrow> is_col k = col))"

lemma all_command: "(\<forall>k. P k) \<longleftrightarrow> P RD \<and> P WR \<and> P ACT \<and> P PRE"
  using dram_command.nchotomy by metis

lemma issue_col_counted: "post (counted True d) (issue_col_command c j d w)"
  unfolding issue_col_command_def
proof (intro post_rules, goal_cases)
  case (2 g r x w1 m d1)
  then have "d_counts d1 = d_counts d" by (auto dest: start_burst_counts)
  then show ?case by (simp add: counted_def all_command count_read_def read_timers_def Let_def cycle_counts_def)
next
  case (3 g r x w1 m d1)
  then have "d_counts d1 = d_counts d" by (auto dest: start_burst_counts)
  then show ?case by (simp add: counted_def all_command count_write_def write_timers_def Let_def cycle_counts_def)
qed (simp_all add: counted_def)

lemma issue_row_counted: "post (counted False d) (issue_row_command c j d w)"
  unfolding issue_row_command_def Let_def
  by (intro post_rules) (simp_all add: counted_def all_command activate_def precharge_def Let_def cycle_counts_def)

section \<open>One cycle\<close>

definition times :: "dram_command \<Rightarrow> (nat \<times> dram_command) list \<Rightarrow> nat" where
  "times k cs = length (filter (\<lambda>e. snd e = k) cs)"

definition bus_log :: "dram_t \<Rightarrow> issue_state \<Rightarrow> bool" where
  "bus_log d0 = (\<lambda>(col, row, cs, k, d, w).
     filter (\<lambda>e. is_col (snd e)) cs = (case col of None \<Rightarrow> [] | Some e \<Rightarrow> [e]) \<and>
     filter (\<lambda>e. \<not> is_col (snd e)) cs = (case row of None \<Rightarrow> [] | Some e \<Rightarrow> [e]) \<and>
     cycle_counts (d_counts d) = cycle_counts (d_counts d0) \<and>
     (\<forall>x. command_count x (d_counts d) = command_count x (d_counts d0) + of_nat (times x cs)))"

lemma try_col_log:
  assumes "bus_log d0 st" and "col_of st = None"
  shows "post (bus_log d0) (try_col c j st)"
proof -
  obtain row cs k d w where st: "st = (None, row, cs, k, d, w)" using assms(2) by (cases st) (simp add: col_of_def)
  show ?thesis
    unfolding try_col_def st prod.case
  proof (intro post_rules, goal_cases)
    case (1 r x p d1 w1)
    with post_D [OF issue_col_counted] have "counted True d (None, d1, w1)" by blast
    with assms(1) show ?case by (simp add: bus_log_def st counted_def)
  next
    case (2 r x p d1 w1 cmd)
    with post_D [OF issue_col_counted] have "counted True d (Some cmd, d1, w1)" by blast
    with assms(1) show ?case by (simp add: bus_log_def st counted_def times_def)
  qed
qed

lemma try_row_log:
  assumes "bus_log d0 st" and "row_of st = None"
  shows "post (bus_log d0) (try_row c j st)"
proof -
  obtain col cs k d w where st: "st = (col, None, cs, k, d, w)" using assms(2) by (cases st) (simp add: row_of_def)
  show ?thesis
    unfolding try_row_def st prod.case
  proof (intro post_rules, goal_cases)
    case (1 r x p d1 w1)
    with post_D [OF issue_row_counted] have "counted False d (None, d1, w1)" by blast
    with assms(1) show ?case by (simp add: bus_log_def st counted_def)
  next
    case (2 r x p d1 w1 cmd)
    with post_D [OF issue_row_counted] have "counted False d (Some cmd, d1, w1)" by blast
    with assms(1) show ?case by (simp add: bus_log_def st counted_def times_def)
  qed
qed

lemma note_idle_counts: "note_idle j k d = (k', d') \<Longrightarrow> d_counts d' = d_counts d"
  by (auto simp: note_idle_def Let_def split: if_splits)

lemma try_idle_log: "bus_log d0 st \<Longrightarrow> post (bus_log d0) (try_idle j st)"
  by (cases st) (auto simp: try_idle_def bus_log_def post_def split: prod.splits dest!: note_idle_counts)

lemma step_log:
  assumes "bus_log d0 st"
  shows "post (bus_log d0) (col_step c i st)" and "post (bus_log d0) (row_step c i st)" and "post (bus_log d0) (idle_step c i st)"
    and "post (bus_log d0) (single_step c i st)"
proof -
  show "post (bus_log d0) (col_step c i st)" unfolding col_step_def by (intro post_rules) (auto intro: try_col_log assms)
  show "post (bus_log d0) (row_step c i st)" unfolding row_step_def by (intro post_rules) (auto intro: try_row_log assms)
  show "post (bus_log d0) (idle_step c i st)" unfolding idle_step_def by (intro try_idle_log assms)
  have a: "bus_log d0 st1" if "(if col_of st = None then try_col c j st else Inr st) = Inr st1" for st1 j
    using that assms post_D [OF try_col_log [OF assms]] by (auto split: if_splits)
  have b: "bus_log d0 st2" if "bus_log d0 st1" "(if col_of st1 = None \<and> row_of st1 = None then try_row c j st1 else Inr st1) = Inr st2"
    for st1 st2 j
    using that post_D [OF try_row_log [OF that(1)]] by (auto split: if_splits)
  show "post (bus_log d0) (single_step c i st)"
    unfolding single_step_def Let_def by (intro post_andThen try_idle_log) (blast intro: a b)
qed

lemma issue_commands_log: "post (bus_log d) (issue_commands c d w)"
proof -
  have l0: "bus_log d (None, None, [], nbk c, d, w)" by (simp add: bus_log_def times_def)
  have f: "post (bus_log d) (foldM (col_step c) xs st)" "post (bus_log d) (foldM (row_step c) xs st)"
    "post (bus_log d) (foldM (idle_step c) xs st)" "post (bus_log d) (foldM (single_step c) xs st)" if "bus_log d st" for xs st
    by (rule post_foldM [where P = "bus_log d", OF _ that], rule step_log, assumption)+
  show ?thesis
    unfolding issue_commands_def Let_def
    using l0 f(3,4) post_D [OF f(1)] post_D [OF f(2)] by (intro post_if post_andThen) blast+
qed

definition cols :: "(nat \<times> dram_command) list \<Rightarrow> nat" where
  "cols cs = length (filter (\<lambda>e. is_col (snd e)) cs)"

definition rows :: "(nat \<times> dram_command) list \<Rightarrow> nat" where
  "rows cs = length (filter (\<lambda>e. \<not> is_col (snd e)) cs)"

lemma length_cols_rows: "length cs = cols cs + rows cs"
  by (simp add: cols_def rows_def sum_length_filter_compl)

text \<open>The counters of whole cycles after the cycles \<open>css\<close>.\<close>

definition cycle_totals :: "(nat \<times> dram_command) list list \<Rightarrow> nat list" where
  "cycle_totals css = [length css, length (filter (\<lambda>cs. cs = []) css), length (filter (\<lambda>cs. cs \<noteq> []) css),
     length (filter (\<lambda>cs. length cs = 2) css), cols (concat css), rows (concat css)]"

lemma dram_cycle_counts:
  assumes "dram_cycle c report d w e = Inr (cs, d', w', e')"
  shows "cols cs \<le> 1 \<and> rows cs \<le> 1 \<and>
    cycle_counts (d_counts d') = map2 (+) (cycle_counts (d_counts d)) (map of_nat (cycle_totals [cs])) \<and>
    (\<forall>x. command_count x (d_counts d') = command_count x (d_counts d) + of_nat (times x cs))"
proof -
  have "post (\<lambda>(cs, d', w', e'). cols cs \<le> 1 \<and> rows cs \<le> 1 \<and>
    cycle_counts (d_counts d') = map2 (+) (cycle_counts (d_counts d)) (map of_nat (cycle_totals [cs])) \<and>
    (\<forall>x. command_count x (d_counts d') = command_count x (d_counts d) + of_nat (times x cs))) (dram_cycle c report d w e)"
    unfolding dram_cycle_def Let_def
  proof (intro post_rules, goal_cases)
    case (1 x d1 y w1 e1 z d2 w2 xs loc st col r1 row r2 cs r3 k r4 d4 w3 ys)
    have s1: "d_counts d1 = d_counts d" using 1 by (auto dest: finish_burst_counts)
    have "d_counts d2 = d_counts d1"
      using 1 by (auto split: dram_ctrl_t.splits dest: scheduler_counts)
    with s1 have s2: "cycle_counts (d_counts (note_queue c d2)) = cycle_counts (d_counts d)"
        "command_count x (d_counts (note_queue c d2)) = command_count x (d_counts d)" for x
      by (cases x; simp add: note_queue_def Let_def cycle_counts_def)+
    have l: "bus_log ((note_queue c d2)\<lparr>d_locality := loc\<rparr>) (col, row, cs, k, d4, w3)"
      using post_D [OF issue_commands_log] 1 by blast
    then have cs: "cols cs = (if col = None then 0 else 1)" "rows cs = (if row = None then 0 else 1)"
      by (auto simp: bus_log_def cols_def rows_def split: option.splits)
    have "length cs = (if col = None then 0 else 1) + (if row = None then 0 else 1)"
      by (simp only: length_cols_rows cs)
    then have n: "(cs = []) = (col = None \<and> row = None)" "(length cs = 2) = (col \<noteq> None \<and> row \<noteq> None)"
      by (auto split: if_splits)
    have n4: "cycle_counts (d_counts d4) = cycle_counts (d_counts d)"
      "command_count x (d_counts d4) = command_count x (d_counts d) + of_nat (times x cs)" for x
      using l by (simp_all add: bus_log_def s2)
    have "command_count x (d_counts (note_issued a b k' d4)) = command_count x (d_counts d4)" for x a b k'
      by (cases x) (simp_all add: note_issued_def Let_def)
    moreover have "cycle_counts (d_counts (note_issued (col \<noteq> None) (row \<noteq> None) k d4)) =
        map2 (+) (cycle_counts (d_counts d4)) (map of_nat (cycle_totals [cs]))"
      by (simp add: note_issued_def Let_def cycle_counts_def cycle_totals_def bump_def n cs)
    ultimately show ?case using n4 cs by (simp add: decrement_counters_def)
  qed
  with assms show ?thesis by (auto dest: post_D)
qed

section \<open>Runs\<close>

lemma command_count_untouched [simp]: "command_count k (s\<lparr>n_req := a\<rparr>) = command_count k s"
  "command_count k (s\<lparr>max_mrqs_temp := a\<rparr>) = command_count k s"
  by (cases k; simp)+

lemma dram_push_counts:
  assumes "dram_push c mf d w = Inr (d', w')"
  shows "cycle_counts (d_counts d') = cycle_counts (d_counts d)" and "command_count x (d_counts d') = command_count x (d_counts d)"
  using assms by (auto simp: dram_push_def res_simps Let_def cycle_counts_def)

lemma return_queue_pop_counts: "return_queue_pop d = Inr (x, d') \<Longrightarrow> d_counts d' = d_counts d"
  by (auto simp: return_queue_pop_def res_simps split: prod.splits)

lemma cycle_totals_snoc: "cycle_totals (css @ [cs]) = map2 (+) (cycle_totals css) (cycle_totals [cs])"
  by (simp add: cycle_totals_def cols_def rows_def)

lemma times_append: "times k (xs @ ys) = times k xs + times k ys"
  by (simp add: times_def)

definition counters_exact :: "(nat \<times> dram_command) list list \<Rightarrow> dram_counts \<Rightarrow> bool" where
  "counters_exact css s \<longleftrightarrow> cycle_counts s = map of_nat (cycle_totals css) \<and>
     (\<forall>k. command_count k s = of_nat (times k (concat css)))"

lemma counters_exact_snoc:
  assumes "counters_exact css s"
    and "cycle_counts s' = map2 (+) (cycle_counts s) (map of_nat (cycle_totals [cs]))"
    and "\<forall>k. command_count k s' = command_count k s + of_nat (times k cs)"
  shows "counters_exact (css @ [cs]) s'"
proof -
  have "map2 (+) (map of_nat xs) (map of_nat ys) = (map of_nat (map2 (+) xs ys) :: u64 list)" for xs ys
    by (induction xs ys rule: list_induct2') simp_all
  with assms show ?thesis by (simp add: counters_exact_def cycle_totals_snoc times_append)
qed

text \<open>C17: Over every run of a controller from its construction each cycle issues at most one row and at
  most one column command, and the counters the statistics and the power model read are exact: \<open>n_act\<close>,
  \<open>n_pre\<close>, the reads and the writes count the commands issued, \<open>n_cmd\<close> the cycles, \<open>n_nop\<close> those without
  a command and \<open>issued_two\<close> those with two (all of them 64 bits wide).\<close>

theorem dram_commands_counted:
  assumes "dram_new partition_id c junk = Inr d0" and "dram_path c report d0 css d"
  shows "(\<forall>cs\<in>set css. cols cs \<le> 1 \<and> rows cs \<le> 1) \<and> counters_exact css (d_counts d)"
proof -
  have "counters_exact [] (d_counts d0)"
    using assms(1) by (auto simp: dram_new_def res_simps counters_exact_def cycle_counts_def cycle_totals_def cols_def rows_def
        times_def all_command)
  with assms(2) show ?thesis
  proof (induction rule: dram_path.induct)
    case (path_cycle css d w e cs d' w' e')
    with dram_cycle_counts [OF path_cycle.hyps(2)] show ?case by (auto intro: counters_exact_snoc)
  next
    case (path_push css d mf w d' w')
    with dram_push_counts [OF path_push.hyps(2)] show ?case by (simp add: counters_exact_def)
  next
    case (path_pop css d r d')
    with return_queue_pop_counts [OF path_pop.hyps(2)] show ?case by simp
  qed simp
qed

theorem dram_commands_counted_witness:
  "\<exists>d0 d. dram_new 0 demo_dram demo_locality = Inr d0 \<and>
     dram_path demo_dram (\<lambda>r e w. Inr (e :: unit, w)) d0 [[(0, ACT)], [], [(0, RD)]] d \<and>
     n_cmd (d_counts d) = 3 \<and> n_nop (d_counts d) = 1 \<and> n_act (d_counts d) = 1"
proof -
  obtain d0 d where d: "dram_new 0 demo_dram demo_locality = Inr d0"
    "dram_path demo_dram (\<lambda>r e w. Inr (e :: unit, w)) d0 [[(0, ACT)], [], [(0, RD)]] d"
    using demo_path by blast
  from dram_commands_counted [OF d]
  have c: "cycle_counts (d_counts d) = map of_nat (cycle_totals [[(0, ACT)], [], [(0, RD)]])"
    and k: "command_count ACT (d_counts d) = of_nat (times ACT (concat [[(0, ACT)], [], [(0, RD)]]))"
    by (simp_all only: counters_exact_def)
  from c k d show ?thesis by (auto simp: cycle_counts_def cycle_totals_def times_def)
qed

section \<open>The single bus\<close>

definition single_bus :: dram_config where
  "single_bus = demo_dram\<lparr>nbk := 4, bk_tag_length := 2, tRRD := 1, tRCD := 1\<rparr>"

definition bus_world :: world where
  "bus_world = (test_world False)\<lparr>w_heap := [0 \<mapsto> (test_fetch 0x100 False)\<lparr>mf_raw_addr := mf_raw_addr (test_fetch 0x100 False)\<lparr>ad_bk := 2\<rparr>\<rparr>,
     1 \<mapsto> (test_fetch 0x200 False)\<lparr>mf_raw_addr := mf_raw_addr (test_fetch 0x200 False)\<lparr>ad_bk := 3\<rparr>\<rparr>]\<rparr>"

lemma single_bus_commands:
  "(case andThen (dram_new 0 single_bus demo_locality) (\<lambda>d0.
      andThen (dram_push single_bus 0 d0 bus_world) (\<lambda>(d1, w1).
      andThen (dram_cycle single_bus (\<lambda>r e w. Inr (e, w)) d1 w1 ()) (\<lambda>(cs1, d2, w2, u).
      andThen (dram_push single_bus 1 d2 w2) (\<lambda>(d3, w3).
      andThen (dram_cycle single_bus (\<lambda>r e w. Inr (e, w)) d3 w3 ()) (\<lambda>(cs2, d4, w4, u).
      Inr (cs1, cs2)))))) of
      Inl e \<Rightarrow> False | Inr cs \<Rightarrow> cs = ([(2, ACT)], [(3, ACT), (2, RD)]))"
  by code_simp

text \<open>C18: A controller without the dual bus interface can issue a row and a column command in one cycle,
  although it is to issue only one of them: a row command does not stop the search for a column command at
  the later banks, and it moves \<open>prio\<close> so that the search skips a bank.\<close>

theorem single_bus_issues_two:
  "\<not> dual_bus_interface single_bus \<and>
   (\<exists>d0 d. dram_new 0 single_bus demo_locality = Inr d0 \<and>
      dram_path single_bus (\<lambda>r e w. Inr (e :: unit, w)) d0 [[(2, ACT)], [(3, ACT), (2, RD)]] d)"
proof
  show "\<not> dual_bus_interface single_bus" by (simp add: single_bus_def demo_dram_def)
  from single_bus_commands obtain d0 d1 w1 d2 w2 d3 w3 d4 w4 where
    n: "dram_new 0 single_bus demo_locality = Inr d0" and p: "dram_push single_bus 0 d0 bus_world = Inr (d1, w1)"
    and c: "dram_cycle single_bus (\<lambda>r e w. Inr (e, w)) d1 w1 () = Inr ([(2, ACT)], d2, w2, ())"
    and p2: "dram_push single_bus 1 d2 w2 = Inr (d3, w3)"
    and c2: "dram_cycle single_bus (\<lambda>r e w. Inr (e, w)) d3 w3 () = Inr ([(3, ACT), (2, RD)], d4, w4, ())"
    by (auto simp: res_simps split: sum.splits)
  let ?path = "dram_path single_bus (\<lambda>r e w. Inr (e :: unit, w)) d0"
  have "?path [] d1" by (rule dram_path.path_push [OF dram_path.path_start p])
  from dram_path.path_cycle [OF this c] have "?path [[(2, ACT)]] d2" by simp
  from dram_path.path_cycle [OF dram_path.path_push [OF this p2] c2]
  have "?path [[(2, ACT)], [(3, ACT), (2, RD)]] d4" by simp
  with n show "\<exists>d0 d. dram_new 0 single_bus demo_locality = Inr d0 \<and>
      dram_path single_bus (\<lambda>r e w. Inr (e :: unit, w)) d0 [[(2, ACT)], [(3, ACT), (2, RD)]] d" by blast
qed

end
