(* ===== verification/Address_Decoder.thy ===== *)
theory Address_Decoder
  imports Mem_Fetch Hashing Gpu_Misc
begin

text \<open>
  \<open>linear_to_raw_address_translation\<close> of \<open>src/src/gpgpu-sim/addrdec.{h,cc}\<close>: the mapping of a linear
  address to a memory channel, sub partition, bank, row and column, configured by a mask string (or
  one of the built-in mask sets) and by the number of channels, and its self test.

  The arrays indexed by \<open>CHIP\<close>, \<open>BK\<close>, \<open>ROW\<close>, \<open>COL\<close> and \<open>BURST\<close> are functions of that enumeration.
  \<open>ADDR_CHIP_S\<close> is an \<open>int\<close>; a shift by a negative amount or by the width or more is undefined.  The
  global table \<open>address_random_interleaving\<close> and the position in the sequence of \<open>rand()\<close> are the
  state \<open>interleaving\<close>; the sequence itself is a parameter.

  Shown: under consecutive, permuted and custom indexing decoding is injective (\<open>encode_addr\<close> undoes it)
  and the self test passes with several channels; the identifiers are in range; the self test aborts with a
  single channel of a single sub partition, and on the shipped TITAN V configuration, whose \<open>IPOLY\<close> indexing
  decodes two addresses alike.
\<close>

section \<open>Model\<close>

datatype partition_index_function =
    CONSECUTIVE
  | BITWISE_PERMUTATION
  | IPOLY
  | PAE
  | RANDOM
  | CUSTOM

datatype addr_field = CHIP | BK | ROW | COL | BURST

record addr_translation =
  addrdec_option :: "string option"
  gpgpu_mem_address_mask :: int
  memory_partition_indexing :: partition_index_function
  run_test :: bool
  ADDR_CHIP_S :: int
  addrdec_mklow :: "addr_field \<Rightarrow> u8"
  addrdec_mkhigh :: "addr_field \<Rightarrow> u8"
  addrdec_mask :: "addr_field \<Rightarrow> u64"
  sub_partition_id_mask :: u64
  gap :: u32
  m_n_channel :: u32
  m_n_sub_partition_in_channel :: u32
  m_n_sub_partition_total :: u32
  log2channel :: u32
  log2sub_partition :: u32
  nextPowerOf2_m_n_channel :: u32

definition addr_translation_new :: "addr_translation \<Rightarrow> addr_translation" where
  "addr_translation_new t = t\<lparr>addrdec_option := None, ADDR_CHIP_S := 10,
     addrdec_mklow := (\<lambda>_. 0), addrdec_mkhigh := (\<lambda>_. 64),
     addrdec_mask := (\<lambda>f. case f of CHIP \<Rightarrow> 0x1C00 | BK \<Rightarrow> 0x300 | ROW \<Rightarrow> 0xFFF0000
                        | COL \<Rightarrow> 0xE0FF | BURST \<Rightarrow> 0xF)\<rparr>"

subsection \<open>Integer helpers\<close>

fun powli_loop :: "int \<Rightarrow> nat \<Rightarrow> int \<Rightarrow> int" where
  "powli_loop x 0 r = r"
| "powli_loop x (Suc n) r = powli_loop x n (r * x)"

definition powli :: "int \<Rightarrow> nat \<Rightarrow> int" where
  "powli x y = powli_loop x y 1"

definition LOGB2_32 :: "u32 \<Rightarrow> u32" where
  "LOGB2_32 v0 =
    (let r0 = 0;
         s1 = (if v0 AND 0xFFFF0000 \<noteq> 0 then 16 else 0); v1 = drop_bit s1 v0; r1 = r0 OR of_nat s1;
         s2 = (if v1 AND 0xFF00 \<noteq> 0 then 8 else 0); v2 = drop_bit s2 v1; r2 = r1 OR of_nat s2;
         s3 = (if v2 AND 0xF0 \<noteq> 0 then 4 else 0); v3 = drop_bit s3 v2; r3 = r2 OR of_nat s3;
         s4 = (if v3 AND 0xC \<noteq> 0 then 2 else 0); v4 = drop_bit s4 v3; r4 = r3 OR of_nat s4;
         s5 = (if v4 AND 0x2 \<noteq> 0 then 1 else 0); r5 = r4 OR of_nat s5
     in r5)"

lemma clear_lowest_less:
  fixes n :: "'a::len word"
  assumes "n \<noteq> 0"
  shows "n AND (n - 1) < n"
proof -
  have "n AND (n - 1) \<le> n - 1" by (simp add: word_and_le1)
  moreover have "n - 1 < n" using assms by (simp add: word_less_nat_alt unat_minus_one unat_gt_0)
  ultimately show ?thesis by (rule order.strict_trans1)
qed

function unset_rightmost :: "u32 \<Rightarrow> u32" where
  "unset_rightmost n = (if n AND (n - 1) \<noteq> 0 then unset_rightmost (n AND (n - 1)) else n)"
  by pat_completeness auto
termination
proof (relation "measure unat")
  fix n :: u32
  assume "n AND (n - 1) \<noteq> 0"
  then have "n \<noteq> 0" by auto
  then have "n AND (n - 1) < n" by (rule clear_lowest_less)
  then show "(n AND (n - 1), n) \<in> measure unat" by (simp add: word_less_nat_alt)
qed simp

declare unset_rightmost.simps [simp del]

definition next_powerOf2 :: "u32 \<Rightarrow> u32" where
  "next_powerOf2 n = push_bit 1 (unset_rightmost (n - 1))"

subsection \<open>Packing bits\<close>

definition bit_at :: "nat \<Rightarrow> u64" where
  "bit_at i = push_bit i 1"

fun packbits_loop :: "u64 \<Rightarrow> u64 \<Rightarrow> nat list \<Rightarrow> nat \<Rightarrow> u64 \<Rightarrow> u64" where
  "packbits_loop msk val [] pos r = r"
| "packbits_loop msk val (i # is') pos r =
     (if msk AND bit_at i \<noteq> 0
      then packbits_loop msk val is' (pos + 1) (r OR push_bit pos (drop_bit i (val AND bit_at i)))
      else packbits_loop msk val is' pos r)"

definition addrdec_packbits :: "u64 \<Rightarrow> u64 \<Rightarrow> u8 \<Rightarrow> u8 \<Rightarrow> u64" where
  "addrdec_packbits msk val high low = packbits_loop msk val [unat low..<unat high] 0 0"

fun masklimit_loop :: "u64 \<Rightarrow> nat list \<Rightarrow> bool \<Rightarrow> u8 \<Rightarrow> u8 \<Rightarrow> u8 \<times> u8" where
  "masklimit_loop msk [] low_found high low = (high, low)"
| "masklimit_loop msk (i # is') low_found high low =
     (if msk AND bit_at i \<noteq> 0 then
        (if low_found then masklimit_loop msk is' low_found (of_nat (i + 1)) low
         else masklimit_loop msk is' True (of_nat (i + 1)) (of_nat i))
      else masklimit_loop msk is' low_found high low)"

text \<open>\<open>getmasklimit\<close> is the pair of the two outputs \<open>high\<close> and \<open>low\<close>.\<close>

definition addrdec_getmasklimit :: "u64 \<Rightarrow> u8 \<times> u8" where
  "addrdec_getmasklimit msk = masklimit_loop msk [0..<64] False 64 0"

definition pack_field :: "addr_translation \<Rightarrow> addr_field \<Rightarrow> u64 \<Rightarrow> u32" where
  "pack_field t f a = ucast (addrdec_packbits (addrdec_mask t f) a (addrdec_mkhigh t f) (addrdec_mklow t f))"

subsection \<open>The mapping\<close>

text \<open>Shifts of a 64-bit and of an \<open>int\<close> operand by a signed amount.\<close>

definition shr64 :: "u64 \<Rightarrow> int \<Rightarrow> u64 res" where
  "shr64 v n = defined (0 \<le> n \<and> n < 64) (Inr (drop_bit (nat n) v))"

definition shl64 :: "u64 \<Rightarrow> int \<Rightarrow> u64 res" where
  "shl64 v n = defined (0 \<le> n \<and> n < 64) (Inr (push_bit (nat n) v))"

definition shr64u :: "u64 \<Rightarrow> u32 \<Rightarrow> u64 res" where
  "shr64u v n = defined (unat n < 64) (Inr (drop_bit (unat n) v))"

text \<open>\<open>(1 << ADDR_CHIP_S) - 1\<close> is computed as an \<open>int\<close>, which cannot hold \<open>1 << 31\<close>.\<close>

definition low_mask :: "int \<Rightarrow> u64 res" where
  "low_mask n = defined (0 \<le> n \<and> n < 31) (Inr (push_bit (nat n) 1 - 1))"

text \<open>The address without its channel: quotient and low bits stitched together.\<close>

definition stitch :: "addr_translation \<Rightarrow> u64 \<Rightarrow> u64 res" where
  "stitch t addr =
     andThen (shr64 addr (ADDR_CHIP_S t)) (\<lambda>hi.
     defined (m_n_channel t \<noteq> 0)
     (andThen (shl64 (hi div ucast (m_n_channel t)) (ADDR_CHIP_S t)) (\<lambda>q.
      andThen (low_mask (ADDR_CHIP_S t)) (\<lambda>m. Inr (q OR (addr AND m))))))"

definition partition_address :: "addr_translation \<Rightarrow> u64 \<Rightarrow> u64 res" where
  "partition_address t addr =
     (if gap t = 0 then
        Inr (addrdec_packbits (NOT (addrdec_mask t CHIP OR sub_partition_id_mask t)) addr 64 0)
      else andThen (stitch t addr) (\<lambda>p.
        Inr (addrdec_packbits (NOT (sub_partition_id_mask t)) p 64 0)))"

text \<open>Channel, bank, row, column, burst and the remaining high bits, before the indexing function.
  The shift amount of the first case is \<open>unsigned\<close>.\<close>

definition tlx_fields :: "addr_translation \<Rightarrow> u64 \<Rightarrow> (addrdec_t \<times> u64) res" where
  "tlx_fields t addr =
     (if gap t = 0 then
        andThen (shr64u addr (of_int (ADDR_CHIP_S t) + (log2channel t + log2sub_partition t)))
          (\<lambda>high. Inr (\<lparr>ad_chip = pack_field t CHIP addr, ad_bk = pack_field t BK addr,
                  ad_row = pack_field t ROW addr, ad_col = pack_field t COL addr,
                  ad_burst = pack_field t BURST addr, ad_sub_partition = 0\<rparr>, high))
      else
        andThen (shr64 addr (ADDR_CHIP_S t)) (\<lambda>hi.
        defined (m_n_channel t \<noteq> 0)
        (andThen (stitch t addr) (\<lambda>rest.
           Inr (\<lparr>ad_chip = ucast (hi mod ucast (m_n_channel t)), ad_bk = pack_field t BK rest,
                  ad_row = pack_field t ROW rest, ad_col = pack_field t COL rest,
                  ad_burst = pack_field t BURST rest, ad_sub_partition = 0\<rparr>,
                hi div ucast (m_n_channel t))))))"

text \<open>The sub partition: the channel and the low bits of the bank.\<close>

definition combine_sub_partition :: "addr_translation \<Rightarrow> addrdec_t \<Rightarrow> u32" where
  "combine_sub_partition t x = ad_chip x * m_n_sub_partition_in_channel t +
     (ad_bk x AND (m_n_sub_partition_in_channel t - 1))"

record interleaving =
  address_random_interleaving :: "u64 \<rightharpoonup> u32"
  rand_pos :: nat

definition set_by_id :: "addr_translation \<Rightarrow> u32 \<Rightarrow> addrdec_t \<Rightarrow> addrdec_t res" where
  "set_by_id t p x = defined (m_n_sub_partition_in_channel t \<noteq> 0)
     (let x' = x\<lparr>ad_chip := p div m_n_sub_partition_in_channel t, ad_sub_partition := p\<rparr> in
      check (ad_chip x' < m_n_channel t)
      (check (ad_sub_partition x' < m_n_channel t * m_n_sub_partition_in_channel t) (Inr x')))"

definition addrdec_tlx ::
  "(nat \<Rightarrow> u32) \<Rightarrow> addr_translation \<Rightarrow> u64 \<Rightarrow> interleaving \<Rightarrow> (addrdec_t \<times> interleaving) res" where
  "addrdec_tlx rnd t addr s =
     andThen (tlx_fields t addr) (\<lambda>(x, high).
     let n = m_n_channel t; nsub = m_n_sub_partition_in_channel t;
         finish = (\<lambda>x. Inr (x\<lparr>ad_sub_partition := combine_sub_partition t x\<rparr>, s)) in
     case memory_partition_indexing t of
       CONSECUTIVE \<Rightarrow> finish x
     | BITWISE_PERMUTATION \<Rightarrow> check (gap t = 0)
         (let x' = x\<lparr>ad_chip := bitwise_hash_function high (ad_chip x) n\<rparr> in
          check (ad_chip x' < n) (finish x'))
     | IPOLY \<Rightarrow>
         andThen (ipoly_hash_function high (combine_sub_partition t x)
                    (nextPowerOf2_m_n_channel t * nsub)) (\<lambda>p.
         defined (gap t = 0 \<or> n * nsub \<noteq> 0)
           (andThen (set_by_id t (if gap t \<noteq> 0 then p mod (n * nsub) else p) x) (\<lambda>x'. Inr (x', s))))
     | RANDOM \<Rightarrow>
         andThen (shr64u addr (of_int (ADDR_CHIP_S t) - log2sub_partition t)) (\<lambda>a.
         case address_random_interleaving s a of
           None \<Rightarrow> defined (n * nsub \<noteq> 0)
             (let p = rnd (rand_pos s) mod (n * nsub) in
              andThen (set_by_id t p x) (\<lambda>x'. Inr (x',
                s\<lparr>address_random_interleaving := (address_random_interleaving s)(a \<mapsto> p),
                  rand_pos := rand_pos s + 1\<rparr>)))
         | Some p \<Rightarrow> andThen (set_by_id t p x) (\<lambda>x'. Inr (x', s)))
     | CUSTOM \<Rightarrow> finish x
     | PAE \<Rightarrow> Inl Assertion)"

subsection \<open>The mapping string\<close>

text \<open>\<open>sscanf(option, "dramid@%d", ...)\<close>: the value when the conversion succeeded.\<close>

definition scan_dramid :: "string \<Rightarrow> int option res" where
  "scan_dramid s =
     (if take 7 s = ''dramid@'' then
        (case scan_u (drop 7 s) of None \<Rightarrow> Inr None
         | Some (neg, n, rest) \<Rightarrow> (let v = (if neg then - n else n) in
             defined (- (2 ^ 31) \<le> v \<and> v < 2 ^ 31) (Inr (Some v))))
      else Inr None)"

definition after_semicolon :: "string \<Rightarrow> string" where
  "after_semicolon s =
     (if CHR '';'' \<in> set s then tl (dropWhile (\<lambda>c. c \<noteq> CHR '';'') s) else s)"

definition char_fields :: "char \<Rightarrow> addr_field list" where
  "char_fields c =
     (if c \<in> set ''Dd'' then [CHIP] else if c \<in> set ''Bb'' then [BK]
      else if c \<in> set ''Rr'' then [ROW] else if c \<in> set ''Cc'' then [COL]
      else if c \<in> set ''Ss'' then [BURST, COL] else [])"

definition add_bit :: "nat \<Rightarrow> addr_field \<Rightarrow> (addr_field \<Rightarrow> u64) \<Rightarrow> addr_field \<Rightarrow> u64" where
  "add_bit i f m = m(f := m f OR bit_at i)"

text \<open>One character per bit, from bit 63 down.  A character that is neither a field, \<open>0\<close> nor a
  separator is reported and skipped.\<close>

fun parse_mapping :: "bool \<Rightarrow> string \<Rightarrow> (addr_field \<Rightarrow> u64) \<Rightarrow> int \<Rightarrow> ((addr_field \<Rightarrow> u64) \<times> int) res" where
  "parse_mapping parsed [] m ofs = Inr (m, ofs)"
| "parse_mapping parsed (c # cs) m ofs =
     (if char_fields c \<noteq> [] then
        check (\<not> (c \<in> set ''Dd'' \<and> parsed))
        (defined (0 \<le> ofs \<and> ofs < 64)
          (parse_mapping parsed cs (fold (add_bit (nat ofs)) (char_fields c) m) (ofs - 1)))
      else if c = CHR ''0'' then parse_mapping parsed cs m (ofs - 1)
      else parse_mapping parsed cs m ofs)"

definition addrdec_parseoption :: "string \<Rightarrow> addr_translation \<Rightarrow> addr_translation res" where
  "addrdec_parseoption option t =
     andThen (scan_dramid option) (\<lambda>d.
     andThen (parse_mapping (d \<noteq> None) (after_semicolon option) (\<lambda>_. 0) 63) (\<lambda>(m, ofs).
     check (ofs = - 1)
       (Inr (t\<lparr>ADDR_CHIP_S := (case d of None \<Rightarrow> - 1 | Some v \<Rightarrow> v), addrdec_mask := m\<rparr>))))"

subsection \<open>The self test\<close>

text \<open>\<open>history_map\<close> compares all six fields.  The addresses are the multiples of four below 16 MB.\<close>

definition sweep_addrs :: "u64 list" where
  "sweep_addrs = map (\<lambda>k. of_nat (4 * k)) [1..<4194304]"

fun sweep_loop :: "(nat \<Rightarrow> u32) \<Rightarrow> addr_translation \<Rightarrow> u64 list \<Rightarrow> (addrdec_t \<times> u64) list \<Rightarrow>
    interleaving \<Rightarrow> interleaving res" where
  "sweep_loop rnd t [] h s = Inr s"
| "sweep_loop rnd t (raw # raws) h s =
     andThen (addrdec_tlx rnd t raw s) (\<lambda>(x, s').
     if map_of h x \<noteq> None then Inl Abort
     else check (ad_chip x < m_n_channel t)
       (andThen (shl64 1 (if ADDR_CHIP_S t \<noteq> - 1 then ADDR_CHIP_S t else uint (addrdec_mklow t CHIP)))
        (\<lambda>lim. andThen (partition_address t raw) (\<lambda>p.
         check (raw \<ge> lim \<longrightarrow> raw \<noteq> p)
           (sweep_loop rnd t raws ((x, raw) # h) s')))))"

definition sweep_test :: "(nat \<Rightarrow> u32) \<Rightarrow> addr_translation \<Rightarrow> interleaving \<Rightarrow> interleaving res" where
  "sweep_test rnd t s = sweep_loop rnd t sweep_addrs [] s"

subsection \<open>Initialisation\<close>

definition builtin :: "int \<Rightarrow> u64 \<Rightarrow> u64 \<Rightarrow> u64 \<Rightarrow> addr_translation \<Rightarrow> addr_translation" where
  "builtin chip_s b r c t = t\<lparr>ADDR_CHIP_S := chip_s,
     addrdec_mask := (addrdec_mask t)(CHIP := 0, BK := b, ROW := r, COL := c)\<rparr>"

definition builtin_masks :: "addr_translation \<Rightarrow> addr_translation" where
  "builtin_masks t =
     (let k = gpgpu_mem_address_mask t; new_masks = (\<lambda>s. builtin s 0x1800 0x7FFE000 0x7FF t) in
      if k = 0 then builtin 10 0x300 0x7FFE000 0x1CFF t
      else if k = 1 then new_masks 13
      else if k = 2 then new_masks 11
      else if k = 3 then builtin 11 0x1800 0xFFFE000 0x7FF t
      else if k = 14 then new_masks 14
      else if k = 15 then new_masks 15
      else if k = 16 then new_masks 16
      else if k = 6 then new_masks 6
      else if k = 5 then new_masks 5
      else if k = 100 then builtin 1 0x3 0x7FFE000 0x1FFC t
      else if k = 103 then builtin 3 0x3 0x7FFE000 0x1FFC t
      else if k = 106 then new_masks 6
      else if k = 160 then builtin 6 0x300 0x7FFE000 0x1CFF t
      else t)"

definition spread :: "u64 \<Rightarrow> nat \<Rightarrow> u64 \<Rightarrow> u64" where
  "spread msk k m = push_bit k (m AND NOT msk) OR (m AND msk)"

definition insert_chip_bits :: "nat \<Rightarrow> addr_translation \<Rightarrow> addr_translation res" where
  "insert_chip_bits nchipbits t =
     andThen (shl64 1 (ADDR_CHIP_S t)) (\<lambda>b.
     let msk = b - 1; m = addrdec_mask t; s = nat (ADDR_CHIP_S t) in
     defined (s + nchipbits \<le> 64)
       (Inr (t\<lparr>addrdec_mask := m(BK := spread msk nchipbits (m BK), ROW := spread msk nchipbits (m ROW),
                COL := spread msk nchipbits (m COL),
                CHIP := fold (\<lambda>i c. c OR bit_at i) [s..<s + nchipbits] (m CHIP))\<rparr>)))"

fun sub_mask_loop :: "u64 \<Rightarrow> u32 \<Rightarrow> nat list \<Rightarrow> u32 \<Rightarrow> u64 \<Rightarrow> u64" where
  "sub_mask_loop bkmask n [] pos r = r"
| "sub_mask_loop bkmask n (i # is') pos r =
     (if bkmask AND bit_at i \<noteq> 0 then
        (if pos + 1 \<ge> n then r OR bit_at i
         else sub_mask_loop bkmask n is' (pos + 1) (r OR bit_at i))
      else sub_mask_loop bkmask n is' pos r)"

definition set_limits :: "addr_translation \<Rightarrow> addr_translation" where
  "set_limits t = t\<lparr>addrdec_mkhigh := (\<lambda>f. fst (addrdec_getmasklimit (addrdec_mask t f))),
     addrdec_mklow := (\<lambda>f. snd (addrdec_getmasklimit (addrdec_mask t f)))\<rparr>"

definition set_sub_mask :: "addr_translation \<Rightarrow> addr_translation" where
  "set_sub_mask t = t\<lparr>sub_partition_id_mask :=
     (if 1 < sint (m_n_sub_partition_in_channel t) then
        sub_mask_loop (addrdec_mask t BK) (LOGB2_32 (m_n_sub_partition_in_channel t))
          [unat (addrdec_mklow t BK)..<unat (addrdec_mkhigh t BK)] 0 0
      else 0)\<rparr>"

definition set_counts :: "u32 \<Rightarrow> u32 \<Rightarrow> addr_translation \<Rightarrow> addr_translation" where
  "set_counts n_channel n_sub t = t\<lparr>log2channel := LOGB2_32 n_channel,
     log2sub_partition := LOGB2_32 n_sub, m_n_channel := n_channel,
     m_n_sub_partition_in_channel := n_sub, nextPowerOf2_m_n_channel := next_powerOf2 n_channel,
     m_n_sub_partition_total := n_channel * n_sub,
     gap := of_int (uint n_channel - powli 2 (unat (LOGB2_32 n_channel)))\<rparr>"

definition init_tables :: "u32 \<Rightarrow> u32 \<Rightarrow> addr_translation \<Rightarrow> addr_translation res" where
  "init_tables n_channel n_sub t =
     (let t1 = builtin_masks (set_counts n_channel n_sub t);
          nchipbits = unat (LOGB2_32 n_channel) + (if gap t1 \<noteq> 0 then 1 else 0) in
      andThen (case addrdec_option t1 of None \<Rightarrow> Inr t1 | Some opt \<Rightarrow> addrdec_parseoption opt t1) (\<lambda>t2.
      andThen (if ADDR_CHIP_S t2 \<noteq> - 1
               then if gap t2 = 0 then insert_chip_bits nchipbits t2 else Inr t2
               else check (n_channel AND (n_channel - 1) = 0) (Inr t2)) (\<lambda>t3.
      check (n_sub AND (n_sub - 1) = 0) (Inr (set_sub_mask (set_limits t3))))))"

definition addrdec_init :: "(nat \<Rightarrow> u32) \<Rightarrow> u32 \<Rightarrow> u32 \<Rightarrow> addr_translation \<Rightarrow> interleaving \<Rightarrow>
    (addr_translation \<times> interleaving) res" where
  "addrdec_init rnd n_channel n_sub t s =
     andThen (init_tables n_channel n_sub t) (\<lambda>t'.
     andThen (if run_test t' then sweep_test rnd t' s else Inr s) (\<lambda>s'.
       Inr (t', if memory_partition_indexing t' = RANDOM then s'\<lparr>rand_pos := 0\<rparr> else s')))"

section \<open>Packing and unpacking\<close>

definition positions :: "u64 \<Rightarrow> nat list" where
  "positions m = filter (bit m) [0..<64]"

lemma bit_bit_at: "bit (bit_at i) j \<longleftrightarrow> i = j \<and> j < 64"
  unfolding bit_at_def by (simp only: bit_push_bit_iff) (auto simp: bit_1_iff)

lemma and_bit_at: "m AND bit_at i \<noteq> 0 \<longleftrightarrow> bit m i"
proof
  assume "m AND bit_at i \<noteq> 0"
  then obtain j where "bit (m AND bit_at i) j" using bit_word_eqI [of "m AND bit_at i" 0] by auto
  then show "bit m i" by (simp add: bit_and_iff bit_bit_at)
next
  assume "bit m i"
  then have "bit (m AND bit_at i) i" by (auto simp: bit_and_iff bit_bit_at dest: bit_imp_le_length)
  then show "m AND bit_at i \<noteq> 0" by auto
qed

lemma selected_bit: "drop_bit i (v AND bit_at i) = of_bool (bit v i)"
  by (rule bit_word_eqI)
    (auto simp: bit_drop_bit_eq bit_and_iff bit_bit_at bit_1_iff simp del: drop_bit_and dest: bit_imp_le_length)

lemma bit_of_selected: "bit (push_bit pos (of_bool b :: u64)) p \<longleftrightarrow> p = pos \<and> p < 64 \<and> b"
  by (cases b) (auto simp only: bit_push_bit_iff of_bool_eq bit_1_iff bit_0_eq possible_bit_word
    len_num0 len_num1 len_bit0 len_bit1 simp_thms)

lemma bit_packbits_loop:
  "p < 64 \<Longrightarrow> bit (packbits_loop m v xs pos r) p \<longleftrightarrow>
     bit r p \<or> (pos \<le> p \<and> p < pos + length (filter (bit m) xs) \<and> bit v (filter (bit m) xs ! (p - pos)))"
proof (induction xs arbitrary: pos r)
  case (Cons i xs)
  show ?case
  proof (cases "bit m i")
    case True
    then have "bit (packbits_loop m v (i # xs) pos r) p \<longleftrightarrow> bit r p \<or> p = pos \<and> bit v i \<or>
        (pos + 1 \<le> p \<and> p < pos + 1 + length (filter (bit m) xs) \<and> bit v (filter (bit m) xs ! (p - (pos + 1))))"
      using Cons by (auto simp: and_bit_at bit_or_iff selected_bit bit_of_selected simp del: drop_bit_and)
    then show ?thesis using True by (cases "p = pos") (auto simp: nth_Cons')
  next
    case False
    with Cons show ?thesis by (simp add: and_bit_at)
  qed
qed auto

lemma bit_packbits:
  "bit (addrdec_packbits m v high low) p \<longleftrightarrow>
     p < 64 \<and> p < length (filter (bit m) [unat low..<unat high]) \<and> bit v (filter (bit m) [unat low..<unat high] ! p)"
proof (cases "p < 64")
  case True
  then show ?thesis
    using bit_packbits_loop [of p m v "[unat low..<unat high]" 0 0] by (simp add: addrdec_packbits_def)
next
  case False
  then show ?thesis using bit_imp_le_length [of "addrdec_packbits m v high low" p] by auto
qed

lemma upt_split: "i \<le> j \<Longrightarrow> j \<le> k \<Longrightarrow> [i..<k] = [i..<j] @ [j..<k]"
  using upt_add_eq_append [of i j "k - j"] by simp

text \<open>The limits of a mask enclose its bits, so packing between them is packing all bits.\<close>

lemma masklimit_loop_encloses:
  assumes "k \<le> 64" and "unat h \<le> 64"
    and "found \<longrightarrow> (\<forall>i<k. bit m i \<longrightarrow> unat l \<le> i \<and> i < unat h) \<and> unat l \<le> k"
    and "\<not> found \<longrightarrow> (\<forall>i<k. \<not> bit m i) \<and> h = 64 \<and> l = 0"
    and "masklimit_loop m [k..<64] found h l = (h', l')"
  shows "unat h' \<le> 64 \<and> (\<forall>i<64. bit m i \<longrightarrow> unat l' \<le> i \<and> i < unat h')"
  using assms
proof (induction "64 - k" arbitrary: k found h l)
  case 0
  then have "k = 64" by simp
  with 0 show ?case by (cases found) auto
next
  case (Suc d)
  then have k: "k < 64" by simp
  then have up: "[k..<64] = k # [Suc k..<64]" by (simp add: upt_conv_Cons)
  have uk: "unat (of_nat k :: u8) = k" "unat (of_nat (k + 1) :: u8) = k + 1"
    using k unat_of_nat_lt [of k, where 'a = 8] unat_of_nat_lt [of "k + 1", where 'a = 8]
    by (simp_all del: of_nat_add)
  have d: "d = 64 - Suc k" using Suc.hyps(2) by simp
  show ?case
  proof (cases "bit m k")
    case False
    show ?thesis
      by (rule Suc.hyps(1) [of "Suc k" h found l])
        (use Suc.prems False k up d in \<open>auto simp: less_Suc_eq and_bit_at\<close>)
  next
    case True
    show ?thesis
    proof (cases found)
      case True
      show ?thesis
        by (rule Suc.hyps(1) [of "Suc k" "of_nat (k + 1)" found l])
          (use Suc.prems True \<open>bit m k\<close> k up d uk in \<open>auto simp: less_Suc_eq and_bit_at simp del: of_nat_add\<close>)
    next
      case False
      show ?thesis
        by (rule Suc.hyps(1) [of "Suc k" "of_nat (k + 1)" True "of_nat k"])
          (use Suc.prems False \<open>bit m k\<close> k up d uk in \<open>auto simp: less_Suc_eq and_bit_at simp del: of_nat_add\<close>)
    qed
  qed
qed

lemma getmasklimit_encloses:
  assumes "addrdec_getmasklimit m = (h, l)"
  shows "unat h \<le> 64 \<and> (\<forall>i<64. bit m i \<longrightarrow> unat l \<le> i \<and> i < unat h)"
  by (rule masklimit_loop_encloses [where k = 0 and found = False and h = 64 and l = 0])
    (use assms in \<open>simp_all add: addrdec_getmasklimit_def\<close>)

lemma filter_between:
  assumes "hi \<le> 64" and "\<forall>i<64. P i \<longrightarrow> lo \<le> i \<and> i < hi"
  shows "filter P [lo..<hi] = filter P [0..<64]"
proof (cases "lo \<le> hi")
  case True
  have "[0..<64] = [0..<lo] @ [lo..<hi] @ [hi..<64]"
    using True assms(1) upt_split [of 0 lo 64] upt_split [of lo hi 64] by simp
  moreover have "filter P [0..<lo] = []"
    unfolding filter_empty_conv using assms True by (metis atLeastLessThan_iff le_trans not_le set_upt less_le_trans)
  moreover have "filter P [hi..<64] = []"
    unfolding filter_empty_conv using assms by (metis atLeastLessThan_iff not_le set_upt)
  ultimately show ?thesis by simp
next
  case False
  then have "filter P [0..<64] = []" using assms(2) by (auto simp: filter_empty_conv)
  with False show ?thesis by simp
qed

lemma packbits_limits:
  "bit (addrdec_packbits m v (fst (addrdec_getmasklimit m)) (snd (addrdec_getmasklimit m))) p \<longleftrightarrow>
     p < length (positions m) \<and> bit v (positions m ! p)"
proof -
  obtain h l where hl: "addrdec_getmasklimit m = (h, l)" by (cases "addrdec_getmasklimit m")
  have f: "filter (bit m) [unat l..<unat h] = positions m"
    unfolding positions_def using getmasklimit_encloses [OF hl] by (intro filter_between) auto
  have "length (positions m) \<le> length [0..<64]" unfolding positions_def by (rule length_filter_le)
  then have "p < length (positions m) \<Longrightarrow> p < 64" by (simp only: length_upt)
  then show ?thesis unfolding hl fst_conv snd_conv bit_packbits f by blast
qed

text \<open>The reference inverse: the bits of a field put back at the positions of the mask.\<close>

definition rank :: "u64 \<Rightarrow> nat \<Rightarrow> nat" where
  "rank m i = length (filter (bit m) [0..<i])"

definition deposit :: "u64 \<Rightarrow> u32 \<Rightarrow> u64" where
  "deposit m x = horner_sum of_bool 2 (map (\<lambda>i. bit m i \<and> bit x (rank m i)) [0..<64])"

lemma bit_deposit: "bit (deposit m x) i \<longleftrightarrow> i < 64 \<and> bit m i \<and> bit x (rank m i)"
  by (auto simp: deposit_def bit_horner_sum_bit_word_iff)

lemma positions_rank:
  assumes "i < 64" and "bit m i"
  shows "rank m i < length (positions m) \<and> positions m ! rank m i = i"
proof -
  have "[0..<64] = [0..<i] @ i # [Suc i..<64]"
    using assms(1) upt_split [of 0 i 64] upt_conv_Cons [of i 64] by simp
  then have "positions m = filter (bit m) [0..<i] @ i # filter (bit m) [Suc i..<64]"
    using assms(2) by (simp add: positions_def)
  then show ?thesis by (simp add: rank_def nth_append)
qed

section \<open>The masks after initialisation\<close>

definition fields_disjoint :: "(addr_field \<Rightarrow> u64) \<Rightarrow> bool" where
  "fields_disjoint m \<longleftrightarrow> (\<forall>f g i. f \<noteq> BURST \<longrightarrow> g \<noteq> BURST \<longrightarrow> bit (m f) i \<longrightarrow> bit (m g) i \<longrightarrow> f = g)"

text \<open>The characters of a mapping that stand for a bit, with the fields each gives its bit to.\<close>

definition bit_letters :: "string \<Rightarrow> addr_field list list" where
  "bit_letters cs = map char_fields (filter (\<lambda>c. char_fields c \<noteq> [] \<or> c = CHR ''0'') cs)"

lemma bit_add_bits:
  "bit (fold (add_bit n) gs m f) i \<longleftrightarrow> bit (m f) i \<or> f \<in> set gs \<and> i = n \<and> n < 64"
  by (induction gs arbitrary: m) (auto simp: add_bit_def bit_or_iff bit_bit_at)

lemma char_fields_zero: "char_fields (CHR ''0'') = []"
  by (simp add: char_fields_def)

lemma chip_char: "CHIP \<in> set (char_fields c) \<longleftrightarrow> c \<in> set ''Dd''"
  by (simp add: char_fields_def)

lemma char_fields_unique:
  "f \<in> set (char_fields c) \<Longrightarrow> g \<in> set (char_fields c) \<Longrightarrow> f \<noteq> BURST \<Longrightarrow> g \<noteq> BURST \<Longrightarrow> f = g"
  by (auto simp: char_fields_def split: if_splits)

lemma parse_mapping_bits:
  "parse_mapping parsed cs m ofs = Inr (m', ofs') \<Longrightarrow>
     ofs' = ofs - int (length (bit_letters cs)) \<and>
     (parsed \<longrightarrow> (\<forall>k<length (bit_letters cs). CHIP \<notin> set (bit_letters cs ! k))) \<and>
     (\<forall>f i. bit (m' f) i \<longleftrightarrow> bit (m f) i \<or>
        (\<exists>k<length (bit_letters cs). int i = ofs - int k \<and> f \<in> set (bit_letters cs ! k)))"
proof (induction cs arbitrary: m ofs)
  case Nil
  then show ?case by (simp add: bit_letters_def)
next
  case (Cons c cs)
  consider (field) "char_fields c \<noteq> []" | (zero) "char_fields c = []" "c = CHR ''0''"
    | (skip) "char_fields c = []" "c \<noteq> CHR ''0''" by blast
  then show ?case
  proof cases
    case field
    with Cons.prems have rest: "parse_mapping parsed cs (fold (add_bit (nat ofs)) (char_fields c) m) (ofs - 1) = Inr (m', ofs')"
      and ofs: "0 \<le> ofs" "ofs < 64" and d: "\<not> (c \<in> set ''Dd'' \<and> parsed)"
      by (simp_all only: parse_mapping.simps res_simps if_True simp_thms)
    have l: "bit_letters (c # cs) = char_fields c # bit_letters cs" using field by (simp add: bit_letters_def)
    have n: "nat ofs < 64" "\<And>i. int i = ofs \<longleftrightarrow> i = nat ofs" using ofs by auto
    show ?thesis
      using Cons.IH [OF rest] d n unfolding l length_Cons Ex_less_Suc2 All_less_Suc2 nth_Cons_0 nth_Cons_Suc chip_char
      by (auto simp: bit_add_bits algebra_simps)
  next
    case zero
    then have rest: "parse_mapping parsed cs m (ofs - 1) = Inr (m', ofs')" using Cons.prems by simp
    have l: "bit_letters (c # cs) = [] # bit_letters cs" using zero by (simp add: bit_letters_def)
    show ?thesis
      using Cons.IH [OF rest] unfolding l length_Cons Ex_less_Suc2 All_less_Suc2 nth_Cons_0 nth_Cons_Suc
      by (auto simp: algebra_simps)
  next
    case skip
    then have rest: "parse_mapping parsed cs m ofs = Inr (m', ofs')" using Cons.prems by simp
    have l: "bit_letters (c # cs) = bit_letters cs" using skip by (simp add: bit_letters_def)
    show ?thesis using Cons.IH [OF rest] unfolding l .
  qed
qed

lemma parse_mapping_disjoint:
  assumes "parse_mapping parsed cs (\<lambda>_. 0) 63 = Inr (m, ofs)"
  shows "fields_disjoint m"
proof -
  note b = parse_mapping_bits [OF assms]
  have one: "\<exists>c. bit_letters cs ! k = char_fields c" if "k < length (bit_letters cs)" for k
    using that by (auto simp: bit_letters_def)
  show ?thesis
    unfolding fields_disjoint_def
  proof (intro allI impI)
    fix f g i
    assume ne: "f \<noteq> BURST" "g \<noteq> BURST" and "bit (m f) i" "bit (m g) i"
    with b obtain k l where k: "k < length (bit_letters cs)" "int i = 63 - int k" "f \<in> set (bit_letters cs ! k)"
      and l: "int i = 63 - int l" "g \<in> set (bit_letters cs ! l)" by auto
    have "l = k" using k l by simp
    then show "f = g" using k l ne one [OF k(1)] char_fields_unique by metis
  qed
qed

subsection \<open>Inserting the channel bits\<close>

lemma bit_low_ones: "bit (push_bit s 1 - 1 :: u64) i \<longleftrightarrow> i < s \<and> i < 64"
proof -
  have "(push_bit s 1 - 1 :: u64) = mask s" by (simp add: mask_eq_exp_minus_1)
  then show ?thesis by (simp add: bit_mask_iff possible_bit_word conj_commute)
qed

lemma bit_spread:
  "s + k \<le> 64 \<Longrightarrow> bit (spread (push_bit s 1 - 1) k m) i \<longleftrightarrow>
     i < 64 \<and> (if i < s then bit m i else s + k \<le> i \<and> bit m (i - k))"
  unfolding spread_def bit_or_iff bit_push_bit_iff bit_and_iff bit_not_iff bit_low_ones possible_bit_word
  by (auto dest: bit_imp_le_length)

lemma bit_fold_bit_at: "bit (fold (\<lambda>i c. c OR bit_at i) xs c) j \<longleftrightarrow> bit c j \<or> j \<in> set xs \<and> j < 64"
  by (induction xs arbitrary: c) (auto simp: bit_or_iff bit_bit_at)

lemma insert_chip_bits_spec:
  assumes "insert_chip_bits k t = Inr t'"
  defines "s \<equiv> nat (ADDR_CHIP_S t)"
  shows "0 \<le> ADDR_CHIP_S t \<and> s + k \<le> 64 \<and> (\<exists>m'. t' = t\<lparr>addrdec_mask := m'\<rparr> \<and>
     m' BURST = addrdec_mask t BURST \<and>
     (\<forall>i. bit (m' CHIP) i \<longleftrightarrow> bit (addrdec_mask t CHIP) i \<or> s \<le> i \<and> i < s + k) \<and>
     (\<forall>f i. f \<in> {BK, ROW, COL} \<longrightarrow> (bit (m' f) i \<longleftrightarrow> i < 64 \<and>
        (if i < s then bit (addrdec_mask t f) i else s + k \<le> i \<and> bit (addrdec_mask t f) (i - k)))))"
proof -
  from assms(1) have r: "0 \<le> ADDR_CHIP_S t" "s + k \<le> 64"
    and t': "t' = t\<lparr>addrdec_mask := (addrdec_mask t)(BK := spread (push_bit s 1 - 1) k (addrdec_mask t BK),
      ROW := spread (push_bit s 1 - 1) k (addrdec_mask t ROW),
      COL := spread (push_bit s 1 - 1) k (addrdec_mask t COL),
      CHIP := fold (\<lambda>i c. c OR bit_at i) [s..<s + k] (addrdec_mask t CHIP))\<rparr>"
    by (simp_all add: insert_chip_bits_def shl64_def res_simps Let_def s_def del: push_bit_of_1)
  show ?thesis
    using r unfolding t'
    by (auto simp: bit_spread bit_fold_bit_at simp del: push_bit_of_1 intro!: exI)
qed

lemma insert_chip_bits_disjoint:
  assumes "insert_chip_bits k t = Inr t'" and "fields_disjoint (addrdec_mask t)" and "addrdec_mask t CHIP = 0"
  shows "fields_disjoint (addrdec_mask t')"
proof -
  define s where "s = nat (ADDR_CHIP_S t)"
  from insert_chip_bits_spec [OF assms(1), folded s_def] obtain m where t': "t' = t\<lparr>addrdec_mask := m\<rparr>"
    and chip: "\<And>i. bit (m CHIP) i \<longleftrightarrow> s \<le> i \<and> i < s + k"
    and rest: "\<And>f i. f \<in> {BK, ROW, COL} \<Longrightarrow> bit (m f) i \<longleftrightarrow> i < 64 \<and>
        (if i < s then bit (addrdec_mask t f) i else s + k \<le> i \<and> bit (addrdec_mask t f) (i - k))"
    using assms(3) by auto
  have apart: False if "f \<in> {BK, ROW, COL}" "bit (m f) i" "bit (m CHIP) i" for f i
    using rest [OF that(1), of i] chip [of i] that(2,3) by (simp split: if_splits)
  show ?thesis
    unfolding fields_disjoint_def t'
  proof (intro allI impI)
    fix f g i
    assume ne: "f \<noteq> BURST" "g \<noteq> BURST"
      and b: "bit (addrdec_mask (t\<lparr>addrdec_mask := m\<rparr>) f) i" "bit (addrdec_mask (t\<lparr>addrdec_mask := m\<rparr>) g) i"
    show "f = g"
    proof (cases "f = CHIP \<or> g = CHIP")
      case True
      with ne b apart show ?thesis by (cases f; cases g) auto
    next
      case False
      then have fg: "f \<in> {BK, ROW, COL}" "g \<in> {BK, ROW, COL}" using ne by (cases f; cases g; simp)+
      have "\<exists>j. bit (addrdec_mask t f) j \<and> bit (addrdec_mask t g) j"
        using b rest [OF fg(1), of i] rest [OF fg(2), of i] by (auto split: if_splits)
      with assms(2) ne show ?thesis unfolding fields_disjoint_def by blast
    qed
  qed
qed

text \<open>A mapping string, or one of the built-in mask sets.\<close>

definition mapping_given :: "addr_translation \<Rightarrow> bool" where
  "mapping_given t \<longleftrightarrow> addrdec_option t \<noteq> None \<or>
     gpgpu_mem_address_mask t \<in> {0, 1, 2, 3, 14, 15, 16, 6, 5, 100, 103, 106, 160}"

lemma fields_disjoint_masks:
  assumes "m CHIP = 0" and "m BK AND m ROW = 0" and "m BK AND m COL = 0" and "m ROW AND m COL = 0"
  shows "fields_disjoint m"
proof -
  have z: "\<not> (bit a i \<and> bit b i)" if "a AND b = 0" for a b :: u64 and i
    using that by (metis bit_0_eq bit_and_iff bot_apply bot_bool_def)
  show ?thesis
    unfolding fields_disjoint_def
  proof (intro allI impI)
    fix f g i
    assume "f \<noteq> BURST" "g \<noteq> BURST" "bit (m f) i" "bit (m g) i"
    with assms(1) z [OF assms(2), of i] z [OF assms(3), of i] z [OF assms(4), of i] show "f = g"
      by (cases f; cases g) auto
  qed
qed

lemma builtin_disjoint:
  "b AND r = 0 \<Longrightarrow> b AND c = 0 \<Longrightarrow> r AND c = 0 \<Longrightarrow>
     fields_disjoint (addrdec_mask (builtin s b r c t)) \<and> addrdec_mask (builtin s b r c t) CHIP = 0"
  unfolding builtin_def by (intro conjI fields_disjoint_masks) simp_all

lemma builtin_masks_disjoint:
  assumes "gpgpu_mem_address_mask t \<in> {0, 1, 2, 3, 14, 15, 16, 6, 5, 100, 103, 106, 160}"
  shows "fields_disjoint (addrdec_mask (builtin_masks t)) \<and> addrdec_mask (builtin_masks t) CHIP = 0"
proof -
  let ?ok = "\<lambda>t. fields_disjoint (addrdec_mask t) \<and> addrdec_mask t CHIP = 0"
  have "?ok (builtin s 0x300 0x7FFE000 0x1CFF t)" "?ok (builtin s 0x1800 0x7FFE000 0x7FF t)"
    "?ok (builtin s 0x1800 0xFFFE000 0x7FF t)" "?ok (builtin s 0x3 0x7FFE000 0x1FFC t)" for s
    by (intro builtin_disjoint; simp)+
  then show ?thesis using assms unfolding builtin_masks_def Let_def by (auto simp del: addr_translation.simps)
qed

lemma builtin_masks_keeps [simp]:
  "addrdec_option (builtin_masks t) = addrdec_option t"
  "memory_partition_indexing (builtin_masks t) = memory_partition_indexing t"
  "gap (builtin_masks t) = gap t" "m_n_channel (builtin_masks t) = m_n_channel t"
  "m_n_sub_partition_in_channel (builtin_masks t) = m_n_sub_partition_in_channel t"
  "log2channel (builtin_masks t) = log2channel t" "log2sub_partition (builtin_masks t) = log2sub_partition t"
  "nextPowerOf2_m_n_channel (builtin_masks t) = nextPowerOf2_m_n_channel t"
  "run_test (builtin_masks t) = run_test t"
  by (simp_all add: builtin_masks_def builtin_def Let_def)

lemma parseoption_spec:
  assumes "addrdec_parseoption opt t = Inr t'"
  shows "\<exists>s m. t' = t\<lparr>ADDR_CHIP_S := s, addrdec_mask := m\<rparr> \<and> fields_disjoint m \<and> (s \<noteq> - 1 \<longrightarrow> m CHIP = 0)"
proof -
  from assms obtain d m where d: "scan_dramid opt = Inr d"
    and p: "parse_mapping (d \<noteq> None) (after_semicolon opt) (\<lambda>_. 0) 63 = Inr (m, - 1)"
    and t': "t' = t\<lparr>ADDR_CHIP_S := (case d of None \<Rightarrow> - 1 | Some v \<Rightarrow> v), addrdec_mask := m\<rparr>"
    by (auto simp: addrdec_parseoption_def res_simps split: prod.splits)
  have "m CHIP = 0" if "d \<noteq> None"
  proof (rule bit_word_eqI)
    fix i
    assume "i < LENGTH(64)"
    from parse_mapping_bits [OF p] that show "bit (m CHIP) i \<longleftrightarrow> bit (0 :: u64) i" by auto
  qed
  then have "(case d of None \<Rightarrow> - 1 | Some v \<Rightarrow> v) \<noteq> (- 1 :: int) \<longrightarrow> m CHIP = 0" by (cases d) auto
  with t' parse_mapping_disjoint [OF p] show ?thesis by blast
qed

definition decoder_ok :: "addr_translation \<Rightarrow> bool" where
  "decoder_ok t \<longleftrightarrow> fields_disjoint (addrdec_mask t) \<and>
     (\<forall>f. addrdec_mkhigh t f = fst (addrdec_getmasklimit (addrdec_mask t f)) \<and>
          addrdec_mklow t f = snd (addrdec_getmasklimit (addrdec_mask t f))) \<and>
     (gap t = 0 \<longrightarrow> ADDR_CHIP_S t \<noteq> - 1 \<longrightarrow> 0 \<le> ADDR_CHIP_S t \<and>
        (\<forall>i. bit (addrdec_mask t CHIP) i \<longleftrightarrow> nat (ADDR_CHIP_S t) \<le> i \<and>
              i < nat (ADDR_CHIP_S t) + unat (log2channel t)))"

lemma init_tables_spec:
  assumes "init_tables n nsub t0 = Inr t" and "mapping_given t0"
  shows "decoder_ok t \<and> m_n_channel t = n \<and> m_n_sub_partition_in_channel t = nsub \<and>
     log2channel t = LOGB2_32 n \<and> log2sub_partition t = LOGB2_32 nsub \<and>
     nextPowerOf2_m_n_channel t = next_powerOf2 n \<and>
     gap t = of_int (uint n - powli 2 (unat (LOGB2_32 n))) \<and>
     memory_partition_indexing t = memory_partition_indexing t0 \<and> run_test t = run_test t0 \<and>
     (nsub = 1 \<longrightarrow> sub_partition_id_mask t = 0)"
proof -
  define t1 where "t1 = builtin_masks (set_counts n nsub t0)"
  define k where "k = unat (LOGB2_32 n) + (if gap t1 \<noteq> 0 then 1 else 0)"
  note keep = set_counts_def t1_def
  from assms(1) obtain t2 t3 where
      t2: "(case addrdec_option t1 of None \<Rightarrow> Inr t1 | Some opt \<Rightarrow> addrdec_parseoption opt t1) = Inr t2"
    and t3: "(if ADDR_CHIP_S t2 \<noteq> - 1 then if gap t2 = 0 then insert_chip_bits k t2 else Inr t2
               else check (n AND (n - 1) = 0) (Inr t2)) = Inr t3"
    and t: "t = set_sub_mask (set_limits t3)"
    unfolding init_tables_def Let_def t1_def [symmetric] k_def [symmetric] by (auto simp: res_simps)
  have t2': "\<exists>s m. t2 = t1\<lparr>ADDR_CHIP_S := s, addrdec_mask := m\<rparr> \<and> fields_disjoint m \<and> (s \<noteq> - 1 \<longrightarrow> m CHIP = 0)"
  proof (cases "addrdec_option t1")
    case None
    then have "gpgpu_mem_address_mask (set_counts n nsub t0) \<in> {0, 1, 2, 3, 14, 15, 16, 6, 5, 100, 103, 106, 160}"
      using assms(2) by (simp add: keep mapping_given_def)
    from builtin_masks_disjoint [OF this] None t2 show ?thesis
      by (intro exI [of _ "ADDR_CHIP_S t1"] exI [of _ "addrdec_mask t1"]) (simp add: t1_def)
  next
    case (Some opt)
    with t2 parseoption_spec show ?thesis by simp
  qed
  then obtain s m where t2e: "t2 = t1\<lparr>ADDR_CHIP_S := s, addrdec_mask := m\<rparr>"
    and dj: "fields_disjoint m" and ch: "s \<noteq> - 1 \<longrightarrow> m CHIP = 0" by blast
  have t3': "\<exists>m'. t3 = t2\<lparr>addrdec_mask := m'\<rparr> \<and> fields_disjoint m' \<and>
      (gap t1 = 0 \<longrightarrow> s \<noteq> - 1 \<longrightarrow> 0 \<le> s \<and> (\<forall>i. bit (m' CHIP) i \<longleftrightarrow> nat s \<le> i \<and> i < nat s + k))"
  proof (cases "s \<noteq> - 1 \<and> gap t1 = 0")
    case True
    then have i: "insert_chip_bits k t2 = Inr t3" using t3 by (simp add: t2e)
    have "addrdec_mask t2 CHIP = 0" "fields_disjoint (addrdec_mask t2)" using True ch dj by (simp_all add: t2e)
    with insert_chip_bits_disjoint [OF i] insert_chip_bits_spec [OF i] show ?thesis
      by (auto simp: t2e)
  next
    case False
    then have "t3 = t2" using t3 by (auto simp: t2e res_simps split: if_splits)
    then show ?thesis using False dj by (intro exI [of _ m]) (auto simp: t2e)
  qed
  then obtain m' where t3e: "t3 = t2\<lparr>addrdec_mask := m'\<rparr>" and dj': "fields_disjoint m'"
    and ch': "gap t1 = 0 \<longrightarrow> s \<noteq> - 1 \<longrightarrow> 0 \<le> s \<and> (\<forall>i. bit (m' CHIP) i \<longleftrightarrow> nat s \<le> i \<and> i < nat s + k)" by blast
  have "decoder_ok t"
    using dj' ch' unfolding decoder_ok_def t t3e t2e
    by (simp add: set_sub_mask_def set_limits_def k_def keep)
  then show ?thesis
    unfolding t t3e t2e by (simp add: set_sub_mask_def set_limits_def keep)
qed

section \<open>Integer helpers\<close>

lemma LOGB2_32_eq: "LOGB2_32 v = LOGB2 v"
  unfolding LOGB2_32_def LOGB2_def ..

lemma two_power_less: "(2::nat) ^ a < 2 ^ b \<Longrightarrow> a < b"
  by (rule power_less_imp_less_exp [of 2]) simp_all

lemma LOGB2_32_less: "unat (LOGB2_32 v) < 32"
proof (cases "v = 0")
  case True
  then show ?thesis by (simp add: LOGB2_32_def Let_def)
next
  case False
  have "(2::nat) ^ unat (LOGB2 v) < 2 ^ LENGTH(32)"
    using LOGB2_bounds [OF False] unat_lt [of v] by linarith
  then have "unat (LOGB2 v) < LENGTH(32)" by (rule two_power_less)
  then show ?thesis by (simp add: LOGB2_32_eq)
qed

lemma powli_two: "powli 2 y = 2 ^ y"
proof -
  have "powli_loop x n r = r * x ^ n" for x r n by (induction n arbitrary: r) simp_all
  then show ?thesis by (simp add: powli_def)
qed

text \<open>There is a gap exactly when the number of channels is not a power of two.\<close>

lemma gap_zero:
  assumes "n \<noteq> 0"
  shows "of_int (uint n - powli 2 (unat (LOGB2_32 n))) = (0 :: u32) \<longleftrightarrow> unat n = 2 ^ unat (LOGB2_32 n)"
proof -
  let ?k = "unat (LOGB2_32 n)"
  have le: "2 ^ ?k \<le> unat n" using LOGB2_bounds [OF assms] by (simp add: LOGB2_32_eq)
  have "uint n - powli 2 ?k = int (unat n - 2 ^ ?k)" using le by (simp add: powli_two of_nat_diff)
  then have "of_int (uint n - powli 2 ?k) = (of_nat (unat n - 2 ^ ?k) :: u32)" by simp
  moreover have "unat n - 2 ^ ?k < 2 ^ LENGTH(32)" using unat_lt [of n] by linarith
  then have "unat (of_nat (unat n - 2 ^ ?k) :: u32) = unat n - 2 ^ ?k" by (rule unat_of_nat_lt)
  then have "(of_nat (unat n - 2 ^ ?k) :: u32) = 0 \<longleftrightarrow> unat n - 2 ^ ?k = 0" by (metis unat_eq_zero)
  ultimately show ?thesis using le by presburger
qed

lemma bit_imp_le_unat:
  fixes w :: "'a::len word"
  assumes "bit w i"
  shows "2 ^ i \<le> unat w"
proof -
  have "bit (unat w) i" using assms by (simp add: bit_unsigned_iff)
  then have "unat w div 2 ^ i \<noteq> 0" unfolding bit_iff_odd by (metis even_zero)
  then show ?thesis by (metis div_less not_le)
qed

lemma bit_below:
  fixes w :: "'a::len word"
  assumes "bit w i" and "unat w < 2 ^ k"
  shows "i < k"
proof -
  have "(2::nat) ^ i < 2 ^ k" using bit_imp_le_unat [OF assms(1)] assms(2) by (rule order.strict_trans1)
  then show ?thesis by (rule two_power_less)
qed

section \<open>Decoding determines the address\<close>

text \<open>The reference encoder: the fields are put back at their positions; with a gap the quotient is
  multiplied by the number of channels again, and a permuted channel is permuted back.\<close>

definition encode_rest :: "addr_translation \<Rightarrow> addrdec_t \<Rightarrow> u64" where
  "encode_rest t x = deposit (addrdec_mask t BK) (ad_bk x) OR deposit (addrdec_mask t ROW) (ad_row x) OR
     deposit (addrdec_mask t COL) (ad_col x)"

definition high_shift :: "addr_translation \<Rightarrow> nat" where
  "high_shift t = unat (of_int (ADDR_CHIP_S t) + (log2channel t + log2sub_partition t))"

definition encode_addr :: "addr_translation \<Rightarrow> addrdec_t \<Rightarrow> u64" where
  "encode_addr t x =
     (let rest = encode_rest t x; s = nat (ADDR_CHIP_S t) in
      if gap t = 0 then
        rest OR deposit (addrdec_mask t CHIP)
          (if memory_partition_indexing t = BITWISE_PERMUTATION
           then bitwise_hash_function (drop_bit (high_shift t) rest) (ad_chip x) (m_n_channel t)
           else ad_chip x)
      else push_bit s (drop_bit s rest * ucast (m_n_channel t) + ucast (ad_chip x)) OR (rest AND mask s))"

text \<open>Every bit below \<open>k\<close> belongs to a field, and no field exceeds the 32 bits of its member.\<close>

definition mapped_below :: "addr_translation \<Rightarrow> nat \<Rightarrow> bool" where
  "mapped_below t k \<longleftrightarrow> (\<forall>i\<in>set [0..<k]. bit (addrdec_mask t BK) i \<or> bit (addrdec_mask t ROW) i \<or>
     bit (addrdec_mask t COL) i \<or> gap t = 0 \<and> bit (addrdec_mask t CHIP) i)"

definition narrow :: "addr_translation \<Rightarrow> bool" where
  "narrow t \<longleftrightarrow> (\<forall>f\<in>set [CHIP, BK, ROW, COL]. length (positions (addrdec_mask t f)) \<le> 32)"

lemma deposit_pack:
  assumes "decoder_ok t" and "narrow t" and "f \<noteq> BURST"
  shows "deposit (addrdec_mask t f) (pack_field t f a) = a AND addrdec_mask t f"
proof (rule bit_word_eqI)
  fix i
  assume i: "i < LENGTH(64)"
  let ?m = "addrdec_mask t f"
  have pk: "bit (pack_field t f a) p \<longleftrightarrow> p < 32 \<and> p < length (positions ?m) \<and> bit a (positions ?m ! p)" for p
    using assms(1) packbits_limits [of ?m a p]
    by (auto simp: pack_field_def decoder_ok_def bit_ucast_iff)
  have n: "length (positions ?m) \<le> 32" using assms(2,3) unfolding narrow_def by (cases f) auto
  show "bit (deposit ?m (pack_field t f a)) i \<longleftrightarrow> bit (a AND ?m) i"
  proof (cases "bit ?m i")
    case True
    with positions_rank [of i ?m] i n show ?thesis by (simp add: bit_deposit pk bit_and_iff)
  next
    case False
    then show ?thesis by (simp add: bit_deposit bit_and_iff)
  qed
qed

lemma encode_rest_pack:
  assumes "decoder_ok t" and "narrow t"
    and "ad_bk x = pack_field t BK a" "ad_row x = pack_field t ROW a" "ad_col x = pack_field t COL a"
  shows "encode_rest t x = a AND (addrdec_mask t BK OR addrdec_mask t ROW OR addrdec_mask t COL)"
  using deposit_pack [OF assms(1,2)] assms(3-5)
  by (simp add: encode_rest_def bit.conj_disj_distrib)

lemma high_shift_chip:
  assumes "decoder_ok t" and "gap t = 0" and "0 \<le> ADDR_CHIP_S t" and "bit (addrdec_mask t CHIP) i"
    and "unat (log2channel t) < 32" and "unat (log2sub_partition t) < 32"
  shows "i < high_shift t"
proof -
  let ?s = "nat (ADDR_CHIP_S t)"
  have i: "?s \<le> i" "i < ?s + unat (log2channel t)" "i < 64"
    using assms bit_imp_le_length [OF assms(4)] by (auto simp: decoder_ok_def)
  then have u: "unat (of_int (ADDR_CHIP_S t) :: u32) = ?s"
    using assms(3) unat_of_nat_lt [of ?s, where 'a = 32] by simp
  have "unat (log2channel t + log2sub_partition t) = unat (log2channel t) + unat (log2sub_partition t)"
    using assms(5,6) by (intro unat_add_le) simp
  then have "high_shift t = ?s + (unat (log2channel t) + unat (log2sub_partition t))"
    unfolding high_shift_def using u i assms(5,6) by (subst unat_add_le) simp_all
  with i show ?thesis by simp
qed

lemma stitch_value:
  assumes "stitch t addr = Inr rest"
  defines "s \<equiv> nat (ADDR_CHIP_S t)"
  shows "0 \<le> ADDR_CHIP_S t \<and> s < 31 \<and> m_n_channel t \<noteq> 0 \<and>
     rest = push_bit s (drop_bit s addr div ucast (m_n_channel t)) OR (addr AND mask s)"
  using assms
  by (simp add: stitch_def shr64_def shl64_def low_mask_def res_simps mask_eq_exp_minus_1 nat_less_iff)

lemma quotient_bound: "unat (a div b) \<le> unat (a :: u64)"
  by (simp add: unat_div)

text \<open>Splitting off the channel with a remainder and stitching loses nothing.\<close>

lemma unstitch:
  fixes addr :: u64 and n :: u32
  assumes "s < 64" and "n \<noteq> 0"
  defines "q \<equiv> drop_bit s addr div ucast n"
  defines "rest \<equiv> push_bit s q OR (addr AND mask s)"
  shows "push_bit s (drop_bit s rest * ucast n + ucast (ucast (drop_bit s addr mod ucast n) :: u32)) OR (rest AND mask s) = addr"
proof -
  let ?h = "drop_bit s addr"
  have qb: "i < 64 - s" if "bit q i" for i
  proof (rule bit_below [OF that])
    have "unat q \<le> unat addr div 2 ^ s" using quotient_bound [of ?h "ucast n"] by (simp add: q_def unat_drop_bit)
    also have "\<dots> < 2 ^ (64 - s)"
    proof -
      have "unat addr < 2 ^ (64 - s) * 2 ^ s" using unat_lt [of addr] assms(1) by (simp add: power_add [symmetric])
      then show ?thesis by (rule less_mult_imp_div_less)
    qed
    finally show "unat q < 2 ^ (64 - s)" .
  qed
  have dq: "drop_bit s rest = q"
  proof (rule bit_word_eqI)
    fix i
    show "bit (drop_bit s rest) i \<longleftrightarrow> bit q i"
      using qb [of i] unfolding rest_def
      by (auto simp: bit_drop_bit_eq bit_or_iff bit_push_bit_iff bit_and_iff bit_mask_iff possible_bit_word)
  qed
  have low: "rest AND mask s = addr AND mask s"
    by (rule bit_word_eqI)
      (auto simp: rest_def bit_or_iff bit_push_bit_iff bit_and_iff bit_mask_iff)
  have m: "ucast (ucast (?h mod ucast n) :: u32) = ?h mod ucast n"
  proof -
    have "unat (ucast n :: u64) = unat n" by (rule unat_widen)
    then have "unat (?h mod ucast n) < 2 ^ LENGTH(32)"
      using unat_lt [of n] assms(2) by (simp add: unat_mod) (metis mod_less_divisor order.strict_trans unat_gt_0)
    then have "unat (ucast (?h mod ucast n) :: u32) = unat (?h mod ucast n)"
      unfolding unsigned_ucast_eq by (rule take_bit_nat_eq_self)
    then have "unat (ucast (ucast (?h mod ucast n) :: u32) :: u64) = unat (?h mod ucast n)"
      by (simp only: unat_widen)
    then show ?thesis by (rule unsigned_word_eqI)
  qed
  have "drop_bit s rest * ucast n + ?h mod ucast n = ?h"
    unfolding dq q_def by (rule div_mult_mod_eq)
  then have "push_bit s (drop_bit s rest * ucast n + ucast (ucast (?h mod ucast n) :: u32)) OR (rest AND mask s)
      = push_bit s ?h OR (addr AND mask s)" by (simp only: m low)
  also have "\<dots> = addr"
    by (rule bit_word_eqI)
      (auto simp: bit_or_iff bit_push_bit_iff bit_and_iff bit_mask_iff bit_drop_bit_eq possible_bit_word)
  finally show ?thesis .
qed

lemma covered_and:
  assumes "\<And>i. bit a i \<Longrightarrow> bit m i"
  shows "(a :: u64) AND m = a"
  by (rule bit_word_eqI) (use assms in \<open>auto simp: bit_and_iff\<close>)

lemma stitch_below:
  assumes "unat (addr :: u64) < 2 ^ k" and "bit (push_bit s (drop_bit s addr div n) OR (addr AND mask s)) i"
  shows "i < k"
proof (cases "bit (addr AND mask s) i")
  case True
  then show ?thesis using bit_below [OF _ assms(1)] by (simp add: bit_and_iff)
next
  case False
  let ?q = "drop_bit s addr div n"
  from False assms(2) have i: "s \<le> i" "bit ?q (i - s)" by (auto simp: bit_or_iff bit_push_bit_iff)
  have "2 ^ (i - s) \<le> unat ?q" by (rule bit_imp_le_unat [OF i(2)])
  also have "\<dots> \<le> unat addr div 2 ^ s" using quotient_bound [of "drop_bit s addr" n] by (simp add: unat_drop_bit)
  finally have "2 ^ (i - s) * 2 ^ s \<le> unat addr" by (simp add: less_eq_div_iff_mult_less_eq)
  then have "(2::nat) ^ i \<le> unat addr" using i(1) by (simp add: power_add [symmetric])
  then have "(2::nat) ^ i < 2 ^ k" using assms(1) by (rule order.strict_trans1)
  then show ?thesis by (rule two_power_less)
qed

lemma tlx_fields_no_gap:
  assumes "tlx_fields t addr = Inr (x, high)" and "gap t = 0"
  shows "ad_chip x = pack_field t CHIP addr \<and> ad_bk x = pack_field t BK addr \<and>
     ad_row x = pack_field t ROW addr \<and> ad_col x = pack_field t COL addr \<and> high = drop_bit (high_shift t) addr"
  using assms by (auto simp: tlx_fields_def shr64u_def res_simps high_shift_def)

lemma tlx_fields_gap:
  assumes "tlx_fields t addr = Inr (x, high)" and "gap t \<noteq> 0"
  shows "\<exists>rest. stitch t addr = Inr rest \<and> ad_bk x = pack_field t BK rest \<and>
     ad_row x = pack_field t ROW rest \<and> ad_col x = pack_field t COL rest \<and>
     ad_chip x = ucast (drop_bit (nat (ADDR_CHIP_S t)) addr mod ucast (m_n_channel t))"
  using assms by (auto simp: tlx_fields_def shr64_def res_simps)

lemma encode_addr_sub_partition [simp]: "encode_addr t (x\<lparr>ad_sub_partition := p\<rparr>) = encode_addr t x"
  by (simp add: encode_addr_def encode_rest_def Let_def)

lemma encode_no_gap:
  assumes ok: "decoder_ok t" "narrow t" and gap: "gap t = 0" and below: "mapped_below t k" "unat addr < 2 ^ k"
    and log: "unat (log2channel t) < 32" "unat (log2sub_partition t) < 32"
    and f: "tlx_fields t addr = Inr (x, high)"
    and perm: "memory_partition_indexing t = BITWISE_PERMUTATION \<longrightarrow> ADDR_CHIP_S t \<noteq> - 1"
  shows "encode_addr t (if memory_partition_indexing t = BITWISE_PERMUTATION
           then x\<lparr>ad_chip := bitwise_hash_function high (ad_chip x) (m_n_channel t)\<rparr> else x) = addr"
proof -
  let ?m = "addrdec_mask t"
  note x = tlx_fields_no_gap [OF f gap]
  have cov: "bit (?m BK) i \<or> bit (?m ROW) i \<or> bit (?m COL) i \<or> bit (?m CHIP) i" if "bit addr i" for i
    using bit_below [OF that below(2)] below(1) by (auto simp: mapped_below_def)
  have rest: "encode_rest t x = addr AND (?m BK OR ?m ROW OR ?m COL)"
    using x by (intro encode_rest_pack [OF ok]) simp_all
  have whole: "encode_rest t x OR deposit (?m CHIP) (pack_field t CHIP addr) = addr"
    unfolding rest deposit_pack [OF ok addr_field.distinct(7)]
    by (rule bit_word_eqI) (use cov in \<open>auto simp: bit_or_iff bit_and_iff\<close>)
  show ?thesis
  proof (cases "memory_partition_indexing t = BITWISE_PERMUTATION")
    case False
    with whole x gap show ?thesis by (simp add: encode_addr_def Let_def)
  next
    case True
    have s: "0 \<le> ADDR_CHIP_S t" using ok(1) gap perm True by (auto simp: decoder_ok_def)
    have "drop_bit (high_shift t) (encode_rest t x) = drop_bit (high_shift t) addr"
    proof (rule bit_word_eqI)
      fix i
      have "\<not> bit (?m CHIP) (high_shift t + i)" using high_shift_chip [OF ok(1) gap s _ log] by force
      then show "bit (drop_bit (high_shift t) (encode_rest t x)) i \<longleftrightarrow> bit (drop_bit (high_shift t) addr) i"
        using cov [of "high_shift t + i"] unfolding rest
        by (auto simp: bit_drop_bit_eq bit_and_iff bit_or_iff add.commute)
    qed
    moreover have "encode_rest t (x\<lparr>ad_chip := c\<rparr>) = encode_rest t x" for c by (simp add: encode_rest_def)
    ultimately show ?thesis
      using True gap whole x by (simp add: encode_addr_def Let_def bitwise_hash_involution)
  qed
qed

lemma encode_gap:
  assumes ok: "decoder_ok t" "narrow t" and gap: "gap t \<noteq> 0" and below: "mapped_below t k" "unat addr < 2 ^ k"
    and f: "tlx_fields t addr = Inr (x, high)"
  shows "encode_addr t x = addr"
proof -
  let ?m = "addrdec_mask t" and ?s = "nat (ADDR_CHIP_S t)"
  from tlx_fields_gap [OF f gap] obtain r where r: "stitch t addr = Inr r" and
    x: "ad_bk x = pack_field t BK r" "ad_row x = pack_field t ROW r" "ad_col x = pack_field t COL r"
      "ad_chip x = ucast (drop_bit ?s addr mod ucast (m_n_channel t))" by blast
  note sv = stitch_value [OF r]
  have "bit (?m BK) i \<or> bit (?m ROW) i \<or> bit (?m COL) i" if "bit r i" for i
  proof -
    have "i < k" using sv that by (intro stitch_below [OF below(2)]) auto
    with below(1) gap show ?thesis by (simp add: mapped_below_def)
  qed
  then have "r AND (?m BK OR ?m ROW OR ?m COL) = r" by (intro covered_and) (simp add: bit_or_iff)
  then have "encode_rest t x = r" using encode_rest_pack [OF ok x(1-3)] by simp
  then show ?thesis
    using gap sv unstitch [of ?s "m_n_channel t" addr] x(4) by (simp add: encode_addr_def Let_def)
qed

lemma decode_determines_address_aux:
  assumes init: "init_tables n nsub t0 = Inr t" "mapping_given t0"
    and masks: "narrow t" "mapped_below t k" "unat addr < 2 ^ k"
    and idx: "memory_partition_indexing t \<in> {CONSECUTIVE, BITWISE_PERMUTATION, CUSTOM}"
    and perm: "memory_partition_indexing t = BITWISE_PERMUTATION \<longrightarrow> ADDR_CHIP_S t \<noteq> - 1"
    and run: "addrdec_tlx rnd t addr s = Inr (x, s')"
  shows "encode_addr t x = addr"
proof -
  note sp = init_tables_spec [OF init]
  then have ok: "decoder_ok t" and log: "unat (log2channel t) < 32" "unat (log2sub_partition t) < 32"
    by (simp_all add: LOGB2_32_less)
  from run obtain y high where f: "tlx_fields t addr = Inr (y, high)"
    by (auto simp: addrdec_tlx_def res_simps)
  let ?p = "memory_partition_indexing t = BITWISE_PERMUTATION"
  have e: "encode_addr t x = encode_addr t
      (if ?p then y\<lparr>ad_chip := bitwise_hash_function high (ad_chip y) (m_n_channel t)\<rparr> else y)"
    using run idx f by (auto simp: addrdec_tlx_def res_simps Let_def)
  show ?thesis
  proof (cases "gap t = 0")
    case True
    show ?thesis unfolding e by (rule encode_no_gap [OF ok masks(1) True masks(2,3) log f perm])
  next
    case False
    have "\<not> ?p" using run f False by (auto simp: addrdec_tlx_def res_simps)
    with e encode_gap [OF ok masks(1) False masks(2,3) f] show ?thesis by simp
  qed
qed

lemma next_powerOf2_one: "next_powerOf2 1 = 0"
  by (simp add: next_powerOf2_def unset_rightmost.simps [of 0])

text \<open>C9: Under consecutive, permuted (\<open>BITWISE_PERMUTATION\<close>) and custom indexing the decoder loses no
  information.  For every mapping string (or built-in mask set), number of channels and sub partitions
  that \<open>init\<close> accepts, if no field has more than 32 bits, and for an address all of whose bits are mapped:
  whenever \<open>addrdec_tlx\<close> decodes it, the reference encoder gives back the address from the channel, bank, row
  and column, with a power-of-two and with any other number of channels.  For the permutation the channel
  bits must have a lowest position (\<open>ADDR_CHIP_S\<close>, which \<open>D\<close> characters do not set).  Two such addresses are
  never decoded to the same location.  Under \<open>IPOLY\<close> this fails (\<open>titanv_aliases\<close> below), and \<open>RANDOM\<close> draws
  the channel.\<close>

theorem decode_determines_address:
  assumes init: "init_tables n nsub t0 = Inr t" "mapping_given t0"
    and masks: "narrow t" "mapped_below t k" "unat addr < 2 ^ k"
    and idx: "memory_partition_indexing t \<in> {CONSECUTIVE, BITWISE_PERMUTATION, CUSTOM}"
    and perm: "memory_partition_indexing t = BITWISE_PERMUTATION \<longrightarrow> ADDR_CHIP_S t \<noteq> - 1"
    and run: "addrdec_tlx rnd t addr s = Inr (x, s')"
  shows "encode_addr t x = addr"
  using assms by (rule decode_determines_address_aux)

section \<open>Range of the identifiers\<close>

text \<open>The shifts of \<open>addrdec_tlx\<close> are by less than the width.\<close>

definition shift_ok :: "addr_translation \<Rightarrow> bool" where
  "shift_ok t \<longleftrightarrow> 0 \<le> ADDR_CHIP_S t \<and>
     (if gap t = 0 then nat (ADDR_CHIP_S t) + unat (log2channel t) + unat (log2sub_partition t) < 64
      else ADDR_CHIP_S t < 31)"

lemma bits_below_unat:
  fixes w :: "'a::len word"
  assumes "\<And>p. bit w p \<Longrightarrow> p < k"
  shows "unat w < 2 ^ k"
proof -
  have "take_bit k w = w" by (rule bit_word_eqI) (use assms in \<open>auto simp: bit_take_bit_iff\<close>)
  then have "unat w = take_bit k (unat w)" by (metis unsigned_take_bit_eq)
  then show ?thesis by (metis take_bit_nat_less_exp)
qed

lemma positions_chip:
  assumes "\<And>i. bit m i \<longleftrightarrow> a \<le> i \<and> i < a + k"
  shows "length (positions m) \<le> k"
proof -
  have "bit m i" if "i \<in> set (positions m)" for i
    using that unfolding positions_def set_filter by blast
  then have "set (positions m) \<subseteq> {a..<a + k}" using assms by auto
  then have "card (set (positions m)) \<le> k" using card_mono [of "{a..<a + k}"] by simp
  moreover have "distinct (positions m)" unfolding positions_def by (intro distinct_filter distinct_upt)
  ultimately show ?thesis by (simp add: distinct_card)
qed

lemma chip_in_range:
  assumes "decoder_ok t" and "gap t = 0" and "0 \<le> ADDR_CHIP_S t"
  shows "unat (pack_field t CHIP a) < 2 ^ unat (log2channel t)"
proof (rule bits_below_unat)
  fix p
  assume "bit (pack_field t CHIP a) p"
  then have "p < length (positions (addrdec_mask t CHIP))"
    using assms(1) packbits_limits [of "addrdec_mask t CHIP" a p]
    by (simp add: pack_field_def decoder_ok_def bit_ucast_iff)
  also have "\<dots> \<le> unat (log2channel t)"
    by (rule positions_chip [where a = "nat (ADDR_CHIP_S t)"]) (use assms in \<open>auto simp: decoder_ok_def\<close>)
  finally show "p < unat (log2channel t)" .
qed

lemma shr64u_ok:
  assumes "shift_ok t" and "gap t = 0"
  shows "shr64u v (of_int (ADDR_CHIP_S t) + (log2channel t + log2sub_partition t)) = Inr (drop_bit (high_shift t) v)
     \<and> high_shift t < 64"
proof -
  let ?s = "nat (ADDR_CHIP_S t)"
  have b: "?s + (unat (log2channel t) + unat (log2sub_partition t)) < 64" "0 \<le> ADDR_CHIP_S t"
    using assms by (simp_all add: shift_ok_def)
  have u: "unat (of_int (ADDR_CHIP_S t) :: u32) = ?s"
    using b unat_of_nat_lt [of ?s, where 'a = 32] by simp
  have "unat (log2channel t + log2sub_partition t) = unat (log2channel t) + unat (log2sub_partition t)"
    using b by (intro unat_add_le) simp
  then have "high_shift t = ?s + (unat (log2channel t) + unat (log2sub_partition t))"
    unfolding high_shift_def using u b by (subst unat_add_le) simp_all
  then show ?thesis using b by (simp add: shr64u_def high_shift_def)
qed

lemma stitch_ok:
  assumes "0 \<le> ADDR_CHIP_S t" and "ADDR_CHIP_S t < 31" and "m_n_channel t \<noteq> 0"
  shows "\<exists>r. stitch t addr = Inr r"
  using assms by (simp add: stitch_def shr64_def shl64_def low_mask_def)

lemma tlx_fields_ok:
  assumes ok: "decoder_ok t" "shift_ok t" and n: "m_n_channel t \<noteq> 0"
    and pow: "gap t = 0 \<longrightarrow> unat (m_n_channel t) = 2 ^ unat (log2channel t)"
  shows "\<exists>x high. tlx_fields t addr = Inr (x, high) \<and> ad_chip x < m_n_channel t"
proof (cases "gap t = 0")
  case True
  have "pack_field t CHIP addr < m_n_channel t"
    using chip_in_range [OF ok(1) True] ok(2) pow True by (simp add: word_less_nat_alt shift_ok_def)
  with True shr64u_ok [OF ok(2) True] show ?thesis by (simp add: tlx_fields_def)
next
  case False
  have s: "0 \<le> ADDR_CHIP_S t" "ADDR_CHIP_S t < 31" using ok(2) False by (simp_all add: shift_ok_def)
  let ?r = "drop_bit (nat (ADDR_CHIP_S t)) addr mod ucast (m_n_channel t)"
  have lt: "unat ?r < unat (m_n_channel t)" using n by (simp add: unat_mod unat_widen unat_gt_0)
  then have "unat ?r < 2 ^ LENGTH(32)" using unat_lt [of "m_n_channel t"] by linarith
  then have "unat (ucast ?r :: u32) = unat ?r" unfolding unsigned_ucast_eq by (rule take_bit_nat_eq_self)
  then have "(ucast ?r :: u32) < m_n_channel t" using lt by (simp add: word_less_nat_alt)
  moreover obtain r where "stitch t addr = Inr r" using stitch_ok [OF s n] by blast
  ultimately show ?thesis using False s n by (simp add: tlx_fields_def shr64_def)
qed

lemma combine_in_range:
  fixes c b n m :: u32
  assumes "c < n" and "m \<noteq> 0" and "unat n * unat m < 2 ^ 32"
  shows "c * m + (b AND (m - 1)) < n * m \<and> (c * m + (b AND (m - 1))) div m = c"
proof -
  let ?l = "b AND (m - 1)"
  have "?l \<le> m - 1" by (rule word_and_le1)
  then have l: "unat ?l < unat m"
    using assms(2) by (simp add: word_le_nat_alt unat_minus_one) (metis unat_gt_0 Suc_pred le_imp_less_Suc One_nat_def)
  have c: "unat c + 1 \<le> unat n" using assms(1) by (simp add: word_less_nat_alt)
  then have "(unat c + 1) * unat m \<le> unat n * unat m" by (rule mult_le_mono1)
  then have b: "unat c * unat m + unat ?l < unat n * unat m" using l by simp
  have u1: "unat (c * m) = unat c * unat m" using b assms(3) by (intro unat_mult_le) simp
  have u2: "unat (c * m + ?l) = unat c * unat m + unat ?l"
    using b assms(3) u1 by (subst unat_add_le) simp_all
  have u3: "unat (n * m) = unat n * unat m" using assms(3) by (intro unat_mult_le) simp
  have "unat ((c * m + ?l) div m) = unat c" using l by (simp add: unat_div u2)
  then have "(c * m + ?l) div m = c" by (rule unsigned_word_eqI)
  moreover have "c * m + ?l < n * m" using b by (simp add: word_less_nat_alt u2 u3)
  ultimately show ?thesis by simp
qed

lemma set_by_id_ok:
  assumes "p < n * m" and "m \<noteq> 0" and "unat n * unat m < 2 ^ 32"
    and "m_n_channel t = n" and "m_n_sub_partition_in_channel t = m"
  shows "\<exists>x'. set_by_id t p x = Inr x' \<and> ad_chip x' < n \<and> ad_sub_partition x' < n * m \<and>
     ad_sub_partition x' div m = ad_chip x'"
proof -
  have "unat (n * m) = unat n * unat m" using assms(3) by (intro unat_mult_le) simp
  then have "unat p < unat n * unat m" using assms(1) by (simp add: word_less_nat_alt)
  then have "p div m < n" by (simp add: word_less_nat_alt unat_div less_mult_imp_div_less)
  with assms show ?thesis by (simp add: set_by_id_def Let_def)
qed

text \<open>The loop of \<open>next_powerOf2\<close> on a block of ones clears them from below, one at a time.\<close>

definition ones :: "nat \<Rightarrow> nat \<Rightarrow> u32" where
  "ones j k = mask k AND NOT (mask j)"

lemma bit_ones: "bit (ones j k) i \<longleftrightarrow> j \<le> i \<and> i < k \<and> i < 32"
  by (auto simp: ones_def bit_and_iff bit_not_iff bit_mask_iff possible_bit_word)

lemma clear_lowest_one:
  assumes "j < k" and "k \<le> 32"
  shows "ones j k AND (ones j k - 1) = ones (Suc j) k"
proof -
  let ?x = "ones (Suc j) k"
  have "ones j k = ?x OR push_bit j 1"
    by (rule bit_word_eqI)
      (use assms in \<open>auto simp: bit_ones bit_or_iff bit_push_bit_iff bit_1_iff simp del: push_bit_of_1\<close>)
  also have "\<dots> = ?x + push_bit j 1"
    by (rule disjunctive_add [symmetric])
      (auto simp: bit_ones bit_push_bit_iff bit_1_iff simp del: push_bit_of_1)
  finally have "ones j k - 1 = ?x + mask j" by (simp add: mask_eq_exp_minus_1)
  also have "\<dots> = ?x OR mask j"
    by (rule disjunctive_add) (auto simp: bit_ones bit_mask_iff)
  finally show ?thesis
    by (intro bit_word_eqI) (auto simp: bit_and_iff bit_or_iff bit_ones bit_mask_iff)
qed

lemma unset_rightmost_ones:
  "j < k \<Longrightarrow> k \<le> 32 \<Longrightarrow> unset_rightmost (ones j k) = push_bit (k - 1) 1"
proof (induction "k - j" arbitrary: j)
  case (Suc d)
  have c: "ones j k AND (ones j k - 1) = ones (Suc j) k" by (rule clear_lowest_one [OF Suc.prems])
  show ?case
  proof (cases "Suc j = k")
    case True
    have z: "ones (Suc j) k = 0" by (rule bit_word_eqI) (simp add: True bit_ones)
    have "ones j k = push_bit (k - 1) 1"
      by (rule bit_word_eqI)
        (use True Suc.prems in \<open>auto simp: bit_ones bit_push_bit_iff bit_1_iff simp del: push_bit_of_1\<close>)
    then show ?thesis using c z by (subst unset_rightmost.simps) simp
  next
    case False
    then have "bit (ones (Suc j) k) (Suc j)" using Suc.prems by (simp add: bit_ones)
    then have "ones (Suc j) k \<noteq> 0" by auto
    moreover have "d = k - Suc j" using Suc.hyps(2) by simp
    ultimately show ?thesis
      using Suc.hyps(1) [of "Suc j"] False Suc.prems c by (subst unset_rightmost.simps) simp
  qed
qed simp

lemma next_powerOf2_power:
  assumes "unat n = 2 ^ k" and "n \<noteq> 1"
  shows "next_powerOf2 n = n"
proof -
  have "(2::nat) ^ k < 2 ^ LENGTH(32)" using unat_lt [of n] assms(1) by linarith
  then have "k < LENGTH(32)" by (rule two_power_less)
  then have k: "k < 32" by simp
  then have "unat n = unat (2 ^ k :: u32)" using assms(1) by (simp add: unat_two_power)
  then have n: "n = 2 ^ k" by (rule unsigned_word_eqI)
  then have k0: "0 < k" using assms(2) by (cases k) simp_all
  have "n - 1 = ones 0 k" by (simp add: n ones_def mask_eq_exp_minus_1)
  then have "next_powerOf2 n = push_bit 1 (push_bit (k - 1) 1)"
    unfolding next_powerOf2_def using unset_rightmost_ones [OF k0] k by simp
  also have "\<dots> = push_bit (1 + (k - 1)) 1" by (rule push_bit_push_bit)
  finally show ?thesis using k0 by (simp add: n)
qed

text \<open>When each indexing function is usable: the exclusive-or needs a power of two, the polynomials
  exist for 16, 32 and 64 sub partitions, and the random table holds only identifiers in range.\<close>

definition index_ok :: "addr_translation \<Rightarrow> interleaving \<Rightarrow> bool" where
  "index_ok t s =
     (case memory_partition_indexing t of
        CONSECUTIVE \<Rightarrow> True
      | CUSTOM \<Rightarrow> True
      | BITWISE_PERMUTATION \<Rightarrow> gap t = 0
      | IPOLY \<Rightarrow> nextPowerOf2_m_n_channel t * m_n_sub_partition_in_channel t \<in> {16, 32, 64}
      | RANDOM \<Rightarrow> int (unat (log2sub_partition t)) \<le> ADDR_CHIP_S t \<and> ADDR_CHIP_S t < 64 \<and>
          (\<forall>p\<in>ran (address_random_interleaving s). p < m_n_channel t * m_n_sub_partition_in_channel t)
      | PAE \<Rightarrow> False)"

definition counts_ok :: "u32 \<Rightarrow> u32 \<Rightarrow> bool" where
  "counts_ok n nsub \<longleftrightarrow> n \<noteq> 0 \<and> nsub \<noteq> 0 \<and> unat n * unat nsub < 2 ^ 32"

lemma init_power:
  assumes "init_tables n nsub t0 = Inr t" and "mapping_given t0" and "n \<noteq> 0" and "gap t = 0"
  shows "unat (m_n_channel t) = 2 ^ unat (log2channel t)"
  using init_tables_spec [OF assms(1,2)] gap_zero [OF assms(3)] assms(4) by simp

text \<open>C10: Every decoded identifier is in range.  For an initialised decoder whose shifts and indexing
  function are usable, \<open>addrdec_tlx\<close> fails for no address; the channel is below the number of channels,
  the sub partition below the total, and the sub partition lies in that channel.  The state of the random
  interleaving keeps its invariant.\<close>

theorem decoded_ids_in_range:
  assumes init: "init_tables n nsub t0 = Inr t" "mapping_given t0"
    and ok: "counts_ok n nsub" "shift_ok t" "index_ok t s"
  shows "\<exists>x s'. addrdec_tlx rnd t addr s = Inr (x, s') \<and> ad_chip x < n \<and> ad_sub_partition x < n * nsub \<and>
     ad_sub_partition x div nsub = ad_chip x \<and> index_ok t s'"
proof -
  note sp = init_tables_spec [OF init]
  have n: "m_n_channel t = n" "m_n_sub_partition_in_channel t = nsub" "decoder_ok t" using sp by simp_all
  have c: "n \<noteq> 0" "nsub \<noteq> 0" "unat n * unat nsub < 2 ^ 32" using ok(1) by (simp_all add: counts_ok_def)
  have pow: "gap t = 0 \<longrightarrow> unat (m_n_channel t) = 2 ^ unat (log2channel t)" using init_power [OF init c(1)] by blast
  from tlx_fields_ok [OF n(3) ok(2) _ pow] n c obtain x high
    where f: "tlx_fields t addr = Inr (x, high)" and chip: "ad_chip x < n" by metis
  note comb = combine_in_range [OF _ c(2,3)]
  have prod: "n * nsub \<noteq> 0"
  proof -
    have "unat (n * nsub) = unat n * unat nsub" using c(3) by (intro unat_mult_le) simp
    moreover have "unat n * unat nsub \<noteq> 0" using c by (simp add: unat_eq_zero)
    ultimately show ?thesis by (metis unat_0)
  qed
  note byid = set_by_id_ok [OF _ c(2,3) n(1,2)]
  show ?thesis
  proof (cases "memory_partition_indexing t")
    case CONSECUTIVE
    then show ?thesis using f n chip comb [OF chip, of "ad_bk x"] ok(3)
      by (simp add: addrdec_tlx_def combine_sub_partition_def Let_def)
  next
    case CUSTOM
    then show ?thesis using f n chip comb [OF chip, of "ad_bk x"] ok(3)
      by (simp add: addrdec_tlx_def combine_sub_partition_def Let_def)
  next
    case BITWISE_PERMUTATION
    then have gap: "gap t = 0" using ok(3) by (simp add: index_ok_def)
    let ?k = "unat (log2channel t)"
    have k: "?k < 32" using sp LOGB2_32_less by simp
    then have "unat n = unat (2 ^ ?k :: u32)" using pow gap n by (simp add: unat_two_power)
    then have "n = 2 ^ ?k" by (rule unsigned_word_eqI)
    from bitwise_hash_bound [OF this k chip] have h: "bitwise_hash_function high (ad_chip x) n < n" .
    then show ?thesis
      using BITWISE_PERMUTATION gap f n h ok(3) comb [OF h, of "ad_bk x"]
      by (simp add: addrdec_tlx_def combine_sub_partition_def Let_def)
  next
    case IPOLY
    let ?b = "nextPowerOf2_m_n_channel t * nsub"
    have b: "?b \<in> {16, 32, 64}" using ok(3) IPOLY n by (simp add: index_ok_def)
    then obtain p where p: "ipoly_hash_function high (combine_sub_partition t x) ?b = Inr p"
      using ipoly_ok_iff [of high "combine_sub_partition t x" ?b] by (auto simp: is_ok_iff)
    let ?p = "if gap t \<noteq> 0 then p mod (n * nsub) else p"
    have "?p < n * nsub"
    proof (cases "gap t = 0")
      case True
      have "n \<noteq> 1"
      proof
        assume "n = 1"
        then have "nextPowerOf2_m_n_channel t = 0" using sp by (simp add: next_powerOf2_def unset_rightmost.simps [of 0])
        with b show False by simp
      qed
      then have "nextPowerOf2_m_n_channel t = n"
        using next_powerOf2_power [of n "unat (log2channel t)"] pow True n sp by simp
      with ipoly_bound [OF p] True show ?thesis by simp
    next
      case False
      with prod show ?thesis by (simp add: word_less_nat_alt unat_mod unat_gt_0)
    qed
    from byid [OF this, of x] obtain x' where x': "set_by_id t ?p x = Inr x'" "ad_chip x' < n"
      "ad_sub_partition x' < n * nsub" "ad_sub_partition x' div nsub = ad_chip x'" by blast
    have "addrdec_tlx rnd t addr s = Inr (x', s)"
      using f p n IPOLY prod x'(1) by (simp add: addrdec_tlx_def Let_def)
    with x' ok(3) show ?thesis by blast
  next
    case RANDOM
    let ?sh = "of_int (ADDR_CHIP_S t) - log2sub_partition t"
    have r: "int (unat (log2sub_partition t)) \<le> ADDR_CHIP_S t" "ADDR_CHIP_S t < 64"
      and ran: "\<And>a p. address_random_interleaving s a = Some p \<Longrightarrow> p < n * nsub"
      using ok(3) RANDOM n by (auto simp: index_ok_def intro: ranI)
    have u: "unat (of_int (ADDR_CHIP_S t) :: u32) = nat (ADDR_CHIP_S t)"
      using r ok(2) unat_of_nat_lt [of "nat (ADDR_CHIP_S t)", where 'a = 32] by (simp add: shift_ok_def)
    have "unat (log2sub_partition t) \<le> nat (ADDR_CHIP_S t)" using nat_mono [OF r(1)] by (simp only: nat_int)
    then have "log2sub_partition t \<le> of_int (ADDR_CHIP_S t)" using u by (simp add: word_le_nat_alt)
    then have "unat ?sh < 64" using u r by (simp add: unat_sub)
    then obtain a where a: "shr64u addr ?sh = Inr a" by (simp add: shr64u_def)
    show ?thesis
    proof (cases "address_random_interleaving s a")
      case (Some p)
      from byid [OF ran [OF Some], of x] obtain x' where x': "set_by_id t p x = Inr x'" "ad_chip x' < n"
        "ad_sub_partition x' < n * nsub" "ad_sub_partition x' div nsub = ad_chip x'" by blast
      have "addrdec_tlx rnd t addr s = Inr (x', s)"
        using Some a f n RANDOM x'(1) by (simp add: addrdec_tlx_def Let_def)
      with x' ok(3) show ?thesis by blast
    next
      case None
      let ?p = "rnd (rand_pos s) mod (n * nsub)"
      have p: "?p < n * nsub" using prod by (simp add: word_less_nat_alt unat_mod unat_gt_0)
      let ?s = "s\<lparr>address_random_interleaving := (address_random_interleaving s)(a \<mapsto> ?p), rand_pos := rand_pos s + 1\<rparr>"
      have inv: "index_ok t ?s" using ok(3) RANDOM p n None by (simp add: index_ok_def ran_map_upd)
      from byid [OF p, of x] obtain x' where x': "set_by_id t ?p x = Inr x'" "ad_chip x' < n"
        "ad_sub_partition x' < n * nsub" "ad_sub_partition x' div nsub = ad_chip x'" by blast
      have "addrdec_tlx rnd t addr s = Inr (x', ?s)"
        using None a f n RANDOM prod x'(1) by (simp add: addrdec_tlx_def Let_def)
      with x' inv show ?thesis by blast
    qed
  next
    case PAE
    then show ?thesis using ok(3) by (simp add: index_ok_def)
  qed
qed

section \<open>The self test\<close>

lemma packbits_all:
  "bit (addrdec_packbits m v 64 0) p \<longleftrightarrow> p < 64 \<and> p < length (positions m) \<and> bit v (positions m ! p)"
  unfolding bit_packbits positions_def by simp

lemma rank_le: "rank m i \<le> i"
  using length_filter_le [of "bit m" "[0..<i]"] by (simp add: rank_def)

lemma rank_less:
  assumes "j < i" and "\<not> bit m j"
  shows "rank m i < i"
proof -
  have "length (filter (bit m) [0..<i]) < length [0..<i]"
    by (rule length_filter_less [of j]) (use assms in auto)
  then show ?thesis by (simp add: rank_def)
qed

lemma rank_positions:
  assumes "p < length (positions m)"
  shows "rank m (positions m ! p) = p \<and> bit m (positions m ! p)"
proof -
  let ?e = "positions m ! p"
  have d: "distinct (positions m)" unfolding positions_def by (intro distinct_filter distinct_upt)
  have "?e \<in> set (positions m)" using assms by (rule nth_mem)
  then have e: "bit m ?e" unfolding positions_def set_filter by blast
  then have "?e < 64" by (auto dest: bit_imp_le_length)
  from positions_rank [OF this e] d assms show ?thesis using e nth_eq_iff_index_eq by blast
qed

lemma highest_bit:
  fixes w :: u64
  assumes "2 ^ j \<le> unat w"
  shows "\<exists>i\<ge>j. bit w i \<and> (\<forall>e. bit w e \<longrightarrow> e \<le> i)"
proof -
  have "\<exists>i. bit w i \<and> j \<le> i" using bits_below_unat [of w j] assms by (meson not_le)
  then obtain i where i: "bit w i" "j \<le> i" by blast
  have fin: "finite {e. bit w e}" by (rule finite_subset [of _ "{..<64}"]) (auto dest: bit_imp_le_length)
  let ?M = "Max {e. bit w e}"
  have "bit w ?M" using Max_in [OF fin] i(1) by auto
  moreover have "\<And>e. bit w e \<Longrightarrow> e \<le> ?M" using fin by simp
  ultimately show ?thesis using i by (meson order.trans)
qed

text \<open>Removing a bit position \<open>j\<close> moves every higher bit down.\<close>

lemma packbits_moves:
  assumes "\<not> bit m j" and "2 ^ j \<le> unat a"
  shows "addrdec_packbits m a 64 0 \<noteq> a"
proof
  assume eq: "addrdec_packbits m a 64 0 = a"
  from highest_bit [OF assms(2)] obtain i where i: "j \<le> i" "bit a i" "\<And>e. bit a e \<Longrightarrow> e \<le> i" by blast
  then have p: "i < length (positions m)" "bit a (positions m ! i)" using packbits_all [of m a i] eq by auto
  let ?e = "positions m ! i"
  have e: "rank m ?e = i" "bit m ?e" using rank_positions [OF p(1)] by auto
  have "?e \<le> i" by (rule i(3) [OF p(2)])
  moreover have "?e \<noteq> j" using e(2) assms(1) by auto
  ultimately have "j < ?e" using e(1) rank_le [of m ?e] i(1) by simp
  from rank_less [OF this assms(1)] e(1) \<open>?e \<le> i\<close> show False by simp
qed

lemma packbits_below:
  assumes "\<And>e. bit r e \<Longrightarrow> e < i" and "bit a i"
  shows "addrdec_packbits m r 64 0 \<noteq> a"
proof
  assume "addrdec_packbits m r 64 0 = a"
  then have p: "i < length (positions m)" "bit r (positions m ! i)" using packbits_all [of m r i] assms(2) by auto
  then have "i \<le> positions m ! i" using rank_positions [OF p(1)] rank_le [of m "positions m ! i"] by simp
  with assms(1) [OF p(2)] show False by simp
qed

lemma quotient_below:
  fixes addr n :: u64
  assumes h: "\<And>e. bit addr e \<Longrightarrow> e \<le> i" and i: "s \<le> i" and n: "2 \<le> unat n"
    and b: "bit (push_bit s (drop_bit s addr div n) OR (addr AND mask s)) e"
  shows "e < i"
proof (cases "bit (addr AND mask s) e")
  case True
  then have "e < s" by (simp add: bit_and_iff bit_mask_iff)
  with i show ?thesis by simp
next
  case False
  let ?q = "drop_bit s addr div n"
  from False b have e: "s \<le> e" "bit ?q (e - s)" by (auto simp: bit_or_iff bit_push_bit_iff)
  have "unat addr < 2 ^ Suc i" using h by (intro bits_below_unat) (simp add: less_Suc_eq_le)
  moreover have "(2::nat) ^ (i - s) * 2 ^ s = 2 ^ i" using i by (simp add: power_add [symmetric])
  ultimately have "unat addr < 2 * 2 ^ (i - s) * 2 ^ s" by (simp add: mult.assoc)
  then have "unat addr div 2 ^ s < 2 * 2 ^ (i - s)" by (simp add: less_mult_imp_div_less)
  then have "unat addr div 2 ^ s < 2 ^ (i - s) * unat n" using n
    by (metis mult.commute mult_le_mono1 order.strict_trans2)
  then have "unat ?q < 2 ^ (i - s)" by (simp add: unat_div unat_drop_bit less_mult_imp_div_less)
  then have "e - s < i - s" by (rule bit_below [OF e(2)])
  then show ?thesis by simp
qed

lemma partition_address_moves:
  assumes ok: "decoder_ok t" "shift_ok t" and n: "1 < unat (m_n_channel t)"
    and pow: "gap t = 0 \<longrightarrow> unat (m_n_channel t) = 2 ^ unat (log2channel t)"
    and big: "2 ^ nat (ADDR_CHIP_S t) \<le> unat addr"
  shows "\<exists>p. partition_address t addr = Inr p \<and> addr \<noteq> p"
proof (cases "gap t = 0")
  case True
  let ?s = "nat (ADDR_CHIP_S t)"
  have "0 < unat (log2channel t)" using n pow True by (metis gr0I nat_neq_iff power_0)
  then have "bit (addrdec_mask t CHIP) ?s" using ok True by (auto simp: decoder_ok_def shift_ok_def)
  then have "\<not> bit (NOT (addrdec_mask t CHIP OR sub_partition_id_mask t)) ?s" by (simp add: bit_not_iff bit_and_iff)
  from packbits_moves [OF this big] True show ?thesis by (auto simp: partition_address_def)
next
  case False
  let ?s = "nat (ADDR_CHIP_S t)"
  have s: "0 \<le> ADDR_CHIP_S t" "ADDR_CHIP_S t < 31" using ok(2) False by (simp_all add: shift_ok_def)
  have nz: "m_n_channel t \<noteq> 0" using n by auto
  obtain r where r: "stitch t addr = Inr r" using stitch_ok [OF s nz] by blast
  from highest_bit [OF big] obtain i where i: "?s \<le> i" "bit addr i" "\<And>e. bit addr e \<Longrightarrow> e \<le> i" by blast
  have "2 \<le> unat (ucast (m_n_channel t) :: u64)" using n by (simp add: unat_widen)
  from quotient_below [OF i(3) i(1) this] stitch_value [OF r] have "\<And>e. bit r e \<Longrightarrow> e < i" by auto
  from packbits_below [OF this i(2)] r False show ?thesis by (auto simp: partition_address_def)
qed

lemma sweep_loop_passes:
  assumes dec: "\<forall>a\<in>set raws. \<exists>x. addrdec_tlx rnd t a s = Inr (x, s) \<and> ad_chip x < m_n_channel t \<and> encode_addr t x = a"
    and lim: "shl64 1 (if ADDR_CHIP_S t \<noteq> - 1 then ADDR_CHIP_S t else uint (addrdec_mklow t CHIP)) = Inr lim"
    and part: "\<forall>a\<in>set raws. \<exists>p. partition_address t a = Inr p \<and> (lim \<le> a \<longrightarrow> a \<noteq> p)"
    and hist: "\<forall>(x, a)\<in>set h. encode_addr t x = a \<and> a \<notin> set raws" and dist: "distinct raws"
  shows "sweep_loop rnd t raws h s = Inr s"
  using dec part hist dist
proof (induction raws arbitrary: h)
  case (Cons a raws)
  from Cons.prems(1) obtain x where x: "addrdec_tlx rnd t a s = Inr (x, s)" "ad_chip x < m_n_channel t"
    "encode_addr t x = a" by auto
  from Cons.prems(2) obtain p where p: "partition_address t a = Inr p" "lim \<le> a \<longrightarrow> a \<noteq> p" by auto
  have "map_of h x = None"
  proof (rule ccontr)
    assume "map_of h x \<noteq> None"
    then obtain b where "(x, b) \<in> set h" by (auto dest: map_of_SomeD)
    with Cons.prems(3) x(3) show False by auto
  qed
  moreover have "sweep_loop rnd t raws ((x, a) # h) s = Inr s"
    by (rule Cons.IH) (use Cons.prems x(3) in auto)
  ultimately show ?case using x p lim by simp
qed simp

lemma sweep_loop_asserts:
  assumes "sweep_loop rnd t raws h s = Inr s'"
    and "shl64 1 (if ADDR_CHIP_S t \<noteq> - 1 then ADDR_CHIP_S t else uint (addrdec_mklow t CHIP)) = Inr lim"
    and "a \<in> set raws" and "lim \<le> a" and "partition_address t a = Inr p"
  shows "a \<noteq> p"
  using assms
proof (induction raws arbitrary: h s)
  case (Cons b raws)
  from Cons.prems(1,2) obtain x s1 p' where p': "partition_address t b = Inr p'" "lim \<le> b \<longrightarrow> b \<noteq> p'"
    and rest: "sweep_loop rnd t raws ((x, b) # h) s1 = Inr s'"
    by (auto simp: res_simps split: if_splits prod.splits)
  show ?case
  proof (cases "a = b")
    case True
    with p' Cons.prems show ?thesis by simp
  next
    case False
    with Cons.IH [OF rest Cons.prems(2) _ Cons.prems(4,5)] Cons.prems(3) show ?thesis by simp
  qed
qed simp

lemma sweep_list:
  assumes "4 * N \<le> 2 ^ 64"
  shows "distinct (map (\<lambda>k. of_nat (4 * k) :: u64) [1..<N]) \<and>
    (\<forall>a\<in>set (map (\<lambda>k. of_nat (4 * k) :: u64) [1..<N]). unat a < 4 * N)"
proof -
  have u: "unat (of_nat (4 * k) :: u64) = 4 * k" if "k < N" for k
    using that assms by (intro unat_of_nat_lt) simp
  have "inj_on (\<lambda>k. of_nat (4 * k) :: u64) (set [1..<N])"
    by (rule inj_on_inverseI [where g = "\<lambda>a. unat a div 4"]) (simp add: u del: of_nat_mult)
  moreover have "\<forall>a\<in>set (map (\<lambda>k. of_nat (4 * k) :: u64) [1..<N]). unat a < 4 * N"
    using u by (auto simp del: of_nat_mult)
  ultimately show ?thesis by (simp only: distinct_map distinct_upt simp_thms)
qed

lemma sweep_addrs_props: "distinct sweep_addrs \<and> (\<forall>a\<in>set sweep_addrs. unat a < 2 ^ 24)"
proof -
  have le: "4 * 4194304 \<le> (2::nat) ^ 64" and e: "4 * 4194304 = (2::nat) ^ 24" by simp_all
  from sweep_list [OF le] show ?thesis unfolding sweep_addrs_def e .
qed

lemma limit_ok:
  assumes "0 \<le> ADDR_CHIP_S t" and "ADDR_CHIP_S t < 64"
  shows "\<exists>lim. shl64 1 (if ADDR_CHIP_S t \<noteq> - 1 then ADDR_CHIP_S t else uint (addrdec_mklow t CHIP)) = Inr lim \<and>
     unat lim = 2 ^ nat (ADDR_CHIP_S t)"
  using assms by (simp add: shl64_def unat_two_power nat_less_iff)

lemma packbits_nothing_removed: "addrdec_packbits (NOT 0) a 64 0 = a"
proof (rule bit_word_eqI)
  have "positions (NOT 0) = [0..<64]"
    unfolding positions_def by (rule filter_True) (simp add: bit_not_iff possible_bit_word)
  then have "p < 64 \<Longrightarrow> p < length (positions (NOT 0)) \<and> positions (NOT 0) ! p = p" for p
    by (simp only: length_upt nth_upt) simp
  then show "bit (addrdec_packbits (NOT 0) a 64 0) p \<longleftrightarrow> bit a p" if "p < LENGTH(64)" for p
    unfolding packbits_all using that by auto
qed

text \<open>C11: The self test under consecutive, custom or (with a power-of-two number of channels) permuted
  indexing.  For a decoder whose low 24 bits are all mapped, whose channel bits start below bit 24, whose
  shifts are less than the width, whose fields have at most 32 bits and whose number of sub partitions fits
  32 bits, with more than one channel,
  \<open>sweep_test\<close> finds no aliased pair and none of its assertions fails.  With a single channel of a single sub
  partition it always aborts: \<open>partition_address\<close> then has nothing to remove, and the test asserts that it
  changes the address.  \<open>IPOLY\<close>, under which the test can abort with several channels (\<open>titanv_aliases\<close>), and
  \<open>RANDOM\<close> are not covered.\<close>

theorem sweep_test_outcome:
  assumes init: "init_tables n nsub t0 = Inr t" "mapping_given t0"
    and ok: "counts_ok n nsub" "shift_ok t" "narrow t" "mapped_below t 24" "ADDR_CHIP_S t < 24"
    and idx: "memory_partition_indexing t \<in> {CONSECUTIVE, CUSTOM} \<or>
       memory_partition_indexing t = BITWISE_PERMUTATION \<and> gap t = 0"
  shows "(n \<noteq> 1 \<longrightarrow> sweep_test rnd t s = Inr s) \<and> (n = 1 \<and> nsub = 1 \<longrightarrow> \<not> is_ok (sweep_test rnd t s))"
proof (intro conjI impI)
  note sp = init_tables_spec [OF init]
  have nz: "n \<noteq> 0" using ok(1) by (simp add: counts_ok_def)
  have s0: "0 \<le> ADDR_CHIP_S t" "ADDR_CHIP_S t < 64" using ok(2,5) by (simp_all add: shift_ok_def)
  from limit_ok [OF this] obtain lim where lim: "shl64 1 (if ADDR_CHIP_S t \<noteq> - 1 then ADDR_CHIP_S t
      else uint (addrdec_mklow t CHIP)) = Inr lim" "unat lim = 2 ^ nat (ADDR_CHIP_S t)" by blast
  have pow: "gap t = 0 \<longrightarrow> unat (m_n_channel t) = 2 ^ unat (log2channel t)" using init_power [OF init nz] by blast
  {
    assume n1: "n \<noteq> 1"
    have n: "1 < unat (m_n_channel t)"
      using n1 nz sp by (metis One_nat_def less_one linorder_neqE_nat unat_0 unat_1 unsigned_word_eqI)
    have iok: "index_ok t s" using idx by (auto simp: index_ok_def)
    have dec: "\<exists>x. addrdec_tlx rnd t a s = Inr (x, s) \<and> ad_chip x < m_n_channel t \<and> encode_addr t x = a"
      if "unat a < 2 ^ 24" for a
    proof -
      from decoded_ids_in_range [OF init ok(1,2) iok, of rnd a] obtain x s'
        where x: "addrdec_tlx rnd t a s = Inr (x, s')" "ad_chip x < n" by blast
      moreover have "s' = s" using x(1) idx by (auto simp: addrdec_tlx_def res_simps Let_def)
      moreover have "encode_addr t x = a"
        by (rule decode_determines_address_aux [OF init ok(3,4) that _ _ x(1)]) (use idx s0 in auto)
      ultimately show ?thesis using sp by auto
    qed
    have part: "\<exists>p. partition_address t a = Inr p \<and> (lim \<le> a \<longrightarrow> a \<noteq> p)" for a
    proof (cases "lim \<le> a")
      case True
      then have "2 ^ nat (ADDR_CHIP_S t) \<le> unat a" using lim(2) by (simp add: word_le_nat_alt)
      with partition_address_moves [OF _ ok(2) n pow] sp show ?thesis by blast
    next
      case False
      have "m_n_channel t \<noteq> 0" using nz sp by simp
      then show ?thesis
        using False ok(2) stitch_ok [of t a] by (cases "gap t = 0") (auto simp: partition_address_def shift_ok_def)
    qed
    show "sweep_test rnd t s = Inr s"
      unfolding sweep_test_def using sweep_addrs_props dec part lim(1) by (intro sweep_loop_passes) auto
  }
  {
    assume one: "n = 1 \<and> nsub = 1"
    have log: "log2channel t = 0" using sp one by (simp add: LOGB2_32_def Let_def)
    have gap: "gap t = 0" using sp one log by (simp add: powli_two)
    have "addrdec_mask t CHIP = 0"
      by (rule bit_word_eqI) (use sp gap log s0 in \<open>auto simp: decoder_ok_def\<close>)
    then have p: "partition_address t a = Inr a" for a
      using gap sp one packbits_nothing_removed by (simp add: partition_address_def)
    let ?a = "of_nat (4 * 4194303) :: u64"
    have "4194303 \<in> set [1..<4194304]" unfolding set_upt by simp
    then have mem: "?a \<in> set sweep_addrs" unfolding sweep_addrs_def set_map by (rule imageI)
    have "nat (ADDR_CHIP_S t) \<le> 23" using ok(5) by simp
    then have "(2::nat) ^ nat (ADDR_CHIP_S t) \<le> 2 ^ 23" by (rule power_increasing) simp
    then have "lim \<le> ?a" unfolding word_le_nat_alt lim(2) by simp
    from sweep_loop_asserts [OF _ lim(1) mem this p] show "\<not> is_ok (sweep_test rnd t s)"
      by (auto simp: sweep_test_def is_ok_iff)
  }
qed

section \<open>A shipped configuration\<close>

text \<open>\<open>configs/tested-cfgs/SM7_TITANV/gpgpusim.config\<close>: 24 channels of two sub partitions, with the
  mapping string below; its indexing function is \<open>IPOLY\<close>.\<close>

definition titanv_options :: "partition_index_function \<Rightarrow> addr_translation" where
  "titanv_options f = \<lparr>addrdec_option = Some
       ''dramid@8;00000000.00000000.00000000.00000000.0000RRRR.RRRRRRRR.RBBBCCCB.CCCSSSSS'',
     gpgpu_mem_address_mask = 1, memory_partition_indexing = f, run_test = False, ADDR_CHIP_S = 10,
     addrdec_mklow = (\<lambda>_. 0), addrdec_mkhigh = (\<lambda>_. 64), addrdec_mask = (\<lambda>_. 0),
     sub_partition_id_mask = 0, gap = 0, m_n_channel = 0, m_n_sub_partition_in_channel = 0,
     m_n_sub_partition_total = 0, log2channel = 0, log2sub_partition = 0, nextPowerOf2_m_n_channel = 0\<rparr>"

definition titanv_masks :: "addr_field \<Rightarrow> u64" where
  "titanv_masks f = (case f of CHIP \<Rightarrow> 0 | BK \<Rightarrow> 0x7100 | ROW \<Rightarrow> 0xFFF8000 | COL \<Rightarrow> 0xEFF | BURST \<Rightarrow> 0x1F)"

lemma titanv_scan: "scan_dramid (the (addrdec_option (titanv_options f))) = Inr (Some 8)"
proof -
  have "scan_dramid (the (addrdec_option (titanv_options IPOLY))) = Inr (Some 8)" by code_simp
  then show ?thesis by (simp add: titanv_options_def)
qed

lemma titanv_parse:
  "parse_mapping True (after_semicolon (the (addrdec_option (titanv_options f)))) (\<lambda>_. 0) 63 = Inr (titanv_masks, - 1)"
proof -
  let ?p = "parse_mapping True (after_semicolon (the (addrdec_option (titanv_options IPOLY)))) (\<lambda>_. 0) 63"
  have "case ?p of Inr (m, ofs) \<Rightarrow> ofs = - 1 \<and> m CHIP = 0 \<and> m BK = 0x7100 \<and> m ROW = 0xFFF8000 \<and>
      m COL = 0xEFF \<and> m BURST = 0x1F | Inl _ \<Rightarrow> False" by code_simp
  then obtain m where m: "?p = Inr (m, - 1)" "m CHIP = 0" "m BK = 0x7100" "m ROW = 0xFFF8000"
      "m COL = 0xEFF" "m BURST = 0x1F" by (auto split: sum.splits prod.splits)
  then have "m = titanv_masks" by (intro ext) (simp add: titanv_masks_def split: addr_field.split)
  with m(1) show ?thesis by (simp add: titanv_options_def)
qed

definition titanv :: "partition_index_function \<Rightarrow> addr_translation" where
  "titanv f = set_sub_mask (set_limits ((builtin_masks (set_counts 24 2 (titanv_options f)))
     \<lparr>ADDR_CHIP_S := 8, addrdec_mask := titanv_masks\<rparr>))"

lemma titanv_counts: "LOGB2_32 24 = 4" "LOGB2_32 2 = 1" "next_powerOf2 24 = 32"
  by (simp_all add: LOGB2_32_def Let_def next_powerOf2_def unset_rightmost.simps)

lemma titanv_init: "init_tables 24 2 (titanv_options f) = Inr (titanv f)"
proof -
  have o: "addrdec_option (titanv_options f) = Some (the (addrdec_option (titanv_options f)))"
    by (simp add: titanv_options_def)
  have g: "gap (set_counts 24 2 (titanv_options f)) = 8" by (simp add: set_counts_def titanv_counts powli_two)
  have p: "addrdec_parseoption (the (addrdec_option (titanv_options f))) t =
      Inr (t\<lparr>ADDR_CHIP_S := 8, addrdec_mask := titanv_masks\<rparr>)" for t
    by (simp add: addrdec_parseoption_def titanv_scan titanv_parse)
  have o': "addrdec_option (builtin_masks (set_counts 24 2 (titanv_options f))) =
      Some (the (addrdec_option (titanv_options f)))"
    using o by (simp add: set_counts_def)
  show ?thesis
    unfolding init_tables_def Let_def o' titanv_def by (simp add: p g)
qed

lemma titanv_given: "mapping_given (titanv_options f)"
  by (simp add: mapping_given_def titanv_options_def)

lemma titanv_ok: "decoder_ok (titanv f)"
  using init_tables_spec [OF titanv_init titanv_given] by blast

lemma titanv_fields [simp]:
  "addrdec_mask (titanv f) = titanv_masks" "ADDR_CHIP_S (titanv f) = 8" "gap (titanv f) = 8"
  "m_n_channel (titanv f) = 24" "m_n_sub_partition_in_channel (titanv f) = 2"
  "memory_partition_indexing (titanv f) = f" "nextPowerOf2_m_n_channel (titanv f) = 32"
  by (simp_all add: titanv_def set_sub_mask_def set_limits_def set_counts_def titanv_counts powli_two titanv_options_def)

lemma pack_field_all:
  assumes "decoder_ok t"
  shows "pack_field t f a = ucast (addrdec_packbits (addrdec_mask t f) a 64 0)"
proof -
  have "addrdec_packbits (addrdec_mask t f) a (addrdec_mkhigh t f) (addrdec_mklow t f)
      = addrdec_packbits (addrdec_mask t f) a 64 0"
    using assms packbits_limits [of "addrdec_mask t f" a] packbits_all [of "addrdec_mask t f" a]
    by (intro bit_word_eqI) (auto simp: decoder_ok_def dest: bit_imp_le_length)
  then show ?thesis by (simp only: pack_field_def)
qed

lemma titanv_narrow: "narrow (titanv f)"
proof -
  have "length (positions 0) \<le> 32" "length (positions 0x7100) \<le> 32" "length (positions 0xFFF8000) \<le> 32"
    "length (positions 0xEFF) \<le> 32" by code_simp+
  then show ?thesis by (simp add: narrow_def titanv_masks_def)
qed

lemma titanv_mapped: "mapped_below (titanv f) 28"
proof -
  have "\<forall>i\<in>set [0..<28]. bit (0x7100 :: u64) i \<or> bit (0xFFF8000 :: u64) i \<or> bit (0xEFF :: u64) i" by code_simp
  then show ?thesis by (auto simp only: mapped_below_def titanv_fields titanv_masks_def addr_field.case)
qed

lemma titanv_shift: "shift_ok (titanv f)"
  by (simp add: shift_ok_def)

theorem decode_determines_address_witness:
  "\<exists>x. addrdec_tlx (\<lambda>_. 0) (titanv CONSECUTIVE) 0xABCDE40 \<lparr>address_random_interleaving = Map.empty, rand_pos = 0\<rparr>
     = Inr (x, \<lparr>address_random_interleaving = Map.empty, rand_pos = 0\<rparr>) \<and>
     encode_addr (titanv CONSECUTIVE) x = 0xABCDE40"
proof -
  let ?s = "\<lparr>address_random_interleaving = Map.empty, rand_pos = 0\<rparr>"
  have "\<exists>x high. tlx_fields (titanv CONSECUTIVE) 0xABCDE40 = Inr (x, high) \<and>
      ad_chip x < m_n_channel (titanv CONSECUTIVE)"
    by (rule tlx_fields_ok [OF titanv_ok titanv_shift]) simp_all
  then obtain x high where "tlx_fields (titanv CONSECUTIVE) 0xABCDE40 = Inr (x, high)" by blast
  then obtain y where y: "addrdec_tlx (\<lambda>_. 0) (titanv CONSECUTIVE) 0xABCDE40 ?s = Inr (y, ?s)"
    by (simp add: addrdec_tlx_def Let_def)
  have "encode_addr (titanv CONSECUTIVE) y = 0xABCDE40"
    by (rule decode_determines_address [OF titanv_init titanv_given titanv_narrow titanv_mapped _ _ _ y]) simp_all
  with y show ?thesis by blast
qed

lemma titanv_index: "index_ok (titanv IPOLY) s"
  by (simp add: index_ok_def)

theorem decoded_ids_in_range_witness:
  "\<exists>x s'. addrdec_tlx (\<lambda>_. 0) (titanv IPOLY) 0xABCDE40 \<lparr>address_random_interleaving = Map.empty, rand_pos = 0\<rparr>
     = Inr (x, s') \<and> ad_chip x < 24 \<and> ad_sub_partition x < 24 * 2 \<and> ad_sub_partition x div 2 = ad_chip x"
proof -
  have "counts_ok 24 2" by (simp add: counts_ok_def)
  from decoded_ids_in_range [OF titanv_init titanv_given this titanv_shift titanv_index] show ?thesis by blast
qed

theorem sweep_test_outcome_witness:
  "sweep_test (\<lambda>_. 0) (titanv CONSECUTIVE) \<lparr>address_random_interleaving = Map.empty, rand_pos = 0\<rparr> =
     Inr \<lparr>address_random_interleaving = Map.empty, rand_pos = 0\<rparr>"
proof -
  have c: "counts_ok 24 2" by (simp add: counts_ok_def)
  have m: "mapped_below (titanv CONSECUTIVE) 24"
    using titanv_mapped [of CONSECUTIVE] unfolding mapped_below_def set_upt by (auto simp del: titanv_fields)
  show ?thesis
    using sweep_test_outcome [OF titanv_init titanv_given c titanv_shift titanv_narrow m, of "\<lambda>_. 0"] by simp
qed

text \<open>A run of the self test in which two addresses decode alike does not succeed.\<close>

lemma sweep_loop_no_alias:
  assumes "\<And>a s. addrdec_tlx rnd t a s = map_sum id (\<lambda>x. (x, s)) (f a)"
  shows "sweep_loop rnd t raws h s = Inr s' \<Longrightarrow>
    (\<forall>a\<in>set raws. \<exists>x. f a = Inr x \<and> map_of h x = None) \<and> (distinct raws \<longrightarrow> inj_on f (set raws))"
proof (induction raws arbitrary: h s)
  case (Cons c raws)
  from Cons.prems assms obtain x where x: "f c = Inr x" "map_of h x = None"
    and rest: "sweep_loop rnd t raws ((x, c) # h) s = Inr s'"
    by (cases "f c") (auto simp: res_simps split: if_splits)
  note ih = Cons.IH [OF rest]
  have "f a \<noteq> f c \<and> (\<exists>y. f a = Inr y \<and> map_of h y = None)" if "a \<in> set raws" for a
  proof -
    from ih that obtain y where y: "f a = Inr y" "map_of ((x, c) # h) y = None" by blast
    then show ?thesis using x(1) by (cases "y = x") auto
  qed
  then show ?case using ih x by (auto simp: inj_on_def)
qed simp

lemma packbits_single:
  assumes "i < 64"
  shows "addrdec_packbits m (push_bit i 1) 64 0 = (if bit m i then push_bit (rank m i) 1 else 0)"
proof (rule bit_word_eqI)
  fix p
  assume "p < LENGTH(64)"
  then have p: "p < 64" by simp
  have b: "bit (push_bit i 1 :: u64) e \<longleftrightarrow> e = i" for e
    using assms by (auto simp: bit_push_bit_iff bit_1_iff possible_bit_word simp del: push_bit_of_1)
  have "p < length (positions m) \<and> positions m ! p = i \<longleftrightarrow> bit m i \<and> p = rank m i"
    using rank_positions [of p m] positions_rank [OF assms, of m] by auto
  then show "bit (addrdec_packbits m (push_bit i 1) 64 0) p \<longleftrightarrow>
      bit (if bit m i then push_bit (rank m i) 1 else 0 :: u64) p"
    unfolding packbits_all b using p
    by (auto simp: bit_push_bit_iff bit_1_iff possible_bit_word simp del: push_bit_of_1)
qed

lemma titanv_tlx:
  "addrdec_tlx rnd (titanv IPOLY) 52224 s =
     Inr (\<lparr>ad_chip = 0, ad_bk = 0, ad_row = 0, ad_col = 1024, ad_burst = 0, ad_sub_partition = 0\<rparr>, s)"
  "addrdec_tlx rnd (titanv IPOLY) 54272 s =
     Inr (\<lparr>ad_chip = 0, ad_bk = 0, ad_row = 0, ad_col = 1024, ad_burst = 0, ad_sub_partition = 0\<rparr>, s)"
proof -
  have e: "(2048 :: u64) = push_bit 11 1" by simp
  have r: "rank 0xEFF 11 = 10" by (simp add: rank_def upt_rec)
  have e': "push_bit 10 1 = (1024 :: u64)" by simp
  have p: "addrdec_packbits 0x7100 2048 64 0 = 0" "addrdec_packbits 0xFFF8000 2048 64 0 = 0"
    "addrdec_packbits 0xEFF 2048 64 0 = 1024" "addrdec_packbits 0x1F 2048 64 0 = 0"
    unfolding e by (simp_all add: packbits_single r e' del: push_bit_of_1)
  have f: "pack_field (titanv IPOLY) BK 2048 = 0" "pack_field (titanv IPOLY) ROW 2048 = 0"
    "pack_field (titanv IPOLY) COL 2048 = 1024" "pack_field (titanv IPOLY) BURST 2048 = 0"
    by (simp_all add: pack_field_all [OF titanv_ok] titanv_masks_def p)
  have st: "stitch (titanv IPOLY) 52224 = Inr 2048" "stitch (titanv IPOLY) 54272 = Inr 2048"
    by (simp_all add: stitch_def shr64_def shl64_def low_mask_def)
  have h: "ipoly_hash_function 8 24 64 = Inr 0" "ipoly_hash_function 8 40 64 = Inr 48" by code_simp+
  show "addrdec_tlx rnd (titanv IPOLY) 52224 s =
     Inr (\<lparr>ad_chip = 0, ad_bk = 0, ad_row = 0, ad_col = 1024, ad_burst = 0, ad_sub_partition = 0\<rparr>, s)"
    by (simp add: addrdec_tlx_def tlx_fields_def shr64_def st f combine_sub_partition_def h set_by_id_def)
  show "addrdec_tlx rnd (titanv IPOLY) 54272 s =
     Inr (\<lparr>ad_chip = 0, ad_bk = 0, ad_row = 0, ad_col = 1024, ad_burst = 0, ad_sub_partition = 0\<rparr>, s)"
    by (simp add: addrdec_tlx_def tlx_fields_def shr64_def st f combine_sub_partition_def h set_by_id_def)
qed

text \<open>C12: The polynomial hash and a number of channels that is not a power of two do not fit together.  With
  the shipped TITAN V configuration (24 channels of two sub partitions, \<open>IPOLY\<close>) the 64 values of the hash
  are folded onto 48 sub partitions: the addresses \<open>0xCC00\<close> and \<open>0xD400\<close>, of different channels before the
  hash, get the same channel, sub partition, bank, row and column and the same partition address, and
  the repository's own self test aborts on this configuration.\<close>

theorem titanv_aliases:
  "init_tables 24 2 (titanv_options IPOLY) = Inr (titanv IPOLY) \<and>
   is_ok (addrdec_tlx rnd (titanv IPOLY) 0xCC00 s) \<and>
   addrdec_tlx rnd (titanv IPOLY) 0xCC00 s = addrdec_tlx rnd (titanv IPOLY) 0xD400 s \<and>
   partition_address (titanv IPOLY) 0xCC00 = partition_address (titanv IPOLY) 0xD400 \<and>
   \<not> is_ok (sweep_test rnd (titanv IPOLY) s)"
proof (intro conjI)
  show "init_tables 24 2 (titanv_options IPOLY) = Inr (titanv IPOLY)" by (rule titanv_init)
  show "is_ok (addrdec_tlx rnd (titanv IPOLY) 0xCC00 s)" by (simp add: titanv_tlx)
  show "addrdec_tlx rnd (titanv IPOLY) 0xCC00 s = addrdec_tlx rnd (titanv IPOLY) 0xD400 s"
    by (simp add: titanv_tlx)
  show "partition_address (titanv IPOLY) 0xCC00 = partition_address (titanv IPOLY) 0xD400"
    by (simp add: partition_address_def stitch_def shr64_def shl64_def low_mask_def)
  let ?f = "\<lambda>a. map_sum id fst (addrdec_tlx rnd (titanv IPOLY) a s)"
  have f: "addrdec_tlx rnd (titanv IPOLY) a s' = map_sum id (\<lambda>x. (x, s')) (?f a)" for a s'
  proof -
    have "addrdec_tlx rnd (titanv IPOLY) a s' = map_sum id (\<lambda>(x, _). (x, s')) (addrdec_tlx rnd (titanv IPOLY) a s)"
      by (cases "tlx_fields (titanv IPOLY) a")
        (auto simp: addrdec_tlx_def Let_def set_by_id_def ipoly_hash_function_def check_def split: if_splits)
    then show ?thesis by (cases "addrdec_tlx rnd (titanv IPOLY) a s") (auto simp: split_beta)
  qed
  have in_sweep: "of_nat (4 * k) \<in> set sweep_addrs" if "1 \<le> k" "k < 4194304" for k
  proof -
    have "k \<in> set [1..<4194304]" unfolding set_upt using that by simp
    then show ?thesis unfolding sweep_addrs_def set_map by (rule imageI)
  qed
  have mem: "0xCC00 \<in> set sweep_addrs" "0xD400 \<in> set sweep_addrs"
    using in_sweep [of 13056] in_sweep [of 13568] by simp_all
  have "?f 0xCC00 = ?f 0xD400" by (simp add: titanv_tlx)
  then have "\<not> inj_on ?f (set sweep_addrs)" using mem by (auto dest: inj_onD)
  with sweep_loop_no_alias [OF f] sweep_addrs_props show "\<not> is_ok (sweep_test rnd (titanv IPOLY) s)"
    unfolding sweep_test_def is_ok_iff by blast
qed

end
