(* ===== verification/Ring_Fifo.thy ===== *)
theory Ring_Fifo
  imports Fifo_Spec
begin

text \<open>
  \<open>tex_cache::fifo\<close> of \<open>src/src/gpgpu-sim/gpu-cache.h\<close>: the ring buffer behind the four queues of
  the texture cache.  \<open>T()\<close>, the value of a slot that was never written, is an argument of the
  constructor.  Counters and indices are 32-bit words, \<open>%\<close> by a zero size is undefined.

  Shown: the ring buffer implements the \<open>bounded_fifo\<close> contract; a slot index handed out by \<open>push\<close>
  reads back the pushed element until that element is popped (the reorder buffer relies on it).
\<close>

section \<open>Model\<close>

record 'a fifo =
  ff_head :: u32
  ff_tail :: u32
  ff_num :: u32
  ff_size :: u32
  ff_data :: "'a list"

definition fifo_new :: "'a \<Rightarrow> u32 \<Rightarrow> 'a fifo" where
  "fifo_new d sz = \<lparr>ff_head = 0, ff_tail = 0, ff_num = 0, ff_size = sz,
     ff_data = replicate (unat sz) d\<rparr>"

definition fifo_full :: "'a fifo \<Rightarrow> bool" where
  "fifo_full q \<longleftrightarrow> ff_num q = ff_size q"

definition fifo_empty :: "'a fifo \<Rightarrow> bool" where
  "fifo_empty q \<longleftrightarrow> ff_num q = 0"

definition inc_head :: "'a fifo \<Rightarrow> 'a fifo res" where
  "inc_head q = defined (ff_size q \<noteq> 0)
     (Inr (q\<lparr>ff_head := (ff_head q + 1) mod ff_size q, ff_num := ff_num q + 1\<rparr>))"

definition inc_tail :: "'a fifo \<Rightarrow> 'a fifo res" where
  "inc_tail q = check (ff_num q > 0) (defined (ff_size q \<noteq> 0)
     (Inr (q\<lparr>ff_tail := (ff_tail q + 1) mod ff_size q, ff_num := ff_num q - 1\<rparr>)))"

definition fifo_push :: "'a \<Rightarrow> 'a fifo \<Rightarrow> (u32 \<times> 'a fifo) res" where
  "fifo_push e q = check (\<not> fifo_full q) (defined (unat (ff_head q) < length (ff_data q))
     (andThen (inc_head (q\<lparr>ff_data := (ff_data q)[unat (ff_head q) := e]\<rparr>))
        (\<lambda>q'. Inr (ff_head q, q'))))"

definition fifo_pop :: "'a fifo \<Rightarrow> ('a \<times> 'a fifo) res" where
  "fifo_pop q = check (\<not> fifo_empty q) (defined (unat (ff_tail q) < length (ff_data q))
     (andThen (inc_tail q) (\<lambda>q'. Inr (ff_data q ! unat (ff_tail q), q'))))"

definition fifo_peek_at :: "u32 \<Rightarrow> 'a fifo \<Rightarrow> 'a res" where
  "fifo_peek_at index q = check (index < ff_size q)
     (defined (unat index < length (ff_data q)) (Inr (ff_data q ! unat index)))"

text \<open>Assignment through the reference \<open>peek(index)\<close> returns.\<close>

definition fifo_poke_at :: "u32 \<Rightarrow> 'a \<Rightarrow> 'a fifo \<Rightarrow> 'a fifo res" where
  "fifo_poke_at index e q = check (index < ff_size q)
     (defined (unat index < length (ff_data q)) (Inr (q\<lparr>ff_data := (ff_data q)[unat index := e]\<rparr>)))"

definition fifo_peek :: "'a fifo \<Rightarrow> 'a res" where
  "fifo_peek q = defined (unat (ff_tail q) < length (ff_data q)) (Inr (ff_data q ! unat (ff_tail q)))"

definition next_pop_index :: "'a fifo \<Rightarrow> u32" where
  "next_pop_index q = ff_tail q"

section \<open>Invariant and contents\<close>

definition ff_wf :: "'a fifo \<Rightarrow> bool" where
  "ff_wf q \<longleftrightarrow> length (ff_data q) = unat (ff_size q) \<and> ff_num q \<le> ff_size q \<and>
     (ff_size q \<noteq> 0 \<longrightarrow> ff_tail q < ff_size q \<and>
        unat (ff_head q) = (unat (ff_tail q) + unat (ff_num q)) mod unat (ff_size q))"

text \<open>The slots from \<open>m_tail\<close> on, oldest first.\<close>

definition slot :: "'a fifo \<Rightarrow> nat \<Rightarrow> nat" where
  "slot q i = (unat (ff_tail q) + i) mod unat (ff_size q)"

definition ff_items :: "'a fifo \<Rightarrow> 'a list" where
  "ff_items q = map (\<lambda>i. ff_data q ! slot q i) [0..<unat (ff_num q)]"

definition fifo_put :: "'a \<Rightarrow> 'a fifo \<Rightarrow> 'a fifo res" where
  "fifo_put e q = andThen (fifo_push e q) (\<lambda>(i, q'). Inr q')"

definition fifo_get :: "'a fifo \<Rightarrow> ('a option \<times> 'a fifo) res" where
  "fifo_get q = andThen (fifo_pop q) (\<lambda>(x, q'). Inr (Some x, q'))"

lemma fifo_new_wf: "ff_wf (fifo_new d sz)"
  by (auto simp: ff_wf_def fifo_new_def word_gt_0)

lemma fifo_new_items: "ff_items (fifo_new d sz) = []"
  by (simp add: ff_items_def fifo_new_def)

lemma mod_succ_slot:
  fixes x s :: u32
  assumes "x < s"
  shows "unat ((x + 1) mod s) = (unat x + 1) mod unat s"
proof -
  have "unat x < unat s" using assms by (simp add: word_less_nat_alt)
  then have "unat x + 1 < 2 ^ LENGTH(32)" using unat_lt [of s] by linarith
  then show ?thesis by (simp add: unat_mod_distrib unat_plus_one)
qed

lemma mod_add_inj_aux:
  fixes t i j n :: nat
  assumes "(t + i) mod n = (t + j) mod n" and "i \<le> j" and "j < n"
  shows "i = j"
proof -
  have "n dvd (t + j) - (t + i)" using assms mod_eq_dvd_iff_nat [of "t + i" "t + j" n] by simp
  then have "n dvd j - i" by simp
  moreover have "j - i < n" using assms by linarith
  ultimately have "j - i = 0" by (rule_tac ccontr) (auto dest: dvd_imp_le)
  then show ?thesis using assms(2) by simp
qed

lemma slot_inj:
  assumes "i < unat (ff_size q)" and "j < unat (ff_size q)" and "slot q i = slot q j"
  shows "i = j"
  using mod_add_inj_aux [of "unat (ff_tail q)" i "unat (ff_size q)" j]
    mod_add_inj_aux [of "unat (ff_tail q)" j "unat (ff_size q)" i] assms
  unfolding slot_def by (metis nat_le_linear)

lemma slot_lt: "ff_size q \<noteq> 0 \<Longrightarrow> slot q i < unat (ff_size q)"
  by (simp add: slot_def unat_gt_0)

section \<open>The contract\<close>

lemma fifo_push_wf:
  assumes "ff_wf q" and "\<not> fifo_full q"
  shows "\<exists>q'. fifo_push x q = Inr (ff_head q, q') \<and> ff_wf q' \<and> ff_items q' = ff_items q @ [x] \<and>
    ff_data q' = (ff_data q)[slot q (unat (ff_num q)) := x] \<and>
    ff_tail q' = ff_tail q \<and> ff_size q' = ff_size q \<and> ff_num q' = ff_num q + 1 \<and>
    unat (ff_head q) = slot q (unat (ff_num q))"
proof -
  have n: "unat (ff_num q) < unat (ff_size q)" and nz: "ff_size q \<noteq> 0"
    using assms by (auto simp: ff_wf_def fifo_full_def word_less_nat_alt [symmetric])
  have h: "unat (ff_head q) = slot q (unat (ff_num q))"
    using assms nz by (simp add: ff_wf_def slot_def)
  have hl: "ff_head q < ff_size q"
    using slot_lt [OF nz] by (simp add: word_less_nat_alt h)
  have hd: "unat (ff_head q) < length (ff_data q)"
    using hl assms(1) by (simp add: ff_wf_def word_less_nat_alt)
  have u: "unat (ff_num q + 1) = unat (ff_num q) + 1"
    using n unat_lt [of "ff_size q"] by (intro unat_plus_one) linarith
  define q' where "q' = q\<lparr>ff_data := (ff_data q)[unat (ff_head q) := x],
      ff_head := (ff_head q + 1) mod ff_size q, ff_num := ff_num q + 1\<rparr>"
  have push: "fifo_push x q = Inr (ff_head q, q')"
    using assms(2) hd nz by (simp add: fifo_push_def inc_head_def q'_def)
  have wf: "ff_wf q'"
    using assms(1) nz n hl h u
    by (simp add: ff_wf_def q'_def word_le_nat_alt mod_succ_slot mod_Suc_eq slot_def)
  have s: "slot q' i = slot q i" for i by (simp add: slot_def q'_def)
  have ne: "slot q i \<noteq> slot q (unat (ff_num q))" if "i < unat (ff_num q)" for i
    using slot_inj [of i q "unat (ff_num q)"] that n by auto
  have "ff_items q' = map (\<lambda>i. ff_data q' ! slot q i) [0..<unat (ff_num q)] @
      [ff_data q' ! slot q (unat (ff_num q))]"
    by (simp add: ff_items_def s) (simp add: q'_def u)
  also have "\<dots> = ff_items q @ [x]"
  proof -
    have "ff_data q' ! slot q i = ff_data q ! slot q i" if "i < unat (ff_num q)" for i
      using ne [OF that] by (simp add: q'_def h)
    moreover have "ff_data q' ! slot q (unat (ff_num q)) = x" using hd by (simp add: q'_def h)
    ultimately show ?thesis by (simp add: ff_items_def)
  qed
  finally show ?thesis using push wf h by (auto simp: q'_def)
qed

lemma fifo_pop_wf:
  assumes "ff_wf q" and "\<not> fifo_empty q"
  shows "\<exists>x q'. fifo_pop q = Inr (x, q') \<and> ff_wf q' \<and> ff_items q = x # ff_items q' \<and>
    ff_data q' = ff_data q \<and> ff_size q' = ff_size q \<and> x = ff_data q ! unat (ff_tail q)"
proof -
  have num: "ff_num q \<noteq> 0" and nz: "ff_size q \<noteq> 0"
    using assms by (auto simp: ff_wf_def fifo_empty_def)
  have tl: "ff_tail q < ff_size q" using assms nz by (simp add: ff_wf_def)
  have td: "unat (ff_tail q) < length (ff_data q)"
    using tl assms(1) by (simp add: ff_wf_def word_less_nat_alt)
  have u: "unat (ff_num q - 1) = unat (ff_num q) - 1" using num by (rule unat_minus_one)
  have pos: "0 < unat (ff_num q)" using num by (simp add: unat_gt_0)
  define q' where "q' = q\<lparr>ff_tail := (ff_tail q + 1) mod ff_size q, ff_num := ff_num q - 1\<rparr>"
  have pop: "fifo_pop q = Inr (ff_data q ! unat (ff_tail q), q')"
    using assms(2) td nz num
    by (simp add: fifo_pop_def inc_tail_def q'_def fifo_empty_def word_neq_0_conv [symmetric])
  have tm: "unat (ff_tail q') = (unat (ff_tail q) + 1) mod unat (ff_size q)"
    by (simp add: q'_def mod_succ_slot [OF tl])
  have "((unat (ff_tail q) + 1) mod unat (ff_size q) + (unat (ff_num q) - 1)) mod unat (ff_size q)
      = (unat (ff_tail q) + unat (ff_num q)) mod unat (ff_size q)"
    by (subst mod_add_left_eq) (use pos in simp)
  moreover have "unat (ff_tail q') < unat (ff_size q)" using nz by (simp add: tm unat_gt_0)
  ultimately have wf: "ff_wf q'"
    using assms(1) nz u pos tm
    by (auto simp: ff_wf_def q'_def word_le_nat_alt word_less_nat_alt)
  have s: "slot q' i = slot q (Suc i)" for i
    unfolding slot_def tm by (simp add: q'_def mod_simps)
  have "ff_items q = map (\<lambda>i. ff_data q ! slot q i) (0 # map Suc [0..<unat (ff_num q) - 1])"
    unfolding map_Suc_upt ff_items_def using pos by (simp add: upt_conv_Cons)
  also have "\<dots> = ff_data q ! unat (ff_tail q) # ff_items q'"
    using tl by (simp add: ff_items_def s comp_def)
      (simp add: q'_def slot_def word_less_nat_alt u)
  finally show ?thesis using pop wf by (auto simp: q'_def)
qed

interpretation ring: bounded_fifo ff_wf ff_items fifo_full "\<lambda>q. \<not> fifo_empty q" fifo_put fifo_get
proof unfold_locales
  fix q :: "'a fifo" and x
  show "\<exists>q'. fifo_put x q = Inr q' \<and> ff_wf q' \<and> ff_items q' = ff_items q @ [x]"
    if "ff_wf q" "\<not> fifo_full q" using fifo_push_wf [OF that, of x] by (auto simp: fifo_put_def)
  show "fifo_put x q = Inl Assertion" if "ff_wf q" "fifo_full q"
    using that by (simp add: fifo_put_def fifo_push_def)
  show "\<exists>r q'. fifo_get q = Inr (r, q') \<and> ff_wf q' \<and> ff_items q = opt_list r @ ff_items q'"
    if "ff_wf q" "\<not> fifo_empty q" using fifo_pop_wf [OF that] by (auto simp: fifo_get_def)
  show "fifo_get q = Inl Assertion" if "ff_wf q" "\<not> \<not> fifo_empty q"
    using that by (simp add: fifo_get_def fifo_pop_def)
qed

section \<open>Properties\<close>

text \<open>First in, first out.  From a new ring buffer of any size, every run of pushes and pops
  that violates no assertion delivers a prefix of what was pushed, in order, and holds the rest.\<close>

theorem ring_fifo_order:
  assumes "run_ops fifo_put fifo_get ops (fifo_new d sz) = Inr (out, q)"
  shows "puts ops = out @ ff_items q \<and> length (ff_items q) \<le> unat sz"
proof -
  have "ff_wf q \<and> ff_items (fifo_new d sz) @ puts ops = out @ ff_items q"
    using ring.run_order [OF fifo_new_wf assms] .
  moreover have "ff_size q = sz"
  proof -
    have "ff_size q' = ff_size q0" if "run_ops fifo_put fifo_get ops q0 = Inr (out, q')" for out q' and q0 :: "'a fifo"
      using that
      by (induction ops arbitrary: q0 out rule: puts.induct)
        (fastforce simp: res_simps fifo_put_def fifo_get_def fifo_push_def fifo_pop_def
          inc_head_def inc_tail_def)+
    from this [OF assms] show ?thesis by (simp add: fifo_new_def)
  qed
  moreover have "length (ff_items q) = unat (ff_num q)" by (simp add: ff_items_def)
  ultimately show ?thesis by (simp add: fifo_new_items ff_wf_def word_le_nat_alt)
qed

text \<open>The index \<open>push\<close> returns names the slot of the pushed element: \<open>peek(index)\<close> reads it back, and
  neither a push into a buffer that is not full nor a pop that takes an older element disturbs it.\<close>

lemma push_index_reads_back:
  assumes "ff_wf q" and "fifo_push x q = Inr (i, q')"
  shows "fifo_peek_at i q' = Inr x"
proof -
  have "\<not> fifo_full q" using assms(2) by (simp add: fifo_push_def res_simps)
  with fifo_push_wf [OF assms(1), of x] assms(2)
  have "i = ff_head q" "ff_wf q'" "ff_data q' = (ff_data q)[unat i := x]" "ff_size q' = ff_size q"
    and "unat i = slot q (unat (ff_num q))" "ff_num q' = ff_num q + 1" by auto
  moreover have nz: "ff_size q \<noteq> 0"
    using \<open>\<not> fifo_full q\<close> assms(1) by (auto simp: ff_wf_def fifo_full_def)
  moreover have "unat i < unat (ff_size q)" using slot_lt [OF nz] calculation(5) by simp
  ultimately show ?thesis using assms(1)
    by (simp add: fifo_peek_at_def ff_wf_def word_less_nat_alt)
qed

lemma push_keeps_slots:
  assumes "ff_wf q" and "fifo_push x q = Inr (i, q')" and "k < unat (ff_num q)"
  shows "slot q' k = slot q k \<and> ff_data q' ! slot q k = ff_data q ! slot q k"
proof -
  have "\<not> fifo_full q" using assms(2) by (simp add: fifo_push_def res_simps)
  with fifo_push_wf [OF assms(1), of x] assms(2)
  have "ff_data q' = (ff_data q)[slot q (unat (ff_num q)) := x]" "ff_tail q' = ff_tail q"
    "ff_size q' = ff_size q" by auto
  moreover have "unat (ff_num q) < unat (ff_size q)"
    using assms(1) \<open>\<not> fifo_full q\<close> by (auto simp: ff_wf_def fifo_full_def word_less_nat_alt [symmetric])
  then have "slot q k \<noteq> slot q (unat (ff_num q))"
    using slot_inj [of k q "unat (ff_num q)"] assms(3) by auto
  ultimately show ?thesis by (simp add: slot_def)
qed

end
