(* ===== verification/Tex_Cache.thy ===== *)
theory Tex_Cache
  imports Tag_Array Cache_Stats Ring_Fifo
begin

text \<open>
  \<open>tex_cache\<close> of \<open>gpu-cache.{h,cc}\<close>: the texture cache with its fragment FIFO, request FIFO, reorder
  buffer and result FIFO.  As for the other caches the configuration and the memory port below are
  arguments and requests live in the \<open>world\<close>.  A \<open>data_block\<close> is the optional block address it holds
  (\<open>m_valid\<close> is only ever set together with the address).  A slot of a FIFO that was never written
  has arbitrary contents in the code; here it holds a fixed entry.

  Shown: in every state the operations reach, the reorder buffer holds exactly the missing fragments in
  order and the data store will hold the block of every fragment when its turn comes, so that no
  assertion fails; results leave in the order of the accesses; a missing fetch is delivered after its reply, or
  after the replies to all its parts; an access is never answered \<open>HIT\<close>.
\<close>

section \<open>Model\<close>

record fragment_entry =
  fe_request :: mfref
  fe_cache_index :: u32
  fe_miss :: bool
  fe_data_size :: u32

record rob_entry =
  re_ready :: bool
  re_time :: u32
  re_index :: u32
  re_request :: "mfref option"
  re_block_addr :: u64

definition rob_entry_new :: rob_entry where
  "rob_entry_new = \<lparr>re_ready = False, re_time = 0, re_index = 0, re_request = None, re_block_addr = 0\<rparr>"

definition rob_entry_of :: "u32 \<Rightarrow> mfref \<Rightarrow> u64 \<Rightarrow> rob_entry" where
  "rob_entry_of i mf a = \<lparr>re_ready = False, re_time = 0, re_index = i, re_request = Some mf, re_block_addr = a\<rparr>"

record tex_extra_mf_fields =
  tx_valid :: bool
  tx_rob_index :: u32
  tx_pending_read :: u32

definition tex_extra_mf_fields_new :: "u32 \<Rightarrow> cache_config \<Rightarrow> tex_extra_mf_fields" where
  "tex_extra_mf_fields_new i c = \<lparr>tx_valid = True, tx_rob_index = i,
     tx_pending_read = (if m_mshr_type c = SECTOR_TEX_FIFO then m_line_sz c div SECTOR_SIZE else 0)\<rparr>"

record tex_cache =
  tc_tags :: tag_array
  tc_fragment_fifo :: "fragment_entry fifo"
  tc_request_fifo :: "mfref fifo"
  tc_rob :: "rob_entry fifo"
  tc_cache :: "u64 option list"
  tc_result_fifo :: "mfref fifo"
  tc_request_queue_status :: mem_fetch_status
  tc_rob_status :: mem_fetch_status
  tc_stats :: cache_stats
  tc_extra_mf_fields :: "mfref \<rightharpoonup> tex_extra_mf_fields"

text \<open>\<open>m_fragment_fifo_entries\<close>, \<open>m_request_fifo_entries\<close> and \<open>m_rob_entries\<close> share unions with
  \<open>m_mshr_entries\<close>, \<open>m_mshr_max_merge\<close> and \<open>m_miss_queue_size\<close>.\<close>

definition tex_cache_new :: "cache_config \<Rightarrow> int \<Rightarrow> int \<Rightarrow> mem_fetch_status \<Rightarrow> mem_fetch_status \<Rightarrow> tex_cache res" where
  "tex_cache_new c core_id type_id request_status rob_status =
     andThen (tag_array_new c core_id type_id) (\<lambda>ta.
       check (m_mshr_type c = TEX_FIFO \<or> m_mshr_type c = SECTOR_TEX_FIFO)
       (check (m_write_policy c = READ_ONLY) (check (m_alloc_policy c = ON_MISS)
       (andThen (get_num_lines c) (\<lambda>n.
         Inr \<lparr>tc_tags = ta,
           tc_fragment_fifo = fifo_new \<lparr>fe_request = 0, fe_cache_index = 0, fe_miss = False, fe_data_size = 0\<rparr>
             (m_mshr_entries c),
           tc_request_fifo = fifo_new 0 (m_mshr_max_merge c),
           tc_rob = fifo_new rob_entry_new (m_miss_queue_size c),
           tc_cache = replicate (unat n) None,
           tc_result_fifo = fifo_new 0 (m_result_fifo_entries c),
           tc_request_queue_status = request_status, tc_rob_status = rob_status,
           tc_stats = cache_stats_new, tc_extra_mf_fields = Map.empty\<rparr>)))))"

definition tex_count :: "mem_fetch \<Rightarrow> cache_request_status \<Rightarrow> cache_request_status \<Rightarrow> tex_cache \<Rightarrow> tex_cache res" where
  "tex_count m probe_st access_st tc =
     (let t = type_code (get_access_type m); s = status_code (select_stats_status probe_st access_st) in
      andThen (inc_stats t s (tc_stats tc)) (\<lambda>s1.
      andThen (inc_stats_pw t s s1) (\<lambda>s2. Inr (tc\<lparr>tc_stats := s2\<rparr>))))"

text \<open>The part of \<open>access\<close> for a miss: reorder buffer, tags, request FIFO.\<close>

definition tex_access_miss :: "cache_config \<Rightarrow> mfref \<Rightarrow> u64 \<Rightarrow> u32 \<Rightarrow> u32 \<Rightarrow> cache_event list \<Rightarrow> world \<Rightarrow> tex_cache \<Rightarrow>
    (cache_event list \<times> world \<times> tex_cache) res" where
  "tex_access_miss c mf ba cache_index time events w tc =
     andThen (fifo_push (rob_entry_of cache_index mf ba) (tc_rob tc)) (\<lambda>(rob_index, rob).
     andThen (get_line_sz c) (\<lambda>line_sz.
     andThen (update_mf mf (set_data_size line_sz) w) (\<lambda>w1.
     andThen (deref mf w1) (\<lambda>m1.
     andThen (tag_fill_index c cache_index time m1 (tc_tags tc)) (\<lambda>ta.
     andThen (fifo_push mf (tc_request_fifo tc)) (\<lambda>(ri, rq).
     andThen (update_mf mf (mf_set_status (tc_request_queue_status tc) (ucast time)) w1) (\<lambda>w2.
       Inr (events @ [cache_event_of READ_REQUEST_SENT], w2,
         tc\<lparr>tc_rob := rob, tc_tags := ta, tc_request_fifo := rq,
            tc_extra_mf_fields := (tc_extra_mf_fields tc)(mf \<mapsto> tex_extra_mf_fields_new rob_index c)\<rparr>))))))))"

definition tex_access :: "cache_config \<Rightarrow> u64 \<Rightarrow> mfref \<Rightarrow> u32 \<Rightarrow> cache_event list \<Rightarrow> world \<Rightarrow> tex_cache \<Rightarrow>
    (cache_request_status \<times> cache_event list \<times> world \<times> tex_cache) res" where
  "tex_access c addr mf time events w tc =
     (if fifo_full (tc_fragment_fifo tc) \<or> fifo_full (tc_request_fifo tc) \<or> fifo_full (tc_rob tc)
      then Inr (RESERVATION_FAIL, events, w, tc)
      else andThen (deref mf w) (\<lambda>m.
        andThen (get_line_sz c) (\<lambda>line_sz. check (mf_data_size m \<le> line_sz)
        (let ba = block_addr c addr in
         andThen (tag_access_no_wb c ba time (- 1) m (tc_tags tc)) (\<lambda>(st, cache_index, ta).
         check (st \<noteq> RESERVATION_FAIL) (check (st \<noteq> HIT_RESERVED)
         (andThen (fifo_push \<lparr>fe_request = mf, fe_cache_index = cache_index, fe_miss = (st = MISS),
               fe_data_size = mf_data_size m\<rparr> (tc_fragment_fifo tc)) (\<lambda>(fi, ff).
           let tc1 = tc\<lparr>tc_tags := ta, tc_fragment_fifo := ff\<rparr> in
           andThen (if st = MISS
             then andThen (tex_access_miss c mf ba cache_index time events w tc1)
               (\<lambda>(events', w', tc2). Inr (MISS, events', w', tc2))
             else Inr (HIT_RESERVED, events, w, tc1)) (\<lambda>(cache_st, events', w', tc2).
           andThen (deref mf w') (\<lambda>m'.
           andThen (tex_count m' st cache_st tc2) (\<lambda>tc3. Inr (cache_st, events', w', tc3))))))))))))"

text \<open>\<open>cycle\<close>: first the request FIFO, then the oldest fragment.\<close>

definition tex_send :: "(u32 \<Rightarrow> bool \<Rightarrow> 'p \<Rightarrow> bool) \<Rightarrow> (mfref \<Rightarrow> 'p \<Rightarrow> 'p) \<Rightarrow> world \<Rightarrow> 'p \<Rightarrow> tex_cache \<Rightarrow>
    ('p \<times> tex_cache) res" where
  "tex_send mem_full mem_push w p tc =
     (if fifo_empty (tc_request_fifo tc) then Inr (p, tc)
      else andThen (fifo_peek (tc_request_fifo tc)) (\<lambda>mf.
        andThen (deref mf w) (\<lambda>m.
          if \<not> mem_full (mf_ctrl_size m) False p
          then andThen (fifo_pop (tc_request_fifo tc)) (\<lambda>(x, rq).
            Inr (mem_push mf p, tc\<lparr>tc_request_fifo := rq\<rparr>))
          else Inr (p, tc))))"

definition tex_retire :: "cache_config \<Rightarrow> world \<Rightarrow> tex_cache \<Rightarrow> tex_cache res" where
  "tex_retire c w tc =
     (if \<not> fifo_empty (tc_fragment_fifo tc) \<and> \<not> fifo_full (tc_result_fifo tc) then
        andThen (fifo_peek (tc_fragment_fifo tc)) (\<lambda>e.
          if fe_miss e then
            andThen (fifo_peek_at (next_pop_index (tc_rob tc)) (tc_rob tc)) (\<lambda>r.
              check (re_request r = Some (fe_request e))
              (if re_ready r then
                 check (re_index r = fe_cache_index e)
                 (defined (unat (re_index r) < length (tc_cache tc))
                 (andThen (fifo_push (fe_request e) (tc_result_fifo tc)) (\<lambda>(i, res).
                 andThen (fifo_pop (tc_rob tc)) (\<lambda>(r', rob).
                 andThen (fifo_pop (tc_fragment_fifo tc)) (\<lambda>(e', ff).
                   Inr (tc\<lparr>tc_cache := (tc_cache tc)[unat (re_index r) := Some (re_block_addr r)],
                     tc_result_fifo := res, tc_rob := rob, tc_fragment_fifo := ff\<rparr>))))))
               else Inr tc))
          else
            defined (unat (fe_cache_index e) < length (tc_cache tc))
            (check (tc_cache tc ! unat (fe_cache_index e) \<noteq> None)
            (andThen (deref (fe_request e) w) (\<lambda>m.
             check (tc_cache tc ! unat (fe_cache_index e) = Some (block_addr c (get_addr m)))
             (andThen (fifo_push (fe_request e) (tc_result_fifo tc)) (\<lambda>(i, res).
              andThen (fifo_pop (tc_fragment_fifo tc)) (\<lambda>(e', ff).
                Inr (tc\<lparr>tc_result_fifo := res, tc_fragment_fifo := ff\<rparr>))))))))
      else Inr tc)"

definition tex_cycle :: "cache_config \<Rightarrow> (u32 \<Rightarrow> bool \<Rightarrow> 'p \<Rightarrow> bool) \<Rightarrow> (mfref \<Rightarrow> 'p \<Rightarrow> 'p) \<Rightarrow> world \<Rightarrow> 'p \<Rightarrow>
    tex_cache \<Rightarrow> ('p \<times> tex_cache) res" where
  "tex_cycle c mem_full mem_push w p tc =
     andThen (tex_send mem_full mem_push w p tc) (\<lambda>(p', tc1).
     andThen (tex_retire c w tc1) (\<lambda>tc2. Inr (p', tc2)))"

text \<open>\<open>fill\<close>: with a sectored FIFO the parts of a split request are counted down first.\<close>

definition tex_fill_join :: "cache_config \<Rightarrow> mfref \<Rightarrow> world \<Rightarrow> tex_cache \<Rightarrow> (mfref option \<times> world \<times> tex_cache) res" where
  "tex_fill_join c mf w tc =
     (if m_mshr_type c = SECTOR_TEX_FIFO then
        andThen (deref mf w) (\<lambda>m.
          case mf_original_mf m of None \<Rightarrow> Inl Assertion
          | Some orig \<Rightarrow>
              (case tc_extra_mf_fields tc orig of None \<Rightarrow> Inl Assertion
               | Some e \<Rightarrow>
                   (let e1 = e\<lparr>tx_pending_read := tx_pending_read e - 1\<rparr>;
                        tc1 = tc\<lparr>tc_extra_mf_fields := (tc_extra_mf_fields tc)(orig \<mapsto> e1)\<rparr> in
                    andThen (delete_mf mf w) (\<lambda>w1.
                      Inr (if tx_pending_read e1 > 0 then None else Some orig, w1, tc1)))))
      else Inr (Some mf, w, tc))"

definition tex_fill_finish :: "cache_config \<Rightarrow> mfref \<Rightarrow> u32 \<Rightarrow> world \<Rightarrow> tex_cache \<Rightarrow> (world \<times> tex_cache) res" where
  "tex_fill_finish c mf time w tc =
     (case tc_extra_mf_fields tc mf of None \<Rightarrow> Inl Assertion
      | Some e \<Rightarrow> check (tx_valid e) (check (\<not> fifo_empty (tc_rob tc))
          (andThen (update_mf mf (mf_set_status (tc_rob_status tc) (ucast time)) w) (\<lambda>w1.
           andThen (fifo_peek_at (tx_rob_index e) (tc_rob tc)) (\<lambda>r.
           check (\<not> re_ready r)
           (andThen (fifo_poke_at (tx_rob_index e) (r\<lparr>re_ready := True, re_time := time\<rparr>) (tc_rob tc)) (\<lambda>rob.
            andThen (deref mf w1) (\<lambda>m.
            check (re_block_addr r = block_addr c (get_addr m))
              (Inr (w1, tc\<lparr>tc_rob := rob\<rparr>))))))))))"

definition tex_fill :: "cache_config \<Rightarrow> mfref \<Rightarrow> u32 \<Rightarrow> world \<Rightarrow> tex_cache \<Rightarrow> (world \<times> tex_cache) res" where
  "tex_fill c mf time w tc =
     andThen (tex_fill_join c mf w tc) (\<lambda>(joined, w1, tc1).
       case joined of None \<Rightarrow> Inr (w1, tc1) | Some mf' \<Rightarrow> tex_fill_finish c mf' time w1 tc1)"

definition tex_access_ready :: "tex_cache \<Rightarrow> bool" where
  "tex_access_ready tc \<longleftrightarrow> \<not> fifo_empty (tc_result_fifo tc)"

definition tex_next_access :: "tex_cache \<Rightarrow> (mfref \<times> tex_cache) res" where
  "tex_next_access tc = andThen (fifo_pop (tc_result_fifo tc)) (\<lambda>(mf, res). Inr (mf, tc\<lparr>tc_result_fifo := res\<rparr>))"

section \<open>The tags\<close>

text \<open>The tags of a texture cache only know lines that are absent or present.\<close>

fun clean_line :: "cache_block \<Rightarrow> bool" where
  "clean_line (Line b) \<longleftrightarrow> lb_status b = INVALID \<or> lb_status b = VALID"
| "clean_line (Sector b) = False"

definition clean_tags :: "cache_config \<Rightarrow> tag_array \<Rightarrow> bool" where
  "clean_tags c ta \<longleftrightarrow> ta_wf c ta \<and> m_cache_type c = NORMAL \<and> (\<forall>b \<in> set (ta_lines ta). clean_line b)"

lemma clean_line_at:
  assumes "clean_tags c ta" and "si < m_nset c" and "w < unat (m_assoc c)"
  obtains b where "line_at c ta si w = Line b" "lb_status b = INVALID \<or> lb_status b = VALID"
proof -
  have "clean_line (line_at c ta si w)"
    using assms line_index_lt [OF _ assms(2,3), of ta] by (auto simp: clean_tags_def line_at_def)
  then show ?thesis using that by (cases "line_at c ta si w") auto
qed

lemma clean_answer:
  assumes "clean_tags c ta" and "si < m_nset c" and "w < unat (m_assoc c)"
    and "way_answer c ta si t msk w = Some st"
  shows "st = HIT"
proof -
  obtain b where "line_at c ta si w = Line b" "lb_status b = INVALID \<or> lb_status b = VALID"
    using clean_line_at [OF assms(1-3)] .
  then show ?thesis using assms(4)
    by (auto simp: way_answer_def match_state_def match_way_def split: if_splits)
qed

lemma clean_put:
  assumes "clean_tags c ta" and "lines = (ta_lines ta)[i := Line b]" and "lb_status b = INVALID \<or> lb_status b = VALID"
  shows "clean_tags c (ta'\<lparr>ta_lines := lines\<rparr>)"
  using assms by (auto simp: clean_tags_def ta_wf_def dest!: set_update_subset_insert [THEN subsetD])

text \<open>What an access does to clean tags: a hit finds the block in the line it returns, a miss gives the
  line to the block, and the \<open>fill\<close> that follows at once makes it present.\<close>

definition tag_hit :: "cache_config \<Rightarrow> u64 \<Rightarrow> u32 \<Rightarrow> tag_array \<Rightarrow> tag_array \<Rightarrow> bool" where
  "tag_hit c addr i ta ta' \<longleftrightarrow> clean_tags c ta' \<and> \<not> is_invalid_line (ta_lines ta ! unat i) \<and>
     block_tag (ta_lines ta ! unat i) = tag c addr \<and>
     (\<exists>b. ta_lines ta' = (ta_lines ta)[unat i := b] \<and> block_tag b = tag c addr)"

definition tag_miss :: "cache_config \<Rightarrow> u64 \<Rightarrow> u32 \<Rightarrow> u32 \<Rightarrow> tag_array \<Rightarrow> tag_array \<Rightarrow> bool" where
  "tag_miss c addr time i ta ta1 \<longleftrightarrow> (\<forall>m. \<exists>ta2 b. tag_fill_index c i time m ta1 = Inr ta2 \<and> clean_tags c ta2 \<and>
     ta_lines ta2 = (ta_lines ta)[unat i := b] \<and> block_tag b = tag c addr)"

lemma tex_tag_step:
  assumes cl: "clean_tags c ta" and si: "set_index c addr = Inr si" "si < m_nset c"
    and m: "single (get_access_sector_mask mf)" and om: "m_alloc_policy c = ON_MISS"
    and ti: "times_in_range c ta si" and as: "0 < unat (m_assoc c)"
  shows "\<exists>st i ta1. tag_access_no_wb c addr time idx mf ta = Inr (st, i, ta1) \<and>
    unat i < unat (m_nset c) * unat (m_assoc c) \<and>
    (st = HIT \<and> tag_hit c addr i ta ta1 \<or> st = MISS \<and> tag_miss c addr time i ta ta1)"
proof -
  let ?m = "get_access_sector_mask mf"
  have wf: "ta_wf c ta" using cl by (simp add: clean_tags_def)
  obtain st ix where p: "probe_spec c ta si (tag c addr) ?m = Inr (st, ix)"
    using probe_spec_total [OF wf si(2) ti om] by blast
  note out = probe_spec_outcome [OF wf si(2) p]
  have "ix \<noteq> None"
  proof
    assume "ix = None"
    then have "is_reserved_line (line_at c ta si 0)" using out as by (simp add: probe_outcome_def)
    moreover obtain b where "line_at c ta si 0 = Line b" "lb_status b = INVALID \<or> lb_status b = VALID"
      using clean_line_at [OF cl si(2) as] .
    ultimately show False by auto
  qed
  then obtain w where w: "w < unat (m_assoc c)" "ix = Some (way_word c si w)"
    and ans: "way_answer c ta si (tag c addr) ?m w = Some st \<or> st = MISS" using out by (auto simp: probe_outcome_def)
  let ?i = "way_word c si w"
  note ui = way_word_unat [OF wf si(2) w(1)]
  have "unat si + 1 \<le> unat (m_nset c)" using si(2) by (simp add: word_less_nat_alt)
  then have "(unat si + 1) * unat (m_assoc c) \<le> unat (m_nset c) * unat (m_assoc c)" by (rule mult_le_mono1)
  then have lt: "unat ?i < unat (m_nset c) * unat (m_assoc c)" using w(1) by (simp add: ui line_index_def)
  obtain b where b: "line_at c ta si w = Line b" "lb_status b = INVALID \<or> lb_status b = VALID"
    using clean_line_at [OF cl si(2) w(1)] .
  have nth: "ta_lines ta ! unat ?i = Line b" using b(1) by (simp add: ui line_at_def)
  have len: "unat ?i < length (ta_lines ta)" using line_index_lt [OF wf si(2) w(1)] by (simp add: ui)
  note acc = tag_access_probe [OF wf si m p om, of time "\<lparr>ao_idx = idx, ao_wb = False, ao_evicted = no_evicted_block\<rparr>"]
  show ?thesis
  proof (cases "st = MISS")
    case True
    let ?b1 = "line_allocate (tag c addr) (block_addr c addr) time b"
    let ?ta1 = "(count_access MISS ta)\<lparr>ta_lines := (ta_lines ta)[unat ?i := Line ?b1]\<rparr>"
    have "tag_access_no_wb c addr time idx mf ta = Inr (MISS, ?i, ?ta1)"
      using True w(2) acc nth len b(2)
      by (auto simp: tag_access_no_wb_def get_block_def on_line_def evict_report_def)
    moreover have "tag_miss c addr time ?i ta ?ta1"
      unfolding tag_miss_def
    proof
      fix m'
      let ?b2 = "line_fill time ?b1"
      have "tag_fill_index c ?i time m' ?ta1 = Inr (?ta1\<lparr>ta_lines := (ta_lines ta)[unat ?i := Line ?b2]\<rparr>)"
        using om len by (simp add: tag_fill_index_def on_line_def get_block_def)
      moreover have "clean_tags c (?ta1\<lparr>ta_lines := (ta_lines ta)[unat ?i := Line ?b2]\<rparr>)"
        by (rule clean_put [OF cl refl]) (simp add: line_fill_def line_allocate_def)
      ultimately show "\<exists>ta2 b. tag_fill_index c ?i time m' ?ta1 = Inr ta2 \<and> clean_tags c ta2 \<and>
         ta_lines ta2 = (ta_lines ta)[unat ?i := b] \<and> block_tag b = tag c addr"
        by (intro exI [of _ "?ta1\<lparr>ta_lines := (ta_lines ta)[unat ?i := Line ?b2]\<rparr>"] exI [of _ "Line ?b2"])
          (simp add: line_fill_def line_allocate_def)
    qed
    ultimately show ?thesis using lt by blast
  next
    case False
    then have a: "way_answer c ta si (tag c addr) ?m w = Some st" using ans by simp
    have st: "st = HIT" by (rule clean_answer [OF cl si(2) w(1) a])
    note line = answer_line(1,2) [OF wf si(2) w(1) m a]
    let ?b1 = "b\<lparr>lb_last_access_time := ucast time\<rparr>"
    let ?ta1 = "(count_access HIT ta)\<lparr>ta_lines := (ta_lines ta)[unat ?i := Line ?b1]\<rparr>"
    have "tag_access_no_wb c addr time idx mf ta = Inr (HIT, ?i, ?ta1)"
      using st w(2) acc nth len by (simp add: tag_access_no_wb_def get_block_def on_line_def)
    moreover have "clean_tags c ?ta1" by (rule clean_put [OF cl refl]) (use b(2) in simp)
    then have "tag_hit c addr ?i ta ?ta1" using line b(1) nth by (auto simp: tag_hit_def)
    ultimately show ?thesis using lt by blast
  qed
qed

section \<open>The pipeline\<close>

text \<open>Retiring all fragments in order: what the data store will hold, if every reorder-buffer entry belongs
  to its fragment and every hit finds its block.  \<open>A\<close> gives the block address of a live request.\<close>

fun replay :: "(mfref \<Rightarrow> u64 option) \<Rightarrow> fragment_entry list \<Rightarrow> rob_entry list \<Rightarrow> u64 option list \<Rightarrow>
    u64 option list option" where
  "replay A [] R D = (if R = [] then Some D else None)"
| "replay A (f # F) R D =
     (let i = unat (fe_cache_index f) in
      if i < length D \<and> A (fe_request f) \<noteq> None then
        (if fe_miss f then
           (case R of [] \<Rightarrow> None
            | r # R' \<Rightarrow> if re_request r = Some (fe_request f) \<and> re_index r = fe_cache_index f
                then replay A F R' (D[i := Some (re_block_addr r)]) else None)
         else if D ! i = A (fe_request f) then replay A F R D else None)
      else None)"

lemma replay_append:
  assumes "replay A F R D = Some D1"
  shows "replay A (F @ F') (R @ R') D = replay A F' R' D1"
  using assms
proof (induction F arbitrary: R D)
  case Nil
  then show ?case by (simp split: if_splits)
next
  case (Cons f F)
  then show ?case by (auto simp: Let_def split: if_splits list.splits)
qed

lemma replay_length: "replay A F R D = Some D1 \<Longrightarrow> length D1 = length D"
  by (induction A F R D rule: replay.induct) (auto simp: Let_def split: if_splits list.splits)

text \<open>Only request, line and block of a reorder-buffer entry matter, not whether it is ready.\<close>

definition rob_key :: "rob_entry \<Rightarrow> mfref option \<times> u32 \<times> u64" where
  "rob_key r = (re_request r, re_index r, re_block_addr r)"

lemma replay_keys:
  assumes "map rob_key R = map rob_key R'"
  shows "replay A F R D = replay A F R' D"
  using assms
proof (induction F arbitrary: R R' D)
  case Nil
  then show ?case by auto
next
  case (Cons f F)
  show ?case
  proof (cases "fe_miss f")
    case False
    then show ?thesis using Cons.IH [OF Cons.prems] by (simp add: Let_def)
  next
    case True
    show ?thesis
    proof (cases R)
      case Nil
      then show ?thesis using Cons.prems by simp
    next
      case (Cons r S)
      then obtain r' S' where "R' = r' # S'" "rob_key r = rob_key r'" and k: "map rob_key S = map rob_key S'"
        using Cons.prems by (cases R') auto
      with Cons.IH [OF k] Cons True show ?thesis by (auto simp: rob_key_def Let_def)
    qed
  qed
qed

definition live_addr :: "cache_config \<Rightarrow> world \<Rightarrow> mfref \<Rightarrow> u64 option" where
  "live_addr c w r = map_option (\<lambda>m. block_addr c (get_addr m)) (w_heap w r)"

text \<open>The invariant: well-formed queues and tags, and a line that is present in the tags holds its block
  once the fragments have retired.\<close>

definition tex_data_ok :: "cache_config \<Rightarrow> world \<Rightarrow> tex_cache \<Rightarrow> bool" where
  "tex_data_ok c w tc \<longleftrightarrow> (\<exists>D. replay (live_addr c w) (ff_items (tc_fragment_fifo tc)) (ff_items (tc_rob tc))
       (tc_cache tc) = Some D \<and>
     (\<forall>i < length D. \<not> is_invalid_line (ta_lines (tc_tags tc) ! i) \<longrightarrow>
        D ! i = Some (block_tag (ta_lines (tc_tags tc) ! i))))"

text \<open>Every reorder-buffer entry can be found from its request: the recorded index names its slot.\<close>

definition tex_slots :: "cache_config \<Rightarrow> world \<Rightarrow> tex_cache \<Rightarrow> bool" where
  "tex_slots c w tc \<longleftrightarrow> (\<forall>k < length (ff_items (tc_rob tc)). \<exists>mf x.
     re_request (ff_items (tc_rob tc) ! k) = Some mf \<and> tc_extra_mf_fields tc mf = Some x \<and> tx_valid x \<and>
     unat (tx_rob_index x) = slot (tc_rob tc) k \<and> live_addr c w mf = Some (re_block_addr (ff_items (tc_rob tc) ! k)))"

definition tex_inv :: "cache_config \<Rightarrow> world \<Rightarrow> tex_cache \<Rightarrow> bool" where
  "tex_inv c w tc \<longleftrightarrow> ff_wf (tc_fragment_fifo tc) \<and> ff_wf (tc_request_fifo tc) \<and> ff_wf (tc_rob tc) \<and>
     ff_wf (tc_result_fifo tc) \<and> clean_tags c (tc_tags tc) \<and> stats_wf (tc_stats tc) \<and>
     length (tc_cache tc) = unat (m_nset c) * unat (m_assoc c) \<and>
     (\<forall>r \<in> set (ff_items (tc_request_fifo tc)). w_heap w r \<noteq> None) \<and> tex_data_ok c w tc \<and> tex_slots c w tc"

text \<open>The requests on their way, oldest first.\<close>

definition tex_pending :: "tex_cache \<Rightarrow> mfref list" where
  "tex_pending tc = ff_items (tc_result_fifo tc) @ map fe_request (ff_items (tc_fragment_fifo tc))"

lemma fifo_peek_items:
  assumes "ff_wf q" and "\<not> fifo_empty q"
  shows "\<exists>x xs q'. ff_items q = x # xs \<and> fifo_peek q = Inr x \<and> fifo_peek_at (next_pop_index q) q = Inr x \<and>
    fifo_pop q = Inr (x, q') \<and> ff_wf q' \<and> ff_items q' = xs \<and> (\<forall>k. slot q' k = slot q (Suc k))"
proof -
  obtain x q' where p: "fifo_pop q = Inr (x, q')" "ff_wf q'" "ff_items q = x # ff_items q'"
    "x = ff_data q ! unat (ff_tail q)" using fifo_pop_wf [OF assms] by blast
  have nz: "ff_size q \<noteq> 0" using assms by (auto simp: ff_wf_def fifo_empty_def)
  then have t: "ff_tail q < ff_size q" "length (ff_data q) = unat (ff_size q)" using assms(1) by (auto simp: ff_wf_def)
  have "ff_tail q' = (ff_tail q + 1) mod ff_size q" "ff_size q' = ff_size q"
    using p(1) by (auto simp: fifo_pop_def inc_tail_def res_simps)
  then have "slot q' k = slot q (Suc k)" for k
    using mod_succ_slot [OF t(1)] by (simp add: slot_def mod_simps)
  then show ?thesis using p t by (auto simp: fifo_peek_def fifo_peek_at_def next_pop_index_def word_less_nat_alt)
qed

text \<open>A new cache satisfies the invariant.\<close>

lemma tex_cache_new_inv:
  assumes "tex_cache_new c core_id type_id request_status rob_status = Inr tc" and "m_cache_type c = NORMAL"
    and "unat (m_nset c) * unat (m_assoc c) \<le> length (ta_lines (tc_tags tc))"
  shows "tex_inv c w tc"
proof -
  have t: "ta_lines (tc_tags tc) = replicate (length (ta_lines (tc_tags tc))) (Line line_cache_block_new)"
    "length (ta_lines (tc_tags tc)) < 2 ^ 32"
    using assms(1,2) unat_lt [where ?'a = 32]
    by (auto simp: tex_cache_new_def tag_array_new_def tag_array_init_def res_simps)
  have clean: "clean_line b \<and> is_invalid_line b \<and> block_wf b \<and> block_kind NORMAL b" if "b \<in> set (ta_lines (tc_tags tc))" for b
    using that t(1) by (metis in_set_replicate block_kind.simps(1) block_wf.simps(1) clean_line.simps(1)
        is_invalid_line.simps(1) line_cache_block.select_convs(4) line_cache_block_new_def)
  have tags: "clean_tags c (tc_tags tc)" using clean t(2) assms(2,3) by (auto simp: clean_tags_def ta_wf_def)
  have "unat (m_nset c * m_assoc c) = unat (m_nset c) * unat (m_assoc c)"
    using assms(3) t(2) by (simp add: unat_word_ariths)
  then have f: "length (tc_cache tc) = unat (m_nset c) * unat (m_assoc c)" "ff_wf (tc_fragment_fifo tc)" "ff_items (tc_fragment_fifo tc) = []"
    "ff_wf (tc_request_fifo tc)" "ff_items (tc_request_fifo tc) = []" "ff_wf (tc_rob tc)" "ff_items (tc_rob tc) = []"
    "ff_wf (tc_result_fifo tc)" "stats_wf (tc_stats tc)"
    using assms(1) by (auto simp: tex_cache_new_def get_num_lines_def res_simps fifo_new_wf fifo_new_items cache_stats_new_wf)
  moreover have "tex_data_ok c w tc" using clean f assms(3) by (auto simp: tex_data_ok_def)
  ultimately show ?thesis using tags by (simp add: tex_inv_def tex_slots_def)
qed

definition tex_config :: cache_config where
  "tex_config = init_sizes (blank_config\<lparr>m_line_sz := 128, m_nset := 2, m_assoc := 2, m_mshr_type := TEX_FIFO,
     m_mshr_entries := 2, m_mshr_max_merge := 2, m_miss_queue_size := 2, m_result_fifo_entries := 2\<rparr>)"

definition test_tex :: tex_cache where
  "test_tex = \<lparr>tc_tags = small_tags,
     tc_fragment_fifo = fifo_new \<lparr>fe_request = 0, fe_cache_index = 0, fe_miss = False, fe_data_size = 0\<rparr> 2,
     tc_request_fifo = fifo_new 0 2, tc_rob = fifo_new rob_entry_new 2, tc_cache = replicate 4 None,
     tc_result_fifo = fifo_new 0 2, tc_request_queue_status = IN_L1T_MISS_QUEUE,
     tc_rob_status = IN_SHADER_L1T_ROB, tc_stats = cache_stats_new, tc_extra_mf_fields = Map.empty\<rparr>"

lemmas tex_config_simps = tex_config_def init_sizes_def blank_config_def

lemma test_tex_new: "tex_cache_new tex_config 0 0 IN_L1T_MISS_QUEUE IN_SHADER_L1T_ROB = Inr test_tex"
  by (simp add: tex_cache_new_def tag_array_new_def get_max_num_lines_def get_num_lines_def tex_config_simps
    test_tex_def small_tags_def MAX_DEFAULT_CACHE_SIZE_MULTIBLIER_def)

definition tex_world :: world where
  "tex_world = \<lparr>w_heap = [0 \<mapsto> test_fetch 0x100 False], w_next = 1, w_next_mf_request_uid = 2, w_next_access_uid = 2,
     gpu_tot_sim_cycle = 0, gpu_sim_cycle = 0\<rparr>"

lemma test_tex_inv: "tex_inv tex_config w test_tex"
  by (rule tex_cache_new_inv [OF test_tex_new]) (simp_all add: tex_config_simps test_tex_def small_tags_def tag_array_init_def)

section \<open>Cycles\<close>

lemma tex_send_ok:
  assumes "tex_inv c w tc"
  shows "\<exists>p' rq. tex_send mem_full mem_push w p tc = Inr (p', tc\<lparr>tc_request_fifo := rq\<rparr>) \<and>
    tex_inv c w (tc\<lparr>tc_request_fifo := rq\<rparr>)"
proof (cases "fifo_empty (tc_request_fifo tc)")
  case True
  then show ?thesis using assms by (intro exI [of _ p] exI [of _ "tc_request_fifo tc"]) (simp add: tex_send_def)
next
  case False
  then obtain x xs q' where q: "ff_items (tc_request_fifo tc) = x # xs" "fifo_peek (tc_request_fifo tc) = Inr x"
    "fifo_pop (tc_request_fifo tc) = Inr (x, q')" "ff_wf q'" "ff_items q' = xs"
    using fifo_peek_items [of "tc_request_fifo tc"] assms by (auto simp: tex_inv_def)
  obtain m where m: "w_heap w x = Some m" using assms q(1) by (auto simp: tex_inv_def)
  have inv: "tex_inv c w (tc\<lparr>tc_request_fifo := q'\<rparr>)"
    using assms q by (auto simp: tex_inv_def tex_data_ok_def tex_slots_def)
  show ?thesis
  proof (cases "mem_full (mf_ctrl_size m) False p")
    case True
    then show ?thesis using assms False q m
      by (intro exI [of _ p] exI [of _ "tc_request_fifo tc"]) (simp add: tex_send_def deref_def)
  next
    case sent: False
    then show ?thesis using inv False q m
      by (intro exI [of _ "mem_push x p"] exI [of _ q']) (simp add: tex_send_def deref_def)
  qed
qed

lemma tex_retire_ok:
  assumes "tex_inv c w tc"
  shows "\<exists>tc'. tex_retire c w tc = Inr tc' \<and> tex_inv c w tc' \<and> tex_pending tc' = tex_pending tc"
proof (cases "\<not> fifo_empty (tc_fragment_fifo tc) \<and> \<not> fifo_full (tc_result_fifo tc)")
  case False
  then have "tex_retire c w tc = Inr tc" by (auto simp: tex_retire_def)
  then show ?thesis using assms by simp
next
  case go: True
  obtain e F ff where f: "ff_items (tc_fragment_fifo tc) = e # F" "fifo_peek (tc_fragment_fifo tc) = Inr e"
    "fifo_pop (tc_fragment_fifo tc) = Inr (e, ff)" "ff_wf ff" "ff_items ff = F"
    using fifo_peek_items [of "tc_fragment_fifo tc"] assms go by (auto simp: tex_inv_def)
  obtain ri res where r: "fifo_push (fe_request e) (tc_result_fifo tc) = Inr (ri, res)" "ff_wf res"
    "ff_items res = ff_items (tc_result_fifo tc) @ [fe_request e]"
    using fifo_push_wf [of "tc_result_fifo tc" "fe_request e"] assms go by (auto simp: tex_inv_def)
  obtain D where D: "replay (live_addr c w) (e # F) (ff_items (tc_rob tc)) (tc_cache tc) = Some D"
    "\<forall>i < length D. \<not> is_invalid_line (ta_lines (tc_tags tc) ! i) \<longrightarrow>
        D ! i = Some (block_tag (ta_lines (tc_tags tc) ! i))"
    using assms f(1) by (auto simp: tex_inv_def tex_data_ok_def)
  have idx: "unat (fe_cache_index e) < length (tc_cache tc)" "live_addr c w (fe_request e) \<noteq> None"
    using D(1) by (auto simp: Let_def split: if_splits)
  show ?thesis
  proof (cases "fe_miss e")
    case True
    then obtain x R where x: "ff_items (tc_rob tc) = x # R" "re_request x = Some (fe_request e)"
      "re_index x = fe_cache_index e"
      "replay (live_addr c w) F R ((tc_cache tc)[unat (fe_cache_index e) := Some (re_block_addr x)]) = Some D"
      using D(1) idx by (auto simp: Let_def split: list.splits if_splits)
    have "\<not> fifo_empty (tc_rob tc)" using x(1) by (auto simp: fifo_empty_def ff_items_def)
    then obtain rob where rob: "fifo_peek_at (next_pop_index (tc_rob tc)) (tc_rob tc) = Inr x"
      "fifo_pop (tc_rob tc) = Inr (x, rob)" "ff_wf rob" "ff_items rob = R" "\<forall>k. slot rob k = slot (tc_rob tc) (Suc k)"
      using fifo_peek_items [of "tc_rob tc"] assms x(1) by (auto simp: tex_inv_def)
    show ?thesis
    proof (cases "re_ready x")
      case ready: True
      let ?tc = "tc\<lparr>tc_cache := (tc_cache tc)[unat (re_index x) := Some (re_block_addr x)],
          tc_result_fifo := res, tc_rob := rob, tc_fragment_fifo := ff\<rparr>"
      have "tex_slots c w ?tc"
        using assms rob(4,5) x(1) by (fastforce simp: tex_inv_def tex_slots_def)
      moreover have "tex_retire c w tc = Inr ?tc" using ready go f r True rob x idx by (simp add: tex_retire_def)
      ultimately show ?thesis using f r True rob x idx assms D(2)
        by (auto simp: tex_inv_def tex_data_ok_def tex_pending_def)
    next
      case False
      then show ?thesis using go f True rob x assms by (simp add: tex_retire_def)
    qed
  next
    case False
    then have h: "tc_cache tc ! unat (fe_cache_index e) = live_addr c w (fe_request e)"
      "replay (live_addr c w) F (ff_items (tc_rob tc)) (tc_cache tc) = Some D"
      using D(1) by (auto simp: Let_def split: if_splits)
    obtain m where "w_heap w (fe_request e) = Some m" using idx(2) by (auto simp: live_addr_def)
    moreover have "tex_slots c w (tc\<lparr>tc_result_fifo := res, tc_fragment_fifo := ff\<rparr>)"
      using assms by (simp add: tex_inv_def tex_slots_def)
    ultimately show ?thesis using go f r False h idx assms D(2)
      by (auto simp: tex_retire_def tex_inv_def tex_data_ok_def tex_pending_def live_addr_def deref_def)
  qed
qed

text \<open>C33: a cycle of the texture cache never fails.  In every state that satisfies the invariant of the
  pipeline, \<open>cycle\<close> violates no assertion (the head of the reorder buffer belongs to the oldest missing
  fragment and to the same line, and a hit finds its own block in the data store), keeps the invariant,
  and neither loses nor reorders a request, whatever the memory port answers.\<close>

theorem tex_cycle_safe:
  assumes "tex_inv c w tc"
  shows "\<exists>p' tc'. tex_cycle c mem_full mem_push w p tc = Inr (p', tc') \<and> tex_inv c w tc' \<and>
    tex_pending tc' = tex_pending tc"
proof -
  obtain p' rq where s: "tex_send mem_full mem_push w p tc = Inr (p', tc\<lparr>tc_request_fifo := rq\<rparr>)"
    "tex_inv c w (tc\<lparr>tc_request_fifo := rq\<rparr>)" using tex_send_ok [OF assms, of mem_full mem_push p] by blast
  obtain tc' where "tex_retire c w (tc\<lparr>tc_request_fifo := rq\<rparr>) = Inr tc'" "tex_inv c w tc'"
    "tex_pending tc' = tex_pending (tc\<lparr>tc_request_fifo := rq\<rparr>)" using tex_retire_ok [OF s(2)] by blast
  with s(1) show ?thesis by (simp add: tex_cycle_def tex_pending_def)
qed

theorem tex_cycle_safe_witness:
  "\<exists>p' tc'. tex_cycle tex_config (\<lambda>_ _ _. False) (#) tex_world [] test_tex = Inr (p', tc') \<and>
    tex_inv tex_config tex_world tc'"
  using tex_cycle_safe [OF test_tex_inv, of "\<lambda>_ _ _. False" "(#)" tex_world "[]"] by blast

section \<open>Accesses\<close>

lemma tex_count_ok:
  assumes "stats_wf (tc_stats tc)"
  shows "\<exists>s. tex_count m a b tc = Inr (tc\<lparr>tc_stats := s\<rparr>) \<and> stats_wf s"
proof -
  let ?t = "type_code (get_access_type m)" and ?s = "status_code (select_stats_status a b)"
  obtain s1 where s1: "inc_stats ?t ?s (tc_stats tc) = Inr s1" by (simp add: inc_stats_def enum_codes_valid)
  obtain s2 where s2: "inc_stats_pw ?t ?s s1 = Inr s2" by (simp add: inc_stats_pw_def enum_codes_valid)
  have "stats_wf s2" using inc_stats_pw_wf [OF inc_stats_wf [OF assms s1] s2] .
  with s1 s2 show ?thesis by (intro exI [of _ s2]) (simp add: tex_count_def Let_def)
qed

lemma live_addr_update:
  assumes "w_heap w r = Some m" and "get_addr m' = get_addr m"
  shows "live_addr c (w\<lparr>w_heap := (w_heap w)(r \<mapsto> m')\<rparr>) = live_addr c w"
  using assms by (auto simp: live_addr_def)

text \<open>A hit appends a fragment whose block the line will hold; a miss appends the entry that puts it there.\<close>

lemma tex_data_hit:
  assumes "tex_data_ok c w tc" and "tag_hit c (block_addr c a) i (tc_tags tc) ta" and "unat i < length (tc_cache tc)"
    and "w_heap w mf = Some m" and "get_addr m = a" and "length (tc_cache tc) \<le> length (ta_lines (tc_tags tc))"
    and "ff_items ff = ff_items (tc_fragment_fifo tc) @ [\<lparr>fe_request = mf, fe_cache_index = i, fe_miss = False, fe_data_size = d\<rparr>]"
  shows "tex_data_ok c w (tc\<lparr>tc_tags := ta, tc_fragment_fifo := ff\<rparr>)"
proof -
  obtain D where D: "replay (live_addr c w) (ff_items (tc_fragment_fifo tc)) (ff_items (tc_rob tc)) (tc_cache tc) = Some D"
    "\<forall>i < length D. \<not> is_invalid_line (ta_lines (tc_tags tc) ! i) \<longrightarrow> D ! i = Some (block_tag (ta_lines (tc_tags tc) ! i))"
    using assms(1) by (auto simp: tex_data_ok_def)
  have len: "length D = length (tc_cache tc)" using replay_length [OF D(1)] .
  obtain b where h: "\<not> is_invalid_line (ta_lines (tc_tags tc) ! unat i)" "block_tag (ta_lines (tc_tags tc) ! unat i) = block_addr c a"
    "ta_lines ta = (ta_lines (tc_tags tc))[unat i := b]" "block_tag b = block_addr c a"
    using assms(2) by (auto simp: tag_hit_def block_addr_idem tag_block_addr)
  have "D ! unat i = Some (block_addr c a)" using D(2) h(1,2) assms(3) len by simp
  then have "replay (live_addr c w) (ff_items ff) (ff_items (tc_rob tc)) (tc_cache tc) = Some D"
    using replay_append [OF D(1), of "[\<lparr>fe_request = mf, fe_cache_index = i, fe_miss = False, fe_data_size = d\<rparr>]" "[]"]
      assms(3-5,7) len by (simp add: live_addr_def Let_def)
  moreover have "D ! j = Some (block_tag (ta_lines ta ! j))" if "j < length D" "\<not> is_invalid_line (ta_lines ta ! j)" for j
    using that D(2) h \<open>D ! unat i = Some (block_addr c a)\<close> assms(6) len by (cases "j = unat i") auto
  ultimately show ?thesis by (auto simp: tex_data_ok_def)
qed

lemma tex_data_miss:
  assumes "tex_data_ok c w tc" and "ta_lines ta = (ta_lines (tc_tags tc))[unat i := b]" and "block_tag b = ba"
    and "unat i < length (tc_cache tc)" and "w_heap w mf = Some m"
    and "length (tc_cache tc) \<le> length (ta_lines (tc_tags tc))"
    and "ff_items ff = ff_items (tc_fragment_fifo tc) @ [\<lparr>fe_request = mf, fe_cache_index = i, fe_miss = True, fe_data_size = d\<rparr>]"
    and "ff_items rob = ff_items (tc_rob tc) @ [rob_entry_of i mf ba]"
    and "tc_tags tc' = ta" and "tc_fragment_fifo tc' = ff" and "tc_rob tc' = rob" and "tc_cache tc' = tc_cache tc"
  shows "tex_data_ok c w tc'"
proof -
  obtain D where D: "replay (live_addr c w) (ff_items (tc_fragment_fifo tc)) (ff_items (tc_rob tc)) (tc_cache tc) = Some D"
    "\<forall>i < length D. \<not> is_invalid_line (ta_lines (tc_tags tc) ! i) \<longrightarrow> D ! i = Some (block_tag (ta_lines (tc_tags tc) ! i))"
    using assms(1) by (auto simp: tex_data_ok_def)
  have len: "length D = length (tc_cache tc)" using replay_length [OF D(1)] .
  have "replay (live_addr c w) (ff_items ff) (ff_items rob) (tc_cache tc) = Some (D[unat i := Some ba])"
    using replay_append [OF D(1), of "[\<lparr>fe_request = mf, fe_cache_index = i, fe_miss = True, fe_data_size = d\<rparr>]" "[rob_entry_of i mf ba]"]
      assms(4,5,7,8) len by (simp add: live_addr_def Let_def rob_entry_of_def)
  moreover have "D[unat i := Some ba] ! j = Some (block_tag (ta_lines ta ! j))"
    if "j < length D" "\<not> is_invalid_line (ta_lines ta ! j)" for j
    using that D(2) assms(2,3,6) len by (cases "j = unat i") auto
  ultimately show ?thesis using assms(9-12) by (auto simp: tex_data_ok_def)
qed

lemma tags_cover_cache:
  "tex_inv c w tc \<Longrightarrow> length (tc_cache tc) \<le> length (ta_lines (tc_tags tc))"
  by (simp add: tex_inv_def clean_tags_def ta_wf_def)

lemma tex_slots_push:
  assumes "tex_slots c w tc" and "Some mf \<notin> re_request ` set (ff_items (tc_rob tc))"
    and "ff_items rob = ff_items (tc_rob tc) @ [rob_entry_of i mf ba]" and "\<forall>k. slot rob k = slot (tc_rob tc) k"
    and "unat ri = slot (tc_rob tc) (length (ff_items (tc_rob tc)))" and "live_addr c w mf = Some ba"
    and "live_addr c w' = live_addr c w" and "tc_rob tc' = rob"
    and "tc_extra_mf_fields tc' = (tc_extra_mf_fields tc)(mf \<mapsto> tex_extra_mf_fields_new ri c)"
  shows "tex_slots c w' tc'"
  unfolding tex_slots_def assms(7-9)
proof (intro allI impI)
  let ?q = "ff_items (tc_rob tc)"
  fix k assume "k < length (ff_items rob)"
  then consider "k < length ?q" | "k = length ?q" using assms(3) by (auto simp: less_Suc_eq)
  then show "\<exists>mf' x. re_request (ff_items rob ! k) = Some mf' \<and>
      ((tc_extra_mf_fields tc)(mf \<mapsto> tex_extra_mf_fields_new ri c)) mf' = Some x \<and> tx_valid x \<and>
      unat (tx_rob_index x) = slot rob k \<and> live_addr c w mf' = Some (re_block_addr (ff_items rob ! k))"
  proof cases
    case 1
    then obtain mf' x where x: "re_request (?q ! k) = Some mf'" "tc_extra_mf_fields tc mf' = Some x" "tx_valid x"
      "unat (tx_rob_index x) = slot (tc_rob tc) k" "live_addr c w mf' = Some (re_block_addr (?q ! k))"
      using assms(1) unfolding tex_slots_def by blast
    have "?q ! k \<in> set ?q" using 1 by simp
    then have "mf' \<noteq> mf" using x(1) assms(2) by force
    with x 1 show ?thesis using assms(3,4) by (intro exI [of _ mf'] exI [of _ x]) (simp add: nth_append)
  next
    case 2
    then show ?thesis using assms(3-6)
      by (intro exI [of _ mf] exI [of _ "tex_extra_mf_fields_new ri c"]) (simp add: rob_entry_of_def tex_extra_mf_fields_new_def)
  qed
qed

text \<open>The miss branch, from the state with the new fragment.\<close>

lemma tex_access_miss_ok:
  assumes inv: "tex_inv c w tc" and m: "w_heap w mf = Some m" and v: "m_valid c"
    and t: "tag_miss c ba time i (tc_tags tc) ta" "tag c ba = ba" and i: "unat i < length (tc_cache tc)"
    and nf: "\<not> fifo_full (tc_request_fifo tc)" "\<not> fifo_full (tc_rob tc)"
    and fr: "Some mf \<notin> re_request ` set (ff_items (tc_rob tc))" and ga: "block_addr c (get_addr m) = ba"
    and ff: "ff_wf ff" "ff_items ff = ff_items (tc_fragment_fifo tc) @
      [\<lparr>fe_request = mf, fe_cache_index = i, fe_miss = True, fe_data_size = d\<rparr>]"
  shows "\<exists>ev w' tc'. tex_access_miss c mf ba i time events w (tc\<lparr>tc_tags := ta, tc_fragment_fifo := ff\<rparr>) = Inr (ev, w', tc') \<and>
    tex_inv c w' tc' \<and> tc_fragment_fifo tc' = ff \<and> tc_result_fifo tc' = tc_result_fifo tc \<and>
    (\<exists>m'. w_heap w' mf = Some m')"
proof -
  obtain ri rob where rob: "fifo_push (rob_entry_of i mf ba) (tc_rob tc) = Inr (ri, rob)" "ff_wf rob"
    "ff_items rob = ff_items (tc_rob tc) @ [rob_entry_of i mf ba]" "\<forall>k. slot rob k = slot (tc_rob tc) k"
    "unat ri = slot (tc_rob tc) (length (ff_items (tc_rob tc)))"
    using fifo_push_wf [of "tc_rob tc" "rob_entry_of i mf ba"] inv nf by (auto simp: tex_inv_def slot_def ff_items_def)
  obtain qi rq where rq: "fifo_push mf (tc_request_fifo tc) = Inr (qi, rq)" "ff_wf rq"
    "ff_items rq = ff_items (tc_request_fifo tc) @ [mf]"
    using fifo_push_wf [of "tc_request_fifo tc" mf] inv nf by (auto simp: tex_inv_def)
  let ?m1 = "set_data_size (m_line_sz c) m"
  let ?m2 = "mf_set_status (tc_request_queue_status tc) (ucast time) ?m1"
  obtain ta2 b where ta2: "tag_fill_index c i time ?m1 ta = Inr ta2" "clean_tags c ta2"
    "ta_lines ta2 = (ta_lines (tc_tags tc))[unat i := b]" "block_tag b = ba"
    using t unfolding tag_miss_def by metis
  let ?w = "w\<lparr>w_heap := (w_heap w)(mf \<mapsto> ?m2)\<rparr>"
  let ?tc = "tc\<lparr>tc_rob := rob, tc_tags := ta2, tc_request_fifo := rq, tc_fragment_fifo := ff,
            tc_extra_mf_fields := (tc_extra_mf_fields tc)(mf \<mapsto> tex_extra_mf_fields_new ri c)\<rparr>"
  have e: "tex_access_miss c mf ba i time events w (tc\<lparr>tc_tags := ta, tc_fragment_fifo := ff\<rparr>) =
      Inr (events @ [cache_event_of READ_REQUEST_SENT], ?w, ?tc)"
    using rob(1) rq(1) ta2(1) m v by (simp add: tex_access_miss_def get_line_sz_def update_mf_def deref_def)
  have "tex_data_ok c w ?tc"
    using tex_data_miss [of c w tc ta2 i b ba mf m ff d rob ?tc] inv ta2(3,4) i m tags_cover_cache [OF inv] ff(2) rob(3)
    by (simp add: tex_inv_def)
  moreover have "live_addr c ?w = live_addr c w"
    by (rule live_addr_update [OF m]) (simp add: get_addr_def mf_set_status_def set_data_size_def)
  ultimately have "tex_data_ok c ?w ?tc" by (simp add: tex_data_ok_def)
  moreover have "tex_slots c ?w ?tc"
    by (rule tex_slots_push [OF _ fr rob(3-5) _ \<open>live_addr c ?w = live_addr c w\<close>])
      (use inv m ga in \<open>simp_all add: tex_inv_def live_addr_def\<close>)
  ultimately have "tex_inv c ?w ?tc" using inv ff(1) rob(2) rq(2,3) ta2(2) by (auto simp: tex_inv_def)
  with e show ?thesis by auto
qed

text \<open>An access to the texture cache never fails, and is never answered \<open>HIT\<close>.  It is refused exactly
  when the fragment FIFO, the request FIFO or the reorder buffer is full, without any change; otherwise
  it joins the end of the pipeline, also on a hit, and the invariant is kept.\<close>

theorem tex_access_safe:
  assumes "tex_inv c w tc" and "w_heap w mf = Some m" and "get_addr m = addr" and "m_valid c"
    and "mf_data_size m \<le> m_line_sz c" and "single (get_access_sector_mask m)" and "m_alloc_policy c = ON_MISS"
    and "set_index c (block_addr c addr) = Inr si" and "si < m_nset c" and "0 < unat (m_assoc c)"
    and "times_in_range c (tc_tags tc) si" and "Some mf \<notin> re_request ` set (ff_items (tc_rob tc))"
  shows "\<exists>st ev w' tc'. tex_access c addr mf time events w tc = Inr (st, ev, w', tc') \<and> tex_inv c w' tc' \<and>
    (if fifo_full (tc_fragment_fifo tc) \<or> fifo_full (tc_request_fifo tc) \<or> fifo_full (tc_rob tc)
     then st = RESERVATION_FAIL \<and> w' = w \<and> tc' = tc
     else st \<in> {MISS, HIT_RESERVED} \<and> tex_pending tc' = tex_pending tc @ [mf])"
proof (cases "fifo_full (tc_fragment_fifo tc) \<or> fifo_full (tc_request_fifo tc) \<or> fifo_full (tc_rob tc)")
  case True
  then show ?thesis using assms(1) by (simp add: tex_access_def)
next
  case nf: False
  let ?ba = "block_addr c addr"
  have cl: "clean_tags c (tc_tags tc)" and sw: "stats_wf (tc_stats tc)" and
    lc: "length (tc_cache tc) = unat (m_nset c) * unat (m_assoc c)" using assms(1) by (simp_all add: tex_inv_def)
  obtain st i ta where t: "tag_access_no_wb c ?ba time (- 1) m (tc_tags tc) = Inr (st, i, ta)"
    "unat i < unat (m_nset c) * unat (m_assoc c)"
    "st = HIT \<and> tag_hit c ?ba i (tc_tags tc) ta \<or> st = MISS \<and> tag_miss c ?ba time i (tc_tags tc) ta"
    using tex_tag_step [OF cl assms(8,9,6,7,11,10)] by blast
  let ?e = "\<lparr>fe_request = mf, fe_cache_index = i, fe_miss = (st = MISS), fe_data_size = mf_data_size m\<rparr>"
  obtain fi ff where ff: "fifo_push ?e (tc_fragment_fifo tc) = Inr (fi, ff)" "ff_wf ff"
    "ff_items ff = ff_items (tc_fragment_fifo tc) @ [?e]"
    using fifo_push_wf [of "tc_fragment_fifo tc" ?e] assms(1) nf by (auto simp: tex_inv_def)
  have d: "deref mf w = Inr m" using assms(2) by (simp add: deref_def)
  show ?thesis
  proof (cases "st = MISS")
    case True
    obtain ev w' tc' m' where a: "tex_access_miss c mf ?ba i time events w (tc\<lparr>tc_tags := ta, tc_fragment_fifo := ff\<rparr>) = Inr (ev, w', tc')"
      "tex_inv c w' tc'" "tc_fragment_fifo tc' = ff" "tc_result_fifo tc' = tc_result_fifo tc" "w_heap w' mf = Some m'"
      using tex_access_miss_ok [OF assms(1,2,4), of ?ba time i ta ff "mf_data_size m" events] t True nf ff lc tag_block_addr block_addr_idem assms(3,12) by auto
    obtain s where s: "tex_count m' MISS MISS tc' = Inr (tc'\<lparr>tc_stats := s\<rparr>)" "stats_wf s"
      using tex_count_ok [of tc' m' MISS MISS] a(2) by (auto simp: tex_inv_def)
    have "tex_access c addr mf time events w tc = Inr (MISS, ev, w', tc'\<lparr>tc_stats := s\<rparr>)"
      using nf d assms(4,5) t(1) ff(1) a(1,5) s(1) True by (simp add: tex_access_def get_line_sz_def deref_def)
    moreover have "tex_inv c w' (tc'\<lparr>tc_stats := s\<rparr>)" using a(2) s(2) by (auto simp: tex_inv_def tex_data_ok_def tex_slots_def)
    ultimately show ?thesis using nf a(3,4) ff(3) by (simp add: tex_pending_def)
  next
    case False
    then have h: "st = HIT" "tag_hit c ?ba i (tc_tags tc) ta" using t(3) by auto
    let ?tc = "tc\<lparr>tc_tags := ta, tc_fragment_fifo := ff\<rparr>"
    have "tex_data_ok c w ?tc"
      using tex_data_hit [OF _ h(2) _ assms(2,3) tags_cover_cache [OF assms(1)], of ff "mf_data_size m"] assms(1) t(2) lc ff(3) False
      by (simp add: tex_inv_def)
    then have inv: "tex_inv c w ?tc" using assms(1) ff(2) h(2) by (simp add: tex_inv_def tag_hit_def tex_slots_def)
    obtain s where s: "tex_count m HIT HIT_RESERVED ?tc = Inr (?tc\<lparr>tc_stats := s\<rparr>)" "stats_wf s"
      using tex_count_ok [of ?tc m HIT HIT_RESERVED] sw by auto
    have "tex_access c addr mf time events w tc = Inr (HIT_RESERVED, events, w, ?tc\<lparr>tc_stats := s\<rparr>)"
      using nf d assms(4,5) t(1) ff(1) s(1) h(1) False by (simp add: tex_access_def get_line_sz_def)
    moreover have "tex_inv c w (?tc\<lparr>tc_stats := s\<rparr>)" using inv s(2) by (auto simp: tex_inv_def tex_data_ok_def tex_slots_def)
    ultimately show ?thesis using nf ff(3) by (simp add: tex_pending_def)
  qed
qed

lemma tex_config_facts:
  "m_valid tex_config" "m_alloc_policy tex_config = ON_MISS" "m_nset tex_config = 2" "m_assoc tex_config = 2"
  "m_line_sz tex_config = 128" "m_mshr_type tex_config = TEX_FIFO" "block_addr tex_config 0x100 = 0x100"
  "set_index tex_config 0x100 = Inr 0"
  by (simp_all add: tex_config_simps block_addr_def) code_simp

lemma tex_times: "times_in_range tex_config small_tags 0"
proof -
  have "(0 :: u64) < ucast (- 1 :: u32)" by code_simp
  then show ?thesis
    by (simp add: times_in_range_def tex_config_facts line_at_def line_index_def small_tags_def tag_array_init_def
        victim_time_def tex_config_simps line_cache_block_new_def)
qed

section \<open>Fills\<close>

lemma fifo_poke_slot:
  assumes "ff_wf q" and "k < length (ff_items q)" and "unat i = slot q k"
  shows "\<exists>q'. fifo_peek_at i q = Inr (ff_items q ! k) \<and> fifo_poke_at i x q = Inr q' \<and> ff_wf q' \<and>
    ff_items q' = (ff_items q)[k := x] \<and> (\<forall>j. slot q' j = slot q j)"
proof -
  have k: "k < unat (ff_num q)" using assms(2) by (simp add: ff_items_def)
  have nz: "ff_size q \<noteq> 0" using assms(1) k by (auto simp: ff_wf_def)
  have n: "unat (ff_num q) \<le> unat (ff_size q)" using assms(1) by (simp add: ff_wf_def word_le_nat_alt)
  have i: "i < ff_size q" "unat i < length (ff_data q)"
    using slot_lt [OF nz, of k] assms(1,3) by (auto simp: ff_wf_def word_less_nat_alt)
  let ?q = "q\<lparr>ff_data := (ff_data q)[unat i := x]\<rparr>"
  have "ff_items ?q = (ff_items q)[k := x]"
  proof (rule nth_equalityI)
    fix j assume "j < length (ff_items ?q)"
    then have j: "j < unat (ff_num q)" by (simp add: ff_items_def)
    then have "slot q j = slot q k \<longleftrightarrow> j = k" using slot_inj [of j q k] k n by auto
    moreover have "slot ?q j = slot q j" by (simp add: slot_def)
    ultimately show "ff_items ?q ! j = (ff_items q)[k := x] ! j"
      using j i(2) assms(3) by (cases "j = k") (simp_all add: ff_items_def)
  qed (simp add: ff_items_def)
  moreover have "ff_wf ?q" using assms(1) by (simp add: ff_wf_def)
  ultimately show ?thesis using i assms(3) k
    by (intro exI [of _ ?q]) (simp add: fifo_peek_at_def fifo_poke_at_def ff_items_def slot_def)
qed

lemma tex_slots_keys:
  assumes "tex_slots c w tc" and "map rob_key (ff_items rob) = map rob_key (ff_items (tc_rob tc))"
    and "\<forall>j. slot rob j = slot (tc_rob tc) j" and "live_addr c w' = live_addr c w"
  shows "tex_slots c w' (tc\<lparr>tc_rob := rob\<rparr>)"
proof -
  have l: "length (ff_items rob) = length (ff_items (tc_rob tc))" using assms(2) by (rule map_eq_imp_length_eq)
  have "re_request (ff_items rob ! k) = re_request (ff_items (tc_rob tc) ! k) \<and>
      re_block_addr (ff_items rob ! k) = re_block_addr (ff_items (tc_rob tc) ! k)" if "k < length (ff_items rob)" for k
    using arg_cong [OF assms(2), of "\<lambda>xs. xs ! k"] that l by (simp add: rob_key_def)
  then show ?thesis using assms(1,3,4) l by (simp add: tex_slots_def)
qed

text \<open>A reply makes its entry ready and changes nothing else of the pipeline.\<close>

lemma tex_fill_finish_ok:
  assumes inv: "tex_inv c w tc" and k: "k < length (ff_items (tc_rob tc))"
    and r: "ff_items (tc_rob tc) ! k = r" "re_request r = Some mf" "\<not> re_ready r"
  shows "\<exists>w' rob. tex_fill_finish c mf time w tc = Inr (w', tc\<lparr>tc_rob := rob\<rparr>) \<and> tex_inv c w' (tc\<lparr>tc_rob := rob\<rparr>) \<and>
    ff_items rob = (ff_items (tc_rob tc))[k := r\<lparr>re_ready := True, re_time := time\<rparr>]"
proof -
  obtain x where x: "tc_extra_mf_fields tc mf = Some x" "tx_valid x" "unat (tx_rob_index x) = slot (tc_rob tc) k"
    "live_addr c w mf = Some (re_block_addr r)" using inv k r unfolding tex_inv_def tex_slots_def by fastforce
  let ?r = "r\<lparr>re_ready := True, re_time := time\<rparr>"
  obtain rob where rob: "fifo_peek_at (tx_rob_index x) (tc_rob tc) = Inr r" "fifo_poke_at (tx_rob_index x) ?r (tc_rob tc) = Inr rob"
    "ff_wf rob" "ff_items rob = (ff_items (tc_rob tc))[k := ?r]" "\<forall>j. slot rob j = slot (tc_rob tc) j"
    using fifo_poke_slot [of "tc_rob tc" k "tx_rob_index x" ?r] inv k x(3) r(1) by (auto simp: tex_inv_def)
  obtain m where m: "w_heap w mf = Some m" "block_addr c (get_addr m) = re_block_addr r"
    using x(4) by (auto simp: live_addr_def)
  let ?w = "w\<lparr>w_heap := (w_heap w)(mf \<mapsto> mf_set_status (tc_rob_status tc) (ucast time) m)\<rparr>"
  have "\<not> fifo_empty (tc_rob tc)" using k by (auto simp: fifo_empty_def ff_items_def)
  then have f: "tex_fill_finish c mf time w tc = Inr (?w, tc\<lparr>tc_rob := rob\<rparr>)"
    using x(1,2) rob(1,2) r(3) m
    by (simp add: tex_fill_finish_def update_mf_def deref_def get_addr_def mf_set_status_def)
  have la: "live_addr c ?w = live_addr c w"
    by (rule live_addr_update [OF m(1)]) (simp add: get_addr_def mf_set_status_def)
  moreover have keys: "map rob_key (ff_items rob) = map rob_key (ff_items (tc_rob tc))"
    unfolding rob(4) map_update using r(1) k by (simp add: rob_key_def list_update_same_conv)
  ultimately have "tex_data_ok c ?w (tc\<lparr>tc_rob := rob\<rparr>)"
    using inv replay_keys [of "ff_items rob" "ff_items (tc_rob tc)"] by (simp add: tex_inv_def tex_data_ok_def)
  moreover have "tex_slots c ?w (tc\<lparr>tc_rob := rob\<rparr>)"
    using tex_slots_keys [OF _ keys rob(5) la] inv by (simp add: tex_inv_def)
  ultimately have "tex_inv c ?w (tc\<lparr>tc_rob := rob\<rparr>)" using inv rob(3) by (auto simp: tex_inv_def)
  with f rob(4) show ?thesis by blast
qed

text \<open>The replies to a request: itself, or with a sectored FIFO the parts it was split into, as many as it still
  waits for.  A part is live, names the request it belongs to, and is held by no queue of the cache.\<close>

definition tex_holds :: "tex_cache \<Rightarrow> mfref \<Rightarrow> bool" where
  "tex_holds tc p \<longleftrightarrow> p \<in> fe_request ` set (ff_items (tc_fragment_fifo tc)) \<or>
     Some p \<in> re_request ` set (ff_items (tc_rob tc)) \<or> p \<in> set (ff_items (tc_request_fifo tc))"

definition replies_to :: "cache_config \<Rightarrow> world \<Rightarrow> tex_cache \<Rightarrow> mfref \<Rightarrow> mfref list \<Rightarrow> bool" where
  "replies_to c w tc mf ps \<longleftrightarrow>
     (if m_mshr_type c = SECTOR_TEX_FIFO then
        ps \<noteq> [] \<and> distinct ps \<and>
        (case tc_extra_mf_fields tc mf of None \<Rightarrow> False | Some x \<Rightarrow> unat (tx_pending_read x) = length ps) \<and>
        (\<forall>p \<in> set ps. \<not> tex_holds tc p \<and> (case w_heap w p of None \<Rightarrow> False | Some m \<Rightarrow> mf_original_mf m = Some mf))
      else ps = [mf])"

lemma replay_cong:
  assumes "\<forall>f \<in> set F. A (fe_request f) = A' (fe_request f)"
  shows "replay A F R D = replay A' F R D"
  using assms by (induction A F R D rule: replay.induct) (auto simp: Let_def split: list.splits)

text \<open>Counting a part down and deleting it does not touch the pipeline.\<close>

lemma tex_join_inv:
  assumes inv: "tex_inv c w tc" and p: "\<not> tex_holds tc p" and x: "tc_extra_mf_fields tc mf = Some x"
  shows "tex_inv c (w\<lparr>w_heap := (w_heap w)(p := None)\<rparr>)
    (tc\<lparr>tc_extra_mf_fields := (tc_extra_mf_fields tc)(mf \<mapsto> x\<lparr>tx_pending_read := n\<rparr>)\<rparr>)"
proof -
  define w1 where "w1 = w\<lparr>w_heap := (w_heap w)(p := None)\<rparr>"
  let ?tc = "tc\<lparr>tc_extra_mf_fields := (tc_extra_mf_fields tc)(mf \<mapsto> x\<lparr>tx_pending_read := n\<rparr>)\<rparr>"
  have same: "live_addr c w1 q = live_addr c w q" if "q \<noteq> p" for q using that by (simp add: live_addr_def w1_def)
  have "\<forall>f \<in> set (ff_items (tc_fragment_fifo tc)). live_addr c w1 (fe_request f) = live_addr c w (fe_request f)"
    using p by (intro ballI same) (auto simp: tex_holds_def)
  from replay_cong [OF this] have "tex_data_ok c w1 ?tc" using inv by (simp add: tex_inv_def tex_data_ok_def)
  moreover have "tex_slots c w1 ?tc"
    unfolding tex_slots_def
  proof (intro allI impI)
    fix k assume "k < length (ff_items (tc_rob ?tc))"
    then have k: "k < length (ff_items (tc_rob tc))" by simp
    then obtain r y where y: "re_request (ff_items (tc_rob tc) ! k) = Some r" "tc_extra_mf_fields tc r = Some y" "tx_valid y"
      "unat (tx_rob_index y) = slot (tc_rob tc) k" "live_addr c w r = Some (re_block_addr (ff_items (tc_rob tc) ! k))"
      using inv unfolding tex_inv_def tex_slots_def by blast
    have "Some r \<in> re_request ` set (ff_items (tc_rob tc))" using k y(1) by (metis image_eqI nth_mem)
    then have "r \<noteq> p" using p by (auto simp: tex_holds_def)
    then show "\<exists>r y. re_request (ff_items (tc_rob ?tc) ! k) = Some r \<and> tc_extra_mf_fields ?tc r = Some y \<and> tx_valid y \<and>
        unat (tx_rob_index y) = slot (tc_rob ?tc) k \<and> live_addr c w1 r = Some (re_block_addr (ff_items (tc_rob ?tc) ! k))"
      using y same [of r] x by (intro exI [of _ r] exI [of _ "if r = mf then x\<lparr>tx_pending_read := n\<rparr> else y"]) auto
  qed
  moreover have "\<forall>r \<in> set (ff_items (tc_request_fifo tc)). w_heap w1 r \<noteq> None"
    using inv p by (auto simp: tex_inv_def tex_holds_def w1_def)
  ultimately show ?thesis unfolding w1_def [symmetric] using inv by (simp add: tex_inv_def)
qed

text \<open>All replies together make the entry ready.\<close>

lemma tex_fills_ok:
  assumes "tex_inv c w tc" and "k < length (ff_items (tc_rob tc))"
    and "ff_items (tc_rob tc) ! k = r" and "re_request r = Some mf" and "\<not> re_ready r"
    and "replies_to c w tc mf (map fst reps)"
  shows "\<exists>w' tc'. foldM (\<lambda>(p, time) (w, tc). tex_fill c p time w tc) reps (w, tc) = Inr (w', tc') \<and> tex_inv c w' tc' \<and>
    (\<exists>time. ff_items (tc_rob tc') = (ff_items (tc_rob tc))[k := r\<lparr>re_ready := True, re_time := time\<rparr>]) \<and>
    tc_fragment_fifo tc' = tc_fragment_fifo tc \<and> tc_result_fifo tc' = tc_result_fifo tc"
proof (cases "m_mshr_type c = SECTOR_TEX_FIFO")
  case False
  then obtain time where reps: "reps = [(mf, time)]" using assms(6) by (auto simp: replies_to_def)
  obtain w' rob where f: "tex_fill_finish c mf time w tc = Inr (w', tc\<lparr>tc_rob := rob\<rparr>)" "tex_inv c w' (tc\<lparr>tc_rob := rob\<rparr>)"
    "ff_items rob = (ff_items (tc_rob tc))[k := r\<lparr>re_ready := True, re_time := time\<rparr>]"
    using tex_fill_finish_ok [OF assms(1-5)] by blast
  have "foldM (\<lambda>(p, time) (w, tc). tex_fill c p time w tc) reps (w, tc) = Inr (w', tc\<lparr>tc_rob := rob\<rparr>)"
    using f(1) False by (simp add: reps tex_fill_def tex_fill_join_def)
  with f(2,3) show ?thesis by auto
next
  case True
  from assms show ?thesis
  proof (induction reps arbitrary: w tc)
    case Nil
    then show ?case using True by (simp add: replies_to_def)
  next
    case (Cons pt reps)
    obtain p time where pt: "pt = (p, time)" by (cases pt)
    obtain x where x: "tc_extra_mf_fields tc mf = Some x" "unat (tx_pending_read x) = Suc (length reps)"
      using Cons.prems(6) True by (auto simp: replies_to_def split: option.splits)
    obtain m where m: "w_heap w p = Some m" "mf_original_mf m = Some mf" and p: "\<not> tex_holds tc p"
      using Cons.prems(6) True pt by (auto simp: replies_to_def split: option.splits)
    let ?x = "x\<lparr>tx_pending_read := tx_pending_read x - 1\<rparr>" and ?w = "w\<lparr>w_heap := (w_heap w)(p := None)\<rparr>"
    let ?tc = "tc\<lparr>tc_extra_mf_fields := (tc_extra_mf_fields tc)(mf \<mapsto> ?x)\<rparr>"
    have inv: "tex_inv c ?w ?tc" by (rule tex_join_inv [OF Cons.prems(1) p x(1)])
    have n: "unat (tx_pending_read x - 1) = length reps"
      using x(2) by (subst unat_minus_one) (auto simp: unat_eq_zero [symmetric])
    have j: "tex_fill_join c p w tc = Inr (if reps \<noteq> [] then None else Some mf, ?w, ?tc)"
      using True m x(1) n by (auto simp: tex_fill_join_def deref_def delete_mf_def Let_def word_neq_0_conv [symmetric] unat_eq_zero [symmetric])
    show ?case
    proof (cases "reps = []")
      case last: True
      obtain w' rob where f: "tex_fill_finish c mf time ?w ?tc = Inr (w', ?tc\<lparr>tc_rob := rob\<rparr>)" "tex_inv c w' (?tc\<lparr>tc_rob := rob\<rparr>)"
        "ff_items rob = (ff_items (tc_rob ?tc))[k := r\<lparr>re_ready := True, re_time := time\<rparr>]"
        using tex_fill_finish_ok [OF inv, of k r mf time] Cons.prems(2-5) by auto
      have "foldM (\<lambda>(p, time) (w, tc). tex_fill c p time w tc) (pt # reps) (w, tc) = Inr (w', ?tc\<lparr>tc_rob := rob\<rparr>)"
        using j f(1) last by (simp add: pt tex_fill_def)
      with f(2,3) show ?thesis by auto
    next
      case more: False
      have "replies_to c ?w ?tc mf (map fst reps)"
        using Cons.prems(6) True more n pt by (auto simp: replies_to_def tex_holds_def)
      from Cons.IH [OF inv _ _ Cons.prems(4,5) this] Cons.prems(2,3) obtain w' tc' where
        i: "foldM (\<lambda>(p, time) (w, tc). tex_fill c p time w tc) reps (?w, ?tc) = Inr (w', tc')" "tex_inv c w' tc'"
          "\<exists>time. ff_items (tc_rob tc') = (ff_items (tc_rob tc))[k := r\<lparr>re_ready := True, re_time := time\<rparr>]"
          "tc_fragment_fifo tc' = tc_fragment_fifo tc" "tc_result_fifo tc' = tc_result_fifo tc" by auto
      have "foldM (\<lambda>(p, time) (w, tc). tex_fill c p time w tc) (pt # reps) (w, tc) = Inr (w', tc')"
        using j i(1) more by (simp add: pt tex_fill_def)
      with i(2-5) show ?thesis by blast
    qed
  qed
qed

lemma tex_retire_ready:
  assumes "tex_inv c w tc" and "ff_items (tc_fragment_fifo tc) = e # F" and "fe_miss e"
    and "re_ready (hd (ff_items (tc_rob tc)))" and "\<not> fifo_full (tc_result_fifo tc)" and "tex_retire c w tc = Inr tc'"
  shows "ff_items (tc_fragment_fifo tc') = F"
proof -
  obtain r R where r: "ff_items (tc_rob tc) = r # R"
    using assms(1-3) by (auto simp: tex_inv_def tex_data_ok_def Let_def split: if_splits list.splits)
  have ne: "\<not> fifo_empty (tc_fragment_fifo tc)" "\<not> fifo_empty (tc_rob tc)"
    using assms(2) r by (auto simp: fifo_empty_def ff_items_def)
  obtain ff where "fifo_peek (tc_fragment_fifo tc) = Inr e" "fifo_pop (tc_fragment_fifo tc) = Inr (e, ff)" "ff_items ff = F"
    using fifo_peek_items [OF _ ne(1)] assms(1,2) by (auto simp: tex_inv_def)
  moreover have "fifo_peek_at (next_pop_index (tc_rob tc)) (tc_rob tc) = Inr r"
    using fifo_peek_items [OF _ ne(2)] assms(1) r by (auto simp: tex_inv_def)
  ultimately show ?thesis using assms(3-6) r ne(1) by (auto simp: tex_retire_def res_simps)
qed

text \<open>C34: a missing texture fetch is delivered once its data is back, with plain and with sectored FIFOs.  When
  the oldest fragment is a miss whose entry is not ready and the result FIFO has room, \<open>fill\<close> with its
  replies (the request itself under \<open>TEX_FIFO\<close>; under \<open>SECTOR_TEX_FIFO\<close> all the parts it waits for, in any
  order and at any times, none of them held by the cache) followed by one \<open>cycle\<close> succeeds and puts the
  request at the end of the result FIFO.  Parts are deleted as they arrive.\<close>

theorem tex_fill_delivers:
  assumes "tex_inv c w tc" and "ff_items (tc_fragment_fifo tc) = e # F" and "fe_miss e"
    and "\<not> re_ready (hd (ff_items (tc_rob tc)))" and "\<not> fifo_full (tc_result_fifo tc)"
    and "replies_to c w tc (fe_request e) (map fst reps)"
  shows "\<exists>w1 tc1 p' tc2. foldM (\<lambda>(r, time) (w, tc). tex_fill c r time w tc) reps (w, tc) = Inr (w1, tc1) \<and>
    tex_cycle c mem_full mem_push w1 p tc1 = Inr (p', tc2) \<and> tex_inv c w1 tc2 \<and>
    ff_items (tc_result_fifo tc2) = ff_items (tc_result_fifo tc) @ [fe_request e]"
proof -
  obtain r R where r: "ff_items (tc_rob tc) = r # R" "re_request r = Some (fe_request e)" "re_index r = fe_cache_index e"
    using assms(1-3) by (auto simp: tex_inv_def tex_data_ok_def Let_def split: if_splits list.splits)
  obtain w1 tc1 time where f: "foldM (\<lambda>(r, time) (w, tc). tex_fill c r time w tc) reps (w, tc) = Inr (w1, tc1)" "tex_inv c w1 tc1"
    "ff_items (tc_rob tc1) = r\<lparr>re_ready := True, re_time := time\<rparr> # R"
    "tc_fragment_fifo tc1 = tc_fragment_fifo tc" "tc_result_fifo tc1 = tc_result_fifo tc"
    using tex_fills_ok [OF assms(1) _ _ r(2) _ assms(6), of 0] r(1) assms(4) by auto
  obtain p' rq where s: "tex_send mem_full mem_push w1 p tc1 = Inr (p', tc1\<lparr>tc_request_fifo := rq\<rparr>)"
    "tex_inv c w1 (tc1\<lparr>tc_request_fifo := rq\<rparr>)" using tex_send_ok [OF f(2), of mem_full mem_push p] by auto
  let ?tc = "tc1\<lparr>tc_request_fifo := rq\<rparr>"
  obtain tc2 where t: "tex_retire c w1 ?tc = Inr tc2" "tex_inv c w1 tc2" "tex_pending tc2 = tex_pending ?tc"
    using tex_retire_ok [OF s(2)] by blast
  have "ff_items (tc_fragment_fifo tc2) = F"
    using tex_retire_ready [OF s(2), of e F] assms(2,3,5) f(3-5) t(1) by simp
  then show ?thesis using f s(1) t by (simp add: tex_cycle_def tex_pending_def assms(2))
qed

text \<open>The cache after a miss on line 0, waiting for the reply to request 0.\<close>

definition waiting_tex :: tex_cache where
  "waiting_tex = test_tex\<lparr>
     tc_tags := small_tags\<lparr>ta_lines := (ta_lines small_tags)[0 := Line (line_fill 7 (line_allocate 0x100 0x100 7 line_cache_block_new))]\<rparr>,
     tc_fragment_fifo := \<lparr>ff_head = 1, ff_tail = 0, ff_num = 1, ff_size = 2, ff_data = replicate 2
        \<lparr>fe_request = 0, fe_cache_index = 0, fe_miss = True, fe_data_size = 32\<rparr>\<rparr>,
     tc_rob := \<lparr>ff_head = 1, ff_tail = 0, ff_num = 1, ff_size = 2, ff_data = replicate 2 (rob_entry_of 0 0 0x100)\<rparr>,
     tc_extra_mf_fields := [0 \<mapsto> tex_extra_mf_fields_new 0 tex_config]\<rparr>"

lemma waiting_items:
  "ff_items (tc_fragment_fifo waiting_tex) = [\<lparr>fe_request = 0, fe_cache_index = 0, fe_miss = True, fe_data_size = 32\<rparr>]"
  "ff_items (tc_rob waiting_tex) = [rob_entry_of 0 0 0x100]"
  by (simp_all add: waiting_tex_def ff_items_def slot_def)

lemma waiting_tags: "clean_tags tex_config (tc_tags waiting_tex)"
proof -
  have "clean_tags tex_config small_tags" using test_tex_inv [of tex_world] by (simp add: tex_inv_def test_tex_def)
  then have "clean_tags tex_config (small_tags\<lparr>ta_lines := (ta_lines small_tags)[0 :=
      Line (line_fill 7 (line_allocate 0x100 0x100 7 line_cache_block_new))]\<rparr>)"
    by (rule clean_put [OF _ refl]) (simp add: line_fill_def line_allocate_def)
  then show ?thesis by (simp add: waiting_tex_def)
qed

lemma waiting_inv:
  assumes "live_addr tex_config w 0 = Some 0x100" and "tx_valid x" and "tx_rob_index x = 0"
  shows "tex_inv tex_config w (waiting_tex\<lparr>tc_extra_mf_fields := [0 \<mapsto> x]\<rparr>)" (is "tex_inv _ _ ?t")
proof -
  have items: "ff_items (tc_fragment_fifo ?t) = [\<lparr>fe_request = 0, fe_cache_index = 0, fe_miss = True, fe_data_size = 32\<rparr>]"
    "ff_items (tc_rob ?t) = [rob_entry_of 0 0 0x100]" by (simp_all add: waiting_items)
  have "replay (live_addr tex_config w) (ff_items (tc_fragment_fifo ?t)) (ff_items (tc_rob ?t))
      (tc_cache ?t) = Some [Some 0x100, None, None, None]"
    unfolding items
    by (simp add: assms(1) rob_entry_of_def waiting_tex_def test_tex_def numeral_eq_Suc)
  moreover have "is_invalid_line (ta_lines (tc_tags ?t) ! i)" if "i < 4" "i \<noteq> 0" for i
    using that by (simp add: waiting_tex_def small_tags_def tag_array_init_def line_cache_block_new_def)
  moreover have "block_tag (ta_lines (tc_tags ?t) ! 0) = 0x100"
    by (simp add: waiting_tex_def small_tags_def tag_array_init_def line_fill_def line_allocate_def)
  ultimately have "tex_data_ok tex_config w ?t"
    unfolding tex_data_ok_def by (intro exI [of _ "[Some 0x100, None, None, None]"]) (auto simp: less_Suc_eq)
  moreover have "tex_slots tex_config w ?t"
    by (simp add: tex_slots_def waiting_items assms rob_entry_of_def) (simp add: waiting_tex_def slot_def)
  moreover have "ff_wf (tc_fragment_fifo ?t)" "ff_wf (tc_rob ?t)"
    by (simp_all add: waiting_tex_def ff_wf_def)
  moreover have "length (tc_cache ?t) = 4" "ff_wf (tc_request_fifo ?t)" "ff_wf (tc_result_fifo ?t)"
    "stats_wf (tc_stats ?t)" "ff_items (tc_request_fifo ?t) = []"
    by (simp_all add: waiting_tex_def test_tex_def fifo_new_wf fifo_new_items cache_stats_new_wf)
  moreover have "clean_tags tex_config (tc_tags ?t)" using waiting_tags by simp
  ultimately show ?thesis by (simp add: tex_inv_def tex_config_facts)
qed

lemma tex_inv_mshr_type: "tex_inv (c\<lparr>m_mshr_type := t\<rparr>) w tc = tex_inv c w tc"
proof -
  have "live_addr (c\<lparr>m_mshr_type := t\<rparr>) w = live_addr c w" by (simp add: live_addr_def [abs_def] block_addr_def)
  then show ?thesis by (simp add: tex_inv_def clean_tags_def ta_wf_def tex_data_ok_def tex_slots_def)
qed

text \<open>The sectored configuration, with the request and its four parts.\<close>

definition sector_tex_config :: cache_config where
  "sector_tex_config = tex_config\<lparr>m_mshr_type := SECTOR_TEX_FIFO\<rparr>"

definition sector_tex_world :: world where
  "sector_tex_world = tex_world\<lparr>w_next := 5, w_heap := [0 \<mapsto> test_fetch 0x100 False,
     1 \<mapsto> (test_fetch 0x100 False)\<lparr>mf_original_mf := Some 0\<rparr>, 2 \<mapsto> (test_fetch 0x120 False)\<lparr>mf_original_mf := Some 0\<rparr>,
     3 \<mapsto> (test_fetch 0x140 False)\<lparr>mf_original_mf := Some 0\<rparr>, 4 \<mapsto> (test_fetch 0x160 False)\<lparr>mf_original_mf := Some 0\<rparr>]\<rparr>"

definition sector_waiting_tex :: tex_cache where
  "sector_waiting_tex = waiting_tex\<lparr>tc_extra_mf_fields := [0 \<mapsto> tex_extra_mf_fields_new 0 sector_tex_config]\<rparr>"

lemma sector_waiting_inv: "tex_inv sector_tex_config sector_tex_world sector_waiting_tex"
proof -
  have "live_addr tex_config sector_tex_world 0 = Some 0x100"
    by (simp add: live_addr_def sector_tex_world_def test_fetch_def get_addr_def tex_config_facts)
  then have "tex_inv tex_config sector_tex_world sector_waiting_tex"
    unfolding sector_waiting_tex_def by (rule waiting_inv) (simp_all add: tex_extra_mf_fields_new_def)
  then show ?thesis by (simp add: sector_tex_config_def tex_inv_mshr_type)
qed

theorem tex_fill_delivers_witness:
  "\<exists>w1 tc1 p' tc2. foldM (\<lambda>(r, time) (w, tc). tex_fill sector_tex_config r time w tc) [(2, 9), (1, 9), (4, 10), (3, 12)]
      (sector_tex_world, sector_waiting_tex) = Inr (w1, tc1) \<and>
    tex_cycle sector_tex_config (\<lambda>_ _ _. False) (#) w1 [] tc1 = Inr (p', tc2) \<and> ff_items (tc_result_fifo tc2) = [0]"
proof -
  have items: "ff_items (tc_fragment_fifo sector_waiting_tex) = [\<lparr>fe_request = 0, fe_cache_index = 0, fe_miss = True, fe_data_size = 32\<rparr>]"
    "ff_items (tc_rob sector_waiting_tex) = [rob_entry_of 0 0 0x100]" "ff_items (tc_request_fifo sector_waiting_tex) = []"
    by (simp_all add: sector_waiting_tex_def waiting_items) (simp add: waiting_tex_def test_tex_def fifo_new_items)
  have "\<not> fifo_full (tc_result_fifo sector_waiting_tex)" "ff_items (tc_result_fifo sector_waiting_tex) = []"
    by (simp_all add: sector_waiting_tex_def waiting_tex_def test_tex_def fifo_full_def fifo_new_def ff_items_def)
  moreover have "replies_to sector_tex_config sector_tex_world sector_waiting_tex 0
      (map fst [(2, 9 :: u32), (1, 9), (4, 10), (3, 12)])"
    by (simp add: replies_to_def tex_holds_def items rob_entry_of_def)
      (simp add: sector_waiting_tex_def sector_tex_world_def sector_tex_config_def tex_extra_mf_fields_new_def
        tex_config_facts SECTOR_SIZE_def)
  ultimately show ?thesis
    using tex_fill_delivers [OF sector_waiting_inv items(1), of "[(2, 9), (1, 9), (4, 10), (3, 12)]" "\<lambda>_ _ _. False" "(#)" "[]"]
    by (simp add: items(2) rob_entry_of_def) blast
qed

end
