(* ===== verification/Arbitration.thy ===== *)
theory Arbitration
  imports Prelude
begin

text \<open>
  \<open>memory_partition_unit::arbitration_metadata\<close> of \<open>src/src/gpgpu-sim/l2cache.{h,cc}\<close>: the credits with
  which the sub-partitions of a memory channel share the DRAM queues.  Every sub-partition has one
  private credit, the rest is shared; a limit of zero means no limit.  The C \<open>int\<close> members are integers,
  and an increment past \<open>INT_MAX\<close> is undefined; the \<open>unsigned\<close> arithmetic of the constructor wraps and
  is then read as signed, as the conversion does.  A \<open>std::vector\<close> read out of range is undefined.

  \<open>credit_pool\<close> is the contract the issue logic of the partition relies on; the model implements it.
  Shown: over any run of guarded borrows and of returns the credits stay within their limits and their
  sum is the number of requests in flight; no guarded borrow and no return of an outstanding credit
  fails; every sub-partition with nothing in flight may issue.
\<close>

section \<open>Model\<close>

text \<open>The fields of \<open>memory_config\<close> the constructor reads.\<close>

record arbitration_config =
  ac_n_sub_partition_per_memory_channel :: u32
  ac_frfcfs_dram_sched_queue_size :: u32
  ac_dram_return_queue_size :: u32
  ac_seperate_write_queue_enabled :: bool
  ac_frfcfs_dram_write_queue_size :: u32

record arbitration_metadata =
  am_last_borrower :: int
  am_shared_credit_limit :: int
  am_private_credit_limit :: int
  am_private_credit :: "int list"
  am_shared_credit :: int

definition INT_MAX :: int where "INT_MAX = 2147483647"

definition shared_limit :: "arbitration_config \<Rightarrow> int" where
  "shared_limit c =
    (let l0 = (sint (ac_frfcfs_dram_sched_queue_size c + ac_dram_return_queue_size c
                 - (ac_n_sub_partition_per_memory_channel c - 1)) :: int);
         l1 = (if ac_seperate_write_queue_enabled c
               then sint ((word_of_int l0 :: u32) + ac_frfcfs_dram_write_queue_size c) else l0)
     in if ac_frfcfs_dram_sched_queue_size c = 0 \<or> ac_dram_return_queue_size c = 0 then 0 else l1)"

definition arbitration_metadata_new :: "arbitration_config \<Rightarrow> arbitration_metadata res" where
  "arbitration_metadata_new c =
    check (shared_limit c \<ge> 0)
      (Inr \<lparr>am_last_borrower = sint (ac_n_sub_partition_per_memory_channel c - 1),
            am_shared_credit_limit = shared_limit c, am_private_credit_limit = 1,
            am_private_credit = replicate (unat (ac_n_sub_partition_per_memory_channel c)) 0,
            am_shared_credit = 0\<rparr>)"

text \<open>\<open>m_private_credit[spid]\<close>.\<close>

definition credit_slot :: "arbitration_metadata \<Rightarrow> int \<Rightarrow> bool" where
  "credit_slot a spid \<longleftrightarrow> 0 \<le> spid \<and> spid < int (length (am_private_credit a))"

definition private_of :: "arbitration_metadata \<Rightarrow> int \<Rightarrow> int" where
  "private_of a spid = am_private_credit a ! nat spid"

definition shared_left :: "arbitration_metadata \<Rightarrow> bool" where
  "shared_left a \<longleftrightarrow> am_shared_credit_limit a = 0 \<or> am_shared_credit a < am_shared_credit_limit a"

definition has_credits :: "arbitration_metadata \<Rightarrow> int \<Rightarrow> bool res" where
  "has_credits a spid =
    defined (credit_slot a spid)
      (Inr (if private_of a spid < am_private_credit_limit a then True else shared_left a))"

definition borrow_credit :: "arbitration_metadata \<Rightarrow> int \<Rightarrow> arbitration_metadata res" where
  "borrow_credit a spid =
    defined (credit_slot a spid)
      (if private_of a spid < am_private_credit_limit a
       then Inr (a\<lparr>am_private_credit := (am_private_credit a)[nat spid := private_of a spid + 1],
                    am_last_borrower := spid\<rparr>)
       else if shared_left a
       then defined (am_shared_credit a < INT_MAX)
              (Inr (a\<lparr>am_shared_credit := am_shared_credit a + 1, am_last_borrower := spid\<rparr>))
       else Inl Assertion)"

definition return_credit :: "arbitration_metadata \<Rightarrow> int \<Rightarrow> arbitration_metadata res" where
  "return_credit a spid =
    defined (credit_slot a spid)
      (let a' = (if private_of a spid > 0
                 then a\<lparr>am_private_credit := (am_private_credit a)[nat spid := private_of a spid - 1]\<rparr>
                 else a\<lparr>am_shared_credit := am_shared_credit a - 1\<rparr>)
       in check (am_shared_credit a' \<ge> 0) (Inr a'))"

text \<open>\<open>can_issue_to_dram\<close>; the argument \<open>contention\<close> is \<open>dram_L2_queue_full()\<close> of the sub-partition.\<close>

definition can_issue_to_dram :: "arbitration_metadata \<Rightarrow> bool \<Rightarrow> int \<Rightarrow> bool res" where
  "can_issue_to_dram a contention spid =
    andThen (has_credits a spid) (\<lambda>resource. Inr (resource \<and> \<not> contention))"

text \<open>The subtraction is \<open>unsigned\<close>, the result is returned as \<open>int\<close>.\<close>

definition global_sub_partition_id_to_local_id :: "u32 \<Rightarrow> u32 \<Rightarrow> u32 \<Rightarrow> int" where
  "global_sub_partition_id_to_local_id m_id n_sub global = sint (global - m_id * n_sub)"

section \<open>The contract of a credit pool\<close>

text \<open>
  The clients of a pool borrow a credit per request when they are granted one and return it when the
  request completes.  \<open>h s\<close> is the number of credits client \<open>s\<close> holds: it is not part of the pool, which
  does not record who holds a shared credit.
\<close>

datatype credit_op = Borrow nat | Return nat

fun client :: "credit_op \<Rightarrow> nat" where
  "client (Borrow s) = s"
| "client (Return s) = s"

fun credit_step :: "('p \<Rightarrow> nat \<Rightarrow> bool res) \<Rightarrow> ('p \<Rightarrow> nat \<Rightarrow> 'p res) \<Rightarrow> ('p \<Rightarrow> nat \<Rightarrow> 'p res) \<Rightarrow> credit_op \<Rightarrow>
    'p \<times> (nat \<Rightarrow> nat) \<Rightarrow> ('p \<times> (nat \<Rightarrow> nat)) res" where
  "credit_step grants borrow give (Borrow s) (p, h) =
    andThen (grants p s) (\<lambda>g. if g then andThen (borrow p s) (\<lambda>p'. Inr (p', h(s := Suc (h s)))) else Inr (p, h))"
| "credit_step grants borrow give (Return s) (p, h) =
    (if h s > 0 then andThen (give p s) (\<lambda>p'. Inr (p', h(s := h s - 1))) else Inr (p, h))"

definition credit_run :: "('p \<Rightarrow> nat \<Rightarrow> bool res) \<Rightarrow> ('p \<Rightarrow> nat \<Rightarrow> 'p res) \<Rightarrow> ('p \<Rightarrow> nat \<Rightarrow> 'p res) \<Rightarrow> credit_op list \<Rightarrow>
    'p \<times> (nat \<Rightarrow> nat) \<Rightarrow> ('p \<times> (nat \<Rightarrow> nat)) res" where
  "credit_run grants borrow give = foldM (credit_step grants borrow give)"

locale credit_pool =
  fixes valid :: "nat \<Rightarrow> 'p \<Rightarrow> (nat \<Rightarrow> nat) \<Rightarrow> bool"
    and budget :: nat
    and grants :: "'p \<Rightarrow> nat \<Rightarrow> bool res"
    and borrow :: "'p \<Rightarrow> nat \<Rightarrow> 'p res"
    and give :: "'p \<Rightarrow> nat \<Rightarrow> 'p res"
  assumes grants_defined: "valid n p h \<Longrightarrow> s < n \<Longrightarrow> \<exists>g. grants p s = Inr g"
    and first_granted: "valid n p h \<Longrightarrow> s < n \<Longrightarrow> h s = 0 \<Longrightarrow> grants p s = Inr True"
    and borrow_ok: "valid n p h \<Longrightarrow> s < n \<Longrightarrow> grants p s = Inr True \<Longrightarrow> (\<Sum>i<n. h i) < budget \<Longrightarrow>
      \<exists>p'. borrow p s = Inr p' \<and> valid n p' (h(s := Suc (h s)))"
    and give_ok: "valid n p h \<Longrightarrow> s < n \<Longrightarrow> h s > 0 \<Longrightarrow>
      \<exists>p'. give p s = Inr p' \<and> valid n p' (h(s := h s - 1))"
begin

lemma step_ok:
  assumes "valid n p h" and "client x < n" and "(\<Sum>i<n. h i) < budget"
  obtains p' h' where "credit_step grants borrow give x (p, h) = Inr (p', h')" and "valid n p' h'"
    and "(\<Sum>i<n. h' i) \<le> Suc (\<Sum>i<n. h i)"
proof (cases x)
  case (Borrow s)
  obtain g where g: "grants p s = Inr g" using grants_defined [OF assms(1)] assms(2) Borrow by auto
  have "(\<Sum>i<n. (h(s := Suc (h s))) i) = Suc (\<Sum>i<n. h i)"
    using assms(2) Borrow by (simp add: sum.remove [of _ s])
  then show thesis using borrow_ok [OF assms(1) _ _ assms(3), of s] g that assms Borrow by (cases g) auto
next
  case (Return s)
  have "(\<Sum>i<n. (h(s := h s - 1)) i) \<le> Suc (\<Sum>i<n. h i)"
    by (rule le_SucI, rule sum_mono) auto
  then show thesis using give_ok [OF assms(1), of s] that assms Return by (cases "h s = 0") auto
qed

lemma run_ok:
  assumes "valid n p h" and "\<forall>x \<in> set ops. client x < n" and "(\<Sum>i<n. h i) + length ops \<le> budget"
  shows "\<exists>p' h'. credit_run grants borrow give ops (p, h) = Inr (p', h') \<and> valid n p' h'"
  using assms
proof (induction ops arbitrary: p h)
  case (Cons x xs)
  obtain p' h' where s: "credit_step grants borrow give x (p, h) = Inr (p', h')" "valid n p' h'"
    "(\<Sum>i<n. h' i) \<le> Suc (\<Sum>i<n. h i)"
    using step_ok [of n p h x] Cons.prems by auto
  with Cons.IH [of p' h'] Cons.prems show ?case by (auto simp: credit_run_def)
qed (simp add: credit_run_def)

end

section \<open>The arbitration metadata is a credit pool\<close>

text \<open>
  A private credit in use belongs to a request of its sub-partition, and the shared credits account for
  all other requests in flight.
\<close>

definition am_valid :: "nat \<Rightarrow> arbitration_metadata \<Rightarrow> (nat \<Rightarrow> nat) \<Rightarrow> bool" where
  "am_valid n a h \<longleftrightarrow> length (am_private_credit a) = n \<and> am_private_credit_limit a = 1 \<and>
    (\<forall>i<n. 0 \<le> am_private_credit a ! i \<and> am_private_credit a ! i \<le> 1 \<and> am_private_credit a ! i \<le> int (h i)) \<and>
    (\<Sum>i<n. int (h i)) = (\<Sum>i<n. am_private_credit a ! i) + am_shared_credit a \<and>
    0 \<le> am_shared_credit a \<and> 0 \<le> am_shared_credit_limit a \<and>
    (am_shared_credit_limit a \<noteq> 0 \<longrightarrow> am_shared_credit a \<le> am_shared_credit_limit a)"

definition grants :: "arbitration_metadata \<Rightarrow> nat \<Rightarrow> bool res" where
  "grants a s = has_credits a (int s)"

definition borrow :: "arbitration_metadata \<Rightarrow> nat \<Rightarrow> arbitration_metadata res" where
  "borrow a s = borrow_credit a (int s)"

definition give_back :: "arbitration_metadata \<Rightarrow> nat \<Rightarrow> arbitration_metadata res" where
  "give_back a s = return_credit a (int s)"

lemma am_new_valid:
  assumes "arbitration_metadata_new c = Inr a"
  shows "am_valid (unat (ac_n_sub_partition_per_memory_channel c)) a (\<lambda>_. 0)"
  using assms by (auto simp: arbitration_metadata_new_def am_valid_def res_simps)

lemma sum_change:
  fixes f :: "nat \<Rightarrow> int"
  assumes "s < n"
  shows "(\<Sum>i<n. if i = s then v else f i) = (\<Sum>i<n. f i) - f s + v"
  using assms by (simp add: sum.remove [of _ s])

lemma sum_held_update:
  fixes h :: "nat \<Rightarrow> nat"
  assumes "s < n"
  shows "(\<Sum>i<n. int (if i = s then v else h i)) = (\<Sum>i<n. int (h i)) - int (h s) + int v"
  using sum_change [OF assms, of "int v" "\<lambda>i. int (h i)"] by (simp add: if_distrib [of int])

lemma sum_private_update:
  fixes xs :: "int list"
  assumes "s < n"
  shows "(\<Sum>i<n. if s = i then v else xs ! i) = (\<Sum>i<n. xs ! i) - xs ! s + v"
  using sum_change [OF assms, of v "\<lambda>i. xs ! i"] by (simp add: eq_commute)

lemmas credit_sums = sum_held_update sum_private_update nth_list_update

lemma am_grants:
  assumes "am_valid n a h" and "s < n"
  shows "grants a s = Inr (am_private_credit a ! s = 0 \<or> shared_left a)"
  using assms unfolding grants_def has_credits_def am_valid_def credit_slot_def private_of_def
  by (auto simp: order_antisym_conv)

lemma am_borrow:
  assumes "am_valid n a h" and "s < n" and "grants a s = Inr True" and "(\<Sum>i<n. h i) < nat INT_MAX"
  shows "\<exists>a'. borrow a s = Inr a' \<and> am_valid n a' (h(s := Suc (h s)))"
proof (cases "am_private_credit a ! s = 0")
  case True
  then have "borrow a s = Inr (a\<lparr>am_private_credit := (am_private_credit a)[s := 1], am_last_borrower := int s\<rparr>)"
    using assms by (simp add: borrow_def borrow_credit_def am_valid_def credit_slot_def private_of_def)
  moreover have "am_valid n (a\<lparr>am_private_credit := (am_private_credit a)[s := 1], am_last_borrower := int s\<rparr>) (h(s := Suc (h s)))"
    using assms(1,2) True by (auto simp: am_valid_def credit_sums)
  ultimately show ?thesis by blast
next
  case False
  have "(\<Sum>i<n. int (h i)) < INT_MAX" using assms(4) by (simp add: zless_nat_eq_int_zless)
  moreover have "0 \<le> (\<Sum>i<n. am_private_credit a ! i)" using assms(1) by (intro sum_nonneg) (auto simp: am_valid_def)
  ultimately have b: "am_shared_credit a < INT_MAX" using assms(1) by (simp add: am_valid_def)
  have p: "am_private_credit a ! s = 1" using assms(1,2) False by (force simp: am_valid_def)
  have l: "shared_left a" using assms(3) False am_grants [OF assms(1,2)] by simp
  have "borrow a s = Inr (a\<lparr>am_shared_credit := am_shared_credit a + 1, am_last_borrower := int s\<rparr>)"
    using assms(1,2) b p l by (simp add: borrow_def borrow_credit_def am_valid_def credit_slot_def private_of_def)
  moreover have "am_valid n (a\<lparr>am_shared_credit := am_shared_credit a + 1, am_last_borrower := int s\<rparr>) (h(s := Suc (h s)))"
    using assms(1,2) l by (auto simp: am_valid_def sum_held_update shared_left_def)
  ultimately show ?thesis by blast
qed

lemma am_give:
  assumes "am_valid n a h" and "s < n" and "h s > 0"
  shows "\<exists>a'. give_back a s = Inr a' \<and> am_valid n a' (h(s := h s - 1))"
proof (cases "am_private_credit a ! s = 0")
  case True
  have "(\<Sum>i<n. am_private_credit a ! i) < (\<Sum>i<n. int (h i))"
  proof (rule sum_strict_mono_ex1)
    show "\<exists>i\<in>{..<n}. am_private_credit a ! i < int (h i)" using assms True by (intro bexI [of _ s]) auto
  qed (use assms(1) in \<open>auto simp: am_valid_def\<close>)
  then have sh: "am_shared_credit a > 0" using assms(1) by (simp add: am_valid_def)
  then have "give_back a s = Inr (a\<lparr>am_shared_credit := am_shared_credit a - 1\<rparr>)"
    using assms(1,2) True by (simp add: give_back_def return_credit_def am_valid_def credit_slot_def private_of_def)
  with assms sh True show ?thesis by (auto simp: am_valid_def sum_held_update)
next
  case False
  have p: "am_private_credit a ! s = 1" using assms(1,2) False by (force simp: am_valid_def)
  then have "give_back a s = Inr (a\<lparr>am_private_credit := (am_private_credit a)[s := 0]\<rparr>)"
    using assms(1,2) by (simp add: give_back_def return_credit_def am_valid_def credit_slot_def private_of_def)
  with assms p show ?thesis
    by (auto simp: am_valid_def credit_sums)
qed

interpretation arb: credit_pool am_valid "nat INT_MAX" grants borrow give_back
proof unfold_locales
  fix n a h s
  assume v: "am_valid n a h" "s < n"
  then show "\<exists>g. grants a s = Inr g" using am_grants by blast
  show "grants a s = Inr True" if "h s = 0"
    using am_grants [OF v] v that by (force simp: am_valid_def)
qed (fact am_borrow am_give)+

lemma credit_run_limit:
  "credit_run grants borrow give_back ops (a, h) = Inr (a', h') \<Longrightarrow>
    am_shared_credit_limit a' = am_shared_credit_limit a"
proof (induction ops arbitrary: a h)
  case (Cons x xs)
  then obtain a1 h1 where s: "credit_step grants borrow give_back x (a, h) = Inr (a1, h1)"
    and r: "credit_run grants borrow give_back xs (a1, h1) = Inr (a', h')"
    by (auto simp: credit_run_def res_simps)
  have "am_shared_credit_limit a1 = am_shared_credit_limit a"
    using s by (cases x) (auto simp: grants_def borrow_def give_back_def borrow_credit_def return_credit_def
        res_simps Let_def split: if_splits)
  with Cons.IH [OF r] show ?case by simp
qed (simp add: credit_run_def)

section \<open>Properties\<close>

text \<open>C13: Over every sequence in which sub-partitions borrow a credit when has_credits grants one and
  return a credit for a request in flight, no assertion of arbitration_metadata fails: the credits in
  use account for exactly the requests in flight, the shared ones stay within their limit, and a
  sub-partition with no request in flight is always granted a credit, so it cannot starve.\<close>

theorem credits_account_for_requests:
  assumes "arbitration_metadata_new c = Inr a0" and "n = unat (ac_n_sub_partition_per_memory_channel c)"
    and "\<forall>x \<in> set ops. client x < n" and "length ops \<le> nat INT_MAX"
  shows "\<exists>a h. credit_run grants borrow give_back ops (a0, \<lambda>_. 0) = Inr (a, h) \<and>
    (\<Sum>s<n. int (h s)) = sum_list (am_private_credit a) + am_shared_credit a \<and>
    0 \<le> am_shared_credit a \<and> (shared_limit c \<noteq> 0 \<longrightarrow> am_shared_credit a \<le> shared_limit c) \<and>
    (\<forall>s<n. h s = 0 \<longrightarrow> has_credits a (int s) = Inr True)"
proof -
  have v0: "am_valid n a0 (\<lambda>_. 0)" using am_new_valid [OF assms(1)] assms(2) by simp
  obtain a h where r: "credit_run grants borrow give_back ops (a0, \<lambda>_. 0) = Inr (a, h)" and v: "am_valid n a h"
    using arb.run_ok [OF v0 assms(3)] assms(4) by auto
  have "am_shared_credit_limit a = shared_limit c"
    using credit_run_limit [OF r] assms(1) by (auto simp: arbitration_metadata_new_def res_simps)
  moreover have "sum_list (am_private_credit a) = (\<Sum>i<n. am_private_credit a ! i)"
    using v by (simp add: sum_list_sum_nth atLeast0LessThan am_valid_def)
  ultimately show ?thesis using r v arb.first_granted [OF v] by (auto simp: am_valid_def grants_def)
qed

definition test_arbitration :: arbitration_config where
  "test_arbitration = \<lparr>ac_n_sub_partition_per_memory_channel = 2, ac_frfcfs_dram_sched_queue_size = 2,
     ac_dram_return_queue_size = 1, ac_seperate_write_queue_enabled = False,
     ac_frfcfs_dram_write_queue_size = 0\<rparr>"

theorem credits_account_for_requests_witness:
  "\<exists>a h. credit_run grants borrow give_back [Borrow 0, Borrow 0, Borrow 0, Borrow 1, Return 0]
      (\<lparr>am_last_borrower = 1, am_shared_credit_limit = 2, am_private_credit_limit = 1,
        am_private_credit = [0, 0], am_shared_credit = 0\<rparr>, \<lambda>_. 0) = Inr (a, h) \<and>
    (\<Sum>s<2. int (h s)) = sum_list (am_private_credit a) + am_shared_credit a \<and>
    0 \<le> am_shared_credit a \<and> (shared_limit test_arbitration \<noteq> 0 \<longrightarrow> am_shared_credit a \<le> shared_limit test_arbitration) \<and>
    (\<forall>s<2. h s = 0 \<longrightarrow> has_credits a (int s) = Inr True)"
proof -
  have l: "shared_limit test_arbitration = 2" by (simp add: shared_limit_def test_arbitration_def)
  have "arbitration_metadata_new test_arbitration =
    Inr \<lparr>am_last_borrower = 1, am_shared_credit_limit = 2, am_private_credit_limit = 1,
        am_private_credit = [0, 0], am_shared_credit = 0\<rparr>"
    by (simp add: arbitration_metadata_new_def l) (simp add: test_arbitration_def, simp add: numeral_2_eq_2)
  from credits_account_for_requests [OF this, of 2 "[Borrow 0, Borrow 0, Borrow 0, Borrow 1, Return 0]"]
  show ?thesis by (simp add: test_arbitration_def INT_MAX_def)
qed

text \<open>Returning a credit nobody borrowed fails the assertion.\<close>

lemma return_without_borrow:
  assumes "am_valid n a (\<lambda>_. 0)" and "s < n"
  shows "give_back a s = Inl Assertion"
proof -
  have "am_private_credit a ! s = 0" using assms by (force simp: am_valid_def)
  moreover have "(\<Sum>i<n. am_private_credit a ! i) = 0"
    using assms(1) by (intro sum.neutral) (force simp: am_valid_def)
  ultimately show ?thesis
    using assms by (simp add: give_back_def return_credit_def am_valid_def credit_slot_def private_of_def)
qed

end
