(* ===== verification/Doubles.thy ===== *)
theory Doubles
  imports Prelude Complex_Main "HOL-Library.Log_Nat"
begin

text \<open>
  The \<open>double\<close>s of \<open>generate_shannon_codes\<close>: conversion of an integer and division round to the nearest
  number of 53 significant bits, ties to the even significand (\<open>to_double\<close>; the exponents that occur lie
  between -64 and 64, so neither overflow nor subnormal numbers matter).  The contract of \<open>std::log2\<close> is
  \<open>log2_faithful\<close>, and correct rounding satisfies it.

  Shown: the relative error of rounding, its exactness on short integers and powers of two, and that the
  rounded logarithm of a quotient of numbers up to \<open>2 ^ 44\<close> has the ceiling of the exact one.
\<close>

section \<open>Rounding\<close>

definition round_even :: "real \<Rightarrow> int" where
  "round_even x = (let n = \<lfloor>x\<rfloor>; d = x - of_int n in
     if d < 1 / 2 \<or> (d = 1 / 2 \<and> even n) then n else n + 1)"

definition to_double :: "real \<Rightarrow> real" where
  "to_double x = (if x = 0 then 0
     else let ulp = 2 powr (of_int \<lfloor>log 2 \<bar>x\<bar>\<rfloor> - 52) in of_int (round_even (x / ulp)) * ulp)"

text \<open>The documented error of \<open>std::log2\<close> is below one unit in the last place: at most \<open>2 ^ -46\<close> for results
  of magnitude up to 64, and none where the result is an integer (the numbers beside an integer that are
  closer to it than one unit have the same ceiling after the sign change).\<close>

definition log2_faithful :: "(real \<Rightarrow> real) \<Rightarrow> bool" where
  "log2_faithful lg \<longleftrightarrow>
     (\<forall>x. 1 / 2 ^ 64 \<le> x \<and> x \<le> 2 \<longrightarrow> \<bar>lg x - log 2 x\<bar> \<le> 1 / 2 ^ 46) \<and>
     (\<forall>k \<le> 64. lg (1 / 2 ^ k) = - real k)"

lemma round_even_error: "\<bar>of_int (round_even x) - x\<bar> \<le> 1 / 2"
  unfolding round_even_def Let_def by (cases "x - of_int \<lfloor>x\<rfloor> < 1 / 2") (auto simp: abs_if, linarith+)

lemma round_even_int [simp]: "round_even (of_int n) = n"
  by (simp add: round_even_def)

lemma to_double_error: "\<bar>to_double x - x\<bar> \<le> \<bar>x\<bar> / 2 ^ 53"
proof (cases "x = 0")
  case False
  define e where "e = \<lfloor>log 2 \<bar>x\<bar>\<rfloor>"
  define u :: real where "u = 2 powr (of_int e - 52)"
  have u: "0 < u" by (simp add: u_def)
  have "2 powr of_int e \<le> \<bar>x\<bar>" using False by (simp add: e_def powr_le_iff)
  moreover have "u * 2 ^ 52 = 2 powr of_int e"
    by (simp add: u_def powr_diff powr_realpow)
  ultimately have le: "u / 2 \<le> \<bar>x\<bar> / 2 ^ 53" by simp
  have "to_double x - x = (of_int (round_even (x / u)) - x / u) * u"
    using False u by (simp add: to_double_def u_def e_def Let_def field_simps)
  then have "\<bar>to_double x - x\<bar> = \<bar>of_int (round_even (x / u)) - x / u\<bar> * u" using u by (simp add: abs_mult)
  also have "\<dots> \<le> 1 / 2 * u" using round_even_error [of "x / u"] u by (intro mult_right_mono) simp_all
  finally show ?thesis using le by simp
qed (simp add: to_double_def)

lemma to_double_between:
  assumes "0 \<le> x"
  shows "x * (1 - 1 / 2 ^ 53) \<le> to_double x" "to_double x \<le> x * (1 + 1 / 2 ^ 53)"
  using to_double_error [of x] assms by (simp_all add: abs_if field_simps split: if_splits)

lemma to_double_exact:
  assumes "x / 2 powr (of_int \<lfloor>log 2 \<bar>x\<bar>\<rfloor> - 52) = of_int n"
  shows "to_double x = x"
proof (cases "x = 0")
  case False
  define u :: real where "u = 2 powr (of_int \<lfloor>log 2 \<bar>x\<bar>\<rfloor> - 52)"
  have "u \<noteq> 0" by (simp add: u_def)
  moreover have "x / u = of_int n" using assms by (simp add: u_def)
  ultimately have "of_int (round_even (x / u)) * u = x" by (simp add: field_simps)
  then show ?thesis using False by (simp add: to_double_def u_def)
qed (simp add: to_double_def)

lemma to_double_int:
  assumes "0 < n" and "n < 2 ^ 53"
  shows "to_double (of_int n) = of_int n" "to_double (- of_int n) = - of_int n"
proof -
  define e where "e = \<lfloor>log 2 (real_of_int n)\<rfloor>"
  have "0 \<le> e" using assms(1) by (simp add: e_def)
  moreover have "log 2 (real_of_int n) < 53"
  proof -
    have "real_of_int n < 2 ^ 53" using assms(2) by (metis of_int_less_iff of_int_numeral of_int_power)
    then show ?thesis using assms(1) by (simp add: log_less_iff powr_realpow flip: powr_realpow)
  qed
  then have "e < 53" by (simp add: e_def floor_less_iff)
  define k where "k = nat (52 - e)"
  have k: "of_int e - 52 = - real k" using \<open>e < 53\<close> by (simp add: k_def)
  have "2 powr (of_int e - 52) = 1 / (2 :: real) ^ k"
    unfolding k by (simp add: powr_minus_divide powr_realpow)
  then have "real_of_int n / 2 powr (of_int e - 52) = of_int (n * 2 ^ k)" by simp
  then show "to_double (of_int n) = of_int n" "to_double (- of_int n) = - of_int n"
    using assms(1) to_double_exact [of "of_int n" "n * 2 ^ k"] to_double_exact [of "- of_int n" "- (n * 2 ^ k)"]
    by (simp_all add: e_def)
qed

lemma to_double_inverse_power: "to_double (1 / 2 ^ k) = 1 / 2 ^ k"
proof -
  have "log 2 (1 / 2 ^ k :: real) = - real k" by (simp add: log_divide log_nat_power)
  then have "(1 / 2 ^ k :: real) / 2 powr (of_int \<lfloor>log 2 \<bar>1 / 2 ^ k :: real\<bar>\<rfloor> - 52) = of_int (2 ^ 52)"
    by (simp add: powr_diff powr_minus powr_realpow field_simps)
  then show ?thesis by (rule to_double_exact)
qed

section \<open>The rounded logarithm of a quotient\<close>

lemma log2_above:
  assumes "0 \<le> y" and "y \<le> 1"
  shows "y - y\<^sup>2 \<le> log 2 (1 + y)"
proof -
  have ln2: "0 < ln (2 :: real)" "ln (2 :: real) \<le> 1" using ln_2_less_1 by auto
  have "y - y\<^sup>2 \<le> ln (1 + y)" by (rule ln_one_plus_pos_lower_bound [OF assms])
  also have "\<dots> * ln 2 \<le> ln (1 + y) * 1" using assms ln2 by (intro mult_left_mono) simp_all
  then have "ln (1 + y) \<le> ln (1 + y) / ln 2" using ln2 by (simp add: le_divide_eq)
  finally show ?thesis by (simp add: log_def)
qed

lemma log2_below:
  assumes "0 \<le> y" and "y < 1"
  shows "log 2 (1 - y) \<le> - y"
proof -
  have ln2: "0 < ln (2 :: real)" "ln (2 :: real) \<le> 1" using ln_2_less_1 by auto
  have "ln (1 - y) \<le> - y" using ln_add_one_self_le_self2 [of "- y"] assms by simp
  moreover have "ln (1 - y) / ln 2 \<le> ln (1 - y)"
    using assms ln2 by (simp add: divide_le_eq mult_le_cancel_left1)
  ultimately show ?thesis by (simp add: log_def)
qed

lemma log2_faithfulD: "log2_faithful lg \<Longrightarrow> 1 / 2 ^ 64 \<le> x \<Longrightarrow> x \<le> 2 \<Longrightarrow>
    lg x - log 2 x \<le> 1 / 2 ^ 46 \<and> log 2 x - lg x \<le> 1 / 2 ^ 46"
  unfolding log2_faithful_def using abs_le_iff [of "lg x - log 2 x"] by (metis minus_diff_eq)

lemma log2_shift: "0 < x \<Longrightarrow> log 2 (x / 2 ^ k) = log 2 x - real k"
  by (simp add: log_divide log_nat_power)

lemma ratio_above: "0 < t \<Longrightarrow> 0 < c \<Longrightarrow> t + 1 \<le> f * c \<Longrightarrow> (1 + 1 / t) / c \<le> f / (t :: real)"
  by (simp add: divide_simps distrib_left [of t, symmetric] mult.commute)

lemma ratio_below: "0 < t \<Longrightarrow> 0 < c \<Longrightarrow> f * c + 1 \<le> t \<Longrightarrow> f / t \<le> (1 - 1 / t) / (c :: real)"
  by (simp add: field_simps)

lemma log2_double_upper:
  assumes "log2_faithful lg" and "0 < f" and "f \<le> t" and "t \<le> 2 ^ 44" and "t \<le> f * 2 ^ k" and "k \<le> 64"
  shows "- lg (to_double (real f / real t)) \<le> real k"
proof (cases "t = f * 2 ^ k")
  case True
  then have "real f / real t = 1 / 2 ^ k" using assms(2) by simp
  then show ?thesis using assms(1,6) by (simp add: to_double_inverse_power log2_faithful_def)
next
  case False
  define p where "p = to_double (real f / real t)"
  have t: "0 < real t" "real t \<le> 2 ^ 44" using assms(2-4) by (auto simp flip: of_nat_le_iff)
  have "t + 1 \<le> f * 2 ^ k" using False assms(5) by simp
  then have "real (t + 1) \<le> real (f * 2 ^ k)" by (simp only: of_nat_le_iff)
  then have "(1 + 1 / real t) / 2 ^ k \<le> real f / real t" using t by (intro ratio_above) simp_all
  moreover have "1 + 1 / 2 ^ 44 \<le> 1 + 1 / real t" using t by (simp add: field_simps)
  ultimately have q: "(1 + 1 / 2 ^ 44) / 2 ^ k \<le> real f / real t" by (meson divide_right_mono order_trans zero_le_numeral zero_le_power)
  have "real f / real t * (1 - 1 / 2 ^ 53) \<le> p" unfolding p_def by (rule to_double_between) simp
  moreover have "(1 + 1 / 2 ^ 44) / 2 ^ k * (1 - 1 / 2 ^ 53) \<le> real f / real t * (1 - 1 / 2 ^ 53)"
    using q by (intro mult_right_mono) simp_all
  moreover have "(1 + 1 / 2 ^ 45) / 2 ^ k \<le> (1 + 1 / 2 ^ 44) / 2 ^ k * (1 - 1 / 2 ^ 53 :: real)"
    unfolding times_divide_eq_left by (rule divide_right_mono) simp_all
  ultimately have p: "(1 + 1 / 2 ^ 45) / 2 ^ k \<le> p" by linarith
  have "(1 :: real) / 2 ^ 64 \<le> 1 / 2 ^ k" using assms(6) by (intro divide_left_mono power_increasing) simp_all
  also have "\<dots> \<le> (1 + 1 / 2 ^ 45) / 2 ^ k" by (rule divide_right_mono) simp_all
  finally have lo: "1 / 2 ^ 64 \<le> p" using p by (rule order_trans)
  have "real f / real t \<le> 1" using assms(3) t by simp
  then have hi: "p \<le> 2" using to_double_between(2) [of "real f / real t"] by (simp add: p_def)
  have "1 / 2 ^ 46 - real k \<le> log 2 (1 + 1 / 2 ^ 45) - real k"
    using log2_above [of "1 / 2 ^ 45"] by (simp add: power2_eq_square)
  also have "\<dots> = log 2 ((1 + 1 / 2 ^ 45) / 2 ^ k)" by (rule log2_shift [symmetric]) simp
  also have "\<dots> \<le> log 2 p" using p by (intro log_mono) simp_all
  finally show ?thesis using log2_faithfulD [OF assms(1) lo hi] unfolding p_def by simp
qed

lemma log2_double_lower:
  assumes "log2_faithful lg" and "0 < f" and "f \<le> t" and "t \<le> 2 ^ 44" and "f * 2 ^ k < t"
  shows "real k < - lg (to_double (real f / real t))"
proof -
  define p where "p = to_double (real f / real t)"
  have t: "0 < real t" "real t \<le> 2 ^ 44" using assms(2-4) by (auto simp flip: of_nat_le_iff)
  have "f * 2 ^ k + 1 \<le> t" using assms(5) by simp
  then have "real (f * 2 ^ k + 1) \<le> real t" by (simp only: of_nat_le_iff)
  then have "real f / real t \<le> (1 - 1 / real t) / 2 ^ k" using t by (intro ratio_below) simp_all
  moreover have "1 - 1 / real t \<le> 1 - 1 / 2 ^ 44" using t by (simp add: field_simps)
  ultimately have q: "real f / real t \<le> (1 - 1 / 2 ^ 44) / 2 ^ k" by (meson divide_right_mono order_trans zero_le_numeral zero_le_power)
  have "p \<le> real f / real t * (1 + 1 / 2 ^ 53)" unfolding p_def by (rule to_double_between) simp
  moreover have "real f / real t * (1 + 1 / 2 ^ 53) \<le> (1 - 1 / 2 ^ 44) / 2 ^ k * (1 + 1 / 2 ^ 53)"
    using q by (intro mult_right_mono) simp_all
  moreover have "(1 - 1 / 2 ^ 44) / 2 ^ k * (1 + 1 / 2 ^ 53) \<le> (1 - 1 / 2 ^ 45) / (2 :: real) ^ k"
    unfolding times_divide_eq_left by (rule divide_right_mono) simp_all
  ultimately have p: "p \<le> (1 - 1 / 2 ^ 45) / 2 ^ k" by linarith
  have "1 / 2 ^ 44 \<le> real f / real t" using t assms(2) by (simp add: divide_simps mult_mono')
  then have lo: "1 / 2 ^ 64 \<le> p" using to_double_between(1) [of "real f / real t"] by (simp add: p_def)
  note p
  also have "(1 - 1 / 2 ^ 45) / (2 :: real) ^ k \<le> 1 / 2 ^ k" by (rule divide_right_mono) simp_all
  also have "\<dots> \<le> 1" by simp
  finally have hi: "p \<le> 2" by simp
  have "log 2 p \<le> log 2 ((1 - 1 / 2 ^ 45) / 2 ^ k)" using p lo by simp
  also have "\<dots> = log 2 (1 - 1 / 2 ^ 45) - real k" by (rule log2_shift) simp
  also have "\<dots> \<le> - (1 / 2 ^ 45) - real k" using log2_below [of "1 / 2 ^ 45"] by simp
  finally show ?thesis using log2_faithfulD [OF assms(1) lo hi] unfolding p_def by simp
qed

text \<open>Correct rounding is faithful.\<close>

lemma rounded_log2_faithful: "log2_faithful (\<lambda>x. to_double (log 2 x))"
proof -
  have "\<bar>to_double (log 2 x) - log 2 x\<bar> \<le> 1 / 2 ^ 46" if "1 / 2 ^ 64 \<le> x" "x \<le> 2" for x :: real
  proof -
    have "log 2 (1 / 2 ^ 64) \<le> log 2 x" using that by (intro log_mono) simp_all
    moreover have "log 2 (1 / 2 ^ 64) = - 64" using log_nat_power [of 2 2 64] by (simp only: log_divide) simp
    ultimately have "- 64 \<le> log 2 x" by simp
    moreover have "0 < x" using that(1) by (rule less_le_trans [rotated]) simp
    then have "log 2 x \<le> 1" using that by simp
    ultimately have "\<bar>log 2 x\<bar> \<le> 64" by (simp add: abs_le_iff)
    then show ?thesis using to_double_error [of "log 2 x"] by simp
  qed
  moreover have "to_double (log 2 (1 / 2 ^ k)) = - real k" if "k \<le> 64" for k
    using that to_double_int(2) [of "int k"] by (cases "k = 0") (simp_all add: log_divide log_nat_power to_double_def)
  ultimately show ?thesis by (simp add: log2_faithful_def)
qed

end
