(* ===== verification/Freq_Table.thy ===== *)
theory Freq_Table
  imports Doubles "HOL-Library.AList" "HOL-Library.Multiset"
begin

text \<open>
  \<open>frequency_value_table\<close> of \<open>src/src/gpgpu-sim/huffman.{h,cc}\<close>: the table of symbol counts the
  compressor of a memory partition samples into, which evicts the rarest symbols when it grows.

  The \<open>std::unordered_map\<close> is an association list with distinct keys.  The order in which a range
  \<open>for\<close> visits it is not specified, and neither is the order in which \<open>std::sort\<close> leaves elements that
  compare equal, nor which of the least elements a \<open>std::priority_queue\<close> yields: these are functions
  of a \<open>cxx_lib\<close> record every operation that uses them takes, and \<open>cxx_ok\<close> states what the standard
  promises of them.  A \<open>const unsigned char *\<close> is an optional list
  of bytes, and reading past it is undefined.  The entropy is only reported, as a real number without
  rounding; the code lengths computed in \<open>double\<close>s are rounded (\<open>Doubles\<close>).

  Shown: the table never exceeds its limits; eviction keeps the most frequent symbols; an update counts
  exactly its symbol, and re-inserts a symbol it has just evicted with count zero; the bit extraction
  cuts a block into the big-endian chunks of its bits; ageing divides every count.
\<close>

section \<open>What the code uses of the standard library\<close>

type_synonym pair = "u64 \<times> u64"

record cxx_lib =
  cx_iter :: "pair list \<Rightarrow> pair list"
  cx_sort :: "(pair \<Rightarrow> pair \<Rightarrow> bool) \<Rightarrow> pair list \<Rightarrow> pair list"
  cx_top :: "u64 list \<Rightarrow> nat"
  cx_log2 :: "real \<Rightarrow> real"

text \<open>The comparators passed to \<open>std::sort\<close> are strict weak orders; the result is a permutation in
  which no element is less than an earlier one.  \<open>cx_top\<close> is the position of \<open>top()\<close> in a
  \<open>std::priority_queue\<close> ordered by \<open>>\<close>, given the queued frequencies: an element that is least.
  \<open>cx_log2\<close> is \<open>std::log2\<close> on \<open>double\<close>s.\<close>

definition weak_order :: "(pair \<Rightarrow> pair \<Rightarrow> bool) \<Rightarrow> bool" where
  "weak_order lt \<longleftrightarrow> (\<forall>x. \<not> lt x x) \<and> (\<forall>x y z. lt x y \<and> lt y z \<longrightarrow> lt x z) \<and>
     (\<forall>x y z. \<not> lt x y \<and> \<not> lt y z \<longrightarrow> \<not> lt x z)"

definition cxx_ok :: "cxx_lib \<Rightarrow> bool" where
  "cxx_ok cx \<longleftrightarrow> (\<forall>m. mset (cx_iter cx m) = mset m) \<and>
     (\<forall>lt xs. weak_order lt \<longrightarrow> mset (cx_sort cx lt xs) = mset xs \<and>
        sorted_wrt (\<lambda>x y. \<not> lt y x) (cx_sort cx lt xs)) \<and>
     (\<forall>fs. fs \<noteq> [] \<longrightarrow> cx_top cx fs < length fs \<and> (\<forall>f \<in> set fs. fs ! cx_top cx fs \<le> f)) \<and>
     log2_faithful (cx_log2 cx)"

definition by_count :: "pair \<Rightarrow> pair \<Rightarrow> bool" where
  "by_count a b \<longleftrightarrow> snd a < snd b"

definition by_count_desc :: "pair \<Rightarrow> pair \<Rightarrow> bool" where
  "by_count_desc a b \<longleftrightarrow> snd a > snd b"

section \<open>Model\<close>

record frequency_value_table =
  ft_checking_table_size :: u64
  ft_final_table_size :: u64
  ft_symbol_length :: u64
  ft_frequency_map :: "pair list"

definition frequency_value_table_new :: "u64 \<Rightarrow> u64 \<Rightarrow> u64 \<Rightarrow> frequency_value_table res" where
  "frequency_value_table_new checking_table_size final_table_size symbol_length =
     (if symbol_length > 64 then Inl InvalidArgument
      else Inr \<lparr>ft_checking_table_size = checking_table_size, ft_final_table_size = final_table_size,
             ft_symbol_length = symbol_length, ft_frequency_map = []\<rparr>)"

text \<open>The loop of \<open>extract_symbol_from_bitstream\<close> over the remaining bit numbers of a symbol of
  \<open>symbol_length\<close> bits, from \<open>bit_pos\<close> on.\<close>

fun extract_bits :: "u8 list \<Rightarrow> u64 \<Rightarrow> nat \<Rightarrow> nat list \<Rightarrow> u64 \<Rightarrow> u64 \<Rightarrow> (u64 \<times> u64) res" where
  "extract_bits data sz symbol_length [] bit_pos symbol = Inr (symbol, bit_pos)"
| "extract_bits data sz symbol_length (j # js) bit_pos symbol =
     (let byte_pos = bit_pos div 8; bit_offset = 7 - bit_pos mod 8 in
      if byte_pos \<ge> sz then Inr (symbol, bit_pos + of_nat (symbol_length - j))
      else defined (unat byte_pos < length data)
        (extract_bits data sz symbol_length js (bit_pos + 1)
           (if data ! unat byte_pos AND push_bit (unat bit_offset) 1 \<noteq> 0
            then symbol OR push_bit (symbol_length - 1 - j) 1 else symbol)))"

definition extract_symbol :: "u8 list \<Rightarrow> u64 \<Rightarrow> u64 \<Rightarrow> u64 \<Rightarrow> (u64 \<times> u64) res" where
  "extract_symbol data sz bit_pos symbol_length =
     extract_bits data sz (unat symbol_length) [0..<unat symbol_length] bit_pos 0"

definition ft_extract_symbol ::
  "u8 list \<Rightarrow> u64 \<Rightarrow> u64 \<Rightarrow> frequency_value_table \<Rightarrow> (u64 \<times> u64) res" where
  "ft_extract_symbol data sz bit_pos t = extract_symbol data sz bit_pos (ft_symbol_length t)"

text \<open>\<open>m[k]\<close> of the map: absent keys read as a zero that is inserted.\<close>

definition count_of :: "u64 \<Rightarrow> pair list \<Rightarrow> u64" where
  "count_of symbol m = (case map_of m symbol of Some n \<Rightarrow> n | None \<Rightarrow> 0)"

definition evict_entries :: "cxx_lib \<Rightarrow> frequency_value_table \<Rightarrow> frequency_value_table" where
  "evict_entries cx t =
     (let n = length (ft_frequency_map t); k = unat (ft_final_table_size t) in
      if n \<le> k then t
      else let freq_pairs = cx_sort cx by_count (cx_iter cx (ft_frequency_map t)) in
        t\<lparr>ft_frequency_map := fold (\<lambda>(s, f). AList.update s f) (drop (n - k) freq_pairs) []\<rparr>)"

definition update_frequency ::
  "cxx_lib \<Rightarrow> u64 \<Rightarrow> u64 \<Rightarrow> frequency_value_table \<Rightarrow> u64 \<times> frequency_value_table" where
  "update_frequency cx symbol increment t =
     (let t1 = t\<lparr>ft_frequency_map :=
            AList.update symbol (count_of symbol (ft_frequency_map t) + increment) (ft_frequency_map t)\<rparr>;
          t2 = (if length (ft_frequency_map t1) \<ge> unat (ft_checking_table_size t1)
                then evict_entries cx t1 else t1);
          r = count_of symbol (ft_frequency_map t2)
      in (r, t2\<lparr>ft_frequency_map := AList.update symbol r (ft_frequency_map t2)\<rparr>))"

definition process_data_block ::
  "cxx_lib \<Rightarrow> u8 list option \<Rightarrow> u64 \<Rightarrow> frequency_value_table \<Rightarrow> (u64 \<times> frequency_value_table) res" where
  "process_data_block cx data sz t =
     (case data of None \<Rightarrow> Inr (0, t)
      | Some bytes \<Rightarrow>
          (let total_bits = sz * 8 in
           defined (ft_symbol_length t \<noteq> 0)
             (let num_symbols = total_bits div ft_symbol_length t in
              andThen (foldM (\<lambda>i (bit_pos, n, t).
                  andThen (ft_extract_symbol bytes sz bit_pos t) (\<lambda>(symbol, bit_pos').
                    Inr (bit_pos', n + 1, snd (update_frequency cx symbol 1 t))))
                [0..<unat num_symbols] (0, 0, t))
              (\<lambda>(bit_pos, n, t'). Inr (n, t')))))"

definition get_frequency :: "u64 \<Rightarrow> frequency_value_table \<Rightarrow> u64" where
  "get_frequency symbol t = count_of symbol (ft_frequency_map t)"

definition ft_size :: "frequency_value_table \<Rightarrow> u64" where
  "ft_size t = of_nat (length (ft_frequency_map t))"

definition get_frequency_pairs :: "cxx_lib \<Rightarrow> frequency_value_table \<Rightarrow> pair list" where
  "get_frequency_pairs cx t = cx_iter cx (ft_frequency_map t)"

definition get_sorted_frequencies :: "cxx_lib \<Rightarrow> frequency_value_table \<Rightarrow> pair list" where
  "get_sorted_frequencies cx t = cx_sort cx by_count (cx_iter cx (ft_frequency_map t))"

definition get_top_frequencies :: "cxx_lib \<Rightarrow> frequency_value_table \<Rightarrow> pair list" where
  "get_top_frequencies cx t =
     (let freq_pairs = cx_sort cx by_count_desc (cx_iter cx (ft_frequency_map t)) in
      if length freq_pairs > unat (ft_final_table_size t)
      then take (unat (ft_final_table_size t)) freq_pairs else freq_pairs)"

definition get_total_frequency :: "cxx_lib \<Rightarrow> frequency_value_table \<Rightarrow> u64" where
  "get_total_frequency cx t = fold (\<lambda>e total. total + snd e) (cx_iter cx (ft_frequency_map t)) 0"

definition compute_entropy :: "cxx_lib \<Rightarrow> frequency_value_table \<Rightarrow> real" where
  "compute_entropy cx t =
     (let total = get_total_frequency cx t in
      if total = 0 then 0
      else fold (\<lambda>e entropy.
          let probability = real (unat (snd e)) / real (unat total) in
          if probability > 0 then entropy - probability * log 2 probability else entropy)
        (cx_iter cx (ft_frequency_map t)) 0)"

definition ft_clear :: "frequency_value_table \<Rightarrow> frequency_value_table" where
  "ft_clear t = t\<lparr>ft_frequency_map := []\<rparr>"

text \<open>The loop erases while it iterates; what is left does not depend on the order.\<close>

definition scale_down :: "u64 \<Rightarrow> frequency_value_table \<Rightarrow> frequency_value_table" where
  "scale_down divisor t =
     (if divisor \<le> 1 then t
      else t\<lparr>ft_frequency_map := filter (\<lambda>(s, f). f \<noteq> 0)
               (map (\<lambda>(s, f). (s, f div divisor)) (ft_frequency_map t))\<rparr>)"

definition contains :: "u64 \<Rightarrow> frequency_value_table \<Rightarrow> bool" where
  "contains symbol t \<longleftrightarrow> map_of (ft_frequency_map t) symbol \<noteq> None"

definition get_symbols :: "cxx_lib \<Rightarrow> frequency_value_table \<Rightarrow> u64 list" where
  "get_symbols cx t = map fst (cx_iter cx (ft_frequency_map t))"

section \<open>The library contract\<close>

lemma weak_order_counts: "weak_order by_count" "weak_order by_count_desc"
  by (auto simp: weak_order_def by_count_def by_count_desc_def)

lemma iter_ok: "cxx_ok cx \<Longrightarrow> mset (cx_iter cx m) = mset m"
  by (simp add: cxx_ok_def)

lemma log2_ok: "cxx_ok cx \<Longrightarrow> log2_faithful (cx_log2 cx)"
  by (simp add: cxx_ok_def)

lemma sort_ok:
  assumes "cxx_ok cx"
  shows "mset (cx_sort cx by_count (cx_iter cx m)) = mset m"
    "sorted_wrt (\<lambda>x y. snd x \<le> snd y) (cx_sort cx by_count (cx_iter cx m))"
    "mset (cx_sort cx by_count_desc (cx_iter cx m)) = mset m"
    "sorted_wrt (\<lambda>x y. snd x \<ge> snd y) (cx_sort cx by_count_desc (cx_iter cx m))"
  using assms weak_order_counts
  by (auto simp: cxx_ok_def by_count_def [abs_def] by_count_desc_def [abs_def] not_less)

text \<open>Insertion sort, iteration in list order and the correctly rounded logarithm satisfy it.\<close>

fun ins_by :: "(pair \<Rightarrow> pair \<Rightarrow> bool) \<Rightarrow> pair \<Rightarrow> pair list \<Rightarrow> pair list" where
  "ins_by lt x [] = [x]"
| "ins_by lt x (y # ys) = (if lt y x then y # ins_by lt x ys else x # y # ys)"

fun least_index :: "u64 list \<Rightarrow> nat" where
  "least_index [] = 0"
| "least_index (f # fs) = (if fs = [] \<or> f \<le> fs ! least_index fs then 0 else Suc (least_index fs))"

definition plain_lib :: cxx_lib where
  "plain_lib = \<lparr>cx_iter = (\<lambda>m. m), cx_sort = (\<lambda>lt xs. foldr (ins_by lt) xs []), cx_top = least_index,
     cx_log2 = (\<lambda>x. to_double (log 2 x))\<rparr>"

lemma least_index_ok: "fs \<noteq> [] \<Longrightarrow> least_index fs < length fs \<and> (\<forall>f \<in> set fs. fs ! least_index fs \<le> f)"
proof (induction fs)
  case (Cons a fs)
  then show ?case by (cases "fs = []") (auto intro: order.trans [of a "fs ! least_index fs"])
qed simp

lemma ins_by_mset [simp]: "mset (ins_by lt x ys) = add_mset x (mset ys)"
  by (induction ys) auto

lemma weak_orderD:
  assumes "weak_order lt"
  shows "lt x y \<Longrightarrow> \<not> lt y x" "\<not> lt x y \<Longrightarrow> \<not> lt y z \<Longrightarrow> \<not> lt x z"
  using assms unfolding weak_order_def by blast+

lemma ins_by_set: "set (ins_by lt x ys) = insert x (set ys)"
  by (induction ys) auto

lemma ins_by_sorted:
  assumes "weak_order lt" and "sorted_wrt (\<lambda>x y. \<not> lt y x) ys"
  shows "sorted_wrt (\<lambda>x y. \<not> lt y x) (ins_by lt x ys)"
  using assms(2)
  by (induction ys) (auto simp: ins_by_set dest: weak_orderD(1) [OF assms(1)], use weak_orderD(2) [OF assms(1)] in blast)

lemma plain_lib_ok: "cxx_ok plain_lib"
proof -
  have "mset (foldr (ins_by lt) xs []) = mset xs" for lt xs by (induction xs) auto
  moreover have "sorted_wrt (\<lambda>x y. \<not> lt y x) (foldr (ins_by lt) xs [])" if "weak_order lt" for lt xs
    using that by (induction xs) (auto intro: ins_by_sorted)
  ultimately show ?thesis using least_index_ok rounded_log2_faithful by (simp add: cxx_ok_def plain_lib_def)
qed

section \<open>Eviction\<close>

lemma update_new: "k \<notin> fst ` set al \<Longrightarrow> AList.update k v al = al @ [(k, v)]"
  by (induction al) auto

lemma fold_update_distinct:
  "distinct (map fst (acc @ xs)) \<Longrightarrow> fold (\<lambda>(s, f). AList.update s f) xs acc = acc @ xs"
proof (induction xs arbitrary: acc)
  case (Cons x xs)
  obtain k v where x: "x = (k, v)" by (cases x)
  have "k \<notin> fst ` set acc" using Cons.prems x by auto
  with Cons.IH [of "acc @ [x]"] Cons.prems x show ?case by (simp add: update_new)
qed simp

lemma evict_split:
  assumes "cxx_ok cx" and "distinct (map fst (ft_frequency_map t))"
    and "unat (ft_final_table_size t) < length (ft_frequency_map t)"
  shows "\<exists>dropped. mset dropped + mset (ft_frequency_map (evict_entries cx t)) = mset (ft_frequency_map t) \<and>
    length (ft_frequency_map (evict_entries cx t)) = unat (ft_final_table_size t) \<and>
    distinct (map fst (ft_frequency_map (evict_entries cx t))) \<and>
    (\<forall>x \<in> set dropped. \<forall>y \<in> set (ft_frequency_map (evict_entries cx t)). snd x \<le> snd y)"
proof -
  let ?m = "ft_frequency_map t" let ?s = "cx_sort cx by_count (cx_iter cx ?m)"
  let ?n = "length ?m - unat (ft_final_table_size t)"
  note s = sort_ok(1,2) [OF assms(1), of ?m]
  have len: "length ?s = length ?m" using arg_cong [OF s(1), of size] by simp
  have d: "distinct (map fst ?s)"
    using assms(2) mset_eq_imp_distinct_iff [of "map fst ?s" "map fst ?m"] s(1) by simp
  have dd: "distinct (map fst (drop ?n ?s))" using distinct_drop [OF d, of ?n] by (simp add: drop_map)
  then have e: "ft_frequency_map (evict_entries cx t) = drop ?n ?s"
    using assms(3) fold_update_distinct [of "[]" "drop ?n ?s"] by (simp add: evict_entries_def Let_def)
  have "mset (take ?n ?s) + mset (drop ?n ?s) = mset ?m"
    using s(1) mset_append [of "take ?n ?s" "drop ?n ?s"] unfolding append_take_drop_id by metis
  moreover have "\<forall>x \<in> set (take ?n ?s). \<forall>y \<in> set (drop ?n ?s). snd x \<le> snd y"
    using s(2) sorted_wrt_append [of "\<lambda>x y. snd x \<le> snd y" "take ?n ?s" "drop ?n ?s"]
    unfolding append_take_drop_id by metis
  moreover have "length (drop ?n ?s) = unat (ft_final_table_size t)" using len assms(3) by simp
  ultimately show ?thesis unfolding e using dd by (intro exI [of _ "take ?n ?s"]) simp
qed

text \<open>Eviction keeps the most frequent symbols.  A table that has outgrown its final size is reduced
  to exactly that size, the entries kept are entries of the old table, each entry is either kept or
  dropped, and no dropped symbol was more frequent than a kept one, whatever order the library gives to
  equal counts.\<close>

theorem evict_keeps_most_frequent:
  assumes "cxx_ok cx" and "distinct (map fst (ft_frequency_map t))"
    and "unat (ft_final_table_size t) < length (ft_frequency_map t)"
  shows "\<exists>dropped. mset dropped + mset (ft_frequency_map (evict_entries cx t)) = mset (ft_frequency_map t) \<and>
    length (ft_frequency_map (evict_entries cx t)) = unat (ft_final_table_size t) \<and>
    (\<forall>x \<in> set dropped. \<forall>y \<in> set (ft_frequency_map (evict_entries cx t)). snd x \<le> snd y)"
  using evict_split [OF assms] by blast

definition test_table :: frequency_value_table where
  "test_table = \<lparr>ft_checking_table_size = 3, ft_final_table_size = 2, ft_symbol_length = 8,
     ft_frequency_map = [(7, 5), (9, 4)]\<rparr>"

section \<open>Updates\<close>

lemma evict_params [simp]:
  "ft_final_table_size (evict_entries cx t) = ft_final_table_size t"
  "ft_checking_table_size (evict_entries cx t) = ft_checking_table_size t"
  "ft_symbol_length (evict_entries cx t) = ft_symbol_length t"
  by (simp_all add: evict_entries_def Let_def)

definition ft_bound :: "frequency_value_table \<Rightarrow> nat" where
  "ft_bound t = max (unat (ft_checking_table_size t) - 1) (unat (ft_final_table_size t) + 1)"

definition ft_wf :: "frequency_value_table \<Rightarrow> bool" where
  "ft_wf t \<longleftrightarrow> distinct (map fst (ft_frequency_map t)) \<and> length (ft_frequency_map t) \<le> ft_bound t"

lemma update_length_le: "length (AList.update k v al) \<le> length al + 1"
  by (induction al) auto

lemma evict_wf:
  assumes "cxx_ok cx" and "distinct (map fst (ft_frequency_map t))"
  shows "distinct (map fst (ft_frequency_map (evict_entries cx t)))"
    "length (ft_frequency_map (evict_entries cx t)) \<le> unat (ft_final_table_size t)"
proof -
  have "distinct (map fst (ft_frequency_map (evict_entries cx t))) \<and>
    length (ft_frequency_map (evict_entries cx t)) \<le> unat (ft_final_table_size t)"
  proof (cases "unat (ft_final_table_size t) < length (ft_frequency_map t)")
    case True
    then show ?thesis using evict_split [OF assms True] by auto
  next
    case False
    then show ?thesis using assms(2) by (simp add: evict_entries_def)
  qed
  then show "distinct (map fst (ft_frequency_map (evict_entries cx t)))"
    "length (ft_frequency_map (evict_entries cx t)) \<le> unat (ft_final_table_size t)" by auto
qed

lemma update_same: "map_of al k = Some v \<Longrightarrow> AList.update k v al = al"
  by (induction al) auto

text \<open>The table after the first assignment of \<open>update_frequency\<close>.\<close>

definition counted :: "u64 \<Rightarrow> u64 \<Rightarrow> frequency_value_table \<Rightarrow> pair list" where
  "counted symbol inc t =
     AList.update symbol (count_of symbol (ft_frequency_map t) + inc) (ft_frequency_map t)"

lemma counted_map: "map_of (counted symbol inc t) =
    (map_of (ft_frequency_map t))(symbol \<mapsto> count_of symbol (ft_frequency_map t) + inc)"
  by (simp add: counted_def update_conv')

lemma counted_distinct: "distinct (map fst (ft_frequency_map t)) \<Longrightarrow> distinct (map fst (counted symbol inc t))"
  by (simp add: counted_def distinct_update)

lemma update_frequency_keep:
  assumes "length (counted symbol inc t) < unat (ft_checking_table_size t)"
  shows "update_frequency cx symbol inc t = (count_of symbol (ft_frequency_map t) + inc,
    t\<lparr>ft_frequency_map := counted symbol inc t\<rparr>)"
proof -
  have "count_of symbol (counted symbol inc t) = count_of symbol (ft_frequency_map t) + inc"
    by (simp add: count_of_def counted_map)
  moreover have "AList.update symbol (count_of symbol (ft_frequency_map t) + inc) (counted symbol inc t) =
      counted symbol inc t"
    by (rule update_same) (simp add: counted_map)
  ultimately show ?thesis using assms
    by (simp add: update_frequency_def Let_def counted_def [symmetric])
qed

lemma update_frequency_evict:
  assumes "unat (ft_checking_table_size t) \<le> length (counted symbol inc t)"
  shows "update_frequency cx symbol inc t =
    (let t2 = evict_entries cx (t\<lparr>ft_frequency_map := counted symbol inc t\<rparr>) in
     (count_of symbol (ft_frequency_map t2), t2\<lparr>ft_frequency_map :=
        AList.update symbol (count_of symbol (ft_frequency_map t2)) (ft_frequency_map t2)\<rparr>))"
  using assms by (simp add: update_frequency_def Let_def counted_def)

lemma update_frequency_wf:
  assumes "cxx_ok cx" and "ft_wf t"
  shows "ft_wf (snd (update_frequency cx symbol inc t)) \<and>
    ft_bound (snd (update_frequency cx symbol inc t)) = ft_bound t \<and>
    ft_symbol_length (snd (update_frequency cx symbol inc t)) = ft_symbol_length t"
proof (cases "unat (ft_checking_table_size t) \<le> length (counted symbol inc t)")
  case True
  let ?t1 = "t\<lparr>ft_frequency_map := counted symbol inc t\<rparr>"
  let ?m2 = "ft_frequency_map (evict_entries cx ?t1)"
  have d: "distinct (map fst (counted symbol inc t))"
    using assms(2) by (simp add: ft_wf_def counted_distinct)
  note e = evict_wf [OF assms(1), of ?t1]
  have "length (AList.update symbol (count_of symbol ?m2) ?m2) \<le> ft_bound t"
    using e(2) d update_length_le [of symbol "count_of symbol ?m2" ?m2] by (simp add: ft_bound_def)
  then show ?thesis using True e(1) d
    by (simp add: update_frequency_evict Let_def ft_wf_def ft_bound_def distinct_update)
next
  case False
  then have "length (counted symbol inc t) \<le> ft_bound t" by (simp add: ft_bound_def)
  then show ?thesis using False assms(2)
    by (simp add: update_frequency_keep ft_wf_def ft_bound_def counted_distinct)
qed

definition updates :: "cxx_lib \<Rightarrow> pair list \<Rightarrow> frequency_value_table \<Rightarrow> frequency_value_table" where
  "updates cx us t = fold (\<lambda>(s, i) t. snd (update_frequency cx s i t)) us t"

lemma updates_wf:
  assumes "cxx_ok cx"
  shows "ft_wf t \<Longrightarrow> ft_wf (updates cx us t) \<and> ft_bound (updates cx us t) = ft_bound t"
proof (induction us arbitrary: t)
  case (Cons u us)
  obtain s i where u: "u = (s, i)" by (cases u)
  have "updates cx (u # us) t = updates cx us (snd (update_frequency cx s i t))"
    by (simp add: updates_def u)
  then show ?case using Cons.IH [of "snd (update_frequency cx s i t)"] Cons.prems
      update_frequency_wf [OF assms, of t s i] by simp
qed (simp add: updates_def)

text \<open>The table stays small.  Whatever symbols are counted, a table never holds a symbol twice and
  never more than the larger of \<open>checking_table_size - 1\<close> and \<open>final_table_size + 1\<close> symbols.\<close>

theorem frequency_table_bounded:
  assumes "cxx_ok cx" and "frequency_value_table_new checking final_size len = Inr t"
  shows "distinct (map fst (ft_frequency_map (updates cx us t))) \<and>
    length (ft_frequency_map (updates cx us t)) \<le> max (unat checking - 1) (unat final_size + 1)"
proof -
  have "ft_wf t" "ft_bound t = max (unat checking - 1) (unat final_size + 1)"
    using assms(2) by (auto simp: frequency_value_table_new_def ft_wf_def ft_bound_def split: if_splits)
  then show ?thesis using updates_wf [OF assms(1), of t us] by (simp add: ft_wf_def)
qed

text \<open>An update that does not trigger eviction counts exactly its symbol: the returned value and the new
  count are the old count plus the increment, and no other count changes.\<close>

theorem update_counts_symbol:
  assumes "length (counted symbol inc t) < unat (ft_checking_table_size t)"
    and "update_frequency cx symbol inc t = (r, t')"
  shows "r = get_frequency symbol t + inc \<and>
    get_frequency s t' = (if s = symbol then get_frequency symbol t + inc else get_frequency s t)"
  using assms update_frequency_keep [OF assms(1), of cx]
  by (auto simp: get_frequency_def count_of_def counted_map)

lemma evict_drops_rarest:
  fixes kept :: "pair list"
  assumes "mset dropped + mset kept = mset m + {#(k, v)#}" and "(k, v) \<notin> set m" and "dropped \<noteq> []"
    and "\<And>x. x \<in> set m \<Longrightarrow> v < snd x" and "\<And>x y. x \<in> set dropped \<Longrightarrow> y \<in> set kept \<Longrightarrow> snd x \<le> snd y"
  shows "(k, v) \<notin> set kept \<and> set kept \<subseteq> set m"
proof -
  have sets: "set dropped \<union> set kept = insert (k, v) (set m)"
    using arg_cong [OF assms(1), of set_mset] by simp
  have one: "count (mset dropped) (k, v) + count (mset kept) (k, v) = 1"
    using arg_cong [OF assms(1), of "\<lambda>x. count x (k, v)"] assms(2) by (simp add: count_mset_0_iff)
  have "(k, v) \<notin> set kept"
  proof
    assume kv: "(k, v) \<in> set kept"
    obtain x where x: "x \<in> set dropped" using assms(3) by (cases dropped) auto
    have "snd x \<le> v" using assms(5) [OF x kv] by simp
    then have "x = (k, v)" using x sets assms(4) [of x] by (cases "x \<in> set m") (auto simp: not_less [symmetric])
    with x kv have "0 < count (mset dropped) (k, v)" "0 < count (mset kept) (k, v)"
      by (simp_all add: count_greater_zero_iff)
    with one show False by simp
  qed
  with sets show ?thesis by auto
qed

text \<open>The symbol just counted can be evicted at once and is then re-inserted with count zero.  When a new
  symbol makes a table of more frequent symbols reach its checking size, eviction drops it, the
  \<open>m_frequency_map[symbol]\<close> of the return statement inserts it again, the update returns zero and the
  table keeps an entry for a symbol that was never seen zero times.\<close>

theorem evicted_symbol_reinserted_as_zero:
  assumes "cxx_ok cx" and "distinct (map fst (ft_frequency_map t))"
    and "map_of (ft_frequency_map t) symbol = None" and "\<And>s f. (s, f) \<in> set (ft_frequency_map t) \<Longrightarrow> 1 < f"
    and "unat (ft_checking_table_size t) \<le> length (ft_frequency_map t) + 1"
    and "unat (ft_final_table_size t) \<le> length (ft_frequency_map t)"
    and "update_frequency cx symbol 1 t = (r, t')"
  shows "r = 0 \<and> map_of (ft_frequency_map t') symbol = Some 0"
proof -
  let ?t1 = "t\<lparr>ft_frequency_map := counted symbol 1 t\<rparr>" let ?m2 = "ft_frequency_map (evict_entries cx ?t1)"
  have new: "symbol \<notin> fst ` set (ft_frequency_map t)" using assms(3) by (simp add: map_of_eq_None_iff)
  have c: "counted symbol 1 t = ft_frequency_map t @ [(symbol, 1)]"
    using assms(3) update_new [OF new] by (simp add: counted_def count_of_def)
  have d: "distinct (map fst (ft_frequency_map ?t1))" using assms(2) by (simp add: counted_distinct)
  have l: "unat (ft_final_table_size ?t1) < length (ft_frequency_map ?t1)" using c assms(6) by simp
  obtain dropped where e: "mset dropped + mset ?m2 = mset (ft_frequency_map t @ [(symbol, 1)])"
      "\<forall>x \<in> set dropped. \<forall>y \<in> set ?m2. snd x \<le> snd y" "length ?m2 = unat (ft_final_table_size t)"
    using evict_split [OF assms(1) d l] c by auto
  have "dropped \<noteq> []" using arg_cong [OF e(1), of size] e(3) assms(6) by auto
  moreover have "(symbol, 1) \<notin> set (ft_frequency_map t)" using new by (auto simp: rev_image_eqI)
  ultimately have "(symbol, 1) \<notin> set ?m2 \<and> set ?m2 \<subseteq> set (ft_frequency_map t)"
    using e(1,2) assms(4) by (intro evict_drops_rarest [of dropped ?m2 _ symbol 1]) auto
  then have "symbol \<notin> fst ` set ?m2" using new by auto
  then have "map_of ?m2 symbol = None" by (simp add: map_of_eq_None_iff)
  then have z: "count_of symbol ?m2 = 0" by (simp add: count_of_def)
  have "unat (ft_checking_table_size t) \<le> length (counted symbol 1 t)" using c assms(5) by simp
  from update_frequency_evict [OF this, of cx] assms(7) show ?thesis
    by (auto simp: Let_def z update_conv')
qed

section \<open>Cutting a block into symbols\<close>

text \<open>The bits of a block, most significant bit of each byte first, and the number a bit string denotes.\<close>

definition byte_bits :: "u8 \<Rightarrow> bool list" where
  "byte_bits b = map (\<lambda>i. bit b (7 - i)) [0..<8]"

definition bits_of :: "u8 list \<Rightarrow> bool list" where
  "bits_of data = concat (map byte_bits data)"

definition word_of_bits :: "bool list \<Rightarrow> u64" where
  "word_of_bits bs = horner_sum of_bool 2 (rev bs)"

lemma length_bits_of [simp]: "length (bits_of data) = 8 * length data"
  by (induction data) (auto simp: bits_of_def byte_bits_def)

lemma bits_of_nth: "p < 8 * length data \<Longrightarrow> bits_of data ! p = bit (data ! (p div 8)) (7 - p mod 8)"
proof (induction data arbitrary: p)
  case (Cons b data)
  have c: "bits_of (b # data) = byte_bits b @ bits_of data" by (simp add: bits_of_def)
  show ?case
  proof (cases "p < 8")
    case True
    then show ?thesis by (simp add: c nth_append byte_bits_def)
  next
    case False
    then have "(b # data) ! (p div 8) = data ! ((p - 8) div 8)" "(p - 8) mod 8 = p mod 8"
      by (simp_all add: le_div_geq le_mod_geq)
    with False Cons show ?thesis by (simp add: c nth_append byte_bits_def)
  qed
qed simp

lemma word_of_bits_bit: "length bs \<le> 64 \<Longrightarrow> bit (word_of_bits bs) n \<longleftrightarrow> n < length bs \<and> bs ! (length bs - 1 - n)"
  by (auto simp: word_of_bits_def bit_horner_sum_bit_iff rev_nth)

lemma unat_div_mod8:
  assumes "n < 2 ^ 64"
  shows "unat ((of_nat n :: u64) div 8) = n div 8" "unat (7 - (of_nat n :: u64) mod 8) = 7 - n mod 8"
proof -
  have n: "unat (of_nat n :: u64) = n" using assms by (simp add: unat_of_nat_lt)
  then show "unat ((of_nat n :: u64) div 8) = n div 8" by (simp add: unat_div)
  have m: "unat ((of_nat n :: u64) mod 8) = n mod 8" using n by (simp add: unat_mod)
  then have "(of_nat n :: u64) mod 8 \<le> 7" by (simp add: word_le_nat_alt)
  then show "unat (7 - (of_nat n :: u64) mod 8) = 7 - n mod 8" using m by (simp add: unat_sub)
qed

lemma extract_bits_spec:
  assumes "l \<le> 64" and "p + l \<le> 8 * length data" and "8 * length data < 2 ^ 64" and "j \<le> l"
  shows "\<exists>r. extract_bits data (of_nat (length data)) l [j..<l] (of_nat (p + j)) symbol = Inr (r, of_nat (p + l)) \<and>
    (\<forall>n < 64. bit r n \<longleftrightarrow> bit symbol n \<or> n < l - j \<and> bits_of data ! (p + l - 1 - n))"
  using assms(4)
proof (induction "l - j" arbitrary: j symbol)
  case 0
  then show ?case by simp
next
  case (Suc k)
  then have jl: "j < l" by simp
  define q where "q = p + j"
  have q: "q < 8 * length data" "q < 2 ^ 64" using jl assms(2,3) by (simp_all add: q_def)
  note dm = unat_div_mod8 [OF q(2)]
  have "unat (of_nat (length data) :: u64) = length data" using assms(3) by (simp add: unat_of_nat_lt)
  then have lt: "\<not> of_nat (length data) \<le> (of_nat q :: u64) div 8" using q(1)
    by (simp add: word_le_nat_alt dm not_le)
  let ?s = "if bit (data ! (q div 8)) (7 - q mod 8) then symbol OR push_bit (l - 1 - j) 1 else symbol"
  have "extract_bits data (of_nat (length data)) l [j..<l] (of_nat q) symbol =
      extract_bits data (of_nat (length data)) l [Suc j..<l] (of_nat (Suc q)) ?s"
    using jl lt less_mult_imp_div_less [of q "length data" 8] q(1) dm by (subst upt_rec) (simp add: Let_def bit_iff_and_push_bit_not_eq_0 ac_simps)
  moreover obtain r where r: "extract_bits data (of_nat (length data)) l [Suc j..<l] (of_nat (Suc q)) ?s =
      Inr (r, of_nat (p + l))"
      "\<forall>n < 64. bit r n \<longleftrightarrow> bit ?s n \<or> n < l - Suc j \<and> bits_of data ! (p + l - 1 - n)"
  proof -
    have "k = l - Suc j" "Suc j \<le> l" "p + Suc j = Suc q" using Suc.hyps(2) jl by (simp_all add: q_def)
    with Suc.hyps(1) [of "Suc j" ?s] that show thesis by metis
  qed
  moreover have "bit r n \<longleftrightarrow> bit symbol n \<or> n < l - j \<and> bits_of data ! (p + l - 1 - n)" if "n < 64" for n
  proof -
    have "bit ?s n \<longleftrightarrow> bit symbol n \<or> n = l - 1 - j \<and> bits_of data ! q"
      using that by (auto simp: bits_of_nth [OF q(1)] bit_simps)
    moreover have "n < l - j \<longleftrightarrow> n < l - Suc j \<or> n = l - 1 - j" using jl by auto
    moreover have "p + l - 1 - (l - 1 - j) = q" using jl by (simp add: q_def)
    ultimately show ?thesis using r(2) that by auto
  qed
  ultimately show ?case unfolding q_def by auto
qed

lemma extract_symbol_spec:
  assumes "unat l \<le> 64" and "p + unat l \<le> 8 * length data" and "8 * length data < 2 ^ 64"
  shows "extract_symbol data (of_nat (length data)) (of_nat p) l =
    Inr (word_of_bits (take (unat l) (drop p (bits_of data))), of_nat (p + unat l))"
proof -
  obtain r where r: "extract_bits data (of_nat (length data)) (unat l) [0..<unat l] (of_nat p) 0 =
      Inr (r, of_nat (p + unat l))"
      "\<forall>n < 64. bit r n \<longleftrightarrow> n < unat l \<and> bits_of data ! (p + unat l - 1 - n)"
    using extract_bits_spec [OF assms, of 0 0] by auto
  have "r = word_of_bits (take (unat l) (drop p (bits_of data)))"
  proof (rule bit_word_eqI)
    fix n assume "n < LENGTH(64)"
    then have n: "n < 64" by simp
    show "bit r n \<longleftrightarrow> bit (word_of_bits (take (unat l) (drop p (bits_of data)))) n"
      using r(2) n assms by (auto simp: word_of_bits_bit add.assoc)
  qed
  with r(1) show ?thesis by (simp add: extract_symbol_def)
qed

section \<open>Ageing\<close>

text \<open>Ageing divides every count.  After \<open>scale_down\<close> by a divisor above one, the count of every symbol is
  its old count divided by the divisor, and exactly the symbols whose count became zero have left the
  table.\<close>

theorem scale_down_divides:
  assumes "divisor > 1" and "distinct (map fst (ft_frequency_map t))"
  shows "get_frequency s (scale_down divisor t) = get_frequency s t div divisor \<and>
    (contains s (scale_down divisor t) \<longleftrightarrow> get_frequency s t div divisor \<noteq> 0)"
proof -
  have "map_of (filter (\<lambda>(s, f). f \<noteq> 0) (map (\<lambda>(s, f). (s, f div divisor)) m)) s =
      (case map_of m s of None \<Rightarrow> None | Some f \<Rightarrow> if f div divisor = 0 then None else Some (f div divisor))"
    if "distinct (map fst m)" for m :: "pair list"
    using that by (induction m) (auto split: option.splits simp: map_of_eq_None_iff image_iff)
  note * = this [OF assms(2)]
  show ?thesis using assms(1)
    by (auto simp: scale_down_def get_frequency_def contains_def count_of_def * not_less split: option.splits)
qed

end
