(* ===== verification/Huffman.thy ===== *)
theory Huffman
  imports Freq_Table Prefix_Code
begin

text \<open>
  \<open>huffman_codebook\<close> of \<open>src/src/gpgpu-sim/huffman.{h,cc}\<close>: Huffman, Shannon-Fano and Shannon codes for
  the most frequent symbols, all turned into canonical codes.  A \<open>shared_ptr<huffman_node>\<close> tree is a
  datatype (the root with one child that \<open>build_tree\<close> makes for a single symbol is \<open>HOnly\<close>), the
  priority queue is the list of its elements, \<open>m_codes\<close> an association list.  Shifts by 64 or more, the
  magnitude of the least \<open>int64_t\<close> and the conversion of an infinite \<open>double\<close> are undefined.

  The loops of \<open>build_tree\<close> and \<open>shannon_fano_encode\<close> end: their termination is proved here, the codes
  they make are the subject of the theory \<open>Codebook\<close>.
\<close>

section \<open>State\<close>

datatype huffman_node =
    HLeaf u64 u64
  | HNode u64 huffman_node huffman_node
  | HOnly u64 huffman_node

fun node_frequency :: "huffman_node \<Rightarrow> u64" where
  "node_frequency (HLeaf symbol frequency) = frequency"
| "node_frequency (HNode frequency l r) = frequency"
| "node_frequency (HOnly frequency l) = frequency"

definition huffman_inner :: "huffman_node \<Rightarrow> huffman_node \<Rightarrow> huffman_node" where
  "huffman_inner l r = HNode (node_frequency l + node_frequency r) l r"

record code_entry =
  ce_bits :: "bool list"
  ce_length :: u64

definition code_entry_of :: "bool list \<Rightarrow> code_entry" where
  "code_entry_of b = \<lparr>ce_bits = b, ce_length = of_nat (length b)\<rparr>"

record huffman_codebook =
  hc_codes :: "(u64 \<times> code_entry) list"
  hc_max_code_length :: u64
  hc_mag :: u64
  hc_freq_table :: frequency_value_table

definition huffman_codebook_new :: "u64 \<Rightarrow> u64 \<Rightarrow> u64 \<Rightarrow> u64 \<Rightarrow> huffman_codebook res" where
  "huffman_codebook_new checking_table_size final_table_size symbol_length mag =
     andThen (frequency_value_table_new checking_table_size final_table_size symbol_length) (\<lambda>t.
       Inr \<lparr>hc_codes = [], hc_max_code_length = 0, hc_mag = mag, hc_freq_table = t\<rparr>)"

definition set_mag :: "u64 \<Rightarrow> huffman_codebook \<Rightarrow> huffman_codebook" where
  "set_mag mag cb = cb\<lparr>hc_mag := mag\<rparr>"

definition has_code :: "u64 \<Rightarrow> huffman_codebook \<Rightarrow> bool" where
  "has_code symbol cb \<longleftrightarrow> map_of (hc_codes cb) symbol \<noteq> None"

definition get_code_bits :: "u64 \<Rightarrow> huffman_codebook \<Rightarrow> bool list" where
  "get_code_bits symbol cb = (case map_of (hc_codes cb) symbol of Some e \<Rightarrow> ce_bits e | None \<Rightarrow> [])"

definition get_code_length :: "u64 \<Rightarrow> huffman_codebook \<Rightarrow> u64" where
  "get_code_length symbol cb = (case map_of (hc_codes cb) symbol of Some e \<Rightarrow> ce_length e | None \<Rightarrow> 0)"

definition get_code_string :: "u64 \<Rightarrow> huffman_codebook \<Rightarrow> string" where
  "get_code_string symbol cb = (case map_of (hc_codes cb) symbol of
     Some e \<Rightarrow> map (\<lambda>b. if b then CHR ''1'' else CHR ''0'') (ce_bits e) | None \<Rightarrow> [])"

text \<open>The range \<open>for\<close> over \<open>m_codes\<close>, seen through (symbol, length).\<close>

definition code_lengths_of :: "cxx_lib \<Rightarrow> huffman_codebook \<Rightarrow> pair list" where
  "code_lengths_of cx cb = cx_iter cx (map (\<lambda>(s, e). (s, ce_length e)) (hc_codes cb))"

definition get_coded_symbols :: "cxx_lib \<Rightarrow> huffman_codebook \<Rightarrow> u64 list" where
  "get_coded_symbols cx cb = map fst (code_lengths_of cx cb)"

definition get_all_codes :: "cxx_lib \<Rightarrow> huffman_codebook \<Rightarrow> (u64 \<times> string) list" where
  "get_all_codes cx cb = map (\<lambda>s. (s, get_code_string s cb)) (get_coded_symbols cx cb)"

definition clear_codes :: "huffman_codebook \<Rightarrow> huffman_codebook" where
  "clear_codes cb = cb\<lparr>hc_codes := [], hc_max_code_length := 0\<rparr>"

definition clear_all :: "huffman_codebook \<Rightarrow> huffman_codebook" where
  "clear_all cb = (clear_codes cb)\<lparr>hc_freq_table := ft_clear (hc_freq_table cb)\<rparr>"

definition hc_size :: "huffman_codebook \<Rightarrow> u64" where
  "hc_size cb = of_nat (length (hc_codes cb))"

section \<open>The Huffman tree\<close>

text \<open>\<open>top()\<close> and \<open>pop()\<close>; the position is kept inside the queue so that the loop ends whatever the
  library does.\<close>

definition pq_pop :: "cxx_lib \<Rightarrow> huffman_node list \<Rightarrow> huffman_node \<times> huffman_node list" where
  "pq_pop cx q = (let i = min (cx_top cx (map node_frequency q)) (length q - 1) in
     (q ! i, take i q @ drop (Suc i) q))"

lemma pq_pop_length: "q \<noteq> [] \<Longrightarrow> length (snd (pq_pop cx q)) = length q - 1"
  by (cases q) (simp_all add: pq_pop_def Let_def min_def)

function merge_nodes :: "cxx_lib \<Rightarrow> huffman_node list \<Rightarrow> huffman_node list" where
  "merge_nodes cx q =
     (if length q \<le> 1 then q
      else let (l, q1) = pq_pop cx q; (r, q2) = pq_pop cx q1 in merge_nodes cx (q2 @ [huffman_inner l r]))"
  by pat_completeness auto
termination
proof (relation "measure (\<lambda>(cx, q). length q)")
  fix cx q x l q1 y r q2
  assume "\<not> length q \<le> 1" and x: "x = pq_pop cx q" "(l, q1) = x" and y: "y = pq_pop cx q1" "(r, q2) = y"
  then have "length q1 = length q - 1" using pq_pop_length [of q cx] by (metis One_nat_def le0 length_0_conv prod.sel(2))
  moreover from this have "length q2 = length q1 - 1"
    using y pq_pop_length [of q1 cx] \<open>\<not> length q \<le> 1\<close> by (cases q1) (auto dest: sym)
  ultimately show "((cx, q2 @ [huffman_inner l r]), cx, q) \<in> measure (\<lambda>(cx, q). length q)"
    using \<open>\<not> length q \<le> 1\<close> by simp
qed simp

declare merge_nodes.simps [simp del]

definition build_tree :: "cxx_lib \<Rightarrow> pair list \<Rightarrow> huffman_node res" where
  "build_tree cx freq_pairs =
     (let pq = map (\<lambda>(s, f). HLeaf s f) freq_pairs in
      defined (pq \<noteq> [])
        (if length pq = 1 then Inr (HOnly (node_frequency (hd pq)) (hd pq))
         else Inr (hd (merge_nodes cx pq))))"

definition store_code :: "u64 \<Rightarrow> bool list \<Rightarrow> huffman_codebook \<Rightarrow> huffman_codebook" where
  "store_code symbol code cb = cb\<lparr>hc_codes := AList.update symbol (code_entry_of code) (hc_codes cb),
     hc_max_code_length := max (hc_max_code_length cb) (of_nat (length code))\<rparr>"

fun generate_codes_from_tree :: "huffman_node \<Rightarrow> bool list \<Rightarrow> huffman_codebook \<Rightarrow> huffman_codebook" where
  "generate_codes_from_tree (HLeaf symbol f) code cb = store_code symbol code cb"
| "generate_codes_from_tree (HNode f l r) code cb =
     generate_codes_from_tree r (code @ [True]) (generate_codes_from_tree l (code @ [False]) cb)"
| "generate_codes_from_tree (HOnly f l) code cb = generate_codes_from_tree l (code @ [False]) cb"

section \<open>Canonical codes\<close>

definition by_length :: "pair \<Rightarrow> pair \<Rightarrow> bool" where
  "by_length a b \<longleftrightarrow> snd a < snd b \<or> (snd a = snd b \<and> fst a < fst b)"

definition code_bits :: "u64 \<Rightarrow> u64 \<Rightarrow> bool list" where
  "code_bits len code = map (\<lambda>i. code AND push_bit (unat len - 1 - i) 1 \<noteq> 0) [0..<unat len]"

fun assign_codes :: "pair list \<Rightarrow> u64 \<Rightarrow> u64 \<Rightarrow> (u64 \<times> code_entry) list \<Rightarrow> (u64 \<times> code_entry) list res" where
  "assign_codes [] code prev_len m = Inr m"
| "assign_codes ((symbol, len) # rest) code prev_len m =
     defined (len - prev_len < 64)
       (let code' = push_bit (unat (len - prev_len)) code in
        defined (len \<le> 64)
          (assign_codes rest (code' + 1) len
             (AList.update symbol (code_entry_of (code_bits len code')) m)))"

definition make_canonical_codes :: "cxx_lib \<Rightarrow> huffman_codebook \<Rightarrow> huffman_codebook res" where
  "make_canonical_codes cx cb =
     (if hc_codes cb = [] then Inr cb
      else let code_lengths = cx_sort cx by_length (code_lengths_of cx cb) in
        andThen (assign_codes code_lengths 0 (snd (hd code_lengths)) [])
          (\<lambda>codes. Inr (cb\<lparr>hc_codes := codes\<rparr>)))"

definition generate_huffman_codes :: "cxx_lib \<Rightarrow> huffman_codebook \<Rightarrow> (u64 \<times> huffman_codebook) res" where
  "generate_huffman_codes cx cb0 =
     (let cb = clear_codes cb0; freq_pairs = get_top_frequencies cx (hc_freq_table cb) in
      if freq_pairs = [] then Inr (0, cb)
      else andThen (build_tree cx (cx_sort cx by_count freq_pairs)) (\<lambda>root.
           andThen (make_canonical_codes cx (generate_codes_from_tree root [] cb)) (\<lambda>cb'.
             Inr (hc_size cb', cb'))))"

section \<open>Shannon-Fano codes\<close>

text \<open>The distance of twice a partial sum from the total, \<open>abs(static_cast<int64_t>(x * 2 - tot))\<close>.\<close>

definition half_distance :: "u64 \<Rightarrow> u64 \<Rightarrow> int res" where
  "half_distance x tot = (let d = x * 2 - tot in
     defined (d \<noteq> 0x8000000000000000) (Inr \<bar>sint d\<bar>))"

fun find_split :: "pair list \<Rightarrow> u64 \<Rightarrow> nat list \<Rightarrow> u64 \<Rightarrow> nat \<Rightarrow> nat res" where
  "find_split symbols tot [] curr_freq split_point = Inr split_point"
| "find_split symbols tot (i # idx) curr_freq split_point =
     (let next_freq = curr_freq + snd (symbols ! i) in
      andThen (half_distance next_freq tot) (\<lambda>a.
      andThen (half_distance curr_freq tot) (\<lambda>b.
        if a \<le> b then find_split symbols tot idx next_freq i else Inr split_point)))"

definition split_of :: "pair list \<Rightarrow> nat \<Rightarrow> nat \<Rightarrow> nat res" where
  "split_of symbols start stop =
     (let tot = (\<Sum>i \<leftarrow> [start..<Suc stop]. snd (symbols ! i)) in
      andThen (find_split symbols tot [start..<Suc stop] 0 start) (\<lambda>s.
        Inr (if s = stop then start + (stop - start) div 2 else s)))"

lemma find_split_mem:
  "find_split symbols tot idx curr_freq s = Inr s' \<Longrightarrow> s' = s \<or> s' \<in> set idx"
  by (induction idx arbitrary: curr_freq s) (auto simp: Let_def res_simps split: if_splits)

lemma split_of_range:
  assumes "split_of symbols start stop = Inr s" and "start < stop"
  shows "start \<le> s \<and> s < stop"
proof -
  from assms(1) obtain s0 where s0: "find_split symbols (\<Sum>i \<leftarrow> [start..<Suc stop]. snd (symbols ! i))
      [start..<Suc stop] 0 start = Inr s0" "s = (if s0 = stop then start + (stop - start) div 2 else s0)"
    by (auto simp: split_of_def Let_def res_simps simp del: upt_Suc)
  have "start \<le> s0 \<and> s0 \<le> stop" using find_split_mem [OF s0(1)] assms(2) by (auto simp del: upt_Suc)
  then show ?thesis using s0(2) assms(2) by auto
qed

declare defined_cong [fundef_cong]

text \<open>The recursion on the range from \<open>start\<close> to \<open>stop\<close>, both inclusive.\<close>

function shannon_fano_encode :: "pair list \<Rightarrow> nat \<Rightarrow> nat \<Rightarrow> bool list \<Rightarrow> huffman_codebook \<Rightarrow>
    huffman_codebook res" where
  "shannon_fano_encode symbols start stop code cb =
     defined (start \<le> stop \<and> stop < length symbols)
       (if start = stop then Inr (store_code (fst (symbols ! start)) code cb)
        else if start + 1 = stop then
          Inr (store_code (fst (symbols ! stop)) (code @ [True])
                (store_code (fst (symbols ! start)) (code @ [False]) cb))
        else andThen (split_of symbols start stop) (\<lambda>s.
             andThen (shannon_fano_encode symbols start s (code @ [False]) cb)
               (shannon_fano_encode symbols (s + 1) stop (code @ [True]))))"
  by pat_completeness auto
termination
  by (relation "measure (\<lambda>(symbols, start, stop, code, cb). stop - start)")
    (auto dest: split_of_range)

declare shannon_fano_encode.simps [simp del]

definition generate_shannon_fano_codes :: "cxx_lib \<Rightarrow> huffman_codebook \<Rightarrow> (u64 \<times> huffman_codebook) res" where
  "generate_shannon_fano_codes cx cb0 =
     (let cb = clear_codes cb0; freq_pairs = get_top_frequencies cx (hc_freq_table cb) in
      if freq_pairs = [] then Inr (0, cb)
      else andThen (shannon_fano_encode freq_pairs 0 (length freq_pairs - 1) [] cb) (\<lambda>cb1.
           andThen (make_canonical_codes cx cb1) (\<lambda>cb'. Inr (hc_size cb', cb'))))"

section \<open>Shannon codes\<close>

text \<open>\<open>ceil(-log2(frequency / total))\<close> in \<open>double\<close>s, at least one.  A zero frequency makes the logarithm
  infinite, and a total that wrapped around to half the frequency or less makes the length negative: the
  conversion to \<open>size_t\<close> is undefined.\<close>

definition shannon_length :: "cxx_lib \<Rightarrow> u64 \<Rightarrow> u64 \<Rightarrow> u64 res" where
  "shannon_length cx frequency tot =
     (let probability = to_double (to_double (real (unat frequency)) / to_double (real (unat tot)));
          code_length = \<lceil>- cx_log2 cx probability\<rceil> in
      defined (frequency \<noteq> 0 \<and> tot \<noteq> 0 \<and> 0 \<le> code_length \<and> code_length < 2 ^ 64)
        (Inr (max (of_int code_length) 1)))"

definition shannon_step :: "cxx_lib \<Rightarrow> u64 \<Rightarrow> pair \<Rightarrow> u64 \<times> pair list \<Rightarrow> (u64 \<times> pair list) res" where
  "shannon_step cx tot p acc = andThen (shannon_length cx (snd p) tot) (\<lambda>l.
     Inr (max (fst acc) l, snd acc @ [(fst p, l)]))"

definition generate_shannon_codes :: "cxx_lib \<Rightarrow> huffman_codebook \<Rightarrow> (u64 \<times> huffman_codebook) res" where
  "generate_shannon_codes cx cb0 =
     (let cb = clear_codes cb0; freq_pairs = get_top_frequencies cx (hc_freq_table cb) in
      if freq_pairs = [] then Inr (0, cb)
      else let tot = (\<Sum>p \<leftarrow> freq_pairs. snd p) in
        andThen (foldM (shannon_step cx tot) freq_pairs (hc_max_code_length cb, [])) (\<lambda>(mx, ls).
          let code_lengths = cx_sort cx by_length ls in
          andThen (assign_codes code_lengths 0 (snd (hd code_lengths)) []) (\<lambda>codes.
            let cb' = cb\<lparr>hc_codes := codes, hc_max_code_length := mx\<rparr> in Inr (hc_size cb', cb'))))"

end
