(* ===== verification/Codebook.thy ===== *)
theory Codebook
  imports Huffman
begin

text \<open>
  Correctness of the code generators of \<open>huffman_codebook\<close>: whatever the library does with equal counts,
  each generator gives one code to each of the most frequent symbols, no code is a prefix of another,
  no shift is too wide, and the lengths are those of the Huffman tree, of the Shannon-Fano splits or of
  Shannon's formula.
\<close>

section \<open>Well-formed codebooks\<close>

definition codebook_ok :: "huffman_codebook \<Rightarrow> bool" where
  "codebook_ok cb \<longleftrightarrow> distinct (map fst (hc_codes cb)) \<and>
     prefix_free (map (\<lambda>(s, e). (s, ce_bits e)) (hc_codes cb)) \<and>
     (\<forall>e \<in> set (map snd (hc_codes cb)). unat (ce_length e) \<le> 64 \<and>
        length (ce_bits e) = unat (ce_length e) \<and> ce_length e \<le> hc_max_code_length cb)"

lemma weak_order_by_length: "weak_order by_length"
  by (auto simp: weak_order_def by_length_def)

lemma sort_by_length:
  assumes "cxx_ok cx"
  shows "mset (cx_sort cx by_length xs) = mset xs" "sorted (map snd (cx_sort cx by_length xs))"
proof -
  have s: "sorted_wrt (\<lambda>x y. \<not> by_length y x) (cx_sort cx by_length xs)" and
    m: "mset (cx_sort cx by_length xs) = mset xs"
    using assms weak_order_by_length by (auto simp: cxx_ok_def)
  show "mset (cx_sort cx by_length xs) = mset xs" by (rule m)
  show "sorted (map snd (cx_sort cx by_length xs))"
    unfolding sorted_map by (rule sorted_wrt_mono_rel [OF _ s]) (auto simp: by_length_def not_less)
qed

subsection \<open>Canonical codes on words\<close>

lemma single_bit: "w AND push_bit n 1 \<noteq> 0 \<longleftrightarrow> bit (w :: u64) n"
  by (simp add: bit_iff_and_push_bit_not_eq_0)

lemma code_bits_of_nat: "unat len \<le> 64 \<Longrightarrow> code_bits len (of_nat c) = nat_bits (unat len) c"
  unfolding code_bits_def nat_bits_def single_bit by (auto simp: bit_simps)

text \<open>Assigning codes to the sorted lengths: no shift is too wide, and each code is the canonical one.\<close>

lemma assign_codes_canonical:
  assumes "sorted (prev # map snd ps)" and "\<forall>p \<in> set ps. snd p \<le> 64 \<and> snd p - prev < 64"
    and "distinct (map fst m @ map fst ps)"
  shows "assign_codes ps (of_nat c) prev m =
    Inr (m @ map2 (\<lambda>p n. (fst p, code_entry_of (nat_bits (unat (snd p)) n))) ps
       (canonical c (unat prev) (map (unat \<circ> snd) ps)))"
  using assms
proof (induction ps arbitrary: c prev m)
  case (Cons p ps)
  obtain s l where p: "p = (s, l)" by (cases p)
  have l: "prev \<le> l" "l \<le> 64" "l - prev < 64" using Cons.prems p by auto
  have u: "unat (l - prev) = unat l - unat prev" using l(1) by (simp add: unat_sub)
  have le: "unat l \<le> 64" using l(2) by (simp add: word_le_nat_alt)
  have sh: "push_bit (unat (l - prev)) (of_nat c) = (of_nat (c * 2 ^ (unat l - unat prev)) :: u64)"
    by (simp add: push_bit_eq_mult u)
  have "s \<notin> fst ` set m" using Cons.prems(3) p by auto
  note upd = update_new [OF this]
  have "snd q - l < 64" if "q \<in> set ps" for q
  proof -
    have "l \<le> snd q" "snd q - prev < 64" "prev \<le> snd q" using Cons.prems(1,2) p that by auto
    then show ?thesis using l(1) by (auto simp: word_less_nat_alt word_le_nat_alt unat_sub)
  qed
  then show ?case
    using Cons.IH [of l "m @ [(s, code_entry_of (nat_bits (unat l) (c * 2 ^ (unat l - unat prev))))]"
        "c * 2 ^ (unat l - unat prev) + 1"] Cons.prems p l sh upd
    by (simp add: Let_def code_bits_of_nat [OF le] add.commute del: of_nat_mult of_nat_power)
qed simp

text \<open>The lengths of a list of symbol lengths satisfy the Kraft inequality.\<close>

definition kraft_ok :: "pair list \<Rightarrow> bool" where
  "kraft_ok ls \<longleftrightarrow> (\<forall>p \<in> set ls. snd p \<le> 64) \<and> kraft 64 (map (unat \<circ> snd) ls) \<le> 2 ^ 64"

lemma kraft_mset: "mset xs = mset ys \<Longrightarrow> kraft mx (map f xs) = kraft mx (map f ys)"
  using sum_mset_sum_list [of "map (\<lambda>l. 2 ^ (mx - l) :: nat) (map f xs)"]
    sum_mset_sum_list [of "map (\<lambda>l. 2 ^ (mx - l) :: nat) (map f ys)"] by (simp add: kraft_def)

lemma kraft_ok_mset: "mset xs = mset ys \<Longrightarrow> kraft_ok xs = kraft_ok ys"
  using kraft_mset [of xs ys 64 "unat \<circ> snd"] mset_eq_setD [of xs ys] by (simp add: kraft_ok_def)

lemma kraft_shift_defined:
  assumes "kraft_ok (p # ps)" and "sorted (map snd (p # ps))" and "q \<in> set (p # ps)"
  shows "snd q - snd p < 64"
proof (cases "snd p = 0")
  case True
  have "1 \<le> (2 :: nat) ^ (64 - unat (snd q))" by simp
  have "ps = []"
  proof (cases ps)
    case (Cons r rs)
    have "2 ^ 64 + 2 ^ (64 - unat (snd r)) \<le> (2 :: nat) ^ 64"
      using assms(1) True Cons by (simp add: kraft_ok_def kraft_def)
    then show ?thesis by (simp only: add_le_same_cancel1) simp
  qed
  then show ?thesis using assms(3) by simp
next
  case False
  have "snd q \<le> 64" "snd p \<le> snd q" using assms by (auto simp: kraft_ok_def)
  moreover have "0 < unat (snd p)" using False by (simp add: unat_gt_0)
  ultimately show ?thesis by (auto simp: word_less_nat_alt word_le_nat_alt unat_sub)
qed

lemma map2_fst: "length xs = length ys \<Longrightarrow> map2 (\<lambda>x y. f x) xs ys = map f xs"
  by (induction xs ys rule: list_induct2) auto

lemma canonical_assignment:
  assumes "sorted (map snd ls)" and "distinct (map fst ls)" and "ls \<noteq> []" and "kraft_ok ls"
  shows "\<exists>codes. assign_codes ls 0 (snd (hd ls)) [] = Inr codes \<and>
    map (\<lambda>(s, e). (s, ce_length e)) codes = ls \<and>
    (\<forall>(s, e) \<in> set codes. length (ce_bits e) = unat (ce_length e)) \<and>
    prefix_free (map (\<lambda>(s, e). (s, ce_bits e)) codes)"
proof -
  obtain p ps where ls: "ls = p # ps" using assms(3) by (cases ls) auto
  let ?l = "map (unat \<circ> snd) ls" and ?p = "unat (snd p)"
  let ?c = "canonical 0 ?p ?l"
  define codes where "codes = map2 (\<lambda>p n. (fst p, code_entry_of (nat_bits (unat (snd p)) n))) ls ?c"
  have so: "sorted ?l" using assms(1) by (auto simp: sorted_iff_nth_mono word_le_nat_alt)
  have le: "\<forall>l \<in> set ?l. l \<le> 64" and k: "kraft 64 ?l \<le> 2 ^ 64"
    using assms(4) by (auto simp: kraft_ok_def word_le_nat_alt)
  have len: "length codes = length ls" by (simp add: codes_def)
  have a: "assign_codes ls 0 (snd (hd ls)) [] = Inr codes"
    using assign_codes_canonical [of "snd p" ls "[]" 0] kraft_shift_defined [of p ps] assms ls
    by (simp add: codes_def kraft_ok_def)
  have b: "map (\<lambda>(s, e). (s, ce_length e)) codes = ls"
    by (rule nth_equalityI) (auto simp: codes_def code_entry_of_def)
  have c: "\<forall>(s, e) \<in> set codes. length (ce_bits e) = unat (ce_length e)"
    by (auto simp: codes_def code_entry_of_def set_zip)
  have n: "map (\<lambda>(s, e). (s, ce_bits e)) codes ! i = (fst (ls ! i), nat_bits (?l ! i) (?c ! i))"
    if "i < length ls" for i using that by (simp add: codes_def code_entry_of_def)
  have "prefix_free (map (\<lambda>(s, e). (s, ce_bits e)) codes)"
    unfolding prefix_free_def
  proof (clarify)
    fix s b s' b'
    assume "(s, b) \<in> set (map (\<lambda>(s, e). (s, ce_bits e)) codes)" "(s', b') \<in> set (map (\<lambda>(s, e). (s, ce_bits e)) codes)"
      and pre: "is_prefix b b'"
    then obtain i j where "i < length codes" "map (\<lambda>(s, e). (s, ce_bits e)) codes ! i = (s, b)"
      "j < length codes" "map (\<lambda>(s, e). (s, ce_bits e)) codes ! j = (s', b')"
      by (auto simp only: in_set_conv_nth length_map)
    then have "i < length ls" "j < length ls" "s = fst (ls ! i)" "b = nat_bits (?l ! i) (?c ! i)"
      "s' = fst (ls ! j)" "b' = nat_bits (?l ! j) (?c ! j)" using n len by auto
    then show "s = s'" using canonical_prefix_free [OF so le k, of i j ?p] pre ls by simp
  qed
  with a b c show ?thesis by blast
qed

text \<open>Symbols and code lengths of a codebook.\<close>

abbreviation lengths_of :: "(u64 \<times> code_entry) list \<Rightarrow> pair list" where
  "lengths_of codes \<equiv> map (\<lambda>(s, e). (s, ce_length e)) codes"

lemma fst_lengths_of: "map fst (lengths_of codes) = map fst codes"
  by (simp add: comp_def case_prod_beta)

lemma canonical_codebook:
  assumes "cxx_ok cx" and "distinct (map fst ls)" and "kraft_ok ls" and "ls \<noteq> []"
    and "\<forall>p \<in> set ls. snd p \<le> hc_max_code_length cb"
  shows "\<exists>codes. assign_codes (cx_sort cx by_length ls) 0 (snd (hd (cx_sort cx by_length ls))) [] = Inr codes \<and>
    codebook_ok (cb\<lparr>hc_codes := codes\<rparr>) \<and> mset (lengths_of codes) = mset ls"
proof -
  let ?s = "cx_sort cx by_length ls"
  note m = sort_by_length(1) [OF assms(1), of ls]
  have "mset (map fst ?s) = mset (map fst ls)" using m by simp
  then have d: "distinct (map fst ?s)" using assms(2) mset_eq_imp_distinct_iff by blast
  have "?s \<noteq> []" using m assms(4) by auto
  moreover have "kraft_ok ?s" using kraft_ok_mset [OF m] assms(3) by simp
  ultimately obtain codes where codes: "assign_codes ?s 0 (snd (hd ?s)) [] = Inr codes" "lengths_of codes = ?s"
    "\<forall>(s, e) \<in> set codes. length (ce_bits e) = unat (ce_length e)"
    "prefix_free (map (\<lambda>(s, e). (s, ce_bits e)) codes)"
    using canonical_assignment [OF sort_by_length(2) [OF assms(1)] d] by blast
  have fs: "map fst codes = map fst ?s" using fst_lengths_of [of codes] codes(2) by simp
  have "unat (ce_length e) \<le> 64 \<and> length (ce_bits e) = unat (ce_length e) \<and> ce_length e \<le> hc_max_code_length cb"
    if "(s, e) \<in> set codes" for s e
  proof -
    from that have "(s, ce_length e) \<in> set (lengths_of codes)" by (force simp: image_iff)
    then have "ce_length e \<le> 64" "ce_length e \<le> hc_max_code_length cb"
      using codes(2) mset_eq_setD [OF m] assms(3,5) unfolding kraft_ok_def by fastforce+
    then show ?thesis using codes(3) that by (fastforce simp: word_le_nat_alt)
  qed
  then have "\<forall>e \<in> set (map snd codes). unat (ce_length e) \<le> 64 \<and>
      length (ce_bits e) = unat (ce_length e) \<and> ce_length e \<le> hc_max_code_length cb"
    by (metis (no_types, lifting) imageE list.set_map prod.collapse)
  then have "codebook_ok (cb\<lparr>hc_codes := codes\<rparr>)"
    using codes(4) d fs by (simp add: codebook_ok_def)
  moreover have "mset (lengths_of codes) = mset ls" using m by (simp only: codes(2))
  ultimately show ?thesis using codes(1) by blast
qed

lemma make_canonical_ok:
  assumes "cxx_ok cx" and "distinct (map fst (hc_codes cb))" and "kraft_ok (lengths_of (hc_codes cb))"
    and "\<forall>p \<in> set (lengths_of (hc_codes cb)). snd p \<le> hc_max_code_length cb"
  shows "\<exists>cb'. make_canonical_codes cx cb = Inr cb' \<and> codebook_ok cb' \<and>
    mset (lengths_of (hc_codes cb')) = mset (lengths_of (hc_codes cb)) \<and> hc_freq_table cb' = hc_freq_table cb"
proof (cases "hc_codes cb = []")
  case True
  then show ?thesis by (simp add: make_canonical_codes_def codebook_ok_def prefix_free_def)
next
  case False
  let ?l = "code_lengths_of cx cb"
  have m: "mset ?l = mset (lengths_of (hc_codes cb))"
    using iter_ok [OF assms(1)] by (simp only: code_lengths_of_def)
  have "mset (map fst ?l) = mset (map fst (lengths_of (hc_codes cb)))"
    using arg_cong [OF m, of "image_mset fst"] by (simp only: mset_map)
  then have "distinct (map fst ?l)" using assms(2) mset_eq_imp_distinct_iff unfolding fst_lengths_of by blast
  moreover have "?l \<noteq> []" using m False by auto
  moreover have "kraft_ok ?l" using kraft_ok_mset [OF m] assms(3) by simp
  moreover have "\<forall>p \<in> set ?l. snd p \<le> hc_max_code_length cb" using mset_eq_setD [OF m] assms(4) by simp
  ultimately obtain codes where "assign_codes (cx_sort cx by_length ?l) 0 (snd (hd (cx_sort cx by_length ?l))) [] = Inr codes"
    "codebook_ok (cb\<lparr>hc_codes := codes\<rparr>)" "mset (lengths_of codes) = mset ?l"
    using canonical_codebook [OF assms(1), of ?l cb] by blast
  then show ?thesis using False m by (simp add: make_canonical_codes_def Let_def)
qed

subsection \<open>Storing codes\<close>

definition store_codes :: "(u64 \<times> bool list) list \<Rightarrow> huffman_codebook \<Rightarrow> huffman_codebook" where
  "store_codes cs cb = fold (\<lambda>(s, c). store_code s c) cs cb"

lemma store_codes_append: "store_codes (xs @ ys) cb = store_codes ys (store_codes xs cb)"
  by (simp add: store_codes_def)

lemma store_codes_fresh:
  assumes "distinct (map fst (hc_codes cb) @ map fst cs)"
  shows "hc_codes (store_codes cs cb) = hc_codes cb @ map (\<lambda>(s, c). (s, code_entry_of c)) cs \<and>
    hc_max_code_length cb \<le> hc_max_code_length (store_codes cs cb) \<and>
    (\<forall>p \<in> set cs. of_nat (length (snd p)) \<le> hc_max_code_length (store_codes cs cb)) \<and>
    hc_freq_table (store_codes cs cb) = hc_freq_table cb"
  using assms
proof (induction cs arbitrary: cb)
  case (Cons p cs)
  obtain s c where p: "p = (s, c)" by (cases p)
  have "s \<notin> fst ` set (hc_codes cb)" using Cons.prems p by auto
  note upd = update_new [OF this]
  have "distinct (map fst (hc_codes (store_code s c cb)) @ map fst cs)"
    using Cons.prems p by (simp add: store_code_def upd)
  from Cons.IH [OF this] show ?case by (simp add: p store_codes_def store_code_def upd)
qed (simp add: store_codes_def)

text \<open>A complete code that fits 64 bits becomes a well-formed canonical codebook.\<close>

lemma canonical_of_complete:
  assumes "cxx_ok cx" and "complete_code c cs" and "distinct (map fst cs)" and "hc_codes cb = []"
    and "\<forall>p \<in> set cs. length (snd p) \<le> 64"
  shows "\<exists>cb'. make_canonical_codes cx (store_codes cs cb) = Inr cb' \<and> codebook_ok cb' \<and>
    mset (lengths_of (hc_codes cb')) = mset (map (\<lambda>(s, c). (s, of_nat (length c))) cs) \<and>
    mset (map fst (hc_codes cb')) = mset (map fst cs) \<and> hc_freq_table cb' = hc_freq_table cb"
proof -
  let ?cb = "store_codes cs cb"
  have st: "hc_codes ?cb = map (\<lambda>(s, c). (s, code_entry_of c)) cs"
    "\<forall>p \<in> set cs. of_nat (length (snd p)) \<le> hc_max_code_length ?cb" "hc_freq_table ?cb = hc_freq_table cb"
    using store_codes_fresh [of cb cs] assms(3,4) by auto
  have l: "lengths_of (hc_codes ?cb) = map (\<lambda>(s, c). (s, of_nat (length c))) cs"
    by (simp add: st(1) code_entry_of_def case_prod_beta comp_def)
  have u: "unat (of_nat (length (snd p)) :: u64) = length (snd p)" if "p \<in> set cs" for p
    using assms(5) that by (auto dest!: bspec simp: unat_of_nat)
  have "kraft 64 (map (unat \<circ> snd) (lengths_of (hc_codes ?cb))) = kraft 64 (map (length \<circ> snd) cs)"
    by (rule arg_cong [where f = "kraft 64"]) (simp add: l u comp_def case_prod_beta)
  then have "kraft 64 (map (unat \<circ> snd) (lengths_of (hc_codes ?cb))) \<le> 2 ^ 64"
    using complete_code_kraft [OF assms(2,5)] power_increasing [of "64 - length c" 64 "2 :: nat"] by simp
  moreover have "\<forall>p \<in> set (lengths_of (hc_codes ?cb)). snd p \<le> 64"
    using assms(5) u by (auto simp: l word_le_nat_alt)
  ultimately have "kraft_ok (lengths_of (hc_codes ?cb))" by (simp add: kraft_ok_def)
  moreover have "distinct (map fst (hc_codes ?cb))" using assms(3) by (simp add: st(1) comp_def case_prod_beta)
  moreover have "\<forall>p \<in> set (lengths_of (hc_codes ?cb)). snd p \<le> hc_max_code_length ?cb" using st(2) l by auto
  ultimately obtain cb' where cb': "make_canonical_codes cx ?cb = Inr cb'" "codebook_ok cb'"
    "mset (lengths_of (hc_codes cb')) = mset (lengths_of (hc_codes ?cb))" "hc_freq_table cb' = hc_freq_table ?cb"
    using make_canonical_ok [OF assms(1), of ?cb] by blast
  have "mset (map fst (lengths_of (hc_codes cb'))) = mset (map fst (lengths_of (hc_codes ?cb)))"
    using arg_cong [OF cb'(3), of "image_mset fst"] by (simp only: mset_map)
  then have "mset (map fst (hc_codes cb')) = mset (map fst cs)"
    unfolding fst_lengths_of st(1) by (simp add: comp_def case_prod_beta)
  with cb' l st(3) show ?thesis by auto
qed

section \<open>Huffman trees\<close>

fun tree_codes :: "huffman_node \<Rightarrow> bool list \<Rightarrow> (u64 \<times> bool list) list" where
  "tree_codes (HLeaf symbol f) code = [(symbol, code)]"
| "tree_codes (HNode f l r) code = tree_codes l (code @ [False]) @ tree_codes r (code @ [True])"
| "tree_codes (HOnly f l) code = tree_codes l (code @ [False])"

lemma generate_codes_from_tree_stores: "generate_codes_from_tree t code cb = store_codes (tree_codes t code) cb"
  by (induction t code cb rule: generate_codes_from_tree.induct)
    (simp_all add: store_codes_append, simp add: store_codes_def)

text \<open>The leaves, in order, and the trees the merging makes: every inner node carries the sum of its children.\<close>

fun leaves :: "huffman_node \<Rightarrow> pair list" where
  "leaves (HLeaf s f) = [(s, f)]"
| "leaves (HNode f l r) = leaves l @ leaves r"
| "leaves (HOnly f l) = leaves l"

fun weighted :: "huffman_node \<Rightarrow> bool" where
  "weighted (HLeaf s f) = True"
| "weighted (HNode f l r) = (f = node_frequency l + node_frequency r \<and> weighted l \<and> weighted r)"
| "weighted (HOnly f l) = False"

lemma tree_codes_symbols: "map fst (tree_codes t code) = map fst (leaves t)"
  by (induction t arbitrary: code) auto

lemma tree_codes_complete: "weighted t \<Longrightarrow> complete_code code (tree_codes t code)"
  by (induction t arbitrary: code) (auto intro: complete_code.intros)

lemma weighted_frequency: "weighted t \<Longrightarrow> node_frequency t = (\<Sum>p \<leftarrow> leaves t. snd p)"
  by (induction t) auto

lemma pq_pop_mset:
  assumes "q \<noteq> []"
  shows "mset q = add_mset (fst (pq_pop cx q)) (mset (snd (pq_pop cx q)))"
proof -
  define i where "i = min (cx_top cx (map node_frequency q)) (length q - 1)"
  have "i < length q" using assms by (cases q) (auto simp: i_def)
  then have "q = take i q @ q ! i # drop (Suc i) q" by (rule id_take_nth_drop)
  then have "mset q = mset (take i q @ q ! i # drop (Suc i) q)" by simp
  then show ?thesis unfolding pq_pop_def Let_def i_def [symmetric] by simp
qed

text \<open>One round of the loop takes two nodes and puts back their parent.\<close>

lemma merge_round:
  assumes "2 \<le> length q"
  obtains l q1 r q2 where "pq_pop cx q = (l, q1)" "pq_pop cx q1 = (r, q2)" "mset q = add_mset l (add_mset r (mset q2))"
    "merge_nodes cx q = merge_nodes cx (q2 @ [huffman_inner l r])"
proof -
  obtain l q1 where l: "pq_pop cx q = (l, q1)" by (cases "pq_pop cx q")
  obtain r q2 where r: "pq_pop cx q1 = (r, q2)" by (cases "pq_pop cx q1")
  have "q \<noteq> []" using assms by auto
  then have "length q1 = length q - 1" using pq_pop_length [of q cx] l by simp
  then have "q1 \<noteq> []" using assms by auto
  then have "mset q = add_mset l (add_mset r (mset q2))"
    using pq_pop_mset [OF \<open>q \<noteq> []\<close>, of cx] pq_pop_mset [of q1 cx] l r by simp
  moreover have "merge_nodes cx q = merge_nodes cx (q2 @ [huffman_inner l r])"
    using assms l r by (subst merge_nodes.simps) simp
  ultimately show ?thesis using that l r by blast
qed

text \<open>The merging ends with one tree that has the leaves of all, and keeps an invariant of the queue.\<close>

lemma merge_nodes_invariant:
  assumes "q \<noteq> []" and "P q"
    and "\<And>q l q1 r q2. P q \<Longrightarrow> 2 \<le> length q \<Longrightarrow> pq_pop cx q = (l, q1) \<Longrightarrow> pq_pop cx q1 = (r, q2) \<Longrightarrow>
      P (q2 @ [huffman_inner l r])"
  shows "\<exists>t. merge_nodes cx q = [t] \<and> P [t]"
  using assms(1,2)
proof (induction "length q" arbitrary: q rule: less_induct)
  case less
  show ?case
  proof (cases "2 \<le> length q")
    case True
    then obtain l q1 r q2 where m: "pq_pop cx q = (l, q1)" "pq_pop cx q1 = (r, q2)"
      "mset q = add_mset l (add_mset r (mset q2))" "merge_nodes cx q = merge_nodes cx (q2 @ [huffman_inner l r])"
      by (rule merge_round)
    have "length q = Suc (Suc (length q2))" using arg_cong [OF m(3), of size] by simp
    then show ?thesis using less(1) [of "q2 @ [huffman_inner l r]"] assms(3) [OF less(3) True m(1,2)] m(4) by simp
  next
    case False
    then obtain t where "q = [t]" using less(2) by (cases q) (auto simp: Suc_le_eq)
    then show ?thesis using less(3) by (simp add: merge_nodes.simps)
  qed
qed

lemma mset_leaves: "mset q = mset q' \<Longrightarrow> mset (concat (map leaves q)) = mset (concat (map leaves q'))"
  by (simp add: mset_concat flip: sum_mset_sum_list)

lemma build_tree_ok:
  assumes "ps \<noteq> []"
  shows "\<exists>t. build_tree cx ps = Inr t \<and> mset (leaves t) = mset ps \<and>
    (case t of HOnly f l \<Rightarrow> weighted l \<and> length ps = 1 | _ \<Rightarrow> weighted t \<and> 2 \<le> length ps)"
proof (cases "length ps = 1")
  case True
  then obtain p where "ps = [p]" by (cases ps) auto
  then show ?thesis by (cases p) (simp add: build_tree_def)
next
  case False
  let ?q = "map (\<lambda>(s, f). HLeaf s f) ps"
  let ?P = "\<lambda>q. (\<forall>t \<in> set q. weighted t) \<and> mset (concat (map leaves q)) = mset ps"
  have "concat (map leaves ?q) = ps" by (induction ps) auto
  then have init: "?P ?q" by auto
  have step: "?P (q2 @ [huffman_inner l r])"
    if "?P q" "2 \<le> length q" "pq_pop cx q = (l, q1)" "pq_pop cx q1 = (r, q2)" for q l q1 r q2
  proof -
    from that(2) obtain l' q1' r' q2' where m: "pq_pop cx q = (l', q1')" "pq_pop cx q1' = (r', q2')"
      "mset q = add_mset l' (add_mset r' (mset q2'))" by (rule merge_round)
    then have m: "mset q = mset (l # r # q2)" using that by simp
    have "set q = set (l # r # q2)" using mset_eq_setD [OF m] .
    then show ?thesis using that(1) mset_leaves [OF m] by (simp add: huffman_inner_def ac_simps)
  qed
  have "\<exists>t. merge_nodes cx ?q = [t] \<and> ?P [t]"
    by (rule merge_nodes_invariant [of ?q ?P, OF _ init]) (use assms in simp, rule step)
  then obtain t where t: "merge_nodes cx ?q = [t]" "?P [t]" by blast
  have "2 \<le> length ps" using assms False by (cases ps) (auto simp: Suc_le_eq)
  moreover have "build_tree cx ps = Inr t" using t(1) False assms by (simp add: build_tree_def Let_def)
  moreover have "mset (leaves t) = mset ps" "weighted t" using t(2) by simp_all
  ultimately show ?thesis by (cases t) simp_all
qed

lemma top_frequencies_distinct:
  assumes "cxx_ok cx" and "distinct (map fst (ft_frequency_map t))"
  shows "distinct (map fst (get_top_frequencies cx t))" and
    "length (get_top_frequencies cx t) \<le> unat (ft_final_table_size t)"
proof -
  let ?s = "cx_sort cx by_count_desc (cx_iter cx (ft_frequency_map t))"
  have "mset (map fst ?s) = mset (map fst (ft_frequency_map t))"
    using sort_ok(3) [OF assms(1), of "ft_frequency_map t"] by simp
  then have "distinct (map fst ?s)" using assms(2) mset_eq_imp_distinct_iff by blast
  then show "distinct (map fst (get_top_frequencies cx t))"
    by (simp add: get_top_frequencies_def Let_def take_map [symmetric])
  show "length (get_top_frequencies cx t) \<le> unat (ft_final_table_size t)"
    by (simp add: get_top_frequencies_def Let_def)
qed

text \<open>If all codes of the tree fit 64 bits, the generator succeeds and the codebook is well-formed.\<close>

lemma generate_huffman_codes_fit:
  assumes "cxx_ok cx" and "distinct (map fst (ft_frequency_map (hc_freq_table cb)))"
    and "fp = get_top_frequencies cx (hc_freq_table cb)" and "fp \<noteq> []"
    and "\<forall>t. build_tree cx (cx_sort cx by_count fp) = Inr t \<longrightarrow> (\<forall>p \<in> set (tree_codes t []). length (snd p) \<le> 64)"
  shows "\<exists>cb' t. build_tree cx (cx_sort cx by_count fp) = Inr t \<and>
    generate_huffman_codes cx cb = Inr (of_nat (length fp), cb') \<and> codebook_ok cb' \<and>
    mset (map fst (hc_codes cb')) = mset (map fst fp) \<and>
    mset (lengths_of (hc_codes cb')) = mset (map (\<lambda>(s, c). (s, of_nat (length c))) (tree_codes t []))"
proof -
  let ?s = "cx_sort cx by_count fp"
  have ms: "mset ?s = mset fp" using assms(1) weak_order_counts(1) by (simp add: cxx_ok_def)
  have "?s \<noteq> []" using ms assms(4) by auto
  then obtain t where t: "build_tree cx ?s = Inr t" "mset (leaves t) = mset ?s"
    "case t of HOnly f l \<Rightarrow> weighted l \<and> length ?s = 1 | _ \<Rightarrow> weighted t \<and> 2 \<le> length ?s"
    using build_tree_ok by blast
  have sy: "mset (map fst (tree_codes t [])) = mset (map fst fp)"
    using t(2) ms unfolding tree_codes_symbols by simp
  have "distinct (map fst (tree_codes t []))"
    using sy top_frequencies_distinct(1) [OF assms(1,2)] assms(3) mset_eq_imp_distinct_iff by blast
  moreover have "weighted t \<or> (\<exists>f l. t = HOnly f l \<and> weighted l)"
    using t(3) by (cases t) simp_all
  then have "complete_code [] (tree_codes t []) \<or> complete_code [False] (tree_codes t [])"
    by (auto intro: tree_codes_complete)
  then obtain c where "complete_code c (tree_codes t [])" by blast
  ultimately obtain cb' where cb': "make_canonical_codes cx (store_codes (tree_codes t []) (clear_codes cb)) = Inr cb'"
    "codebook_ok cb'" "mset (lengths_of (hc_codes cb')) = mset (map (\<lambda>(s, c). (s, of_nat (length c))) (tree_codes t []))"
    and f: "mset (map fst (hc_codes cb')) = mset (map fst fp)"
    using sy canonical_of_complete [OF assms(1), of c "tree_codes t []" "clear_codes cb"] assms(5) t(1)
    by (auto simp: clear_codes_def)
  have "length (hc_codes cb') = length fp" using arg_cong [OF f, of size] by simp
  then have "generate_huffman_codes cx cb = Inr (of_nat (length fp), cb')"
    using cb'(1) t(1) assms(3,4)
    by (simp add: generate_huffman_codes_def Let_def generate_codes_from_tree_stores hc_size_def clear_codes_def)
  with t(1) cb'(2,3) f show ?thesis by blast
qed

subsection \<open>The depth of a Huffman tree\<close>

text \<open>Merging the two rarest nodes makes the weights along a path grow like the Fibonacci numbers: a
  sibling weighs at least as much as each child of the other.\<close>

definition weight :: "huffman_node \<Rightarrow> nat" where
  "weight t = (\<Sum>p \<leftarrow> leaves t. unat (snd p))"

fun kid_weight :: "huffman_node \<Rightarrow> nat" where
  "kid_weight (HNode f l r) = max (weight l) (weight r)"
| "kid_weight t = 0"

fun greedy :: "huffman_node \<Rightarrow> bool" where
  "greedy (HNode f l r) \<longleftrightarrow> greedy l \<and> greedy r \<and> kid_weight l \<le> weight r \<and> kid_weight r \<le> weight l"
| "greedy t = True"

fun depth :: "huffman_node \<Rightarrow> nat" where
  "depth (HLeaf s f) = 0"
| "depth (HNode f l r) = Suc (max (depth l) (depth r))"
| "depth (HOnly f l) = Suc (depth l)"

fun fibo :: "nat \<Rightarrow> nat" where
  "fibo 0 = 0"
| "fibo (Suc 0) = 1"
| "fibo (Suc (Suc n)) = fibo (Suc n) + fibo n"

lemma fibo_less: "fibo (n + 8) < 2 ^ (n + 5)"
  by (induction n rule: fibo.induct) (auto simp: eval_nat_numeral)

lemma fibo_mono: "m \<le> n \<Longrightarrow> fibo m \<le> fibo n"
proof -
  have "fibo n \<le> fibo (Suc n)" for n by (induction n rule: fibo.induct) auto
  then show "m \<le> n \<Longrightarrow> fibo m \<le> fibo n" by (rule lift_Suc_mono_le)
qed

lemma weight_node [simp]: "weight (HNode f l r) = weight l + weight r"
  by (simp add: weight_def)

lemma tree_codes_depth: "p \<in> set (tree_codes t code) \<Longrightarrow> length (snd p) \<le> length code + depth t"
  by (induction t arbitrary: code) (auto, force+)

lemma greedy_fibo:
  assumes "weighted t" and "greedy t" and "\<forall>p \<in> set (leaves t). snd p \<noteq> 0"
  shows "fibo (depth t + 2) \<le> weight t \<and> (0 < depth t \<longrightarrow> fibo (depth t + 1) \<le> kid_weight t)"
  using assms
proof (induction t)
  case (HLeaf s f)
  then show ?case by (simp add: weight_def unat_gt_0 Suc_le_eq)
next
  case (HNode f l r)
  then have l: "fibo (depth l + 2) \<le> weight l" "0 < depth l \<Longrightarrow> fibo (depth l + 1) \<le> weight r"
    and r: "fibo (depth r + 2) \<le> weight r" "0 < depth r \<Longrightarrow> fibo (depth r + 1) \<le> weight l"
    by auto
  have "1 \<le> fibo (d + 2)" for d using fibo_mono [of 1 "d + 2"] by simp
  then have one: "1 \<le> weight l" "1 \<le> weight r" using l(1) r(1) le_trans by blast+
  have grow: "fibo (Suc d + 2) \<le> a + b" if "fibo (d + 2) \<le> a" "0 < d \<Longrightarrow> fibo (d + 1) \<le> b" "1 \<le> b" for d a b
    using that by (cases d) auto
  show ?case
  proof (cases "depth l \<le> depth r")
    case True
    then show ?thesis using grow [OF r one(1)] r(1) by (simp add: max_def)
  next
    case False
    then show ?thesis using grow [OF l one(2)] l(1) by (simp add: max_def)
  qed
qed simp

lemma node_frequency_weight: "weighted t \<Longrightarrow> node_frequency t = of_nat (weight t)"
  by (induction t) (auto simp: weight_def)

lemma pq_pop_least:
  assumes "cxx_ok cx" and "q \<noteq> []" and "b \<in> set q"
  shows "node_frequency (fst (pq_pop cx q)) \<le> node_frequency b"
proof -
  let ?fs = "map node_frequency q"
  have t: "cx_top cx ?fs < length q" "\<forall>f \<in> set ?fs. ?fs ! cx_top cx ?fs \<le> f"
    using assms(1,2) unfolding cxx_ok_def by (metis length_map map_is_Nil_conv)+
  then have "min (cx_top cx ?fs) (length q - 1) = cx_top cx ?fs" by simp
  then show ?thesis using t assms(3) by (simp add: pq_pop_def Let_def)
qed

definition greedy_queue :: "pair list \<Rightarrow> huffman_node list \<Rightarrow> bool" where
  "greedy_queue ps q \<longleftrightarrow> (\<forall>a \<in> set q. weighted a \<and> greedy a \<and> (\<forall>b \<in> set q. kid_weight a \<le> weight b)) \<and>
     mset (concat (map leaves q)) = mset ps"

lemma queue_weight:
  assumes "mset (concat (map leaves q)) = mset ps" and "a \<in> set q"
  shows "weight a \<le> (\<Sum>p \<leftarrow> ps. unat (snd p))"
proof -
  have "(\<Sum>p \<leftarrow> concat (map leaves q). unat (snd p)) = (\<Sum>p \<leftarrow> ps. unat (snd p))"
    using arg_cong [OF assms(1), of "\<lambda>m. \<Sum>p \<in># m. unat (snd p)"] by (simp flip: sum_mset_sum_list)
  moreover have "weight a \<le> (\<Sum>p \<leftarrow> concat (map leaves q). unat (snd p))"
    using assms(2) by (induction q) (auto simp: weight_def)
  ultimately show ?thesis by simp
qed

lemma greedy_queue_step:
  assumes "cxx_ok cx" and "(\<Sum>p \<leftarrow> ps. unat (snd p)) < 2 ^ 64" and "greedy_queue ps q" and "2 \<le> length q"
    and "pq_pop cx q = (l, q1)" and "pq_pop cx q1 = (r, q2)"
  shows "greedy_queue ps (q2 @ [huffman_inner l r])"
proof -
  have q: "\<And>a. a \<in> set q \<Longrightarrow> weighted a \<and> greedy a" "\<And>a b. a \<in> set q \<Longrightarrow> b \<in> set q \<Longrightarrow> kid_weight a \<le> weight b"
    and ms: "mset (concat (map leaves q)) = mset ps" using assms(3) by (auto simp: greedy_queue_def)
  have u: "unat (node_frequency a) = weight a" if "a \<in> set q" for a
    using node_frequency_weight [of a] q(1) [OF that] queue_weight [OF ms that] assms(2) by (simp add: unat_of_nat)
  have ne: "q \<noteq> []" using assms(4) by auto
  then have ne1: "q1 \<noteq> []" using assms(4,5) pq_pop_length [of q cx] by auto
  have m1: "mset q = mset (l # q1)" and m2: "mset q1 = mset (r # q2)"
    using pq_pop_mset [OF ne, of cx] pq_pop_mset [OF ne1, of cx] assms(5,6) by simp_all
  have s1: "set q = set (l # q1)" and s2: "set q1 = set (r # q2)" using mset_eq_setD m1 m2 by blast+
  have le: "weight l \<le> weight b" if "b \<in> set q" for b
    using pq_pop_least [OF assms(1) ne that] assms(5) u [OF that] u [of l] s1 by (simp add: word_le_nat_alt)
  have le2: "weight r \<le> weight b" if "b \<in> set q1" for b
    using pq_pop_least [OF assms(1) ne1 that] assms(6) u [of b] u [of r] s1 s2 that by (simp add: word_le_nat_alt)
  have in_q: "l \<in> set q" "r \<in> set q" "\<And>b. b \<in> set q2 \<Longrightarrow> b \<in> set q \<and> b \<in> set q1" using s1 s2 by auto
  have inner: "weighted (huffman_inner l r)" "greedy (huffman_inner l r)" "weight (huffman_inner l r) = weight l + weight r"
    "kid_weight (huffman_inner l r) = max (weight l) (weight r)"
    using q in_q by (simp_all add: huffman_inner_def)
  have "kid_weight a \<le> weight b" if "a \<in> set (q2 @ [huffman_inner l r])" "b \<in> set (q2 @ [huffman_inner l r])" for a b
    using that inner(3,4) q(2) [of a l] q(2) [of a b] in_q le [of b] le2 [of b] by auto
  moreover have "mset (concat (map leaves (q2 @ [huffman_inner l r]))) = mset ps"
    using mset_leaves [OF m1] mset_leaves [OF m2] ms by (simp add: huffman_inner_def ac_simps)
  ultimately show ?thesis using inner(1,2) q(1) in_q(3) by (auto simp: greedy_queue_def)
qed

text \<open>The codes of a tree built from positive counts with a total below a Fibonacci number.\<close>

lemma build_tree_depth:
  assumes "cxx_ok cx" and "\<forall>p \<in> set ps. snd p \<noteq> 0" and "(\<Sum>p \<leftarrow> ps. unat (snd p)) < fibo (d + 3)"
    and "d < 65" and "build_tree cx ps = Inr t" and "0 < d"
  shows "depth t \<le> d"
proof (cases "length ps = 1")
  case True
  then obtain p where "ps = [p]" by (cases ps) auto
  then show ?thesis using assms(5,6) by (cases p) (auto simp: build_tree_def)
next
  case False
  let ?q = "map (\<lambda>(s, f). HLeaf s f) ps"
  have ne: "?q \<noteq> []" using assms(5) by (auto simp: build_tree_def)
  have "concat (map leaves ?q) = ps" by (induction ps) auto
  then have init: "greedy_queue ps ?q" by (auto simp: greedy_queue_def)
  have "fibo (d + 3) \<le> fibo (59 + 8)" using assms(4) by (intro fibo_mono) simp
  also have "\<dots> < 2 ^ (59 + 5)" by (rule fibo_less)
  also have "\<dots> = 2 ^ 64" by simp
  finally have "(\<Sum>p \<leftarrow> ps. unat (snd p)) < 2 ^ 64" using assms(3) by linarith
  note step = greedy_queue_step [OF assms(1) this]
  have "\<exists>t. merge_nodes cx ?q = [t] \<and> greedy_queue ps [t]"
    by (rule merge_nodes_invariant [of ?q "greedy_queue ps", OF ne init]) (rule step)
  then have t: "greedy_queue ps [t]" using assms(5) False ne by (auto simp: build_tree_def Let_def)
  then have ml: "mset (leaves t) = mset ps" by (simp add: greedy_queue_def)
  have "fibo (depth t + 2) \<le> weight t"
    using greedy_fibo [of t] t mset_eq_setD [OF ml] assms(2) by (simp add: greedy_queue_def)
  also have "\<dots> < fibo (d + 3)" using queue_weight [of "[t]" ps t] ml assms(3) by simp
  finally have "\<not> d + 3 \<le> depth t + 2" using fibo_mono [of "d + 3" "depth t + 2"] by linarith
  then show ?thesis by simp
qed

subsection \<open>The generator\<close>

lemma generate_huffman_codes_ok:
  assumes "cxx_ok cx" and "distinct (map fst (ft_frequency_map (hc_freq_table cb)))"
    and "fp = get_top_frequencies cx (hc_freq_table cb)" and "fp \<noteq> []"
    and "\<forall>p \<in> set fp. snd p \<noteq> 0" and "(\<Sum>p \<leftarrow> fp. unat (snd p)) < fibo 67"
  shows "\<exists>cb'. generate_huffman_codes cx cb = Inr (of_nat (length fp), cb') \<and> codebook_ok cb' \<and>
    mset (map fst (hc_codes cb')) = mset (map fst fp)"
proof -
  let ?s = "cx_sort cx by_count fp"
  have ms: "mset ?s = mset fp" using assms(1) weak_order_counts(1) by (simp add: cxx_ok_def)
  have "(\<Sum>p \<leftarrow> ?s. unat (snd p)) = (\<Sum>p \<leftarrow> fp. unat (snd p))"
    using arg_cong [OF ms, of "\<lambda>m. \<Sum>p \<in># m. unat (snd p)"] by (simp flip: sum_mset_sum_list)
  then have "depth t \<le> 64" if "build_tree cx ?s = Inr t" for t
    using build_tree_depth [OF assms(1), of ?s 64 t] that assms(5,6) mset_eq_setD [OF ms] by simp
  then have "\<forall>t. build_tree cx ?s = Inr t \<longrightarrow> (\<forall>p \<in> set (tree_codes t []). length (snd p) \<le> 64)"
    by (metis add_0 le_trans list.size(3) tree_codes_depth)
  from generate_huffman_codes_fit [OF assms(1-4) this] show ?thesis by blast
qed

lemma tree_codes_keep: "hc_freq_table (generate_codes_from_tree r c cb) = hc_freq_table cb \<and>
    hc_mag (generate_codes_from_tree r c cb) = hc_mag cb"
  by (induction r c cb rule: generate_codes_from_tree.induct) (simp_all add: store_code_def)

lemma canonical_keep: "make_canonical_codes cx cb = Inr cb' \<Longrightarrow>
    hc_freq_table cb' = hc_freq_table cb \<and> hc_mag cb' = hc_mag cb"
  by (auto simp: make_canonical_codes_def Let_def res_simps split: if_splits)

lemma generate_huffman_codes_keep: "generate_huffman_codes cx cb = Inr (n, cb') \<Longrightarrow>
    hc_freq_table cb' = hc_freq_table cb \<and> hc_mag cb' = hc_mag cb"
  by (auto simp: generate_huffman_codes_def clear_codes_def tree_codes_keep Let_def res_simps split: if_splits
      dest!: canonical_keep)

text \<open>C1: \<open>generate_huffman_codes\<close> succeeds and makes a prefix-free code.  If the most frequent symbols have
  positive counts whose total is below the 67th Fibonacci number (44945570212853), the Huffman tree is
  at most 64 deep, so no shift of the canonical numbering is too wide; every one of those symbols and no
  other gets a code, no code is a prefix of another symbol's, stored lengths are the lengths of the
  codes, and the recorded maximum bounds them.\<close>

theorem huffman_codes_prefix_free:
  assumes "cxx_ok cx" and "distinct (map fst (ft_frequency_map (hc_freq_table cb)))"
    and "fp = get_top_frequencies cx (hc_freq_table cb)" and "fp \<noteq> []"
    and "\<forall>p \<in> set fp. snd p \<noteq> 0" and "(\<Sum>p \<leftarrow> fp. unat (snd p)) < fibo 67"
  shows "\<exists>cb'. generate_huffman_codes cx cb = Inr (of_nat (length fp), cb') \<and> codebook_ok cb' \<and>
    mset (map fst (hc_codes cb')) = mset (map fst fp)"
  using assms by (rule generate_huffman_codes_ok)

definition test_book :: huffman_codebook where
  "test_book = \<lparr>hc_codes = [], hc_max_code_length = 0, hc_mag = 32, hc_freq_table =
     \<lparr>ft_checking_table_size = 9, ft_final_table_size = 4, ft_symbol_length = 16,
      ft_frequency_map = [(7, 5), (8, 1), (9, 4), (10, 2)]\<rparr>\<rparr>"

lemma test_book_top: "get_top_frequencies plain_lib (hc_freq_table test_book) = [(7, 5), (9, 4), (10, 2), (8, 1)]"
  by (simp add: test_book_def get_top_frequencies_def plain_lib_def by_count_desc_def)

lemma small_below_fibo: "n < 55 \<Longrightarrow> n < fibo 67"
proof -
  have "fibo 10 = 55" by (simp add: eval_nat_numeral)
  moreover have "fibo 10 \<le> fibo 67" by (rule fibo_mono) simp
  ultimately show "n < 55 \<Longrightarrow> n < fibo 67" by linarith
qed

theorem huffman_codes_prefix_free_witness:
  "\<exists>cb'. generate_huffman_codes plain_lib test_book = Inr (4, cb') \<and> codebook_ok cb' \<and>
    mset (map fst (hc_codes cb')) = {#7, 9, 10, 8#}"
  using huffman_codes_prefix_free [OF plain_lib_ok, of test_book] small_below_fibo [of 12]
  unfolding test_book_top by (simp add: test_book_def)

end
