(* ===== verification/Shannon_Codes.thy ===== *)
theory Shannon_Codes
  imports Codebook
begin

text \<open>
  The other two generators of \<open>huffman_codebook\<close>: \<open>shannon_fano_encode\<close> splits the sorted symbols where
  the halves are closest, \<open>generate_shannon_codes\<close> takes the lengths of Shannon's formula.

  Shown: the Shannon-Fano splits leave at most two thirds of the weight on a side that is split again,
  so the codes fit 64 bits for totals up to 1.5 to the power 65; the Shannon lengths, computed in
  \<open>double\<close>s, are exact and satisfy the Kraft inequality for totals up to \<open>2 ^ 44\<close>; both generators
  then make a well-formed codebook; with one symbol Shannon-Fano assigns the empty code.
\<close>

section \<open>The split\<close>

text \<open>The weight of the symbols from \<open>a\<close> up to and excluding \<open>b\<close>.\<close>

definition count_sum :: "pair list \<Rightarrow> nat \<Rightarrow> nat \<Rightarrow> nat" where
  "count_sum symbols a b = (\<Sum>i \<leftarrow> [a..<b]. unat (snd (symbols ! i)))"

lemma count_sum_Suc: "a \<le> b \<Longrightarrow> count_sum symbols a (Suc b) = count_sum symbols a b + unat (snd (symbols ! b))"
  by (simp add: count_sum_def)

lemma count_sum_empty [simp]: "count_sum symbols a a = 0"
  by (simp add: count_sum_def)

lemma count_sum_split: "a \<le> b \<Longrightarrow> b \<le> c \<Longrightarrow> count_sum symbols a c = count_sum symbols a b + count_sum symbols b c"
  using upt_add_eq_append [of a b "c - b"] by (simp add: count_sum_def)

lemma half_distance_int:
  assumes "c \<le> t" and "t < 2 ^ 63"
  shows "half_distance (of_nat c) (of_nat t) = Inr \<bar>2 * int c - int t\<bar>"
proof -
  let ?d = "of_nat c * 2 - of_nat t :: u64"
  have "?d = word_of_int (2 * int c - int t)" by (simp add: mult.commute)
  then have s: "sint ?d = signed_take_bit 63 (2 * int c - int t)" by (simp only: sint_sbintrunc') simp
  also have "\<dots> = 2 * int c - int t" using assms by (intro signed_take_bit_int_eq_self) simp_all
  finally have s: "sint ?d = 2 * int c - int t" .
  moreover have "sint (0x8000000000000000 :: u64) = - (2 ^ 63)" by simp
  then have "?d \<noteq> 0x8000000000000000" using s assms by auto
  ultimately show ?thesis by (simp add: half_distance_def Let_def)
qed

text \<open>The distance of the sum up to \<open>j\<close> from half the total.\<close>

definition gap :: "pair list \<Rightarrow> nat \<Rightarrow> nat \<Rightarrow> nat \<Rightarrow> int" where
  "gap symbols start stop j = \<bar>2 * int (count_sum symbols start j) - int (count_sum symbols start (Suc stop))\<bar>"

lemma find_split_spec:
  assumes "start \<le> i" and "i \<le> Suc stop" and "count_sum symbols start (Suc stop) < 2 ^ 63"
  shows "\<exists>s. find_split symbols (of_nat (count_sum symbols start (Suc stop))) [i..<Suc stop]
      (of_nat (count_sum symbols start i)) sp = Inr s \<and>
    (if i \<le> stop \<and> gap symbols start stop (Suc i) \<le> gap symbols start stop i
     then i \<le> s \<and> s \<le> stop \<and> gap symbols start stop (Suc s) \<le> gap symbols start stop s \<and>
       (s = stop \<or> gap symbols start stop (Suc s) < gap symbols start stop (Suc (Suc s)))
     else s = sp)"
  using assms
proof (induction "Suc stop - i" arbitrary: i sp)
  case (Suc n)
  have i: "i \<le> stop" using Suc.hyps(2) by simp
  then have u: "[i..<Suc stop] = i # [Suc i..<Suc stop]" by (simp add: upt_rec)
  let ?t = "count_sum symbols start (Suc stop)"
  have le: "count_sum symbols start (Suc i) \<le> ?t" "count_sum symbols start i \<le> ?t"
    using count_sum_split [of start "Suc i" "Suc stop" symbols] count_sum_split [of start i "Suc stop" symbols] i Suc.prems by auto
  have nx: "of_nat (count_sum symbols start i) + snd (symbols ! i) = (of_nat (count_sum symbols start (Suc i)) :: u64)"
    using count_sum_Suc [OF Suc.prems(1)] by simp
  note h = half_distance_int [OF le(1) Suc.prems(3)] half_distance_int [OF le(2) Suc.prems(3)]
  have f: "find_split symbols (of_nat ?t) [i..<Suc stop] (of_nat (count_sum symbols start i)) sp =
    (if gap symbols start stop (Suc i) \<le> gap symbols start stop i
     then find_split symbols (of_nat ?t) [Suc i..<Suc stop] (of_nat (count_sum symbols start (Suc i))) i else Inr sp)"
    unfolding u by (simp add: nx h gap_def Let_def del: upt_Suc)
  have "n = Suc stop - Suc i" "start \<le> Suc i" "Suc i \<le> Suc stop" using Suc.hyps(2) Suc.prems i by simp_all
  from Suc.hyps(1) [OF this Suc.prems(3), of i]
  obtain s where "find_split symbols (of_nat ?t) [Suc i..<Suc stop] (of_nat (count_sum symbols start (Suc i))) i = Inr s"
    "if Suc i \<le> stop \<and> gap symbols start stop (Suc (Suc i)) \<le> gap symbols start stop (Suc i)
     then Suc i \<le> s \<and> s \<le> stop \<and> gap symbols start stop (Suc s) \<le> gap symbols start stop s \<and>
       (s = stop \<or> gap symbols start stop (Suc s) < gap symbols start stop (Suc (Suc s)))
     else s = i" by blast
  then show ?case using f i by (auto split: if_splits simp del: upt_Suc)
qed simp

text \<open>The symbols come with positive counts, the most frequent first.\<close>

definition descending :: "pair list \<Rightarrow> bool" where
  "descending symbols \<longleftrightarrow> (\<forall>p \<in> set symbols. snd p \<noteq> 0) \<and> sorted_wrt (\<lambda>x y. snd x \<ge> snd y) symbols"

lemma descending_nth:
  assumes "descending symbols" and "i \<le> j" and "j < length symbols"
  shows "unat (snd (symbols ! j)) \<le> unat (snd (symbols ! i))" "0 < unat (snd (symbols ! j))"
proof -
  show "unat (snd (symbols ! j)) \<le> unat (snd (symbols ! i))"
    using assms by (cases "i = j") (auto simp: descending_def sorted_wrt_iff_nth_less word_le_nat_alt)
  show "0 < unat (snd (symbols ! j))"
    using assms by (auto simp: descending_def unat_gt_0)
qed

lemma balance_left:
  fixes a t x :: int
  assumes "\<bar>2 * a - t\<bar> \<le> \<bar>2 * (a - x) - t\<bar>" and "0 < x" and "2 * x \<le> a" and "0 \<le> t"
  shows "3 * a \<le> 2 * t"
  using assms by (auto simp: abs_if split: if_splits)

lemma balance_right:
  fixes a t y :: int
  assumes "\<bar>2 * a - t\<bar> < \<bar>2 * (a + y) - t\<bar>" and "0 < y" and "y \<le> a" and "0 \<le> t"
  shows "3 * (t - a) \<le> 2 * t"
  using assms by (auto simp: abs_if split: if_splits)

lemma balance_last:
  fixes w x :: int
  shows "0 < w \<Longrightarrow> 0 < x \<Longrightarrow> \<bar>w - x\<bar> < \<bar>w + x\<bar>"
  by (auto simp: abs_if)

lemma count_sum_word: "(\<Sum>i \<leftarrow> [a..<b]. snd (symbols ! i)) = (of_nat (count_sum symbols a b) :: u64)"
  by (induction b) (auto simp: count_sum_def)

lemma split_balanced:
  assumes "start < stop" and "stop < length symbols" and "descending symbols"
    and "count_sum symbols start (Suc stop) < 2 ^ 63"
  shows "\<exists>s. split_of symbols start stop = Inr s \<and> start \<le> s \<and> s < stop \<and>
    (start < s \<longrightarrow> 3 * count_sum symbols start (Suc s) \<le> 2 * count_sum symbols start (Suc stop)) \<and>
    3 * count_sum symbols (Suc s) (Suc stop) \<le> 2 * count_sum symbols start (Suc stop)"
proof -
  let ?W = "count_sum symbols start"
  define f where "f i = unat (snd (symbols ! i))" for i
  let ?t = "?W (Suc stop)" and ?g = "gap symbols start stop"
  have W: "?W (Suc i) = ?W i + f i" if "start \<le> i" for i using count_sum_Suc [OF that] by (simp add: f_def)
  have mono: "?W i \<le> ?W j" if "start \<le> i" "i \<le> j" for i j using count_sum_split [OF that, of symbols] by simp
  have pos: "0 < f i" if "i \<le> stop" for i using descending_nth(2) [OF assms(3), of i i] that assms(2) by (simp add: f_def)
  have first: "?g (Suc start) \<le> ?g start"
    using mono [of "Suc start" "Suc stop"] assms(1) by (simp add: gap_def)
  obtain s where s: "find_split symbols (of_nat ?t) [start..<Suc stop] 0 start = Inr s" "start \<le> s" "s \<le> stop"
    "?g (Suc s) \<le> ?g s" "s = stop \<or> ?g (Suc s) < ?g (Suc (Suc s))"
    using find_split_spec [of start start stop symbols start] assms(1,4) first by (auto simp del: upt_Suc)
  have "s \<noteq> stop"
  proof
    assume "s = stop"
    then have "\<bar>int (?W stop) + int (f stop)\<bar> \<le> \<bar>int (?W stop) - int (f stop)\<bar>"
      using s(4) W [of stop] assms(1) by (simp add: gap_def)
    moreover have "0 < ?W stop" using mono [of "Suc start" stop] W [of start] pos [of start] assms(1) by simp
    ultimately show False using balance_last [of "int (?W stop)" "int (f stop)"] pos [of stop] by linarith
  qed
  then have st: "s < stop" using s(3) by simp
  then have r: "split_of symbols start stop = Inr s"
    using s(1) \<open>s \<noteq> stop\<close> by (simp add: split_of_def count_sum_word Let_def del: upt_Suc)
  have left: "3 * ?W (Suc s) \<le> 2 * ?t" if "start < s"
  proof -
    have "f s \<le> f start" using descending_nth(1) [OF assms(3), of start s] that st assms(2) by (simp add: f_def)
    moreover have "f start \<le> ?W s" using mono [of "Suc start" s] W [of start] that by simp
    ultimately have "2 * int (f s) \<le> int (?W (Suc s))" using W [OF s(2)] by simp
    then have "3 * int (?W (Suc s)) \<le> 2 * int ?t"
      using balance_left [of "int (?W (Suc s))" "int ?t" "int (f s)"] s(4) W [OF s(2)] pos [of s] st by (simp add: gap_def)
    then show ?thesis by linarith
  qed
  have "f (Suc s) \<le> f s" using descending_nth(1) [OF assms(3), of s "Suc s"] st assms(2) by (simp add: f_def)
  then have y: "f (Suc s) \<le> ?W (Suc s)" using W [OF s(2)] by simp
  have "3 * (int ?t - int (?W (Suc s))) \<le> 2 * int ?t"
    using balance_right [of "int (?W (Suc s))" "int ?t" "int (f (Suc s))"] s(2,5) st W [of "Suc s"] pos [of "Suc s"] y
    by (simp add: gap_def)
  then have "3 * count_sum symbols (Suc s) (Suc stop) \<le> 2 * ?t"
    using count_sum_split [of start "Suc s" "Suc stop" symbols] s(2) st by simp
  with r s(2) st left show ?thesis by blast
qed

section \<open>Shannon-Fano codes\<close>

text \<open>A word \<open>d\<close> bits longer than the code of its range, where each bit leaves two thirds of the weight.\<close>

definition shallow :: "nat \<Rightarrow> nat \<Rightarrow> nat \<Rightarrow> bool" where
  "shallow base len w \<longleftrightarrow> base \<le> len \<and> 3 ^ (len - base) \<le> 2 ^ (len - base) * w"

lemma shallow_step:
  assumes "shallow (Suc base) len w'" and "3 * w' \<le> 2 * w"
  shows "shallow base len w"
proof -
  define d where "d = len - Suc base"
  have d: "len - base = Suc d" "Suc base \<le> len" "3 ^ d \<le> 2 ^ d * w'" using assms(1) by (auto simp: shallow_def d_def)
  have "3 ^ Suc d \<le> 2 ^ d * (3 * w')" using d(3) by simp
  also have "\<dots> \<le> 2 ^ Suc d * w" using assms(2) by (metis mult.assoc mult.commute mult_le_mono2 power_Suc)
  finally show ?thesis using d by (simp add: shallow_def)
qed

definition sf_codes_ok :: "pair list \<Rightarrow> nat \<Rightarrow> nat \<Rightarrow> bool list \<Rightarrow> (u64 \<times> bool list) list \<Rightarrow> bool" where
  "sf_codes_ok symbols start stop code cs \<longleftrightarrow>
     map fst cs = map (\<lambda>i. fst (symbols ! i)) [start..<Suc stop] \<and> complete_code code cs \<and>
     (\<forall>p \<in> set cs. shallow (length code) (length (snd p)) (count_sum symbols start (Suc stop)))"

lemma count_sum_ge:
  assumes "descending symbols" and "b \<le> length symbols" and "a \<le> b"
  shows "b - a \<le> count_sum symbols a b"
  using assms(2,3)
proof (induction b)
  case (Suc b)
  then show ?case using descending_nth(2) [OF assms(1), of b b] count_sum_Suc [of a b symbols]
    by (cases "a = Suc b") auto
qed simp

lemma sf_codes_join:
  assumes "sf_codes_ok symbols start s (code @ [False]) xs" and "sf_codes_ok symbols (Suc s) stop (code @ [True]) ys"
    and "start \<le> s" and "s < stop" and "stop < length symbols" and "descending symbols"
    and "start < s \<longrightarrow> 3 * count_sum symbols start (Suc s) \<le> 2 * count_sum symbols start (Suc stop)"
    and "3 * count_sum symbols (Suc s) (Suc stop) \<le> 2 * count_sum symbols start (Suc stop)"
  shows "sf_codes_ok symbols start stop code (xs @ ys)"
proof -
  let ?w = "count_sum symbols start (Suc stop)"
  have "[start..<Suc stop] = [start..<Suc s] @ [Suc s..<Suc stop]"
    using upt_add_eq_append [of start "Suc s" "stop - s"] assms(3,4) by simp
  then have "map fst (xs @ ys) = map (\<lambda>i. fst (symbols ! i)) [start..<Suc stop]"
    using assms(1,2) by (simp add: sf_codes_ok_def del: upt_Suc)
  moreover have "complete_code code (xs @ ys)" using assms(1,2) by (auto simp: sf_codes_ok_def intro: complete_code.node)
  moreover have "shallow (length code) (length (snd p)) ?w" if "p \<in> set ys" for p
    using assms(2,8) that shallow_step by (auto simp: sf_codes_ok_def)
  moreover have "shallow (length code) (length (snd p)) ?w" if p: "p \<in> set xs" for p
  proof (cases "start < s")
    case True
    then show ?thesis using assms(1,7) p shallow_step by (auto simp: sf_codes_ok_def)
  next
    case False
    then have "length xs = 1" using assms(1,3) arg_cong [of "map fst xs" _ length] by (auto simp: sf_codes_ok_def)
    then have "length (snd p) = Suc (length code)"
      using complete_code_lengths [of "code @ [False]" xs] assms(1) p by (auto simp: sf_codes_ok_def)
    moreover have "2 \<le> ?w" using count_sum_ge [OF assms(6), of "Suc stop" start] assms(3-5) by simp
    ultimately show ?thesis by (simp add: shallow_def)
  qed
  ultimately show ?thesis by (auto simp: sf_codes_ok_def)
qed

lemma sf_codes_single:
  assumes "descending symbols" and "i < length symbols"
  shows "sf_codes_ok symbols i i code [(fst (symbols ! i), code)]"
  using count_sum_ge [OF assms(1), of "Suc i" i] assms(2)
  by (auto simp: sf_codes_ok_def shallow_def intro: complete_code.leaf)

lemma sf_codes_pair:
  assumes "descending symbols" and "Suc i < length symbols"
  shows "sf_codes_ok symbols i (Suc i) code
    [(fst (symbols ! i), code @ [False]), (fst (symbols ! Suc i), code @ [True])]"
proof -
  have "2 \<le> count_sum symbols i (Suc (Suc i))" using count_sum_ge [OF assms(1), of "Suc (Suc i)" i] assms(2) by simp
  moreover have "complete_code code ([(fst (symbols ! i), code @ [False])] @ [(fst (symbols ! Suc i), code @ [True])])"
    by (intro complete_code.intros)
  ultimately show ?thesis by (auto simp: sf_codes_ok_def shallow_def)
qed

lemma shannon_fano_encode_ok:
  assumes "start \<le> stop" and "stop < length symbols" and "descending symbols"
    and "count_sum symbols start (Suc stop) < 2 ^ 63"
  shows "\<exists>cs. shannon_fano_encode symbols start stop code cb = Inr (store_codes cs cb) \<and>
    sf_codes_ok symbols start stop code cs"
  using assms(1,2,4)
proof (induction "stop - start" arbitrary: start stop code cb rule: less_induct)
  case less
  consider "start = stop" | "Suc start = stop" | "Suc start < stop" using less.prems(1) by linarith
  then show ?case
  proof cases
    case 1
    then show ?thesis using sf_codes_single [OF assms(3), of start code] less.prems
      by (subst shannon_fano_encode.simps) (auto simp: store_codes_def intro!: exI [of _ "[(fst (symbols ! start), code)]"])
  next
    case 2
    then show ?thesis using sf_codes_pair [OF assms(3), of start code] less.prems
      by (subst shannon_fano_encode.simps) (auto simp: store_codes_def
        intro!: exI [of _ "[(fst (symbols ! start), code @ [False]), (fst (symbols ! Suc start), code @ [True])]"])
  next
    case 3
    then obtain s where s: "split_of symbols start stop = Inr s" "start \<le> s" "s < stop"
      "start < s \<longrightarrow> 3 * count_sum symbols start (Suc s) \<le> 2 * count_sum symbols start (Suc stop)"
      "3 * count_sum symbols (Suc s) (Suc stop) \<le> 2 * count_sum symbols start (Suc stop)"
      using split_balanced [OF _ less.prems(2) assms(3) less.prems(3)] by auto
    have w: "count_sum symbols start (Suc s) < 2 ^ 63" "count_sum symbols (Suc s) (Suc stop) < 2 ^ 63"
      using count_sum_split [of start "Suc s" "Suc stop" symbols] s(2,3) less.prems(3) by auto
    have m: "s - start < stop - start" "stop - Suc s < stop - start" "s < length symbols" "Suc s \<le> stop"
      using s(2,3) less.prems(2) by auto
    obtain xs where xs: "shannon_fano_encode symbols start s (code @ [False]) cb = Inr (store_codes xs cb)"
      "sf_codes_ok symbols start s (code @ [False]) xs"
      using less.hyps [OF m(1) s(2) m(3) w(1)] by blast
    obtain ys where ys: "shannon_fano_encode symbols (Suc s) stop (code @ [True]) (store_codes xs cb) =
        Inr (store_codes ys (store_codes xs cb))" "sf_codes_ok symbols (Suc s) stop (code @ [True]) ys"
      using less.hyps [OF m(2,4) less.prems(2) w(2)] by blast
    have "shannon_fano_encode symbols start stop code cb = Inr (store_codes (xs @ ys) cb)"
      using 3 less.prems s(1) xs(1) ys(1) by (subst shannon_fano_encode.simps) (simp add: store_codes_append)
    then show ?thesis using sf_codes_join [OF xs(2) ys(2) s(2,3) less.prems(2) assms(3) s(4,5)] by blast
  qed
qed

lemma top_frequencies_sorted: "cxx_ok cx \<Longrightarrow> sorted_wrt (\<lambda>x y. snd x \<ge> snd y) (get_top_frequencies cx t)"
  using sort_ok(4) [of cx "ft_frequency_map t"] by (simp add: get_top_frequencies_def Let_def sorted_wrt_take)

lemma shallow_65:
  assumes "shallow 0 len w" and "w * 2 ^ 65 < 3 ^ 65"
  shows "len \<le> 64"
proof (rule ccontr)
  assume "\<not> len \<le> 64"
  have q: "3 ^ len \<le> 2 ^ len * w" using assms(1) by (simp add: shallow_def)
  define k where "k = len - 65"
  have k: "len = 65 + k" using \<open>\<not> len \<le> 64\<close> by (simp add: k_def)
  have "(3 :: nat) ^ 65 * 2 ^ k \<le> 3 ^ 65 * 3 ^ k" by (simp add: power_mono)
  also have "\<dots> \<le> 2 ^ 65 * w * 2 ^ k" using q by (simp only: k power_add ac_simps)
  finally have "(3 :: nat) ^ 65 \<le> 2 ^ 65 * w" by (simp only: mult_le_cancel2) simp
  then show False using assms(2) by (simp only: mult.commute [of w])
qed

lemma count_sum_all: "count_sum symbols 0 (length symbols) = (\<Sum>p \<leftarrow> symbols. unat (snd p))"
proof -
  have "map (\<lambda>i. unat (snd (symbols ! i))) [0..<length symbols] = map (\<lambda>p. unat (snd p)) symbols"
    by (rule nth_equalityI) auto
  then show ?thesis by (simp add: count_sum_def)
qed

lemma generate_shannon_fano_codes_ok:
  assumes "cxx_ok cx" and "distinct (map fst (ft_frequency_map (hc_freq_table cb)))"
    and "fp = get_top_frequencies cx (hc_freq_table cb)" and "fp \<noteq> []"
    and "\<forall>p \<in> set fp. snd p \<noteq> 0" and "(\<Sum>p \<leftarrow> fp. unat (snd p)) * 2 ^ 65 < 3 ^ 65"
  shows "\<exists>cb'. generate_shannon_fano_codes cx cb = Inr (of_nat (length fp), cb') \<and> codebook_ok cb' \<and>
    mset (map fst (hc_codes cb')) = mset (map fst fp)"
proof -
  let ?n = "length fp - 1"
  have n: "?n < length fp" "Suc ?n = length fp" using assms(4) by (cases fp; simp)+
  have d: "descending fp" using assms(3,5) top_frequencies_sorted [OF assms(1)] by (simp add: descending_def)
  have w: "count_sum fp 0 (Suc ?n) * 2 ^ 65 < 3 ^ 65" using count_sum_all [of fp] assms(6) n(2) by simp
  then have "count_sum fp 0 (Suc ?n) < 2 ^ 63" by simp
  from shannon_fano_encode_ok [OF le0 n(1) d this]
  obtain cs where cs: "shannon_fano_encode fp 0 ?n [] (clear_codes cb) = Inr (store_codes cs (clear_codes cb))"
    "sf_codes_ok fp 0 ?n [] cs" by blast
  have sy: "map fst cs = map fst fp"
    using cs(2) n(2) by (auto simp: sf_codes_ok_def simp del: upt_Suc intro: nth_equalityI)
  have "\<forall>p \<in> set cs. length (snd p) \<le> 64"
    using cs(2) shallow_65 [OF _ w] by (auto simp: sf_codes_ok_def)
  moreover have "distinct (map fst cs)"
    unfolding sy assms(3) by (rule top_frequencies_distinct(1) [OF assms(1,2)])
  moreover have "complete_code [] cs" using cs(2) by (simp add: sf_codes_ok_def)
  ultimately obtain cb' where cb': "make_canonical_codes cx (store_codes cs (clear_codes cb)) = Inr cb'" "codebook_ok cb'"
    "mset (map fst (hc_codes cb')) = mset (map fst fp)"
    using canonical_of_complete [OF assms(1), of "[]" cs "clear_codes cb"] sy by (auto simp: clear_codes_def)
  have "length (hc_codes cb') = length fp" using arg_cong [OF cb'(3), of size] by simp
  then have "generate_shannon_fano_codes cx cb = Inr (of_nat (length fp), cb')"
    using cs(1) cb'(1) assms(3,4) by (simp add: generate_shannon_fano_codes_def Let_def hc_size_def clear_codes_def)
  with cb'(2,3) show ?thesis by blast
qed

text \<open>C4: \<open>generate_shannon_fano_codes\<close> succeeds and makes a prefix-free code.  If the most frequent symbols
  have positive counts and their total is below 1.5 to the power 65, the splits are defined and balanced
  enough for all codes to fit 64 bits; every one of those symbols and no other gets a code, and no code
  is a prefix of another symbol's.\<close>

theorem shannon_fano_codes_prefix_free:
  assumes "cxx_ok cx" and "distinct (map fst (ft_frequency_map (hc_freq_table cb)))"
    and "fp = get_top_frequencies cx (hc_freq_table cb)" and "fp \<noteq> []"
    and "\<forall>p \<in> set fp. snd p \<noteq> 0" and "(\<Sum>p \<leftarrow> fp. unat (snd p)) * 2 ^ 65 < 3 ^ 65"
  shows "\<exists>cb'. generate_shannon_fano_codes cx cb = Inr (of_nat (length fp), cb') \<and> codebook_ok cb' \<and>
    mset (map fst (hc_codes cb')) = mset (map fst fp)"
  using assms by (rule generate_shannon_fano_codes_ok)

theorem shannon_fano_codes_prefix_free_witness:
  "\<exists>cb'. generate_shannon_fano_codes plain_lib test_book = Inr (4, cb') \<and> codebook_ok cb' \<and>
    mset (map fst (hc_codes cb')) = {#7, 9, 10, 8#}"
  using shannon_fano_codes_prefix_free [OF plain_lib_ok, of test_book]
  unfolding test_book_top by (simp add: test_book_def)

text \<open>With a single symbol Shannon-Fano coding stores a code of no bits, whatever the counts: the symbol
  is coded, with length zero (\<open>build_tree\<close> gives a single symbol the code 0).\<close>

theorem shannon_fano_single_symbol_empty_code:
  assumes "cxx_ok cx" and "get_top_frequencies cx (hc_freq_table cb) = [(symbol, cnt)]"
  shows "\<exists>cb'. generate_shannon_fano_codes cx cb = Inr (1, cb') \<and> has_code symbol cb' \<and>
    get_code_bits symbol cb' = [] \<and> get_code_length symbol cb' = 0 \<and> hc_max_code_length cb' = 0"
proof -
  let ?cb = "store_code symbol [] (clear_codes cb)"
  have "code_lengths_of cx ?cb = [(symbol, 0)]"
    using iter_ok [OF assms(1), of "[(symbol, 0)]"] by (simp add: code_lengths_of_def store_code_def clear_codes_def code_entry_of_def)
  moreover have "cx_sort cx by_length [(symbol, 0)] = [(symbol, 0)]"
    using sort_by_length(1) [OF assms(1), of "[(symbol, 0)]"] by simp
  ultimately have "make_canonical_codes cx ?cb = Inr ?cb"
    by (simp add: make_canonical_codes_def store_code_def clear_codes_def code_bits_def)
  moreover have "shannon_fano_encode [(symbol, cnt)] 0 0 [] (clear_codes cb) = Inr ?cb"
    by (subst shannon_fano_encode.simps) simp
  ultimately have "generate_shannon_fano_codes cx cb = Inr (1, ?cb)"
    using assms(2) by (simp add: generate_shannon_fano_codes_def Let_def clear_codes_def hc_size_def store_code_def)
  then show ?thesis
    by (simp add: has_code_def get_code_bits_def get_code_length_def store_code_def clear_codes_def code_entry_of_def)
qed

section \<open>Shannon codes\<close>

text \<open>The least \<open>k\<close> with \<open>tot \<le> f * 2 ^ k\<close>.\<close>

fun least_power :: "nat \<Rightarrow> nat \<Rightarrow> nat \<Rightarrow> nat \<Rightarrow> nat" where
  "least_power f tot 0 k = k"
| "least_power f tot (Suc n) k = (if tot \<le> f * 2 ^ k then k else least_power f tot n (Suc k))"

lemma least_power_spec:
  assumes "\<exists>j \<ge> k. j \<le> k + n \<and> tot \<le> f * 2 ^ j"
  shows "tot \<le> f * 2 ^ least_power f tot n k \<and> least_power f tot n k \<le> k + n \<and>
    (\<forall>j. k \<le> j \<and> j < least_power f tot n k \<longrightarrow> f * 2 ^ j < tot)"
  using assms
proof (induction n arbitrary: k)
  case (Suc n)
  show ?case
  proof (cases "tot \<le> f * 2 ^ k")
    case False
    then obtain j where "Suc k \<le> j" "j \<le> Suc k + n" "tot \<le> f * 2 ^ j"
      using Suc.prems by (metis add_Suc_shift le_neq_implies_less not_less_eq_eq not_le)
    with Suc.IH [of "Suc k"] have "tot \<le> f * 2 ^ least_power f tot n (Suc k) \<and> least_power f tot n (Suc k) \<le> Suc k + n \<and>
      (\<forall>j. Suc k \<le> j \<and> j < least_power f tot n (Suc k) \<longrightarrow> f * 2 ^ j < tot)" by blast
    then show ?thesis using False by (auto simp: not_le Suc_le_eq) (metis le_neq_implies_less)
  qed auto
qed auto

lemma least_power_44:
  assumes "0 < f" and "t \<le> 2 ^ 44"
  shows "t \<le> f * 2 ^ least_power f t 44 0" "least_power f t 44 0 \<le> 44" "j < least_power f t 44 0 \<Longrightarrow> f * 2 ^ j < t"
proof -
  have "(2 :: nat) ^ 44 \<le> f * 2 ^ 44" using assms(1) by simp
  then have "t \<le> f * 2 ^ 44" using assms(2) by (rule le_trans [rotated])
  then show "t \<le> f * 2 ^ least_power f t 44 0" "least_power f t 44 0 \<le> 44" "j < least_power f t 44 0 \<Longrightarrow> f * 2 ^ j < t"
    using least_power_spec [of 0 44 t f, OF exI [of _ 44]] by simp_all
qed

text \<open>In \<open>double\<close>s the length comes out as with exact numbers, for totals up to \<open>2 ^ 44\<close>: a quotient of such
  numbers that is not a power of two is further from one than the errors reach.\<close>

lemma code_length_44:
  assumes "log2_faithful lg" and "0 < f" and "f \<le> t" and "t \<le> 2 ^ 44"
  shows "\<lceil>- lg (to_double (to_double (real f) / to_double (real t)))\<rceil> = int (least_power f t 44 0)"
proof -
  let ?k = "least_power f t 44 0"
  note k = least_power_44 [OF assms(2,4)]
  have "to_double (real f) = real f" "to_double (real t) = real t"
    using to_double_int(1) [of "int f"] to_double_int(1) [of "int t"] assms(2-4) by simp_all
  moreover have "- lg (to_double (real f / real t)) \<le> real ?k"
    by (rule log2_double_upper [OF assms(1-4) k(1)]) (use k(2) in simp)
  moreover have "real ?k - 1 < - lg (to_double (real f / real t))"
  proof (cases ?k)
    case 0
    then have "f = t" using k(1) assms(3) by simp
    moreover have "lg 1 = 0" using assms(1) unfolding log2_faithful_def by (auto dest: spec [of _ 0])
    moreover have "to_double 1 = 1" using to_double_int(1) [of 1] by simp
    ultimately show ?thesis using 0 assms(2) by simp
  next
    case (Suc n)
    then show ?thesis using log2_double_lower [OF assms(1-4) k(3) [of n]] by simp
  qed
  ultimately show ?thesis by (simp add: ceiling_eq_iff)
qed

lemma shannon_length_44:
  assumes "cxx_ok cx" and "frequency \<noteq> 0" and "unat frequency \<le> unat tot" and "unat tot \<le> 2 ^ 44"
  shows "shannon_length cx frequency tot = Inr (of_nat (max (least_power (unat frequency) (unat tot) 44 0) 1))"
proof -
  let ?k = "least_power (unat frequency) (unat tot) 44 0"
  have f: "0 < unat frequency" using assms(2) by (simp add: unat_gt_0)
  then have "tot \<noteq> 0" using assms(3) by auto
  moreover note k = least_power_44(2) [OF f assms(4)]
  moreover have "max (of_nat ?k) 1 = (of_nat (max ?k 1) :: u64)"
    using k by (cases "?k = 0") (simp_all add: max_def word_le_nat_alt unat_of_nat)
  ultimately show ?thesis
    unfolding shannon_length_def Let_def code_length_44 [OF log2_ok [OF assms(1)] f assms(3,4)] using assms(2) by simp
qed

lemma shannon_length_spec:
  assumes "cxx_ok cx" and "frequency \<noteq> 0" and "unat frequency \<le> unat tot" and "unat tot \<le> 2 ^ 44"
    and "shannon_length cx frequency tot = Inr l"
  shows "unat tot \<le> unat frequency * 2 ^ unat l \<and> 1 \<le> unat l \<and> unat l \<le> 64 \<and>
    (\<forall>j < unat l. j = 0 \<or> unat frequency * 2 ^ j < unat tot)"
proof -
  let ?k = "least_power (unat frequency) (unat tot) 44 0"
  have f: "0 < unat frequency" using assms(2) by (simp add: unat_gt_0)
  have l: "l = of_nat (max ?k 1)" using shannon_length_44 [OF assms(1-4)] assms(5) by simp
  note k = least_power_44 [OF f assms(4)]
  then have u: "unat l = max ?k 1" using l by (simp add: unat_of_nat)
  show ?thesis
  proof (cases "?k = 0")
    case True
    then show ?thesis using k u by simp
  next
    case False
    then have "unat l = ?k" using u by simp
    then show ?thesis using k False by simp
  qed
qed

text \<open>The length is Shannon's \<open>\<lceil>- log\<^sub>2 p\<rceil>\<close>, raised to one.\<close>

lemma shannon_length_log:
  assumes "cxx_ok cx" and "frequency \<noteq> 0" and "unat frequency \<le> unat tot" and "unat tot \<le> 2 ^ 44"
    and "shannon_length cx frequency tot = Inr l"
  shows "int (unat l) = max 1 \<lceil>- log 2 (real (unat frequency) / real (unat tot))\<rceil>"
proof -
  define f t k where "f = unat frequency" and "t = unat tot" and "k = unat l"
  let ?f = "real f" and ?t = "real t"
  have pos: "0 < ?f" "0 < ?t" using assms(2,3) unat_gt_0 [of frequency] unfolding f_def t_def by linarith+
  note s = shannon_length_spec [OF assms, folded f_def t_def k_def]
  have lg: "- log 2 (?f / ?t) = log 2 (?t / ?f)" using pos by (simp add: log_divide)
  have up: "?t / ?f \<le> 2 ^ j \<longleftrightarrow> t \<le> f * 2 ^ j" for j
  proof -
    have "?t / ?f \<le> 2 ^ j \<longleftrightarrow> ?t \<le> ?f * 2 ^ j" using pos by (simp add: field_simps)
    also have "\<dots> \<longleftrightarrow> real (t) \<le> real (f * 2 ^ j)" by simp
    finally show ?thesis by (simp only: of_nat_le_iff)
  qed
  have le: "log 2 (?t / ?f) \<le> real j \<longleftrightarrow> t \<le> f * 2 ^ j" for j
    using pos up [of j] by (simp add: log_le_iff powr_realpow)
  have c: "\<lceil>log 2 (?t / ?f)\<rceil> \<le> int (k)" using le [of "k"] s by (simp add: ceiling_le_iff)
  have "\<not> \<lceil>log 2 (?t / ?f)\<rceil> \<le> int (k) - 1" if "k \<noteq> 1"
  proof -
    have "\<not> t \<le> f * 2 ^ (k - 1)" using s that by (cases "k") (auto simp: not_le)
    then have "\<not> log 2 (?t / ?f) \<le> of_int (int k - 1)" using le [of "k - 1"] s by (simp add: of_nat_diff)
    then show ?thesis unfolding ceiling_le_iff .
  qed
  then show ?thesis unfolding f_def [symmetric] t_def [symmetric] k_def [symmetric] lg using c s by (cases "k = 1") auto
qed

text \<open>A symbol with its count, and the symbol with its code length.\<close>

definition shannon_pair :: "cxx_lib \<Rightarrow> u64 \<Rightarrow> pair \<Rightarrow> pair \<Rightarrow> bool" where
  "shannon_pair cx tot p q \<longleftrightarrow> fst q = fst p \<and> snd p \<noteq> 0 \<and> unat (snd p) \<le> unat tot \<and>
     shannon_length cx (snd p) tot = Inr (snd q)"

lemma shannon_pair_spec:
  assumes "shannon_pair cx tot p q" and "cxx_ok cx" and "unat tot \<le> 2 ^ 44"
  shows "unat tot \<le> unat (snd p) * 2 ^ unat (snd q)" "unat (snd q) \<le> 64"
  using shannon_length_spec [OF assms(2), of "snd p" tot "snd q"] assms(1,3) by (auto simp: shannon_pair_def)

lemma shannon_lengths:
  assumes "cxx_ok cx" and "unat tot \<le> 2 ^ 44" and "\<forall>p \<in> set ps. snd p \<noteq> 0 \<and> unat (snd p) \<le> unat tot"
  shows "\<exists>mx' ls. foldM (shannon_step cx tot) ps (mx, acc) = Inr (mx', acc @ ls) \<and> mx \<le> mx' \<and>
    list_all2 (shannon_pair cx tot) ps ls \<and> (\<forall>q \<in> set ls. snd q \<le> mx')"
  using assms(3)
proof (induction ps arbitrary: mx acc)
  case (Cons p ps)
  then obtain l where l: "shannon_length cx (snd p) tot = Inr l"
    using shannon_length_44 [OF assms(1) _ _ assms(2), of "snd p"] by auto
  obtain mx' ls where IH: "foldM (shannon_step cx tot) ps (max mx l, acc @ [(fst p, l)]) = Inr (mx', (acc @ [(fst p, l)]) @ ls)"
    "max mx l \<le> mx'" "list_all2 (shannon_pair cx tot) ps ls"
    "\<forall>q \<in> set ls. snd q \<le> mx'" using Cons.IH [of "max mx l" "acc @ [(fst p, l)]"] Cons.prems by auto
  then show ?case using l Cons.prems
    by (intro exI [of _ mx'] exI [of _ "(fst p, l) # ls"]) (simp add: shannon_step_def [of cx tot p] shannon_pair_def [of cx tot p])
qed simp

lemma shannon_kraft_sum:
  assumes "list_all2 (shannon_pair cx tot) ps ls" and "cxx_ok cx" and "unat tot \<le> 2 ^ 44"
  shows "unat tot * kraft 64 (map (unat \<circ> snd) ls) \<le> (\<Sum>p \<leftarrow> ps. unat (snd p)) * 2 ^ 64"
  using assms(1)
proof (induction ps ls rule: list_all2_induct)
  case (Cons p ps q ls)
  note s = shannon_pair_spec [OF Cons.hyps(1) assms(2,3)]
  have "unat tot * 2 ^ (64 - unat (snd q)) \<le> unat (snd p) * (2 ^ unat (snd q) * 2 ^ (64 - unat (snd q)))"
    using mult_le_mono1 [OF s(1), of "2 ^ (64 - unat (snd q))"] by (simp only: mult.assoc)
  also have "\<dots> = unat (snd p) * 2 ^ 64" using s(2) by (simp flip: power_add)
  finally show ?case using Cons.IH by (simp add: kraft_def algebra_simps)
qed (simp add: kraft_def)

lemma shannon_kraft:
  assumes "list_all2 (shannon_pair cx tot) ps ls" and "cxx_ok cx" and "unat tot \<le> 2 ^ 44"
    and "unat tot = (\<Sum>p \<leftarrow> ps. unat (snd p))" and "0 < unat tot"
  shows "kraft_ok ls"
proof -
  have "kraft 64 (map (unat \<circ> snd) ls) \<le> 2 ^ 64"
    using shannon_kraft_sum [OF assms(1-3)] assms(4,5) by (metis mult_le_cancel1)
  moreover have "snd q \<le> 64" if "q \<in> set ls" for q
  proof -
    obtain p where "shannon_pair cx tot p q"
      using assms(1) \<open>q \<in> set ls\<close> unfolding list_all2_conv_all_nth in_set_conv_nth by metis
    then show ?thesis using shannon_pair_spec(2) [OF _ assms(2,3)] by (simp add: word_le_nat_alt)
  qed
  ultimately show ?thesis by (simp add: kraft_ok_def)
qed

lemma generate_shannon_codes_ok:
  assumes "cxx_ok cx" and "distinct (map fst (ft_frequency_map (hc_freq_table cb)))"
    and "fp = get_top_frequencies cx (hc_freq_table cb)" and "fp \<noteq> []"
    and "\<forall>p \<in> set fp. snd p \<noteq> 0" and "(\<Sum>p \<leftarrow> fp. unat (snd p)) \<le> 2 ^ 44"
  shows "\<exists>cb'. generate_shannon_codes cx cb = Inr (of_nat (length fp), cb') \<and> codebook_ok cb' \<and>
    mset (map fst (hc_codes cb')) = mset (map fst fp) \<and>
    (\<forall>(symbol, frequency) \<in> set fp. int (unat (get_code_length symbol cb')) =
       max 1 \<lceil>- log 2 (real (unat frequency) / real (\<Sum>p \<leftarrow> fp. unat (snd p)))\<rceil>)"
proof -
  let ?t = "\<Sum>p \<leftarrow> fp. snd p" and ?n = "\<Sum>p \<leftarrow> fp. unat (snd p)"
  have "?t = of_nat ?n" by (induction fp) simp_all
  then have t: "unat ?t = ?n" using assms(6) by (simp add: unat_of_nat)
  then have b: "unat ?t \<le> 2 ^ 44" using assms(6) by simp
  have le: "unat (snd p) \<le> ?n" if "p \<in> set fp" for p
    using that by (intro member_le_sum_list) auto
  have nz: "\<forall>p \<in> set fp. snd p \<noteq> 0 \<and> unat (snd p) \<le> unat ?t"
  proof
    fix p assume p: "p \<in> set fp"
    then show "snd p \<noteq> 0 \<and> unat (snd p) \<le> unat ?t" using le [OF p] t assms(5) p by simp
  qed
  from shannon_lengths [OF assms(1) b nz, of 0 "[]"] obtain mx ls where ls: "foldM (shannon_step cx ?t) fp (0, []) = Inr (mx, ls)"
    "list_all2 (shannon_pair cx ?t) fp ls" "\<forall>q \<in> set ls. snd q \<le> mx"
    by auto
  have fs: "map fst ls = map fst fp" using ls(2) by (induction rule: list_all2_induct) (auto simp: shannon_pair_def)
  have "distinct (map fst ls)" unfolding fs assms(3) by (rule top_frequencies_distinct(1) [OF assms(1,2)])
  moreover have "ls \<noteq> []" using fs assms(4) by auto
  moreover have "0 < unat ?t" using nz assms(4) unat_gt_0 [of "snd (hd fp)"] by (cases fp) auto
  then have "kraft_ok ls" using shannon_kraft [OF ls(2) assms(1) b t] by blast
  ultimately obtain codes where c: "assign_codes (cx_sort cx by_length ls) 0 (snd (hd (cx_sort cx by_length ls))) [] = Inr codes"
    "codebook_ok (cb\<lparr>hc_max_code_length := mx, hc_codes := codes\<rparr>)" "mset (lengths_of codes) = mset ls"
    using canonical_codebook [OF assms(1), of ls "cb\<lparr>hc_max_code_length := mx\<rparr>"] ls(3) by auto
  let ?cb = "cb\<lparr>hc_max_code_length := mx, hc_codes := codes\<rparr>"
  have "mset (map fst (lengths_of codes)) = mset (map fst ls)"
    using arg_cong [OF c(3), of "image_mset fst"] by (simp only: mset_map)
  then have f: "mset (map fst codes) = mset (map fst fp)" unfolding fst_lengths_of fs .
  have "length codes = length fp" using arg_cong [OF f, of size] by simp
  then have g: "generate_shannon_codes cx cb = Inr (of_nat (length fp), ?cb)"
    using ls(1) c(1) assms(3,4) by (simp add: generate_shannon_codes_def Let_def clear_codes_def hc_size_def)
  have "int (unat (get_code_length s ?cb)) = max 1 \<lceil>- log 2 (real (unat f) / real ?n)\<rceil>" if sf: "(s, f) \<in> set fp" for s f
  proof -
    obtain l where l: "(s, l) \<in> set ls" "shannon_pair cx ?t (s, f) (s, l)"
      using ls(2) sf by (force simp: list_all2_conv_all_nth in_set_conv_nth shannon_pair_def)
    then obtain e where "(s, e) \<in> set codes" "ce_length e = l" using mset_eq_setD [OF c(3)] by force
    moreover have "distinct (map fst codes)" using c(2) by (simp add: codebook_ok_def)
    ultimately have "get_code_length s ?cb = l" by (simp add: get_code_length_def)
    then show ?thesis using shannon_length_log [OF assms(1) _ _ b, of f l, unfolded t] l(2)
      unfolding shannon_pair_def t by simp
  qed
  with g c(2) f show ?thesis by auto
qed

text \<open>C5: \<open>generate_shannon_codes\<close> succeeds and makes a prefix-free code with Shannon's lengths.  If the most
  frequent symbols have positive counts whose total is at most \<open>2 ^ 44\<close>, the lengths computed in \<open>double\<close>s are
  the exact ones and satisfy the Kraft inequality; every symbol gets a code of \<open>max 1 \<lceil>- log\<^sub>2 p\<rceil>\<close> bits for
  its probability \<open>p\<close>, and no code is a prefix of another symbol's.  (For larger totals rounding can make the
  lengths too short.)\<close>

theorem shannon_codes_prefix_free:
  assumes "cxx_ok cx" and "distinct (map fst (ft_frequency_map (hc_freq_table cb)))"
    and "fp = get_top_frequencies cx (hc_freq_table cb)" and "fp \<noteq> []"
    and "\<forall>p \<in> set fp. snd p \<noteq> 0" and "(\<Sum>p \<leftarrow> fp. unat (snd p)) \<le> 2 ^ 44"
  shows "\<exists>cb'. generate_shannon_codes cx cb = Inr (of_nat (length fp), cb') \<and> codebook_ok cb' \<and>
    mset (map fst (hc_codes cb')) = mset (map fst fp) \<and>
    (\<forall>(symbol, frequency) \<in> set fp. int (unat (get_code_length symbol cb')) =
       max 1 \<lceil>- log 2 (real (unat frequency) / real (\<Sum>p \<leftarrow> fp. unat (snd p)))\<rceil>)"
  using assms by (rule generate_shannon_codes_ok)

theorem shannon_codes_prefix_free_witness:
  "\<exists>cb'. generate_shannon_codes plain_lib test_book = Inr (4, cb') \<and> codebook_ok cb' \<and>
    mset (map fst (hc_codes cb')) = {#7, 9, 10, 8#} \<and>
    int (unat (get_code_length 7 cb')) = max 1 \<lceil>- log 2 (real (unat (5 :: u64)) / real 12)\<rceil>"
  using shannon_codes_prefix_free [OF plain_lib_ok, of test_book]
  unfolding test_book_top by (auto simp: test_book_def)

end
