(* ===== verification/Compressor.thy ===== *)
theory Compressor
  imports Codebook
begin

text \<open>
  \<open>huffman_codebook::compressor\<close> of \<open>src/src/gpgpu-sim/huffman.{h,cc}\<close>: the size a block takes when each
  symbol is replaced by a flag bit and its code, or a flag bit and its own bits, rounded up to the memory
  access granularity (MAG).  The ratios are only reported; they are real numbers here, without rounding.

  The code computes sizes only.  Shown: they are the lengths of the bit streams \<open>encode_block\<close>, which a
  decoder that knows the codebook (\<open>decode_block\<close>) turns back into the blocks; so with the codebooks
  \<open>generate_huffman_codes\<close> makes, no more blocks get a size of \<open>n\<close> bits than \<open>n\<close> bits can tell apart.
\<close>

section \<open>Model\<close>

record compress_outcome =
  co_raw_compressed_size_bits :: u64
  co_raw_compression_ratio :: real
  co_mag_compressed_size_bytes :: u64
  co_burst_size :: u64
  co_effective_compression_ratio :: real

definition compress_outcome_new :: compress_outcome where
  "compress_outcome_new = \<lparr>co_raw_compressed_size_bits = 0, co_raw_compression_ratio = 1,
     co_mag_compressed_size_bytes = 0, co_burst_size = 0, co_effective_compression_ratio = 1\<rparr>"

definition extract_symbol_from_bitstream :: "u8 list \<Rightarrow> u64 \<Rightarrow> u64 \<Rightarrow> u64 \<Rightarrow> (u64 \<times> u64) res" where
  "extract_symbol_from_bitstream data sz bit_pos symbol_length =
     extract_bits data sz (unat symbol_length) [0..<unat symbol_length] bit_pos 0"

text \<open>The warning for a size that is no multiple of the symbol length only writes to \<open>cerr\<close>.\<close>

definition extract_symbols :: "huffman_codebook \<Rightarrow> u8 list option \<Rightarrow> u64 \<Rightarrow> u64 list res" where
  "extract_symbols cb data sz =
     (case data of None \<Rightarrow> Inr []
      | Some bytes \<Rightarrow>
          (let symbol_length = ft_symbol_length (hc_freq_table cb); total_bits = sz * 8 in
           defined (symbol_length \<noteq> 0)
             (let num_symbols = total_bits div symbol_length in
              andThen (foldM (\<lambda>i (bit_pos, symbols).
                  andThen (extract_symbol_from_bitstream bytes sz bit_pos symbol_length) (\<lambda>(symbol, bit_pos').
                    Inr (bit_pos', symbols @ [symbol])))
                [0..<unat num_symbols] (0, []))
              (\<lambda>(bit_pos, symbols). Inr symbols))))"

definition symbol_size :: "huffman_codebook \<Rightarrow> u64 \<Rightarrow> u64" where
  "symbol_size cb symbol = (if has_code symbol cb then get_code_length symbol cb
     else ft_symbol_length (hc_freq_table cb))"

definition compress_data_block :: "huffman_codebook \<Rightarrow> u8 list option \<Rightarrow> u64 \<Rightarrow> compress_outcome res" where
  "compress_data_block cb data sz =
     (let mag = hc_mag cb in
      if hc_size cb = 0 \<or> data = None then
        defined (mag \<noteq> 0)
          (Inr (compress_outcome_new
             \<lparr>co_raw_compressed_size_bits := sz * 8, co_raw_compression_ratio := 1,
              co_mag_compressed_size_bytes := sz, co_burst_size := (sz + mag - 1) div mag,
              co_effective_compression_ratio := 1\<rparr>))
      else andThen (extract_symbols cb data sz) (\<lambda>symbols.
        let original_size_bits = sz * 8;
            coded_size_bits = fold (\<lambda>symbol n. n + symbol_size cb symbol) symbols 0;
            compressed_size_bits = coded_size_bits + of_nat (length symbols);
            raw_ratio = (if compressed_size_bits > 0
              then real (unat original_size_bits) / real (unat compressed_size_bits) else 1);
            compressed_size_bytes = (compressed_size_bits + 7) div 8
        in defined (mag \<noteq> 0)
          (let mag_size = ((compressed_size_bytes + mag - 1) div mag) * mag;
               burst_size = mag_size div mag;
               eff_ratio = (if mag_size > 0 then real (unat sz) / real (unat mag_size) else 1);
               result = compress_outcome_new
                 \<lparr>co_raw_compressed_size_bits := compressed_size_bits, co_raw_compression_ratio := raw_ratio,
                  co_mag_compressed_size_bytes := mag_size, co_burst_size := burst_size,
                  co_effective_compression_ratio := eff_ratio\<rparr>
           in Inr (if burst_size > 3
                then result\<lparr>co_burst_size := 4, co_mag_compressed_size_bytes := 4 * mag,
                  co_effective_compression_ratio := 1, co_raw_compression_ratio := 1,
                  co_raw_compressed_size_bits := original_size_bits\<rparr>
                else result))))"

definition compress_block :: "huffman_codebook \<Rightarrow> u8 list option \<Rightarrow> u64 \<Rightarrow> compress_outcome res" where
  "compress_block cb data sz = compress_data_block cb data sz"

section \<open>The encoding\<close>

abbreviation symbol_bits :: "huffman_codebook \<Rightarrow> nat" where
  "symbol_bits cb \<equiv> unat (ft_symbol_length (hc_freq_table cb))"

definition symbols_of :: "nat \<Rightarrow> u8 list \<Rightarrow> u64 list" where
  "symbols_of l data = map (\<lambda>i. word_of_bits (take l (drop (i * l) (bits_of data)))) [0..<8 * length data div l]"

definition encode_symbol :: "huffman_codebook \<Rightarrow> u64 \<Rightarrow> bool list" where
  "encode_symbol cb s = (case map_of (hc_codes cb) s of Some e \<Rightarrow> True # ce_bits e
     | None \<Rightarrow> False # nat_bits (symbol_bits cb) (unat s))"

definition encode_block :: "huffman_codebook \<Rightarrow> u8 list \<Rightarrow> bool list" where
  "encode_block cb data = concat (map (encode_symbol cb) (symbols_of (symbol_bits cb) data))"

text \<open>Decoding a given number of symbols to their bits: a flag, then a code of the book or a literal.  No bit
  may be missing or left over.\<close>

fun decode_block :: "huffman_codebook \<Rightarrow> nat \<Rightarrow> bool list \<Rightarrow> bool list option" where
  "decode_block cb 0 bs = (if bs = [] then Some [] else None)"
| "decode_block cb (Suc n) [] = None"
| "decode_block cb (Suc n) (False # bs) =
     (if length bs < symbol_bits cb then None
      else map_option ((@) (take (symbol_bits cb) bs)) (decode_block cb n (drop (symbol_bits cb) bs)))"
| "decode_block cb (Suc n) (True # bs) =
     (case find (\<lambda>(s, e). is_prefix (ce_bits e) bs) (hc_codes cb) of None \<Rightarrow> None
      | Some (s, e) \<Rightarrow> map_option ((@) (nat_bits (symbol_bits cb) (unat s)))
          (decode_block cb n (drop (length (ce_bits e)) bs)))"

lemma find_code:
  assumes "codebook_ok cb" and "(s, e) \<in> set (hc_codes cb)"
  shows "find (\<lambda>(s', e'). is_prefix (ce_bits e') (ce_bits e @ rest)) (hc_codes cb) = Some (s, e)"
proof -
  let ?P = "\<lambda>(s', e'). is_prefix (ce_bits e') (ce_bits e @ rest)"
  have "?P (s, e)" by (simp add: is_prefix_def)
  then obtain s' e' where f: "find ?P (hc_codes cb) = Some (s', e')"
    using assms(2) by (metis find_None_iff not_None_eq surj_pair)
  then have m: "(s', e') \<in> set (hc_codes cb)" "is_prefix (ce_bits e') (ce_bits e @ rest)"
    by (auto simp: find_Some_iff in_set_conv_nth)
  then obtain us where "ce_bits e @ rest = ce_bits e' @ us"
    unfolding is_prefix_def by (metis append_take_drop_id)
  then have "is_prefix (ce_bits e') (ce_bits e) \<or> is_prefix (ce_bits e) (ce_bits e')"
    using is_prefix_append by blast
  then have "s' = s" using assms m(1) unfolding codebook_ok_def prefix_free_def by fastforce
  moreover from this have "e' = e" using assms m(1) by (metis codebook_ok_def eq_key_imp_eq_value)
  ultimately show ?thesis using f by simp
qed

lemma decode_encode_symbol:
  assumes "codebook_ok cb"
  shows "decode_block cb (Suc n) (encode_symbol cb s @ rest) =
    map_option ((@) (nat_bits (symbol_bits cb) (unat s))) (decode_block cb n rest)"
proof (cases "map_of (hc_codes cb) s")
  case None
  then show ?thesis by (simp add: encode_symbol_def)
next
  case (Some e)
  then have "(s, e) \<in> set (hc_codes cb)" by (rule map_of_SomeD)
  with Some show ?thesis by (simp add: encode_symbol_def find_code [OF assms])
qed

lemma decode_encode_symbols:
  assumes "codebook_ok cb"
  shows "decode_block cb (length ss) (concat (map (encode_symbol cb) ss)) =
    Some (concat (map (\<lambda>s. nat_bits (symbol_bits cb) (unat s)) ss))"
  by (induction ss) (simp_all add: decode_encode_symbol [OF assms])

lemma nat_bits_word_of_bits:
  assumes "length bs = l" and "l \<le> 64"
  shows "nat_bits l (unat (word_of_bits bs)) = bs"
proof (rule nth_equalityI)
  fix i assume "i < length (nat_bits l (unat (word_of_bits bs)))"
  then show "nat_bits l (unat (word_of_bits bs)) ! i = bs ! i"
    using assms by (simp add: nat_bits_def word_of_bits_bit bit_unsigned_iff)
qed (simp add: assms(1))

lemma concat_chunks:
  "n * l \<le> length bs \<Longrightarrow> concat (map (\<lambda>i. take l (drop (i * l) bs)) [0..<n]) = take (n * l) bs"
  by (induction n) (auto simp: take_add [symmetric] add.commute)

text \<open>The encoding is lossless.\<close>

lemma decode_encode_block:
  assumes "codebook_ok cb" and "0 < symbol_bits cb" and "symbol_bits cb \<le> 64"
    and "symbol_bits cb dvd 8 * length data"
  shows "decode_block cb (8 * length data div symbol_bits cb) (encode_block cb data) = Some (bits_of data)"
proof -
  define l where "l = symbol_bits cb"
  define n where "n = 8 * length data div l"
  have n: "n * l = 8 * length data" using assms(4) by (simp add: n_def l_def)
  have "nat_bits l (unat (word_of_bits (take l (drop (i * l) (bits_of data))))) = take l (drop (i * l) (bits_of data))"
    if "i < n" for i
  proof (rule nat_bits_word_of_bits)
    have "Suc i * l \<le> n * l" using that by (intro mult_le_mono1) simp
    then show "length (take l (drop (i * l) (bits_of data))) = l" using n by simp
  qed (use assms(3) in \<open>simp add: l_def\<close>)
  then have "concat (map (\<lambda>s. nat_bits l (unat s)) (symbols_of l data)) =
      concat (map (\<lambda>i. take l (drop (i * l) (bits_of data))) [0..<n])"
    unfolding symbols_of_def n_def [symmetric] map_map comp_def by (intro arg_cong [where f = concat] map_cong) simp_all
  also have "\<dots> = bits_of data" using concat_chunks [of n l "bits_of data"] n by simp
  finally show ?thesis
    using decode_encode_symbols [OF assms(1), of "symbols_of l data"]
    by (simp add: encode_block_def l_def symbols_of_def)
qed

definition test_codes :: huffman_codebook where
  "test_codes = test_book\<lparr>hc_codes := [(0x4141, code_entry_of [False]), (0x4242, code_entry_of [True, False])],
     hc_max_code_length := 2\<rparr>"

lemma test_codes_ok: "codebook_ok test_codes"
  by (simp add: test_codes_def codebook_ok_def prefix_free_def is_prefix_def code_entry_of_def)

section \<open>The computed size\<close>

lemma coded_entry:
  assumes "codebook_ok cb" and "map_of (hc_codes cb) s = Some e"
  shows "length (ce_bits e) = unat (ce_length e)" "unat (ce_length e) \<le> 64"
  using assms map_of_SomeD [OF assms(2)] by (auto simp: codebook_ok_def)

lemma symbol_size_encode:
  assumes "codebook_ok cb"
  shows "Suc (unat (symbol_size cb s)) = length (encode_symbol cb s)"
proof (cases "map_of (hc_codes cb) s")
  case (Some e)
  then show ?thesis using coded_entry(1) [OF assms Some]
    by (simp add: encode_symbol_def symbol_size_def has_code_def get_code_length_def)
qed (simp add: encode_symbol_def symbol_size_def has_code_def)

lemma total_size:
  assumes "codebook_ok cb"
  shows "fold (\<lambda>symbol n. n + symbol_size cb symbol) ss n + of_nat (length ss) =
    n + of_nat (length (concat (map (encode_symbol cb) ss)))"
proof (induction ss arbitrary: n)
  case (Cons s ss)
  have "symbol_size cb s + 1 = of_nat (length (encode_symbol cb s))"
    unfolding symbol_size_encode [OF assms, symmetric] by simp
  then show ?case using Cons [of "n + symbol_size cb s"] by (simp add: algebra_simps)
qed simp

lemma encode_symbol_length:
  assumes "codebook_ok cb" and "symbol_bits cb \<le> 64"
  shows "length (encode_symbol cb s) \<le> 65"
proof (cases "map_of (hc_codes cb) s")
  case (Some e)
  then show ?thesis using coded_entry [OF assms(1) Some] by (simp add: encode_symbol_def)
qed (use assms in \<open>simp add: encode_symbol_def\<close>)

lemma encode_symbols_length:
  assumes "codebook_ok cb" and "symbol_bits cb \<le> 64"
  shows "length (concat (map (encode_symbol cb) ss)) \<le> 65 * length ss"
proof (induction ss)
  case (Cons s ss)
  then show ?case using encode_symbol_length [OF assms, of s] by simp
qed simp

text \<open>The loop cuts the block into the chunks of \<open>symbols_of\<close>.\<close>

lemma extract_symbols_spec:
  assumes "0 < symbol_bits cb" and "symbol_bits cb \<le> 64" and "8 * length data < 2 ^ 64"
  shows "extract_symbols cb (Some data) (of_nat (length data)) = Inr (symbols_of (symbol_bits cb) data)"
proof -
  let ?w = "ft_symbol_length (hc_freq_table cb)"
  define l where "l = unat ?w"
  let ?f = "\<lambda>i (bit_pos, symbols).
      andThen (extract_symbol_from_bitstream data (of_nat (length data)) bit_pos ?w) (\<lambda>(symbol, bit_pos').
        Inr (bit_pos', symbols @ [symbol]))"
  have step: "foldM ?f [0..<n] (0, []) =
      Inr (of_nat (n * l), map (\<lambda>i. word_of_bits (take l (drop (i * l) (bits_of data)))) [0..<n])"
    if "n * l \<le> 8 * length data" for n
    using that
  proof (induction n)
    case (Suc n)
    have "extract_symbol_from_bitstream data (of_nat (length data)) (of_nat (n * l)) ?w =
      Inr (word_of_bits (take l (drop (n * l) (bits_of data))), of_nat (n * l + l))"
      using extract_symbol_spec [of ?w "n * l" data] Suc.prems assms(2,3)
      by (simp add: extract_symbol_from_bitstream_def extract_symbol_def l_def add.commute)
    with Suc show ?case by (simp add: foldM_append add.commute)
  qed simp
  have "unat (of_nat (length data) * 8 :: u64) = 8 * length data"
    using assms(3) by (simp add: unat_word_ariths unat_of_nat)
  then have "unat (of_nat (length data) * 8 div ?w) = 8 * length data div l" by (simp add: unat_div l_def)
  moreover have "?w \<noteq> 0" using assms(1) by auto
  moreover have "8 * length data div l * l \<le> 8 * length data" by simp
  ultimately show ?thesis using step [of "8 * length data div l"]
    by (simp add: extract_symbols_def Let_def symbols_of_def l_def)
qed

lemma ceil_div_word:
  assumes "unat n + unat m < 2 ^ 64" and "m \<noteq> 0"
  shows "unat ((n + m - 1) div m :: u64) = (unat n + unat m - 1) div unat m"
proof -
  have "unat (n + m) = unat n + unat m" using assms(1) by (simp add: unat_word_ariths)
  moreover have "1 \<le> n + m" using calculation assms(2) by (simp add: word_le_nat_alt unat_gt_0 Suc_le_eq)
  ultimately show ?thesis by (simp add: unat_div unat_sub)
qed

lemma bits_to_bytes:
  assumes "n + 7 < 2 ^ 64"
  shows "unat ((of_nat n + 7) div 8 :: u64) = (n + 7) div 8"
  using assms by (simp add: unat_div unat_word_ariths unat_of_nat)

lemma compress_size_aux:
  assumes "codebook_ok cb" and "hc_codes cb \<noteq> []" and "length (hc_codes cb) < 2 ^ 64" and "0 < symbol_bits cb"
    and "symbol_bits cb \<le> 64" and "0 < unat (hc_mag cb)" and "unat (hc_mag cb) < 2 ^ 32" and "length data < 2 ^ 53"
    and "b = ((length (encode_block cb data) + 7) div 8 + unat (hc_mag cb) - 1) div unat (hc_mag cb)"
  shows "\<exists>r. compress_data_block cb (Some data) (of_nat (length data)) = Inr r \<and>
    unat (co_burst_size r) = min b 4 \<and>
    co_mag_compressed_size_bytes r = of_nat (min b 4) * hc_mag cb \<and>
    unat (co_raw_compressed_size_bits r) = (if b \<le> 3 then length (encode_block cb data) else 8 * length data)"
proof -
  define n where "n = length (encode_block cb data)"
  define m where "m = unat (hc_mag cb)"
  let ?ss = "symbols_of (symbol_bits cb) data"
  have "length ?ss \<le> 8 * length data" by (simp add: symbols_of_def)
  then have n: "n \<le> 520 * length data"
    using encode_symbols_length [OF assms(1,5), of ?ss] by (simp add: n_def encode_block_def)
  then have n64: "n + 7 < 2 ^ 64" "(n + 7) div 8 + m < 2 ^ 64" using assms(7,8) by (auto simp: m_def)
  have x: "extract_symbols cb (Some data) (of_nat (length data)) = Inr ?ss"
    using extract_symbols_spec [of cb data] assms(4,5,8) by simp
  have sz: "fold (\<lambda>symbol n. n + symbol_size cb symbol) ?ss 0 + of_nat (length ?ss) = of_nat n"
    using total_size [OF assms(1), of ?ss 0] by (simp add: n_def encode_block_def)
  have h: "hc_size cb \<noteq> 0" "hc_mag cb \<noteq> 0"
    using assms(2,3,6) by (auto simp: hc_size_def word_unat_eq_iff unat_of_nat)
  let ?u = "((of_nat n + 7) div 8 + hc_mag cb - 1) div hc_mag cb"
  have b: "unat ?u = b"
    using ceil_div_word [of "(of_nat n + 7) div 8" "hc_mag cb"] bits_to_bytes [OF n64(1)] n64(2) h(2) assms(9)
    by (simp add: m_def n_def)
  have "b * m \<le> (n + 7) div 8 + m - 1" unfolding assms(9) m_def n_def by (rule div_times_less_eq_dividend)
  then have "unat (?u * hc_mag cb) = b * m" using b n64(2) by (simp add: unat_word_ariths m_def)
  then have d: "?u * hc_mag cb div hc_mag cb = ?u"
    using b assms(6) by (simp add: word_unat_eq_iff unat_div m_def)
  have g: "3 < ?u \<longleftrightarrow> 3 < b" using b by (simp add: word_less_nat_alt)
  have o8: "unat (of_nat (length data) * 8 :: u64) = 8 * length data"
    using assms(8) by (simp add: unat_word_ariths unat_of_nat)
  have un: "unat (of_nat n :: u64) = n" using n64(1) by (simp add: unat_of_nat)
  have ub: "(of_nat b :: u64) = ?u" using b by (simp flip: b)
  show ?thesis
  proof (cases "3 < b")
    case True
    then show ?thesis using x h g d o8 by (simp add: compress_data_block_def Let_def sz)
  next
    case False
    then show ?thesis using x h g d b un ub by (simp add: compress_data_block_def Let_def sz n_def [symmetric])
  qed
qed

text \<open>C3: the computed sizes are those of the encoded block.  For a block of fewer than 2^53 bytes and a
  MAG below 2^32, let \<open>b\<close> be the bytes of the encoding rounded up to the MAG, in MAG units.  Up to three
  units the outcome is the exact number of bits and \<open>b\<close> units; otherwise the block is stored
  uncompressed in four units.\<close>

theorem compress_reports_encoded_size:
  assumes "codebook_ok cb" and "hc_codes cb \<noteq> []" and "length (hc_codes cb) < 2 ^ 64" and "0 < symbol_bits cb"
    and "symbol_bits cb \<le> 64" and "0 < unat (hc_mag cb)" and "unat (hc_mag cb) < 2 ^ 32" and "length data < 2 ^ 53"
    and "b = ((length (encode_block cb data) + 7) div 8 + unat (hc_mag cb) - 1) div unat (hc_mag cb)"
  shows "\<exists>r. compress_data_block cb (Some data) (of_nat (length data)) = Inr r \<and>
    unat (co_burst_size r) = min b 4 \<and>
    co_mag_compressed_size_bytes r = of_nat (min b 4) * hc_mag cb \<and>
    unat (co_raw_compressed_size_bits r) = (if b \<le> 3 then length (encode_block cb data) else 8 * length data)"
  using assms by (rule compress_size_aux)

lemma test_encoding_length: "length (encode_block test_codes [0x41, 0x41, 0x42, 0x42, 0, 1]) = 22"
  by (simp add: encode_block_def symbols_of_def test_codes_def test_book_def bits_of_def byte_bits_def
    word_of_bits_def encode_symbol_def code_entry_of_def upt_conv_Cons bit_numeral_word_iff)

theorem compress_reports_encoded_size_witness:
  "\<exists>r. compress_data_block test_codes (Some [0x41, 0x41, 0x42, 0x42, 0, 1]) 6 = Inr r \<and>
    unat (co_burst_size r) = 1 \<and> co_mag_compressed_size_bytes r = 32 \<and> unat (co_raw_compressed_size_bits r) = 22"
  using compress_reports_encoded_size [OF test_codes_ok, of "[0x41, 0x41, 0x42, 0x42, 0, 1]" 1]
  unfolding test_encoding_length by (simp add: test_codes_def test_book_def)

section \<open>Losslessness\<close>

lemma bits_of_inject:
  assumes "bits_of xs = bits_of ys" and "length xs = length ys"
  shows "xs = ys"
proof (rule nth_equalityI)
  fix i assume i: "i < length xs"
  have "bit (xs ! i) n = bit (ys ! i) n" if "n < 8" for n
  proof -
    have "8 * i + (7 - n) < 8 * length xs" "(8 * i + (7 - n)) div 8 = i" "7 - (8 * i + (7 - n)) mod 8 = n"
      using i that by (simp_all only: div_mult_self4 mod_mult_self4) simp_all
    then show ?thesis using bits_of_nth [of "8 * i + (7 - n)" xs] bits_of_nth [of "8 * i + (7 - n)" ys] assms by metis
  qed
  then show "xs ! i = ys ! i" by (intro bit_word_eqI) simp
qed (rule assms(2))

text \<open>The outcome of a block with a well-formed codebook: at most three units only with an encoding of the
  reported size that decodes to the block.\<close>

lemma reported_size_encodes:
  assumes "codebook_ok cb" and "hc_codes cb \<noteq> []" and "length (hc_codes cb) < 2 ^ 64" and "0 < symbol_bits cb"
    and "symbol_bits cb \<le> 64" and "0 < unat (hc_mag cb)" and "unat (hc_mag cb) < 2 ^ 32" and "length data < 2 ^ 53"
    and "symbol_bits cb dvd 8 * length data"
  shows "\<exists>r. compress_data_block cb (Some data) (of_nat (length data)) = Inr r \<and>
    (co_burst_size r \<le> 3 \<longrightarrow> length (encode_block cb data) = unat (co_raw_compressed_size_bits r) \<and>
      decode_block cb (8 * length data div symbol_bits cb) (encode_block cb data) = Some (bits_of data))"
proof -
  let ?b = "((length (encode_block cb data) + 7) div 8 + unat (hc_mag cb) - 1) div unat (hc_mag cb)"
  from compress_size_aux [OF assms(1-8) refl] obtain r
    where r: "compress_data_block cb (Some data) (of_nat (length data)) = Inr r" "unat (co_burst_size r) = min ?b 4"
      "unat (co_raw_compressed_size_bits r) = (if ?b \<le> 3 then length (encode_block cb data) else 8 * length data)"
    by blast
  have "?b \<le> 3" if "co_burst_size r \<le> 3"
    using that r(2) by (simp add: word_le_nat_alt min_def split: if_splits)
  then show ?thesis using r decode_encode_block [OF assms(1,4,5,9)] by auto
qed

text \<open>C2: the sizes the compressor reports with a codebook it has built are those of a lossless encoding.
  If the most frequent symbols have positive counts with a total below the 67th Fibonacci number,
  \<open>generate_huffman_codes\<close> makes a codebook with which \<open>compress_data_block\<close> accepts every block of whole
  symbols (of 1 to 64 bits, fewer than 2^53 bytes, with a positive MAG below 2^32); unless it stores the block in four units, some bit string of exactly the reported size decodes
  to the block.  At most \<open>2 ^ n\<close> blocks of a length are therefore reported to take \<open>n\<close> bits.\<close>

theorem reported_size_is_decodable:
  assumes "cxx_ok cx" and "distinct (map fst (ft_frequency_map (hc_freq_table cb)))"
    and "fp = get_top_frequencies cx (hc_freq_table cb)" and "fp \<noteq> []"
    and "\<forall>p \<in> set fp. snd p \<noteq> 0" and "(\<Sum>p \<leftarrow> fp. unat (snd p)) < fibo 67"
    and "0 < symbol_bits cb" and "symbol_bits cb \<le> 64" and "0 < unat (hc_mag cb)" and "unat (hc_mag cb) < 2 ^ 32"
  shows "\<exists>cb'. generate_huffman_codes cx cb = Inr (of_nat (length fp), cb') \<and>
    (\<forall>data. length data < 2 ^ 53 \<and> symbol_bits cb dvd 8 * length data \<longrightarrow>
      (\<exists>r. compress_data_block cb' (Some data) (of_nat (length data)) = Inr r \<and>
        (co_burst_size r \<le> 3 \<longrightarrow> (\<exists>bs. length bs = unat (co_raw_compressed_size_bits r) \<and>
          decode_block cb' (8 * length data div symbol_bits cb) bs = Some (bits_of data))))) \<and>
    (\<forall>len n. len < 2 ^ 53 \<and> symbol_bits cb dvd 8 * len \<longrightarrow>
      card {data. length data = len \<and> (\<exists>r. compress_data_block cb' (Some data) (of_nat len) = Inr r \<and>
        co_burst_size r \<le> 3 \<and> unat (co_raw_compressed_size_bits r) = n)} \<le> 2 ^ n)"
proof -
  from generate_huffman_codes_ok [OF assms(1-6)] obtain cb'
    where g: "generate_huffman_codes cx cb = Inr (of_nat (length fp), cb')" "codebook_ok cb'"
      "mset (map fst (hc_codes cb')) = mset (map fst fp)" by blast
  have k: "symbol_bits cb' = symbol_bits cb" "hc_mag cb' = hc_mag cb"
    using generate_huffman_codes_keep [OF g(1)] by simp_all
  have l: "length (hc_codes cb') = length fp" using arg_cong [OF g(3), of size] by simp
  have "length fp < 2 ^ 64"
    using top_frequencies_distinct(2) [OF assms(1,2)] unat_lt [of "ft_final_table_size (hc_freq_table cb)"]
    unfolding assms(3) by simp
  then have "length (hc_codes cb') < 2 ^ 64" "hc_codes cb' \<noteq> []" using l assms(4) by auto
  note enc = reported_size_encodes [OF g(2) this(2,1), unfolded k, OF assms(7-10)]
  have "card {data. length data = len \<and> (\<exists>r. compress_data_block cb' (Some data) (of_nat len) = Inr r \<and>
      co_burst_size r \<le> 3 \<and> unat (co_raw_compressed_size_bits r) = n)} \<le> 2 ^ n"
    (is "card ?S \<le> _") if len: "len < 2 ^ 53" "symbol_bits cb dvd 8 * len" for len n
  proof -
    have e: "length (encode_block cb' data) = n \<and>
        decode_block cb' (8 * len div symbol_bits cb) (encode_block cb' data) = Some (bits_of data)" if "data \<in> ?S" for data
    proof -
      have l: "length data = len" using that by simp
      from that obtain r where r: "compress_data_block cb' (Some data) (of_nat len) = Inr r" "co_burst_size r \<le> 3"
        "unat (co_raw_compressed_size_bits r) = n" by auto
      show ?thesis using enc [of data, unfolded l, OF len] r by auto
    qed
    have "inj_on (encode_block cb') ?S"
    proof (rule inj_onI)
      fix x y assume xy: "x \<in> ?S" "y \<in> ?S" "encode_block cb' x = encode_block cb' y"
      then have "bits_of x = bits_of y" using e [OF xy(1)] e [OF xy(2)] by simp
      moreover have "length x = length y" using xy(1,2) by simp
      ultimately show "x = y" by (rule bits_of_inject)
    qed
    moreover have "encode_block cb' ` ?S \<subseteq> {bs. set bs \<subseteq> UNIV \<and> length bs = n}" using e by blast
    ultimately have "card ?S \<le> card {bs :: bool list. set bs \<subseteq> UNIV \<and> length bs = n}"
      by (rule card_inj_on_le) (rule finite_lists_length_eq [OF finite])
    also have "\<dots> = 2 ^ n" using card_lists_length_eq [of "UNIV :: bool set" n] by simp
    finally show ?thesis .
  qed
  note card = this
  show ?thesis
  proof (intro exI [of _ cb'] conjI allI impI)
    fix data :: "u8 list" assume "length data < 2 ^ 53 \<and> symbol_bits cb dvd 8 * length data"
    then show "\<exists>r. compress_data_block cb' (Some data) (of_nat (length data)) = Inr r \<and>
        (co_burst_size r \<le> 3 \<longrightarrow> (\<exists>bs. length bs = unat (co_raw_compressed_size_bits r) \<and>
          decode_block cb' (8 * length data div symbol_bits cb) bs = Some (bits_of data)))"
      using enc [of data] by blast
  qed (use g(1) card in blast)+
qed

theorem reported_size_is_decodable_witness:
  "\<exists>cb'. generate_huffman_codes plain_lib test_book = Inr (4, cb') \<and>
    card {data. length data = 128 \<and> (\<exists>r. compress_data_block cb' (Some data) 128 = Inr r \<and>
      co_burst_size r \<le> 3 \<and> unat (co_raw_compressed_size_bits r) = 64)} \<le> 2 ^ 64"
proof -
  have t: "symbol_bits test_book = 16" "unat (hc_mag test_book) = 32"
    "distinct (map fst (ft_frequency_map (hc_freq_table test_book)))" by (simp_all add: test_book_def)
  have "(\<Sum>p \<leftarrow> get_top_frequencies plain_lib (hc_freq_table test_book). unat (snd p)) < fibo 67"
    using small_below_fibo [of 12] by (simp add: test_book_top)
  then obtain cb' where cb': "generate_huffman_codes plain_lib test_book = Inr (4, cb')"
    and c: "\<forall>len n. len < 2 ^ 53 \<and> symbol_bits test_book dvd 8 * len \<longrightarrow>
      card {data. length data = len \<and> (\<exists>r. compress_data_block cb' (Some data) (of_nat len) = Inr r \<and>
        co_burst_size r \<le> 3 \<and> unat (co_raw_compressed_size_bits r) = n)} \<le> 2 ^ n"
    using reported_size_is_decodable [OF plain_lib_ok t(3) refl] t(1,2) by (auto simp: test_book_top)
  show ?thesis using cb' spec [OF spec [OF c, of 128], of 64] t(1) by auto
qed

end
