(* ===== verification/Memory_Space.thy ===== *)
theory Memory_Space
  imports Prelude
begin

text \<open>
  \<open>memory_space_impl<BSIZE>\<close> and \<open>mem_storage<BSIZE>\<close> of \<open>src/src/cuda-sim/memory.{h,cc}\<close>: the byte
  contents of a memory of the simulated GPU, a hash map of blocks that are allocated, zeroed, at their
  first write.  The memory partition reads the lines it compresses from the global memory, an instance
  with blocks of 8192 bytes.  Addresses are 32-bit (\<open>address_type\<close> is \<open>unsigned\<close>), lengths 64-bit; each
  sum and product is taken at the width C++ gives it.  A buffer is a list of bytes, and reading past it
  is undefined; \<open>throw 1\<close> is the failure \<open>Thrown\<close>.  A write returns the watchpoints it hits, in the
  order of their numbers, in place of the calls of \<open>hit_watchpoint\<close>.

  The loops over the blocks an access spans take one unit of fuel per iteration and get one unit for
  each byte left; every iteration moves at least one byte.

  \<open>byte_store\<close> is the contract of a byte-addressed memory; the model implements it below the last
  block.  Shown: a read returns the bytes last written, across any number of block boundaries; a write
  changes no other byte; in the last block of the address space reads throw although writes succeed.
\<close>

section \<open>Model\<close>

record memory_space_impl =
  ms_bsize :: u32
  ms_log2_block_size :: u32
  ms_data :: "u32 \<Rightarrow> u8 list option"
  ms_watchpoints :: "(u32 \<times> u32) list"

text \<open>The constructor finds the one bit that is set in \<open>BSIZE\<close>; \<open>mask\<close> runs over all 32 bits.\<close>

definition log2_step :: "u32 \<Rightarrow> nat \<Rightarrow> u32 \<Rightarrow> u32 res" where
  "log2_step bsize n log2 =
    (if bsize AND push_bit n 1 \<noteq> 0 then check (log2 = - 1) (Inr (of_nat n)) else Inr log2)"

definition memory_space_new :: "u32 \<Rightarrow> memory_space_impl res" where
  "memory_space_new bsize =
    andThen (foldM (log2_step bsize) [0..<32] (- 1)) (\<lambda>log2.
      check (log2 \<noteq> - 1)
        (Inr \<lparr>ms_bsize = bsize, ms_log2_block_size = log2, ms_data = Map.empty, ms_watchpoints = []\<rparr>))"

definition storage_new :: "u32 \<Rightarrow> u8 list" where
  "storage_new bsize = replicate (unat bsize) 0"

definition storage_write :: "u32 \<Rightarrow> u32 \<Rightarrow> u64 \<Rightarrow> u8 list \<Rightarrow> u8 list \<Rightarrow> u8 list res" where
  "storage_write bsize offset len data blk =
    check (ucast offset + len \<le> (ucast bsize :: u64))
      (defined (unat len \<le> length data \<and> unat offset + unat len \<le> length blk)
        (Inr (take (unat offset) blk @ take (unat len) data @ drop (unat offset + unat len) blk)))"

definition storage_read :: "u32 \<Rightarrow> u32 \<Rightarrow> u64 \<Rightarrow> u8 list \<Rightarrow> u8 list res" where
  "storage_read bsize offset len blk =
    check (ucast offset + len \<le> (ucast bsize :: u64))
      (defined (unat offset + unat len \<le> length blk) (Inr (take (unat len) (drop (unat offset) blk))))"

text \<open>\<open>m_data[index].write(...)\<close>: \<open>operator[]\<close> makes a block of zeros when there is none.\<close>

definition write_at :: "u32 \<Rightarrow> u32 \<Rightarrow> u64 \<Rightarrow> u8 list \<Rightarrow> memory_space_impl \<Rightarrow> memory_space_impl res" where
  "write_at index offset len data s =
    andThen (storage_write (ms_bsize s) offset len data
               (case ms_data s index of Some b \<Rightarrow> b | None \<Rightarrow> storage_new (ms_bsize s)))
      (\<lambda>b. Inr (s\<lparr>ms_data := (ms_data s)(index \<mapsto> b)\<rparr>))"

definition write_only :: "u32 \<Rightarrow> u32 \<Rightarrow> u64 \<Rightarrow> u8 list \<Rightarrow> memory_space_impl \<Rightarrow> memory_space_impl res" where
  "write_only offset index len data s = write_at index offset len data s"

definition shr32 :: "u32 \<Rightarrow> u32 \<Rightarrow> u32 res" where
  "shr32 x n = defined (n < 32) (Inr (drop_bit (unat n) x))"

text \<open>The part of an access that starts at \<open>current_addr\<close> and lies in its block.\<close>

definition block_offset :: "memory_space_impl \<Rightarrow> u32 \<Rightarrow> u32" where
  "block_offset s addr = addr AND (ms_bsize s - 1)"

definition tx_bytes :: "memory_space_impl \<Rightarrow> u32 \<Rightarrow> u32 \<Rightarrow> u32" where
  "tx_bytes s current_addr nbytes_remain =
    (let offset = block_offset s current_addr; access_limit = offset + nbytes_remain
     in (if access_limit > ms_bsize s then ms_bsize s else access_limit) - offset)"

fun write_blocks :: "nat \<Rightarrow> u32 \<Rightarrow> u32 \<Rightarrow> u8 list \<Rightarrow> memory_space_impl \<Rightarrow> memory_space_impl res" where
  "write_blocks fuel current_addr nbytes_remain data s =
    (if nbytes_remain = 0 then Inr s
     else case fuel of 0 \<Rightarrow> Inl Undefined
     | Suc fuel' \<Rightarrow>
        let offset = block_offset s current_addr; tx = tx_bytes s current_addr nbytes_remain in
        andThen (shr32 current_addr (ms_log2_block_size s)) (\<lambda>page.
        andThen (write_at page offset (ucast tx) data s) (\<lambda>s'.
          write_blocks fuel' (current_addr + tx) (nbytes_remain - tx) (drop (unat tx) data) s')))"

declare write_blocks.simps [simp del]

text \<open>Whether an access lies within the block of its first byte: the sum is 64 bits wide, the product 32.\<close>

definition within_block :: "memory_space_impl \<Rightarrow> u32 \<Rightarrow> u32 \<Rightarrow> u64 \<Rightarrow> bool" where
  "within_block s index addr len \<longleftrightarrow> ucast addr + len \<le> (ucast ((index + 1) * ms_bsize s) :: u64)"

definition watch_hits :: "memory_space_impl \<Rightarrow> u32 \<Rightarrow> u64 \<Rightarrow> u32 list" where
  "watch_hits s addr len = map fst (filter (\<lambda>(n, wa).
     (addr \<le> wa \<and> ucast addr + len > (ucast wa :: u64)) \<or> (addr > wa \<and> addr < wa + 4)) (ms_watchpoints s))"

definition mem_write :: "u32 \<Rightarrow> u64 \<Rightarrow> u8 list \<Rightarrow> memory_space_impl \<Rightarrow> (u32 list \<times> memory_space_impl) res" where
  "mem_write addr len data s =
    andThen (shr32 addr (ms_log2_block_size s)) (\<lambda>index.
    andThen (if within_block s index addr len
             then write_at index (block_offset s addr) (ucast (ucast len :: u32)) data s
             else write_blocks (unat (ucast len :: u32)) addr (ucast len) data s) (\<lambda>s'.
      Inr (watch_hits s' addr len, s')))"

definition read_single_block :: "u32 \<Rightarrow> u32 \<Rightarrow> u64 \<Rightarrow> memory_space_impl \<Rightarrow> u8 list res" where
  "read_single_block blk_idx addr len s =
    (if \<not> within_block s blk_idx addr len then Inl Thrown
     else case ms_data s blk_idx of
       None \<Rightarrow> Inr (replicate (unat len) 0)
     | Some b \<Rightarrow> storage_read (ms_bsize s) (block_offset s addr) (ucast (ucast len :: u32)) b)"

fun read_blocks :: "nat \<Rightarrow> u32 \<Rightarrow> u32 \<Rightarrow> memory_space_impl \<Rightarrow> u8 list res" where
  "read_blocks fuel current_addr nbytes_remain s =
    (if nbytes_remain = 0 then Inr []
     else case fuel of 0 \<Rightarrow> Inl Undefined
     | Suc fuel' \<Rightarrow>
        let tx = tx_bytes s current_addr nbytes_remain in
        andThen (shr32 current_addr (ms_log2_block_size s)) (\<lambda>page.
        andThen (read_single_block page current_addr (ucast tx) s) (\<lambda>bytes.
        andThen (read_blocks fuel' (current_addr + tx) (nbytes_remain - tx) s) (\<lambda>rest.
          Inr (bytes @ rest)))))"

declare read_blocks.simps [simp del]

definition mem_read :: "u32 \<Rightarrow> u64 \<Rightarrow> memory_space_impl \<Rightarrow> u8 list res" where
  "mem_read addr len s =
    andThen (shr32 addr (ms_log2_block_size s)) (\<lambda>index.
      if within_block s index addr len then read_single_block index addr len s
      else read_blocks (unat (ucast len :: u32)) addr (ucast len) s)"

text \<open>\<open>m_watchpoints\<close> is a \<open>std::map\<close>: it is kept in the order of its keys.\<close>

definition set_watch :: "u32 \<Rightarrow> u32 \<Rightarrow> memory_space_impl \<Rightarrow> memory_space_impl" where
  "set_watch addr watchpoint s = s\<lparr>ms_watchpoints :=
     filter (\<lambda>(n, a). n < watchpoint) (ms_watchpoints s) @ (watchpoint, addr) #
     filter (\<lambda>(n, a). n > watchpoint) (ms_watchpoints s)\<rparr>"

section \<open>Well-formed memories\<close>

definition ms_ok :: "nat \<Rightarrow> memory_space_impl \<Rightarrow> bool" where
  "ms_ok k s \<longleftrightarrow> k < 32 \<and> ms_bsize s = 2 ^ k \<and> ms_log2_block_size s = of_nat k \<and>
    (\<forall>i b. ms_data s i = Some b \<longrightarrow> length b = 2 ^ k)"

lemma log2_step_power:
  assumes "n < 32"
  shows "log2_step (2 ^ k) n l = (if n = k then check (l = - 1) (Inr (of_nat n)) else Inr l)"
proof -
  have "(2 ^ k AND push_bit n 1 :: u32) \<noteq> 0 \<longleftrightarrow> bit (2 ^ k :: u32) n"
    by (simp only: bit_iff_and_push_bit_not_eq_0)
  also have "\<dots> \<longleftrightarrow> n = k" using assms by (auto simp: bit_exp_iff)
  finally show ?thesis by (simp add: log2_step_def)
qed

lemma find_log2:
  assumes "n \<le> 32"
  shows "foldM (log2_step (2 ^ k)) [0..<n] (- 1) = Inr (if k < n then of_nat k else - 1)"
  using assms
proof (induction n)
  case (Suc n)
  then have "foldM (log2_step (2 ^ k)) [0..<Suc n] (- 1) = log2_step (2 ^ k) n (if k < n then of_nat k else - 1)"
    by (cases "log2_step (2 ^ k) n (if k < n then of_nat k else - 1)") (simp_all add: foldM_append)
  with Suc.prems show ?case by (simp add: log2_step_power)
qed simp

lemma memory_space_new_ok:
  assumes "k < 32"
  shows "\<exists>s. memory_space_new (2 ^ k) = Inr s \<and> ms_ok k s"
proof -
  have "unat (of_nat (k + 1) :: u32) = k + 1" using assms by (intro unat_of_nat_lt) simp
  then have "(of_nat (k + 1) :: u32) \<noteq> 0" by (metis add_is_0 one_neq_zero unat_0)
  then have "(of_nat k :: u32) \<noteq> - 1" by (auto simp: add.commute)
  then show ?thesis using find_log2 [of 32 k] assms
    by (simp add: memory_space_new_def ms_ok_def)
qed

lemma unat_narrow: "unat (w :: u64) < 2 ^ 32 \<Longrightarrow> unat (ucast w :: u32) = unat w"
  by (simp add: unsigned_ucast_eq take_bit_nat_eq_self)

text \<open>The byte at an address: zero where nothing has been written.\<close>

definition byte_at :: "memory_space_impl \<Rightarrow> nat \<Rightarrow> u8" where
  "byte_at s a = (let k = unat (ms_log2_block_size s) in
     case ms_data s (of_nat (a div 2 ^ k)) of None \<Rightarrow> 0 | Some b \<Rightarrow> b ! (a mod 2 ^ k))"

lemma ms_log2: "ms_ok k s \<Longrightarrow> unat (ms_log2_block_size s) = k"
  by (simp add: ms_ok_def unat_of_nat_lt)

lemma addr_split:
  assumes "ms_ok k s" and "a < 2 ^ 32"
  shows "shr32 (of_nat a) (ms_log2_block_size s) = Inr (of_nat (a div 2 ^ k))"
    and "unat (block_offset s (of_nat a)) = a mod 2 ^ k"
proof -
  have a: "unat (of_nat a :: u32) = a" using assms(2) by (simp add: unat_of_nat_lt)
  have k: "k < 32" "ms_bsize s = 2 ^ k" "ms_log2_block_size s = of_nat k" using assms(1) by (auto simp: ms_ok_def)
  have "drop_bit k (of_nat a :: u32) = of_nat (a div 2 ^ k)"
    using unat_of_nat_lt [of "a div 2 ^ k", where 'a = 32] le_less_trans [OF div_le_dividend assms(2)]
    unfolding word_unat_eq_iff by (simp add: unat_drop_bit a)
  moreover have "(of_nat k :: u32) < 32" using k(1) by (simp add: word_less_nat_alt unat_of_nat_lt)
  ultimately show "shr32 (of_nat a) (ms_log2_block_size s) = Inr (of_nat (a div 2 ^ k))"
    using k by (simp add: shr32_def ms_log2 [OF assms(1), unfolded k(3)])
  have "block_offset s (of_nat a) = take_bit k (of_nat a)"
    using k(2) by (simp add: block_offset_def take_bit_eq_mask mask_eq_exp_minus_1)
  then show "unat (block_offset s (of_nat a)) = a mod 2 ^ k"
    using a k(1) by (simp add: take_bit_eq_mod unat_mod unat_two_power)
qed

lemma block_size: "ms_ok k s \<Longrightarrow> unat (ms_bsize s) = 2 ^ k"
  by (simp add: ms_ok_def unat_two_power)

lemma tx_bytes_min:
  assumes "ms_ok k s" and "a + n < 2 ^ 32"
  shows "unat (tx_bytes s (of_nat a) (of_nat n)) = min (2 ^ k - a mod 2 ^ k) n"
proof -
  let ?o = "block_offset s (of_nat a)"
  have o: "unat ?o = a mod 2 ^ k" using addr_split(2) [OF assms(1)] assms(2) by simp
  have n: "unat (of_nat n :: u32) = n" using assms(2) by (simp add: unat_of_nat_lt)
  have "a mod 2 ^ k + n < 2 ^ 32" using mod_less_eq_dividend [of a "2 ^ k"] assms(2) by linarith
  then have l: "unat (?o + of_nat n) = a mod 2 ^ k + n" using o n by (simp add: unat_add_le)
  have m: "a mod 2 ^ k < 2 ^ k" by simp
  show ?thesis
  proof (cases "2 ^ k < a mod 2 ^ k + n")
    case True
    then have "ms_bsize s < ?o + of_nat n" by (simp add: word_less_nat_alt l block_size [OF assms(1)])
    moreover have "?o \<le> ms_bsize s" using m by (simp add: word_le_nat_alt o block_size [OF assms(1)])
    ultimately show ?thesis using True by (simp add: tx_bytes_def Let_def unat_sub o block_size [OF assms(1)])
  next
    case False
    then have "\<not> ms_bsize s < ?o + of_nat n" by (simp add: word_less_nat_alt l block_size [OF assms(1)])
    then show ?thesis using False m by (simp add: tx_bytes_def Let_def n)
  qed
qed

section \<open>One block\<close>

lemma write_at_ok:
  assumes "ms_ok k s" and "a < 2 ^ 32" and "unat w = m" and "a mod 2 ^ k + m \<le> 2 ^ k" and "m \<le> length data"
  shows "\<exists>s'. write_at (of_nat (a div 2 ^ k)) (block_offset s (of_nat a)) w data s = Inr s' \<and> ms_ok k s' \<and>
    ms_watchpoints s' = ms_watchpoints s \<and>
    (\<forall>x < 2 ^ 32. byte_at s' x = (if a \<le> x \<and> x < a + m then data ! (x - a) else byte_at s x))"
proof -
  let ?p = "of_nat (a div 2 ^ k) :: u32" and ?o = "a mod 2 ^ k"
  let ?b = "case ms_data s ?p of Some b \<Rightarrow> b | None \<Rightarrow> storage_new (ms_bsize s)"
  let ?b' = "take ?o ?b @ take m data @ drop (?o + m) ?b"
  let ?s' = "s\<lparr>ms_data := (ms_data s)(?p \<mapsto> ?b')\<rparr>"
  have k: "k < 32" "ms_bsize s = 2 ^ k" using assms(1) by (auto simp: ms_ok_def)
  have lb: "length ?b = 2 ^ k"
    using assms(1) block_size [OF assms(1)] by (auto simp: ms_ok_def storage_new_def split: option.splits)
  note o = addr_split(2) [OF assms(1,2)]
  have le: "ucast (block_offset s (of_nat a)) + w \<le> (ucast (ms_bsize s) :: u64)"
  proof -
    have "unat (ucast (block_offset s (of_nat a)) :: u64) = ?o" "unat (ucast (ms_bsize s) :: u64) = 2 ^ k"
      using o block_size [OF assms(1)] by (simp_all add: unat_widen)
    moreover have "(2 :: nat) ^ k < 2 ^ 32" using k(1) by (simp only: power_strict_increasing_iff one_less_numeral_iff semiring_norm)
    ultimately show ?thesis using assms(3,4) by (simp add: word_le_nat_alt unat_add_le)
  qed
  have w: "write_at ?p (block_offset s (of_nat a)) w data s = Inr ?s'"
    using le o lb assms(3-5) by (simp add: write_at_def storage_write_def)
  have "byte_at ?s' x = (if a \<le> x \<and> x < a + m then data ! (x - a) else byte_at s x)" if "x < 2 ^ 32" for x
  proof (cases "x div 2 ^ k = a div 2 ^ k")
    case True
    have x: "x = a div 2 ^ k * 2 ^ k + x mod 2 ^ k" "x mod 2 ^ k < 2 ^ k" using True by (metis div_mult_mod_eq, simp)
    have a: "a = a div 2 ^ k * 2 ^ k + ?o" by (rule div_mult_mod_eq [symmetric])
    have in_range: "a \<le> x \<and> x < a + m \<longleftrightarrow> ?o \<le> x mod 2 ^ k \<and> x mod 2 ^ k < ?o + m" using x(1) a by linarith
    have diff: "x - a = x mod 2 ^ k - ?o" using x(1) a by linarith
    have b: "byte_at s x = ?b ! (x mod 2 ^ k)"
      using True ms_log2 [OF assms(1)] x(2) block_size [OF assms(1)]
      by (simp add: byte_at_def storage_new_def split: option.splits)
    have "byte_at ?s' x = ?b' ! (x mod 2 ^ k)" using True ms_log2 [OF assms(1)] by (simp add: byte_at_def)
    also have "\<dots> = (if a \<le> x \<and> x < a + m then data ! (x - a) else ?b ! (x mod 2 ^ k))"
      unfolding in_range diff using lb x(2) assms(4,5) by (auto simp: nth_append min_def)
    finally show ?thesis using b by simp
  next
    case False
    have "x div 2 ^ k < 2 ^ 32" "a div 2 ^ k < 2 ^ 32"
      using that assms(2) by (auto intro: le_less_trans [OF div_le_dividend])
    then have "(of_nat (x div 2 ^ k) :: u32) \<noteq> ?p"
      using False unat_of_nat_lt [of "x div 2 ^ k", where 'a = 32] unat_of_nat_lt [of "a div 2 ^ k", where 'a = 32]
      by (auto simp: word_unat_eq_iff)
    moreover have "\<not> (a \<le> x \<and> x < a + m)"
    proof
      assume r: "a \<le> x \<and> x < a + m"
      then have "x div 2 ^ k \<ge> a div 2 ^ k" by (simp add: div_le_mono)
      moreover have "x < (a div 2 ^ k + 1) * 2 ^ k"
        unfolding distrib_right using r assms(4) div_mult_mod_eq [of a "2 ^ k"] by linarith
      then have "x div 2 ^ k < a div 2 ^ k + 1" by (rule less_mult_imp_div_less)
      ultimately show False using False by simp
    qed
    ultimately show ?thesis using ms_log2 [OF assms(1)] by (auto simp: byte_at_def)
  qed
  moreover have "ms_ok k ?s'" using assms(1,4,5) lb by (auto simp: ms_ok_def)
  ultimately show ?thesis using w by auto
qed

lemma block_index: "r < b \<Longrightarrow> (q * b + r) div b = q \<and> (q * b + r) mod b = (r :: nat)"
  by simp

lemma within_block_iff:
  assumes "ms_ok k s" and "a < 2 ^ 32" and "unat w = m" and "m < 2 ^ 32" and "(a div 2 ^ k + 1) * 2 ^ k < 2 ^ 32"
  shows "within_block s (of_nat (a div 2 ^ k)) (of_nat a) w \<longleftrightarrow> a mod 2 ^ k + m \<le> 2 ^ k"
proof -
  have a: "unat (of_nat a :: u32) = a" using assms(2) by (simp add: unat_of_nat_lt)
  have "(of_nat (a div 2 ^ k) + 1) * ms_bsize s = (of_nat ((a div 2 ^ k + 1) * 2 ^ k) :: u32)"
    using assms(1) by (simp add: ms_ok_def distrib_right)
  then have "unat (ucast ((of_nat (a div 2 ^ k) + 1) * ms_bsize s :: u32) :: u64) = (a div 2 ^ k + 1) * 2 ^ k"
    using unat_of_nat_lt [of "(a div 2 ^ k + 1) * 2 ^ k", where 'a = 32] assms(5) by (simp add: unat_widen)
  moreover have "unat (ucast (of_nat a :: u32) + w :: u64) = a + m"
    using a assms by (simp add: unat_add_le unat_widen)
  ultimately have "within_block s (of_nat (a div 2 ^ k)) (of_nat a) w \<longleftrightarrow> a + m \<le> (a div 2 ^ k + 1) * 2 ^ k"
    by (simp add: within_block_def word_le_nat_alt)
  also have "\<dots> \<longleftrightarrow> a mod 2 ^ k + m \<le> 2 ^ k"
    unfolding distrib_right using div_mult_mod_eq [of a "2 ^ k"] by linarith
  finally show ?thesis .
qed

text \<open>A block other than the last one of the address space.\<close>

definition below_last :: "nat \<Rightarrow> nat \<Rightarrow> bool" where
  "below_last k a \<longleftrightarrow> a + 2 ^ k \<le> 2 ^ 32"

lemma below_last_next:
  assumes "below_last k b" and "a < b" and "k < 32"
  shows "a < 2 ^ 32" and "(a div 2 ^ k + 1) * 2 ^ k < 2 ^ 32"
proof -
  have p: "(2 :: nat) ^ 32 = 2 ^ (32 - k) * 2 ^ k" using assms(3) by (simp flip: power_add)
  have "a < 2 ^ 32 - 2 ^ k" using assms(1,2) by (simp add: below_last_def)
  also have "\<dots> = (2 ^ (32 - k) - 1) * 2 ^ k" by (simp only: p diff_mult_distrib mult_1)
  finally have "a div 2 ^ k < 2 ^ (32 - k) - 1" by (rule less_mult_imp_div_less)
  then have "a div 2 ^ k + 1 < 2 ^ (32 - k)" by simp
  then show "(a div 2 ^ k + 1) * 2 ^ k < 2 ^ 32" unfolding p by (simp only: mult_less_mono1 zero_less_power zero_less_numeral)
  show "a < 2 ^ 32" using assms(1,2) by (simp add: below_last_def)
qed

lemma read_single_block_ok:
  assumes "ms_ok k s" and "below_last k b" and "a < b" and "unat w = m" and "a mod 2 ^ k + m \<le> 2 ^ k"
  shows "read_single_block (of_nat (a div 2 ^ k)) (of_nat a) w s = Inr (map (byte_at s) [a..<a + m])"
proof -
  let ?p = "of_nat (a div 2 ^ k) :: u32" and ?o = "a mod 2 ^ k"
  have k: "k < 32" using assms(1) by (simp add: ms_ok_def)
  note lt = below_last_next [OF assms(2,3) k]
  have pk: "(2 :: nat) ^ k < 2 ^ 32" using k by (simp only: power_strict_increasing_iff one_less_numeral_iff semiring_norm)
  then have m32: "m < 2 ^ 32" using assms(5) by linarith
  have wb: "within_block s ?p (of_nat a) w" using within_block_iff [OF assms(1) lt(1) assms(4) m32 lt(2)] assms(5) by simp
  have low: "unat (ucast (ucast w :: u32) :: u64) = m"
    using assms(4) m32 unat_narrow [of w] unfolding unat_widen by simp
  have blk: "byte_at s (a + i) = (case ms_data s ?p of None \<Rightarrow> 0 | Some b \<Rightarrow> b ! (?o + i))" if "i < m" for i
  proof -
    have "?o + i < 2 ^ k" using that assms(5) by simp
    note block_index [OF this, of "a div 2 ^ k"]
    moreover have "a div 2 ^ k * 2 ^ k + (?o + i) = a + i" using div_mult_mod_eq [of a "2 ^ k"] by linarith
    ultimately have "(a + i) div 2 ^ k = a div 2 ^ k" "(a + i) mod 2 ^ k = ?o + i" by simp_all
    then show ?thesis by (simp only: byte_at_def Let_def ms_log2 [OF assms(1)])
  qed
  show ?thesis
  proof (cases "ms_data s ?p")
    case None
    have "map (byte_at s) [a..<a + m] = replicate m 0"
      using blk None by (intro nth_equalityI) simp_all
    with None wb assms(4) show ?thesis by (simp add: read_single_block_def)
  next
    case (Some b)
    have lb: "length b = 2 ^ k" using assms(1) Some by (auto simp: ms_ok_def)
    note o = addr_split(2) [OF assms(1) lt(1)]
    have "unat (ucast (block_offset s (of_nat a)) :: u64) = ?o" "unat (ucast (ms_bsize s) :: u64) = 2 ^ k"
      using o block_size [OF assms(1)] by (simp_all add: unat_widen)
    then have "ucast (block_offset s (of_nat a)) + ucast (ucast w :: u32) \<le> (ucast (ms_bsize s) :: u64)"
      using low assms(5) pk by (simp add: word_le_nat_alt unat_add_le)
    then have "storage_read (ms_bsize s) (block_offset s (of_nat a)) (ucast (ucast w :: u32)) b =
        Inr (take m (drop ?o b))"
      using o low lb assms(5) by (simp add: storage_read_def)
    moreover have "map (byte_at s) [a..<a + m] = take m (drop ?o b)"
      using blk Some lb assms(5) by (intro nth_equalityI) simp_all
    ultimately show ?thesis using Some wb by (simp add: read_single_block_def)
  qed
qed

section \<open>Any number of blocks\<close>

lemma tx_step:
  assumes "ms_ok k s" and "a + n < 2 ^ 32" and "0 < n"
  obtains m where "unat (tx_bytes s (of_nat a) (of_nat n)) = m" and "0 < m" and "m \<le> n" and "a mod 2 ^ k + m \<le> 2 ^ k"
    and "of_nat a + tx_bytes s (of_nat a) (of_nat n) = of_nat (a + m)"
    and "of_nat n - tx_bytes s (of_nat a) (of_nat n) = of_nat (n - m)" and "(of_nat n :: u32) \<noteq> 0"
proof
  let ?t = "tx_bytes s (of_nat a) (of_nat n)"
  have m: "a mod 2 ^ k < 2 ^ k" by simp
  note t = tx_bytes_min [OF assms(1,2)]
  show "0 < unat ?t" "unat ?t \<le> n" "a mod 2 ^ k + unat ?t \<le> 2 ^ k" using t m assms(3) by (auto simp: min_def)
  then show "of_nat a + ?t = of_nat (a + unat ?t)" "of_nat n - ?t = of_nat (n - unat ?t)" by (simp_all add: of_nat_diff)
  have "unat (of_nat n :: u32) = n" using assms(2) by (simp add: unat_of_nat_lt)
  then show "(of_nat n :: u32) \<noteq> 0" using assms(3) by (metis not_gr_zero unat_0)
qed simp

lemma write_blocks_ok:
  assumes "ms_ok k s" and "a + n < 2 ^ 32" and "n \<le> length data" and "n \<le> fuel"
  shows "\<exists>s'. write_blocks fuel (of_nat a) (of_nat n) data s = Inr s' \<and> ms_ok k s' \<and>
    ms_watchpoints s' = ms_watchpoints s \<and>
    (\<forall>x < 2 ^ 32. byte_at s' x = (if a \<le> x \<and> x < a + n then data ! (x - a) else byte_at s x))"
  using assms
proof (induction fuel arbitrary: a n data s)
  case (Suc fuel)
  show ?case
  proof (cases "n = 0")
    case False
    then obtain m where m: "unat (tx_bytes s (of_nat a) (of_nat n)) = m" "0 < m" "m \<le> n" "a mod 2 ^ k + m \<le> 2 ^ k"
      "of_nat a + tx_bytes s (of_nat a) (of_nat n) = of_nat (a + m)"
      "of_nat n - tx_bytes s (of_nat a) (of_nat n) = of_nat (n - m)" "(of_nat n :: u32) \<noteq> 0"
      using tx_step [OF Suc.prems(1,2)] by blast
    have a: "a < 2 ^ 32" using Suc.prems(2) by simp
    obtain s1 where s1: "write_at (of_nat (a div 2 ^ k)) (block_offset s (of_nat a))
        (ucast (tx_bytes s (of_nat a) (of_nat n))) data s = Inr s1" "ms_ok k s1" "ms_watchpoints s1 = ms_watchpoints s"
      "\<forall>x < 2 ^ 32. byte_at s1 x = (if a \<le> x \<and> x < a + m then data ! (x - a) else byte_at s x)"
    proof -
      have "unat (ucast (tx_bytes s (of_nat a) (of_nat n)) :: u64) = m" by (simp only: unat_widen m(1))
      from write_at_ok [OF Suc.prems(1) a this m(4) le_trans [OF m(3) Suc.prems(3)]] that show thesis by blast
    qed
    have "a + m + (n - m) < 2 ^ 32" "n - m \<le> length (drop m data)" "n - m \<le> fuel"
      using Suc.prems(2-4) m(2,3) by auto
    from Suc.IH [OF s1(2) this] obtain s2 where s2: "write_blocks fuel (of_nat (a + m)) (of_nat (n - m)) (drop m data) s1 = Inr s2"
      "ms_ok k s2" "ms_watchpoints s2 = ms_watchpoints s1"
      "\<forall>x < 2 ^ 32. byte_at s2 x = (if a + m \<le> x \<and> x < a + m + (n - m) then drop m data ! (x - (a + m)) else byte_at s1 x)"
      by blast
    have "write_blocks (Suc fuel) (of_nat a) (of_nat n) data s = Inr s2"
      using m s1(1) s2(1) addr_split(1) [OF Suc.prems(1) a] by (subst write_blocks.simps) (simp add: Let_def)
    moreover have "byte_at s2 x = (if a \<le> x \<and> x < a + n then data ! (x - a) else byte_at s x)" if "x < 2 ^ 32" for x
    proof (cases "a + m \<le> x")
      case True
      then show ?thesis using s2(4) s1(4) that m(3) Suc.prems(3) by simp
    next
      case False
      then show ?thesis using s2(4) s1(4) that m(3) by simp
    qed
    ultimately show ?thesis using s2 s1(3) by auto
  qed (use Suc.prems(1) in \<open>auto simp: write_blocks.simps\<close>)
qed (auto simp: write_blocks.simps)

lemma read_blocks_ok:
  assumes "ms_ok k s" and "below_last k (a + n)" and "n \<le> fuel"
  shows "read_blocks fuel (of_nat a) (of_nat n) s = Inr (map (byte_at s) [a..<a + n])"
  using assms(2,3)
proof (induction fuel arbitrary: a n)
  case (Suc fuel)
  show ?case
  proof (cases "n = 0")
    case False
    have lt: "a + n < 2 ^ 32" using Suc.prems(1) zero_less_power [of "2 :: nat" k] by (simp only: below_last_def) linarith
    obtain m where m: "unat (tx_bytes s (of_nat a) (of_nat n)) = m" "0 < m" "m \<le> n" "a mod 2 ^ k + m \<le> 2 ^ k"
      "of_nat a + tx_bytes s (of_nat a) (of_nat n) = of_nat (a + m)"
      "of_nat n - tx_bytes s (of_nat a) (of_nat n) = of_nat (n - m)" "(of_nat n :: u32) \<noteq> 0"
      using tx_step [OF assms(1) lt] False by blast
    have "read_single_block (of_nat (a div 2 ^ k)) (of_nat a) (ucast (tx_bytes s (of_nat a) (of_nat n))) s =
        Inr (map (byte_at s) [a..<a + m])"
      using read_single_block_ok [OF assms(1) Suc.prems(1), of a] m(1,4) False by (simp add: unat_widen)
    moreover have "read_blocks fuel (of_nat (a + m)) (of_nat (n - m)) s = Inr (map (byte_at s) [a + m..<a + n])"
      using Suc.IH [of "a + m" "n - m"] Suc.prems m(2,3) by simp
    moreover have "[a..<a + n] = [a..<a + m] @ [a + m..<a + n]"
      using m(3) upt_add_eq_append [of a "a + m" "n - m"] by simp
    ultimately show ?thesis
      using m addr_split(1) [OF assms(1), of a] lt by (subst read_blocks.simps) (simp add: Let_def)
  qed (simp add: read_blocks.simps)
qed (simp add: read_blocks.simps)

section \<open>The contract of a byte-addressed memory\<close>

text \<open>
  \<open>writable a n\<close> and \<open>readable a n\<close> are the ranges in which \<open>n\<close> bytes from \<open>a\<close> on can be accessed;
  \<open>contents\<close> gives the bytes the memory holds.
\<close>

locale byte_store =
  fixes ok :: "'m \<Rightarrow> bool"
    and contents :: "'m \<Rightarrow> nat \<Rightarrow> u8"
    and readable :: "nat \<Rightarrow> nat \<Rightarrow> bool"
    and writable :: "nat \<Rightarrow> nat \<Rightarrow> bool"
    and fetch :: "nat \<Rightarrow> nat \<Rightarrow> 'm \<Rightarrow> u8 list res"
    and store :: "nat \<Rightarrow> u8 list \<Rightarrow> 'm \<Rightarrow> 'm res"
  assumes fetch_ok: "ok m \<Longrightarrow> readable a n \<Longrightarrow> fetch a n m = Inr (map (contents m) [a..<a + n])"
    and store_ok: "ok m \<Longrightarrow> writable a (length bs) \<Longrightarrow> \<exists>m'. store a bs m = Inr m' \<and> ok m' \<and>
      (\<forall>x < 2 ^ 32. contents m' x = (if a \<le> x \<and> x < a + length bs then bs ! (x - a) else contents m x))"
    and readable_writable: "readable a n \<Longrightarrow> writable a n"
    and readable_bound: "readable a n \<Longrightarrow> a + n \<le> 2 ^ 32"
begin

lemma fetch_store:
  assumes "ok m" and "readable a (length bs)"
  shows "\<exists>m'. store a bs m = Inr m' \<and> ok m' \<and> fetch a (length bs) m' = Inr bs"
proof -
  obtain m' where m': "store a bs m = Inr m'" "ok m'"
    "\<forall>x < 2 ^ 32. contents m' x = (if a \<le> x \<and> x < a + length bs then bs ! (x - a) else contents m x)"
    using store_ok [OF assms(1) readable_writable [OF assms(2)]] by blast
  have "map (contents m') [a..<a + length bs] = bs"
    using m'(3) readable_bound [OF assms(2)] by (intro nth_equalityI) simp_all
  with m'(1,2) fetch_ok [OF m'(2) assms(2)] show ?thesis by simp
qed

lemma fetch_store_other:
  assumes "ok m" and "writable a (length bs)" and "readable b n" and "b + n \<le> a \<or> a + length bs \<le> b"
  shows "\<exists>m'. store a bs m = Inr m' \<and> fetch b n m' = fetch b n m"
proof -
  obtain m' where m': "store a bs m = Inr m'" "ok m'"
    "\<forall>x < 2 ^ 32. contents m' x = (if a \<le> x \<and> x < a + length bs then bs ! (x - a) else contents m x)"
    using store_ok [OF assms(1,2)] by blast
  have "contents m' x = contents m x" if "x \<in> set [b..<b + n]" for x
    using m'(3) that assms(4) readable_bound [OF assms(3)] by auto
  then have "map (contents m') [b..<b + n] = map (contents m) [b..<b + n]" by (rule map_cong [OF refl])
  with m' fetch_ok [OF _ assms(3)] assms(1) show ?thesis by simp
qed

end

definition ms_fetch :: "nat \<Rightarrow> nat \<Rightarrow> memory_space_impl \<Rightarrow> u8 list res" where
  "ms_fetch a n s = mem_read (of_nat a) (of_nat n) s"

definition ms_store :: "nat \<Rightarrow> u8 list \<Rightarrow> memory_space_impl \<Rightarrow> memory_space_impl res" where
  "ms_store a bs s = andThen (mem_write (of_nat a) (of_nat (length bs)) bs s) (\<lambda>(hits, s'). Inr s')"

lemma low_length: "n < 2 ^ 32 \<Longrightarrow> (ucast (of_nat n :: u64) :: u32) = of_nat n \<and> unat (of_nat n :: u64) = n"
  using unat_of_nat_lt [of n, where 'a = 64] unat_of_nat_lt [of n, where 'a = 32] unat_narrow [of "of_nat n"]
  by (simp add: word_unat_eq_iff)

lemma mem_read_ok:
  assumes "ms_ok k s" and "below_last k (a + n)" and "0 < n"
  shows "ms_fetch a n s = Inr (map (byte_at s) [a..<a + n])"
proof -
  have k: "k < 32" using assms(1) by (simp add: ms_ok_def)
  have lt: "a + n < 2 ^ 32" using assms(2) zero_less_power [of "2 :: nat" k] by (simp only: below_last_def) linarith
  then have a: "a < 2 ^ 32" and n: "n < 2 ^ 32" by auto
  note l = low_length [OF n] and sp = addr_split(1) [OF assms(1) a]
  have nl: "(a div 2 ^ k + 1) * 2 ^ k < 2 ^ 32" using below_last_next(2) [OF assms(2) _ k, of a] assms(3) by simp
  show ?thesis
  proof (cases "within_block s (of_nat (a div 2 ^ k)) (of_nat a) (of_nat n)")
    case True
    then have "a mod 2 ^ k + n \<le> 2 ^ k" using within_block_iff [OF assms(1) a _ n nl] l by blast
    then show ?thesis using read_single_block_ok [OF assms(1,2), of a "of_nat n" n] assms(3) l True sp
      by (simp add: ms_fetch_def mem_read_def)
  next
    case False
    then show ?thesis using read_blocks_ok [OF assms(1,2) order_refl] l sp unat_of_nat_lt [of n, where 'a = 32] n
      by (simp add: ms_fetch_def mem_read_def)
  qed
qed

lemma within_block_fits:
  assumes "ms_ok k s" and "a + n < 2 ^ 32" and "within_block s (of_nat (a div 2 ^ k)) (of_nat a) (of_nat n)"
  shows "a mod 2 ^ k + n \<le> 2 ^ k"
proof (cases "(a div 2 ^ k + 1) * 2 ^ k < 2 ^ 32")
  case True
  then show ?thesis using within_block_iff [OF assms(1), of a "of_nat n" n] assms(2,3) low_length [of n] by simp
next
  case False
  have k: "k < 32" using assms(1) by (simp add: ms_ok_def)
  then have p: "(2 :: nat) ^ 32 = 2 ^ (32 - k) * 2 ^ k" by (simp flip: power_add)
  have "a < 2 ^ (32 - k) * 2 ^ k" using assms(2) unfolding p by simp
  then have "a div 2 ^ k < 2 ^ (32 - k)" by (rule less_mult_imp_div_less)
  then have "(a div 2 ^ k + 1) * 2 ^ k \<le> 2 ^ 32" unfolding p by (intro mult_right_mono) auto
  with False have "(a div 2 ^ k + 1) * 2 ^ k = 2 ^ 32" by simp
  then have "(of_nat ((a div 2 ^ k + 1) * 2 ^ k) :: u32) = 0" by (simp only:) simp
  then have "(of_nat (a div 2 ^ k) + 1) * ms_bsize s = 0"
    using assms(1) by (simp add: ms_ok_def distrib_right add.commute)
  with assms(3) have "unat (ucast (of_nat a :: u32) + of_nat n :: u64) = 0" by (simp add: within_block_def)
  then have "n = 0" using assms(2) low_length [of n] unat_of_nat_lt [of a, where 'a = 32]
    by (simp add: unat_add_le unat_widen)
  then show ?thesis by simp
qed

lemma mem_write_ok:
  assumes "ms_ok k s" and "a + length bs < 2 ^ 32"
  shows "\<exists>s'. mem_write (of_nat a) (of_nat (length bs)) bs s = Inr (watch_hits s (of_nat a) (of_nat (length bs)), s') \<and>
    ms_ok k s' \<and> ms_watchpoints s' = ms_watchpoints s \<and>
    (\<forall>x < 2 ^ 32. byte_at s' x = (if a \<le> x \<and> x < a + length bs then bs ! (x - a) else byte_at s x))"
proof -
  let ?n = "length bs"
  have a: "a < 2 ^ 32" and n: "?n < 2 ^ 32" using assms(2) by auto
  note l = low_length [OF n] and sp = addr_split(1) [OF assms(1) a]
  have n32: "unat (of_nat ?n :: u32) = ?n" using n by (simp add: unat_of_nat_lt)
  let ?r = "if within_block s (of_nat (a div 2 ^ k)) (of_nat a) (of_nat ?n)
    then write_at (of_nat (a div 2 ^ k)) (block_offset s (of_nat a)) (ucast (of_nat ?n :: u32)) bs s
    else write_blocks ?n (of_nat a) (of_nat ?n) bs s"
  have "\<exists>s'. ?r = Inr s' \<and> ms_ok k s' \<and> ms_watchpoints s' = ms_watchpoints s \<and>
    (\<forall>x < 2 ^ 32. byte_at s' x = (if a \<le> x \<and> x < a + length bs then bs ! (x - a) else byte_at s x))"
  proof (cases "within_block s (of_nat (a div 2 ^ k)) (of_nat a) (of_nat ?n)")
    case True
    have "unat (ucast (of_nat ?n :: u32) :: u64) = ?n" by (simp only: unat_widen n32)
    from write_at_ok [OF assms(1) a this within_block_fits [OF assms True] order_refl] True show ?thesis by simp
  next
    case False
    then show ?thesis using write_blocks_ok [OF assms order_refl order_refl] by simp
  qed
  then obtain s' where s': "?r = Inr s'" "ms_ok k s'" "ms_watchpoints s' = ms_watchpoints s"
    "\<forall>x < 2 ^ 32. byte_at s' x = (if a \<le> x \<and> x < a + length bs then bs ! (x - a) else byte_at s x)" by blast
  have "mem_write (of_nat a) (of_nat ?n) bs s = andThen ?r (\<lambda>s'. Inr (watch_hits s' (of_nat a) (of_nat ?n), s'))"
    by (simp only: mem_write_def sp andThen.simps conjunct1 [OF l] n32)
  with s' show ?thesis by (simp add: watch_hits_def)
qed

interpretation mem: byte_store "ms_ok k" byte_at "\<lambda>a n. 0 < n \<and> below_last k (a + n)" "\<lambda>a n. a + n < 2 ^ 32"
  ms_fetch ms_store for k
proof unfold_locales
  fix a n
  assume r: "0 < n \<and> below_last k (a + n)"
  then show "a + n < 2 ^ 32" using zero_less_power [of "2 :: nat" k] by (simp only: below_last_def) linarith
  then show "a + n \<le> 2 ^ 32" by simp
next
  fix s a and bs :: "u8 list"
  assume "ms_ok k s" "a + length bs < 2 ^ 32"
  from mem_write_ok [OF this] show "\<exists>m'. ms_store a bs s = Inr m' \<and> ms_ok k m' \<and>
      (\<forall>x < 2 ^ 32. byte_at m' x = (if a \<le> x \<and> x < a + length bs then bs ! (x - a) else byte_at s x))"
    by (auto simp: ms_store_def)
qed (use mem_read_ok in auto)

section \<open>Properties\<close>

text \<open>C8: The simulated memory holds what was written.  Below the last block of the address space a read
  succeeds, whatever number of blocks it spans, and returns the bytes written last: after a write of
  \<open>bs\<close> at \<open>a\<close>, the bytes of \<open>bs\<close> inside the written range and the previous contents outside it; the
  write reports exactly the watchpoints of its range.\<close>

theorem memory_read_after_write:
  assumes "ms_ok k s" and "a + length bs < 2 ^ 32" and "0 < n" and "b + n + 2 ^ k \<le> 2 ^ 32"
  shows "mem_read (of_nat b) (of_nat n) s = Inr (map (byte_at s) [b..<b + n]) \<and>
    (\<exists>s'. mem_write (of_nat a) (of_nat (length bs)) bs s = Inr (watch_hits s (of_nat a) (of_nat (length bs)), s') \<and>
      ms_ok k s' \<and> mem_read (of_nat b) (of_nat n) s' =
        Inr (map (\<lambda>x. if a \<le> x \<and> x < a + length bs then bs ! (x - a) else byte_at s x) [b..<b + n]))"
proof -
  have r: "0 < n \<and> below_last k (b + n)" using assms(3,4) by (simp add: below_last_def)
  obtain s' where s': "mem_write (of_nat a) (of_nat (length bs)) bs s = Inr (watch_hits s (of_nat a) (of_nat (length bs)), s')"
    "ms_ok k s'" "\<forall>x < 2 ^ 32. byte_at s' x = (if a \<le> x \<and> x < a + length bs then bs ! (x - a) else byte_at s x)"
    using mem_write_ok [OF assms(1,2)] by blast
  have "b + n \<le> 2 ^ 32" using mem.readable_bound [OF r] .
  then have "map (byte_at s') [b..<b + n] =
      map (\<lambda>x. if a \<le> x \<and> x < a + length bs then bs ! (x - a) else byte_at s x) [b..<b + n]"
    using s'(3) by (intro map_cong [OF refl]) simp
  then show ?thesis
    using s' mem.fetch_ok [OF assms(1) r] mem.fetch_ok [OF s'(2) r] by (auto simp: ms_fetch_def)
qed

theorem memory_read_after_write_witness:
  "\<exists>s s'. memory_space_new 32 = Inr s \<and> mem_write 30 4 [1, 2, 3, 4] s = Inr ([], s') \<and>
    mem_read 29 6 s' = Inr [0, 1, 2, 3, 4, 0]"
proof -
  obtain s where s: "memory_space_new (2 ^ 5) = Inr s" "ms_ok 5 s" using memory_space_new_ok [of 5] by auto
  then have e: "ms_watchpoints s = []" "\<And>x. byte_at s x = 0"
    by (auto simp: memory_space_new_def res_simps byte_at_def)
  have "[29..<35] = [29, 30, 31, 32, 33, 34 :: nat]" by (simp add: upt_rec)
  with memory_read_after_write [OF s(2), of 30 "[1, 2, 3, 4]" 6 29] s(1) e show ?thesis
    by (auto simp: watch_hits_def)
qed

lemma last_block_never_within:
  assumes "ms_ok k m" and "2 ^ 32 \<le> a + 2 ^ k" and "a < 2 ^ 32"
  shows "\<not> within_block m (of_nat (a div 2 ^ k)) (of_nat a) (ucast (w :: u32))"
proof -
  have k: "k < 32" using assms(1) by (simp add: ms_ok_def)
  have "(2 :: nat) ^ k < 2 ^ 32" using k by (simp only: power_strict_increasing_iff one_less_numeral_iff semiring_norm)
  then have pos: "0 < a" using assms(2) by linarith
  have p: "(2 :: nat) ^ 32 = 2 ^ (32 - k) * 2 ^ k" using k by (simp flip: power_add)
  have "a div 2 ^ k < 2 ^ (32 - k)" using assms(3) unfolding p by (rule less_mult_imp_div_less)
  moreover have "2 ^ (32 - k) * 2 ^ k \<le> a + 2 ^ k" using assms(2) unfolding p .
  from div_le_mono [OF this, of "2 ^ k"] have "2 ^ (32 - k) \<le> a div 2 ^ k + 1" using div_add_self2 [of "2 ^ k" a] by simp
  ultimately have "(a div 2 ^ k + 1) * 2 ^ k = 2 ^ 32" unfolding p by (metis Suc_eq_plus1 Suc_leI le_antisym)
  then have "(of_nat ((a div 2 ^ k + 1) * 2 ^ k) :: u32) = 0" by (simp only:) simp
  then have z: "(of_nat (a div 2 ^ k) + 1) * ms_bsize m = 0"
    using assms(1) by (simp add: ms_ok_def distrib_right add.commute)
  have "unat (ucast (of_nat a :: u32) + ucast w :: u64) = a + unat w"
    using unat_lt [of w] assms(3) unat_of_nat_lt [of a, where 'a = 32] by (simp add: unat_add_le unat_widen)
  then show ?thesis using pos by (auto simp: within_block_def z)
qed

lemma last_block_read:
  assumes "ms_ok k m" and "2 ^ 32 \<le> a + 2 ^ k" and "a < 2 ^ 32" and "0 < n" and "n < 2 ^ 32"
  shows "mem_read (of_nat a) (of_nat n) m = Inl Thrown"
proof -
  have l: "(of_nat n :: u64) = ucast (of_nat n :: u32)" "unat (of_nat n :: u32) = n"
    using low_length [OF assms(5)] unat_of_nat_lt [of n, where 'a = 32] assms(5)
    by (simp_all add: word_unat_eq_iff unat_widen)
  obtain f where f: "n = Suc f" using assms(4) by (cases n) auto
  have "(of_nat n :: u32) \<noteq> 0" using l(2) assms(4) by (metis less_irrefl unat_0)
  then show ?thesis
    using addr_split(1) [OF assms(1,3)] last_block_never_within [OF assms(1-3)] l low_length [OF assms(5)]
    by (simp add: mem_read_def read_blocks.simps f read_single_block_def Let_def)
qed

text \<open>The last block of the address space cannot be read.  The end of that block is computed in 32 bits and
  wraps around to zero, so every read of a non-empty range that starts in it throws, even of bytes that
  have just been written; the corresponding write succeeds.\<close>

theorem last_block_unreadable:
  assumes "ms_ok k s" and "2 ^ 32 \<le> a + 2 ^ k" and "a + length bs < 2 ^ 32" and "0 < n" and "n < 2 ^ 32"
  shows "mem_read (of_nat a) (of_nat n) s = Inl Thrown \<and>
    (\<exists>hits s'. mem_write (of_nat a) (of_nat (length bs)) bs s = Inr (hits, s') \<and>
      (\<forall>i < length bs. byte_at s' (a + i) = bs ! i) \<and> mem_read (of_nat a) (of_nat n) s' = Inl Thrown)"
proof -
  have a: "a < 2 ^ 32" using assms(3) by simp
  obtain s' where s': "mem_write (of_nat a) (of_nat (length bs)) bs s = Inr (watch_hits s (of_nat a) (of_nat (length bs)), s')"
    "ms_ok k s'" "\<forall>x < 2 ^ 32. byte_at s' x = (if a \<le> x \<and> x < a + length bs then bs ! (x - a) else byte_at s x)"
    using mem_write_ok [OF assms(1,3)] by blast
  have "byte_at s' (a + i) = bs ! i" if "i < length bs" for i using s'(3) that assms(3) by simp
  with s' last_block_read [OF assms(1,2) a assms(4,5)] last_block_read [OF s'(2) assms(2) a assms(4,5)]
  show ?thesis by blast
qed

end
