(* ===== verification/Sampling.thy ===== *)
theory Sampling
  imports Shannon_Codes Compressor Memory_Space Tag_Array
begin

text \<open>
  The codebook life cycle of a memory partition, \<open>memory_partition_unit\<close> of
  \<open>src/src/gpgpu-sim/l2cache.{h,cc}\<close>: reads on their way to the DRAM are sampled into a FIFO of symbols,
  each cycle counts a few of them, and at interval boundaries the codebook is rebuilt from the counts
  after a fixed delay, during which counting stops; then the counts are aged.  The record \<open>sampler\<close> holds
  the members these functions use; the rest of the class extends it (theory \<open>Partition\<close>).  The macros at
  the head of the file are constants here.  The simulator's cycle number
  (\<open>gpu_sim_cycle + gpu_tot_sim_cycle\<close>), the configuration of the L2 and the global memory are arguments.

  Shown: whatever is sampled outside the last block of the memory and whichever method builds the codes, over
  any run of at most \<open>2 ^ 36\<close> operations nothing fails, the FIFO keeps its capacity, the codebook is a
  prefix-free code and its symbol table stays small; a rebuild codes the table as it was when it started.
\<close>

section \<open>Constants\<close>

definition HUFFMAN_SYMBOL_LENGTH :: u64 where "HUFFMAN_SYMBOL_LENGTH = 16"
definition MAG :: u64 where "MAG = 32"
definition MEMORY_REQUEST_SIZE :: u64 where "MEMORY_REQUEST_SIZE = 128"
definition SAMPLING_SYMBOLS_PER_REQUEST :: u64 where "SAMPLING_SYMBOLS_PER_REQUEST = 64"
definition SAMPLING_FIFO_CAPACITY :: nat where "SAMPLING_FIFO_CAPACITY = 1024"
definition SAMPLING_SYMBOL_UPDATES_PER_CYCLE :: nat where "SAMPLING_SYMBOL_UPDATES_PER_CYCLE = 4"
definition HUFFMAN_TABLE_SIZE :: u64 where "HUFFMAN_TABLE_SIZE = 256"
definition CODEBOOK_REBUILD_DELAY :: u64 where "CODEBOOK_REBUILD_DELAY = HUFFMAN_TABLE_SIZE * 2 + 22"
definition DYNAMIC_UPDATE_FLAG :: nat where "DYNAMIC_UPDATE_FLAG = 1"
definition DYNAMIC_UPDATE_INTERVAL :: u64 where "DYNAMIC_UPDATE_INTERVAL = 5000"
definition SAMPLING_DURATION :: u64 where "SAMPLING_DURATION = 15000"

section \<open>State\<close>

record compression_info =
  ci_is_compressed :: bool
  ci_original_size :: u32
  ci_rawcompressed_size :: u32
  ci_burst_size :: u32

record compression_stats =
  cs_total_compression_requests :: int
  cs_total_raw_compression_ratio :: real
  cs_total_effective_compression_ratio :: real

definition compression_stats_new :: compression_stats where
  "compression_stats_new = \<lparr>cs_total_compression_requests = 0, cs_total_raw_compression_ratio = 0,
     cs_total_effective_compression_ratio = 0\<rparr>"

definition update_stats :: "real \<Rightarrow> real \<Rightarrow> compression_stats \<Rightarrow> compression_stats" where
  "update_stats raw effective c =
    (let n = real_of_int (cs_total_compression_requests c) in
     \<lparr>cs_total_compression_requests = cs_total_compression_requests c + 1,
      cs_total_raw_compression_ratio = (cs_total_raw_compression_ratio c * n + raw) / (n + 1),
      cs_total_effective_compression_ratio = (cs_total_effective_compression_ratio c * n + effective) / (n + 1)\<rparr>)"

record codebook_symbol_stat =
  st_symbol :: u64
  st_frequency :: u64

record interval_codebook_snapshot =
  sn_cycle :: u64
  sn_symbol_length_bits :: u64
  sn_total_frequency :: u64
  sn_unique_symbols :: u64
  sn_entropy_bits :: real
  sn_top_entries :: "codebook_symbol_stat list"

datatype codebook_build_method = huffman | shannon_fano | shannon

record pending_codebook_rebuild =
  pr_active :: bool
  pr_start_cycle :: u64
  pr_ready_cycle :: u64
  pr_method :: codebook_build_method

record sampler =
  mp_huffman_enabled :: bool
  mp_huffman_codebook :: huffman_codebook
  mp_compression_storage :: "u64 \<Rightarrow> compression_info option"
  mp_compression_stats :: compression_stats
  mp_interval_compression_stats :: "compression_stats list"
  mp_interval_codebook_snapshots :: "interval_codebook_snapshot list"
  mp_cycle_huffman_generated :: u32
  mp_dram_sector_histogram :: "u64 list"
  mp_total_dram_data_requests :: u64
  mp_zero_data_dram_requests :: u64
  mp_sampling_symbol_fifo :: "u64 list"
  mp_pending_dynamic_codebook_rebuild :: pending_codebook_rebuild

text \<open>The initial values of these members, with the codebook the constructor of the partition makes;
  the checking size is \<open>HUFFMAN_TABLE_SIZE * 1.2\<close>, converted to \<open>size_t\<close>.\<close>

definition checking_size :: u64 where "checking_size = of_nat (nat \<lfloor>real (unat HUFFMAN_TABLE_SIZE) * 1.2\<rfloor>)"

definition sampler_new :: "sampler res" where
  "sampler_new = andThen (huffman_codebook_new checking_size HUFFMAN_TABLE_SIZE HUFFMAN_SYMBOL_LENGTH MAG) (\<lambda>cb.
    Inr \<lparr>mp_huffman_enabled = False, mp_huffman_codebook = cb, mp_compression_storage = Map.empty,
      mp_compression_stats = compression_stats_new, mp_interval_compression_stats = [],
      mp_interval_codebook_snapshots = [], mp_cycle_huffman_generated = 0, mp_dram_sector_histogram = [],
      mp_total_dram_data_requests = 0, mp_zero_data_dram_requests = 0, mp_sampling_symbol_fifo = [],
      mp_pending_dynamic_codebook_rebuild =
        \<lparr>pr_active = False, pr_start_cycle = 0, pr_ready_cycle = 0, pr_method = huffman\<rparr>\<rparr>)"

section \<open>Operations\<close>

definition update_compression_storage ::
  "u64 \<Rightarrow> compression_info \<Rightarrow> 'a sampler_scheme \<Rightarrow> 'a sampler_scheme" where
  "update_compression_storage addr info m =
    m\<lparr>mp_compression_storage := (mp_compression_storage m)(addr \<mapsto> info)\<rparr>"

definition get_compression_info :: "u64 \<Rightarrow> 'a sampler_scheme \<Rightarrow> compression_info" where
  "get_compression_info addr m = (case mp_compression_storage m addr of Some info \<Rightarrow> info
     | None \<Rightarrow> \<lparr>ci_is_compressed = False, ci_original_size = 0, ci_rawcompressed_size = 0, ci_burst_size = 0\<rparr>)"

definition sampling_enabled :: "u64 \<Rightarrow> bool" where
  "sampling_enabled cycle \<longleftrightarrow> cycle < SAMPLING_DURATION \<or> DYNAMIC_UPDATE_FLAG = 1"

definition selected_codebook_build_method :: codebook_build_method where
  "selected_codebook_build_method = shannon"

definition should_sample_request :: "mem_fetch option \<Rightarrow> bool" where
  "should_sample_request mf = (case mf of None \<Rightarrow> False
     | Some f \<Rightarrow> get_access_type f = GLOBAL_ACC_R \<or> get_access_type f = L2_WR_ALLOC_R)"

definition capture_interval_codebook_snapshot ::
  "cxx_lib \<Rightarrow> u64 \<Rightarrow> u64 \<Rightarrow> 'a sampler_scheme \<Rightarrow> 'a sampler_scheme" where
  "capture_interval_codebook_snapshot cx cycle top_k m =
    (let ft = hc_freq_table (mp_huffman_codebook m);
         top_frequencies = get_top_frequencies cx ft;
         kept = (if length top_frequencies > unat top_k then take (unat top_k) top_frequencies else top_frequencies);
         snapshot = \<lparr>sn_cycle = cycle, sn_symbol_length_bits = ft_symbol_length ft,
           sn_total_frequency = get_total_frequency cx ft, sn_unique_symbols = ft_size ft,
           sn_entropy_bits = compute_entropy cx ft,
           sn_top_entries = map (\<lambda>(s, f). \<lparr>st_symbol = s, st_frequency = f\<rparr>) kept\<rparr>
     in m\<lparr>mp_interval_codebook_snapshots := mp_interval_codebook_snapshots m @ [snapshot]\<rparr>)"

definition start_new_interval :: "cxx_lib \<Rightarrow> u64 \<Rightarrow> bool \<Rightarrow> 'a sampler_scheme \<Rightarrow> 'a sampler_scheme" where
  "start_new_interval cx cycle capture_codebook_snapshot m =
    (let m' = m\<lparr>mp_interval_compression_stats := mp_interval_compression_stats m @ [compression_stats_new]\<rparr>
     in if capture_codebook_snapshot then capture_interval_codebook_snapshot cx cycle 10 m' else m')"

definition start_dynamic_codebook_rebuild ::
  "u64 \<Rightarrow> codebook_build_method \<Rightarrow> 'a sampler_scheme \<Rightarrow> bool \<times> 'a sampler_scheme" where
  "start_dynamic_codebook_rebuild cycle how m =
    (if pr_active (mp_pending_dynamic_codebook_rebuild m) then (False, m)
     else (True, m\<lparr>mp_pending_dynamic_codebook_rebuild :=
       \<lparr>pr_active = True, pr_start_cycle = cycle, pr_ready_cycle = cycle + CODEBOOK_REBUILD_DELAY,
        pr_method = how\<rparr>\<rparr>))"

fun generate_codes :: "cxx_lib \<Rightarrow> codebook_build_method \<Rightarrow> huffman_codebook \<Rightarrow> (u64 \<times> huffman_codebook) res" where
  "generate_codes cx huffman cb = generate_huffman_codes cx cb"
| "generate_codes cx shannon_fano cb = generate_shannon_fano_codes cx cb"
| "generate_codes cx shannon cb = generate_shannon_codes cx cb"

definition rebuild_codebook_and_age_samples ::
  "cxx_lib \<Rightarrow> u64 \<Rightarrow> codebook_build_method \<Rightarrow> 'a sampler_scheme \<Rightarrow> (bool \<times> 'a sampler_scheme) res" where
  "rebuild_codebook_and_age_samples cx cycle how m =
    andThen (generate_codes cx how (mp_huffman_codebook m)) (\<lambda>(code_count, cb).
      let m1 = m\<lparr>mp_huffman_codebook := cb\<rparr> in
      if code_count = 0 then Inr (False, m1)
      else let m2 = start_new_interval cx cycle True m1; cb2 = mp_huffman_codebook m2 in
        Inr (True, m2\<lparr>mp_huffman_codebook := cb2\<lparr>hc_freq_table := scale_down 2 (hc_freq_table cb2)\<rparr>\<rparr>))"

definition complete_dynamic_codebook_rebuild_if_ready ::
  "cxx_lib \<Rightarrow> u64 \<Rightarrow> 'a sampler_scheme \<Rightarrow> 'a sampler_scheme res" where
  "complete_dynamic_codebook_rebuild_if_ready cx current_cycle m =
    (let p = mp_pending_dynamic_codebook_rebuild m in
     if \<not> pr_active p \<or> current_cycle < pr_ready_cycle p then Inr m
     else andThen (rebuild_codebook_and_age_samples cx current_cycle (pr_method p) m) (\<lambda>(done, m1).
       let m2 = (if done then m1\<lparr>mp_cycle_huffman_generated := ucast current_cycle\<rparr> else m1) in
       Inr (m2\<lparr>mp_pending_dynamic_codebook_rebuild :=
         (mp_pending_dynamic_codebook_rebuild m2)\<lparr>pr_active := False\<rparr>\<rparr>)))"

text \<open>The loop over the symbols of a request; it ends early when the FIFO is full.\<close>

fun sample_symbols :: "u8 list \<Rightarrow> u64 \<Rightarrow> u64 \<Rightarrow> u64 \<Rightarrow> nat list \<Rightarrow> u64 list \<Rightarrow> u64 list res" where
  "sample_symbols data symbol_length available to_enqueue [] fifo = Inr fifo"
| "sample_symbols data symbol_length available to_enqueue (i # is') fifo =
    (if length fifo \<ge> SAMPLING_FIFO_CAPACITY then Inr fifo
     else defined (2 * to_enqueue \<noteq> 0)
       (let symbol_index = ((2 * of_nat i + 1) * available) div (2 * to_enqueue);
            bit_pos = symbol_index * symbol_length in
        andThen (extract_symbol_from_bitstream data MEMORY_REQUEST_SIZE bit_pos symbol_length) (\<lambda>(symbol, pos).
          sample_symbols data symbol_length available to_enqueue is' (fifo @ [symbol]))))"

text \<open>The address of the line is converted to the 32 bits of \<open>mem_addr_t\<close> by the call of \<open>read\<close>.\<close>

definition enqueue_sampled_symbols ::
  "cache_config \<Rightarrow> memory_space_impl \<Rightarrow> u64 \<Rightarrow> mem_fetch option \<Rightarrow> 'a sampler_scheme \<Rightarrow> 'a sampler_scheme res" where
  "enqueue_sampled_symbols l2c mem cycle mf m =
    (if \<not> sampling_enabled cycle \<or> \<not> should_sample_request mf then Inr m
     else let symbol_length = ft_symbol_length (hc_freq_table (mp_huffman_codebook m)) in
       if symbol_length = 0 then Inr m
       else let probe_pointer = block_addr l2c (get_addr (the mf)) in
         andThen (mem_read (ucast probe_pointer) MEMORY_REQUEST_SIZE mem) (\<lambda>data.
           let total_bits = MEMORY_REQUEST_SIZE * 8; available_symbols = total_bits div symbol_length;
               symbols_to_enqueue = min SAMPLING_SYMBOLS_PER_REQUEST available_symbols in
           andThen (sample_symbols data symbol_length available_symbols symbols_to_enqueue
                      [0..<unat symbols_to_enqueue] (mp_sampling_symbol_fifo m)) (\<lambda>fifo.
             Inr (m\<lparr>mp_sampling_symbol_fifo := fifo\<rparr>))))"

definition set_freq_table :: "frequency_value_table \<Rightarrow> 'a sampler_scheme \<Rightarrow> 'a sampler_scheme" where
  "set_freq_table t m = m\<lparr>mp_huffman_codebook := (mp_huffman_codebook m)\<lparr>hc_freq_table := t\<rparr>\<rparr>"

fun count_symbols :: "cxx_lib \<Rightarrow> nat \<Rightarrow> 'a sampler_scheme \<Rightarrow> 'a sampler_scheme" where
  "count_symbols cx 0 m = m"
| "count_symbols cx (Suc n) m =
    (case mp_sampling_symbol_fifo m of [] \<Rightarrow> m
     | symbol # fifo \<Rightarrow> count_symbols cx n
         (set_freq_table (snd (update_frequency cx symbol 1 (hc_freq_table (mp_huffman_codebook m))))
           (m\<lparr>mp_sampling_symbol_fifo := fifo\<rparr>)))"

definition sampling_cycle :: "cxx_lib \<Rightarrow> 'a sampler_scheme \<Rightarrow> 'a sampler_scheme" where
  "sampling_cycle cx m =
    (if pr_active (mp_pending_dynamic_codebook_rebuild m) then m
     else if mp_sampling_symbol_fifo m = [] then m
     else count_symbols cx SAMPLING_SYMBOL_UPDATES_PER_CYCLE m)"

text \<open>\<open>resize\<close> only grows the histogram here.\<close>

definition record_dram_request_size :: "u32 \<Rightarrow> 'a sampler_scheme \<Rightarrow> 'a sampler_scheme" where
  "record_dram_request_size bytes m =
    (if bytes = 0 then m\<lparr>mp_zero_data_dram_requests := mp_zero_data_dram_requests m + 1\<rparr>
     else let sectors = (bytes + SECTOR_SIZE - 1) div SECTOR_SIZE; h = mp_dram_sector_histogram m;
              h' = (if length h \<le> unat sectors then h @ replicate (unat sectors + 1 - length h) 0 else h)
       in m\<lparr>mp_dram_sector_histogram := h'[unat sectors := h' ! unat sectors + 1],
            mp_total_dram_data_requests := mp_total_dram_data_requests m + 1\<rparr>)"

text \<open>The first part of \<open>dram_cycle\<close>, before the requests move.\<close>

definition reached_interval_boundary :: "u64 \<Rightarrow> bool" where
  "reached_interval_boundary cycle \<longleftrightarrow>
     cycle \<ge> SAMPLING_DURATION \<and> (cycle - SAMPLING_DURATION) mod DYNAMIC_UPDATE_INTERVAL = 0"

definition codebook_cycle :: "cxx_lib \<Rightarrow> u64 \<Rightarrow> 'a sampler_scheme \<Rightarrow> 'a sampler_scheme res" where
  "codebook_cycle cx cycle m =
    (let m1 = (if DYNAMIC_UPDATE_FLAG = 1 \<and> mp_huffman_enabled m \<and> reached_interval_boundary cycle
               then snd (start_dynamic_codebook_rebuild cycle selected_codebook_build_method m) else m) in
     andThen (complete_dynamic_codebook_rebuild_if_ready cx cycle m1) (\<lambda>m2. Inr (sampling_cycle cx m2)))"

section \<open>The counts\<close>

text \<open>
  A counter can be zero: \<open>update_frequency\<close> re-inserts a symbol it has just evicted (theory \<open>Freq_Table\<close>).
  The generators must never see such an entry, because the logarithm of its probability is infinite.
  They do not: an eviction leaves the final size of positive counts, so the most frequent symbols are
  positive whenever there is a zero.
\<close>

definition positives :: "pair list \<Rightarrow> nat" where
  "positives m = length (filter (\<lambda>p. snd p \<noteq> 0) m)"

definition count_total :: "pair list \<Rightarrow> nat" where
  "count_total m = (\<Sum>p \<leftarrow> m. unat (snd p))"

definition table_ok :: "nat \<Rightarrow> frequency_value_table \<Rightarrow> bool" where
  "table_ok n t \<longleftrightarrow> distinct (map fst (ft_frequency_map t)) \<and>
    unat (ft_final_table_size t) < unat (ft_checking_table_size t) \<and>
    length (ft_frequency_map t) \<le> unat (ft_checking_table_size t) \<and>
    ((\<exists>p \<in> set (ft_frequency_map t). snd p = 0) \<longrightarrow> unat (ft_final_table_size t) \<le> positives (ft_frequency_map t)) \<and>
    count_total (ft_frequency_map t) \<le> n"

lemma positives_append: "positives (xs @ ys) = positives xs + positives ys"
  by (simp add: positives_def)

lemma count_total_append: "count_total (xs @ ys) = count_total xs + count_total ys"
  by (simp add: count_total_def)

lemma positives_mset: "positives m = size (filter_mset (\<lambda>p. snd p \<noteq> 0) (mset m))"
  by (simp add: positives_def flip: mset_filter)

lemma count_total_mset: "count_total m = (\<Sum>p \<in># mset m. unat (snd p))"
  by (simp add: count_total_def flip: sum_mset_sum_list)

lemma kept_positive:
  fixes kept :: "pair list"
  assumes "mset dropped + mset kept = mset m" and "\<forall>x \<in> set dropped. \<forall>y \<in> set kept. snd x \<le> snd y"
    and "(\<exists>p \<in> set m. snd p = 0) \<longrightarrow> length kept \<le> positives m"
  shows "\<forall>p \<in> set kept. snd p \<noteq> 0"
proof (rule ballI, rule notI)
  fix p assume p: "p \<in> set kept" "snd p = 0"
  have "p \<in> set m" using p(1) arg_cong [OF assms(1), of set_mset] by auto
  then have le: "length kept \<le> positives m" using assms(3) p(2) by blast
  have "snd x = 0" if "x \<in> set dropped" for x using assms(2) that p by (metis word_zero_le order_antisym)
  then have "positives dropped = 0" by (auto simp: positives_def filter_empty_conv)
  moreover have "positives m = positives dropped + positives kept"
    unfolding positives_mset assms(1) [symmetric] by simp
  moreover have "positives kept < length kept" using p by (auto simp: positives_def intro: length_filter_less)
  ultimately show False using le by simp
qed

lemma update_split:
  "map_of al k = Some v \<Longrightarrow> \<exists>l r. al = l @ (k, v) # r \<and> (\<forall>w. AList.update k w al = l @ (k, w) # r)"
proof (induction al)
  case (Cons p al)
  show ?case
  proof (cases "fst p = k")
    case True
    then show ?thesis using Cons.prems by (intro exI [of _ "[]"] exI [of _ al]) (cases p, simp)
  next
    case False
    then obtain l r where lr: "al = l @ (k, v) # r" "\<forall>w. AList.update k w al = l @ (k, w) # r"
      using Cons by (cases p) auto
    then show ?thesis using False by (intro exI [of _ "p # l"] exI [of _ r]) (cases p, auto)
  qed
qed simp

lemma counted_facts:
  assumes "count_total (ft_frequency_map t) + 1 < 2 ^ 64"
  shows "count_total (counted symbol 1 t) = count_total (ft_frequency_map t) + 1"
    and "positives (ft_frequency_map t) \<le> positives (counted symbol 1 t)"
    and "(\<exists>p \<in> set (counted symbol 1 t). snd p = 0) \<Longrightarrow> \<exists>p \<in> set (ft_frequency_map t). snd p = 0"
    and "length (counted symbol 1 t) \<le> length (ft_frequency_map t) + 1"
proof -
  let ?m = "ft_frequency_map t"
  have "count_total (counted symbol 1 t) = count_total ?m + 1 \<and> positives ?m \<le> positives (counted symbol 1 t) \<and>
    ((\<exists>p \<in> set (counted symbol 1 t). snd p = 0) \<longrightarrow> (\<exists>p \<in> set ?m. snd p = 0)) \<and>
    length (counted symbol 1 t) \<le> length ?m + 1"
  proof (cases "map_of ?m symbol")
    case None
    then have "symbol \<notin> fst ` set ?m" by (simp add: map_of_eq_None_iff)
    from update_new [OF this] None have "counted symbol 1 t = ?m @ [(symbol, 1)]"
      by (simp add: counted_def count_of_def)
    then show ?thesis by (auto simp: count_total_def positives_def)
  next
    case (Some v)
    then obtain l r where lr: "?m = l @ (symbol, v) # r" "\<forall>w. AList.update symbol w ?m = l @ (symbol, w) # r"
      using update_split [OF Some] by auto
    have "unat v + 1 < 2 ^ 64" using assms lr(1) by (simp add: count_total_def)
    then have v: "unat (v + 1) = unat v + 1" by (simp add: unat_plus_one)
    then have "v + 1 \<noteq> 0" by (metis Suc_eq_plus1 nat.distinct(1) unat_0)
    with v Some lr show ?thesis by (auto simp: counted_def count_of_def count_total_def positives_def)
  qed
  then show "count_total (counted symbol 1 t) = count_total ?m + 1"
    "positives ?m \<le> positives (counted symbol 1 t)" "length (counted symbol 1 t) \<le> length ?m + 1"
    "(\<exists>p \<in> set (counted symbol 1 t). snd p = 0) \<Longrightarrow> \<exists>p \<in> set ?m. snd p = 0" by blast+
qed

lemma reinserted_facts:
  assumes "distinct (map fst m)" and "\<forall>p \<in> set m. snd p \<noteq> 0"
  shows "distinct (map fst (AList.update s (count_of s m) m))"
    and "positives (AList.update s (count_of s m) m) = length m"
    and "count_total (AList.update s (count_of s m) m) = count_total m"
    and "length (AList.update s (count_of s m) m) \<le> length m + 1"
proof -
  have p: "positives m = length m" using assms(2) by (simp add: positives_def)
  show "distinct (map fst (AList.update s (count_of s m) m))" using assms(1) by (simp add: distinct_update)
  show "length (AList.update s (count_of s m) m) \<le> length m + 1" by (rule update_length_le)
  show "positives (AList.update s (count_of s m) m) = length m" "count_total (AList.update s (count_of s m) m) = count_total m"
  proof (atomize(full), cases "map_of m s")
    case None
    then have "s \<notin> fst ` set m" by (simp add: map_of_eq_None_iff)
    from update_new [OF this] None have "AList.update s (count_of s m) m = m @ [(s, 0)]"
      by (simp add: count_of_def)
    then show "positives (AList.update s (count_of s m) m) = length m \<and>
        count_total (AList.update s (count_of s m) m) = count_total m"
      using p by (simp add: positives_def count_total_def)
  next
    case (Some v)
    then show "positives (AList.update s (count_of s m) m) = length m \<and>
        count_total (AList.update s (count_of s m) m) = count_total m"
      using p update_same [OF Some] by (simp add: count_of_def)
  qed
qed

lemma update_frequency_table_ok:
  assumes "cxx_ok cx" and "table_ok n t" and "n + 1 < 2 ^ 64"
  shows "table_ok (n + 1) (snd (update_frequency cx symbol 1 t)) \<and>
    ft_symbol_length (snd (update_frequency cx symbol 1 t)) = ft_symbol_length t \<and>
    ft_final_table_size (snd (update_frequency cx symbol 1 t)) = ft_final_table_size t \<and>
    ft_checking_table_size (snd (update_frequency cx symbol 1 t)) = ft_checking_table_size t"
proof -
  have tot: "count_total (ft_frequency_map t) + 1 < 2 ^ 64" using assms(2,3) by (simp add: table_ok_def)
  note c = counted_facts [OF tot, of symbol]
  have d: "distinct (map fst (counted symbol 1 t))" using assms(2) by (simp add: table_ok_def counted_distinct)
  show ?thesis
  proof (cases "unat (ft_checking_table_size t) \<le> length (counted symbol 1 t)")
    case False
    then show ?thesis using assms(2) c d by (auto simp: update_frequency_keep table_ok_def)
  next
    case True
    let ?t1 = "t\<lparr>ft_frequency_map := counted symbol 1 t\<rparr>" let ?m2 = "ft_frequency_map (evict_entries cx ?t1)"
    have fin: "unat (ft_final_table_size ?t1) < length (ft_frequency_map ?t1)" using True assms(2) by (simp add: table_ok_def)
    obtain dropped where e: "mset dropped + mset ?m2 = mset (counted symbol 1 t)"
      "length ?m2 = unat (ft_final_table_size t)" "distinct (map fst ?m2)"
      "\<forall>x \<in> set dropped. \<forall>y \<in> set ?m2. snd x \<le> snd y"
      using evict_split [OF assms(1) _ fin] d by auto
    have "(\<exists>p \<in> set (counted symbol 1 t). snd p = 0) \<longrightarrow> length ?m2 \<le> positives (counted symbol 1 t)"
      using c(2,3) assms(2) e(2) by (auto simp: table_ok_def)
    from kept_positive [OF e(1,4) this] have pos: "\<forall>p \<in> set ?m2. snd p \<noteq> 0" .
    have "count_total ?m2 \<le> count_total (counted symbol 1 t)" unfolding count_total_mset e(1) [symmetric] by simp
    with reinserted_facts [OF e(3) pos, of symbol] c(1) e(2) assms(2) show ?thesis
      by (simp add: update_frequency_evict [OF True] Let_def table_ok_def)
  qed
qed

lemma scale_down_table_ok:
  assumes "table_ok n t"
  shows "table_ok (n div 2) (scale_down 2 t) \<and> ft_symbol_length (scale_down 2 t) = ft_symbol_length t \<and>
    ft_final_table_size (scale_down 2 t) = ft_final_table_size t \<and>
    ft_checking_table_size (scale_down 2 t) = ft_checking_table_size t"
proof -
  let ?m = "ft_frequency_map t" and ?h = "\<lambda>(s, f). (s, f div 2) :: pair"
  define m' where "m' = filter (\<lambda>(s, f). f \<noteq> 0) (map ?h ?m)"
  have e: "scale_down 2 t = t\<lparr>ft_frequency_map := m'\<rparr>" by (simp add: scale_down_def word_le_nat_alt m'_def)
  have "map fst (map ?h ?m) = map fst ?m" by auto
  then have "distinct (map fst (map ?h ?m))" using assms by (simp only: table_ok_def)
  then have d: "distinct (map fst m')" unfolding m'_def by (rule distinct_map_filter)
  have "count_total (filter (\<lambda>(s, f). f \<noteq> 0) (map ?h ps)) \<le> count_total ps div 2" for ps
  proof (induction ps)
    case (Cons p ps)
    have "unat (snd p div 2) + count_total ps div 2 \<le> (unat (snd p) + count_total ps) div 2" by (simp add: unat_div)
    moreover have "count_total ps div 2 \<le> (unat (snd p) + count_total ps) div 2" by (simp add: div_le_mono)
    ultimately show ?case using Cons by (cases p) (auto simp: count_total_def)
  qed (simp add: count_total_def)
  then have "count_total m' \<le> count_total ?m div 2" by (simp only: m'_def)
  also have "\<dots> \<le> n div 2" using assms by (simp add: table_ok_def div_le_mono)
  finally have c: "count_total m' \<le> n div 2" .
  have l: "length m' \<le> length ?m" unfolding m'_def by (metis length_filter_le length_map)
  have "\<forall>p \<in> set m'. snd p \<noteq> 0" by (auto simp: m'_def)
  with assms c d l show ?thesis unfolding e by (auto simp: table_ok_def)
qed

lemma top_frequencies_positive:
  assumes "cxx_ok cx" and "table_ok n t"
  shows "\<forall>p \<in> set (get_top_frequencies cx t). snd p \<noteq> 0"
    and "count_total (get_top_frequencies cx t) \<le> n"
    and "get_top_frequencies cx t = [] \<longleftrightarrow> ft_frequency_map t = [] \<or> ft_final_table_size t = 0"
proof -
  let ?m = "ft_frequency_map t" and ?k = "unat (ft_final_table_size t)"
  let ?s = "cx_sort cx by_count_desc (cx_iter cx ?m)"
  note s = sort_ok(3,4) [OF assms(1), of ?m]
  have len: "length ?s = length ?m" using arg_cong [OF s(1), of size] by simp
  have fp: "get_top_frequencies cx t = take ?k ?s" by (simp add: get_top_frequencies_def Let_def)
  have ms: "mset (drop ?k ?s) + mset (take ?k ?s) = mset ?m"
    using s(1) mset_append [of "take ?k ?s" "drop ?k ?s"] unfolding append_take_drop_id by (metis add.commute)
  have "\<forall>x \<in> set (drop ?k ?s). \<forall>y \<in> set (take ?k ?s). snd x \<le> snd y"
    using s(2) sorted_wrt_append [of "\<lambda>x y. snd x \<ge> snd y" "take ?k ?s" "drop ?k ?s"]
    unfolding append_take_drop_id by metis
  moreover have "(\<exists>p \<in> set ?m. snd p = 0) \<longrightarrow> length (take ?k ?s) \<le> positives ?m"
    using assms(2) by (auto simp: table_ok_def)
  ultimately show "\<forall>p \<in> set (get_top_frequencies cx t). snd p \<noteq> 0" unfolding fp using kept_positive [OF ms] by blast
  have "count_total (take ?k ?s) \<le> count_total ?m" unfolding count_total_mset ms [symmetric] by simp
  then show "count_total (get_top_frequencies cx t) \<le> n" using assms(2) unfolding fp by (simp add: table_ok_def)
  show "get_top_frequencies cx t = [] \<longleftrightarrow> ?m = [] \<or> ft_final_table_size t = 0"
    unfolding fp using len by (auto simp: unat_eq_0)
qed

section \<open>Every how builds a code\<close>

lemma fibo_grows: "8 ^ j * fibo n \<le> fibo (n + 5 * j)"
proof (induction j)
  case (Suc j)
  have step: "8 * fibo m \<le> fibo (m + 5)" for m
    using fibo_mono [of m "Suc m"] by (simp add: eval_nat_numeral)
  have "8 ^ Suc j * fibo n \<le> 8 * fibo (n + 5 * j)" using Suc by simp
  also have "\<dots> \<le> fibo (n + 5 * j + 5)" by (rule step)
  finally show ?case by (simp add: ac_simps)
qed simp

lemma below_2_38:
  assumes "n \<le> 2 ^ 38"
  shows "n < fibo 67" and "n * 2 ^ 65 < 3 ^ 65" and "n \<le> 2 ^ 44"
proof -
  have "fibo 10 = 55" by (simp add: eval_nat_numeral)
  then have "8 ^ 11 * 55 \<le> fibo 65" using fibo_grows [of 11 10] by simp
  moreover have "fibo 65 \<le> fibo 67" by (rule fibo_mono) simp
  ultimately show "n < fibo 67" using assms by simp
  show "n * 2 ^ 65 < 3 ^ 65" "n \<le> 2 ^ 44" using assms by simp_all
qed

lemma fano_keep: "shannon_fano_encode sy a b c cb = Inr cb' \<Longrightarrow>
    hc_freq_table cb' = hc_freq_table cb \<and> hc_mag cb' = hc_mag cb"
proof (induction sy a b c cb arbitrary: cb' rule: shannon_fano_encode.induct)
  case (1 sy a b c cb)
  show ?case
  proof (cases "a = b \<or> a + 1 = b")
    case True
    then show ?thesis using "1.prems"
      by (subst (asm) shannon_fano_encode.simps) (auto simp: store_code_def res_simps split: if_splits)
  next
    case False
    then obtain s cb1 where "split_of sy a b = Inr s" "shannon_fano_encode sy a s (c @ [False]) cb = Inr cb1"
      "shannon_fano_encode sy (s + 1) b (c @ [True]) cb1 = Inr cb'" "a \<le> b \<and> b < length sy"
      using "1.prems" by (subst (asm) shannon_fano_encode.simps) (auto simp: res_simps)
    with "1.IH" False show ?thesis by metis
  qed
qed

lemma generate_codes_keep: "generate_codes cx how cb = Inr (n, cb') \<Longrightarrow>
    hc_freq_table cb' = hc_freq_table cb \<and> hc_mag cb' = hc_mag cb"
  by (cases how)
    (auto simp: generate_huffman_codes_def generate_shannon_fano_codes_def generate_shannon_codes_def
      clear_codes_def tree_codes_keep Let_def res_simps split: if_splits dest!: canonical_keep fano_keep)

lemma generate_codes_ok:
  assumes "cxx_ok cx" and "table_ok n (hc_freq_table cb)" and "n \<le> 2 ^ 38"
  shows "\<exists>k cb'. generate_codes cx how cb = Inr (k, cb') \<and> codebook_ok cb' \<and>
    (k = 0 \<longleftrightarrow> get_top_frequencies cx (hc_freq_table cb) = []) \<and>
    mset (map fst (hc_codes cb')) = mset (map fst (get_top_frequencies cx (hc_freq_table cb)))"
proof (cases "get_top_frequencies cx (hc_freq_table cb) = []")
  case True
  then show ?thesis
    by (cases how) (simp_all add: generate_huffman_codes_def generate_shannon_fano_codes_def
        generate_shannon_codes_def clear_codes_def codebook_ok_def prefix_free_def)
next
  case False
  let ?fp = "get_top_frequencies cx (hc_freq_table cb)"
  note p = top_frequencies_positive(1,2) [OF assms(1,2)]
  have d: "distinct (map fst (ft_frequency_map (hc_freq_table cb)))" using assms(2) by (simp add: table_ok_def)
  have "count_total ?fp \<le> 2 ^ 38" using p(2) assms(3) by simp
  note b = below_2_38 [OF this, unfolded count_total_def]
  have "\<exists>cb'. generate_codes cx how cb = Inr (of_nat (length ?fp), cb') \<and> codebook_ok cb' \<and>
      mset (map fst (hc_codes cb')) = mset (map fst ?fp)"
    using generate_huffman_codes_ok [OF assms(1) d refl False p(1) b(1)]
      generate_shannon_fano_codes_ok [OF assms(1) d refl False p(1) b(2)]
      generate_shannon_codes_ok [OF assms(1) d refl False p(1) b(3)] by (cases how) auto
  moreover have "length ?fp < 2 ^ 64"
    using top_frequencies_distinct(2) [OF assms(1) d] unat_lt [of "ft_final_table_size (hc_freq_table cb)"] by simp
  then have "unat (of_nat (length ?fp) :: u64) = length ?fp" by (simp add: unat_of_nat_lt)
  then have "(of_nat (length ?fp) :: u64) \<noteq> 0" using False by (metis length_0_conv unat_0)
  ultimately show ?thesis using False by blast
qed

section \<open>Sampling a line\<close>

lemma symbol_index_id:
  assumes "i < 64"
  shows "((2 * of_nat i + 1) * 64) div (2 * 64) * 16 = (of_nat (i * 16) :: u64)"
proof -
  have "((2 * of_nat i + 1) * 64 :: u64) = of_nat (128 * i + 64)" by (simp add: algebra_simps)
  moreover have "unat (of_nat (128 * i + 64) :: u64) = 128 * i + 64" using assms by (intro unat_of_nat_lt) simp
  ultimately have "unat ((2 * of_nat i + 1) * 64 div (2 * 64) :: u64) = i" by (simp add: unat_div)
  moreover have "unat (of_nat i :: u64) = i" using assms by (intro unat_of_nat_lt) simp
  ultimately have "((2 * of_nat i + 1) * 64 div (2 * 64) :: u64) = of_nat i" by (simp only: word_unat_eq_iff)
  then show ?thesis by simp
qed

lemma sample_symbols_ok:
  assumes "length data = 128" and "i \<le> 64"
  shows "sample_symbols data 16 64 64 [i..<64] fifo = Inr (fifo @ take (SAMPLING_FIFO_CAPACITY - length fifo)
    (map (\<lambda>i. word_of_bits (take 16 (drop (i * 16) (bits_of data)))) [i..<64]))"
  using assms(2)
proof (induction "64 - i" arbitrary: i fifo)
  case 0
  then show ?case by simp
next
  case (Suc k)
  let ?s = "\<lambda>i. word_of_bits (take 16 (drop (i * 16) (bits_of data)))"
  have i: "i < 64" and u: "[i..<64] = i # [Suc i..<64]" using Suc.hyps(2) by (simp_all add: upt_rec)
  show ?case
  proof (cases "SAMPLING_FIFO_CAPACITY \<le> length fifo")
    case True
    then show ?thesis by (simp add: u)
  next
    case False
    have "extract_symbol data 128 (of_nat (i * 16)) 16 = Inr (?s i, of_nat (i * 16 + 16))"
      using extract_symbol_spec [of 16 "i * 16" data] i assms(1) by simp
    then have "extract_symbol_from_bitstream data MEMORY_REQUEST_SIZE
        ((2 * of_nat i + 1) * 64 div (2 * 64) * 16) 16 = Inr (?s i, of_nat (i * 16 + 16))"
      unfolding symbol_index_id [OF i]
      by (simp add: extract_symbol_from_bitstream_def extract_symbol_def MEMORY_REQUEST_SIZE_def)
    moreover have "sample_symbols data 16 64 64 [Suc i..<64] (fifo @ [?s i]) = Inr ((fifo @ [?s i]) @
        take (SAMPLING_FIFO_CAPACITY - length (fifo @ [?s i])) (map ?s [Suc i..<64]))"
      using Suc.hyps(1) [of "Suc i"] Suc.hyps(2) i by simp
    moreover have "SAMPLING_FIFO_CAPACITY - length fifo = Suc (SAMPLING_FIFO_CAPACITY - length (fifo @ [?s i]))"
      using False by simp
    ultimately show ?thesis using False unfolding u by (simp add: Let_def)
  qed
qed

text \<open>The line of a request lies below the last block of the memory.\<close>

definition line_start :: "cache_config \<Rightarrow> mem_fetch \<Rightarrow> nat" where
  "line_start l2c mf = unat (ucast (block_addr l2c (get_addr mf)) :: u32)"

definition sampleable :: "nat \<Rightarrow> cache_config \<Rightarrow> mem_fetch option \<Rightarrow> bool" where
  "sampleable k l2c mf = (case mf of None \<Rightarrow> True | Some f \<Rightarrow> line_start l2c f + 128 + 2 ^ k \<le> 2 ^ 32)"

definition line_symbols :: "memory_space_impl \<Rightarrow> nat \<Rightarrow> u64 list" where
  "line_symbols mem a = symbols_of 16 (map (byte_at mem) [a..<a + 128])"

lemma line_read:
  assumes "ms_ok k mem" and "unat a + 128 + 2 ^ k \<le> 2 ^ 32"
  shows "mem_read a MEMORY_REQUEST_SIZE mem = Inr (map (byte_at mem) [unat a..<unat a + 128])"
  using mem.fetch_ok [OF assms(1), of 128 "unat a"] assms(2)
  by (simp add: ms_fetch_def below_last_def MEMORY_REQUEST_SIZE_def)

lemma enqueue_ok:
  assumes "ms_ok k mem" and "sampleable k l2c mf"
    and "ft_symbol_length (hc_freq_table (mp_huffman_codebook m)) = HUFFMAN_SYMBOL_LENGTH"
  shows "enqueue_sampled_symbols l2c mem cycle mf m = Inr (if should_sample_request mf
    then m\<lparr>mp_sampling_symbol_fifo := mp_sampling_symbol_fifo m @
      take (SAMPLING_FIFO_CAPACITY - length (mp_sampling_symbol_fifo m)) (line_symbols mem (line_start l2c (the mf)))\<rparr>
    else m)"
proof (cases "should_sample_request mf")
  case True
  then obtain f where f: "mf = Some f" by (auto simp: should_sample_request_def split: option.splits)
  let ?d = "map (byte_at mem) [line_start l2c f..<line_start l2c f + 128]"
  have r: "mem_read (ucast (block_addr l2c (get_addr f))) MEMORY_REQUEST_SIZE mem = Inr ?d"
    using line_read [OF assms(1)] assms(2) f by (simp add: sampleable_def line_start_def)
  have "(MEMORY_REQUEST_SIZE * 8) div 16 = 64" by (simp add: MEMORY_REQUEST_SIZE_def)
  moreover have "(16 :: u64) \<noteq> 0" by simp
  ultimately show ?thesis
    using True f r sample_symbols_ok [of ?d 0 "mp_sampling_symbol_fifo m"]
    by (simp add: enqueue_sampled_symbols_def assms(3) sampling_enabled_def DYNAMIC_UPDATE_FLAG_def Let_def
        HUFFMAN_SYMBOL_LENGTH_def SAMPLING_SYMBOLS_PER_REQUEST_def line_symbols_def symbols_of_def)
qed (simp add: enqueue_sampled_symbols_def)

section \<open>The invariant\<close>

definition sampler_ok :: "nat \<Rightarrow> 'a sampler_scheme \<Rightarrow> bool" where
  "sampler_ok n m \<longleftrightarrow> table_ok n (hc_freq_table (mp_huffman_codebook m)) \<and> codebook_ok (mp_huffman_codebook m) \<and>
    length (hc_codes (mp_huffman_codebook m)) \<le> unat HUFFMAN_TABLE_SIZE \<and>
    ft_symbol_length (hc_freq_table (mp_huffman_codebook m)) = HUFFMAN_SYMBOL_LENGTH \<and>
    ft_final_table_size (hc_freq_table (mp_huffman_codebook m)) = HUFFMAN_TABLE_SIZE \<and>
    ft_checking_table_size (hc_freq_table (mp_huffman_codebook m)) = checking_size \<and>
    hc_mag (mp_huffman_codebook m) = MAG \<and>
    length (mp_sampling_symbol_fifo m) \<le> SAMPLING_FIFO_CAPACITY \<and>
    length (mp_interval_compression_stats m) = length (mp_interval_codebook_snapshots m) \<and>
    (mp_huffman_enabled m \<longrightarrow> mp_interval_compression_stats m \<noteq> [])"

lemma sampler_ok_mono: "sampler_ok n m \<Longrightarrow> n \<le> n' \<Longrightarrow> sampler_ok n' m"
  by (auto simp: sampler_ok_def table_ok_def)

lemma codebook_ok_table: "codebook_ok (cb\<lparr>hc_freq_table := t\<rparr>) = codebook_ok cb"
  by (simp add: codebook_ok_def)

lemma checking_size_value: "checking_size = 307"
  by (simp add: checking_size_def HUFFMAN_TABLE_SIZE_def)

lemma sampler_new_ok: "\<exists>m. sampler_new = Inr m \<and> sampler_ok 0 m"
  by (simp add: sampler_new_def huffman_codebook_new_def frequency_value_table_new_def HUFFMAN_SYMBOL_LENGTH_def
      sampler_ok_def table_ok_def codebook_ok_def prefix_free_def count_total_def checking_size_value
      HUFFMAN_TABLE_SIZE_def MAG_def word_less_nat_alt)

lemma count_symbols_ok:
  assumes "cxx_ok cx" and "sampler_ok n m" and "n + k < 2 ^ 64"
  shows "sampler_ok (n + k) (count_symbols cx k m) \<and>
    mp_sampling_symbol_fifo (count_symbols cx k m) = drop k (mp_sampling_symbol_fifo m) \<and>
    mp_pending_dynamic_codebook_rebuild (count_symbols cx k m) = mp_pending_dynamic_codebook_rebuild m"
  using assms(2,3)
proof (induction k arbitrary: n m)
  case (Suc k)
  show ?case
  proof (cases "mp_sampling_symbol_fifo m")
    case Nil
    then show ?thesis using sampler_ok_mono [OF Suc.prems(1)] by simp
  next
    case (Cons s fifo)
    let ?t = "snd (update_frequency cx s 1 (hc_freq_table (mp_huffman_codebook m)))"
    let ?m = "set_freq_table ?t (m\<lparr>mp_sampling_symbol_fifo := fifo\<rparr>)"
    have "table_ok n (hc_freq_table (mp_huffman_codebook m))" using Suc.prems(1) by (simp add: sampler_ok_def)
    from update_frequency_table_ok [OF assms(1) this, of s] Suc.prems
    have "sampler_ok (n + 1) ?m"
      using Cons by (simp add: sampler_ok_def set_freq_table_def codebook_ok_table)
    from Suc.IH [OF this] Suc.prems(2) Cons show ?thesis by (simp add: set_freq_table_def)
  qed
qed simp

lemma sampling_cycle_ok:
  assumes "cxx_ok cx" and "sampler_ok n m" and "n + 4 < 2 ^ 64"
  shows "sampler_ok (n + 4) (sampling_cycle cx m)"
  using count_symbols_ok [OF assms(1,2), of 4] assms sampler_ok_mono [OF assms(2), of "n + 4"]
  by (simp add: sampling_cycle_def SAMPLING_SYMBOL_UPDATES_PER_CYCLE_def)

lemma start_interval_frame:
  "mp_huffman_codebook (start_new_interval cx cycle b m) = mp_huffman_codebook m"
  "mp_sampling_symbol_fifo (start_new_interval cx cycle b m) = mp_sampling_symbol_fifo m"
  "mp_huffman_enabled (start_new_interval cx cycle b m) = mp_huffman_enabled m"
  "mp_pending_dynamic_codebook_rebuild (start_new_interval cx cycle b m) = mp_pending_dynamic_codebook_rebuild m"
  "mp_interval_compression_stats (start_new_interval cx cycle b m) = mp_interval_compression_stats m @ [compression_stats_new]"
  "length (mp_interval_codebook_snapshots (start_new_interval cx cycle True m)) = Suc (length (mp_interval_codebook_snapshots m))"
  by (simp_all add: start_new_interval_def capture_interval_codebook_snapshot_def Let_def)

text \<open>A rebuild: it succeeds with the codes of the most frequent symbols and ages the counts, or it finds no
  symbol and leaves no code.\<close>

lemma rebuild_ok:
  assumes "cxx_ok cx" and "sampler_ok n m" and "n \<le> 2 ^ 38"
  shows "\<exists>r m' k cb. rebuild_codebook_and_age_samples cx cycle how m = Inr (r, m') \<and> sampler_ok (n div 2) m' \<and>
    generate_codes cx how (mp_huffman_codebook m) = Inr (k, cb) \<and> hc_codes (mp_huffman_codebook m') = hc_codes cb \<and>
    (r \<longleftrightarrow> ft_frequency_map (hc_freq_table (mp_huffman_codebook m)) \<noteq> []) \<and>
    (r \<longrightarrow> mp_interval_compression_stats m' \<noteq> []) \<and>
    hc_freq_table (mp_huffman_codebook m') = scale_down 2 (hc_freq_table (mp_huffman_codebook m)) \<and>
    mp_huffman_enabled m' = mp_huffman_enabled m \<and>
    mp_sampling_symbol_fifo m' = mp_sampling_symbol_fifo m \<and>
    mp_pending_dynamic_codebook_rebuild m' = mp_pending_dynamic_codebook_rebuild m"
proof -
  let ?t = "hc_freq_table (mp_huffman_codebook m)" and ?fp = "get_top_frequencies cx (hc_freq_table (mp_huffman_codebook m))"
  have t: "table_ok n ?t" "ft_final_table_size ?t = HUFFMAN_TABLE_SIZE" using assms(2) by (simp_all add: sampler_ok_def)
  obtain k cb where g: "generate_codes cx how (mp_huffman_codebook m) = Inr (k, cb)" "codebook_ok cb"
    "k = 0 \<longleftrightarrow> ?fp = []" "mset (map fst (hc_codes cb)) = mset (map fst ?fp)"
    using generate_codes_ok [OF assms(1) t(1) assms(3)] by blast
  have keep: "hc_freq_table cb = ?t" "hc_mag cb = hc_mag (mp_huffman_codebook m)" using generate_codes_keep [OF g(1)] by auto
  have d: "distinct (map fst (ft_frequency_map ?t))" using t(1) by (simp add: table_ok_def)
  have len: "length (hc_codes cb) \<le> unat HUFFMAN_TABLE_SIZE"
    using arg_cong [OF g(4), of size] top_frequencies_distinct(2) [OF assms(1) d] t(2) by simp
  have empty: "?fp = [] \<longleftrightarrow> ft_frequency_map ?t = []"
    using top_frequencies_positive(3) [OF assms(1) t(1)] t(2) by (simp add: HUFFMAN_TABLE_SIZE_def)
  show ?thesis
  proof (cases "?fp = []")
    case True
    then have "scale_down 2 ?t = ?t" using empty by (simp add: scale_down_def)
    with scale_down_table_ok [OF t(1)] True empty g keep len assms(2) show ?thesis
      by (auto simp: rebuild_codebook_and_age_samples_def sampler_ok_def Let_def)
  next
    case False
    with empty g keep len assms(2) scale_down_table_ok [OF t(1)] show ?thesis
      by (auto simp: rebuild_codebook_and_age_samples_def sampler_ok_def start_interval_frame Let_def codebook_ok_table)
  qed
qed

lemma complete_ok:
  assumes "cxx_ok cx" and "sampler_ok n m" and "n \<le> 2 ^ 38"
  shows "\<exists>m'. complete_dynamic_codebook_rebuild_if_ready cx cycle m = Inr m' \<and> sampler_ok n m'"
proof -
  let ?p = "mp_pending_dynamic_codebook_rebuild m"
  obtain r m1 where r: "rebuild_codebook_and_age_samples cx cycle (pr_method ?p) m = Inr (r, m1)" "sampler_ok (n div 2) m1"
    using rebuild_ok [OF assms] by blast
  from sampler_ok_mono [OF r(2), of n] r(1) show ?thesis using assms(2)
    by (simp add: complete_dynamic_codebook_rebuild_if_ready_def Let_def) (simp add: sampler_ok_def)
qed

lemma codebook_cycle_ok:
  assumes "cxx_ok cx" and "sampler_ok n m" and "n \<le> 2 ^ 38"
  shows "\<exists>m'. codebook_cycle cx cycle m = Inr m' \<and> sampler_ok (n + 4) m'"
proof -
  let ?m1 = "if DYNAMIC_UPDATE_FLAG = 1 \<and> mp_huffman_enabled m \<and> reached_interval_boundary cycle
    then snd (start_dynamic_codebook_rebuild cycle selected_codebook_build_method m) else m"
  have "sampler_ok n ?m1" using assms(2) by (simp add: start_dynamic_codebook_rebuild_def sampler_ok_def)
  from complete_ok [OF assms(1) this assms(3)] obtain m2
    where m2: "complete_dynamic_codebook_rebuild_if_ready cx cycle ?m1 = Inr m2" "sampler_ok n m2" by blast
  have "sampler_ok (n + 4) (sampling_cycle cx m2)" using sampling_cycle_ok [OF assms(1) m2(2)] assms(3) by simp
  then show ?thesis using m2(1) by (simp add: codebook_cycle_def Let_def)
qed

section \<open>Runs\<close>

text \<open>The uses of these functions in \<open>dram_cycle\<close>: the codebook part of a cycle, the sampling of the request
  that is issued (if any), the first construction of the codebook, and the size statistics.\<close>

definition initial_build :: "cxx_lib \<Rightarrow> u64 \<Rightarrow> 'a sampler_scheme \<Rightarrow> 'a sampler_scheme res" where
  "initial_build cx cycle m =
    (if mp_huffman_enabled m then Inr m
     else andThen (rebuild_codebook_and_age_samples cx cycle selected_codebook_build_method m) (\<lambda>(built, m').
       Inr (if built then m'\<lparr>mp_huffman_enabled := True, mp_cycle_huffman_generated := ucast cycle\<rparr> else m')))"

datatype sampler_event =
    Codebook_Cycle u64
  | Sample u64 "mem_fetch option"
  | Initial_Build u64
  | Record_Size u32

fun sampler_step :: "cxx_lib \<Rightarrow> cache_config \<Rightarrow> memory_space_impl \<Rightarrow> sampler_event \<Rightarrow> 'a sampler_scheme \<Rightarrow>
    'a sampler_scheme res" where
  "sampler_step cx l2c mem (Codebook_Cycle cycle) m = codebook_cycle cx cycle m"
| "sampler_step cx l2c mem (Sample cycle mf) m = enqueue_sampled_symbols l2c mem cycle mf m"
| "sampler_step cx l2c mem (Initial_Build cycle) m = initial_build cx cycle m"
| "sampler_step cx l2c mem (Record_Size bytes) m = Inr (record_dram_request_size bytes m)"

fun event_sampleable :: "nat \<Rightarrow> cache_config \<Rightarrow> sampler_event \<Rightarrow> bool" where
  "event_sampleable k l2c (Sample cycle mf) = sampleable k l2c mf"
| "event_sampleable k l2c e = True"

lemma initial_build_ok:
  assumes "cxx_ok cx" and "sampler_ok n m" and "n \<le> 2 ^ 38"
  shows "\<exists>m'. initial_build cx cycle m = Inr m' \<and> sampler_ok n m'"
proof -
  obtain r m1 where r: "rebuild_codebook_and_age_samples cx cycle selected_codebook_build_method m = Inr (r, m1)"
    "sampler_ok (n div 2) m1" "r \<longrightarrow> mp_interval_compression_stats m1 \<noteq> []"
    using rebuild_ok [OF assms] by blast
  from sampler_ok_mono [OF r(2), of n] r(1,3) show ?thesis using assms(2) by (simp add: initial_build_def) (simp add: sampler_ok_def)
qed

lemma enqueue_sampler_ok:
  assumes "ms_ok k mem" and "sampleable k l2c mf" and "sampler_ok n m"
  shows "\<exists>m'. enqueue_sampled_symbols l2c mem cycle mf m = Inr m' \<and> sampler_ok n m'"
proof -
  have "ft_symbol_length (hc_freq_table (mp_huffman_codebook m)) = HUFFMAN_SYMBOL_LENGTH"
    using assms(3) by (simp add: sampler_ok_def)
  from enqueue_ok [OF assms(1,2) this] assms(3) show ?thesis by (auto simp: sampler_ok_def)
qed

lemma sampler_step_ok:
  assumes "cxx_ok cx" and "ms_ok k mem" and "event_sampleable k l2c e" and "sampler_ok n m" and "n \<le> 2 ^ 38"
  shows "\<exists>m'. sampler_step cx l2c mem e m = Inr m' \<and> sampler_ok (n + 4) m'"
proof (cases e)
  case (Codebook_Cycle c)
  then show ?thesis using codebook_cycle_ok [OF assms(1,4,5)] by simp
next
  case (Sample c mf)
  then show ?thesis using enqueue_sampler_ok [OF assms(2) _ assms(4), of l2c mf c] assms(3) sampler_ok_mono [of n] by fastforce
next
  case (Initial_Build c)
  then show ?thesis using initial_build_ok [OF assms(1,4,5), of c] sampler_ok_mono [of n] by fastforce
next
  case (Record_Size b)
  have "sampler_ok n (record_dram_request_size b m)"
    using assms(4) by (simp add: record_dram_request_size_def sampler_ok_def Let_def)
  with Record_Size show ?thesis using sampler_ok_mono [of n _ "n + 4"] by simp
qed

lemma sampler_run_ok:
  assumes "cxx_ok cx" and "ms_ok k mem"
  shows "\<forall>e \<in> set es. event_sampleable k l2c e \<Longrightarrow> sampler_ok n m \<Longrightarrow> n + 4 * length es \<le> 2 ^ 38 \<Longrightarrow>
    \<exists>m'. foldM (sampler_step cx l2c mem) es m = Inr m' \<and> sampler_ok (n + 4 * length es) m'"
proof (induction es arbitrary: n m)
  case (Cons e es)
  then obtain m1 where "sampler_step cx l2c mem e m = Inr m1" "sampler_ok (n + 4) m1"
    using sampler_step_ok [OF assms, of l2c e n m] by auto
  with Cons.IH [of "n + 4" m1] Cons.prems show ?case by (simp add: ac_simps)
qed simp

section \<open>Properties\<close>

text \<open>C6: Over any run of at most \<open>2 ^ 36\<close> codebook cycles, samples, builds and size records from the initial
  state, in any order and whatever is sampled, provided that every sampled line ends before the last block
  of the global memory (in the last block \<open>memory_space_impl::read\<close> throws), nothing fails: no logarithm of
  a zero count, no shift that is too wide, no read outside the line.  The sampling FIFO never exceeds its
  capacity, the codebook is always a prefix-free code of at most 256 symbols, the table of counts holds at
  most 307 symbols, and a partition that has enabled compression has an interval for its statistics.\<close>

theorem sampling_never_fails:
  fixes es :: "sampler_event list"
  assumes "cxx_ok cx" and "ms_ok k mem" and "sampler_new = Inr m0" and "\<forall>e \<in> set es. event_sampleable k l2c e"
    and "length es \<le> 2 ^ 36"
  shows "\<exists>m. foldM (sampler_step cx l2c mem) es m0 = Inr m \<and>
    length (mp_sampling_symbol_fifo m) \<le> SAMPLING_FIFO_CAPACITY \<and>
    codebook_ok (mp_huffman_codebook m) \<and> length (hc_codes (mp_huffman_codebook m)) \<le> 256 \<and>
    length (ft_frequency_map (hc_freq_table (mp_huffman_codebook m))) \<le> 307 \<and>
    (mp_huffman_enabled m \<longrightarrow> mp_interval_compression_stats m \<noteq> [])"
proof -
  have "sampler_ok 0 m0" using sampler_new_ok assms(3) by (metis sum.inject(2))
  moreover have "0 + 4 * length es \<le> 2 ^ 38" using assms(5) by simp
  ultimately obtain m where "foldM (sampler_step cx l2c mem) es m0 = Inr m" "sampler_ok (4 * length es) m"
    using sampler_run_ok [OF assms(1,2,4)] by fastforce
  then show ?thesis by (auto simp: sampler_ok_def table_ok_def HUFFMAN_TABLE_SIZE_def checking_size_value)
qed

definition test_events :: "sampler_event list" where
  "test_events = [Sample 14999 (Some (test_fetch 0x100 False)), Codebook_Cycle 15000, Initial_Build 15000,
     Codebook_Cycle 20000, Record_Size 64]"

lemma test_line: "line_start small_config (test_fetch 0x100 False) = 256"
  by code_simp

lemma test_memory: "\<exists>mem. memory_space_new 8192 = Inr mem \<and> ms_ok 13 mem"
  using memory_space_new_ok [of 13] by simp

theorem sampling_never_fails_witness:
  "\<exists>mem m0 m. memory_space_new 8192 = Inr mem \<and> sampler_new = Inr m0 \<and>
    foldM (sampler_step plain_lib small_config mem) test_events m0 = Inr m \<and>
    length (mp_sampling_symbol_fifo m) \<le> SAMPLING_FIFO_CAPACITY \<and> codebook_ok (mp_huffman_codebook m)"
proof -
  obtain mem where mem: "memory_space_new 8192 = Inr mem" "ms_ok 13 mem" using test_memory by blast
  obtain m0 where m0: "sampler_new = Inr m0" using sampler_new_ok by blast
  have "\<forall>e \<in> set test_events. event_sampleable 13 small_config e"
    using test_line by (simp add: test_events_def sampleable_def)
  moreover have "length test_events \<le> 2 ^ 36" by (simp add: test_events_def)
  ultimately show ?thesis using sampling_never_fails [OF plain_lib_ok mem(2) m0, of test_events small_config] mem(1) m0
    by auto
qed

text \<open>A sampled read puts the symbols of its line into the FIFO: the 64 big-endian 16-bit words of the 128
  bytes the memory holds at the line of the request, in order, as many as there is room for; other
  requests leave the FIFO alone.\<close>

theorem sample_takes_line_symbols:
  assumes "ms_ok k mem" and "sampler_new = Inr m0" and "unat (ucast (block_addr l2c (get_addr f)) :: u32) = a"
    and "a + 128 + 2 ^ k \<le> 2 ^ 32" and "length fifo \<le> 1024" and "m = m0\<lparr>mp_sampling_symbol_fifo := fifo\<rparr>"
  shows "enqueue_sampled_symbols l2c mem cycle (Some f) m =
    Inr (m\<lparr>mp_sampling_symbol_fifo := fifo @ (if get_access_type f \<in> {GLOBAL_ACC_R, L2_WR_ALLOC_R}
      then take (1024 - length fifo) (map (\<lambda>i. word_of_bits (take 16 (drop (16 * i) (bits_of (map (byte_at mem) [a..<a + 128])))))
        [0..<64]) else [])\<rparr>)"
proof -
  have "sampler_ok 0 m0" using sampler_new_ok assms(2) by (metis sum.inject(2))
  then have l: "ft_symbol_length (hc_freq_table (mp_huffman_codebook m)) = HUFFMAN_SYMBOL_LENGTH"
    using assms(6) by (simp add: sampler_ok_def)
  have "sampleable k l2c (Some f)" using assms(3,4) by (simp add: sampleable_def line_start_def)
  from enqueue_ok [OF assms(1) this l] assms(3,6) show ?thesis
    by (auto simp: should_sample_request_def line_symbols_def symbols_of_def line_start_def SAMPLING_FIFO_CAPACITY_def
        mult.commute)
qed

text \<open>Events that happen while a rebuild is pending and not yet due: cycles before \<open>ready\<close>, samples and size
  records.\<close>

fun before_ready :: "u64 \<Rightarrow> sampler_event \<Rightarrow> bool" where
  "before_ready ready (Codebook_Cycle cycle) = (cycle < ready)"
| "before_ready ready (Initial_Build cycle) = False"
| "before_ready ready e = True"

lemma frozen_step:
  assumes "pr_active (mp_pending_dynamic_codebook_rebuild m)" and "ms_ok k mem" and "event_sampleable k l2c e"
    and "before_ready (pr_ready_cycle (mp_pending_dynamic_codebook_rebuild m)) e" and "sampler_ok n m"
  shows "\<exists>m'. sampler_step cx l2c mem e m = Inr m' \<and> sampler_ok n m' \<and>
    mp_huffman_codebook m' = mp_huffman_codebook m \<and>
    mp_pending_dynamic_codebook_rebuild m' = mp_pending_dynamic_codebook_rebuild m"
proof (cases e)
  case (Codebook_Cycle c)
  then show ?thesis using assms(1,4,5) by (simp add: codebook_cycle_def start_dynamic_codebook_rebuild_def
        complete_dynamic_codebook_rebuild_if_ready_def sampling_cycle_def Let_def)
next
  case (Sample c mf)
  have "ft_symbol_length (hc_freq_table (mp_huffman_codebook m)) = HUFFMAN_SYMBOL_LENGTH"
    using assms(5) by (simp add: sampler_ok_def)
  from enqueue_ok [OF assms(2) _ this, of l2c mf c] enqueue_sampler_ok [OF assms(2) _ assms(5), of l2c mf c] Sample assms(3)
  show ?thesis by (auto split: if_splits)
next
  case (Record_Size b)
  then show ?thesis using assms(5) by (simp add: record_dram_request_size_def sampler_ok_def Let_def)
qed (use assms(4) in simp)

lemma frozen_run:
  assumes "ms_ok k mem"
  shows "pr_active (mp_pending_dynamic_codebook_rebuild m) \<Longrightarrow> \<forall>e \<in> set es. event_sampleable k l2c e \<Longrightarrow>
    \<forall>e \<in> set es. before_ready (pr_ready_cycle (mp_pending_dynamic_codebook_rebuild m)) e \<Longrightarrow> sampler_ok n m \<Longrightarrow>
    \<exists>m'. foldM (sampler_step cx l2c mem) es m = Inr m' \<and> sampler_ok n m' \<and>
      mp_huffman_codebook m' = mp_huffman_codebook m \<and>
      mp_pending_dynamic_codebook_rebuild m' = mp_pending_dynamic_codebook_rebuild m"
proof (induction es arbitrary: m)
  case (Cons e es)
  then obtain m1 where s: "sampler_step cx l2c mem e m = Inr m1" "sampler_ok n m1"
    "mp_huffman_codebook m1 = mp_huffman_codebook m"
    "mp_pending_dynamic_codebook_rebuild m1 = mp_pending_dynamic_codebook_rebuild m"
    using frozen_step [OF Cons.prems(1) assms, of l2c e n cx] by auto
  with Cons.IH [of m1] Cons.prems show ?case by simp
qed simp

text \<open>C7: A rebuild codes the table as it was when the rebuild started.  Whatever is sampled and however many
  cycles pass before the rebuild is due, the counts and the codes stay as they are; the first completion
  at or after the due cycle installs the codes the method gives for those counts, halves the counts and
  ends the rebuild.\<close>

theorem rebuild_codes_frozen_table:
  fixes m :: sampler
  assumes "cxx_ok cx" and "ms_ok k mem" and "sampler_ok n m" and "n \<le> 2 ^ 38"
    and "start_dynamic_codebook_rebuild cycle how m = (True, m1)"
    and "\<forall>e \<in> set es. event_sampleable k l2c e \<and> before_ready (cycle + 534) e" and "cycle + 534 \<le> due"
  shows "\<exists>m2 m3 c cb. foldM (sampler_step cx l2c mem) es m1 = Inr m2 \<and>
    mp_huffman_codebook m2 = mp_huffman_codebook m \<and>
    complete_dynamic_codebook_rebuild_if_ready cx due m2 = Inr m3 \<and>
    generate_codes cx how (mp_huffman_codebook m) = Inr (c, cb) \<and> hc_codes (mp_huffman_codebook m3) = hc_codes cb \<and>
    hc_freq_table (mp_huffman_codebook m3) = scale_down 2 (hc_freq_table (mp_huffman_codebook m)) \<and>
    \<not> pr_active (mp_pending_dynamic_codebook_rebuild m3)"
proof -
  let ?p = "\<lparr>pr_active = True, pr_start_cycle = cycle, pr_ready_cycle = cycle + 534, pr_method = how\<rparr>"
  have m1: "m1 = m\<lparr>mp_pending_dynamic_codebook_rebuild := ?p\<rparr>"
    using assms(5) by (auto simp: start_dynamic_codebook_rebuild_def CODEBOOK_REBUILD_DELAY_def HUFFMAN_TABLE_SIZE_def split: if_splits)
  then have s1: "sampler_ok n m1" using assms(3) by (simp add: sampler_ok_def)
  obtain m2 where m2: "foldM (sampler_step cx l2c mem) es m1 = Inr m2" "sampler_ok n m2"
    "mp_huffman_codebook m2 = mp_huffman_codebook m" "mp_pending_dynamic_codebook_rebuild m2 = ?p"
    using frozen_run [OF assms(2) _ _ _ s1, of es l2c cx] assms(6) m1 by auto
  obtain r m3 c cb where "rebuild_codebook_and_age_samples cx due how m2 = Inr (r, m3)"
    "generate_codes cx how (mp_huffman_codebook m2) = Inr (c, cb)" "hc_codes (mp_huffman_codebook m3) = hc_codes cb"
    "hc_freq_table (mp_huffman_codebook m3) = scale_down 2 (hc_freq_table (mp_huffman_codebook m2))"
    using rebuild_ok [OF assms(1) m2(2) assms(4), of due how] by blast
  then show ?thesis using m2 assms(7)
    by (simp add: complete_dynamic_codebook_rebuild_if_ready_def Let_def not_less [symmetric])
qed

theorem rebuild_codes_frozen_table_witness:
  "\<exists>mem m0 m1 m2 m3. memory_space_new 8192 = Inr mem \<and> sampler_new = Inr m0 \<and>
    start_dynamic_codebook_rebuild 20000 shannon m0 = (True, m1) \<and>
    foldM (sampler_step plain_lib small_config mem)
      [Codebook_Cycle 20000, Sample 20000 (Some (test_fetch 0x100 False)), Codebook_Cycle 20533] m1 = Inr m2 \<and>
    complete_dynamic_codebook_rebuild_if_ready plain_lib 20534 m2 = Inr m3 \<and>
    \<not> pr_active (mp_pending_dynamic_codebook_rebuild m3)"
proof -
  obtain mem where mem: "memory_space_new 8192 = Inr mem" "ms_ok 13 mem" using test_memory by blast
  obtain m0 where m0: "sampler_new = Inr m0" "sampler_ok 0 m0" using sampler_new_ok by blast
  then have "\<not> pr_active (mp_pending_dynamic_codebook_rebuild m0)"
    by (auto simp: sampler_new_def res_simps)
  then obtain m1 where m1: "start_dynamic_codebook_rebuild 20000 shannon m0 = (True, m1)"
    by (simp add: start_dynamic_codebook_rebuild_def)
  have "\<forall>e \<in> set [Codebook_Cycle 20000, Sample 20000 (Some (test_fetch 0x100 False)), Codebook_Cycle 20533].
      event_sampleable 13 small_config e \<and> before_ready (20000 + 534) e"
    using test_line by (simp add: sampleable_def word_less_nat_alt)
  from rebuild_codes_frozen_table [OF plain_lib_ok mem(2) m0(2) _ m1 this, of 20534] mem(1) m0(1) m1 show ?thesis
    by (auto simp: word_le_nat_alt)
qed

section \<open>An idle partition\<close>

fun rebuilds :: "cxx_lib \<Rightarrow> (u64 \<times> codebook_build_method) list \<Rightarrow> 'a sampler_scheme \<Rightarrow> 'a sampler_scheme res" where
  "rebuilds cx [] m = Inr m"
| "rebuilds cx ((cycle, how) # rs) m =
    andThen (rebuild_codebook_and_age_samples cx cycle how m) (\<lambda>(done, m'). rebuilds cx rs m')"

lemma zero_total_empty:
  assumes "sampler_ok 0 m"
  shows "ft_frequency_map (hc_freq_table (mp_huffman_codebook m)) = []"
proof (rule ccontr)
  let ?m = "ft_frequency_map (hc_freq_table (mp_huffman_codebook m))"
  assume "?m \<noteq> []"
  then obtain p where p: "p \<in> set ?m" by (cases ?m) auto
  have z: "\<forall>p \<in> set ?m. snd p = 0"
    using assms by (auto simp: sampler_ok_def table_ok_def count_total_def sum_list_eq_0_iff unat_eq_0)
  then have "positives ?m = 0" by (simp add: positives_def filter_empty_conv)
  moreover have "\<exists>p \<in> set ?m. snd p = 0" using p z by blast
  then have "256 \<le> positives ?m" using assms by (auto simp: sampler_ok_def table_ok_def HUFFMAN_TABLE_SIZE_def)
  ultimately show False by simp
qed

lemma rebuilds_clear:
  assumes "cxx_ok cx"
  shows "sampler_ok n m \<Longrightarrow> n \<le> 2 ^ 38 \<Longrightarrow> n < 2 ^ j \<Longrightarrow> length rs = Suc j \<Longrightarrow>
    \<exists>m'. rebuilds cx rs m = Inr m' \<and> hc_codes (mp_huffman_codebook m') = [] \<and>
      hc_mag (mp_huffman_codebook m') = MAG"
proof (induction j arbitrary: n m rs)
  case 0
  then obtain c how where rs: "rs = [(c, how)]" by (cases rs) auto
  have e: "ft_frequency_map (hc_freq_table (mp_huffman_codebook m)) = []" using zero_total_empty 0 by simp
  obtain r m' k cb where r: "rebuild_codebook_and_age_samples cx c how m = Inr (r, m')"
    "generate_codes cx how (mp_huffman_codebook m) = Inr (k, cb)" "hc_codes (mp_huffman_codebook m') = hc_codes cb"
    "sampler_ok (n div 2) m'"
    using rebuild_ok [OF assms "0.prems"(1,2)] by blast
  have t: "table_ok n (hc_freq_table (mp_huffman_codebook m))" using "0.prems"(1) by (simp add: sampler_ok_def)
  from top_frequencies_positive(3) [OF assms t] e have "get_top_frequencies cx (hc_freq_table (mp_huffman_codebook m)) = []"
    by simp
  moreover obtain k' cb' where "generate_codes cx how (mp_huffman_codebook m) = Inr (k', cb')"
    "mset (map fst (hc_codes cb')) = mset (map fst (get_top_frequencies cx (hc_freq_table (mp_huffman_codebook m))))"
    using generate_codes_ok [OF assms t "0.prems"(2)] by blast
  ultimately have "hc_codes cb = []" using r(2) by simp
  with rs r show ?case by (simp add: sampler_ok_def)
next
  case (Suc j)
  then obtain c how rs' where rs: "rs = (c, how) # rs'" "length rs' = Suc j" by (cases rs) auto
  obtain r m1 where r: "rebuild_codebook_and_age_samples cx c how m = Inr (r, m1)" "sampler_ok (n div 2) m1"
    using rebuild_ok [OF assms Suc.prems(1,2)] by blast
  have "n div 2 \<le> 2 ^ 38" "n div 2 < 2 ^ j" using Suc.prems(2,3) by (auto intro: le_trans [OF div_le_dividend])
  from Suc.IH [OF r(2) this rs(2)] r(1) rs(1) show ?case by simp
qed

text \<open>C14: An idle partition loses its codebook.  A rebuild that finds no counts reports failure, but the
  generator has already cleared the codes; without new samples the counts halve with every rebuild, so
  after \<open>j + 1\<close> rebuilds, if fewer than \<open>2 ^ j\<close> symbols were counted, no symbol has a code and every line
  is charged its full size.\<close>

theorem idle_partition_loses_codebook:
  fixes m :: sampler
  assumes "cxx_ok cx" and "sampler_ok n m" and "n \<le> 2 ^ 38" and "n < 2 ^ j" and "length rs = Suc j"
  shows "\<exists>m'. rebuilds cx rs m = Inr m' \<and> hc_codes (mp_huffman_codebook m') = [] \<and>
    (\<forall>data. compress_data_block (mp_huffman_codebook m') (Some data) 128 =
      Inr \<lparr>co_raw_compressed_size_bits = 1024, co_raw_compression_ratio = 1, co_mag_compressed_size_bytes = 128,
           co_burst_size = 4, co_effective_compression_ratio = 1\<rparr>)"
proof -
  obtain m' where m': "rebuilds cx rs m = Inr m'" "hc_codes (mp_huffman_codebook m') = []"
    "hc_mag (mp_huffman_codebook m') = MAG" using rebuilds_clear [OF assms] by blast
  then show ?thesis by (simp add: compress_data_block_def hc_size_def Let_def MAG_def compress_outcome_new_def)
qed

theorem idle_partition_loses_codebook_witness:
  "\<exists>m0 m. sampler_new = Inr m0 \<and> rebuilds plain_lib [(20000, shannon), (25000, huffman)] m0 = Inr m \<and>
    hc_codes (mp_huffman_codebook m) = []"
proof -
  obtain m0 where m0: "sampler_new = Inr m0" "sampler_ok 0 m0" using sampler_new_ok by blast
  from idle_partition_loses_codebook [OF plain_lib_ok sampler_ok_mono [OF m0(2)], of 1 1 "[(20000, shannon), (25000, huffman)]"]
    m0(1) show ?thesis by auto
qed

end
