(* ===== verification/Simt_Stack.thy ===== *)
theory Simt_Stack
  imports Prelude "HOL-Library.AList"
begin

text \<open>
  \<open>simt_stack\<close> of \<open>src/src/abstract_hardware_model.{h,cc}\<close>: the stack with which a warp of threads that
  run in lock step follows divergent branches.  An entry holds a program counter, the mask of the threads
  it runs and the reconvergence point at which it ends.  \<open>m_stack\<close> is a list with the top (\<open>back()\<close>) first.
  A mask is a word of 32 bits (\<open>std::bitset<32>\<close>; a test out of its range throws), program counters are
  32-bit, \<open>(address_type)-1\<close> is \<open>null_pc\<close>.  The map of divergent paths is an association list whose
  \<open>begin()\<close> is the entry with the least key.  The call that counts divergences in the statistics is left
  out, and so are printing and the checkpoint files.

  The loop that groups the threads by their next program counter gets fuel for 33 rounds; each round but
  the last removes a thread of the 32.

  Shown: \<open>update\<close> keeps the stack well formed, and after it every thread that is still running is run
  next, by the topmost entry that contains it, at its own next program counter: no thread is lost or
  sent astray by divergence, reconvergence, calls and returns.
\<close>

section \<open>Model\<close>

type_synonym simt_mask = "32 word"

datatype stack_entry_type = STACK_ENTRY_TYPE_NORMAL | STACK_ENTRY_TYPE_CALL

datatype op_type =
    NO_OP | ALU_OP | SFU_OP | TENSOR_CORE_OP | DP_OP | SP_OP | INTP_OP | ALU_SFU_OP | LOAD_OP
  | TENSOR_CORE_LOAD_OP | TENSOR_CORE_STORE_OP | STORE_OP | BRANCH_OP | BARRIER_OP | MEMORY_BARRIER_OP
  | CALL_OPS | RET_OPS | EXIT_OPS | SPECIALIZED_UNIT_1_OP | SPECIALIZED_UNIT_2_OP | SPECIALIZED_UNIT_3_OP
  | SPECIALIZED_UNIT_4_OP | SPECIALIZED_UNIT_5_OP | SPECIALIZED_UNIT_6_OP | SPECIALIZED_UNIT_7_OP
  | SPECIALIZED_UNIT_8_OP

record simt_stack_entry =
  se_pc :: u32
  se_calldepth :: u32
  se_active_mask :: simt_mask
  se_recvg_pc :: u32
  se_branch_div_cycle :: u64
  se_type :: stack_entry_type

record simt_stack =
  ss_warp_id :: u32
  ss_warp_size :: u32
  ss_stack :: "simt_stack_entry list"

definition null_pc :: u32 where "null_pc = - 1"

definition simt_stack_entry_new :: simt_stack_entry where
  "simt_stack_entry_new = \<lparr>se_pc = null_pc, se_calldepth = 0, se_active_mask = 0, se_recvg_pc = null_pc,
     se_branch_div_cycle = 0, se_type = STACK_ENTRY_TYPE_NORMAL\<rparr>"

definition simt_stack_new :: "u32 \<Rightarrow> u32 \<Rightarrow> simt_stack" where
  "simt_stack_new wid warpSize = \<lparr>ss_warp_id = wid, ss_warp_size = warpSize, ss_stack = []\<rparr>"

definition simt_reset :: "simt_stack \<Rightarrow> simt_stack" where
  "simt_reset s = s\<lparr>ss_stack := []\<rparr>"

definition launch :: "u32 \<Rightarrow> simt_mask \<Rightarrow> simt_stack \<Rightarrow> simt_stack" where
  "launch start_pc active_mask s = (simt_reset s)\<lparr>ss_stack := [simt_stack_entry_new
     \<lparr>se_pc := start_pc, se_calldepth := 1, se_active_mask := active_mask, se_type := STACK_ENTRY_TYPE_NORMAL\<rparr>]\<rparr>"

definition get_active_mask :: "simt_stack \<Rightarrow> simt_mask res" where
  "get_active_mask s = check (ss_stack s \<noteq> []) (Inr (se_active_mask (hd (ss_stack s))))"

definition get_pdom_stack_top_info :: "simt_stack \<Rightarrow> (u32 \<times> u32) res" where
  "get_pdom_stack_top_info s = check (ss_stack s \<noteq> []) (Inr (se_pc (hd (ss_stack s)), se_recvg_pc (hd (ss_stack s))))"

definition get_rp :: "simt_stack \<Rightarrow> u32 res" where
  "get_rp s = check (ss_stack s \<noteq> []) (Inr (se_recvg_pc (hd (ss_stack s))))"

text \<open>One thread of the scan for the threads with the same next program counter.\<close>

fun group_thread :: "simt_mask \<Rightarrow> u32 list \<Rightarrow> nat \<Rightarrow> simt_mask \<times> u32 \<times> simt_mask \<Rightarrow> simt_mask \<times> u32 \<times> simt_mask" where
  "group_thread thread_done next_pc i (top_active_mask, tmp_next_pc, tmp_active_mask) =
    (if bit top_active_mask i
     then if bit thread_done i then (unset_bit i top_active_mask, tmp_next_pc, tmp_active_mask)
       else if tmp_next_pc = null_pc then (unset_bit i top_active_mask, next_pc ! i, set_bit i tmp_active_mask)
       else if tmp_next_pc = next_pc ! i then (unset_bit i top_active_mask, tmp_next_pc, set_bit i tmp_active_mask)
       else (top_active_mask, tmp_next_pc, tmp_active_mask)
     else (top_active_mask, tmp_next_pc, tmp_active_mask))"

definition extract_group :: "simt_mask \<Rightarrow> u32 list \<Rightarrow> nat \<Rightarrow> simt_mask \<Rightarrow> simt_mask \<times> u32 \<times> simt_mask" where
  "extract_group thread_done next_pc warp_size top_active_mask =
    fold (group_thread thread_done next_pc) (rev [0..<warp_size]) (top_active_mask, null_pc, 0)"

type_synonym paths = "(u32 \<times> simt_mask) list"

fun find_paths :: "nat \<Rightarrow> simt_mask \<Rightarrow> u32 list \<Rightarrow> nat \<Rightarrow> simt_mask \<Rightarrow> paths \<Rightarrow> nat \<Rightarrow> (paths \<times> nat) res" where
  "find_paths fuel thread_done next_pc warp_size top_active_mask divergent_paths num_divergent_paths =
    (if top_active_mask = 0 then Inr (divergent_paths, num_divergent_paths)
     else case fuel of 0 \<Rightarrow> Inl Undefined
     | Suc fuel' \<Rightarrow>
        (case extract_group thread_done next_pc warp_size top_active_mask of (rest, tmp_next_pc, tmp_active_mask) \<Rightarrow>
          if tmp_next_pc = null_pc
          then check (rest = 0) (find_paths fuel' thread_done next_pc warp_size rest divergent_paths num_divergent_paths)
          else find_paths fuel' thread_done next_pc warp_size rest
                 (AList.update tmp_next_pc tmp_active_mask divergent_paths) (num_divergent_paths + 1)))"

declare find_paths.simps [simp del]

definition first_path :: "paths \<Rightarrow> u32 \<times> simt_mask" where
  "first_path ps = hd (sort_key fst ps)"

text \<open>The path the \<open>i\<close>-th round of the second loop takes: the fall-through path, if there is one, else the
  one with the least program counter.\<close>

definition take_path :: "nat \<Rightarrow> u32 \<Rightarrow> paths \<Rightarrow> (u32 \<times> simt_mask \<times> paths) res" where
  "take_path i not_taken_pc ps =
    (case map_of ps not_taken_pc of
       Some m \<Rightarrow> check (i = 0) (Inr (not_taken_pc, m, AList.delete not_taken_pc ps))
     | None \<Rightarrow> defined (ps \<noteq> []) (Inr (fst (first_path ps), snd (first_path ps), AList.delete (fst (first_path ps)) ps)))"

text \<open>\<open>RET_OPS\<close> with a call entry on top.\<close>

definition return_from_call :: "u32 \<Rightarrow> simt_stack_entry list \<Rightarrow> simt_stack_entry list res" where
  "return_from_call tmp_next_pc st =
    (case tl st of [] \<Rightarrow> Inl Assertion
     | e # es \<Rightarrow>
        Inr (if tmp_next_pc = se_recvg_pc e \<and> se_type e \<noteq> STACK_ENTRY_TYPE_CALL then es
             else e\<lparr>se_pc := tmp_next_pc\<rparr> # es))"

text \<open>The top turns into the reconvergence entry of a divergent branch.\<close>

definition diverge :: "u64 \<Rightarrow> u32 \<Rightarrow> u32 \<Rightarrow> simt_stack_entry list \<Rightarrow> simt_stack_entry list" where
  "diverge cycle new_recvg_pc top_recvg_pc st =
    (if new_recvg_pc \<noteq> top_recvg_pc
     then simt_stack_entry_new # (hd st)\<lparr>se_pc := new_recvg_pc, se_branch_div_cycle := cycle\<rparr> # tl st else st)"

definition set_top :: "bool \<Rightarrow> u32 \<Rightarrow> u32 \<Rightarrow> simt_mask \<Rightarrow> u32 \<Rightarrow> simt_stack_entry \<Rightarrow> simt_stack_entry" where
  "set_top warp_diverged pc top_recvg_pc m new_recvg_pc e =
    (if warp_diverged then e\<lparr>se_pc := pc, se_active_mask := m, se_calldepth := 0, se_recvg_pc := new_recvg_pc\<rparr>
     else e\<lparr>se_pc := pc, se_active_mask := m, se_recvg_pc := top_recvg_pc\<rparr>)"

record branch =
  br_cycle :: u64
  br_op :: op_type
  br_recvg_pc :: u32
  br_not_taken_pc :: u32
  br_top_recvg_pc :: u32
  br_top_type :: stack_entry_type
  br_num_paths :: nat

text \<open>The second loop; the flag of the result tells that a call or a return ended \<open>update\<close>.\<close>

fun path_loop :: "branch \<Rightarrow> nat list \<Rightarrow> paths \<Rightarrow> bool \<Rightarrow> u32 \<Rightarrow> simt_stack_entry list \<Rightarrow>
    (bool \<times> simt_stack_entry list) res" where
  "path_loop b [] ps warp_diverged new_recvg_pc st = Inr (False, st)"
| "path_loop b (i # rounds) ps warp_diverged new_recvg_pc st =
    andThen (take_path i (br_not_taken_pc b) ps) (\<lambda>(pc, m, ps').
      if br_op b = CALL_OPS then
        check (br_num_paths b = 1)
          (Inr (True, simt_stack_entry_new\<lparr>se_pc := pc, se_active_mask := m, se_branch_div_cycle := br_cycle b,
                  se_type := STACK_ENTRY_TYPE_CALL\<rparr> # st))
      else if br_op b = RET_OPS \<and> br_top_type b = STACK_ENTRY_TYPE_CALL then
        check (br_num_paths b = 1) (andThen (return_from_call pc st) (\<lambda>st'. Inr (True, st')))
      else if pc = br_top_recvg_pc b \<and> br_top_type b \<noteq> STACK_ENTRY_TYPE_CALL then
        path_loop b rounds ps' warp_diverged new_recvg_pc st
      else
        (let divg = br_num_paths b > 1 \<and> \<not> warp_diverged;
             warp_diverged' = (if divg then True else warp_diverged);
             new_recvg_pc' = (if divg then br_recvg_pc b else new_recvg_pc);
             st' = (if divg then diverge (br_cycle b) (br_recvg_pc b) (br_top_recvg_pc b) st else st)
         in if warp_diverged' \<and> pc = new_recvg_pc' then path_loop b rounds ps' warp_diverged' new_recvg_pc' st'
            else path_loop b rounds ps' warp_diverged' new_recvg_pc'
              (simt_stack_entry_new # set_top warp_diverged' pc (br_top_recvg_pc b) m new_recvg_pc' (hd st') # tl st')))"

definition simt_update :: "simt_mask \<Rightarrow> u32 list \<Rightarrow> u32 \<Rightarrow> op_type \<Rightarrow> u32 \<Rightarrow> u32 \<Rightarrow> u64 \<Rightarrow> simt_stack \<Rightarrow> simt_stack res" where
  "simt_update thread_done next_pc recvg_pc next_inst_op next_inst_size next_inst_pc cycle s =
    check (ss_stack s \<noteq> [])
      (check (length next_pc = unat (ss_warp_size s))
        (let e = hd (ss_stack s) in
         check (se_pc e = next_inst_pc)
          (check (se_active_mask e \<noteq> 0)
            (if unat (ss_warp_size s) > 32 then Inl Thrown
             else andThen (find_paths 33 thread_done next_pc (unat (ss_warp_size s)) (se_active_mask e) [] 0) (\<lambda>(ps, n).
               let b = \<lparr>br_cycle = cycle, br_op = next_inst_op, br_recvg_pc = recvg_pc,
                        br_not_taken_pc = next_inst_pc + next_inst_size, br_top_recvg_pc = se_recvg_pc e,
                        br_top_type = se_type e, br_num_paths = n\<rparr>
               in check (n \<le> 2)
                 (andThen (path_loop b [0..<n] ps False null_pc (ss_stack s)) (\<lambda>(returned, st).
                   if returned then Inr (s\<lparr>ss_stack := st\<rparr>)
                   else check (st \<noteq> []) (Inr (s\<lparr>ss_stack := tl st\<rparr>)))))))))"

section \<open>Grouping the threads\<close>

definition mask_set :: "simt_mask \<Rightarrow> nat set" where
  "mask_set m = {t. bit m t}"

lemma mask_set_lt: "t \<in> mask_set m \<Longrightarrow> t < 32"
  using bit_imp_le_length [of m t] by (auto simp: mask_set_def)

lemma mask_set_empty: "mask_set m = {} \<longleftrightarrow> m = 0"
  using bit_imp_le_length [of m] by (auto simp: mask_set_def bit_eq_iff)

lemma mask_set_zero [simp]: "mask_set 0 = {}"
  by (simp add: mask_set_def)

lemma finite_mask_set [simp]: "finite (mask_set m)"
  by (rule finite_subset [of _ "{..<32}"]) (use mask_set_lt in auto)

text \<open>The threads of a mask that still run, and those among them with a given next program counter.\<close>

definition running :: "simt_mask \<Rightarrow> simt_mask \<Rightarrow> nat set" where
  "running thread_done m = {t \<in> mask_set m. \<not> bit thread_done t}"

definition going_to :: "simt_mask \<Rightarrow> u32 list \<Rightarrow> simt_mask \<Rightarrow> u32 \<Rightarrow> nat set" where
  "going_to thread_done next_pc m pc = {t \<in> running thread_done m. next_pc ! t = pc}"

definition targets :: "simt_mask \<Rightarrow> u32 list \<Rightarrow> simt_mask \<Rightarrow> u32 set" where
  "targets thread_done next_pc m = (\<lambda>t. next_pc ! t) ` running thread_done m"

lemma group_threads:
  assumes "\<forall>i \<in> set is'. i < 32 \<and> (bit m i \<and> \<not> bit dn i \<longrightarrow> np ! i \<noteq> null_pc)" and "distinct is'"
    and "fold (group_thread dn np) is' (m, pc, g) = (m', pc', g')"
  shows "pc' = (if pc \<noteq> null_pc then pc else case filter (\<lambda>i. bit m i \<and> \<not> bit dn i) is' of [] \<Rightarrow> null_pc | i # _ \<Rightarrow> np ! i) \<and>
    (\<forall>t. bit m' t \<longleftrightarrow> bit m t \<and> \<not> (t \<in> set is' \<and> (bit dn t \<or> np ! t = pc'))) \<and>
    (\<forall>t. bit g' t \<longleftrightarrow> bit g t \<or> t \<in> set is' \<and> bit m t \<and> \<not> bit dn t \<and> np ! t = pc')"
  using assms
proof (induction is' arbitrary: m pc g)
  case (Cons i is')
  obtain m1 pc1 g1 where s: "group_thread dn np i (m, pc, g) = (m1, pc1, g1)" by (metis prod_cases3)
  have i: "i < 32" "bit m i \<and> \<not> bit dn i \<longrightarrow> np ! i \<noteq> null_pc" "i \<notin> set is'" using Cons.prems(1,2) by auto
  have m1: "bit m1 t \<longleftrightarrow> bit m t" "bit g1 t \<longleftrightarrow> bit g t" if "t \<noteq> i" for t
    using s that by (auto simp: bit_simps split: if_splits)
  have "\<forall>j \<in> set is'. j < 32 \<and> (bit m1 j \<and> \<not> bit dn j \<longrightarrow> np ! j \<noteq> null_pc)"
    using Cons.prems(1) m1(1) i(3) by (metis list.set_intros(2))
  moreover have "fold (group_thread dn np) is' (m1, pc1, g1) = (m', pc', g')" using Cons.prems(3) s by simp
  ultimately have IH: "pc' = (if pc1 \<noteq> null_pc then pc1 else case filter (\<lambda>i. bit m1 i \<and> \<not> bit dn i) is' of [] \<Rightarrow> null_pc | i # _ \<Rightarrow> np ! i)"
    "\<forall>t. bit m' t \<longleftrightarrow> bit m1 t \<and> \<not> (t \<in> set is' \<and> (bit dn t \<or> np ! t = pc'))"
    "\<forall>t. bit g' t \<longleftrightarrow> bit g1 t \<or> t \<in> set is' \<and> bit m1 t \<and> \<not> bit dn t \<and> np ! t = pc'"
    using Cons.IH Cons.prems(2) by auto
  have f: "filter (\<lambda>i. bit m1 i \<and> \<not> bit dn i) is' = filter (\<lambda>i. bit m i \<and> \<not> bit dn i) is'"
    using m1(1) i(3) by (intro filter_cong refl) metis
  have pc: "pc' = (if pc \<noteq> null_pc then pc else case filter (\<lambda>i. bit m i \<and> \<not> bit dn i) (i # is') of [] \<Rightarrow> null_pc | i # _ \<Rightarrow> np ! i)"
    using IH(1) s i(2) unfolding f by (auto split: if_splits)
  have live: "pc1 = (if bit m i \<and> \<not> bit dn i \<and> pc = null_pc then np ! i else pc)" using s by (auto split: if_splits)
  have p1: "pc' = pc1" if "bit m i \<and> \<not> bit dn i" using IH(1) live i(2) that by auto
  have mi: "bit m1 i \<longleftrightarrow> bit m i \<and> \<not> (bit dn i \<or> np ! i = pc')" "bit g1 i \<longleftrightarrow> bit g i \<or> bit m i \<and> \<not> bit dn i \<and> np ! i = pc'"
    using s p1 live i(1) by (auto simp: bit_simps split: if_splits)
  have "bit m' t \<longleftrightarrow> bit m t \<and> \<not> (t \<in> set (i # is') \<and> (bit dn t \<or> np ! t = pc'))" for t
    using IH(2) m1(1) mi(1) i(3) by (cases "t = i") auto
  moreover have "bit g' t \<longleftrightarrow> bit g t \<or> t \<in> set (i # is') \<and> bit m t \<and> \<not> bit dn t \<and> np ! t = pc'" for t
    using IH(3) m1 mi(2) i(3) by (cases "t = i") auto
  ultimately show ?case using pc by blast
qed auto

lemma extract_group_ok:
  assumes "mask_set m \<subseteq> {..<ws}" and "ws \<le> 32" and "\<forall>t \<in> running dn m. np ! t \<noteq> null_pc"
    and "extract_group dn np ws m = (m', pc, g)"
  shows "(pc = null_pc \<longleftrightarrow> running dn m = {}) \<and> (pc \<noteq> null_pc \<longrightarrow> pc \<in> targets dn np m) \<and>
    mask_set m' = running dn m - going_to dn np m pc \<and> mask_set g = going_to dn np m pc"
proof -
  let ?l = "rev [0..<ws]" let ?f = "filter (\<lambda>i. bit m i \<and> \<not> bit dn i) ?l"
  have "\<forall>i \<in> set ?l. i < 32 \<and> (bit m i \<and> \<not> bit dn i \<longrightarrow> np ! i \<noteq> null_pc)"
    using assms(2,3) by (auto simp: running_def mask_set_def)
  from group_threads [OF this _ assms(4) [unfolded extract_group_def]]
  have r: "pc = (case ?f of [] \<Rightarrow> null_pc | i # _ \<Rightarrow> np ! i)"
    "\<forall>t. bit m' t \<longleftrightarrow> bit m t \<and> \<not> (t \<in> set ?l \<and> (bit dn t \<or> np ! t = pc))"
    "\<forall>t. bit g t \<longleftrightarrow> t \<in> set ?l \<and> bit m t \<and> \<not> bit dn t \<and> np ! t = pc"
    by auto
  have f: "set ?f = running dn m" using assms(1) by (auto simp: running_def mask_set_def)
  have "pc = null_pc \<longleftrightarrow> running dn m = {}" "pc \<noteq> null_pc \<longrightarrow> pc \<in> targets dn np m"
    using r(1) f assms(3) unfolding targets_def by (cases ?f; force)+
  moreover have "mask_set m' = running dn m - going_to dn np m pc" "mask_set g = going_to dn np m pc"
    using r(2,3) assms(1) by (auto simp: running_def going_to_def mask_set_def)
  ultimately show ?thesis by blast
qed

lemma after_extraction:
  assumes "mask_set m' = running dn m - going_to dn np m pc" and "pc \<in> targets dn np m"
  shows "mask_set m' \<subset> mask_set m" and "running dn m' = running dn m - going_to dn np m pc"
    and "targets dn np m' = targets dn np m - {pc}" and "q \<noteq> pc \<Longrightarrow> going_to dn np m' q = going_to dn np m q"
proof -
  obtain t where t: "t \<in> going_to dn np m pc" using assms(2) by (auto simp: targets_def going_to_def)
  then have "t \<in> mask_set m" "t \<notin> mask_set m'" using assms(1) by (auto simp: going_to_def running_def)
  moreover have "mask_set m' \<subseteq> mask_set m" using assms(1) by (auto simp: running_def)
  ultimately show "mask_set m' \<subset> mask_set m" by blast
  show run: "running dn m' = running dn m - going_to dn np m pc"
  proof -
    have "running dn m' = {t \<in> mask_set m'. \<not> bit dn t}" by (simp only: running_def)
    also have "\<dots> = mask_set m'" unfolding assms(1) by (auto simp: running_def)
    finally show ?thesis using assms(1) by simp
  qed
  show "targets dn np m' = targets dn np m - {pc}"
    unfolding targets_def run by (auto simp: going_to_def)
  show "q \<noteq> pc \<Longrightarrow> going_to dn np m' q = going_to dn np m q"
    by (auto simp: going_to_def run)
qed

lemma find_paths_step:
  assumes "m \<noteq> 0" and "extract_group dn np ws m = (m', pc, g)" and "pc \<noteq> null_pc" and "pc \<notin> fst ` set ps"
  shows "find_paths (Suc fuel) dn np ws m ps n = find_paths fuel dn np ws m' (ps @ [(pc, g)]) (n + 1)"
proof -
  have "AList.update pc g ps = ps @ [(pc, g)]" using assms(4) by (induction ps) auto
  then show ?thesis using assms(1-3) by (subst find_paths.simps) simp
qed

lemma find_paths_ok:
  assumes "ws \<le> 32"
  shows "mask_set m \<subseteq> {..<ws} \<Longrightarrow> \<forall>t \<in> running dn m. np ! t \<noteq> null_pc \<Longrightarrow> card (mask_set m) < fuel \<Longrightarrow>
    targets dn np m \<inter> fst ` set ps = {} \<Longrightarrow>
    \<exists>qs. find_paths fuel dn np ws m ps n = Inr (ps @ qs, n + card (targets dn np m)) \<and>
      set (map fst qs) = targets dn np m \<and> distinct (map fst qs) \<and>
      (\<forall>(pc, g) \<in> set qs. mask_set g = going_to dn np m pc)"
proof (induction fuel arbitrary: m ps n)
  case (Suc fuel)
  show ?case
  proof (cases "m = 0")
    case True
    then show ?thesis by (subst find_paths.simps) (simp add: targets_def running_def)
  next
    case False
    obtain m' pc g where e: "extract_group dn np ws m = (m', pc, g)" by (metis prod_cases3)
    note x = extract_group_ok [OF Suc.prems(1) assms Suc.prems(2) e]
    show ?thesis
    proof (cases "pc = null_pc")
      case True
      with x have r: "running dn m = {}" by blast
      have "mask_set m' = {}" using x r by blast
      then have z: "m' = 0" by (simp only: mask_set_empty)
      have "find_paths fuel dn np ws 0 ps n = Inr (ps, n)" by (subst find_paths.simps) simp
      with z r False True e have "find_paths (Suc fuel) dn np ws m ps n = Inr (ps, n)"
        by (subst find_paths.simps) simp
      with r show ?thesis by (simp add: targets_def)
    next
      case np: False
      have pt: "pc \<in> targets dn np m" using x np by blast
      then have new: "pc \<notin> fst ` set ps" using Suc.prems(4) by blast
      have mm: "mask_set m' = running dn m - going_to dn np m pc" using x by blast
      note a = after_extraction [OF mm pt]
      note tg = a(3) and gt = a(4)
      have fin: "finite (targets dn np m)" by (simp add: targets_def running_def)
      have card: "n + 1 + card (targets dn np m - {pc}) = n + card (targets dn np m)"
        using card_Suc_Diff1 [OF fin pt] by simp
      have "card (mask_set m') < fuel" using psubset_card_mono [OF _ a(1)] Suc.prems(3) by simp
      note IH = Suc.IH [OF _ _ this]
      have "targets dn np m' \<inter> fst ` set (ps @ [(pc, g)]) = {}" using Suc.prems(4) unfolding tg by auto
      note IH = IH [OF _ _ this]
      have "mask_set m' \<subseteq> {..<ws}" using a(1) Suc.prems(1) by blast
      note IH = IH [OF this]
      have "\<forall>t \<in> running dn m'. np ! t \<noteq> null_pc" using a(2) Suc.prems(2) by blast
      note IH = IH [OF this, of "n + 1"]
      obtain qs where q: "find_paths fuel dn np ws m' (ps @ [(pc, g)]) (n + 1) =
          Inr ((ps @ [(pc, g)]) @ qs, n + 1 + card (targets dn np m'))"
        "set (map fst qs) = targets dn np m'" "distinct (map fst qs)" "\<forall>(pc, g) \<in> set qs. mask_set g = going_to dn np m' pc"
        using IH by (elim exE conjE)
      have "find_paths (Suc fuel) dn np ws m ps n = Inr (ps @ ((pc, g) # qs), n + card (targets dn np m))"
        using find_paths_step [OF False e np new] q(1) card unfolding tg by simp
      moreover have "\<forall>(q, h) \<in> set ((pc, g) # qs). mask_set h = going_to dn np m q"
      proof -
        have "mask_set h = going_to dn np m q" if "(q, h) \<in> set qs" for q h
        proof -
          have "q \<in> targets dn np m'" using that q(2) by (metis image_eqI list.set_map fst_conv)
          then have "q \<noteq> pc" using tg by blast
          moreover have "mask_set h = going_to dn np m' q" using q(4) that by blast
          ultimately show ?thesis using gt by simp
        qed
        moreover have "mask_set g = going_to dn np m pc" using x by blast
        ultimately show ?thesis by auto
      qed
      moreover have "set (map fst ((pc, g) # qs)) = targets dn np m" "distinct (map fst ((pc, g) # qs))"
        using q(2,3) tg pt by auto
      ultimately show ?thesis by blast
    qed
  qed
qed simp

section \<open>Well-formed stacks\<close>

text \<open>Where a thread goes on: at the program counter of the topmost entry that contains it.\<close>

definition thread_pc :: "simt_stack_entry list \<Rightarrow> nat \<Rightarrow> u32 option" where
  "thread_pc es t = map_option se_pc (find (\<lambda>e. bit (se_active_mask e) t) es)"

text \<open>An entry runs a thread.  The threads of a normal entry go on at its reconvergence point once it is
  popped; a call entry has no such point and its threads belong to the caller's entry, right below.\<close>

definition entry_ok :: "simt_stack_entry \<Rightarrow> simt_stack_entry list \<Rightarrow> bool" where
  "entry_ok e es \<longleftrightarrow> se_active_mask e \<noteq> 0 \<and>
    (case se_type e of
       STACK_ENTRY_TYPE_CALL \<Rightarrow> se_recvg_pc e = null_pc \<and> es \<noteq> [] \<and>
         mask_set (se_active_mask e) \<subseteq> mask_set (se_active_mask (hd es))
     | STACK_ENTRY_TYPE_NORMAL \<Rightarrow> se_recvg_pc e \<noteq> null_pc \<longrightarrow>
         (\<forall>t \<in> mask_set (se_active_mask e). thread_pc es t = Some (se_recvg_pc e)))"

fun stack_ok :: "simt_stack_entry list \<Rightarrow> bool" where
  "stack_ok [] = True"
| "stack_ok (e # es) = (entry_ok e es \<and> stack_ok es)"

lemma thread_pc_Cons:
  "thread_pc (e # es) t = (if t \<in> mask_set (se_active_mask e) then Some (se_pc e) else thread_pc es t)"
  by (simp add: thread_pc_def mask_set_def)

lemma thread_pc_cong:
  "(t \<in> mask_set (se_active_mask e) \<longleftrightarrow> t \<in> mask_set (se_active_mask f)) \<Longrightarrow> se_pc e = se_pc f \<Longrightarrow>
    thread_pc (e # es) t = thread_pc (f # es) t"
  by (simp add: thread_pc_Cons)

lemma entry_ok_shrink:
  assumes "entry_ok e es" and "mask_set (se_active_mask f) \<subseteq> mask_set (se_active_mask e)" and "se_active_mask f \<noteq> 0"
    and "se_recvg_pc f = se_recvg_pc e" and "se_type f = se_type e"
  shows "entry_ok f es"
  using assms by (auto simp: entry_ok_def split: stack_entry_type.splits)

lemma entry_ok_branch:
  assumes "mask_set (se_active_mask f) \<noteq> {}" and "se_type f = STACK_ENTRY_TYPE_NORMAL"
    and "\<And>t. t \<in> mask_set (se_active_mask f) \<Longrightarrow> se_recvg_pc f \<noteq> null_pc \<Longrightarrow> thread_pc es t = Some (se_recvg_pc f)"
  shows "entry_ok f es"
  using assms by (auto simp: entry_ok_def)

lemma launch_ok: "m \<noteq> 0 \<Longrightarrow> stack_ok (ss_stack (launch pc m s))"
  by (simp add: launch_def entry_ok_def simt_stack_entry_new_def)

section \<open>The paths\<close>

lemma take_only_path: "take_path i ntp [(a, ga)] = (if a = ntp then check (i = 0) (Inr (a, ga, [])) else Inr (a, ga, []))"
  by (auto simp: take_path_def first_path_def)

lemma take_one_of_two:
  assumes "a \<noteq> b"
  obtains "take_path 0 ntp [(a, ga), (b, gb)] = Inr (a, ga, [(b, gb)])" and "b \<noteq> ntp"
  | "take_path 0 ntp [(a, ga), (b, gb)] = Inr (b, gb, [(a, ga)])" and "a \<noteq> ntp"
proof (cases "b = ntp")
  case True
  then show ?thesis using assms that(2) by (auto simp: take_path_def)
next
  case False
  then show ?thesis using assms that by (cases "a = ntp"; cases "a \<le> b") (auto simp: take_path_def first_path_def)
qed

section \<open>Every thread goes on where it should\<close>

text \<open>What \<open>update\<close> has to achieve on a stack with top \<open>e\<close>: every thread of the top that still runs
  goes on at its next program counter, and the other threads go on where they would have.\<close>

definition resumed :: "simt_mask \<Rightarrow> u32 list \<Rightarrow> simt_stack_entry \<Rightarrow> simt_stack_entry list \<Rightarrow> simt_stack_entry list \<Rightarrow> bool" where
  "resumed thread_done next_pc e es st \<longleftrightarrow>
    (\<forall>t \<in> running thread_done (se_active_mask e). thread_pc st t = Some (next_pc ! t)) \<and>
    (\<forall>t. t \<notin> mask_set (se_active_mask e) \<longrightarrow> thread_pc st t = thread_pc (e # es) t)"

text \<open>A stack entry made for the threads going to \<open>p\<close>, with reconvergence point \<open>r\<close>.\<close>

definition path_entry :: "simt_mask \<Rightarrow> u32 list \<Rightarrow> simt_mask \<Rightarrow> u32 \<Rightarrow> u32 \<Rightarrow> simt_stack_entry \<Rightarrow> bool" where
  "path_entry thread_done next_pc m r p f \<longleftrightarrow> se_pc f = p \<and> se_recvg_pc f = r \<and>
    mask_set (se_active_mask f) = going_to thread_done next_pc m p"

lemma going_to_sub: "going_to dn np m p \<subseteq> mask_set m"
  by (auto simp: going_to_def running_def)

lemma going_to_nonempty: "p \<in> targets dn np m \<Longrightarrow> going_to dn np m p \<noteq> {}"
  by (auto simp: targets_def going_to_def)

lemma live_targets: "\<forall>t \<in> running dn m. np ! t \<noteq> null_pc \<Longrightarrow> p \<in> targets dn np m \<Longrightarrow> p \<noteq> null_pc"
  by (auto simp: targets_def)

lemma path_entry_mask: "path_entry dn np m r p f \<Longrightarrow> p \<in> targets dn np m \<Longrightarrow> se_active_mask f \<noteq> 0"
  using going_to_nonempty [of p dn np m] by (auto simp: path_entry_def simp flip: mask_set_empty)

text \<open>One path left, in place of the top.\<close>

lemma replace_top_ok:
  assumes ok: "stack_ok (e # es)" and f: "path_entry dn np (se_active_mask e) (se_recvg_pc e) p f" "se_type f = se_type e"
    and p: "p \<in> targets dn np (se_active_mask e)"
    and rest: "\<And>t. t \<in> running dn (se_active_mask e) \<Longrightarrow> np ! t = p \<or> se_type e \<noteq> STACK_ENTRY_TYPE_CALL \<and> np ! t = se_recvg_pc e"
    and live: "\<forall>t \<in> running dn (se_active_mask e). np ! t \<noteq> null_pc"
  shows "stack_ok (f # es) \<and> resumed dn np e es (f # es)"
proof -
  have m: "mask_set (se_active_mask f) = going_to dn np (se_active_mask e) p" using f(1) by (simp add: path_entry_def)
  have "entry_ok e es" using ok by simp
  then have "entry_ok f es"
    by (rule entry_ok_shrink) (use f m going_to_sub path_entry_mask [OF f(1) p] in \<open>simp_all add: path_entry_def\<close>)
  moreover have "thread_pc (f # es) t = Some (np ! t)" if t: "t \<in> running dn (se_active_mask e)" for t
  proof (cases "np ! t = p")
    case True
    then show ?thesis using t f(1) m by (simp add: thread_pc_Cons going_to_def path_entry_def)
  next
    case False
    then have r: "se_type e \<noteq> STACK_ENTRY_TYPE_CALL" "np ! t = se_recvg_pc e" using rest [OF t] by auto
    have "thread_pc es t = Some (se_recvg_pc e)"
      using ok r t live by (auto simp: entry_ok_def running_def split: stack_entry_type.splits)
    then show ?thesis using False r(2) m by (simp add: thread_pc_Cons going_to_def)
  qed
  moreover have "t \<notin> mask_set (se_active_mask f)" if "t \<notin> mask_set (se_active_mask e)" for t
    using that m going_to_sub by blast
  ultimately show ?thesis using ok by (simp add: resumed_def thread_pc_Cons)
qed

text \<open>A path on top of a stack that already resumes the threads of the other path and lets those of this
  path reconverge.\<close>

lemma push_path_ok:
  assumes ok: "stack_ok st" and f: "path_entry dn np m r p f" "se_type f = STACK_ENTRY_TYPE_NORMAL"
    and p: "p \<in> targets dn np m"
    and st: "\<And>t. t \<in> going_to dn np m p \<Longrightarrow> r \<noteq> null_pc \<Longrightarrow> thread_pc st t = Some r"
    and others: "\<And>t. t \<in> running dn m \<Longrightarrow> np ! t \<noteq> p \<Longrightarrow> thread_pc st t = Some (np ! t)"
  shows "stack_ok (f # st) \<and> (\<forall>t \<in> running dn m. thread_pc (f # st) t = Some (np ! t)) \<and>
    (\<forall>t. t \<notin> mask_set m \<longrightarrow> thread_pc (f # st) t = thread_pc st t)"
proof -
  have m: "mask_set (se_active_mask f) = going_to dn np m p" and fp: "se_pc f = p" "se_recvg_pc f = r"
    using f(1) by (auto simp: path_entry_def)
  have "entry_ok f st" using going_to_nonempty [OF p] f(2) st m fp by (intro entry_ok_branch) auto
  moreover have "thread_pc (f # st) t = Some (np ! t)" if "t \<in> running dn m" for t
    using that others [OF that] m fp(1) by (simp add: thread_pc_Cons going_to_def)
  moreover have "t \<notin> mask_set (se_active_mask f)" if "t \<notin> mask_set m" for t using that m going_to_sub by blast
  ultimately show ?thesis using ok by (simp add: thread_pc_Cons)
qed

text \<open>The stack that the second loop builds for two paths: first with a reconvergence entry of its own, then
  with the reconvergence point of the old top.\<close>

definition two_way :: "branch \<Rightarrow> u32 \<Rightarrow> u32 \<Rightarrow> bool" where
  "two_way br a b \<longleftrightarrow> br_num_paths br = 2 \<and> br_op br \<noteq> CALL_OPS \<and> \<not> (br_op br = RET_OPS \<and> br_top_type br = STACK_ENTRY_TYPE_CALL) \<and>
    a \<noteq> b \<and> b \<noteq> br_not_taken_pc br"

definition branch_entry :: "u32 \<Rightarrow> u32 \<Rightarrow> simt_mask \<Rightarrow> simt_stack_entry \<Rightarrow> simt_stack_entry" where
  "branch_entry r p g e = e\<lparr>se_pc := p, se_active_mask := g, se_calldepth := 0, se_recvg_pc := r\<rparr>"

lemma upt_two: "[0..<2] = [0, 1::nat]"
  by (simp add: upt_rec)

lemma two_paths_reconverge_below:
  assumes "two_way br a b" and "take_path 0 (br_not_taken_pc br) ps = Inr (a, ga, [(b, gb)])"
    and "br_recvg_pc br \<noteq> br_top_recvg_pc br"
    and "br_top_type br = STACK_ENTRY_TYPE_CALL \<or> a \<noteq> br_top_recvg_pc br \<and> b \<noteq> br_top_recvg_pc br"
  shows "path_loop br [0..<2] ps False null_pc (e # es) = Inr (False, simt_stack_entry_new #
    (if b = br_recvg_pc br then [] else [branch_entry (br_recvg_pc br) b gb simt_stack_entry_new]) @
    (if a = br_recvg_pc br then [] else [branch_entry (br_recvg_pc br) a ga simt_stack_entry_new]) @
    e\<lparr>se_pc := br_recvg_pc br, se_branch_div_cycle := br_cycle br\<rparr> # es)"
  using assms unfolding upt_two
  by (auto simp: two_way_def take_only_path diverge_def set_top_def branch_entry_def Let_def)

lemma two_paths_same_point:
  assumes "two_way br a b" and "take_path 0 (br_not_taken_pc br) ps = Inr (a, ga, [(b, gb)])"
    and "br_recvg_pc br = br_top_recvg_pc br"
    and "br_top_type br = STACK_ENTRY_TYPE_CALL \<longrightarrow> a \<noteq> br_top_recvg_pc br \<and> b \<noteq> br_top_recvg_pc br"
  shows "path_loop br [0..<2] ps False null_pc (e # es) = Inr (False, simt_stack_entry_new #
    (if a = br_recvg_pc br then [branch_entry (br_recvg_pc br) b gb e]
     else if b = br_recvg_pc br then [branch_entry (br_recvg_pc br) a ga e]
     else [branch_entry (br_recvg_pc br) b gb simt_stack_entry_new, branch_entry (br_recvg_pc br) a ga e]) @ es)"
  using assms unfolding upt_two
  by (auto simp: two_way_def take_only_path diverge_def set_top_def branch_entry_def Let_def)

lemma branch_entry_path:
  "mask_set g = going_to dn np m p \<Longrightarrow> path_entry dn np m r p (branch_entry r p g e)"
  by (simp add: path_entry_def branch_entry_def)

lemma branch_entry_type: "se_type (branch_entry r p g e) = se_type e"
  by (simp add: branch_entry_def)

lemma branch_entry_fields:
  "se_pc (branch_entry r p g e) = p" "se_active_mask (branch_entry r p g e) = g" "se_recvg_pc (branch_entry r p g e) = r"
  by (simp_all add: branch_entry_def)

lemma reconverge_below_ok:
  assumes ok: "stack_ok (e # es)" and t: "targets dn np (se_active_mask e) = {a, b}" and ab: "a \<noteq> b"
    and g: "mask_set ga = going_to dn np (se_active_mask e) a" "mask_set gb = going_to dn np (se_active_mask e) b"
  shows "let st = (if b = r then [] else [branch_entry r b gb simt_stack_entry_new]) @
    (if a = r then [] else [branch_entry r a ga simt_stack_entry_new]) @ e\<lparr>se_pc := r, se_branch_div_cycle := c\<rparr> # es
    in stack_ok st \<and> resumed dn np e es st"
proof -
  let ?R = "e\<lparr>se_pc := r, se_branch_div_cycle := c\<rparr>" let ?m = "se_active_mask e"
  let ?A = "branch_entry r a ga simt_stack_entry_new" let ?B = "branch_entry r b gb simt_stack_entry_new"
  have R: "stack_ok (?R # es)" using ok by (simp add: entry_ok_def cong: stack_entry_type.case_cong)
  have in_R: "thread_pc (?R # es) t = Some r" if "t \<in> mask_set ?m" for t using that by (simp add: thread_pc_Cons)
  have out_R: "thread_pc (?R # es) t = thread_pc (e # es) t" if "t \<notin> mask_set ?m" for t using that by (simp add: thread_pc_Cons)
  have N: "se_type simt_stack_entry_new = STACK_ENTRY_TYPE_NORMAL" by (simp add: simt_stack_entry_new_def)
  have two: "np ! t = a \<or> np ! t = b" if "t \<in> running dn ?m" for t using t that by (auto simp: targets_def)
  have run: "t \<in> mask_set ?m" if "t \<in> running dn ?m" for t using that by (simp add: running_def)
  have sub: "t \<in> mask_set ?m" if "t \<in> going_to dn np ?m p" for t p using that going_to_sub by blast
  have on_R: "stack_ok (f # ?R # es) \<and> resumed dn np e es (f # ?R # es)"
    if f: "path_entry dn np ?m r p f" "se_type f = STACK_ENTRY_TYPE_NORMAL" "p \<in> {a, b}" "{a, b} \<subseteq> {p, r}" for f p
  proof -
    have "np ! t = r" if "t \<in> running dn ?m" "np ! t \<noteq> p" for t using two [OF that(1)] that(2) f(4) by auto
    then have "stack_ok (f # ?R # es) \<and> (\<forall>t \<in> running dn ?m. thread_pc (f # ?R # es) t = Some (np ! t)) \<and>
      (\<forall>t. t \<notin> mask_set ?m \<longrightarrow> thread_pc (f # ?R # es) t = thread_pc (?R # es) t)"
      using f(3) t in_R [OF run] in_R [OF sub] by (intro push_path_ok [OF R f(1,2)]) simp_all
    then show ?thesis using out_R by (simp add: resumed_def)
  qed
  note A = branch_entry_path [OF g(1), of r simt_stack_entry_new] and B = branch_entry_path [OF g(2), of r simt_stack_entry_new]
  consider "a = r" | "b = r" | "a \<noteq> r" "b \<noteq> r" by blast
  then show ?thesis
  proof cases
    case 1
    then show ?thesis using ab on_R [OF B] by (simp add: branch_entry_type N)
  next
    case 2
    then show ?thesis using ab on_R [OF A] by (simp add: branch_entry_type N)
  next
    case 3
    have disj: "t \<notin> mask_set ga" if "np ! t \<noteq> a" for t using that g(1) by (simp add: going_to_def)
    have okA: "stack_ok (?A # ?R # es)"
      using going_to_nonempty [of a dn np ?m] t g(1) R by (simp add: branch_entry_fields branch_entry_type N)
        (intro entry_ok_branch; simp add: branch_entry_fields branch_entry_type N in_R sub)
    have "stack_ok (?B # ?A # ?R # es) \<and> (\<forall>t \<in> running dn ?m. thread_pc (?B # ?A # ?R # es) t = Some (np ! t)) \<and>
      (\<forall>t. t \<notin> mask_set ?m \<longrightarrow> thread_pc (?B # ?A # ?R # es) t = thread_pc (?A # ?R # es) t)"
    proof (rule push_path_ok [OF okA B])
      show "thread_pc (?A # ?R # es) t = Some r" if "t \<in> going_to dn np ?m b" for t
      proof -
        have "t \<notin> mask_set ga" using that ab by (intro disj) (simp add: going_to_def)
        then show ?thesis using in_R [OF sub [OF that]] by (simp add: thread_pc_Cons [of ?A] branch_entry_fields)
      qed
      show "thread_pc (?A # ?R # es) t = Some (np ! t)" if "t \<in> running dn ?m" "np ! t \<noteq> b" for t
        using two [OF that(1)] that g(1) by (simp add: thread_pc_Cons [of ?A] branch_entry_fields going_to_def)
    qed (simp_all add: branch_entry_type N t)
    moreover have "thread_pc (?A # ?R # es) t = thread_pc (e # es) t" if "t \<notin> mask_set ?m" for t
      using that out_R [OF that] g(1) sub by (auto simp: thread_pc_Cons [of ?A] branch_entry_fields)
    ultimately show ?thesis using 3 by (simp add: resumed_def)
  qed
qed

lemma same_point_ok:
  assumes ok: "stack_ok (e # es)" and t: "targets dn np (se_active_mask e) = {a, b}" and ab: "a \<noteq> b"
    and g: "mask_set ga = going_to dn np (se_active_mask e) a" "mask_set gb = going_to dn np (se_active_mask e) b"
    and live: "\<forall>t \<in> running dn (se_active_mask e). np ! t \<noteq> null_pc" and r: "r = se_recvg_pc e"
    and c: "se_type e = STACK_ENTRY_TYPE_CALL \<longrightarrow> a \<noteq> r \<and> b \<noteq> r"
  shows "let st = (if a = r then [branch_entry r b gb e] else if b = r then [branch_entry r a ga e]
       else [branch_entry r b gb simt_stack_entry_new, branch_entry r a ga e]) @ es
    in stack_ok st \<and> resumed dn np e es st"
proof -
  let ?m = "se_active_mask e" let ?A = "branch_entry r a ga e" let ?B = "branch_entry r b gb simt_stack_entry_new"
  have two: "np ! t = a \<or> np ! t = b" if "t \<in> running dn ?m" for t using t that by (auto simp: targets_def)
  have N: "se_type simt_stack_entry_new = STACK_ENTRY_TYPE_NORMAL" by (simp add: simt_stack_entry_new_def)
  have in_e: "t \<in> mask_set ?m" if "t \<in> going_to dn np ?m p" for t p using that going_to_sub by blast
  have alone: "stack_ok (branch_entry r p g e # es) \<and> resumed dn np e es (branch_entry r p g e # es)"
    if p: "{p, q} = {a, b}" "q = r" "mask_set g = going_to dn np ?m p" for p q g
  proof (rule replace_top_ok [OF ok])
    show "path_entry dn np ?m (se_recvg_pc e) p (branch_entry r p g e)" using branch_entry_path [OF p(3)] r by simp
    show "np ! t = p \<or> se_type e \<noteq> STACK_ENTRY_TYPE_CALL \<and> np ! t = se_recvg_pc e" if "t \<in> running dn ?m" for t
      using two [OF that] p(1,2) c r by auto
  qed (use p(1) t live in \<open>auto simp: branch_entry_type\<close>)
  consider "a = r" | "a \<noteq> r" "b = r" | "a \<noteq> r" "b \<noteq> r" by blast
  then show ?thesis
  proof cases
    case 1
    then show ?thesis using alone [of b a gb] g(2) by auto
  next
    case 2
    then show ?thesis using alone [of a b ga] g(1) by auto
  next
    case 3
    have A: "entry_ok ?A es"
      by (rule entry_ok_shrink [of e]) (use ok g(1) in_e going_to_nonempty [of a dn np ?m] t r in
        \<open>auto simp: branch_entry_fields branch_entry_type\<close>)
    have below: "thread_pc (?A # es) t = Some r" if t': "t \<in> going_to dn np ?m b" "r \<noteq> null_pc" for t
    proof -
      have "t \<notin> mask_set ga" using t'(1) g(1) ab by (auto simp: going_to_def)
      moreover have "thread_pc es t = Some r" using ok in_e [OF t'(1)] t'(2) r
        by (auto simp: entry_ok_def split: stack_entry_type.splits)
      ultimately show ?thesis by (simp add: thread_pc_Cons branch_entry_fields)
    qed
    have "stack_ok (?B # ?A # es) \<and> (\<forall>t \<in> running dn ?m. thread_pc (?B # ?A # es) t = Some (np ! t)) \<and>
      (\<forall>t. t \<notin> mask_set ?m \<longrightarrow> thread_pc (?B # ?A # es) t = thread_pc (?A # es) t)"
    proof (rule push_path_ok [OF _ branch_entry_path [OF g(2)] _ _ below])
      show "thread_pc (?A # es) t = Some (np ! t)" if "t \<in> running dn ?m" "np ! t \<noteq> b" for t
        using two [OF that(1)] that g(1) by (simp add: thread_pc_Cons branch_entry_fields going_to_def)
    qed (use A ok t in \<open>simp_all add: branch_entry_type N\<close>)
    moreover have "thread_pc (?A # es) t = thread_pc (e # es) t" if "t \<notin> mask_set ?m" for t
      using that g(1) in_e by (auto simp: thread_pc_Cons branch_entry_fields)
    ultimately show ?thesis using 3 by (simp add: resumed_def)
  qed
qed

section \<open>The update\<close>

text \<open>What the instruction just executed may ask of \<open>update\<close>: at most two next program counters, one
  only for a call and for the return from a call, and the reconvergence point is the immediate
  post-dominator of the branch: as the point of the top post-dominates the branch as well, a path can
  only reach that one first when the two are the same.\<close>

definition branch_legal :: "simt_mask \<Rightarrow> u32 list \<Rightarrow> u32 \<Rightarrow> op_type \<Rightarrow> simt_stack_entry \<Rightarrow> bool" where
  "branch_legal thread_done next_pc recvg_pc op e \<longleftrightarrow>
    card (targets thread_done next_pc (se_active_mask e)) \<le>
      (if op = CALL_OPS \<or> op = RET_OPS \<and> se_type e = STACK_ENTRY_TYPE_CALL then 1 else 2) \<and>
    (card (targets thread_done next_pc (se_active_mask e)) = 2 \<and> se_type e = STACK_ENTRY_TYPE_NORMAL \<and>
      recvg_pc \<noteq> se_recvg_pc e \<longrightarrow> se_recvg_pc e \<notin> targets thread_done next_pc (se_active_mask e))"

definition masks_in :: "nat \<Rightarrow> simt_stack_entry list \<Rightarrow> bool" where
  "masks_in ws st \<longleftrightarrow> (\<forall>f \<in> set st. mask_set (se_active_mask f) \<subseteq> {..<ws})"

lemma masks_in_iff: "masks_in ws st \<longleftrightarrow> (\<forall>t. thread_pc st t \<noteq> None \<longrightarrow> t < ws)"
  by (induction st) (auto simp: masks_in_def thread_pc_def mask_set_def)

lemma resumed_masks_in: "resumed dn np e es st \<Longrightarrow> masks_in ws (e # es) \<Longrightarrow> masks_in ws st"
  unfolding masks_in_iff resumed_def by (metis option.distinct(1) thread_pc_Cons)

lemma call_entry_recvg: "stack_ok (e # es) \<Longrightarrow> se_type e = STACK_ENTRY_TYPE_CALL \<Longrightarrow> se_recvg_pc e = null_pc"
  by (simp add: entry_ok_def)

lemma call_ok:
  assumes "stack_ok (e # es)" and "mask_set g = going_to dn np (se_active_mask e) p" and "p \<in> targets dn np (se_active_mask e)"
    and "targets dn np (se_active_mask e) \<subseteq> {p}"
  shows "let st = simt_stack_entry_new\<lparr>se_pc := p, se_active_mask := g, se_branch_div_cycle := c,
      se_type := STACK_ENTRY_TYPE_CALL\<rparr> # e # es in stack_ok st \<and> resumed dn np e es st"
proof -
  let ?f = "simt_stack_entry_new\<lparr>se_pc := p, se_active_mask := g, se_branch_div_cycle := c, se_type := STACK_ENTRY_TYPE_CALL\<rparr>"
  have "g \<noteq> 0" using assms(2) going_to_nonempty [OF assms(3)] by (auto simp flip: mask_set_empty)
  moreover have "np ! t = p" if "t \<in> running dn (se_active_mask e)" for t using that assms(4) by (auto simp: targets_def)
  moreover have sub: "mask_set g \<subseteq> mask_set (se_active_mask e)" using assms(2) going_to_sub by simp
  moreover have "t \<in> mask_set g" if "t \<in> running dn (se_active_mask e)" "np ! t = p" for t
    using that assms(2) by (simp add: going_to_def)
  moreover have "t \<notin> mask_set g" if "t \<notin> mask_set (se_active_mask e)" for t using that sub by blast
  ultimately have "entry_ok ?f (e # es)" "\<forall>t \<in> running dn (se_active_mask e). thread_pc (?f # e # es) t = Some (np ! t)"
    "\<forall>t. t \<notin> mask_set (se_active_mask e) \<longrightarrow> thread_pc (?f # e # es) t = thread_pc (e # es) t"
    unfolding thread_pc_Cons [of ?f] by (simp_all add: entry_ok_def simt_stack_entry_new_def)
  then show ?thesis using assms(1) by (simp add: resumed_def)
qed

lemma return_ok:
  assumes ok: "stack_ok (e # es)" and "se_type e = STACK_ENTRY_TYPE_CALL" and "p \<noteq> null_pc"
    and one: "\<And>t. t \<in> running dn (se_active_mask e) \<Longrightarrow> np ! t = p" and w: "masks_in ws (e # es)"
  shows "\<exists>st. return_from_call p (e # es) = Inr st \<and> stack_ok st \<and> masks_in ws st \<and>
    (\<forall>t \<in> running dn (se_active_mask e). thread_pc st t = Some (np ! t))"
proof -
  obtain f fs where es: "es = f # fs" and sub: "mask_set (se_active_mask e) \<subseteq> mask_set (se_active_mask f)"
    using assms(1,2) by (cases es) (auto simp: entry_ok_def)
  have run: "t \<in> mask_set (se_active_mask f)" if "t \<in> running dn (se_active_mask e)" for t
    using that sub by (auto simp: running_def)
  show ?thesis
  proof (cases "p = se_recvg_pc f \<and> se_type f \<noteq> STACK_ENTRY_TYPE_CALL")
    case True
    then have "\<forall>t \<in> mask_set (se_active_mask f). thread_pc fs t = Some p"
      using ok es assms(3) by (auto simp: entry_ok_def split: stack_entry_type.splits)
    then have "\<forall>t \<in> running dn (se_active_mask e). thread_pc fs t = Some (np ! t)" using one run by simp
    moreover have "return_from_call p (e # es) = Inr fs" using True es by (simp add: return_from_call_def)
    ultimately show ?thesis using ok es w by (simp add: masks_in_def)
  next
    case False
    let ?f = "f\<lparr>se_pc := p\<rparr>"
    have "entry_ok f fs" using ok es by simp
    then have "entry_ok ?f fs" by (rule entry_ok_shrink) (use \<open>entry_ok f fs\<close> in \<open>simp_all add: entry_ok_def\<close>)
    moreover have "return_from_call p (e # es) = Inr (?f # fs)" using False es by (simp add: return_from_call_def)
    moreover have "\<forall>t \<in> running dn (se_active_mask e). thread_pc (?f # fs) t = Some (np ! t)"
      using one run by (simp add: thread_pc_Cons)
    ultimately show ?thesis using ok es w by (simp add: masks_in_def)
  qed
qed

lemma one_path_ok:
  assumes ok: "stack_ok (e # es)" and g: "mask_set g = going_to dn np (se_active_mask e) p"
    and p: "targets dn np (se_active_mask e) = {p}" and live: "\<forall>t \<in> running dn (se_active_mask e). np ! t \<noteq> null_pc"
  shows "let st = (if p = se_recvg_pc e \<and> se_type e \<noteq> STACK_ENTRY_TYPE_CALL then es
      else e\<lparr>se_pc := p, se_active_mask := g, se_recvg_pc := se_recvg_pc e\<rparr> # es)
    in stack_ok st \<and> resumed dn np e es st"
proof -
  have one: "np ! t = p" if "t \<in> running dn (se_active_mask e)" for t using that p by (auto simp: targets_def)
  have nn: "p \<noteq> null_pc" using live_targets [OF live] p by simp
  let ?f = "e\<lparr>se_pc := p, se_active_mask := g, se_recvg_pc := se_recvg_pc e\<rparr>"
  have "stack_ok (?f # es) \<and> resumed dn np e es (?f # es)"
    by (rule replace_top_ok [OF ok _ _ _ _ live]) (use p g one in \<open>auto simp: path_entry_def\<close>)
  moreover have "resumed dn np e es es" if "p = se_recvg_pc e" "se_type e \<noteq> STACK_ENTRY_TYPE_CALL"
    using ok that nn one by (auto simp: entry_ok_def resumed_def thread_pc_Cons running_def split: stack_entry_type.splits)
  ultimately show ?thesis using ok by (auto simp: Let_def)
qed

lemma two_paths_ok:
  assumes ok: "stack_ok (e # es)" and tw: "two_way br a b" and take: "take_path 0 (br_not_taken_pc br) ps = Inr (a, ga, [(b, gb)])"
    and br: "br_top_recvg_pc br = se_recvg_pc e" "br_top_type br = se_type e"
    and t: "targets dn np (se_active_mask e) = {a, b}"
    and g: "mask_set ga = going_to dn np (se_active_mask e) a" "mask_set gb = going_to dn np (se_active_mask e) b"
    and live: "\<forall>t \<in> running dn (se_active_mask e). np ! t \<noteq> null_pc"
    and pdom: "se_type e = STACK_ENTRY_TYPE_NORMAL \<and> br_recvg_pc br \<noteq> se_recvg_pc e \<longrightarrow> se_recvg_pc e \<notin> {a, b}"
  shows "\<exists>st. path_loop br [0..<2] ps False null_pc (e # es) = Inr (False, simt_stack_entry_new # st) \<and>
    stack_ok st \<and> resumed dn np e es st"
proof -
  have ab: "a \<noteq> b" using tw by (simp add: two_way_def)
  have nn: "a \<noteq> null_pc" "b \<noteq> null_pc" using live_targets [OF live] t by simp_all
  show ?thesis
  proof (cases "br_recvg_pc br = br_top_recvg_pc br")
    case True
    have c: "se_type e = STACK_ENTRY_TYPE_CALL \<longrightarrow> a \<noteq> br_recvg_pc br \<and> b \<noteq> br_recvg_pc br"
      using call_entry_recvg [OF ok] nn br True by simp
    show ?thesis
      using two_paths_same_point [OF tw take True, of e es] same_point_ok [OF ok t ab g live _ c] True br c by (simp add: Let_def)
  next
    case False
    have c: "br_top_type br = STACK_ENTRY_TYPE_CALL \<or> a \<noteq> br_top_recvg_pc br \<and> b \<noteq> br_top_recvg_pc br"
      using pdom br False by (cases "se_type e") auto
    show ?thesis
      using two_paths_reconverge_below [OF tw take False c, of e es] reconverge_below_ok [OF ok t ab g, of "br_recvg_pc br" "br_cycle br"]
      by (simp add: Let_def)
  qed
qed

text \<open>The outcome of the second loop and of the final \<open>pop_back\<close>.\<close>

definition loop_result :: "bool \<times> simt_stack_entry list \<Rightarrow> simt_stack_entry list" where
  "loop_result r = (if fst r then snd r else tl (snd r))"

definition returns :: "op_type \<Rightarrow> simt_stack_entry \<Rightarrow> bool" where
  "returns op e \<longleftrightarrow> op = RET_OPS \<and> se_type e = STACK_ENTRY_TYPE_CALL"

definition update_goal :: "nat \<Rightarrow> simt_mask \<Rightarrow> u32 list \<Rightarrow> op_type \<Rightarrow> simt_stack_entry \<Rightarrow> simt_stack_entry list \<Rightarrow> simt_stack_entry list \<Rightarrow> bool" where
  "update_goal ws dn np op e es st \<longleftrightarrow> stack_ok st \<and> masks_in ws st \<and>
    (\<forall>t \<in> running dn (se_active_mask e). thread_pc st t = Some (np ! t)) \<and>
    (\<not> returns op e \<longrightarrow> (\<forall>t. t \<notin> mask_set (se_active_mask e) \<longrightarrow> thread_pc st t = thread_pc (e # es) t))"

lemma resumed_goal: "stack_ok st \<and> resumed dn np e es st \<Longrightarrow> masks_in ws (e # es) \<Longrightarrow> update_goal ws dn np op e es st"
  using resumed_masks_in [of dn np e es st ws] by (auto simp: update_goal_def resumed_def)

lemma loop_one_ok:
  assumes ok: "stack_ok (e # es)" and w: "masks_in ws (e # es)" and live: "\<forall>t \<in> running dn (se_active_mask e). np ! t \<noteq> null_pc"
    and br: "br_num_paths br = 1" "br_top_recvg_pc br = se_recvg_pc e" "br_top_type br = se_type e"
    and t: "targets dn np (se_active_mask e) = {p}" and g: "mask_set g = going_to dn np (se_active_mask e) p"
  shows "\<exists>r. path_loop br [0..<1] [(p, g)] False null_pc (e # es) = Inr r \<and> (fst r \<or> snd r \<noteq> []) \<and>
    update_goal ws dn np (br_op br) e es (loop_result r)"
proof -
  have one: "np ! t = p" if "t \<in> running dn (se_active_mask e)" for t using that t by (auto simp: targets_def)
  have nn: "p \<noteq> null_pc" using live_targets [OF live] t by simp
  have take: "take_path 0 ntp [(p, g)] = Inr (p, g, [])" for ntp by (simp add: take_only_path)
  consider (call) "br_op br = CALL_OPS" | (ret) "br_op br \<noteq> CALL_OPS" "returns (br_op br) e"
    | (normal) "br_op br \<noteq> CALL_OPS" "\<not> returns (br_op br) e" by blast
  then show ?thesis
  proof cases
    case call
    then show ?thesis using call_ok [OF ok g, of "br_cycle br"] t br take resumed_goal [OF _ w]
      by (simp add: loop_result_def Let_def)
  next
    case ret
    obtain st where "return_from_call p (e # es) = Inr st" "stack_ok st" "masks_in ws st"
      "\<forall>t \<in> running dn (se_active_mask e). thread_pc st t = Some (np ! t)"
      using return_ok [OF ok _ nn one w] ret(2) by (auto simp: returns_def)
    then show ?thesis using ret br take by (simp add: loop_result_def update_goal_def returns_def)
  next
    case normal
    then show ?thesis using one_path_ok [OF ok g t live] br take resumed_goal [OF _ w]
      by (auto simp: loop_result_def returns_def set_top_def Let_def split: if_splits)
  qed
qed

lemma loop_two_ok:
  assumes ok: "stack_ok (e # es)" and w: "masks_in ws (e # es)" and live: "\<forall>t \<in> running dn (se_active_mask e). np ! t \<noteq> null_pc"
    and br: "br_num_paths br = 2" "br_top_recvg_pc br = se_recvg_pc e" "br_top_type br = se_type e"
    and op: "br_op br \<noteq> CALL_OPS" "\<not> returns (br_op br) e"
    and t: "targets dn np (se_active_mask e) = {a, b}" and ab: "a \<noteq> b"
    and g: "mask_set ga = going_to dn np (se_active_mask e) a" "mask_set gb = going_to dn np (se_active_mask e) b"
    and pdom: "se_type e = STACK_ENTRY_TYPE_NORMAL \<and> br_recvg_pc br \<noteq> se_recvg_pc e \<longrightarrow> se_recvg_pc e \<notin> {a, b}"
  shows "\<exists>r. path_loop br [0..<2] [(a, ga), (b, gb)] False null_pc (e # es) = Inr r \<and> (fst r \<or> snd r \<noteq> []) \<and>
    update_goal ws dn np (br_op br) e es (loop_result r)"
proof -
  have tw: "two_way br p q" if "p \<noteq> q" "q \<noteq> br_not_taken_pc br" for p q
    using that br op by (simp add: two_way_def returns_def)
  have fin: "\<exists>r. path_loop br [0..<2] [(a, ga), (b, gb)] False null_pc (e # es) = Inr r \<and> (fst r \<or> snd r \<noteq> []) \<and>
      update_goal ws dn np (br_op br) e es (loop_result r)"
    if ex: "\<exists>st. path_loop br [0..<2] [(a, ga), (b, gb)] False null_pc (e # es) = Inr (False, simt_stack_entry_new # st) \<and>
      stack_ok st \<and> resumed dn np e es st"
  proof -
    obtain st where "path_loop br [0..<2] [(a, ga), (b, gb)] False null_pc (e # es) = Inr (False, simt_stack_entry_new # st)"
      "stack_ok st \<and> resumed dn np e es st" using ex by blast
    then show ?thesis using resumed_goal [OF _ w] by (intro exI [of _ "(False, simt_stack_entry_new # st)"]) (simp add: loop_result_def)
  qed
  show ?thesis
  proof (rule take_one_of_two [OF ab, of "br_not_taken_pc br" ga gb], goal_cases)
    case 1
    show ?case by (rule fin, rule two_paths_ok [OF ok tw [OF ab 1(2)] 1(1) br(2,3) t g live pdom])
  next
    case 2
    have t': "targets dn np (se_active_mask e) = {b, a}" using t by blast
    show ?case by (rule fin, rule two_paths_ok [OF ok tw [OF ab [symmetric] 2(2)] 2(1) br(2,3) t' g(2,1) live])
        (use pdom in blast)
  qed
qed

lemma paths_cases:
  assumes "card T \<le> 2" and "finite T" and "set (map fst qs) = T" and "distinct (map fst qs)"
  obtains "qs = []" "T = {}"
  | p g where "qs = [(p, g)]" "T = {p}"
  | a ga b gb where "qs = [(a, ga), (b, gb)]" "T = {a, b}" "a \<noteq> b"
proof -
  have "length qs \<le> 2" using assms distinct_card [OF assms(4)] by simp
  then consider "qs = []" | p where "qs = [p]" | p q where "qs = [p, q]"
    by (cases qs; cases "tl qs"; cases "tl (tl qs)") auto
  then show ?thesis
  proof cases
    case (2 p)
    then show ?thesis using that(2) [of "fst p" "snd p"] assms(3) by simp
  next
    case (3 p q)
    then show ?thesis using that(3) [of "fst p" "snd p" "fst q" "snd q"] assms(3,4) by auto
  qed (use that(1) assms(3) in auto)
qed

lemma update_loop_ok:
  assumes ok: "stack_ok (e # es)" and w: "masks_in ws (e # es)" and live: "\<forall>t \<in> running dn (se_active_mask e). np ! t \<noteq> null_pc"
    and legal: "branch_legal dn np (br_recvg_pc br) (br_op br) e"
    and br: "br_num_paths br = card (targets dn np (se_active_mask e))" "br_top_recvg_pc br = se_recvg_pc e" "br_top_type br = se_type e"
    and qs: "set (map fst qs) = targets dn np (se_active_mask e)" "distinct (map fst qs)"
      "\<forall>(pc, g) \<in> set qs. mask_set g = going_to dn np (se_active_mask e) pc"
  shows "\<exists>r. path_loop br [0..<br_num_paths br] qs False null_pc (e # es) = Inr r \<and> (fst r \<or> snd r \<noteq> []) \<and>
    update_goal ws dn np (br_op br) e es (loop_result r)"
proof -
  have le: "card (targets dn np (se_active_mask e)) \<le> 2" using legal by (auto simp: branch_legal_def split: if_splits)
  have fin: "finite (targets dn np (se_active_mask e))" by (simp add: targets_def running_def)
  show ?thesis
  proof (rule paths_cases [OF le fin qs(1,2)], goal_cases)
    case 1
    then have "resumed dn np e es es" using ok by (auto simp: resumed_def targets_def thread_pc_Cons)
    then show ?case using 1 br ok resumed_goal [OF _ w, of es] by (simp add: loop_result_def)
  next
    case (2 p g)
    have n: "br_num_paths br = 1" using 2 br by simp
    then show ?case using loop_one_ok [OF ok w live n br(2,3) 2(2)] qs(3) 2(1) by simp
  next
    case (3 a ga b gb)
    have n: "br_num_paths br = 2" using 3 br by simp
    have op: "br_op br \<noteq> CALL_OPS" "\<not> returns (br_op br) e" "se_type e = STACK_ENTRY_TYPE_NORMAL \<and>
        br_recvg_pc br \<noteq> se_recvg_pc e \<longrightarrow> se_recvg_pc e \<notin> {a, b}"
      using legal 3 n br(1) by (auto simp: branch_legal_def returns_def split: if_splits)
    show ?case using loop_two_ok [OF ok w live n br(2,3) op(1,2) 3(2,3) _ _ op(3)] qs(3) 3(1) n by simp
  qed
qed

text \<open>C26: \<open>simt_stack::update\<close> succeeds and is right for every legal branch, call and return of a warp:
  on a well-formed stack it raises none of its assertions, it leaves the stack well formed, and after it
  each thread of the old top that is still running goes on - in the topmost entry that contains it - at
  the program counter it computed, be it by divergence, by reconvergence with the threads below, by a
  call or by a return.  Unless it returns from a call, no other thread's place changes.\<close>

theorem simt_update_correct:
  assumes "ss_stack s = e # es" and "stack_ok (ss_stack s)" and "unat (ss_warp_size s) \<le> 32"
    and "masks_in (unat (ss_warp_size s)) (ss_stack s)" and "length next_pc = unat (ss_warp_size s)"
    and "\<forall>t \<in> running thread_done (se_active_mask e). next_pc ! t \<noteq> null_pc"
    and "branch_legal thread_done next_pc recvg_pc op e"
  shows "\<exists>s'. simt_update thread_done next_pc recvg_pc op isize (se_pc e) cycle s = Inr s' \<and>
    stack_ok (ss_stack s') \<and> masks_in (unat (ss_warp_size s)) (ss_stack s') \<and> ss_warp_size s' = ss_warp_size s \<and>
    (\<forall>t \<in> running thread_done (se_active_mask e). thread_pc (ss_stack s') t = Some (next_pc ! t)) \<and>
    (\<not> (op = RET_OPS \<and> se_type e = STACK_ENTRY_TYPE_CALL) \<longrightarrow>
      (\<forall>t. t \<notin> mask_set (se_active_mask e) \<longrightarrow> thread_pc (ss_stack s') t = thread_pc (ss_stack s) t))"
proof -
  let ?ws = "unat (ss_warp_size s)" let ?m = "se_active_mask e"
  have ok: "stack_ok (e # es)" and w: "masks_in ?ws (e # es)" using assms(1,2,4) by simp_all
  have sub: "mask_set ?m \<subseteq> {..<?ws}" using w by (simp add: masks_in_def)
  have "card (mask_set ?m) \<le> ?ws" using card_mono [OF _ sub] by simp
  then have c: "card (mask_set ?m) < 33" using assms(3) by linarith
  have d: "targets thread_done next_pc ?m \<inter> fst ` set ([] :: paths) = {}" by simp
  obtain qs where q: "find_paths 33 thread_done next_pc ?ws ?m [] 0 = Inr (qs, card (targets thread_done next_pc ?m))"
    "set (map fst qs) = targets thread_done next_pc ?m" "distinct (map fst qs)"
    "\<forall>(pc, g) \<in> set qs. mask_set g = going_to thread_done next_pc ?m pc"
    using find_paths_ok [OF assms(3) sub assms(6) c d, of 0] unfolding append_Nil add_0 by (elim exE conjE)
  define br where "br = \<lparr>br_cycle = cycle, br_op = op, br_recvg_pc = recvg_pc, br_not_taken_pc = se_pc e + isize,
    br_top_recvg_pc = se_recvg_pc e, br_top_type = se_type e, br_num_paths = card (targets thread_done next_pc ?m)\<rparr>"
  have le: "card (targets thread_done next_pc ?m) \<le> 2" using assms(7) by (auto simp: branch_legal_def split: if_splits)
  obtain r where r: "path_loop br [0..<card (targets thread_done next_pc ?m)] qs False null_pc (e # es) = Inr r" "fst r \<or> snd r \<noteq> []"
    "update_goal ?ws thread_done next_pc op e es (loop_result r)"
    using update_loop_ok [OF ok w assms(6) _ _ _ _ q(2-4), of br] assms(7) by (auto simp: br_def)
  have "simt_update thread_done next_pc recvg_pc op isize (se_pc e) cycle s = Inr (s\<lparr>ss_stack := loop_result r\<rparr>)"
    using assms(1,3,5) ok le q(1) r(1,2)
    by (auto simp: simt_update_def entry_ok_def br_def [symmetric] loop_result_def Let_def split: prod.splits)
  then show ?thesis using r(3) assms(1) by (simp add: update_goal_def returns_def)
qed

lemma mask_set_list: "mask_set m = set (filter (bit m) [0..<32])"
  using bit_imp_le_length [of m] by (auto simp: mask_set_def)

definition example_warp :: simt_stack where
  "example_warp = launch 8 3 (simt_stack_new 0 2)"

lemma example_warp_mask: "mask_set 3 = {0, 1}"
  by (simp add: mask_set_list upt_rec)

lemma example_warp_stack: "ss_stack example_warp = [simt_stack_entry_new\<lparr>se_pc := 8, se_calldepth := 1, se_active_mask := 3\<rparr>]"
  by (simp add: example_warp_def launch_def simt_stack_entry_new_def)

theorem simt_update_correct_witness:
  "\<exists>s'. simt_update 0 [16, 100] 200 BRANCH_OP 8 8 7 example_warp = Inr s' \<and> stack_ok (ss_stack s') \<and>
    thread_pc (ss_stack s') 0 = Some 16 \<and> thread_pc (ss_stack s') 1 = Some 100"
proof -
  let ?e = "simt_stack_entry_new\<lparr>se_pc := 8, se_calldepth := 1, se_active_mask := 3\<rparr>"
  have run: "running 0 (se_active_mask ?e) = {0, 1}" using example_warp_mask by (auto simp: running_def)
  have tg: "targets 0 [16, 100] (se_active_mask ?e) = {16, 100}" unfolding targets_def run by simp
  have "stack_ok (ss_stack example_warp)" unfolding example_warp_def by (rule launch_ok) simp
  moreover have "unat (ss_warp_size example_warp) = 2"
    by (simp add: example_warp_def launch_def simt_reset_def simt_stack_new_def)
  moreover have "branch_legal 0 [16, 100] 200 BRANCH_OP ?e" unfolding branch_legal_def tg
    by (simp add: simt_stack_entry_new_def null_pc_def)
  moreover have "masks_in 2 (ss_stack example_warp)" unfolding masks_in_def example_warp_stack using example_warp_mask by simp
  moreover have "\<forall>t \<in> running 0 (se_active_mask ?e). [16, 100] ! t \<noteq> null_pc" unfolding run by (simp add: null_pc_def)
  ultimately show ?thesis
    using simt_update_correct [OF example_warp_stack, of "[16, 100]" 0 200 BRANCH_OP 8 7] unfolding run by auto
qed

end
