(* ===== verification/Scoreboard.thy ===== *)
theory Scoreboard
  imports Simt_Stack Mem_Fetch
begin

text \<open>
  The scoreboard of a shader core, \<open>src/src/gpgpu-sim/scoreboard.{h,cc}\<close>: for every warp the registers with
  a write pending, and those among them that wait for a long memory operation.  \<open>inst_t\<close> is modelled with
  the fields the scoreboard reads; \<open>std::set<unsigned>\<close> is a set.  A warp index beyond the table and an
  operand count beyond its array are undefined.  Tracing and \<open>printContents\<close> are left out.

  \<open>in_flight\<close> describes how the core uses it: an instruction issues when \<open>checkCollision\<close> finds nothing
  (\<open>scheduler_unit::cycle\<close>), \<open>issue_warp\<close> then reserves its outputs, and the writeback stages release them,
  all at once (\<open>shader_core_ctx::writeback\<close>) or one by one (\<open>ldst_unit::writeback\<close>), in any order.

  Shown: the table holds exactly the registers that instructions in flight still have to write, no register
  has two writers in flight, what issues neither reads nor writes one of them, and reserving never aborts.
\<close>

section \<open>Model\<close>

datatype memory_op_t = no_memory_op | memory_load | memory_store

record inst_t =
  in_warp_id :: u32
  in_op :: op_type
  in_memory_op :: memory_op_t
  in_space :: memory_space
  in_out :: "u32 list"
  in_outcount :: u32
  in_in :: "u32 list"
  in_incount :: u32
  in_pred :: int
  in_ar1 :: int
  in_ar2 :: int

definition is_load :: "'a inst_t_scheme \<Rightarrow> bool" where
  "is_load i \<longleftrightarrow> in_op i = LOAD_OP \<or> in_op i = TENSOR_CORE_LOAD_OP \<or> in_memory_op i = memory_load"

definition is_store :: "'a inst_t_scheme \<Rightarrow> bool" where
  "is_store i \<longleftrightarrow> in_op i = STORE_OP \<or> in_op i = TENSOR_CORE_STORE_OP \<or> in_memory_op i = memory_store"

record scoreboard =
  sb_sid :: u32
  reg_table :: "u32 set list"
  longopregs :: "u32 set list"

definition scoreboard_new :: "u32 \<Rightarrow> nat \<Rightarrow> scoreboard" where
  "scoreboard_new sid n_warps = \<lparr>sb_sid = sid, reg_table = replicate n_warps {}, longopregs = replicate n_warps {}\<rparr>"

definition reserveRegister :: "u32 \<Rightarrow> u32 \<Rightarrow> scoreboard \<Rightarrow> scoreboard res" where
  "reserveRegister wid regnum s =
    defined (unat wid < length (reg_table s))
      (if regnum \<in> reg_table s ! unat wid then Inl Abort
       else Inr (s\<lparr>reg_table := (reg_table s)[unat wid := insert regnum (reg_table s ! unat wid)]\<rparr>))"

definition releaseRegister :: "u32 \<Rightarrow> u32 \<Rightarrow> scoreboard \<Rightarrow> scoreboard res" where
  "releaseRegister wid regnum s =
    defined (unat wid < length (reg_table s))
      (if regnum \<notin> reg_table s ! unat wid then Inr s
       else Inr (s\<lparr>reg_table := (reg_table s)[unat wid := reg_table s ! unat wid - {regnum}]\<rparr>))"

definition islongop :: "u32 \<Rightarrow> u32 \<Rightarrow> scoreboard \<Rightarrow> bool res" where
  "islongop wid regnum s = defined (unat wid < length (longopregs s)) (Inr (regnum \<in> longopregs s ! unat wid))"

definition MAX_OUTPUT_VALUES :: nat where "MAX_OUTPUT_VALUES = 8"
definition MAX_INPUT_VALUES :: nat where "MAX_INPUT_VALUES = 24"

definition mark_longop :: "u32 \<Rightarrow> u32 \<Rightarrow> scoreboard \<Rightarrow> scoreboard res" where
  "mark_longop wid regnum s =
    defined (unat wid < length (longopregs s))
      (Inr (s\<lparr>longopregs := (longopregs s)[unat wid := insert regnum (longopregs s ! unat wid)]\<rparr>))"

definition reserveRegisters :: "inst_t \<Rightarrow> scoreboard \<Rightarrow> scoreboard res" where
  "reserveRegisters inst s =
    andThen (foldM (\<lambda>r s. if r > 0 then reserveRegister (in_warp_id inst) r s else Inr s)
      (take MAX_OUTPUT_VALUES (in_out inst)) s) (\<lambda>s1.
    if is_load inst \<and> in_space inst \<in> {global_space, local_space, param_space_kernel, param_space_local,
        param_space_unclassified, tex_space}
    then foldM (\<lambda>r s. if r > 0 then mark_longop (in_warp_id inst) r s else Inr s)
      (take MAX_OUTPUT_VALUES (in_out inst)) s1
    else Inr s1)"

definition unmark_longop :: "u32 \<Rightarrow> u32 \<Rightarrow> scoreboard \<Rightarrow> scoreboard res" where
  "unmark_longop wid regnum s =
    defined (unat wid < length (longopregs s))
      (Inr (s\<lparr>longopregs := (longopregs s)[unat wid := longopregs s ! unat wid - {regnum}]\<rparr>))"

definition releaseRegisters :: "inst_t \<Rightarrow> scoreboard \<Rightarrow> scoreboard res" where
  "releaseRegisters inst s =
    foldM (\<lambda>r s. if r > 0 then andThen (releaseRegister (in_warp_id inst) r s) (unmark_longop (in_warp_id inst) r)
                 else Inr s) (take MAX_OUTPUT_VALUES (in_out inst)) s"

definition checkCollision :: "u32 \<Rightarrow> inst_t \<Rightarrow> scoreboard \<Rightarrow> bool res" where
  "checkCollision wid inst s =
    defined (unat (in_outcount inst) \<le> length (in_out inst) \<and> unat (in_incount inst) \<le> length (in_in inst))
     (let inst_regs = set (take (unat (in_outcount inst)) (in_out inst)) \<union> set (take (unat (in_incount inst)) (in_in inst)) \<union>
        (if in_pred inst > 0 then {word_of_int (in_pred inst)} else {}) \<union>
        (if in_ar1 inst > 0 then {word_of_int (in_ar1 inst)} else {}) \<union>
        (if in_ar2 inst > 0 then {word_of_int (in_ar2 inst)} else {})
      in if inst_regs = {} then Inr False
         else defined (unat wid < length (reg_table s)) (Inr (\<exists>r \<in> inst_regs. r \<in> reg_table s ! unat wid)))"

definition pendingWrites :: "u32 \<Rightarrow> scoreboard \<Rightarrow> bool res" where
  "pendingWrites wid s = defined (unat wid < length (reg_table s)) (Inr (reg_table s ! unat wid \<noteq> {}))"

section \<open>Reads and writes of an instruction\<close>

definition wid_of :: "inst_t \<Rightarrow> nat" where
  "wid_of i = unat (in_warp_id i)"

definition writes :: "inst_t \<Rightarrow> u32 set" where
  "writes i = {r \<in> set (in_out i). r > 0}"

definition reads :: "inst_t \<Rightarrow> u32 set" where
  "reads i = set (take (unat (in_incount i)) (in_in i)) \<union> {word_of_int r |r. r \<in> {in_pred i, in_ar1 i, in_ar2 i} \<and> r > 0}"

text \<open>A decoded instruction (\<open>ptx_instruction::pre_decode\<close>): the outputs are distinct and come first in \<open>out\<close>,
  \<open>outcount\<close> is their number.\<close>

definition inst_ok :: "nat \<Rightarrow> inst_t \<Rightarrow> bool" where
  "inst_ok n i \<longleftrightarrow> wid_of i < n \<and> length (in_out i) = MAX_OUTPUT_VALUES \<and> length (in_in i) = MAX_INPUT_VALUES \<and>
    unat (in_outcount i) \<le> MAX_OUTPUT_VALUES \<and> unat (in_incount i) \<le> MAX_INPUT_VALUES \<and>
    writes i = set (take (unat (in_outcount i)) (in_out i)) \<and> distinct (filter (\<lambda>r. r > 0) (in_out i))"

inductive in_flight :: "nat \<Rightarrow> scoreboard \<Rightarrow> (inst_t \<times> u32 set) list \<Rightarrow> bool" where
  start: "in_flight n (scoreboard_new sid n) []"
| issue: "in_flight n s fl \<Longrightarrow> inst_ok n i \<Longrightarrow> checkCollision (in_warp_id i) i s = Inr False \<Longrightarrow>
    reserveRegisters i s = Inr s' \<Longrightarrow> in_flight n s' ((i, writes i) # fl)"
| retire: "in_flight n s (fl @ (i, writes i) # fl') \<Longrightarrow> releaseRegisters i s = Inr s' \<Longrightarrow> in_flight n s' (fl @ fl')"
| write_back: "in_flight n s (fl @ (i, R) # fl') \<Longrightarrow> r \<in> R \<Longrightarrow> releaseRegister (in_warp_id i) r s = Inr s' \<Longrightarrow>
    in_flight n s' (fl @ (i, R - {r}) # fl')"

text \<open>The registers a warp still has to write, by the instructions in flight.\<close>

definition pending :: "(inst_t \<times> u32 set) list \<Rightarrow> nat \<Rightarrow> u32 set" where
  "pending fl w = \<Union> {R. \<exists>i. (i, R) \<in> set fl \<and> wid_of i = w}"

definition flight_ok :: "nat \<Rightarrow> scoreboard \<Rightarrow> (inst_t \<times> u32 set) list \<Rightarrow> bool" where
  "flight_ok n s fl \<longleftrightarrow> length (reg_table s) = n \<and> length (longopregs s) = n \<and> (\<forall>w < n. reg_table s ! w = pending fl w) \<and>
    (\<forall>(i, R) \<in> set fl. inst_ok n i \<and> R \<subseteq> writes i) \<and>
    sorted_wrt (\<lambda>(i, R) (j, S). wid_of i = wid_of j \<longrightarrow> R \<inter> S = {}) fl"

lemma pending_simps [simp]:
  "pending [] w = {}" "pending ((i, R) # fl) w = (if wid_of i = w then R else {}) \<union> pending fl w"
  "pending (fl @ fl') w = pending fl w \<union> pending fl' w"
  by (auto simp: pending_def)

section \<open>The loops\<close>

definition positives :: "u32 list \<Rightarrow> u32 set" where
  "positives rs = {r \<in> set rs. r > 0}"

lemma positives_simps [simp]:
  "positives [] = {}" "positives (r # rs) = (if r > 0 then insert r (positives rs) else positives rs)"
  by (auto simp: positives_def)

lemma filter_positives: "set (filter (\<lambda>r. r > 0) rs) = positives rs"
  by (auto simp: positives_def)

definition on_regs :: "u32 \<Rightarrow> (u32 set \<Rightarrow> u32 set) \<Rightarrow> scoreboard \<Rightarrow> scoreboard" where
  "on_regs wid f s = s\<lparr>reg_table := (reg_table s)[unat wid := f (reg_table s ! unat wid)]\<rparr>"

definition on_longops :: "u32 \<Rightarrow> (u32 set \<Rightarrow> u32 set) \<Rightarrow> scoreboard \<Rightarrow> scoreboard" where
  "on_longops wid f s = s\<lparr>longopregs := (longopregs s)[unat wid := f (longopregs s ! unat wid)]\<rparr>"

lemma on_regs_sel [simp]:
  "length (reg_table (on_regs wid f s)) = length (reg_table s)" "longopregs (on_regs wid f s) = longopregs s"
  "unat wid < length (reg_table s) \<Longrightarrow> reg_table (on_regs wid f s) ! unat wid = f (reg_table s ! unat wid)"
  "w \<noteq> unat wid \<Longrightarrow> reg_table (on_regs wid f s) ! w = reg_table s ! w"
  by (simp_all add: on_regs_def)

lemma on_longops_sel [simp]:
  "reg_table (on_longops wid f s) = reg_table s" "length (longopregs (on_longops wid f s)) = length (longopregs s)"
  "unat wid < length (longopregs s) \<Longrightarrow> longopregs (on_longops wid f s) ! unat wid = f (longopregs s ! unat wid)"
  by (simp_all add: on_longops_def)

lemma on_regs_compose:
  "unat wid < length (reg_table s) \<Longrightarrow> on_regs wid f (on_regs wid g s) = on_regs wid (\<lambda>A. f (g A)) s"
  "unat wid < length (longopregs s) \<Longrightarrow> on_longops wid f (on_longops wid g s) = on_longops wid (\<lambda>A. f (g A)) s"
  "on_regs wid f (on_longops wid g s) = on_longops wid g (on_regs wid f s)"
  by (simp_all add: on_regs_def on_longops_def)

lemma on_regs_same: "f (reg_table s ! unat wid) = reg_table s ! unat wid \<Longrightarrow> on_regs wid f s = s"
  by (simp add: on_regs_def)

lemma on_longops_same: "f (longopregs s ! unat wid) = longopregs s ! unat wid \<Longrightarrow> on_longops wid f s = s"
  by (simp add: on_longops_def)

lemma reserve_loop:
  assumes "unat wid < length (reg_table s)" and "distinct (filter (\<lambda>r. r > 0) rs)" and "positives rs \<inter> reg_table s ! unat wid = {}"
  shows "foldM (\<lambda>r s. if r > 0 then reserveRegister wid r s else Inr s) rs s = Inr (on_regs wid (\<lambda>A. positives rs \<union> A) s)"
  using assms
proof (induction rs arbitrary: s)
  case (Cons r rs)
  show ?case
  proof (cases "r > 0")
    case True
    have new: "r \<notin> reg_table s ! unat wid" "r \<notin> positives rs" using Cons.prems(2,3) True by (auto simp: positives_def)
    have "reserveRegister wid r s = Inr (on_regs wid (insert r) s)"
      using Cons.prems(1) new(1) by (simp add: reserveRegister_def on_regs_def)
    moreover have "foldM (\<lambda>r s. if r > 0 then reserveRegister wid r s else Inr s) rs (on_regs wid (insert r) s) =
        Inr (on_regs wid (\<lambda>A. positives rs \<union> A) (on_regs wid (insert r) s))"
      using Cons.prems new True by (intro Cons.IH) auto
    ultimately show ?thesis using True Cons.prems(1) by (simp add: on_regs_compose)
  qed (use Cons in simp)
qed (simp add: on_regs_same)

lemma mark_loop:
  assumes "unat wid < length (longopregs s)"
  shows "foldM (\<lambda>r s. if r > 0 then mark_longop wid r s else Inr s) rs s = Inr (on_longops wid (\<lambda>A. positives rs \<union> A) s)"
  using assms
proof (induction rs arbitrary: s)
  case (Cons r rs)
  have "mark_longop wid r s = Inr (on_longops wid (insert r) s)" using Cons.prems by (simp add: mark_longop_def on_longops_def)
  then show ?case using Cons by (simp add: on_regs_compose)
qed (simp add: on_longops_same)

lemma release_register:
  "unat wid < length (reg_table s) \<Longrightarrow> releaseRegister wid r s = Inr (on_regs wid (\<lambda>A. A - {r}) s)"
  by (simp add: releaseRegister_def on_regs_def)

lemma release_loop:
  assumes "unat wid < length (reg_table s)" and "unat wid < length (longopregs s)"
  shows "foldM (\<lambda>r s. if r > 0 then andThen (releaseRegister wid r s) (unmark_longop wid r) else Inr s) rs s =
    Inr (on_longops wid (\<lambda>A. A - positives rs) (on_regs wid (\<lambda>A. A - positives rs) s))"
  using assms
proof (induction rs arbitrary: s)
  case (Cons r rs)
  have u: "unmark_longop wid r t = Inr (on_longops wid (\<lambda>A. A - {r}) t)" if "unat wid < length (longopregs t)" for t
    using that by (simp add: unmark_longop_def on_longops_def)
  have "A - {r} - positives rs = A - insert r (positives rs)" for A by blast
  then show ?case using Cons by (simp add: on_regs_compose release_register u)
qed (simp add: on_regs_same on_longops_same)

lemma writes_positives: "inst_ok n i \<Longrightarrow> positives (take MAX_OUTPUT_VALUES (in_out i)) = writes i"
  by (simp add: inst_ok_def writes_def positives_def)

section \<open>The operations on instructions\<close>

lemma checkCollision_hazard:
  assumes "inst_ok (length (reg_table s)) i"
  shows "checkCollision (in_warp_id i) i s = Inr ((reads i \<union> writes i) \<inter> reg_table s ! wid_of i \<noteq> {})"
proof -
  let ?P = "(if in_pred i > 0 then {word_of_int (in_pred i)} else {}) \<union> (if in_ar1 i > 0 then {word_of_int (in_ar1 i)} else {}) \<union>
    (if in_ar2 i > 0 then {word_of_int (in_ar2 i) :: u32} else {})"
  have r: "reads i = set (take (unat (in_incount i)) (in_in i)) \<union> ?P" by (auto simp: reads_def)
  have regs: "set (take (unat (in_outcount i)) (in_out i)) \<union> set (take (unat (in_incount i)) (in_in i)) \<union>
      (if in_pred i > 0 then {word_of_int (in_pred i)} else {}) \<union> (if in_ar1 i > 0 then {word_of_int (in_ar1 i)} else {}) \<union>
      (if in_ar2 i > 0 then {word_of_int (in_ar2 i)} else {}) = reads i \<union> writes i"
    using assms r by (auto simp: inst_ok_def)
  have "unat (in_outcount i) \<le> length (in_out i) \<and> unat (in_incount i) \<le> length (in_in i) \<and> unat (in_warp_id i) < length (reg_table s)"
    using assms by (simp add: inst_ok_def wid_of_def)
  then show ?thesis unfolding checkCollision_def regs Let_def by (auto simp: wid_of_def)
qed

lemma reserveRegisters_ok:
  assumes "inst_ok (length (reg_table s)) i" and "length (longopregs s) = length (reg_table s)"
    and "writes i \<inter> reg_table s ! wid_of i = {}"
  obtains s' where "reserveRegisters i s = Inr s'" and "reg_table s' = (reg_table s)[wid_of i := writes i \<union> reg_table s ! wid_of i]"
    and "length (longopregs s') = length (longopregs s)"
proof -
  let ?o = "take MAX_OUTPUT_VALUES (in_out i)"
  have w: "unat (in_warp_id i) < length (reg_table s)" and d: "distinct (filter (\<lambda>r. r > 0) ?o)"
    using assms(1) by (simp_all add: inst_ok_def wid_of_def)
  note p = writes_positives [OF assms(1)]
  have res: "foldM (\<lambda>r s. if r > 0 then reserveRegister (in_warp_id i) r s else Inr s) ?o s =
      Inr (on_regs (in_warp_id i) (\<lambda>A. writes i \<union> A) s)"
    using reserve_loop [OF w d] assms(3) unfolding p wid_of_def by simp
  show thesis
  proof (cases "is_load i \<and> in_space i \<in> {global_space, local_space, param_space_kernel, param_space_local, param_space_unclassified, tex_space}")
    case True
    have "reserveRegisters i s = Inr (on_longops (in_warp_id i) (\<lambda>A. writes i \<union> A) (on_regs (in_warp_id i) (\<lambda>A. writes i \<union> A) s))"
      unfolding reserveRegisters_def res using True w assms(2) by (simp add: mark_loop p)
    then show thesis by (rule that) (simp_all add: on_regs_def wid_of_def)
  next
    case False
    have "reserveRegisters i s = Inr (on_regs (in_warp_id i) (\<lambda>A. writes i \<union> A) s)"
      unfolding reserveRegisters_def res andThen.simps if_not_P [OF False] ..
    then show thesis by (rule that) (simp_all add: on_regs_def wid_of_def)
  qed
qed

lemma releaseRegisters_ok:
  assumes "inst_ok (length (reg_table s)) i" and "length (longopregs s) = length (reg_table s)"
  shows "releaseRegisters i s = Inr (on_longops (in_warp_id i) (\<lambda>A. A - writes i) (on_regs (in_warp_id i) (\<lambda>A. A - writes i) s))"
  using release_loop [of "in_warp_id i" s] writes_positives [OF assms(1)] assms
  by (simp add: releaseRegisters_def inst_ok_def wid_of_def)

section \<open>The invariant\<close>

lemma flight_ok_start: "flight_ok n (scoreboard_new sid n) []"
  by (simp add: flight_ok_def scoreboard_new_def)

lemma flight_ok_issue:
  assumes ok: "flight_ok n s fl" and i: "inst_ok n i" and free: "writes i \<inter> reg_table s ! wid_of i = {}"
    and s': "reg_table s' = (reg_table s)[wid_of i := writes i \<union> reg_table s ! wid_of i]" "length (longopregs s') = length (longopregs s)"
  shows "flight_ok n s' ((i, writes i) # fl)"
proof -
  have w: "wid_of i < n" using i by (simp add: inst_ok_def)
  have "writes i \<inter> S = {}" if "(j, S) \<in> set fl" "wid_of i = wid_of j" for j S
  proof -
    have "S \<subseteq> pending fl (wid_of i)" using that by (auto simp: pending_def)
    then show ?thesis using free ok w by (auto simp: flight_ok_def)
  qed
  then show ?thesis using ok i w s' by (auto simp: flight_ok_def nth_list_update)
qed

text \<open>Taking registers from one entry of the flight list.\<close>

lemma flight_ok_shrink:
  assumes ok: "flight_ok n s (fl @ (i, R) # fl')" and Q: "Q \<subseteq> R"
    and s': "length (reg_table s') = n" "length (longopregs s') = n" "reg_table s' ! wid_of i = reg_table s ! wid_of i - Q"
      "\<And>w. w \<noteq> wid_of i \<Longrightarrow> reg_table s' ! w = reg_table s ! w"
  shows "flight_ok n s' (fl @ (i, R - Q) # fl')"
proof -
  have sep: "R \<inter> S = {}" if "(j, S) \<in> set fl \<union> set fl'" "wid_of j = wid_of i" for j S
    using ok that by (fastforce simp: flight_ok_def sorted_wrt_append)
  have "pending fl (wid_of i) \<inter> R = {}" "pending fl' (wid_of i) \<inter> R = {}" using sep by (auto simp: pending_def)
  then have "reg_table s' ! w = pending (fl @ (i, R - Q) # fl') w" if "w < n" for w
    using ok that Q s'(3,4) by (cases "w = wid_of i") (auto simp: flight_ok_def)
  moreover have "sorted_wrt (\<lambda>(i, R) (j, S). wid_of i = wid_of j \<longrightarrow> R \<inter> S = {}) (fl @ (i, R - Q) # fl')"
    using ok by (fastforce simp: flight_ok_def sorted_wrt_append)
  ultimately show ?thesis using ok s'(1,2) by (auto simp: flight_ok_def)
qed

lemma flight_ok_drop: "flight_ok n s (fl @ (i, {}) # fl') \<Longrightarrow> flight_ok n s (fl @ fl')"
  by (auto simp: flight_ok_def sorted_wrt_append)

lemma flight_ok_retire:
  assumes ok: "flight_ok n s (fl @ (i, writes i) # fl')" and r: "releaseRegisters i s = Inr s'"
  shows "flight_ok n s' (fl @ fl')"
proof -
  have i: "inst_ok (length (reg_table s)) i" "length (longopregs s) = length (reg_table s)" "length (reg_table s) = n"
    using ok by (auto simp: flight_ok_def)
  then have w: "unat (in_warp_id i) < length (reg_table s)" by (simp add: inst_ok_def wid_of_def)
  have "s' = on_longops (in_warp_id i) (\<lambda>A. A - writes i) (on_regs (in_warp_id i) (\<lambda>A. A - writes i) s)"
    using releaseRegisters_ok [OF i(1,2)] r by simp
  then have "flight_ok n s' (fl @ (i, writes i - writes i) # fl')"
    using i w by (intro flight_ok_shrink [OF ok]) (simp_all add: wid_of_def)
  then show ?thesis by (intro flight_ok_drop [of n s' fl i fl']) simp
qed

lemma flight_ok_write_back:
  assumes ok: "flight_ok n s (fl @ (i, R) # fl')" and "r \<in> R" and rr: "releaseRegister (in_warp_id i) r s = Inr s'"
  shows "flight_ok n s' (fl @ (i, R - {r}) # fl')"
proof -
  have i: "length (reg_table s) = n" "length (longopregs s) = n" and w: "unat (in_warp_id i) < length (reg_table s)"
    using ok by (auto simp: flight_ok_def inst_ok_def wid_of_def)
  have "s' = on_regs (in_warp_id i) (\<lambda>A. A - {r}) s" using release_register [OF w, of r] rr by simp
  then show ?thesis using assms(2) i w by (intro flight_ok_shrink [OF ok]) (simp_all add: wid_of_def)
qed

lemma in_flight_ok: "in_flight n s fl \<Longrightarrow> flight_ok n s fl"
proof (induction rule: in_flight.induct)
  case (issue n s fl i s')
  have l: "inst_ok (length (reg_table s)) i" "length (longopregs s) = length (reg_table s)"
    using issue by (auto simp: flight_ok_def)
  have free: "writes i \<inter> reg_table s ! wid_of i = {}" using checkCollision_hazard [OF l(1)] issue.hyps(3) by auto
  then obtain s1 where "reserveRegisters i s = Inr s1" "reg_table s1 = (reg_table s)[wid_of i := writes i \<union> reg_table s ! wid_of i]"
    "length (longopregs s1) = length (longopregs s)" using reserveRegisters_ok [OF l] by blast
  then show ?case using flight_ok_issue [OF issue.IH issue.hyps(2) free] issue.hyps(4) by simp
qed (use flight_ok_start flight_ok_retire flight_ok_write_back in blast)+

text \<open>C27: in every state the core can reach, no two instructions in flight of a warp have the same register
  to write; \<open>checkCollision\<close> holds an instruction back exactly when it reads or writes a register that one of
  them has still to write, and when it lets the instruction issue \<open>reserveRegisters\<close> does not abort.
  \<open>pendingWrites\<close> tells whether the warp has anything left to write.\<close>

theorem scoreboard_prevents_hazards:
  assumes "in_flight n s fl" and "inst_ok n i"
  shows "sorted_wrt (\<lambda>(i, R) (j, S). wid_of i = wid_of j \<longrightarrow> R \<inter> S = {}) fl \<and>
    pendingWrites (in_warp_id i) s = Inr (pending fl (wid_of i) \<noteq> {}) \<and>
    checkCollision (in_warp_id i) i s = Inr ((reads i \<union> writes i) \<inter> pending fl (wid_of i) \<noteq> {}) \<and>
    ((reads i \<union> writes i) \<inter> pending fl (wid_of i) = {} \<longrightarrow>
      (\<exists>s'. reserveRegisters i s = Inr s' \<and> reg_table s' ! wid_of i = writes i \<union> pending fl (wid_of i)))"
proof -
  have ok: "flight_ok n s fl" by (rule in_flight_ok [OF assms(1)])
  have l: "inst_ok (length (reg_table s)) i" "length (longopregs s) = length (reg_table s)" and w: "wid_of i < length (reg_table s)"
    using ok assms(2) by (auto simp: flight_ok_def inst_ok_def)
  have t: "reg_table s ! wid_of i = pending fl (wid_of i)" using ok w by (auto simp: flight_ok_def)
  have "\<exists>s'. reserveRegisters i s = Inr s' \<and> reg_table s' ! wid_of i = writes i \<union> pending fl (wid_of i)"
    if "(reads i \<union> writes i) \<inter> pending fl (wid_of i) = {}"
  proof -
    have "writes i \<inter> reg_table s ! wid_of i = {}" using that t by blast
    from reserveRegisters_ok [OF l this] show ?thesis using w t by (metis nth_list_update_eq)
  qed
  moreover have "pendingWrites (in_warp_id i) s = Inr (pending fl (wid_of i) \<noteq> {})"
    using w t by (simp add: pendingWrites_def wid_of_def)
  ultimately show ?thesis using ok checkCollision_hazard [OF l(1)] unfolding t by (simp add: flight_ok_def)
qed

definition example_load :: inst_t where
  "example_load = \<lparr>in_warp_id = 1, in_op = LOAD_OP, in_memory_op = memory_load, in_space = global_space,
     in_out = [5, 0, 0, 0, 0, 0, 0, 0], in_outcount = 1, in_in = 3 # replicate 23 0, in_incount = 1,
     in_pred = 0, in_ar1 = 0, in_ar2 = 0\<rparr>"

definition example_use :: inst_t where
  "example_use = example_load\<lparr>in_op := ALU_OP, in_memory_op := no_memory_op, in_out := [6, 0, 0, 0, 0, 0, 0, 0],
     in_in := 5 # replicate 23 0\<rparr>"

lemma example_insts: "inst_ok 2 example_load" "inst_ok 2 example_use" "writes example_load = {5}" "wid_of example_load = 1"
  "wid_of example_use = 1" "5 \<in> reads example_use"
  by (auto simp: inst_ok_def wid_of_def writes_def reads_def example_load_def example_use_def MAX_OUTPUT_VALUES_def MAX_INPUT_VALUES_def)

lemma example_flight: "\<exists>s. in_flight 2 s [(example_load, {5})]"
proof -
  let ?s = "scoreboard_new 0 2"
  have l: "inst_ok (length (reg_table ?s)) example_load" "length (longopregs ?s) = length (reg_table ?s)"
    using example_insts(1) by (simp_all add: scoreboard_new_def)
  have e: "reg_table ?s ! wid_of example_load = {}" using example_insts(4) by (simp add: scoreboard_new_def)
  then have c: "checkCollision (in_warp_id example_load) example_load ?s = Inr False" using checkCollision_hazard [OF l(1)] by simp
  obtain s' where "reserveRegisters example_load ?s = Inr s'" using reserveRegisters_ok [OF l] e by blast
  from in_flight.issue [OF in_flight.start example_insts(1) c this] show ?thesis using example_insts(3) by auto
qed

theorem scoreboard_prevents_hazards_witness:
  "\<exists>s. in_flight 2 s [(example_load, {5})] \<and> checkCollision (in_warp_id example_use) example_use s = Inr True"
proof -
  obtain s where s: "in_flight 2 s [(example_load, {5})]" using example_flight by blast
  have "(reads example_use \<union> writes example_use) \<inter> pending [(example_load, {5})] (wid_of example_use) \<noteq> {}"
    using example_insts by auto
  with scoreboard_prevents_hazards [OF s example_insts(2)] s show ?thesis by auto
qed

text \<open>\<open>ldst_unit::writeback\<close> releases the registers of a load one by one with \<open>releaseRegister\<close>, which leaves
  \<open>longopregs\<close> alone: the register of a finished load still counts as waiting for a long operation.\<close>

lemma release_keeps_longop:
  assumes "releaseRegister wid r s = Inr s'"
  shows "islongop wid q s' = islongop wid q s"
  using assms by (auto simp: releaseRegister_def islongop_def res_simps split: if_splits)

end
