(* ===== verification/Coalescing.thy ===== *)
theory Coalescing
  imports Scoreboard "HOL-Library.AList"
begin

text \<open>
  The memory accesses a warp instruction generates, \<open>warp_inst_t::generate_mem_accesses\<close> of
  \<open>src/src/abstract_hardware_model.cc\<close>: bank conflicts in shared memory, whole lines for constant and texture
  memory, and the coalescing of global and local accesses into segments of 32, 64 or 128 bytes, with and
  without atomics.  A \<open>std::map\<close> is an association list, sorted by its keys where the order of a loop matters.
  \<open>line_size_based_tag_func\<close> returns 32 bits, as in the code.  The counters of \<open>ptx_stats\<close> are left out; the
  effective addresses of a thread come from the functional simulator.  A bit beyond a \<open>std::bitset\<close> throws.

  Shown: for naturally aligned addresses below 4 GB the coalescer succeeds, every byte a thread needs is
  covered by an access of that thread, the byte and thread masks of the accesses hold nothing else, and the
  accesses are aligned to their size.
\<close>

section \<open>Model\<close>

datatype cache_operator_type =
    CACHE_UNDEFINED | CACHE_ALL | CACHE_LAST_USE | CACHE_VOLATILE | CACHE_L1 | CACHE_STREAMING | CACHE_GLOBAL
  | CACHE_WRITE_BACK | CACHE_WRITE_THROUGH

record core_config =
  cfg_warp_size :: u32
  cfg_mem_warp_parts :: u32
  cfg_shmem_limited_broadcast :: bool
  cfg_num_shmem_bank :: u32
  cfg_texl1_linesize :: u32
  cfg_constl1_linesize :: u32
  cfg_coalesce_arch :: int
  cfg_gmem_skip_L1D :: bool

text \<open>The fields of \<open>warp_inst_t\<close> used here; \<open>wm_per_thread\<close> is \<open>None\<close> while \<open>m_per_scalar_thread_valid\<close> is unset, else
  it holds \<open>memreqaddr\<close> of each thread.\<close>

record warp_inst_t = inst_t +
  wm_empty :: bool
  wm_isatomic :: bool
  wm_active :: simt_mask
  wm_per_thread :: "u64 list list option"
  wm_cache_op :: cache_operator_type
  wm_data_size :: u32
  wm_mem_accesses_created :: bool
  wm_accessq :: "mem_access_t list"
  wm_cycles :: u32

definition WORD_SIZE :: u32 where "WORD_SIZE = 4"
definition MAX_MEMORY_ACCESS_SIZE :: u32 where "MAX_MEMORY_ACCESS_SIZE = 128"
definition MAX_ACCESSES_PER_INSN_PER_THREAD :: nat where "MAX_ACCESSES_PER_INSN_PER_THREAD = 8"

definition line_size_based_tag_func :: "u64 \<Rightarrow> u64 \<Rightarrow> u32" where
  "line_size_based_tag_func address line_size = ucast (address AND NOT (line_size - 1))"

definition shmem_bank_func :: "core_config \<Rightarrow> u32 \<Rightarrow> u32 res" where
  "shmem_bank_func c addr = defined (cfg_num_shmem_bank c \<noteq> 0) (Inr ((addr div WORD_SIZE) mod cfg_num_shmem_bank c))"

definition memreqaddr :: "warp_inst_t \<Rightarrow> nat \<Rightarrow> u64 list" where
  "memreqaddr i thread = (case wm_per_thread i of None \<Rightarrow> [] | Some ts \<Rightarrow> ts ! thread)"

definition active :: "warp_inst_t \<Rightarrow> nat \<Rightarrow> bool res" where
  "active i thread = (if thread < 32 then Inr (bit (wm_active i) thread) else Inl Thrown)"

text \<open>The first \<open>set_addr\<close> creates the information of the threads, with addresses 0.\<close>

definition per_thread_info :: "core_config \<Rightarrow> warp_inst_t \<Rightarrow> u64 list list" where
  "per_thread_info c i = (case wm_per_thread i of
     None \<Rightarrow> replicate (unat (cfg_warp_size c)) (replicate MAX_ACCESSES_PER_INSN_PER_THREAD 0) | Some ts \<Rightarrow> ts)"

definition set_addr1 :: "core_config \<Rightarrow> nat \<Rightarrow> u64 \<Rightarrow> warp_inst_t \<Rightarrow> warp_inst_t res" where
  "set_addr1 c n addr i =
    (let ts = per_thread_info c i in
     defined (n < length ts) (Inr (i\<lparr>wm_per_thread := Some (ts[n := (ts ! n)[0 := addr]])\<rparr>)))"

definition set_addrs :: "core_config \<Rightarrow> nat \<Rightarrow> u64 list \<Rightarrow> warp_inst_t \<Rightarrow> warp_inst_t res" where
  "set_addrs c n addrs i =
    (let ts = per_thread_info c i in
     check (length addrs \<le> MAX_ACCESSES_PER_INSN_PER_THREAD)
      (defined (n < length ts \<or> addrs = [])
        (Inr (i\<lparr>wm_per_thread := Some (ts[n := addrs @ drop (length addrs) (ts ! n)])\<rparr>))))"

definition accessq_pop_back :: "warp_inst_t \<Rightarrow> (mem_access_t \<times> warp_inst_t) res" where
  "accessq_pop_back i = defined (wm_accessq i \<noteq> []) (Inr (last (wm_accessq i), i\<lparr>wm_accessq := butlast (wm_accessq i)\<rparr>))"

definition dispatch_delay :: "warp_inst_t \<Rightarrow> bool \<times> warp_inst_t" where
  "dispatch_delay i = (let n = (if wm_cycles i > 0 then wm_cycles i - 1 else wm_cycles i) in (n > 0, i\<lparr>wm_cycles := n\<rparr>))"

subsection \<open>Coalescing\<close>

record transaction_info =
  ti_chunks :: sector_mask
  ti_bytes :: "128 word"
  ti_active :: simt_mask

definition transaction_info_new :: transaction_info where
  "transaction_info_new = \<lparr>ti_chunks = 0, ti_bytes = 0, ti_active = 0\<rparr>"

definition test_bytes :: "nat \<Rightarrow> nat \<Rightarrow> transaction_info \<Rightarrow> bool res" where
  "test_bytes start_bit end_bit info =
    (case find (\<lambda>i. i \<ge> 128 \<or> bit (ti_bytes info) i) [start_bit..<Suc end_bit] of
       None \<Rightarrow> Inr False | Some i \<Rightarrow> if i \<ge> 128 then Inl Thrown else Inr True)"

definition segment_size_for :: "core_config \<Rightarrow> warp_inst_t \<Rightarrow> u32" where
  "segment_size_for c i =
    (let sector_segment_size =
       (if cfg_coalesce_arch c \<ge> 20 \<and> cfg_coalesce_arch c < 39
        then cfg_gmem_skip_L1D c \<or> wm_cache_op i = CACHE_GLOBAL
        else cfg_coalesce_arch c \<ge> 40)
     in if wm_data_size i = 1 then 32
        else if wm_data_size i = 2 then (if sector_segment_size then 32 else 64)
        else if wm_data_size i = 4 \<or> wm_data_size i = 8 \<or> wm_data_size i = 16 then (if sector_segment_size then 32 else 128)
        else 0)"

type_synonym transactions = "(u64 \<times> transaction_info) list"

definition add_bytes :: "nat \<Rightarrow> nat \<Rightarrow> 128 word \<Rightarrow> 128 word" where
  "add_bytes idx n m = fold (\<lambda>i m. if idx + i < unat MAX_MEMORY_ACCESS_SIZE then set_bit (idx + i) m else m) [0..<n] m"

definition add_access :: "nat \<Rightarrow> u64 \<Rightarrow> nat \<Rightarrow> transaction_info \<Rightarrow> transaction_info" where
  "add_access thread addr n info =
    info\<lparr>ti_chunks := set_bit (unat (addr AND 127) div unat SECTOR_SIZE) (ti_chunks info),
         ti_active := set_bit thread (ti_active info), ti_bytes := add_bytes (unat (addr AND 127)) n (ti_bytes info)\<rparr>"

definition touch :: "u32 \<Rightarrow> nat \<Rightarrow> u64 \<Rightarrow> nat \<Rightarrow> transactions \<Rightarrow> transactions" where
  "touch block_address thread addr n txs =
    AList.update (ucast block_address)
      (add_access thread addr n (case map_of txs (ucast block_address) of None \<Rightarrow> transaction_info_new | Some info \<Rightarrow> info)) txs"

definition coalesce_access :: "u32 \<Rightarrow> nat \<Rightarrow> u32 \<Rightarrow> u64 \<Rightarrow> transactions \<Rightarrow> transactions" where
  "coalesce_access segment_size thread data_size_coales addr txs =
    (let block_address = line_size_based_tag_func addr (ucast segment_size);
         txs1 = touch block_address thread addr (unat data_size_coales) txs;
         addr' = addr + ucast data_size_coales - 1;
         block_address' = line_size_based_tag_func addr' (ucast segment_size)
     in if block_address \<noteq> block_address' then touch block_address' thread addr' (unat data_size_coales) txs1 else txs1)"

definition data_size_coales :: "warp_inst_t \<Rightarrow> u32" where
  "data_size_coales i =
    (if (in_space i = local_space \<or> in_space i = param_space_local) \<and> wm_data_size i \<ge> 4 then 4 else wm_data_size i)"

definition num_accesses :: "warp_inst_t \<Rightarrow> u32" where
  "num_accesses i =
    (if (in_space i = local_space \<or> in_space i = param_space_local) \<and> wm_data_size i \<ge> 4 then wm_data_size i div 4 else 1)"

definition thread_addrs :: "warp_inst_t \<Rightarrow> nat \<Rightarrow> u64 list" where
  "thread_addrs i thread = takeWhile (\<lambda>a. a \<noteq> 0) (take MAX_ACCESSES_PER_INSN_PER_THREAD (memreqaddr i thread))"

definition coalesce_thread :: "core_config \<Rightarrow> warp_inst_t \<Rightarrow> nat \<Rightarrow> transactions \<Rightarrow> transactions res" where
  "coalesce_thread c i thread txs =
    andThen (active i thread) (\<lambda>act. if \<not> act then Inr txs
     else check (unat (num_accesses i) \<le> MAX_ACCESSES_PER_INSN_PER_THREAD)
       (Inr (fold (coalesce_access (segment_size_for c i) thread (data_size_coales i)) (thread_addrs i thread) txs)))"

type_synonym accessq_state = "mem_access_t list \<times> world"

definition push_access :: "mem_access_type \<Rightarrow> u64 \<Rightarrow> u32 \<Rightarrow> bool \<Rightarrow> transaction_info \<Rightarrow> accessq_state \<Rightarrow> accessq_state" where
  "push_access access_type addr sz wr info st =
    (let (ma, w) = mem_access_masked access_type addr sz wr (ti_active info) (ti_bytes info) (ti_chunks info) (snd st)
     in (fst st @ [ma], w))"

text \<open>Halving the segment while one half is unused; the second step works on the halves \<open>h0\<close>, \<open>h1\<close> of 64 bytes.\<close>

definition reduce_64 :: "bool \<Rightarrow> bool \<Rightarrow> u64 \<Rightarrow> (u64 \<times> u32) res" where
  "reduce_64 h0 h1 addr =
    (if h0 \<and> \<not> h1 then Inr (addr, 32) else if \<not> h0 \<and> h1 then Inr (addr + 32, 32)
     else check (h0 \<and> h1) (Inr (addr, 64)))"

definition reduce_segment :: "sector_mask \<Rightarrow> u64 \<Rightarrow> u32 \<Rightarrow> (u64 \<times> u32) res" where
  "reduce_segment q addr segment_size =
    (if segment_size = 128 then
       (let lower_half_used = bit q 0 \<or> bit q 1; upper_half_used = bit q 2 \<or> bit q 3 in
        if lower_half_used \<and> \<not> upper_half_used then reduce_64 (bit q 0) (bit q 1) addr
        else if \<not> lower_half_used \<and> upper_half_used then reduce_64 (bit q 2) (bit q 3) (addr + 64)
        else check (lower_half_used \<and> upper_half_used) (Inr (addr, 128)))
     else if segment_size = 64 then
       if addr mod 128 = 0 then reduce_64 (bit q 0) (bit q 1) addr
       else check (addr mod 128 = 64) (reduce_64 (bit q 2) (bit q 3) addr)
     else Inr (addr, segment_size))"

definition memory_coalescing_arch_reduce_and_send ::
  "bool \<Rightarrow> mem_access_type \<Rightarrow> transaction_info \<Rightarrow> u64 \<Rightarrow> u32 \<Rightarrow> accessq_state \<Rightarrow> accessq_state res" where
  "memory_coalescing_arch_reduce_and_send wr access_type info addr segment_size st =
    check (addr AND ucast (segment_size - 1) = 0)
      (check (ti_chunks info \<noteq> 0)
        (andThen (reduce_segment (ti_chunks info) addr segment_size) (\<lambda>(addr', sz).
          Inr (push_access access_type addr' sz wr info st))))"

definition subwarp_threads :: "core_config \<Rightarrow> nat \<Rightarrow> nat list" where
  "subwarp_threads c subwarp =
    (let subwarp_size = unat (cfg_warp_size c div cfg_mem_warp_parts c)
     in [subwarp * subwarp_size..<subwarp_size * (subwarp + 1)])"

definition memory_coalescing_arch :: "core_config \<Rightarrow> warp_inst_t \<Rightarrow> bool \<Rightarrow> mem_access_type \<Rightarrow> accessq_state \<Rightarrow> accessq_state res" where
  "memory_coalescing_arch c i wr access_type st =
    defined (cfg_mem_warp_parts c \<noteq> 0)
      (foldM (\<lambda>subwarp st.
         andThen (foldM (coalesce_thread c i) (subwarp_threads c subwarp) []) (\<lambda>txs.
           foldM (\<lambda>(addr, info). memory_coalescing_arch_reduce_and_send wr access_type info addr (segment_size_for c i))
             (sort_key fst txs) st))
        [0..<unat (cfg_mem_warp_parts c)] st)"

subsection \<open>Atomics\<close>

type_synonym atomic_transactions = "(u64 \<times> transaction_info list) list"

text \<open>The first transaction of the list whose bytes do not conflict.\<close>

fun free_transaction :: "nat \<Rightarrow> nat \<Rightarrow> transaction_info list \<Rightarrow> nat option res" where
  "free_transaction lo hi [] = Inr None"
| "free_transaction lo hi (info # infos) =
    andThen (test_bytes lo hi info) (\<lambda>conflict.
      if \<not> conflict then Inr (Some 0)
      else andThen (free_transaction lo hi infos) (\<lambda>k. Inr (map_option Suc k)))"

definition claim_bytes :: "nat \<Rightarrow> nat \<Rightarrow> 128 word \<Rightarrow> 128 word res" where
  "claim_bytes idx n m =
    foldM (\<lambda>i m. if idx + i \<ge> 128 then Inl Thrown else check (\<not> bit m (idx + i)) (Inr (set_bit (idx + i) m))) [0..<n] m"

definition claim :: "nat \<Rightarrow> u64 \<Rightarrow> nat \<Rightarrow> transaction_info \<Rightarrow> transaction_info res" where
  "claim thread addr n info =
    andThen (claim_bytes (unat (addr AND 127)) n (ti_bytes info)) (\<lambda>m.
      Inr (info\<lparr>ti_chunks := set_bit (unat (addr AND 127) div 32) (ti_chunks info),
                 ti_active := set_bit thread (ti_active info), ti_bytes := m\<rparr>))"

definition atomic_thread :: "core_config \<Rightarrow> warp_inst_t \<Rightarrow> nat \<Rightarrow> atomic_transactions \<Rightarrow> atomic_transactions res" where
  "atomic_thread c i thread txs =
    andThen (active i thread) (\<lambda>act. if \<not> act then Inr txs
     else
      (let addr = memreqaddr i thread ! 0; seg = ucast (segment_size_for c i);
           block_address = line_size_based_tag_func addr seg;
           infos = (case map_of txs (ucast block_address) of None \<Rightarrow> [] | Some l \<Rightarrow> l);
           idx = unat (addr AND 127); n = unat (wm_data_size i)
       in check (block_address = line_size_based_tag_func (addr + ucast (wm_data_size i) - 1) seg)
        (andThen (free_transaction idx (unat (ucast (addr AND 127) + wm_data_size i - 1)) infos) (\<lambda>k.
          let infos' = (case k of None \<Rightarrow> infos @ [transaction_info_new] | Some _ \<Rightarrow> infos);
              j = (case k of None \<Rightarrow> length infos | Some j \<Rightarrow> j)
          in andThen (claim thread addr n (infos' ! j)) (\<lambda>info.
               Inr (AList.update (ucast block_address) (infos'[j := info]) txs))))))"

definition memory_coalescing_arch_atomic ::
  "core_config \<Rightarrow> warp_inst_t \<Rightarrow> bool \<Rightarrow> mem_access_type \<Rightarrow> accessq_state \<Rightarrow> accessq_state res" where
  "memory_coalescing_arch_atomic c i wr access_type st =
    check (in_space i = global_space)
      (defined (cfg_mem_warp_parts c \<noteq> 0)
        (foldM (\<lambda>subwarp st.
           andThen (foldM (atomic_thread c i) (subwarp_threads c subwarp) []) (\<lambda>txs.
             foldM (\<lambda>(addr, infos).
                 foldM (\<lambda>info. memory_coalescing_arch_reduce_and_send wr access_type info addr (segment_size_for c i)) infos)
               (sort_key fst txs) st))
          [0..<unat (cfg_mem_warp_parts c)] st))"

subsection \<open>Shared memory\<close>

type_synonym bank_accs = "(u32 \<times> (u64 \<times> u32) list) list"

definition count_word :: "u32 \<Rightarrow> u64 \<Rightarrow> bank_accs \<Rightarrow> bank_accs" where
  "count_word bank word accs =
    (let ws = (case map_of accs bank of None \<Rightarrow> [] | Some ws \<Rightarrow> ws);
         n = (case map_of ws word of None \<Rightarrow> 0 | Some n \<Rightarrow> n)
     in AList.update bank (AList.update word (n + 1) ws) accs)"

definition bank_thread :: "core_config \<Rightarrow> warp_inst_t \<Rightarrow> nat \<Rightarrow> bank_accs \<Rightarrow> bank_accs res" where
  "bank_thread c i thread accs =
    andThen (active i thread) (\<lambda>act. if \<not> act then Inr accs
     else
      (let addr = memreqaddr i thread ! 0 in
       andThen (shmem_bank_func c (ucast addr)) (\<lambda>bank.
         Inr (count_word bank (ucast (line_size_based_tag_func addr (ucast WORD_SIZE))) accs))))"

text \<open>The first word, in the order of banks and words, that several threads access.\<close>

definition broadcast_of :: "bank_accs \<Rightarrow> (u32 \<times> u64) option" where
  "broadcast_of accs =
    map_option (\<lambda>(b, w, n). (b, w))
      (find (\<lambda>(b, w, n). n > 1)
        (concat (map (\<lambda>(b, ws). map (\<lambda>(w, n). (b, w, n)) (sort_key fst ws)) (sort_key fst accs))))"

definition bank_accesses :: "(u32 \<times> u64) option \<Rightarrow> u32 \<times> (u64 \<times> u32) list \<Rightarrow> u32 res" where
  "bank_accesses broadcast e =
    (let acc = sum_list (map snd (snd e)) in
     case broadcast of
       Some (b, w) \<Rightarrow>
         if b = fst e then
           (case map_of (snd e) w of None \<Rightarrow> Inr acc
            | Some n \<Rightarrow> check (n > 1) (check (acc \<ge> n - 1) (Inr (acc - (n - 1)))))
         else Inr acc
     | None \<Rightarrow> Inr acc)"

definition max_bank_accesses :: "core_config \<Rightarrow> bank_accs \<Rightarrow> u32 res" where
  "max_bank_accesses c accs =
    (if cfg_shmem_limited_broadcast c
     then foldM (\<lambda>e m. andThen (bank_accesses (broadcast_of accs) e) (\<lambda>n. Inr (if n > m then n else m))) accs 0
     else Inr (fold (\<lambda>e m. max m (of_nat (length (snd e)))) accs 0))"

definition shared_accesses :: "core_config \<Rightarrow> warp_inst_t \<Rightarrow> u32 res" where
  "shared_accesses c i =
    defined (cfg_mem_warp_parts c \<noteq> 0)
      (andThen (foldM (\<lambda>subwarp total_accesses.
          andThen (foldM (bank_thread c i) (subwarp_threads c subwarp) []) (\<lambda>accs.
          andThen (max_bank_accesses c accs) (\<lambda>m. Inr (total_accesses + m))))
         [0..<unat (cfg_mem_warp_parts c)] 0)
       (\<lambda>total_accesses. check (total_accesses > 0 \<and> total_accesses \<le> cfg_warp_size c) (Inr total_accesses)))"

subsection \<open>Constant and texture memory\<close>

definition set_bytes :: "nat \<Rightarrow> nat \<Rightarrow> 128 word \<Rightarrow> 128 word res" where
  "set_bytes idx n m = foldM (\<lambda>i m. if idx + i \<ge> 128 then Inl Thrown else Inr (set_bit (idx + i) m)) [0..<n] m"

definition line_thread :: "u32 \<Rightarrow> warp_inst_t \<Rightarrow> nat \<Rightarrow> (u64 \<times> simt_mask) list \<times> 128 word \<Rightarrow> ((u64 \<times> simt_mask) list \<times> 128 word) res" where
  "line_thread cache_block_size i thread st =
    andThen (active i thread) (\<lambda>act. if \<not> act then Inr st
     else
      (let addr = memreqaddr i thread ! 0;
           block_address = line_size_based_tag_func addr (ucast cache_block_size);
           m = (case map_of (fst st) (ucast block_address) of None \<Rightarrow> 0 | Some m \<Rightarrow> m);
           idx = ucast (addr - ucast block_address) :: u32
       in andThen (set_bytes (unat idx) (unat (wm_data_size i)) (snd st)) (\<lambda>bytes.
            Inr (AList.update (ucast block_address) (set_bit thread m) (fst st), bytes))))"

definition line_accesses :: "core_config \<Rightarrow> u32 \<Rightarrow> warp_inst_t \<Rightarrow> bool \<Rightarrow> mem_access_type \<Rightarrow> accessq_state \<Rightarrow> accessq_state res" where
  "line_accesses c cache_block_size i wr access_type st =
    check (fst st = [])
      (andThen (foldM (line_thread cache_block_size i) [0..<unat (cfg_warp_size c)] ([], 0)) (\<lambda>(accesses, byte_mask).
        Inr (fold (\<lambda>(addr, m). push_access access_type addr cache_block_size wr
               \<lparr>ti_chunks = 0, ti_bytes = byte_mask, ti_active = m\<rparr>) (sort_key fst accesses) st)))"

subsection \<open>generate_mem_accesses\<close>

fun access_type_for :: "memory_space \<Rightarrow> bool \<Rightarrow> mem_access_type option res" where
  "access_type_for const_space wr = Inr (Some CONST_ACC_R)"
| "access_type_for param_space_kernel wr = Inr (Some CONST_ACC_R)"
| "access_type_for tex_space wr = Inr (Some TEXTURE_ACC_R)"
| "access_type_for global_space wr = Inr (Some (if wr then GLOBAL_ACC_W else GLOBAL_ACC_R))"
| "access_type_for local_space wr = Inr (Some (if wr then LOCAL_ACC_W else LOCAL_ACC_R))"
| "access_type_for param_space_local wr = Inr (Some (if wr then LOCAL_ACC_W else LOCAL_ACC_R))"
| "access_type_for shared_space wr = Inr None"
| "access_type_for sstarr_space wr = Inr None"
| "access_type_for _ wr = Inl Assertion"

definition generate_mem_accesses :: "core_config \<Rightarrow> warp_inst_t \<Rightarrow> world \<Rightarrow> (warp_inst_t \<times> world) res" where
  "generate_mem_accesses c i w =
    (if wm_empty i \<or> in_op i = MEMORY_BARRIER_OP \<or> wm_mem_accesses_created i \<or>
        in_op i \<notin> {LOAD_OP, TENSOR_CORE_LOAD_OP, STORE_OP, TENSOR_CORE_STORE_OP} \<or> wm_active i = 0
     then Inr (i, w)
     else check (is_load i \<or> is_store i) (check (wm_per_thread i \<noteq> None)
      (let wr = is_store i; st = (wm_accessq i, w) in
       andThen (access_type_for (in_space i) wr) (\<lambda>access_type.
        case access_type of
          None \<Rightarrow> andThen (shared_accesses c i) (\<lambda>n. Inr (i\<lparr>wm_cycles := n, wm_mem_accesses_created := True\<rparr>, w))
        | Some ty \<Rightarrow>
           andThen
             (if in_space i \<in> {global_space, local_space, param_space_local} then
                if cfg_coalesce_arch c \<ge> 13
                then if wm_isatomic i then memory_coalescing_arch_atomic c i wr ty st else memory_coalescing_arch c i wr ty st
                else Inl Abort
              else
               (let cache_block_size = (if in_space i = tex_space then cfg_texl1_linesize c else cfg_constl1_linesize c)
                in if cache_block_size \<noteq> 0 then line_accesses c cache_block_size i wr ty st else Inr st))
             (\<lambda>(q, w'). Inr (i\<lparr>wm_accessq := q, wm_mem_accesses_created := True\<rparr>, w'))))))"

section \<open>Addresses, segments and chunks\<close>

definition segment :: "u32 \<Rightarrow> bool" where
  "segment seg \<longleftrightarrow> seg \<in> {32, 64, 128}"

lemma unat_take_bit: "unat (take_bit k a) = unat (a :: u64) mod 2 ^ k"
  by (subst unsigned_take_bit_eq) (simp only: take_bit_eq_mod)

lemma and_not_pow:
  fixes a :: u64
  shows "unat (a AND NOT (2 ^ k - 1)) = unat a div 2 ^ k * 2 ^ k"
proof -
  have "a AND NOT (mask k) = push_bit k (drop_bit k a)"
    by (rule bit_eqI) (auto simp: bit_simps)
  also have "\<dots> = a - take_bit k a" using bits_ident [of k a] by (metis add_diff_cancel_right')
  finally have e: "a AND NOT (2 ^ k - 1) = a - take_bit k a" by (simp add: mask_eq_exp_minus_1)
  note t = unat_take_bit [of k a]
  have "take_bit k a \<le> a" unfolding word_le_nat_alt t by simp
  then have "unat (a - take_bit k a) = unat a - unat a mod 2 ^ k" using t by (simp add: unat_sub)
  then show ?thesis unfolding e by (simp add: minus_mod_eq_div_mult)
qed

lemma tag_nat:
  assumes "segment seg" and "unat a < 2 ^ 32"
  shows "unat (line_size_based_tag_func a (ucast seg)) = unat a div unat seg * unat seg"
proof -
  obtain k where k: "(ucast seg :: u64) = 2 ^ k" "unat seg = 2 ^ k"
  proof -
    have "(ucast seg :: u64) = 2 ^ 5 \<and> unat seg = 2 ^ 5 \<or> (ucast seg :: u64) = 2 ^ 6 \<and> unat seg = 2 ^ 6 \<or>
        (ucast seg :: u64) = 2 ^ 7 \<and> unat seg = 2 ^ 7" using assms(1) by (auto simp: segment_def)
    then show thesis using that by blast
  qed
  have le: "unat a div 2 ^ k * 2 ^ k \<le> unat a" by simp
  have "unat (line_size_based_tag_func a (ucast seg)) = unat (a AND NOT (2 ^ k - 1)) mod 2 ^ 32"
    unfolding line_size_based_tag_func_def k(1) by (simp add: unsigned_ucast_eq take_bit_eq_mod)
  also have "\<dots> = unat a div 2 ^ k * 2 ^ k" unfolding and_not_pow using le assms(2) by (intro mod_less) linarith
  finally show ?thesis by (simp only: k(2))
qed

lemma and_127: "unat (a AND 127 :: u64) = unat a mod 128"
proof -
  have "a AND 127 = take_bit 7 a" by (simp add: take_bit_eq_mask mask_eq_exp_minus_1)
  then have "unat (a AND 127) = unat a mod 2 ^ 7" by (simp only: unat_take_bit)
  then show ?thesis by simp
qed

lemma last_byte_same_block:
  fixes a :: nat
  assumes "n dvd a" and "n dvd s" and "0 < n"
  shows "(a + n - 1) div s = a div s"
proof -
  obtain q m where q: "a = n * q" "s = n * m" using assms by (auto elim!: dvdE)
  have "((n - 1) + n * q) div n = q" using assms(3) by (subst div_mult_self2) simp_all
  moreover have "a + n - 1 = (n - 1) + n * q" using q assms(3) by simp
  ultimately have "(a + n - 1) div s = q div m" using q by (simp add: div_mult2_eq)
  then show ?thesis using q assms(3) by simp
qed

text \<open>The access sizes that the instruction set has.\<close>

definition access_size :: "u32 \<Rightarrow> bool" where
  "access_size n \<longleftrightarrow> n \<in> {1, 2, 4, 8, 16}"

definition aligned :: "u32 \<Rightarrow> u64 \<Rightarrow> bool" where
  "aligned n a \<longleftrightarrow> unat n dvd unat a \<and> unat a < 2 ^ 32"

lemma access_size_dvd: "access_size n \<Longrightarrow> unat n dvd 32 \<and> 0 < unat n"
  by (auto simp: access_size_def)

lemma segment_dvd: "segment seg \<Longrightarrow> 32 dvd unat seg"
  by (auto simp: segment_def)

lemma unat_last_byte:
  assumes "access_size n" and "aligned n a"
  shows "unat (a + ucast n - 1) = unat a + unat n - 1" and "unat a + unat n - 1 < 2 ^ 32"
proof -
  have d: "unat n dvd 2 ^ 32" "0 < unat n" "unat n \<le> 16" using assms(1) by (auto simp: access_size_def)
  have "unat a + unat n \<le> 2 ^ 32"
    using assms(2) d(1,2) unfolding aligned_def by (metis dvd_add_right_iff dvd_imp_le dvd_minus_self add.commute le_add_diff_inverse less_imp_le_nat nat_dvd_not_less zero_less_diff le_diff_conv2 not_le_imp_less)
  then show "unat a + unat n - 1 < 2 ^ 32" using d(2) by linarith
  have n: "unat (ucast n :: u64) = unat n" using d(3) by (subst unsigned_ucast_eq, intro take_bit_nat_eq_self) simp
  have s: "unat (a + ucast n) = unat a + unat n"
    using \<open>unat a + unat n \<le> 2 ^ 32\<close> n unat_add_lem [of a "ucast n"] by simp
  then have "unat (a + ucast n - 1) = unat (a + ucast n) - 1"
    using d(2) by (subst unat_minus_one) auto
  then show "unat (a + ucast n - 1) = unat a + unat n - 1" using s by simp
qed

lemma coalesce_access_aligned:
  assumes "segment seg" and "access_size n" and "aligned n a"
  shows "coalesce_access seg t n a txs = touch (line_size_based_tag_func a (ucast seg)) t a (unat n) txs"
proof -
  have "unat n dvd unat seg" using access_size_dvd [OF assms(2)] segment_dvd [OF assms(1)] by (blast intro: dvd_trans)
  then have "(unat a + unat n - 1) div unat seg = unat a div unat seg"
    using assms(3) access_size_dvd [OF assms(2)] by (intro last_byte_same_block) (auto simp: aligned_def)
  then have "unat (line_size_based_tag_func (a + ucast n - 1) (ucast seg)) = unat (line_size_based_tag_func a (ucast seg))"
    using tag_nat [OF assms(1)] unat_last_byte [OF assms(2,3)] assms(3) by (simp add: aligned_def)
  then have "line_size_based_tag_func (a + ucast n - 1) (ucast seg) = line_size_based_tag_func a (ucast seg)"
    by (simp only: word_unat_eq_iff)
  then show ?thesis by (simp add: coalesce_access_def Let_def)
qed

section \<open>Transactions\<close>

text \<open>\<open>T\<close> lists the accesses of a subwarp, thread and address.  The transactions hold exactly them.\<close>

type_synonym touches = "(nat \<times> u64) list"

definition in_block :: "u32 \<Rightarrow> touches \<Rightarrow> u64 \<Rightarrow> nat \<Rightarrow> u64 \<Rightarrow> bool" where
  "in_block seg T B t a \<longleftrightarrow> (t, a) \<in> set T \<and> ucast (line_size_based_tag_func a (ucast seg)) = B"

definition info_ok :: "u32 \<Rightarrow> nat \<Rightarrow> touches \<Rightarrow> u64 \<Rightarrow> transaction_info \<Rightarrow> bool" where
  "info_ok seg n T B info \<longleftrightarrow>
    (\<exists>t a. in_block seg T B t a) \<and>
    (\<forall>k. bit (ti_chunks info) k \<longleftrightarrow> (\<exists>t a. in_block seg T B t a \<and> unat a mod 128 div 32 = k)) \<and>
    (\<forall>b. bit (ti_bytes info) b \<longleftrightarrow> b < 128 \<and> (\<exists>t a. in_block seg T B t a \<and> unat a mod 128 \<le> b \<and> b < unat a mod 128 + n)) \<and>
    (\<forall>t. bit (ti_active info) t \<longleftrightarrow> (\<exists>a. in_block seg T B t a))"

definition txs_ok :: "u32 \<Rightarrow> nat \<Rightarrow> touches \<Rightarrow> transactions \<Rightarrow> bool" where
  "txs_ok seg n T txs \<longleftrightarrow> distinct (map fst txs) \<and>
    (\<forall>B. case map_of txs B of None \<Rightarrow> (\<forall>t a. \<not> in_block seg T B t a) | Some info \<Rightarrow> info_ok seg n T B info)"

lemma bit_add_bytes: "bit (add_bytes idx n m) b \<longleftrightarrow> bit m b \<or> b < 128 \<and> idx \<le> b \<and> b < idx + n"
proof (induction n)
  case (Suc n)
  have "add_bytes idx (Suc n) m = (if idx + n < 128 then set_bit (idx + n) (add_bytes idx n m) else add_bytes idx n m)"
    by (simp add: add_bytes_def MAX_MEMORY_ACCESS_SIZE_def)
  then show ?case using Suc by (auto simp: bit_simps)
qed (auto simp: add_bytes_def)

lemma in_block_snoc:
  "in_block seg (T @ [(t, a)]) B t' a' \<longleftrightarrow>
    in_block seg T B t' a' \<or> t' = t \<and> a' = a \<and> ucast (line_size_based_tag_func a (ucast seg)) = B"
  by (auto simp: in_block_def)

lemma ex_one_more:
  "(\<exists>t' a'. (P t' a' \<or> t' = t \<and> a' = a) \<and> Q a') \<longleftrightarrow> (\<exists>t' a'. P t' a' \<and> Q a') \<or> Q a"
  "(\<exists>t' a'. P t' a' \<or> t' = t \<and> a' = a) \<longleftrightarrow> True"
  "(\<exists>a'. P t' a' \<or> t' = t \<and> a' = a) \<longleftrightarrow> (\<exists>a'. P t' a') \<or> t' = t"
  by blast+

lemma info_ok_add:
  assumes old: "info_ok seg n T B info \<or> info = transaction_info_new \<and> (\<forall>t a. \<not> in_block seg T B t a)"
    and B: "B = ucast (line_size_based_tag_func a (ucast seg))" and t: "t < 32"
  shows "info_ok seg n (T @ [(t, a)]) B (add_access t a n info)"
proof -
  have snoc: "in_block seg (T @ [(t, a)]) B t' a' \<longleftrightarrow> in_block seg T B t' a' \<or> t' = t \<and> a' = a" for t' a'
    using B by (auto simp: in_block_snoc)
  have c: "bit (ti_chunks info) k \<longleftrightarrow> (\<exists>t a. in_block seg T B t a \<and> unat a mod 128 div 32 = k)" for k
    using old unfolding info_ok_def by (elim disjE conjE) (simp_all add: transaction_info_new_def)
  have b: "bit (ti_bytes info) x \<longleftrightarrow> x < 128 \<and> (\<exists>t a. in_block seg T B t a \<and> unat a mod 128 \<le> x \<and> x < unat a mod 128 + n)" for x
    using old unfolding info_ok_def by (elim disjE conjE) (simp_all add: transaction_info_new_def)
  have act: "bit (ti_active info) t' \<longleftrightarrow> (\<exists>a. in_block seg T B t' a)" for t'
    using old unfolding info_ok_def by (elim disjE conjE) (simp_all add: transaction_info_new_def)
  have k4: "unat a mod 128 div 32 < 4" by (simp add: less_mult_imp_div_less)
  have "bit (ti_chunks (add_access t a n info)) k \<longleftrightarrow> bit (ti_chunks info) k \<or> unat a mod 128 div 32 = k" for k
    using k4 by (auto simp: add_access_def and_127 SECTOR_SIZE_def bit_simps)
  moreover have "bit (ti_bytes (add_access t a n info)) x \<longleftrightarrow>
      bit (ti_bytes info) x \<or> x < 128 \<and> unat a mod 128 \<le> x \<and> x < unat a mod 128 + n" for x
    by (simp add: add_access_def and_127 bit_add_bytes)
  moreover have "bit (ti_active (add_access t a n info)) t' \<longleftrightarrow> bit (ti_active info) t' \<or> t' = t" for t'
    using t by (auto simp: add_access_def bit_simps)
  ultimately show ?thesis unfolding info_ok_def snoc ex_one_more by (simp add: c b act conj_disj_distribL, blast)
qed

lemma info_ok_other:
  "B \<noteq> ucast (line_size_based_tag_func a (ucast seg)) \<Longrightarrow> info_ok seg n (T @ [(t, a)]) B info = info_ok seg n T B info"
proof -
  assume "B \<noteq> ucast (line_size_based_tag_func a (ucast seg))"
  then have "in_block seg (T @ [(t, a)]) B = in_block seg T B" by (auto simp: in_block_snoc fun_eq_iff)
  then show ?thesis by (simp add: info_ok_def)
qed

lemma touch_ok:
  assumes ok: "txs_ok seg n T txs" and t: "t < 32"
  shows "txs_ok seg n (T @ [(t, a)]) (touch (line_size_based_tag_func a (ucast seg)) t a n txs)"
proof -
  let ?B = "ucast (line_size_based_tag_func a (ucast seg)) :: u64"
  let ?old = "case map_of txs ?B of None \<Rightarrow> transaction_info_new | Some info \<Rightarrow> info"
  have m: "map_of (touch (line_size_based_tag_func a (ucast seg)) t a n txs) = (map_of txs)(?B \<mapsto> add_access t a n ?old)"
    by (simp add: touch_def update_conv')
  have each: "case map_of txs B of None \<Rightarrow> (\<forall>t a. \<not> in_block seg T B t a) | Some info \<Rightarrow> info_ok seg n T B info" for B
    using ok by (simp add: txs_ok_def)
  have new: "info_ok seg n (T @ [(t, a)]) ?B (add_access t a n ?old)"
    using each [of ?B] by (intro info_ok_add [OF _ refl t]) (auto split: option.splits)
  have "case map_of (touch (line_size_based_tag_func a (ucast seg)) t a n txs) B of
      None \<Rightarrow> (\<forall>t' a'. \<not> in_block seg (T @ [(t, a)]) B t' a') | Some info \<Rightarrow> info_ok seg n (T @ [(t, a)]) B info" for B
  proof (cases "B = ?B")
    case True
    then show ?thesis using new by (simp add: m)
  next
    case False
    then show ?thesis using each [of B] info_ok_other [OF False, of n T t]
      by (auto simp: m in_block_snoc split: option.splits)
  qed
  moreover have "distinct (map fst (touch (line_size_based_tag_func a (ucast seg)) t a n txs))"
    using ok unfolding touch_def txs_ok_def by (simp add: distinct_update)
  ultimately show ?thesis by (simp add: txs_ok_def)
qed

lemma coalesce_addrs_ok:
  assumes "segment seg" and "access_size n" and "t < 32" and "txs_ok seg (unat n) T txs" and "\<forall>a \<in> set as'. aligned n a"
  shows "txs_ok seg (unat n) (T @ map (Pair t) as') (fold (coalesce_access seg t n) as' txs)"
  using assms(4,5)
proof (induction as' arbitrary: T txs)
  case (Cons a as')
  have "txs_ok seg (unat n) (T @ [(t, a)]) (coalesce_access seg t n a txs)"
    using Cons.prems touch_ok [OF _ assms(3)] coalesce_access_aligned [OF assms(1,2)] by simp
  from Cons.IH [OF this] Cons.prems(2) show ?case by simp
qed simp

section \<open>Reducing a segment\<close>

text \<open>The chunks of 32 bytes that \<open>q\<close> marks in the line of 128 bytes of \<open>B\<close>, inside \<open>[lo, lo + size)\<close>.\<close>

definition chunks_within :: "sector_mask \<Rightarrow> nat \<Rightarrow> nat \<Rightarrow> nat \<Rightarrow> bool" where
  "chunks_within q B lo sz \<longleftrightarrow> (\<forall>k < 4. bit q k \<longrightarrow> lo \<le> B div 128 * 128 + 32 * k \<and> B div 128 * 128 + 32 * k + 32 \<le> lo + sz)"

lemma all_four: "(\<forall>k < 4. P k) \<longleftrightarrow> P 0 \<and> P 1 \<and> P 2 \<and> P (3 :: nat)"
  by (auto simp: numeral_eq_Suc less_Suc_eq)

lemma some_chunk: "q \<noteq> 0 \<Longrightarrow> bit q 0 \<or> bit q 1 \<or> bit q 2 \<or> bit (q :: sector_mask) 3"
proof (rule ccontr)
  assume "q \<noteq> 0" and n: "\<not> (bit q 0 \<or> bit q 1 \<or> bit q 2 \<or> bit q 3)"
  have "\<not> bit q k" for k
    using n bit_imp_le_length [of q k] all_four [of "\<lambda>k. \<not> bit q k"] by auto
  then have "q = 0" by (intro bit_eqI) simp
  with \<open>q \<noteq> 0\<close> show False by simp
qed

definition reduced :: "sector_mask \<Rightarrow> u64 \<Rightarrow> nat \<Rightarrow> u64 \<Rightarrow> u32 \<Rightarrow> bool" where
  "reduced q B s addr sz \<longleftrightarrow> segment sz \<and> unat sz \<le> s \<and> unat sz dvd unat addr \<and> chunks_within q (unat B) (unat addr) (unat sz)"

lemma reduce_64_ok:
  assumes "unat addr mod 64 = 0" and "unat addr < 2 ^ 40" and "h0 \<or> h1"
  obtains A sz where "reduce_64 h0 h1 addr = Inr (A, sz)" and "segment sz" and "unat sz \<le> 64" and "unat sz dvd unat A"
    and "h0 \<longrightarrow> unat A \<le> unat addr \<and> unat addr + 32 \<le> unat A + unat sz"
    and "h1 \<longrightarrow> unat A \<le> unat addr + 32 \<and> unat addr + 64 \<le> unat A + unat sz"
proof -
  have u: "unat (addr + 32) = unat addr + 32" using assms(2) unat_add_lem [of addr 32] by simp
  have d: "64 dvd unat addr" using assms(1) by (simp add: mod_eq_0_iff_dvd)
  have "(32 :: nat) dvd 64" by simp
  then have d': "32 dvd unat addr" using d by (rule dvd_trans)
  consider "h0" "h1" | "h0" "\<not> h1" | "\<not> h0" "h1" using assms(3) by blast
  then show thesis
  proof cases
    case 1
    then show thesis using d by (intro that [of addr 64]) (simp_all add: reduce_64_def segment_def)
  next
    case 2
    then show thesis using d' by (intro that [of addr 32]) (simp_all add: reduce_64_def segment_def)
  next
    case 3
    then show thesis using d' u by (intro that [of "addr + 32" 32]) (simp_all add: reduce_64_def segment_def)
  qed
qed

lemma reduce_line_ok:
  assumes "128 dvd unat B" and "unat B < 2 ^ 32" and "q \<noteq> 0"
  shows "\<exists>A sz. reduce_segment q B 128 = Inr (A, sz) \<and> reduced q B 128 A sz"
proof -
  let ?b = "unat B"
  have l: "?b div 128 * 128 = ?b" "64 dvd ?b" using assms(1) by (auto elim!: dvdE)
  have m: "?b mod 64 = 0" "unat (B + 64) mod 64 = 0" and u: "unat (B + 64) = ?b + 64"
    using l(2) assms(2) unat_add_lem [of B 64] by (simp_all add: mod_eq_0_iff_dvd)
  note cw = reduced_def chunks_within_def all_four l(1)
  consider (low) "bit q 0 \<or> bit q 1" "\<not> bit q 2" "\<not> bit q 3" | (high) "bit q 2 \<or> bit q 3" "\<not> bit q 0" "\<not> bit q 1"
    | (both) "bit q 0 \<or> bit q 1" "bit q 2 \<or> bit q 3" using some_chunk [OF assms(3)] by blast
  then show ?thesis
  proof cases
    case low
    have r: "reduce_segment q B 128 = reduce_64 (bit q 0) (bit q 1) B" using low by (simp add: reduce_segment_def Let_def)
    have "?b < 2 ^ 40" using assms(2) by simp
    then show ?thesis unfolding r
      by (rule reduce_64_ok [OF m(1) _ low(1)]) (use low(2,3) in \<open>simp add: cw add.commute\<close>)
  next
    case high
    have r: "reduce_segment q B 128 = reduce_64 (bit q 2) (bit q 3) (B + 64)" using high by (auto simp: reduce_segment_def Let_def)
    have "unat (B + 64) < 2 ^ 40" using assms(2) u by simp
    then show ?thesis unfolding r
      by (rule reduce_64_ok [OF m(2) _ high(1)]) (use high(2,3) u in \<open>simp add: cw add.commute\<close>)
  next
    case both
    then have "reduce_segment q B 128 = Inr (B, 128)" by (auto simp: reduce_segment_def Let_def)
    then show ?thesis using assms(1) by (simp add: cw segment_def)
  qed
qed

lemma half_line:
  fixes b :: nat
  assumes "b mod 64 = 0" and "b mod 128 \<noteq> 0"
  shows "b mod 128 = 64" and "b div 128 * 128 + 64 = b"
proof -
  obtain c where c: "b = 64 * c" using assms(1) by (auto simp: mod_eq_0_iff_dvd)
  have "b mod 128 = 64 * (c mod 2)" using mult_mod_right [of 64 c 2] c by simp
  then show "b mod 128 = 64" using assms(2) by (cases "even c") (simp_all add: odd_iff_mod_2_eq_one)
  then show "b div 128 * 128 + 64 = b" by (metis div_mult_mod_eq)
qed

lemma reduce_half_line_ok:
  assumes "64 dvd unat B" and "unat B < 2 ^ 32" and "q \<noteq> 0" and within: "chunks_within q (unat B) (unat B) 64"
  shows "\<exists>A sz. reduce_segment q B 64 = Inr (A, sz) \<and> reduced q B 64 A sz"
proof -
  let ?b = "unat B"
  have b64: "?b mod 64 = 0" and lt: "?b < 2 ^ 40" using assms(1,2) by (simp_all add: mod_eq_0_iff_dvd)
  have m: "unat (B mod 128) = ?b mod 128" by (simp add: unat_mod_distrib)
  show ?thesis
  proof (cases "?b mod 128 = 0")
    case z: True
    then have l: "?b div 128 * 128 = ?b" by (simp flip: minus_mod_eq_div_mult)
    note cw = reduced_def chunks_within_def all_four l
    have no: "\<not> bit q 2" "\<not> bit q 3" using within by (auto simp: cw)
    then have h: "bit q 0 \<or> bit q 1" using some_chunk [OF assms(3)] by blast
    have "B mod 128 = 0" using m z by (simp add: unat_eq_zero)
    then have r: "reduce_segment q B 64 = reduce_64 (bit q 0) (bit q 1) B" by (simp add: reduce_segment_def)
    show ?thesis unfolding r by (rule reduce_64_ok [OF b64 lt h]) (use no in \<open>simp add: cw add.commute\<close>)
  next
    case False
    note z = half_line(1) [OF b64 False]
    obtain L where l: "?b div 128 * 128 = L" "?b = L + 64" using half_line(2) [OF b64 False] by metis
    have cw: "chunks_within q ?b lo sz \<longleftrightarrow>
        (bit q 0 \<longrightarrow> lo \<le> L \<and> L + 32 \<le> lo + sz) \<and> (bit q 1 \<longrightarrow> lo \<le> L + 32 \<and> L + 64 \<le> lo + sz) \<and>
        (bit q 2 \<longrightarrow> lo \<le> L + 64 \<and> L + 96 \<le> lo + sz) \<and> (bit q 3 \<longrightarrow> lo \<le> L + 96 \<and> L + 128 \<le> lo + sz)" for lo sz
      unfolding chunks_within_def all_four l(1) by (simp add: add.commute)
    have w: "bit q 0 \<Longrightarrow> ?b \<le> L" "bit q 1 \<Longrightarrow> ?b \<le> L + 32" using within unfolding cw by blast+
    have no: "\<not> bit q 0" "\<not> bit q 1"
    proof -
      show "\<not> bit q 0"
      proof
        assume "bit q 0"
        from w(1) [OF this] l(2) show False by linarith
      qed
      show "\<not> bit q 1"
      proof
        assume "bit q 1"
        from w(2) [OF this] l(2) show False by linarith
      qed
    qed
    then have h: "bit q 2 \<or> bit q 3" using some_chunk [OF assms(3)] by blast
    have "unat (B mod 128) = unat (64 :: u64)" using m z by simp
    then have "B mod 128 = 64" by (simp only: word_unat_eq_iff)
    then have r: "reduce_segment q B 64 = reduce_64 (bit q 2) (bit q 3) B" by (simp add: reduce_segment_def)
    obtain A sz where a: "reduce_64 (bit q 2) (bit q 3) B = Inr (A, sz)" "segment sz" "unat sz \<le> 64" "unat sz dvd unat A"
      and ab: "bit q 2 \<longrightarrow> unat A \<le> ?b \<and> ?b + 32 \<le> unat A + unat sz" "bit q 3 \<longrightarrow> unat A \<le> ?b + 32 \<and> ?b + 64 \<le> unat A + unat sz"
      by (rule reduce_64_ok [OF b64 lt h])
    have "bit q 2 \<Longrightarrow> unat A \<le> L + 64 \<and> L + 96 \<le> unat A + unat sz" "bit q 3 \<Longrightarrow> unat A \<le> L + 96 \<and> L + 128 \<le> unat A + unat sz"
      using ab l(2) by linarith+
    then have "chunks_within q ?b (unat A) (unat sz)" unfolding cw using no by blast
    then show ?thesis unfolding r reduced_def using a by blast
  qed
qed

lemma reduce_segment_ok:
  assumes seg: "segment seg" and B: "unat seg dvd unat B" "unat B < 2 ^ 32" and q: "q \<noteq> 0"
    and within: "chunks_within q (unat B) (unat B) (unat seg)"
  shows "\<exists>A sz. reduce_segment q B seg = Inr (A, sz) \<and> reduced q B (unat seg) A sz"
proof -
  consider "seg = 32" | "seg = 64" | "seg = 128" using seg by (auto simp: segment_def)
  then show ?thesis
  proof cases
    case 1
    then show ?thesis using B(1) within by (simp add: reduce_segment_def reduced_def segment_def)
  next
    case 2
    then show ?thesis using reduce_half_line_ok [OF _ B(2) q] B(1) within by simp
  next
    case 3
    then show ?thesis using reduce_line_ok [OF _ B(2) q] B(1) by simp
  qed
qed

section \<open>The accesses of a warp\<close>

text \<open>An access of a warp holds a thread's access of \<open>n\<close> bytes at \<open>a\<close>; it covers it when it names the thread and the
  bytes; it is tight when it is aligned and names nothing else.\<close>

definition holds :: "nat \<Rightarrow> mem_access_t \<Rightarrow> u64 \<Rightarrow> bool" where
  "holds n x a \<longleftrightarrow> unat (ma_addr x) \<le> unat a \<and> unat a + n \<le> unat (ma_addr x) + unat (ma_req_size x)"

definition covers :: "nat \<Rightarrow> mem_access_t \<Rightarrow> nat \<Rightarrow> u64 \<Rightarrow> bool" where
  "covers n x t a \<longleftrightarrow> bit (ma_warp_mask x) t \<and> holds n x a \<and> (\<forall>i < n. bit (ma_byte_mask x) ((unat a + i) mod 128))"

definition tight :: "nat \<Rightarrow> touches \<Rightarrow> mem_access_t \<Rightarrow> bool" where
  "tight n T x \<longleftrightarrow> ma_req_size x \<in> {32, 64, 128} \<and> unat (ma_req_size x) dvd unat (ma_addr x) \<and>
    (\<forall>t. bit (ma_warp_mask x) t \<longrightarrow> (\<exists>a. (t, a) \<in> set T \<and> holds n x a)) \<and>
    (\<forall>b. bit (ma_byte_mask x) b \<longrightarrow> (\<exists>t a. (t, a) \<in> set T \<and> bit (ma_warp_mask x) t \<and> holds n x a \<and>
       unat a mod 128 \<le> b \<and> b < unat a mod 128 + n))"

lemma chunk_position:
  fixes a :: nat
  shows "a div 128 * 128 + 32 * (a mod 128 div 32) = a div 32 * 32"
proof -
  have m: "a mod (32 * 4) = 32 * (a div 32 mod 4) + a mod 32" by (rule mod_mult2_eq)
  then have c: "a mod 128 div 32 = a div 32 mod 4" by simp
  have "a div (32 * 4) = a div 32 div 4" by (rule div_mult2_eq)
  then have e: "a div 128 * 128 = (a div 32 div 4 * 4) * 32" by simp
  have "a div 128 * 128 + 32 * (a mod 128 div 32) = (a div 32 div 4 * 4 + a div 32 mod 4) * 32"
    unfolding c e add_mult_distrib by (simp only: mult.commute)
  also have "\<dots> = a div 32 * 32" by (simp only: div_mult_mod_eq)
  finally show ?thesis .
qed

lemma segment_position:
  fixes a :: nat
  assumes "s \<in> {32, 64, 128}"
  shows "a div s * s div 128 = a div 128" and "a div s * s \<le> a div 32 * 32" and "a div 32 * 32 + 32 \<le> a div s * s + s"
proof -
  obtain m k where m: "s = 32 * m" "128 = s * k" "0 < m" "0 < k" using assms by (auto intro: that [of 1 4] that [of 2 2] that [of 4 1])
  have d: "a div s = a div 32 div m" unfolding m(1) by (rule div_mult2_eq)
  have "a div s * s div 128 = a div s * s div s div k" unfolding m(2) by (rule div_mult2_eq)
  also have "\<dots> = a div s div k" using assms by (subst nonzero_mult_div_cancel_right) auto
  also have "\<dots> = a div 128" unfolding m(2) by (rule div_mult2_eq [symmetric])
  finally show "a div s * s div 128 = a div 128" .
  have "a div s * s = (a div 32 div m * m) * 32" unfolding d unfolding m(1) by (simp only: mult.assoc mult.commute)
  then show "a div s * s \<le> a div 32 * 32" by simp
  have "a div 32 < (a div 32 div m + 1) * m" using m(3) dividend_less_div_times [of m "a div 32"] by simp
  then have "a div 32 + 1 \<le> (a div 32 div m + 1) * m" by simp
  then have "(a div 32 + 1) * 32 \<le> (a div 32 div m + 1) * m * 32" by (rule mult_le_mono1)
  then show "a div 32 * 32 + 32 \<le> a div s * s + s" unfolding d unfolding m(1) by (simp add: algebra_simps)
qed

lemma aligned_in_chunk:
  fixes a :: nat
  assumes "n dvd 32" and "n dvd a" and "0 < n"
  shows "a + n \<le> a div 32 * 32 + 32" and "a mod 128 + n \<le> 128"
proof -
  have le: "x + n \<le> x div k * k + k" if "n dvd k" "n dvd x" "0 < k" for x k
  proof -
    have "x mod k + n \<le> k"
    proof -
      have "n dvd x mod k" using that(1,2) by (simp add: dvd_mod)
      then have "n dvd k - x mod k" using that(1) by (simp add: dvd_diff_nat)
      moreover have "x mod k < k" using that(3) by simp
      ultimately have "n \<le> k - x mod k" by (intro dvd_imp_le) simp_all
      then show ?thesis using \<open>x mod k < k\<close> by linarith
    qed
    then show ?thesis using div_mult_mod_eq [of x k] by linarith
  qed
  show "a + n \<le> a div 32 * 32 + 32" using le [of 32 a] assms by simp
  have "n dvd 128" using assms(1) by (rule dvd_trans) simp
  then have "a + n \<le> a div 128 * 128 + 128" using le [of 128 a] assms by simp
  then show "a mod 128 + n \<le> 128" using div_mult_mod_eq [of a 128] by linarith
qed

lemma foldM_appends:
  assumes "\<And>x q w. x \<in> set xs \<Longrightarrow> \<exists>q' w'. f x (q, w) = Inr (q @ q', w') \<and> P x q'"
  shows "\<exists>qs w'. foldM f xs (q, w) = Inr (q @ concat qs, w') \<and> list_all2 P xs qs"
  using assms
proof (induction xs arbitrary: q w)
  case (Cons x xs)
  obtain q' w' where 1: "f x (q, w) = Inr (q @ q', w')" "P x q'" using Cons.prems [of x q w] by auto
  obtain qs w'' where "foldM f xs (q @ q', w') = Inr ((q @ q') @ concat qs, w'')" "list_all2 P xs qs"
    using Cons.IH [of "q @ q'" w'] Cons.prems by (metis list.set_intros(2))
  then show ?case using 1 by (intro exI [of _ "q' # qs"] exI [of _ w'']) simp
qed simp

definition accesses_ok :: "u32 \<Rightarrow> touches \<Rightarrow> bool" where
  "accesses_ok n T \<longleftrightarrow> access_size n \<and> (\<forall>(t, a) \<in> set T. t < 32 \<and> aligned n a)"

lemma block_position:
  assumes "segment seg" and "accesses_ok n T" and "in_block seg T B t a"
  shows "unat B = unat a div unat seg * unat seg"
proof -
  have "unat a < 2 ^ 32" using assms(2,3) by (auto simp: accesses_ok_def in_block_def aligned_def)
  moreover have "unat B = unat (line_size_based_tag_func a (ucast seg))"
    using assms(3) unat_widen by (auto simp: in_block_def)
  ultimately show ?thesis using tag_nat [OF assms(1)] by simp
qed

lemma send_ok:
  assumes seg: "segment seg" and T: "accesses_ok n T" and info: "info_ok seg (unat n) T B info"
  shows "\<exists>x w'. memory_coalescing_arch_reduce_and_send wr ty info B seg (q, w) = Inr (q @ [x], w') \<and>
    ma_type x = ty \<and> ma_write x = wr \<and> tight (unat n) T x \<and> (\<forall>t a. in_block seg T B t a \<longrightarrow> covers (unat n) x t a)"
proof -
  let ?q = "ti_chunks info"
  have n: "unat n dvd 32" "0 < unat n" using T access_size_dvd by (auto simp: accesses_ok_def)
  have s3: "unat seg \<in> {32, 64, 128}" using seg by (auto simp: segment_def)
  have pos: "unat B = unat a div unat seg * unat seg" "unat B div 128 * 128 = unat a div 128 * 128" if "in_block seg T B t a" for t a
    using block_position [OF seg T that] segment_position(1) [OF s3, of "unat a"] by simp_all
  obtain t0 a0 where ib0: "in_block seg T B t0 a0" using info by (auto simp: info_ok_def)
  have "unat a0 < 2 ^ 32" using ib0 T by (auto simp: in_block_def accesses_ok_def aligned_def)
  moreover have "unat a0 div unat seg * unat seg \<le> unat a0" by simp
  ultimately have B: "unat seg dvd unat B" "unat B < 2 ^ 32" using pos(1) [OF ib0] by (simp, linarith)
  have chunk: "bit ?q (unat a mod 128 div 32)" if "in_block seg T B t a" for t a using info that by (auto simp: info_ok_def)
  then have q0: "?q \<noteq> 0" using ib0 by fastforce
  have "chunks_within ?q (unat B) (unat B) (unat seg)" unfolding chunks_within_def
  proof (intro allI impI)
    fix k assume "k < 4" and "bit ?q k"
    then obtain t a where k: "in_block seg T B t a" "unat a mod 128 div 32 = k" using info by (auto simp: info_ok_def)
    then have "unat B div 128 * 128 + 32 * k = unat a div 32 * 32" using pos(2) [OF k(1)] chunk_position [of "unat a"] by simp
    then show "unat B \<le> unat B div 128 * 128 + 32 * k \<and> unat B div 128 * 128 + 32 * k + 32 \<le> unat B + unat seg"
      using segment_position(2,3) [OF s3, of "unat a"] pos(1) [OF k(1)] by simp
  qed
  then obtain A sz where r: "reduce_segment ?q B seg = Inr (A, sz)" and red: "reduced ?q B (unat seg) A sz"
    using reduce_segment_ok [OF seg B q0] by blast
  have low: "B AND ucast (seg - 1) = 0"
  proof -
    obtain k where k: "(ucast (seg - 1) :: u64) = mask k" "unat seg = 2 ^ k"
      using seg by (auto simp: segment_def mask_eq_exp_minus_1 intro: that [of 5] that [of 6] that [of 7])
    have "unat (take_bit k B) = 0" using B(1) unfolding unat_take_bit k(2) by simp
    then show ?thesis unfolding k(1) by (simp add: take_bit_eq_mask unat_eq_zero)
  qed
  define x where "x = fst (mem_access_masked ty A sz wr (ti_active info) (ti_bytes info) ?q w)"
  have x: "ma_addr x = A" "ma_req_size x = sz" "ma_warp_mask x = ti_active info" "ma_byte_mask x = ti_bytes info"
    "ma_type x = ty" "ma_write x = wr" by (simp_all add: x_def mem_access_masked_def Let_def)
  have send: "memory_coalescing_arch_reduce_and_send wr ty info B seg (q, w) =
      Inr (q @ [x], snd (mem_access_masked ty A sz wr (ti_active info) (ti_bytes info) ?q w))"
    using low q0 r by (simp add: memory_coalescing_arch_reduce_and_send_def push_access_def case_prod_unfold x_def Let_def)
  have hold: "holds (unat n) x a" if ib: "in_block seg T B t a" for t a
  proof -
    let ?k = "unat a mod 128 div 32"
    have al: "unat n dvd unat a" using ib T by (auto simp: in_block_def accesses_ok_def aligned_def)
    have k4: "?k < 4" by (simp add: less_mult_imp_div_less)
    have "unat B div 128 * 128 + 32 * ?k = unat a div 32 * 32" using pos(2) [OF ib] chunk_position [of "unat a"] by simp
    then have "unat A \<le> unat a div 32 * 32" "unat a div 32 * 32 + 32 \<le> unat A + unat sz"
      using red chunk [OF ib] k4 by (auto simp: reduced_def chunks_within_def)
    moreover have "unat a div 32 * 32 \<le> unat a" by simp
    ultimately show ?thesis using aligned_in_chunk(1) [OF n(1) al n(2)] unfolding holds_def x by linarith
  qed
  have "covers (unat n) x t a" if ib: "in_block seg T B t a" for t a
  proof -
    have al: "unat n dvd unat a" using ib T by (auto simp: in_block_def accesses_ok_def aligned_def)
    have "bit (ti_bytes info) ((unat a + i) mod 128)" if "i < unat n" for i
    proof -
      have lt: "unat a mod 128 + i < 128" using aligned_in_chunk(2) [OF n(1) al n(2)] that by linarith
      have "(unat a + i) mod 128 = unat a mod 128 + i" using lt by (metis mod_add_left_eq mod_less)
      moreover have "bit (ti_bytes info) (unat a mod 128 + i)" using info ib lt that unfolding info_ok_def by (metis add_less_cancel_left le_add1)
      ultimately show ?thesis by simp
    qed
    moreover have "bit (ti_active info) t" using info ib by (auto simp: info_ok_def)
    ultimately show ?thesis using hold [OF ib] x by (simp add: covers_def)
  qed
  moreover have "tight (unat n) T x"
    using info hold red unfolding tight_def x info_ok_def reduced_def segment_def in_block_def by metis
  ultimately show ?thesis using send x(5,6) by blast
qed

definition touches_of :: "warp_inst_t \<Rightarrow> nat list \<Rightarrow> touches" where
  "touches_of i threads = concat (map (\<lambda>t. if bit (wm_active i) t then map (Pair t) (thread_addrs i t) else []) threads)"

definition segments :: "u32 \<Rightarrow> touches \<Rightarrow> u32 set" where
  "segments seg T = (\<lambda>(t, a). line_size_based_tag_func a (ucast seg)) ` set T"

lemma coalesce_threads_ok:
  assumes "segment (segment_size_for c i)" and "unat (num_accesses i) \<le> 8" and "accesses_ok (data_size_coales i) (touches_of i threads)"
    and "\<forall>t \<in> set threads. t < 32"
  shows "\<exists>txs. foldM (coalesce_thread c i) threads [] = Inr txs \<and>
    txs_ok (segment_size_for c i) (unat (data_size_coales i)) (touches_of i threads) txs"
proof -
  let ?seg = "segment_size_for c i" and ?n = "data_size_coales i"
  have "\<exists>txs'. foldM (coalesce_thread c i) ts txs = Inr txs' \<and> txs_ok ?seg (unat ?n) (T @ touches_of i ts) txs'"
    if "txs_ok ?seg (unat ?n) T txs" "accesses_ok ?n (touches_of i ts)" "\<forall>t \<in> set ts. t < 32" for ts T txs
    using that
  proof (induction ts arbitrary: T txs)
    case (Cons t ts)
    have split: "touches_of i (t # ts) = (if bit (wm_active i) t then map (Pair t) (thread_addrs i t) else []) @ touches_of i ts"
      by (simp add: touches_of_def)
    have rest: "accesses_ok ?n (touches_of i ts)" using Cons.prems(2) unfolding split accesses_ok_def by auto
    have t: "t < 32" and ts: "\<forall>t \<in> set ts. t < 32" using Cons.prems(3) by simp_all
    show ?case
    proof (cases "bit (wm_active i) t")
      case True
      have al: "\<forall>a \<in> set (thread_addrs i t). aligned ?n a" "access_size ?n"
        using Cons.prems(2) True unfolding split accesses_ok_def by auto
      have "coalesce_thread c i t txs = Inr (fold (coalesce_access ?seg t ?n) (thread_addrs i t) txs)"
        using True t assms(2) by (simp add: coalesce_thread_def active_def MAX_ACCESSES_PER_INSN_PER_THREAD_def)
      then show ?thesis using Cons.IH [OF coalesce_addrs_ok [OF assms(1) al(2) t Cons.prems(1) al(1)] rest ts] True
        by (simp add: split)
    next
      case False
      then show ?thesis using Cons.IH [OF Cons.prems(1) rest ts] t by (simp add: split coalesce_thread_def active_def)
    qed
  qed (simp add: touches_of_def)
  from this [of "[]" "[]"] assms(3,4) show ?thesis by (simp add: txs_ok_def in_block_def)
qed

lemma txs_blocks:
  assumes "txs_ok seg n T txs"
  shows "set (map fst txs) = ucast ` segments seg T" and "length txs = card (segments seg T)"
proof -
  have each: "case map_of txs B of None \<Rightarrow> (\<forall>t a. \<not> in_block seg T B t a) | Some info \<Rightarrow> info_ok seg n T B info" for B
    using assms unfolding txs_ok_def by blast
  have "B \<in> set (map fst txs) \<longleftrightarrow> (\<exists>t a. in_block seg T B t a)" for B
  proof (cases "map_of txs B")
    case None
    then have "\<forall>t a. \<not> in_block seg T B t a" using each [of B] by simp
    then show ?thesis using None by (simp add: map_of_eq_None_iff)
  next
    case (Some info)
    then have "info_ok seg n T B info" using each [of B] by simp
    moreover have "B \<in> set (map fst txs)" using map_of_SomeD [OF Some] by force
    ultimately show ?thesis by (simp add: info_ok_def)
  qed
  then show set: "set (map fst txs) = ucast ` segments seg T" by (force simp: segments_def in_block_def)
  have "inj (ucast :: u32 \<Rightarrow> u64)"
    by (intro injI) (metis unat_widen word_unat_eq_iff)
  then have "card (ucast ` segments seg T :: u64 set) = card (segments seg T)" by (simp add: card_image inj_on_subset)
  moreover have "distinct (map fst txs)" using assms unfolding txs_ok_def by blast
  then have "length txs = card (set (map fst txs))" using distinct_card by fastforce
  ultimately show "length txs = card (segments seg T)" using set by simp
qed

text \<open>What a list of accesses does for the accesses \<open>T\<close> of a subwarp.\<close>

definition serves :: "bool \<Rightarrow> mem_access_type \<Rightarrow> u32 \<Rightarrow> u32 \<Rightarrow> touches \<Rightarrow> mem_access_t list \<Rightarrow> bool" where
  "serves wr ty seg n T q \<longleftrightarrow> length q = card (segments seg T) \<and>
    (\<forall>x \<in> set q. ma_type x = ty \<and> ma_write x = wr \<and> tight (unat n) T x) \<and>
    (\<forall>(t, a) \<in> set T. \<exists>x \<in> set q. covers (unat n) x t a)"

text \<open>The single access a transaction becomes.\<close>

definition sends :: "bool \<Rightarrow> mem_access_type \<Rightarrow> u32 \<Rightarrow> u32 \<Rightarrow> touches \<Rightarrow> u64 \<times> transaction_info \<Rightarrow> mem_access_t list \<Rightarrow> bool" where
  "sends wr ty seg n T e q \<longleftrightarrow> (\<exists>x. q = [x] \<and> ma_type x = ty \<and> ma_write x = wr \<and> tight (unat n) T x \<and>
    (\<forall>t a. in_block seg T (fst e) t a \<longrightarrow> covers (unat n) x t a))"

lemma sends_length: "list_all2 (sends wr ty seg n T) es qs \<Longrightarrow> length (concat qs) = length es"
  by (induction es qs rule: list_all2_induct) (auto simp: sends_def)

lemma sends_serves:
  assumes sent: "list_all2 (sends wr ty seg n T) es qs" and ok: "txs_ok seg (unat n) T txs"
    and es: "set es = set txs" "length es = length txs"
  shows "serves wr ty seg n T (concat qs)"
proof -
  have "length (concat qs) = card (segments seg T)"
    using sends_length [OF sent] es(2) txs_blocks(2) [OF ok] by simp
  moreover have "ma_type x = ty \<and> ma_write x = wr \<and> tight (unat n) T x" if x: "x \<in> set (concat qs)" for x
  proof -
    obtain k where k: "k < length qs" "x \<in> set (qs ! k)" using x by (metis UN_E in_set_conv_nth set_concat)
    then have "sends wr ty seg n T (es ! k) (qs ! k)" using sent by (simp add: list_all2_conv_all_nth)
    then obtain y where "qs ! k = [y]" "ma_type y = ty" "ma_write y = wr" "tight (unat n) T y"
      unfolding sends_def by (elim exE conjE)
    then show ?thesis using k(2) by simp
  qed
  moreover have "\<exists>x \<in> set (concat qs). covers (unat n) x t a" if ta: "(t, a) \<in> set T" for t a
  proof -
    define B :: u64 where "B = ucast (line_size_based_tag_func a (ucast seg))"
    have "line_size_based_tag_func a (ucast seg) \<in> segments seg T" unfolding segments_def using ta by (rule rev_image_eqI) simp
    then have "B \<in> fst ` set es" using txs_blocks(1) [OF ok] es(1) unfolding B_def by simp
    then obtain k where k: "k < length es" "fst (es ! k) = B" by (metis imageE in_set_conv_nth)
    then have "sends wr ty seg n T (es ! k) (qs ! k)" and k': "k < length qs" using sent by (simp_all add: list_all2_conv_all_nth)
    then obtain x where x: "qs ! k = [x]" "\<And>t a. in_block seg T (fst (es ! k)) t a \<Longrightarrow> covers (unat n) x t a"
      unfolding sends_def by (elim exE conjE) blast
    have "in_block seg T (fst (es ! k)) t a" unfolding k(2) in_block_def B_def using ta by simp
    from x(2) [OF this] have "covers (unat n) x t a" .
    moreover have "x \<in> set (concat qs)" using nth_mem [OF k'] unfolding x(1) set_concat by (rule UN_I) simp
    ultimately show ?thesis by blast
  qed
  ultimately show ?thesis unfolding serves_def by blast
qed

lemma subwarp_ok:
  assumes "segment (segment_size_for c i)" and "unat (num_accesses i) \<le> 8"
    and "accesses_ok (data_size_coales i) (touches_of i threads)" and "\<forall>t \<in> set threads. t < 32"
  shows "\<exists>q' w'. andThen (foldM (coalesce_thread c i) threads []) (\<lambda>txs.
      foldM (\<lambda>(addr, info). memory_coalescing_arch_reduce_and_send wr ty info addr (segment_size_for c i)) (sort_key fst txs) (q, w)) =
      Inr (q @ q', w') \<and> serves wr ty (segment_size_for c i) (data_size_coales i) (touches_of i threads) q'"
proof -
  define seg n T where "seg = segment_size_for c i" and "n = data_size_coales i" and "T = touches_of i threads"
  note defs = seg_def [symmetric] n_def [symmetric] T_def [symmetric]
  let ?send = "\<lambda>(addr, info). memory_coalescing_arch_reduce_and_send wr ty info addr seg"
  note a = assms [unfolded defs]
  obtain txs where txs: "foldM (coalesce_thread c i) threads [] = Inr txs" and ok: "txs_ok seg (unat n) T txs"
    using coalesce_threads_ok [OF assms, unfolded defs] by (elim exE conjE)
  have info: "info_ok seg (unat n) T B info" if e: "(B, info) \<in> set txs" for B info
  proof -
    have d: "distinct (map fst txs)" and each: "case map_of txs B of None \<Rightarrow> (\<forall>t a. \<not> in_block seg T B t a) | Some info \<Rightarrow> info_ok seg (unat n) T B info"
      using ok unfolding txs_ok_def by (blast, blast)
    from each show ?thesis unfolding map_of_is_SomeI [OF d e] by simp
  qed
  have "\<exists>qs w'. foldM ?send (sort_key fst txs) (q, w) = Inr (q @ concat qs, w') \<and> list_all2 (sends wr ty seg n T) (sort_key fst txs) qs"
  proof (rule foldM_appends)
    fix e q w assume e: "e \<in> set (sort_key fst txs)"
    obtain B inf where B: "e = (B, inf)" by (cases e)
    then have "info_ok seg (unat n) T B inf" using e info by simp
    from send_ok [OF a(1,3) this, of wr ty q w] obtain x w' where
      x: "memory_coalescing_arch_reduce_and_send wr ty inf B seg (q, w) = Inr (q @ [x], w')"
        "ma_type x = ty \<and> ma_write x = wr \<and> tight (unat n) T x \<and> (\<forall>t a. in_block seg T B t a \<longrightarrow> covers (unat n) x t a)"
      by (elim exE conjE) (rule that, assumption, intro conjI)
    have "sends wr ty seg n T e [x]" unfolding sends_def B fst_conv by (rule exI [of _ x]) (use x(2) in simp)
    then show "\<exists>q' w'. ?send e (q, w) = Inr (q @ q', w') \<and> sends wr ty seg n T e q'"
      using x(1) by (intro exI [of _ "[x]"] exI [of _ w']) (simp add: B)
  qed
  then obtain qs w' where qs: "foldM ?send (sort_key fst txs) (q, w) = Inr (q @ concat qs, w')"
    and sent: "list_all2 (sends wr ty seg n T) (sort_key fst txs) qs" by (elim exE conjE)
  have "serves wr ty seg n T (concat qs)" by (rule sends_serves [OF sent ok]) simp_all
  then show ?thesis unfolding defs txs andThen.simps using qs by (intro exI [of _ "concat qs"] exI [of _ w']) simp
qed

lemma sizes_ok:
  assumes "access_size (wm_data_size i)"
  shows "segment (segment_size_for c i)" and "access_size (data_size_coales i)" and "unat (num_accesses i) \<le> 8"
  using assms by (auto simp: access_size_def segment_def segment_size_for_def data_size_coales_def num_accesses_def Let_def)

definition subwarp_touches :: "core_config \<Rightarrow> warp_inst_t \<Rightarrow> nat \<Rightarrow> touches" where
  "subwarp_touches c i sw = touches_of i (subwarp_threads c sw)"

lemma coalescing_ok:
  assumes size: "access_size (wm_data_size i)" and parts: "cfg_mem_warp_parts c \<noteq> 0"
    and threads: "\<forall>sw < unat (cfg_mem_warp_parts c). \<forall>t \<in> set (subwarp_threads c sw). t < 32"
    and al: "\<And>t a. bit (wm_active i) t \<Longrightarrow> a \<in> set (thread_addrs i t) \<Longrightarrow> aligned (data_size_coales i) a"
  shows "\<exists>qs w'. memory_coalescing_arch c i wr ty (q, w) = Inr (q @ concat qs, w') \<and>
    list_all2 (\<lambda>sw. serves wr ty (segment_size_for c i) (data_size_coales i) (subwarp_touches c i sw)) [0..<unat (cfg_mem_warp_parts c)] qs"
proof -
  note sz = sizes_ok [OF size]
  have "accesses_ok (data_size_coales i) (touches_of i threads)" for threads
    using al sz(2) bit_imp_le_length [of "wm_active i"] by (auto simp: accesses_ok_def touches_of_def split: if_splits)
  note sub = subwarp_ok [OF sz(1,3) this]
  show ?thesis unfolding memory_coalescing_arch_def subwarp_touches_def defined_def if_P [OF parts]
    by (rule foldM_appends) (rule sub, use threads in simp)
qed

text \<open>The threads of the warp, in subwarps.\<close>

lemma subwarp_of_thread:
  assumes "unat (cfg_mem_warp_parts c) dvd unat (cfg_warp_size c)" and "cfg_mem_warp_parts c \<noteq> 0" and "t < unat (cfg_warp_size c)"
  shows "\<exists>sw < unat (cfg_mem_warp_parts c). t \<in> set (subwarp_threads c sw)"
proof -
  let ?p = "unat (cfg_mem_warp_parts c)" let ?s = "unat (cfg_warp_size c div cfg_mem_warp_parts c)"
  have ws: "unat (cfg_warp_size c) = ?p * ?s" using assms(1) by (simp add: unat_div_distrib)
  then have s0: "0 < ?s" using assms(3) by (cases "?s = 0") auto
  have "t div ?s < ?p" using assms(3) ws by (simp add: less_mult_imp_div_less mult.commute)
  moreover have "t div ?s * ?s \<le> t" "t < ?s * (t div ?s + 1)" using s0 dividend_less_times_div [of ?s t] by simp_all
  ultimately show ?thesis by (intro exI [of _ "t div ?s"]) (simp add: subwarp_threads_def Let_def)
qed

lemma thread_of_subwarp:
  assumes "unat (cfg_mem_warp_parts c) dvd unat (cfg_warp_size c)" and "sw < unat (cfg_mem_warp_parts c)" and "t \<in> set (subwarp_threads c sw)"
  shows "t < unat (cfg_warp_size c)"
proof -
  let ?p = "unat (cfg_mem_warp_parts c)" let ?s = "unat (cfg_warp_size c div cfg_mem_warp_parts c)"
  have ws: "unat (cfg_warp_size c) = ?s * ?p" using assms(1) by (simp add: unat_div_distrib)
  have "?s * (sw + 1) \<le> ?s * ?p" using assms(2) by (intro mult_le_mono2) simp
  then show ?thesis using assms(3) ws by (simp add: subwarp_threads_def Let_def)
qed

lemma tight_mono: "tight n T x \<Longrightarrow> set T \<subseteq> set T' \<Longrightarrow> tight n T' x"
  unfolding tight_def by (meson subsetD)

text \<open>The branch of \<open>generate_mem_accesses\<close> for global and local memory.\<close>

lemma generate_coalesced:
  assumes "\<not> wm_empty i" and "\<not> wm_mem_accesses_created i" and op: "in_op i \<in> {LOAD_OP, STORE_OP}" and "\<not> wm_isatomic i"
    and sp: "in_space i \<in> {global_space, local_space, param_space_local}" and "wm_active i \<noteq> 0" and "wm_per_thread i \<noteq> None"
    and "13 \<le> cfg_coalesce_arch c"
    and ty: "access_type_for (in_space i) (is_store i) = Inr (Some ty)"
    and q: "memory_coalescing_arch c i (is_store i) ty (wm_accessq i, w) = Inr (q, w')"
  shows "generate_mem_accesses c i w = Inr (i\<lparr>wm_accessq := q, wm_mem_accesses_created := True\<rparr>, w')"
proof -
  have ls: "is_load i \<or> is_store i" and op4: "in_op i \<noteq> MEMORY_BARRIER_OP" "in_op i \<in> {LOAD_OP, TENSOR_CORE_LOAD_OP, STORE_OP, TENSOR_CORE_STORE_OP}"
    using op by (auto simp: is_load_def is_store_def)
  show ?thesis unfolding generate_mem_accesses_def Let_def ty using assms(1,2,4,6,7,8) ls op4 sp q by simp
qed

text \<open>C24: coalescing serves the warp.  For a load or store of global or local memory whose threads access
  aligned addresses below 4 GB, \<open>generate_mem_accesses\<close> succeeds and queues one access per subwarp and segment
  touched; each access of an active thread is covered by a queued access that names the thread and its
  bytes; and a queued access is aligned to its size of 32, 64 or 128 bytes and names only threads and bytes
  that the warp accesses there.\<close>

theorem coalescing_serves_warp:
  assumes "\<not> wm_empty i" and "\<not> wm_mem_accesses_created i" and "in_op i \<in> {LOAD_OP, STORE_OP}" and "\<not> wm_isatomic i"
    and "in_space i \<in> {global_space, local_space, param_space_local}" and "wm_active i \<noteq> 0" and "wm_per_thread i \<noteq> None"
    and "13 \<le> cfg_coalesce_arch c" and "cfg_mem_warp_parts c \<noteq> 0" and "unat (cfg_mem_warp_parts c) dvd unat (cfg_warp_size c)"
    and "access_size (wm_data_size i)" and "\<forall>t. bit (wm_active i) t \<longrightarrow> t < unat (cfg_warp_size c)" and "cfg_warp_size c \<le> 32"
    and "\<forall>t. bit (wm_active i) t \<longrightarrow> (\<forall>a \<in> set (thread_addrs i t). aligned (data_size_coales i) a)"
  shows "\<exists>q w'. generate_mem_accesses c i w = Inr (i\<lparr>wm_accessq := wm_accessq i @ q, wm_mem_accesses_created := True\<rparr>, w') \<and>
    length q = (\<Sum>sw \<leftarrow> [0..<unat (cfg_mem_warp_parts c)]. card (segments (segment_size_for c i) (subwarp_touches c i sw))) \<and>
    (\<forall>t. bit (wm_active i) t \<longrightarrow> (\<forall>a \<in> set (thread_addrs i t). \<exists>x \<in> set q. covers (unat (data_size_coales i)) x t a)) \<and>
    (\<forall>x \<in> set q. ma_write x = is_store i \<and> tight (unat (data_size_coales i)) (touches_of i [0..<32]) x)"
proof -
  let ?n = "unat (data_size_coales i)" and ?sws = "[0..<unat (cfg_mem_warp_parts c)]"
  have "unat (cfg_warp_size c) \<le> 32" using assms(13) by (simp add: word_le_nat_alt)
  then have lt: "\<forall>sw < unat (cfg_mem_warp_parts c). \<forall>t \<in> set (subwarp_threads c sw). t < 32"
    using thread_of_subwarp [OF assms(10)] by (meson less_le_trans)
  obtain ty where ty: "access_type_for (in_space i) (is_store i) = Inr (Some ty)" using assms(5) by auto
  obtain qs w' where qs: "memory_coalescing_arch c i (is_store i) ty (wm_accessq i, w) = Inr (wm_accessq i @ concat qs, w')"
    and all2: "list_all2 (\<lambda>sw. serves (is_store i) ty (segment_size_for c i) (data_size_coales i) (subwarp_touches c i sw)) ?sws qs"
    using coalescing_ok [OF assms(11,9) lt, of "is_store i" ty "wm_accessq i" w] assms(14) by blast
  note gen = generate_coalesced [OF assms(1-8) ty qs]
  have len: "length (concat qs) = (\<Sum>sw \<leftarrow> sws. card (segments (segment_size_for c i) (subwarp_touches c i sw)))"
    if "list_all2 (\<lambda>sw. serves (is_store i) ty (segment_size_for c i) (data_size_coales i) (subwarp_touches c i sw)) sws qs" for sws qs
    using that by (induction sws qs rule: list_all2_induct) (auto simp: serves_def)
  have cov: "\<exists>x \<in> set (concat qs). covers ?n x t a" if t: "bit (wm_active i) t" "a \<in> set (thread_addrs i t)" for t a
  proof -
    obtain sw where sw: "sw < unat (cfg_mem_warp_parts c)" "t \<in> set (subwarp_threads c sw)"
      using subwarp_of_thread [OF assms(10,9)] assms(12) t(1) by blast
    then have "(t, a) \<in> set (subwarp_touches c i sw)" using t by (force simp: subwarp_touches_def touches_of_def)
    moreover have "serves (is_store i) ty (segment_size_for c i) (data_size_coales i) (subwarp_touches c i sw) (qs ! sw)" "sw < length qs"
      using all2 sw(1) by (simp_all add: list_all2_conv_all_nth)
    ultimately obtain x where "x \<in> set (qs ! sw)" "covers ?n x t a" "qs ! sw \<in> set qs" unfolding serves_def by fastforce
    then show ?thesis by auto
  qed
  have sub: "set (subwarp_touches c i sw) \<subseteq> set (touches_of i [0..<32])" for sw
    using bit_imp_le_length [of "wm_active i"] by (fastforce simp: subwarp_touches_def touches_of_def split: if_splits)
  have "ma_write x = is_store i \<and> tight ?n (touches_of i [0..<32]) x" if x: "x \<in> set (concat qs)" for x
  proof -
    obtain k where k: "k < length qs" "x \<in> set (qs ! k)" using x by (metis UN_E in_set_conv_nth set_concat)
    then have "serves (is_store i) ty (segment_size_for c i) (data_size_coales i) (subwarp_touches c i k) (qs ! k)"
      using all2 by (simp add: list_all2_conv_all_nth)
    then have "ma_write x = is_store i" "tight ?n (subwarp_touches c i k) x" using k(2) by (auto simp: serves_def)
    then show ?thesis using tight_mono [OF _ sub] by blast
  qed
  then show ?thesis using gen len [OF all2] cov by blast
qed

text \<open>A warp of which threads 0 and 1 read neighbouring words, and thread 2 a word of the next line.\<close>

definition coal_warp :: warp_inst_t where
  "coal_warp = \<lparr>in_warp_id = 0, in_op = LOAD_OP, in_memory_op = memory_load, in_space = global_space, in_out = [5],
    in_outcount = 1, in_in = [], in_incount = 0, in_pred = 0, in_ar1 = 0, in_ar2 = 0, wm_empty = False, wm_isatomic = False,
    wm_active = 7, wm_per_thread = Some ([[256, 0, 0, 0, 0, 0, 0, 0], [260, 0, 0, 0, 0, 0, 0, 0], [384, 0, 0, 0, 0, 0, 0, 0]] @ replicate 29 (replicate 8 0)),
    wm_cache_op = CACHE_ALL, wm_data_size = 4, wm_mem_accesses_created = False, wm_accessq = [], wm_cycles = 0\<rparr>"

definition coal_core :: core_config where
  "coal_core = \<lparr>cfg_warp_size = 32, cfg_mem_warp_parts = 1, cfg_shmem_limited_broadcast = False, cfg_num_shmem_bank = 32,
    cfg_texl1_linesize = 128, cfg_constl1_linesize = 64, cfg_coalesce_arch = 60, cfg_gmem_skip_L1D = False\<rparr>"

lemma coal_active: "bit (wm_active coal_warp) t \<longleftrightarrow> t < 3"
proof -
  have seven: "(7 :: simt_mask) = mask 3" by (simp add: mask_eq_exp_minus_1)
  have "bit (7 :: simt_mask) t \<longleftrightarrow> t < 3" unfolding seven bit_mask_iff by auto
  then show ?thesis by (simp add: coal_warp_def)
qed

lemma coal_addrs:
  "thread_addrs coal_warp 0 = [256]" "thread_addrs coal_warp 1 = [260]" "thread_addrs coal_warp 2 = [384]"
  by (simp_all add: thread_addrs_def memreqaddr_def coal_warp_def MAX_ACCESSES_PER_INSN_PER_THREAD_def)

theorem coalescing_serves_warp_witness:
  "\<forall>w. \<exists>q w'. generate_mem_accesses coal_core coal_warp w =
      Inr (coal_warp\<lparr>wm_accessq := q, wm_mem_accesses_created := True\<rparr>, w') \<and>
    (\<exists>x \<in> set q. covers 4 x 0 256) \<and> (\<exists>x \<in> set q. covers 4 x 1 260) \<and> (\<exists>x \<in> set q. covers 4 x 2 384)"
proof -
  have three: "t = 0 \<or> t = 1 \<or> t = 2" if "t < 3" for t :: nat using that by linarith
  have n: "data_size_coales coal_warp = 4" by (simp add: data_size_coales_def coal_warp_def)
  have al: "\<forall>t. bit (wm_active coal_warp) t \<longrightarrow> (\<forall>a \<in> set (thread_addrs coal_warp t). aligned (data_size_coales coal_warp) a)"
    unfolding coal_active n by (auto dest!: three simp: coal_addrs [simplified] aligned_def)
  have q0: "wm_accessq coal_warp = []" by (simp add: coal_warp_def)
  have cov: "\<exists>x \<in> set q. covers 4 x 0 256" "\<exists>x \<in> set q. covers 4 x 1 260" "\<exists>x \<in> set q. covers 4 x 2 384"
    if "\<forall>t. bit (wm_active coal_warp) t \<longrightarrow> (\<forall>a \<in> set (thread_addrs coal_warp t). \<exists>x \<in> set q. covers (unat (data_size_coales coal_warp)) x t a)" for q
    using that [rule_format, of 0 256] that [rule_format, of 1 260] that [rule_format, of 2 384]
    by (simp_all add: coal_active coal_addrs [simplified] n)
  have fields: "\<not> wm_empty coal_warp" "\<not> wm_mem_accesses_created coal_warp" "in_op coal_warp \<in> {LOAD_OP, STORE_OP}"
    "\<not> wm_isatomic coal_warp" "in_space coal_warp \<in> {global_space, local_space, param_space_local}"
    "wm_active coal_warp \<noteq> 0" "wm_per_thread coal_warp \<noteq> None" "access_size (wm_data_size coal_warp)"
    by (simp_all add: coal_warp_def access_size_def)
  have core: "13 \<le> cfg_coalesce_arch coal_core" "cfg_mem_warp_parts coal_core \<noteq> 0"
    "unat (cfg_mem_warp_parts coal_core) dvd unat (cfg_warp_size coal_core)" "cfg_warp_size coal_core \<le> 32"
    by (simp_all add: coal_core_def)
  show ?thesis
  proof
    fix w
    have act: "\<forall>t. bit (wm_active coal_warp) t \<longrightarrow> t < unat (cfg_warp_size coal_core)" by (simp add: coal_active coal_core_def)
    obtain q w' where "generate_mem_accesses coal_core coal_warp w =
        Inr (coal_warp\<lparr>wm_accessq := wm_accessq coal_warp @ q, wm_mem_accesses_created := True\<rparr>, w')"
      and "\<forall>t. bit (wm_active coal_warp) t \<longrightarrow> (\<forall>a \<in> set (thread_addrs coal_warp t). \<exists>x \<in> set q. covers (unat (data_size_coales coal_warp)) x t a)"
      using coalescing_serves_warp [OF fields(1-7) core(1-3) fields(8) act core(4) al, of w] by (elim exE conjE)
    with cov [of q] show "\<exists>q w'. generate_mem_accesses coal_core coal_warp w =
        Inr (coal_warp\<lparr>wm_accessq := q, wm_mem_accesses_created := True\<rparr>, w') \<and>
        (\<exists>x \<in> set q. covers 4 x 0 256) \<and> (\<exists>x \<in> set q. covers 4 x 1 260) \<and> (\<exists>x \<in> set q. covers 4 x 2 384)"
      unfolding q0 by auto
  qed
qed

section \<open>Bank conflicts\<close>

text \<open>The words that the threads of a subwarp access in a bank; the cost of a subwarp is the bank with most words.\<close>

definition bank_words :: "core_config \<Rightarrow> warp_inst_t \<Rightarrow> nat list \<Rightarrow> u32 \<Rightarrow> u64 set" where
  "bank_words c i threads b =
    {ucast (line_size_based_tag_func (memreqaddr i t ! 0) 4) | t. t \<in> set threads \<and> bit (wm_active i) t \<and>
       (ucast (memreqaddr i t ! 0) div 4) mod cfg_num_shmem_bank c = b}"

definition worst_bank :: "core_config \<Rightarrow> warp_inst_t \<Rightarrow> nat list \<Rightarrow> nat" where
  "worst_bank c i threads = Max (range (\<lambda>b. card (bank_words c i threads b)))"

definition accs_ok :: "core_config \<Rightarrow> warp_inst_t \<Rightarrow> nat list \<Rightarrow> bank_accs \<Rightarrow> bool" where
  "accs_ok c i threads accs \<longleftrightarrow> distinct (map fst accs) \<and>
    (\<forall>b. case map_of accs b of None \<Rightarrow> bank_words c i threads b = {}
       | Some ws \<Rightarrow> distinct (map fst ws) \<and> fst ` set ws = bank_words c i threads b)"

lemma bank_words_snoc:
  "bank_words c i (threads @ [t]) b = bank_words c i threads b \<union>
    (if bit (wm_active i) t \<and> (ucast (memreqaddr i t ! 0) div 4) mod cfg_num_shmem_bank c = b
     then {ucast (line_size_based_tag_func (memreqaddr i t ! 0) 4)} else {})"
  by (auto simp: bank_words_def)

lemma finite_bank_words: "finite (bank_words c i threads b)"
proof -
  have "bank_words c i threads b \<subseteq> (\<lambda>t. ucast (line_size_based_tag_func (memreqaddr i t ! 0) 4)) ` set threads"
    by (auto simp: bank_words_def)
  then show ?thesis by (rule finite_subset) simp
qed

lemma count_word_ok:
  assumes ok: "accs_ok c i threads accs" and act: "bit (wm_active i) t"
  shows "accs_ok c i (threads @ [t])
    (count_word ((ucast (memreqaddr i t ! 0) div 4) mod cfg_num_shmem_bank c) (ucast (line_size_based_tag_func (memreqaddr i t ! 0) 4)) accs)"
    (is "accs_ok c i _ (count_word ?b ?w accs)")
proof -
  let ?ws = "case map_of accs ?b of None \<Rightarrow> [] | Some ws \<Rightarrow> ws"
  let ?n = "case map_of ?ws ?w of None \<Rightarrow> 0 | Some n \<Rightarrow> n"
  have cw: "count_word ?b ?w accs = AList.update ?b (AList.update ?w (?n + 1) ?ws) accs" by (simp add: count_word_def Let_def)
  have each: "case map_of accs b of None \<Rightarrow> bank_words c i threads b = {}
      | Some ws \<Rightarrow> distinct (map fst ws) \<and> fst ` set ws = bank_words c i threads b" for b
    using ok by (simp add: accs_ok_def)
  have ws: "distinct (map fst ?ws)" "fst ` set ?ws = bank_words c i threads ?b" using each [of ?b] by (simp_all split: option.splits)
  have new: "distinct (map fst (AList.update ?w (?n + 1) ?ws))" "fst ` set (AList.update ?w (?n + 1) ?ws) = insert ?w (bank_words c i threads ?b)"
    using ws distinct_update [OF ws(1)] dom_update [of ?w "?n + 1" ?ws] by simp_all
  have "case map_of (count_word ?b ?w accs) b of None \<Rightarrow> bank_words c i (threads @ [t]) b = {}
      | Some ws \<Rightarrow> distinct (map fst ws) \<and> fst ` set ws = bank_words c i (threads @ [t]) b" for b
  proof (cases "b = ?b")
    case True
    then show ?thesis using new act by (simp add: cw update_conv' bank_words_snoc)
  next
    case False
    then have same: "bank_words c i (threads @ [t]) b = bank_words c i threads b" by (auto simp: bank_words_snoc)
    have "map_of (count_word ?b ?w accs) b = map_of accs b" using False by (simp add: cw update_conv')
    then show ?thesis unfolding same using each [of b] by simp
  qed
  moreover have "distinct (map fst (count_word ?b ?w accs))" using ok unfolding cw accs_ok_def by (simp add: distinct_update)
  ultimately show ?thesis by (simp add: accs_ok_def)
qed

lemma bank_threads_ok:
  assumes banks: "cfg_num_shmem_bank c \<noteq> 0" and "\<forall>t \<in> set threads. t < 32"
  shows "\<exists>accs. foldM (bank_thread c i) threads [] = Inr accs \<and> accs_ok c i threads accs"
  using assms(2)
proof (induction threads rule: rev_induct)
  case Nil
  show ?case by (simp add: accs_ok_def bank_words_def)
next
  case (snoc t ts)
  then obtain accs where accs: "foldM (bank_thread c i) ts [] = Inr accs" "accs_ok c i ts accs" by auto
  have t: "t < 32" using snoc.prems by simp
  show ?case
  proof (cases "bit (wm_active i) t")
    case True
    then have "bank_thread c i t accs = Inr (count_word ((ucast (memreqaddr i t ! 0) div 4) mod cfg_num_shmem_bank c)
        (ucast (line_size_based_tag_func (memreqaddr i t ! 0) 4)) accs)"
      using t banks by (simp add: bank_thread_def active_def shmem_bank_func_def WORD_SIZE_def Let_def)
    then show ?thesis using accs count_word_ok [OF accs(2) True] by (simp add: foldM_append)
  next
    case False
    then have same: "bank_words c i (ts @ [t]) = bank_words c i ts" by (intro ext) (simp add: bank_words_snoc)
    have "accs_ok c i (ts @ [t]) accs" using accs(2) unfolding accs_ok_def same .
    moreover have "bank_thread c i t accs = Inr accs" using t False by (simp add: bank_thread_def active_def)
    ultimately show ?thesis using accs by (simp add: foldM_append)
  qed
qed

lemma card_bank_words: "card (bank_words c i threads b) \<le> length threads"
proof -
  have "bank_words c i threads b \<subseteq> (\<lambda>t. ucast (line_size_based_tag_func (memreqaddr i t ! 0) 4)) ` set threads"
    by (auto simp: bank_words_def)
  then have "card (bank_words c i threads b) \<le> card (set threads)" by (rule surj_card_le [OF finite_set])
  then show ?thesis using card_length le_trans by blast
qed

lemma finite_bank_cards: "finite (range (\<lambda>b. card (bank_words c i threads b)))"
  by (rule finite_subset [of _ "{..length threads}"]) (auto simp: card_bank_words)

lemma worst_bank_le: "worst_bank c i threads \<le> length threads"
  unfolding worst_bank_def using finite_bank_cards card_bank_words by (subst Max_le_iff) auto

lemma worst_bank_pos:
  assumes "t \<in> set threads" and "bit (wm_active i) t"
  shows "0 < worst_bank c i threads"
proof -
  let ?b = "(ucast (memreqaddr i t ! 0) div 4) mod cfg_num_shmem_bank c"
  have "bank_words c i threads ?b \<noteq> {}" using assms by (auto simp: bank_words_def)
  then have "0 < card (bank_words c i threads ?b)" using finite_bank_words by (simp add: card_gt_0_iff)
  also have "\<dots> \<le> worst_bank c i threads" unfolding worst_bank_def using finite_bank_cards by (intro Max_ge) auto
  finally show ?thesis .
qed

lemma fold_max_word:
  assumes "\<forall>e \<in> set es. f e < 2 ^ 32"
  shows "fold (\<lambda>e m. max m (of_nat (f e) :: u32)) es m = of_nat (fold (\<lambda>e m. max m (f e)) es (unat m))"
  using assms
proof (induction es arbitrary: m)
  case (Cons e es)
  have u: "unat (of_nat (f e) :: u32) = f e" using Cons.prems by (simp add: unat_of_nat_lt)
  have "unat (max m (of_nat (f e))) = max (unat m) (f e)" by (simp add: max_def word_le_nat_alt u)
  then show ?case using Cons by simp
qed simp

lemma fold_max_Max: "fold (\<lambda>e m. max m (f e)) es n = Max (insert n (f ` set es))" for n :: nat
proof -
  have "fold (\<lambda>e m. max m (f e)) es n = fold max (map f es) n"
    by (induction es arbitrary: n) (simp_all add: max.commute)
  also have "\<dots> = Max (set (n # map f es))" by (rule Max.set_eq_fold [symmetric])
  finally show ?thesis by simp
qed

lemma max_bank_accesses_ok:
  assumes ok: "accs_ok c i threads accs" and nb: "\<not> cfg_shmem_limited_broadcast c" and small: "length threads < 2 ^ 32"
  shows "max_bank_accesses c accs = Inr (of_nat (worst_bank c i threads))"
proof -
  let ?L = "(\<lambda>e. length (snd e)) ` set accs" and ?R = "range (\<lambda>b. card (bank_words c i threads b))"
  have d: "distinct (map fst accs)" and each: "case map_of accs b of None \<Rightarrow> bank_words c i threads b = {}
      | Some ws \<Rightarrow> distinct (map fst ws) \<and> fst ` set ws = bank_words c i threads b" for b
    using ok unfolding accs_ok_def by (blast, blast)
  have len: "length ws = card (bank_words c i threads b)" if "map_of accs b = Some ws" for b ws
  proof -
    have "distinct (map fst ws)" "fst ` set ws = bank_words c i threads b" using each [of b] that by simp_all
    then show ?thesis using distinct_card [of "map fst ws"] by simp
  qed
  have L: "?L \<subseteq> ?R"
  proof
    fix n assume "n \<in> ?L"
    then obtain b ws where "(b, ws) \<in> set accs" "n = length ws" by auto
    then show "n \<in> ?R" using len [OF map_of_is_SomeI [OF d]] by blast
  qed
  have R: "?R \<subseteq> insert 0 ?L"
  proof
    fix n assume "n \<in> ?R"
    then obtain b where n: "n = card (bank_words c i threads b)" by blast
    show "n \<in> insert 0 ?L"
    proof (cases "map_of accs b")
      case None
      then show ?thesis using each [of b] n by simp
    next
      case (Some ws)
      have "n = length (snd (b, ws))" using len [OF Some] n by simp
      then have "n \<in> ?L" using map_of_SomeD [OF Some] by (rule image_eqI)
      then show ?thesis by simp
    qed
  qed
  have "Max (insert 0 ?L) = Max ?R"
  proof (rule antisym)
    show "Max ?R \<le> Max (insert 0 ?L)" by (rule Max_mono [OF R]) simp_all
    have "n \<le> Max ?R" if "n \<in> insert 0 ?L" for n
    proof (cases "n = 0")
      case False
      then have "n \<in> ?R" using that L by blast
      then show ?thesis by (rule Max_ge [OF finite_bank_cards])
    qed simp
    then show "Max (insert 0 ?L) \<le> Max ?R" by (intro Max.boundedI) simp_all
  qed
  moreover have "\<forall>e \<in> set accs. length (snd e) < 2 ^ 32"
  proof
    fix e assume "e \<in> set accs"
    then have "length (snd e) \<in> ?R" using L by blast
    then obtain b where "length (snd e) = card (bank_words c i threads b)" by blast
    then show "length (snd e) < 2 ^ 32" using card_bank_words [of c i threads b] small by linarith
  qed
  ultimately show ?thesis
    using nb fold_max_word [of accs "\<lambda>e. length (snd e)" 0] fold_max_Max [of "\<lambda>e. length (snd e)" accs 0]
    by (simp add: max_bank_accesses_def worst_bank_def)
qed

lemma shared_fold:
  assumes "\<forall>sw \<in> set sws. f sw = Inr (of_nat (g sw) :: u32)"
  shows "foldM (\<lambda>sw acc. andThen (f sw) (\<lambda>m. Inr (acc + m))) sws n = Inr (n + of_nat (\<Sum>sw \<leftarrow> sws. g sw))"
  using assms by (induction sws arbitrary: n) (simp_all add: add.assoc)

lemma shared_accesses_ok:
  assumes parts: "cfg_mem_warp_parts c \<noteq> 0" "unat (cfg_mem_warp_parts c) dvd unat (cfg_warp_size c)" and ws: "cfg_warp_size c \<le> 32"
    and banks: "cfg_num_shmem_bank c \<noteq> 0" and nb: "\<not> cfg_shmem_limited_broadcast c"
    and act: "bit (wm_active i) t" "t < unat (cfg_warp_size c)"
  shows "shared_accesses c i =
    Inr (of_nat (\<Sum>sw \<leftarrow> [0..<unat (cfg_mem_warp_parts c)]. worst_bank c i (subwarp_threads c sw)))"
proof -
  let ?p = "unat (cfg_mem_warp_parts c)" and ?wb = "\<lambda>sw. worst_bank c i (subwarp_threads c sw)"
  let ?s = "unat (cfg_warp_size c div cfg_mem_warp_parts c)"
  have ws32: "unat (cfg_warp_size c) \<le> 32" using ws by (simp add: word_le_nat_alt)
  have len: "length (subwarp_threads c sw) = ?s" for sw by (simp add: subwarp_threads_def Let_def algebra_simps)
  have size: "unat (cfg_warp_size c) = ?p * ?s" using parts(2) by (simp add: unat_div_distrib)
  have "?s \<le> 32" using ws32 by (simp add: unat_div_distrib) (meson div_le_dividend le_trans)
  then have step: "andThen (foldM (bank_thread c i) (subwarp_threads c sw) []) (max_bank_accesses c) = Inr (of_nat (?wb sw))"
    if "sw \<in> set [0..<?p]" for sw
  proof -
    have "\<forall>t \<in> set (subwarp_threads c sw). t < 32" using thread_of_subwarp [OF parts(2)] that ws32 by fastforce
    then obtain accs where "foldM (bank_thread c i) (subwarp_threads c sw) [] = Inr accs" "accs_ok c i (subwarp_threads c sw) accs"
      using bank_threads_ok [OF banks] by blast
    then show ?thesis using max_bank_accesses_ok [OF _ nb] len [of sw] \<open>?s \<le> 32\<close> by simp
  qed
  have sum: "foldM (\<lambda>subwarp total_accesses.
          andThen (foldM (bank_thread c i) (subwarp_threads c subwarp) []) (\<lambda>accs.
          andThen (max_bank_accesses c accs) (\<lambda>m. Inr (total_accesses + m)))) [0..<?p] 0 = Inr (of_nat (\<Sum>sw \<leftarrow> [0..<?p]. ?wb sw))"
    using shared_fold [of "[0..<?p]" "\<lambda>sw. andThen (foldM (bank_thread c i) (subwarp_threads c sw) []) (max_bank_accesses c)" ?wb 0] step
    by (simp add: andThen_assoc)
  have "(\<Sum>sw \<leftarrow> [0..<?p]. ?wb sw) \<le> (\<Sum>sw \<leftarrow> [0..<?p]. ?s)" using worst_bank_le len by (intro sum_list_mono) (metis (no_types))
  also have "\<dots> = unat (cfg_warp_size c)" by (simp add: sum_list_triv size)
  finally have le: "(\<Sum>sw \<leftarrow> [0..<?p]. ?wb sw) \<le> unat (cfg_warp_size c)" .
  obtain sw where sw: "sw < ?p" "t \<in> set (subwarp_threads c sw)" using subwarp_of_thread [OF parts(2,1) act(2)] by blast
  have "0 < ?wb sw" using worst_bank_pos [OF sw(2) act(1)] .
  also have "?wb sw \<le> (\<Sum>sw \<leftarrow> [0..<?p]. ?wb sw)" using sw(1) by (intro member_le_sum_list) simp_all
  finally have pos: "0 < (\<Sum>sw \<leftarrow> [0..<?p]. ?wb sw)" .
  have u: "unat (of_nat (\<Sum>sw \<leftarrow> [0..<?p]. ?wb sw) :: u32) = (\<Sum>sw \<leftarrow> [0..<?p]. ?wb sw)" using le ws32 by (intro unat_of_nat_lt) simp
  then have "(of_nat (\<Sum>sw \<leftarrow> [0..<?p]. ?wb sw) :: u32) > 0 \<and> of_nat (\<Sum>sw \<leftarrow> [0..<?p]. ?wb sw) \<le> cfg_warp_size c"
    using le pos by (simp only: word_le_nat_alt word_less_nat_alt unat_0)
  then show ?thesis unfolding shared_accesses_def sum using parts(1) by simp
qed

text \<open>C25: shared memory costs the conflicts of the worst bank.  Without limited broadcast a load or store of shared
  memory succeeds with an initiation interval that is the sum, over the subwarps, of the number of different words
  that its threads access in the bank with most of them; it generates no memory access.\<close>

theorem shared_cycles_are_bank_conflicts:
  assumes "\<not> wm_empty i" and "\<not> wm_mem_accesses_created i" and "in_op i \<in> {LOAD_OP, STORE_OP}"
    and "in_space i \<in> {shared_space, sstarr_space}" and "wm_active i \<noteq> 0" and "wm_per_thread i \<noteq> None"
    and "cfg_mem_warp_parts c \<noteq> 0" and "unat (cfg_mem_warp_parts c) dvd unat (cfg_warp_size c)" and "cfg_warp_size c \<le> 32"
    and "cfg_num_shmem_bank c \<noteq> 0" and "\<not> cfg_shmem_limited_broadcast c" and "\<forall>t. bit (wm_active i) t \<longrightarrow> t < unat (cfg_warp_size c)"
  shows "generate_mem_accesses c i w =
    Inr (i\<lparr>wm_cycles := of_nat (\<Sum>sw \<leftarrow> [0..<unat (cfg_mem_warp_parts c)]. worst_bank c i (subwarp_threads c sw)),
           wm_mem_accesses_created := True\<rparr>, w)"
proof -
  obtain t where t: "bit (wm_active i) t" using assms(5) bit_eq_iff [of "wm_active i" 0] by auto
  then have "t < unat (cfg_warp_size c)" using assms(12) by blast
  note sh = shared_accesses_ok [OF assms(7-11) t this]
  have ty: "access_type_for (in_space i) (is_store i) = Inr None" using assms(4) by auto
  have ls: "is_load i \<or> is_store i" "in_op i \<noteq> MEMORY_BARRIER_OP" "in_op i \<in> {LOAD_OP, TENSOR_CORE_LOAD_OP, STORE_OP, TENSOR_CORE_STORE_OP}"
    using assms(3) by (auto simp: is_load_def is_store_def)
  show ?thesis unfolding generate_mem_accesses_def Let_def ty sh using assms(1,2,5,6) ls by simp
qed

text \<open>Three threads whose addresses fall into one bank of 32, two of them in the same word.\<close>

definition bank_warp :: warp_inst_t where
  "bank_warp = coal_warp\<lparr>in_space := shared_space,
    wm_per_thread := Some ([[0, 0, 0, 0, 0, 0, 0, 0], [128, 0, 0, 0, 0, 0, 0, 0], [129, 0, 0, 0, 0, 0, 0, 0]] @ replicate 29 (replicate 8 0))\<rparr>"

theorem shared_cycles_are_bank_conflicts_witness:
  "\<forall>w. \<exists>i w'. generate_mem_accesses coal_core bank_warp w = Inr (i, w') \<and> wm_cycles i = of_nat (worst_bank coal_core bank_warp [0..<32]) \<and>
     card (bank_words coal_core bank_warp [0..<32] 0) = 2"
proof
  fix w
  have fields: "\<not> wm_empty bank_warp" "\<not> wm_mem_accesses_created bank_warp" "in_op bank_warp \<in> {LOAD_OP, STORE_OP}"
    "in_space bank_warp \<in> {shared_space, sstarr_space}" "wm_active bank_warp \<noteq> 0" "wm_per_thread bank_warp \<noteq> None"
    by (simp_all add: bank_warp_def coal_warp_def)
  have core: "cfg_mem_warp_parts coal_core \<noteq> 0" "unat (cfg_mem_warp_parts coal_core) dvd unat (cfg_warp_size coal_core)"
    "cfg_warp_size coal_core \<le> 32" "cfg_num_shmem_bank coal_core \<noteq> 0" "\<not> cfg_shmem_limited_broadcast coal_core"
    by (simp_all add: coal_core_def)
  have bw: "bit (wm_active bank_warp) t \<longleftrightarrow> t < 3" for t using coal_active [of t] by (simp add: bank_warp_def)
  then have act: "\<forall>t. bit (wm_active bank_warp) t \<longrightarrow> t < unat (cfg_warp_size coal_core)" by (simp add: coal_core_def)
  have thr: "subwarp_threads coal_core 0 = [0..<32]" by (simp add: subwarp_threads_def coal_core_def)
  have one: "unat (cfg_mem_warp_parts coal_core) = 1" by (simp add: coal_core_def)
  note gen = shared_cycles_are_bank_conflicts [OF fields core act, of w]
  have three: "t < 3 \<longleftrightarrow> t = 0 \<or> t = 1 \<or> t = 2" for t :: nat by linarith
  have a: "memreqaddr bank_warp 0 ! 0 = 0" "memreqaddr bank_warp 1 ! 0 = 128" "memreqaddr bank_warp 2 ! 0 = 129"
    by (simp_all add: bank_warp_def memreqaddr_def)
  have "bank_words coal_core bank_warp [0..<32] 0 = (\<lambda>t. ucast (line_size_based_tag_func (memreqaddr bank_warp t ! 0) 4)) `
      {t. t \<in> set [0..<32] \<and> t < 3 \<and> (ucast (memreqaddr bank_warp t ! 0) div 4) mod cfg_num_shmem_bank coal_core = 0}"
    unfolding bank_words_def bw by (rule setcompr_eq_image)
  also have "{t. t \<in> set [0..<32] \<and> t < 3 \<and> (ucast (memreqaddr bank_warp t ! 0) div 4) mod cfg_num_shmem_bank coal_core = 0} = {0, 1, 2}"
    unfolding three using a by (auto simp: coal_core_def)
  finally have "bank_words coal_core bank_warp [0..<32] 0 = {0, 128}" by (simp add: a [simplified] line_size_based_tag_func_def)
  then show "\<exists>i w'. generate_mem_accesses coal_core bank_warp w = Inr (i, w') \<and> wm_cycles i = of_nat (worst_bank coal_core bank_warp [0..<32]) \<and>
     card (bank_words coal_core bank_warp [0..<32] 0) = 2"
    unfolding gen one by (simp add: thr)
qed

end
