(* ===== verification/Local_Interconnect.thy ===== *)
theory Local_Interconnect
  imports Prelude
begin

text \<open>
  The built-in interconnect between shader cores and memory partitions,
  \<open>src/src/gpgpu-sim/local_interconnect.{h,cc}\<close>: a crossbar router with a queue per input and per output, two
  arbiters (\<open>RR_Advance\<close>, \<open>iSLIP_Advance\<close>), and \<open>LocalInterconnect\<close>, which has one router for requests and one
  for replies.  A queue is a list with its front first; the data of a packet (a pointer in the code) is a
  type variable, \<open>NULL\<close> is \<open>None\<close>.  Vectors have one element per node, set up by the constructor; an output
  out of their range is undefined.  \<open>arbiter_algo\<close> is a number, as the option parser stores it.  Output of the
  verbose mode and \<open>DisplayStats\<close> are left out; the fields they print are kept.

  Shown: over every run of pushes, pops and cycles nothing fails, queues stay within their limits, and each
  flow from an input to an output is a FIFO: no packet is lost, duplicated, misrouted or overtaken; the
  round-robin arbiter serves every input in turn.
\<close>

section \<open>Model\<close>

record 'd Packet =
  pk_data :: 'd
  pk_output_deviceID :: u32

definition REQ_NET :: u32 where "REQ_NET = 0"
definition REPLY_NET :: u32 where "REPLY_NET = 1"
definition NAIVE_RR :: u32 where "NAIVE_RR = 0"
definition iSLIP :: u32 where "iSLIP = 1"

record inct_config =
  ic_in_buffer_limit :: u32
  ic_out_buffer_limit :: u32
  ic_subnets :: u32
  ic_arbiter_algo :: u32
  ic_verbose :: u32
  ic_grant_cycles :: u32

record 'd xbar_router =
  xb_cycles :: u64
  xb_conflicts :: u64
  xb_conflicts_util :: u64
  xb_cycles_util :: u64
  xb_reqs_util :: u64
  xb_out_buffer_full :: u64
  xb_out_buffer_util :: u64
  xb_in_buffer_full :: u64
  xb_in_buffer_util :: u64
  xb_packets_num :: u64
  in_buffers :: "'d Packet list list"
  out_buffers :: "'d Packet list list"
  xb_n_shader :: u32
  xb_n_mem :: u32
  total_nodes :: u32
  in_buffer_limit :: u32
  out_buffer_limit :: u32
  next_node :: "u32 list"
  next_node_id :: u32
  xb_m_id :: u32
  router_type :: u32
  active_in_buffers :: "u32 option"
  active_out_buffers :: "u32 option"
  arbit_type :: u32
  xb_verbose :: u32
  grant_cycles :: u32
  grant_cycles_count :: u32

definition xbar_router_new :: "u32 \<Rightarrow> u32 \<Rightarrow> u32 \<Rightarrow> u32 \<Rightarrow> inct_config \<Rightarrow> 'd xbar_router" where
  "xbar_router_new router_id m_type n_shader n_mem c =
    \<lparr>xb_cycles = 0, xb_conflicts = 0, xb_conflicts_util = 0, xb_cycles_util = 0, xb_reqs_util = 0,
     xb_out_buffer_full = 0, xb_out_buffer_util = 0, xb_in_buffer_full = 0, xb_in_buffer_util = 0, xb_packets_num = 0,
     in_buffers = replicate (unat (n_shader + n_mem)) [], out_buffers = replicate (unat (n_shader + n_mem)) [],
     xb_n_shader = n_shader, xb_n_mem = n_mem, total_nodes = n_shader + n_mem,
     in_buffer_limit = ic_in_buffer_limit c, out_buffer_limit = ic_out_buffer_limit c,
     next_node = replicate (unat (n_shader + n_mem)) 0, next_node_id = 0, xb_m_id = router_id, router_type = m_type,
     active_in_buffers = (if m_type = REQ_NET then Some n_shader else if m_type = REPLY_NET then Some n_mem else None),
     active_out_buffers = (if m_type = REQ_NET then Some n_mem else if m_type = REPLY_NET then Some n_shader else None),
     arbit_type = ic_arbiter_algo c, xb_verbose = ic_verbose c, grant_cycles = ic_grant_cycles c,
     grant_cycles_count = ic_grant_cycles c\<rparr>"

definition xb_Push :: "u32 \<Rightarrow> u32 \<Rightarrow> 'd \<Rightarrow> 'd xbar_router \<Rightarrow> 'd xbar_router res" where
  "xb_Push input_deviceID output_deviceID data r =
    check (input_deviceID < total_nodes r)
      (Inr (r\<lparr>in_buffers := (in_buffers r)[unat input_deviceID :=
                in_buffers r ! unat input_deviceID @ [\<lparr>pk_data = data, pk_output_deviceID = output_deviceID\<rparr>]],
              xb_packets_num := xb_packets_num r + 1\<rparr>))"

definition xb_Pop :: "u32 \<Rightarrow> 'd xbar_router \<Rightarrow> ('d option \<times> 'd xbar_router) res" where
  "xb_Pop output_deviceID r =
    check (output_deviceID < total_nodes r)
      (case out_buffers r ! unat output_deviceID of
         [] \<Rightarrow> Inr (None, r)
       | p # ps \<Rightarrow> Inr (Some (pk_data p), r\<lparr>out_buffers := (out_buffers r)[unat output_deviceID := ps]\<rparr>))"

definition Has_Buffer_In :: "u32 \<Rightarrow> u32 \<Rightarrow> bool \<Rightarrow> 'd xbar_router \<Rightarrow> (bool \<times> 'd xbar_router) res" where
  "Has_Buffer_In input_deviceID sz update_counter r =
    check (input_deviceID < total_nodes r)
      (let has_buffer = length (in_buffers r ! unat input_deviceID) + unat sz \<le> unat (in_buffer_limit r)
       in Inr (has_buffer, if update_counter \<and> \<not> has_buffer then r\<lparr>xb_in_buffer_full := xb_in_buffer_full r + 1\<rparr> else r))"

definition Has_Buffer_Out :: "u32 \<Rightarrow> u32 \<Rightarrow> 'd xbar_router \<Rightarrow> bool res" where
  "Has_Buffer_Out output_deviceID sz r =
    defined (unat output_deviceID < length (out_buffers r))
      (Inr (length (out_buffers r ! unat output_deviceID) + unat sz \<le> unat (out_buffer_limit r)))"

text \<open>\<open>out_buffers[output].push(_packet); in_buffers[node_id].pop();\<close> for the front packet of a node.\<close>

definition send :: "nat \<Rightarrow> 'd Packet \<Rightarrow> 'd xbar_router \<Rightarrow> 'd xbar_router" where
  "send node_id p r = r\<lparr>
     out_buffers := (out_buffers r)[unat (pk_output_deviceID p) := out_buffers r ! unat (pk_output_deviceID p) @ [p]],
     in_buffers := (in_buffers r)[node_id := tl (in_buffers r ! node_id)]\<rparr>"

definition collect_util :: "'d xbar_router \<Rightarrow> 'd xbar_router" where
  "collect_util r = r\<lparr>xb_in_buffer_util := xb_in_buffer_util r + of_nat (sum_list (map length (in_buffers r))),
     xb_out_buffer_util := xb_out_buffer_util r + of_nat (sum_list (map length (out_buffers r))),
     xb_cycles := xb_cycles r + 1\<rparr>"

type_synonym 'd rr_state = "'d xbar_router \<times> bool list \<times> bool \<times> u32 \<times> u32"

fun rr_node :: "nat \<Rightarrow> 'd rr_state \<Rightarrow> 'd rr_state res" where
  "rr_node i (r, issued, active, conflict_sub, reqs) =
    (let node_id = unat ((of_nat i + next_node_id r) mod total_nodes r) in
     case in_buffers r ! node_id of
       [] \<Rightarrow> Inr (r, issued, active, conflict_sub, reqs)
     | p # _ \<Rightarrow>
        andThen (Has_Buffer_Out (pk_output_deviceID p) 1 r) (\<lambda>room.
          if room then
            if \<not> issued ! unat (pk_output_deviceID p)
            then Inr (send node_id p r, issued[unat (pk_output_deviceID p) := True], True, conflict_sub, reqs + 1)
            else Inr (r, issued, True, conflict_sub + 1, reqs)
          else Inr (r\<lparr>xb_out_buffer_full := xb_out_buffer_full r + 1\<rparr>, issued, True,
                 if issued ! unat (pk_output_deviceID p) then conflict_sub + 1 else conflict_sub, reqs)))"

definition RR_Advance :: "'d xbar_router \<Rightarrow> 'd xbar_router res" where
  "RR_Advance r =
    andThen (foldM rr_node [0..<unat (total_nodes r)] (r, replicate (unat (total_nodes r)) False, False, 0, 0))
     (\<lambda>(r1, issued, active, conflict_sub, reqs).
       defined (total_nodes r \<noteq> 0)
        (let r2 = r1\<lparr>next_node_id := (next_node_id r1 + 1) mod total_nodes r1,
                      xb_conflicts := xb_conflicts r1 + ucast conflict_sub\<rparr>;
             r3 = (if active then r2\<lparr>xb_conflicts_util := xb_conflicts_util r2 + ucast conflict_sub,
                       xb_cycles_util := xb_cycles_util r2 + 1, xb_reqs_util := xb_reqs_util r2 + ucast reqs\<rparr> else r2)
         in Inr (collect_util r3)))"

text \<open>The count of conflicting front packets, and whether there is any front packet.\<close>

fun islip_conflicts :: "'d Packet list list \<Rightarrow> u32 list \<Rightarrow> u32 \<Rightarrow> bool \<Rightarrow> u32 \<times> bool" where
  "islip_conflicts [] node_tmp conflict_sub active = (conflict_sub, active)"
| "islip_conflicts ([] # bs) node_tmp conflict_sub active = islip_conflicts bs node_tmp conflict_sub active"
| "islip_conflicts ((p # ps) # bs) node_tmp conflict_sub active =
    (if pk_output_deviceID p \<in> set node_tmp then islip_conflicts bs node_tmp (conflict_sub + 1) True
     else islip_conflicts bs (node_tmp @ [pk_output_deviceID p]) conflict_sub True)"

text \<open>The search for an input with a packet for output \<open>i\<close>, up to its \<open>break\<close>; the flag tells that one was sent.\<close>

fun islip_grant :: "nat \<Rightarrow> nat list \<Rightarrow> 'd xbar_router \<Rightarrow> 'd xbar_router \<times> bool" where
  "islip_grant i [] r = (r, False)"
| "islip_grant i (j # js) r =
    (let node_id = (of_nat j + next_node r ! i) mod total_nodes r in
     case in_buffers r ! unat node_id of
       [] \<Rightarrow> islip_grant i js r
     | p # _ \<Rightarrow>
        if pk_output_deviceID p = of_nat i
        then (let r1 = send (unat node_id) p r
              in (if grant_cycles_count r1 = 1 then r1\<lparr>next_node := (next_node r1)[i := (node_id + 1) mod total_nodes r1]\<rparr> else r1,
                  True))
        else islip_grant i js r)"

fun islip_output :: "nat \<Rightarrow> 'd xbar_router \<times> u32 \<Rightarrow> ('d xbar_router \<times> u32) res" where
  "islip_output i (r, reqs) =
    andThen (Has_Buffer_Out (of_nat i) 1 r) (\<lambda>room.
      if room
      then (case islip_grant i [0..<unat (total_nodes r)] r of (r1, sent) \<Rightarrow> Inr (r1, if sent then reqs + 1 else reqs))
      else Inr (r\<lparr>xb_out_buffer_full := xb_out_buffer_full r + 1\<rparr>, reqs))"

definition iSLIP_Advance :: "'d xbar_router \<Rightarrow> 'd xbar_router res" where
  "iSLIP_Advance r =
    (let (conflict_sub, active) = islip_conflicts (in_buffers r) [] 0 False;
         r1 = r\<lparr>xb_conflicts := xb_conflicts r + ucast conflict_sub\<rparr>;
         r2 = (if active then r1\<lparr>xb_conflicts_util := xb_conflicts_util r1 + ucast conflict_sub,
                                 xb_cycles_util := xb_cycles_util r1 + 1\<rparr> else r1)
     in andThen (foldM islip_output [0..<unat (total_nodes r)] (r2, 0)) (\<lambda>(r3, reqs).
       let r4 = (if active then r3\<lparr>xb_reqs_util := xb_reqs_util r3 + ucast reqs\<rparr> else r3);
           r5 = (if active \<and> grant_cycles_count r4 = 1 then r4\<lparr>grant_cycles_count := grant_cycles r4\<rparr>
                 else if active then r4\<lparr>grant_cycles_count := grant_cycles_count r4 - 1\<rparr> else r4)
       in Inr (collect_util r5)))"

definition xb_Advance :: "'d xbar_router \<Rightarrow> 'd xbar_router res" where
  "xb_Advance r = (if arbit_type r = NAIVE_RR then RR_Advance r else if arbit_type r = iSLIP then iSLIP_Advance r
    else Inl Assertion)"

definition xb_Busy :: "'d xbar_router \<Rightarrow> bool" where
  "xb_Busy r \<longleftrightarrow> (\<exists>i < unat (total_nodes r). in_buffers r ! i \<noteq> [] \<or> out_buffers r ! i \<noteq> [])"

subsection \<open>LocalInterconnect\<close>

record 'd LocalInterconnect =
  li_config :: inct_config
  li_n_shader :: u32
  li_n_mem :: u32
  li_n_subnets :: u32
  li_net :: "'d xbar_router list"

definition LocalInterconnect_new :: "inct_config \<Rightarrow> 'd LocalInterconnect" where
  "LocalInterconnect_new c = \<lparr>li_config = c, li_n_shader = 0, li_n_mem = 0, li_n_subnets = ic_subnets c, li_net = []\<rparr>"

definition CreateInterconnect :: "u32 \<Rightarrow> u32 \<Rightarrow> 'd LocalInterconnect \<Rightarrow> 'd LocalInterconnect" where
  "CreateInterconnect n_shader n_mem l = l\<lparr>li_n_shader := n_shader, li_n_mem := n_mem,
     li_net := map (\<lambda>i. xbar_router_new (of_nat i) (of_nat i) n_shader n_mem (li_config l)) [0..<unat (li_n_subnets l)]\<rparr>"

definition on_net :: "nat \<Rightarrow> 'd LocalInterconnect \<Rightarrow> ('d xbar_router \<Rightarrow> 'd xbar_router res) \<Rightarrow> 'd LocalInterconnect res" where
  "on_net k l f = defined (k < length (li_net l)) (andThen (f (li_net l ! k)) (\<lambda>r. Inr (l\<lparr>li_net := (li_net l)[k := r]\<rparr>)))"

definition push_subnet :: "u32 \<Rightarrow> 'd LocalInterconnect \<Rightarrow> nat" where
  "push_subnet input_deviceID l = (if li_n_subnets l = 1 then 0 else if input_deviceID < li_n_shader l then 0 else 1)"

definition li_Push :: "u32 \<Rightarrow> u32 \<Rightarrow> 'd \<Rightarrow> 'd LocalInterconnect \<Rightarrow> 'd LocalInterconnect res" where
  "li_Push input_deviceID output_deviceID data l =
    on_net (push_subnet input_deviceID l) l (\<lambda>r.
      andThen (Has_Buffer_In input_deviceID 1 False r) (\<lambda>(has_buffer, r1).
        check has_buffer (xb_Push input_deviceID output_deviceID data r1)))"

definition li_Pop :: "u32 \<Rightarrow> 'd LocalInterconnect \<Rightarrow> ('d option \<times> 'd LocalInterconnect) res" where
  "li_Pop output_deviceID l =
    (let subnet = (if output_deviceID < li_n_shader l then 1 else 0 :: nat) in
     defined (subnet < length (li_net l))
      (andThen (xb_Pop output_deviceID (li_net l ! subnet)) (\<lambda>(d, r). Inr (d, l\<lparr>li_net := (li_net l)[subnet := r]\<rparr>))))"

definition li_Advance :: "'d LocalInterconnect \<Rightarrow> 'd LocalInterconnect res" where
  "li_Advance l = foldM (\<lambda>i l. on_net i l xb_Advance) [0..<unat (li_n_subnets l)] l"

definition li_Busy :: "'d LocalInterconnect \<Rightarrow> bool" where
  "li_Busy l \<longleftrightarrow> (\<exists>r \<in> set (take (unat (li_n_subnets l)) (li_net l)). xb_Busy r)"

definition HasBuffer :: "u32 \<Rightarrow> 'd LocalInterconnect \<Rightarrow> (bool \<times> 'd LocalInterconnect) res" where
  "HasBuffer deviceID l =
    (let subnet = (if li_n_subnets l > 1 \<and> deviceID \<ge> li_n_shader l then unat REPLY_NET else unat REQ_NET) in
     defined (subnet < length (li_net l))
      (andThen (Has_Buffer_In deviceID 1 True (li_net l ! subnet)) (\<lambda>(b, r). Inr (b, l\<lparr>li_net := (li_net l)[subnet := r]\<rparr>))))"

definition LOCAL_INCT_FLIT_SIZE :: u32 where "LOCAL_INCT_FLIT_SIZE = 40"

definition GetFlitSize :: "'d LocalInterconnect \<Rightarrow> u32" where
  "GetFlitSize l = LOCAL_INCT_FLIT_SIZE"

section \<open>Flows\<close>

text \<open>\<open>src\<close> tells from the data of a packet at which input it entered.  A flow is what is under way from one
  input to one output, oldest first.\<close>

definition flow :: "('d \<Rightarrow> nat) \<Rightarrow> 'd xbar_router \<Rightarrow> nat \<Rightarrow> nat \<Rightarrow> 'd list" where
  "flow src r i k = filter (\<lambda>d. src d = i) (map pk_data (out_buffers r ! k)) @
     map pk_data (filter (\<lambda>p. unat (pk_output_deviceID p) = k) (in_buffers r ! i))"

definition router_ok :: "('d \<Rightarrow> nat) \<Rightarrow> 'd xbar_router \<Rightarrow> bool" where
  "router_ok src r \<longleftrightarrow> total_nodes r \<noteq> 0 \<and> length (in_buffers r) = unat (total_nodes r) \<and>
    length (out_buffers r) = unat (total_nodes r) \<and> length (next_node r) = unat (total_nodes r) \<and>
    (\<forall>i < unat (total_nodes r). \<forall>p \<in> set (in_buffers r ! i). src (pk_data p) = i \<and> unat (pk_output_deviceID p) < unat (total_nodes r)) \<and>
    (\<forall>k < unat (total_nodes r). length (out_buffers r ! k) \<le> unat (out_buffer_limit r))"

text \<open>What a cycle may do: move packets forward.\<close>

definition moved :: "('d \<Rightarrow> nat) \<Rightarrow> 'd xbar_router \<Rightarrow> 'd xbar_router \<Rightarrow> bool" where
  "moved src r0 r \<longleftrightarrow> router_ok src r \<and> total_nodes r = total_nodes r0 \<and> out_buffer_limit r = out_buffer_limit r0 \<and>
    in_buffer_limit r = in_buffer_limit r0 \<and> arbit_type r = arbit_type r0 \<and>
    (\<forall>i < unat (total_nodes r0). length (in_buffers r ! i) \<le> length (in_buffers r0 ! i)) \<and>
    (\<forall>i < unat (total_nodes r0). \<forall>k < unat (total_nodes r0). flow src r i k = flow src r0 i k)"

lemma moved_refl: "router_ok src r \<Longrightarrow> moved src r r"
  by (simp add: moved_def)

lemma moved_trans: "moved src r0 r1 \<Longrightarrow> moved src r1 r2 \<Longrightarrow> moved src r0 r2"
  by (simp add: moved_def) (meson order_trans)

lemma moved_router_ok: "moved src r0 r \<Longrightarrow> router_ok src r"
  by (simp add: moved_def)

text \<open>Counters and arbiter pointers do not matter.\<close>

lemma moved_frame [simp]:
  "moved src r0 (r\<lparr>xb_out_buffer_full := a\<rparr>) = moved src r0 r" "moved src r0 (r\<lparr>xb_conflicts := a\<rparr>) = moved src r0 r"
  "moved src r0 (r\<lparr>xb_conflicts_util := a\<rparr>) = moved src r0 r" "moved src r0 (r\<lparr>xb_cycles_util := a\<rparr>) = moved src r0 r"
  "moved src r0 (r\<lparr>xb_reqs_util := a\<rparr>) = moved src r0 r" "moved src r0 (r\<lparr>next_node_id := b\<rparr>) = moved src r0 r"
  "moved src r0 (r\<lparr>grant_cycles_count := b\<rparr>) = moved src r0 r" "moved src r0 (collect_util r) = moved src r0 r"
  "moved src r0 (r\<lparr>next_node := (next_node r)[i := b]\<rparr>) = moved src r0 r"
  by (simp_all add: moved_def router_ok_def flow_def collect_util_def)

lemma mod_total_lt: "router_ok src r \<Longrightarrow> unat (x mod total_nodes r) < unat (total_nodes r)"
  by (simp add: router_ok_def unat_mod_distrib unat_gt_0)

lemma send_moved:
  assumes ok: "router_ok src r" and n: "n < unat (total_nodes r)" and p: "in_buffers r ! n = p # ps"
    and room: "length (out_buffers r ! unat (pk_output_deviceID p)) < unat (out_buffer_limit r)"
  shows "moved src r (send n p r)"
proof -
  let ?k = "unat (pk_output_deviceID p)"
  have l: "length (in_buffers r) = unat (total_nodes r)" "length (out_buffers r) = unat (total_nodes r)"
    and sp: "src (pk_data p) = n" and k: "?k < unat (total_nodes r)"
    using ok n p by (auto simp: router_ok_def)
  have i': "in_buffers (send n p r) ! i = (if i = n then ps else in_buffers r ! i)" for i
    using p n l by (simp add: send_def nth_list_update)
  have o': "out_buffers (send n p r) ! j = (if j = ?k then out_buffers r ! j @ [p] else out_buffers r ! j)" for j
    using k l by (simp add: send_def nth_list_update)
  have same: "total_nodes (send n p r) = total_nodes r" "out_buffer_limit (send n p r) = out_buffer_limit r"
    "in_buffer_limit (send n p r) = in_buffer_limit r" "arbit_type (send n p r) = arbit_type r"
    "next_node (send n p r) = next_node r"
    "length (in_buffers (send n p r)) = length (in_buffers r)" "length (out_buffers (send n p r)) = length (out_buffers r)"
    by (simp_all add: send_def)
  have out: "filter (\<lambda>d. src d = i) (map pk_data (out_buffers (send n p r) ! j)) =
      filter (\<lambda>d. src d = i) (map pk_data (out_buffers r ! j)) @ (if j = ?k \<and> i = n then [pk_data p] else [])" for i j
    unfolding o' using sp by simp
  have inp: "map pk_data (filter (\<lambda>q. unat (pk_output_deviceID q) = j) (in_buffers r ! i)) =
      (if j = ?k \<and> i = n then [pk_data p] else []) @
      map pk_data (filter (\<lambda>q. unat (pk_output_deviceID q) = j) (in_buffers (send n p r) ! i))" for i j
    unfolding i' using p by (cases "i = n") simp_all
  have "flow src (send n p r) i j = flow src r i j" for i j
    unfolding flow_def out inp by simp
  moreover have "router_ok src (send n p r)" unfolding router_ok_def same
  proof (intro conjI allI impI)
    show "\<forall>q \<in> set (in_buffers (send n p r) ! i). src (pk_data q) = i \<and> unat (pk_output_deviceID q) < unat (total_nodes r)"
      if "i < unat (total_nodes r)" for i
    proof -
      have "set (in_buffers (send n p r) ! i) \<subseteq> set (in_buffers r ! i)" using p i' [of i] by (cases "i = n") auto
      then show ?thesis using ok that unfolding router_ok_def by blast
    qed
    show "length (out_buffers (send n p r) ! j) \<le> unat (out_buffer_limit r)" if "j < unat (total_nodes r)" for j
      using ok that room unfolding o' router_ok_def by simp
  qed (use ok in \<open>simp_all add: router_ok_def\<close>)
  ultimately show ?thesis using p by (simp add: moved_def same i')
qed

lemma Has_Buffer_Out_ok:
  "router_ok src r \<Longrightarrow> unat k < unat (total_nodes r) \<Longrightarrow>
    Has_Buffer_Out k 1 r = Inr (length (out_buffers r ! unat k) < unat (out_buffer_limit r))"
  by (simp add: Has_Buffer_Out_def router_ok_def Suc_le_eq)

section \<open>A cycle moves packets\<close>

lemma rr_node_moved:
  assumes m: "moved src r0 r"
  shows "\<exists>st. rr_node i (r, issued, active, c, q) = Inr st \<and> moved src r0 (fst st)"
proof -
  note ok = moved_router_ok [OF m]
  let ?n = "unat ((of_nat i + next_node_id r) mod total_nodes r)"
  have n: "?n < unat (total_nodes r)" by (rule mod_total_lt [OF ok])
  show ?thesis
  proof (cases "in_buffers r ! ?n")
    case (Cons p ps)
    have k: "unat (pk_output_deviceID p) < unat (total_nodes r)" using ok n Cons by (auto simp: router_ok_def)
    show ?thesis using m Cons moved_trans [OF m send_moved [OF ok n Cons]] Has_Buffer_Out_ok [OF ok k]
      by (auto simp: Let_def)
  qed (use m in simp)
qed

lemma RR_Advance_moved:
  assumes ok: "router_ok src r"
  shows "\<exists>r'. RR_Advance r = Inr r' \<and> moved src r r'"
proof -
  have "\<exists>st. foldM rr_node [0..<unat (total_nodes r)] (r, replicate (unat (total_nodes r)) False, False, 0, 0) = Inr st \<and>
      moved src r (fst st)"
  proof (rule foldM_invariant)
    show "\<exists>s'. rr_node i s = Inr s' \<and> moved src r (fst s')" if "moved src r (fst s)" for i s
      using that rr_node_moved [of src r "fst s" i "fst (snd s)" "fst (snd (snd s))" "fst (snd (snd (snd s)))" "snd (snd (snd (snd s)))"]
      by (cases s) auto
  qed (use moved_refl [OF ok] in simp)
  then obtain r1 a b c d where "foldM rr_node [0..<unat (total_nodes r)] (r, replicate (unat (total_nodes r)) False, False, 0, 0) =
      Inr (r1, a, b, c, d)" "moved src r r1" by (metis fst_conv prod.exhaust_sel)
  then show ?thesis using ok by (simp add: RR_Advance_def router_ok_def Let_def)
qed

lemma islip_grant_moved:
  assumes "router_ok src r" and "i < unat (total_nodes r)" and "length (out_buffers r ! i) < unat (out_buffer_limit r)"
  shows "moved src r (fst (islip_grant i js r))"
  using assms
proof (induction js)
  case (Cons j js)
  let ?n = "(of_nat j + next_node r ! i) mod total_nodes r"
  have n: "unat ?n < unat (total_nodes r)" by (rule mod_total_lt [OF Cons.prems(1)])
  show ?case
  proof (cases "in_buffers r ! unat ?n")
    case (Cons p ps)
    have "unat (total_nodes r) < 2 ^ 32" using unat_lt [of "total_nodes r"] by simp
    then have "unat (of_nat i :: u32) = i" using Cons.prems(2) unat_of_nat_lt [of i, where 'a = 32] by simp
    then have "moved src r (send (unat ?n) p r)" if "pk_output_deviceID p = of_nat i"
      using send_moved [OF Cons.prems(1) n Cons] that Cons.prems(3) by simp
    then show ?thesis using Cons Cons.IH [OF Cons.prems] by (simp add: Let_def)
  qed (use Cons in simp)
qed (simp add: moved_refl)

lemma islip_output_moved:
  assumes m: "moved src r0 r" and i: "i < unat (total_nodes r0)"
  shows "\<exists>st. islip_output i (r, q) = Inr st \<and> moved src r0 (fst st)"
proof -
  note ok = moved_router_ok [OF m]
  have t: "i < unat (total_nodes r)" using m i by (simp add: moved_def)
  have "unat (total_nodes r) < 2 ^ 32" using unat_lt [of "total_nodes r"] by simp
  then have k: "unat (of_nat i :: u32) = i" using t unat_of_nat_lt [of i, where 'a = 32] by simp
  have "unat (of_nat i :: u32) < unat (total_nodes r)" using k t by simp
  note room = Has_Buffer_Out_ok [OF ok this, unfolded k]
  show ?thesis
  proof (cases "length (out_buffers r ! i) < unat (out_buffer_limit r)")
    case True
    from moved_trans [OF m islip_grant_moved [OF ok t this]] show ?thesis using True room by (simp add: case_prod_unfold)
  next
    case False
    then show ?thesis using room m by simp
  qed
qed

lemma iSLIP_Advance_moved:
  assumes ok: "router_ok src r"
  shows "\<exists>r'. iSLIP_Advance r = Inr r' \<and> moved src r r'"
proof -
  obtain c a where ca: "islip_conflicts (in_buffers r) [] 0 False = (c, a)" by fastforce
  define r1 where "r1 = r\<lparr>xb_conflicts := xb_conflicts r + ucast c\<rparr>"
  define r2 where "r2 = (if a then r1\<lparr>xb_conflicts_util := xb_conflicts_util r1 + ucast c, xb_cycles_util := xb_cycles_util r1 + 1\<rparr> else r1)"
  have "moved src r r2" using moved_refl [OF ok] by (simp add: r1_def r2_def)
  then have "\<exists>st. foldM islip_output [0..<unat (total_nodes r)] (r2, 0) = Inr st \<and> moved src r (fst st)"
  proof (intro foldM_invariant)
    show "\<exists>s'. islip_output i s = Inr s' \<and> moved src r (fst s')" if "moved src r (fst s)" "i \<in> set [0..<unat (total_nodes r)]" for i s
      using islip_output_moved [OF that(1), of i "snd s"] that(2) by simp
  qed simp
  then obtain r3 q where "foldM islip_output [0..<unat (total_nodes r)] (r2, 0) = Inr (r3, q)" "moved src r r3" by force
  then show ?thesis using ca by (cases a) (simp_all add: iSLIP_Advance_def r1_def r2_def Let_def)
qed

lemma xb_Advance_moved:
  assumes "router_ok src r" and "arbit_type r \<in> {NAIVE_RR, iSLIP}"
  shows "\<exists>r'. xb_Advance r = Inr r' \<and> moved src r r'"
  using RR_Advance_moved [OF assms(1)] iSLIP_Advance_moved [OF assms(1)] assms(2) by (auto simp: xb_Advance_def)

section \<open>Runs\<close>

text \<open>A run of the network: nodes inject packets when there is room, eject them, and the clock ticks.  The logs
  record what went in and what came out.\<close>

datatype 'd icnt_event = Inject u32 u32 'd | Eject u32 | Tick

type_synonym 'd icnt_state = "'d xbar_router \<times> (u32 \<times> u32 \<times> 'd) list \<times> (u32 \<times> 'd) list"

fun icnt_step :: "'d icnt_event \<Rightarrow> 'd icnt_state \<Rightarrow> 'd icnt_state res" where
  "icnt_step (Inject i k d) (r, ins, outs) =
    andThen (Has_Buffer_In i 1 True r) (\<lambda>(room, r1).
      if room then andThen (xb_Push i k d r1) (\<lambda>r2. Inr (r2, ins @ [(i, k, d)], outs)) else Inr (r1, ins, outs))"
| "icnt_step (Eject k) (r, ins, outs) =
    andThen (xb_Pop k r) (\<lambda>(d, r1). Inr (r1, ins, case d of None \<Rightarrow> outs | Some x \<Rightarrow> outs @ [(k, x)]))"
| "icnt_step Tick (r, ins, outs) = andThen (xb_Advance r) (\<lambda>r1. Inr (r1, ins, outs))"

definition event_ok :: "('d \<Rightarrow> nat) \<Rightarrow> u32 \<Rightarrow> 'd icnt_event \<Rightarrow> bool" where
  "event_ok src n e = (case e of Inject i k d \<Rightarrow> i < n \<and> k < n \<and> src d = unat i | Eject k \<Rightarrow> k < n | Tick \<Rightarrow> True)"

definition injected :: "(u32 \<times> u32 \<times> 'd) list \<Rightarrow> nat \<Rightarrow> nat \<Rightarrow> 'd list" where
  "injected ins i k = [d. (i', k', d) \<leftarrow> ins, unat i' = i \<and> unat k' = k]"

definition ejected :: "('d \<Rightarrow> nat) \<Rightarrow> (u32 \<times> 'd) list \<Rightarrow> nat \<Rightarrow> nat \<Rightarrow> 'd list" where
  "ejected src outs i k = [d. (k', d) \<leftarrow> outs, unat k' = k \<and> src d = i]"

definition icnt_ok :: "('d \<Rightarrow> nat) \<Rightarrow> u32 \<Rightarrow> 'd icnt_state \<Rightarrow> bool" where
  "icnt_ok src n st = (case st of (r, ins, outs) \<Rightarrow> router_ok src r \<and> total_nodes r = n \<and> arbit_type r \<in> {NAIVE_RR, iSLIP} \<and>
    (\<forall>i < unat n. length (in_buffers r ! i) \<le> unat (in_buffer_limit r)) \<and>
    (\<forall>i < unat n. \<forall>k < unat n. ejected src outs i k @ flow src r i k = injected ins i k))"

lemma icnt_step_tick:
  assumes "icnt_ok src n (r, ins, outs)"
  shows "\<exists>st. icnt_step Tick (r, ins, outs) = Inr st \<and> icnt_ok src n st"
proof -
  obtain r' where "xb_Advance r = Inr r'" "moved src r r'" using xb_Advance_moved [of src r] assms by (auto simp: icnt_ok_def)
  then show ?thesis using assms by (force simp: icnt_ok_def moved_def)
qed

lemma icnt_step_inject:
  assumes st: "icnt_ok src n (r, ins, outs)" and e: "event_ok src n (Inject i k d)"
  shows "\<exists>st. icnt_step (Inject i k d) (r, ins, outs) = Inr st \<and> icnt_ok src n st"
proof (cases "length (in_buffers r ! unat i) + 1 \<le> unat (in_buffer_limit r)")
  case False
  have "icnt_ok src n (r\<lparr>xb_in_buffer_full := x\<rparr>, ins, outs) = icnt_ok src n (r, ins, outs)" for x
    by (simp add: icnt_ok_def router_ok_def flow_def)
  moreover have "i < total_nodes r" using st e by (simp add: icnt_ok_def event_ok_def)
  ultimately show ?thesis using False st by (simp add: Has_Buffer_In_def)
next
  case True
  let ?p = "\<lparr>pk_data = d, pk_output_deviceID = k\<rparr>"
  define r' where "r' = r\<lparr>in_buffers := (in_buffers r)[unat i := in_buffers r ! unat i @ [?p]], xb_packets_num := xb_packets_num r + 1\<rparr>"
  have i: "unat i < unat n" "unat k < unat n" "src d = unat i" "i < n" using e by (simp_all add: event_ok_def word_less_nat_alt)
  have len: "length (in_buffers r) = unat n" "total_nodes r = n" using st by (auto simp: icnt_ok_def router_ok_def)
  have b: "in_buffers r' ! j = (if j = unat i then in_buffers r ! j @ [?p] else in_buffers r ! j)" for j
    using i(1) len by (simp add: r'_def nth_list_update)
  have same: "total_nodes r' = n" "out_buffers r' = out_buffers r" "out_buffer_limit r' = out_buffer_limit r" "next_node r' = next_node r"
    "in_buffer_limit r' = in_buffer_limit r" "arbit_type r' = arbit_type r" "length (in_buffers r') = unat n"
    using len by (simp_all add: r'_def)
  have f: "flow src r' a j = flow src r a j @ (if a = unat i \<and> j = unat k then [d] else [])" for a j
    unfolding flow_def same b by simp
  have in': "injected (ins @ [(i, k, d)]) a j = injected ins a j @ (if a = unat i \<and> j = unat k then [d] else [])" for a j
    by (simp add: injected_def)
  have "router_ok src r'" unfolding router_ok_def same b using st i len by (simp add: icnt_ok_def router_ok_def)
  moreover have "length (in_buffers r' ! j) \<le> unat (in_buffer_limit r)" if "j < unat n" for j
    using st that True unfolding b by (simp add: icnt_ok_def)
  moreover have "ejected src outs a j @ flow src r' a j = injected (ins @ [(i, k, d)]) a j" if "a < unat n" "j < unat n" for a j
    using st that unfolding f in' by (simp add: icnt_ok_def flip: append_assoc)
  ultimately have "icnt_ok src n (r', ins @ [(i, k, d)], outs)" using st same by (simp add: icnt_ok_def)
  moreover have "icnt_step (Inject i k d) (r, ins, outs) = Inr (r', ins @ [(i, k, d)], outs)"
    using True i(4) len by (simp add: Has_Buffer_In_def xb_Push_def r'_def)
  ultimately show ?thesis by blast
qed

lemma icnt_step_eject:
  assumes st: "icnt_ok src n (r, ins, outs)" and e: "event_ok src n (Eject k)"
  shows "\<exists>st. icnt_step (Eject k) (r, ins, outs) = Inr st \<and> icnt_ok src n st"
proof (cases "out_buffers r ! unat k")
  case Nil
  then show ?thesis using st e by (simp add: xb_Pop_def icnt_ok_def event_ok_def)
next
  case (Cons p ps)
  define r' where "r' = r\<lparr>out_buffers := (out_buffers r)[unat k := ps]\<rparr>"
  have k: "unat k < unat n" "k < n" using e by (simp_all add: event_ok_def word_less_nat_alt)
  have len: "length (out_buffers r) = unat n" "total_nodes r = n" using st by (auto simp: icnt_ok_def router_ok_def)
  have b: "out_buffers r' ! j = (if j = unat k then ps else out_buffers r ! j)" for j
    using k len by (simp add: r'_def nth_list_update)
  have same: "total_nodes r' = n" "in_buffers r' = in_buffers r" "out_buffer_limit r' = out_buffer_limit r" "next_node r' = next_node r"
    "in_buffer_limit r' = in_buffer_limit r" "arbit_type r' = arbit_type r" "length (out_buffers r') = unat n"
    using len by (simp_all add: r'_def)
  have f: "flow src r a j = (if j = unat k \<and> src (pk_data p) = a then [pk_data p] else []) @ flow src r' a j" for a j
    unfolding flow_def same b using Cons by simp
  have out: "ejected src (outs @ [(k, pk_data p)]) a j = ejected src outs a j @ (if j = unat k \<and> src (pk_data p) = a then [pk_data p] else [])" for a j
    by (simp add: ejected_def)
  have "length (out_buffers r' ! j) \<le> unat (out_buffer_limit r)" if "j < unat n" for j
  proof -
    have "length (out_buffers r ! j) \<le> unat (out_buffer_limit r)" using st that len by (simp add: icnt_ok_def router_ok_def)
    then show ?thesis using Cons unfolding b by auto
  qed
  then have "router_ok src r'" unfolding router_ok_def same using st len by (simp add: icnt_ok_def router_ok_def)
  moreover have "ejected src (outs @ [(k, pk_data p)]) a j @ flow src r' a j = injected ins a j" if "a < unat n" "j < unat n" for a j
  proof -
    have "ejected src outs a j @ flow src r a j = injected ins a j" using st that by (simp add: icnt_ok_def)
    then show ?thesis unfolding out f append_assoc .
  qed
  ultimately have "icnt_ok src n (r', ins, outs @ [(k, pk_data p)])" using st same by (simp add: icnt_ok_def)
  moreover have "icnt_step (Eject k) (r, ins, outs) = Inr (r', ins, outs @ [(k, pk_data p)])"
    using Cons k(2) len by (simp add: xb_Pop_def r'_def)
  ultimately show ?thesis by blast
qed

lemma icnt_step_ok:
  assumes "icnt_ok src n st" and "event_ok src n e"
  shows "\<exists>st'. icnt_step e st = Inr st' \<and> icnt_ok src n st'"
  using assms icnt_step_tick icnt_step_inject icnt_step_eject by (cases st; cases e) auto

lemma icnt_start:
  assumes "n_shader + n_mem \<noteq> 0" and "ic_arbiter_algo c \<in> {NAIVE_RR, iSLIP}"
  shows "icnt_ok src (n_shader + n_mem) (xbar_router_new rid mt n_shader n_mem c, [], [])"
  using assms by (simp add: icnt_ok_def router_ok_def xbar_router_new_def flow_def injected_def ejected_def)

text \<open>C28: the crossbar delivers.  In every run of injections, ejections and cycles, with either arbiter, no
  operation fails and no queue outgrows its limit, and for each input and output the packets that came out,
  followed by those still under way, are the packets that went in, in the same order: none is lost,
  duplicated, delivered elsewhere or overtaken.\<close>

theorem xbar_flows_are_fifos:
  assumes "n_shader + n_mem \<noteq> 0" and "ic_arbiter_algo c \<in> {NAIVE_RR, iSLIP}"
    and "\<forall>e \<in> set evs. event_ok src (n_shader + n_mem) e"
  shows "\<exists>r ins outs. foldM icnt_step evs (xbar_router_new rid mt n_shader n_mem c, [], []) = Inr (r, ins, outs) \<and>
    (\<forall>i < unat (n_shader + n_mem). length (in_buffers r ! i) \<le> unat (in_buffer_limit r) \<and>
       length (out_buffers r ! i) \<le> unat (out_buffer_limit r)) \<and>
    (\<forall>i < unat (n_shader + n_mem). \<forall>k < unat (n_shader + n_mem).
       ejected src outs i k @ flow src r i k = injected ins i k)"
proof -
  obtain st where "foldM icnt_step evs (xbar_router_new rid mt n_shader n_mem c, [], []) = Inr st" "icnt_ok src (n_shader + n_mem) st"
    using foldM_invariant [of evs "icnt_ok src (n_shader + n_mem)" icnt_step, OF _ icnt_start [OF assms(1,2)]] icnt_step_ok assms(3)
    by blast
  then show ?thesis by (cases st) (auto simp: icnt_ok_def router_ok_def)
qed

definition example_net :: inct_config where
  "example_net = \<lparr>ic_in_buffer_limit = 2, ic_out_buffer_limit = 2, ic_subnets = 2, ic_arbiter_algo = 1, ic_verbose = 0, ic_grant_cycles = 1\<rparr>"

theorem xbar_flows_are_fifos_witness:
  "\<exists>r ins outs. foldM icnt_step [Inject 0 2 (0, 7 :: nat), Inject 0 2 (0, 8), Tick, Eject 2]
      (xbar_router_new 0 REQ_NET 2 1 example_net, [], []) = Inr (r, ins, outs) \<and>
    ejected fst outs 0 2 @ flow fst r 0 2 = injected ins 0 2 \<and> length (out_buffers r ! 2) \<le> unat (out_buffer_limit r)"
proof -
  have "\<forall>e \<in> set [Inject 0 2 (0, 7 :: nat), Inject 0 2 (0, 8), Tick, Eject 2]. event_ok fst ((2 :: u32) + 1) (e :: (nat \<times> nat) icnt_event)"
    by (simp add: event_ok_def)
  from xbar_flows_are_fifos [of 2 1 example_net, OF _ _ this, of 0 REQ_NET]
  obtain r ins outs where "foldM icnt_step [Inject 0 2 (0, 7 :: nat), Inject 0 2 (0, 8), Tick, Eject 2]
      (xbar_router_new 0 REQ_NET 2 1 example_net, [], []) = Inr (r, ins, outs)"
    "length (out_buffers r ! 2) \<le> unat (out_buffer_limit r)" "ejected fst outs 0 2 @ flow fst r 0 2 = injected ins 0 2"
    by (auto simp del: foldM.simps simp: example_net_def iSLIP_def)
  then show ?thesis by blast
qed

section \<open>Round robin serves every input\<close>

definition rr_index :: "'d xbar_router \<Rightarrow> nat \<Rightarrow> nat" where
  "rr_index r j = unat ((of_nat j + next_node_id r) mod total_nodes r)"

lemma rr_node_effect:
  assumes "rr_node j (r, issued, a, c, q) = Inr (r', st')" and "length (in_buffers r) = unat (total_nodes r)" and "total_nodes r \<noteq> 0"
  shows "next_node_id r' = next_node_id r \<and> total_nodes r' = total_nodes r \<and> length (in_buffers r') = length (in_buffers r) \<and>
    (\<forall>i. in_buffers r' ! i = in_buffers r ! i \<or>
      i = rr_index r j \<and> in_buffers r ! i \<noteq> [] \<and> in_buffers r' ! i = tl (in_buffers r ! i))"
proof (cases "in_buffers r ! rr_index r j")
  case Nil
  then show ?thesis using assms by (simp add: rr_index_def)
next
  case (Cons p ps)
  have "r' = r \<or> r' = r\<lparr>xb_out_buffer_full := xb_out_buffer_full r + 1\<rparr> \<or> r' = send (rr_index r j) p r"
    using assms(1) Cons by (auto simp: rr_index_def Let_def res_simps split: if_splits)
  moreover have "rr_index r j < length (in_buffers r)"
    using assms(2,3) by (simp add: rr_index_def unat_mod_distrib unat_gt_0)
  then have "in_buffers (send (rr_index r j) p r) ! i = (if i = rr_index r j then tl (in_buffers r ! i) else in_buffers r ! i)" for i
    by (simp add: send_def nth_list_update)
  ultimately show ?thesis using Cons by (auto simp: send_def split: if_splits)
qed

lemma rr_loop_effect:
  assumes "foldM rr_node js (r, st) = Inr (r', st')" and "length (in_buffers r) = unat (total_nodes r)" and "distinct (map (rr_index r) js)"
    and "total_nodes r \<noteq> 0"
  shows "next_node_id r' = next_node_id r \<and> total_nodes r' = total_nodes r \<and>
    (\<forall>i. in_buffers r' ! i = in_buffers r ! i \<or>
      i \<in> rr_index r ` set js \<and> in_buffers r ! i \<noteq> [] \<and> in_buffers r' ! i = tl (in_buffers r ! i))"
  using assms
proof (induction js arbitrary: r st)
  case (Cons j js)
  obtain r1 st1 where s1: "rr_node j (r, st) = Inr (r1, st1)" and rest: "foldM rr_node js (r1, st1) = Inr (r', st')"
    using Cons.prems(1) by (auto simp: res_simps)
  obtain is' a c q where st: "st = (is', a, c, q)" by (cases st)
  note e = rr_node_effect [OF s1 [unfolded st] Cons.prems(2,4)]
  then have idx: "rr_index r1 = rr_index r" by (simp add: rr_index_def fun_eq_iff)
  have IH: "next_node_id r' = next_node_id r1 \<and> total_nodes r' = total_nodes r1 \<and>
      (\<forall>i. in_buffers r' ! i = in_buffers r1 ! i \<or>
        i \<in> rr_index r1 ` set js \<and> in_buffers r1 ! i \<noteq> [] \<and> in_buffers r' ! i = tl (in_buffers r1 ! i))"
    using Cons.prems e by (intro Cons.IH [OF rest]) (simp_all add: idx)
  have "in_buffers r' ! i = in_buffers r ! i \<or>
      i \<in> rr_index r ` set (j # js) \<and> in_buffers r ! i \<noteq> [] \<and> in_buffers r' ! i = tl (in_buffers r ! i)" for i
  proof (cases "i = rr_index r j")
    case True
    then have "i \<notin> rr_index r1 ` set js" using Cons.prems(3) by (simp add: idx)
    then have "in_buffers r' ! i = in_buffers r1 ! i" using IH by blast
    then show ?thesis using e True by auto
  next
    case False
    then have "in_buffers r1 ! i = in_buffers r ! i" using e by blast
    moreover have "in_buffers r' ! i = in_buffers r1 ! i \<or>
        i \<in> rr_index r1 ` set js \<and> in_buffers r1 ! i \<noteq> [] \<and> in_buffers r' ! i = tl (in_buffers r1 ! i)" using IH by blast
    ultimately show ?thesis using idx by auto
  qed
  then show ?case using IH e by simp
qed simp

lemma rr_index_nat:
  assumes "unat (total_nodes r) \<le> 2 ^ 31" and "j < unat (total_nodes r)" and "next_node_id r < total_nodes r"
  shows "rr_index r j = (j + unat (next_node_id r)) mod unat (total_nodes r)"
proof -
  have lt: "j < 2 ^ 32" "j + unat (next_node_id r) < 2 ^ 32" using assms by (simp_all add: word_less_nat_alt)
  have "unat (of_nat j + next_node_id r) = j + unat (next_node_id r)"
    using unat_add_lem [of "of_nat j" "next_node_id r"] lt unat_of_nat_lt [of j, where 'a = 32] by simp
  then show ?thesis by (simp add: rr_index_def unat_mod_distrib)
qed

lemma rr_index_inj:
  assumes "unat (total_nodes r) \<le> 2 ^ 31" and "next_node_id r < total_nodes r"
  shows "distinct (map (rr_index r) [0..<unat (total_nodes r)])"
proof -
  let ?n = "unat (total_nodes r)"
  have "(a + b) mod ?n \<noteq> (c + b) mod ?n" if "a < c" "c < ?n" for a b c
  proof
    assume "(a + b) mod ?n = (c + b) mod ?n"
    then have "?n dvd (c + b) - (a + b)" using that by (metis add_right_mono less_imp_le mod_eq_dvd_iff_nat)
    then show False using that by (simp add: nat_dvd_not_less)
  qed
  then have "inj_on (rr_index r) {0..<?n}"
    by (intro linorder_inj_onI) (auto simp: rr_index_nat [OF assms(1) _ assms(2)])
  then show ?thesis by (simp add: distinct_map)
qed

text \<open>One cycle: every input keeps its queue or loses its front packet, the input whose turn it is loses it if
  the output has room, and the turn passes to the next input.\<close>

lemma RR_Advance_effect:
  assumes ok: "router_ok src r" and small: "unat (total_nodes r) \<le> 2 ^ 31" and nn: "next_node_id r < total_nodes r"
    and adv: "RR_Advance r = Inr r'"
  shows "unat (next_node_id r') = Suc (unat (next_node_id r)) mod unat (total_nodes r)"
    and "in_buffers r' ! i = in_buffers r ! i \<or> in_buffers r ! i \<noteq> [] \<and> in_buffers r' ! i = tl (in_buffers r ! i)"
    and "in_buffers r ! unat (next_node_id r) = p # ps \<Longrightarrow>
      length (out_buffers r ! unat (pk_output_deviceID p)) < unat (out_buffer_limit r) \<Longrightarrow>
      in_buffers r' ! unat (next_node_id r) = ps"
proof -
  let ?n = "unat (total_nodes r)" let ?st = "(replicate ?n False, False, 0 :: u32, 0 :: u32)"
  have n0: "total_nodes r \<noteq> 0" "length (in_buffers r) = ?n" "?n > 0" using ok by (simp_all add: router_ok_def unat_gt_0)
  obtain r1 st1 where loop: "foldM rr_node [0..<?n] (r, ?st) = Inr (r1, st1)"
    and r': "in_buffers r' = in_buffers r1" "next_node_id r' = (next_node_id r1 + 1) mod total_nodes r1"
    using adv by (auto simp: RR_Advance_def res_simps Let_def collect_util_def split: prod.splits if_splits)
  note eff = rr_loop_effect [OF loop n0(2) rr_index_inj [OF small nn] n0(1)]
  show "in_buffers r' ! i = in_buffers r ! i \<or> in_buffers r ! i \<noteq> [] \<and> in_buffers r' ! i = tl (in_buffers r ! i)"
    using eff r'(1) by auto
  have "unat (next_node_id r + 1) = Suc (unat (next_node_id r))"
    using nn small unat_plus_one [of "next_node_id r"] by (simp add: word_less_nat_alt)
  then show "unat (next_node_id r') = Suc (unat (next_node_id r)) mod ?n"
    using eff r'(2) by (simp add: unat_mod_distrib)
  assume p: "in_buffers r ! unat (next_node_id r) = p # ps"
    and room: "length (out_buffers r ! unat (pk_output_deviceID p)) < unat (out_buffer_limit r)"
  let ?i = "unat (next_node_id r)"
  have i: "?i < ?n" using nn by (simp add: word_less_nat_alt)
  have k: "unat (pk_output_deviceID p) < ?n" using ok i p unfolding router_ok_def by (metis list.set_intros(1))
  have idx: "rr_index r 0 = ?i" using i n0(3) by (simp add: rr_index_nat [OF small n0(3) nn])
  have js: "[0..<?n] = 0 # [1..<?n]" using n0(3) by (simp add: upt_conv_Cons)
  have "\<exists>st2. rr_node 0 (r, ?st) = Inr (send ?i p r, st2)"
    using p k room Has_Buffer_Out_ok [OF ok k] idx by (auto simp: rr_index_def Let_def)
  then obtain st2 where first: "rr_node 0 (r, ?st) = Inr (send ?i p r, st2)" by blast
  then have rest: "foldM rr_node [1..<?n] (send ?i p r, st2) = Inr (r1, st1)" using loop unfolding js by simp
  have s: "rr_index (send ?i p r) = rr_index r" "in_buffers (send ?i p r) ! ?i = ps" "total_nodes (send ?i p r) = total_nodes r"
    "length (in_buffers (send ?i p r)) = ?n"
    using p i n0(2) by (simp_all add: send_def rr_index_def fun_eq_iff)
  have d: "distinct (map (rr_index r) [1..<?n])" "?i \<notin> rr_index r ` set [1..<?n]"
    using rr_index_inj [OF small nn] unfolding js list.map idx by simp_all
  have "in_buffers r1 ! ?i = in_buffers (send ?i p r) ! ?i"
    using rr_loop_effect [OF rest] s d n0(1) by auto
  then show "in_buffers r' ! ?i = ps" using s(2) r'(1) by simp
qed

text \<open>What may happen between two cycles: packets are appended to input queues and taken from output queues.\<close>

definition between_cycles :: "('d \<Rightarrow> nat) \<Rightarrow> 'd xbar_router \<Rightarrow> 'd xbar_router \<Rightarrow> bool" where
  "between_cycles src r r' \<longleftrightarrow> router_ok src r' \<and> total_nodes r' = total_nodes r \<and> next_node_id r' = next_node_id r \<and>
    (\<forall>i < unat (total_nodes r). \<exists>new. in_buffers r' ! i = in_buffers r ! i @ new)"

lemma RR_turns:
  assumes "\<forall>k. between_cycles src (rs k) (es k) \<and> RR_Advance (es k) = Inr (rs (Suc k))"
    and "unat (total_nodes (rs 0)) \<le> 2 ^ 31" and "next_node_id (rs 0) < total_nodes (rs 0)"
  shows "total_nodes (rs k) = total_nodes (rs 0) \<and> unat (next_node_id (rs k)) = (unat (next_node_id (rs 0)) + k) mod unat (total_nodes (rs 0))"
proof (induction k)
  case 0
  then show ?case using assms(3) by (simp add: word_less_nat_alt)
next
  case (Suc k)
  let ?n = "unat (total_nodes (rs 0))"
  have b: "router_ok src (es k)" "total_nodes (es k) = total_nodes (rs 0)" "next_node_id (es k) = next_node_id (rs k)"
    and adv: "RR_Advance (es k) = Inr (rs (Suc k))"
    using assms(1) Suc by (auto simp: between_cycles_def)
  have "?n > 0" using b(1,2) by (simp add: router_ok_def unat_gt_0)
  then have "next_node_id (es k) < total_nodes (es k)" using Suc b by (simp add: word_less_nat_alt)
  note e = RR_Advance_effect(1) [OF b(1) _ this adv]
  have "total_nodes (rs (Suc k)) = total_nodes (es k)" using RR_Advance_moved [OF b(1)] adv by (auto simp: moved_def)
  then show ?case using e b(2,3) assms(2) Suc by (simp add: mod_Suc_eq)
qed

lemma RR_front_stays:
  assumes run: "\<forall>k. between_cycles src (rs k) (es k) \<and> RR_Advance (es k) = Inr (rs (Suc k))"
    and small: "unat (total_nodes (rs 0)) \<le> 2 ^ 31" and nn: "next_node_id (rs 0) < total_nodes (rs 0)"
    and i: "i < unat (total_nodes (rs 0))" and p: "in_buffers (rs 0) ! i = p # ps"
  shows "(\<exists>j < k. \<exists>qs. in_buffers (es j) ! i = p # qs \<and> in_buffers (rs (Suc j)) ! i = qs) \<or> (\<exists>qs. in_buffers (es k) ! i = p # qs)"
proof (induction k)
  case 0
  have "\<exists>new. in_buffers (es 0) ! i = in_buffers (rs 0) ! i @ new" using run i by (auto simp: between_cycles_def)
  then show ?case using p by auto
next
  case (Suc k)
  show ?case
  proof (cases "\<exists>j < k. \<exists>qs. in_buffers (es j) ! i = p # qs \<and> in_buffers (rs (Suc j)) ! i = qs")
    case True
    then show ?thesis by (meson less_SucI)
  next
    case False
    then obtain qs where q: "in_buffers (es k) ! i = p # qs" using Suc by blast
    note t = RR_turns [OF run small nn]
    have b: "router_ok src (es k)" "total_nodes (es k) = total_nodes (rs 0)" "next_node_id (es k) = next_node_id (rs k)"
      and adv: "RR_Advance (es k) = Inr (rs (Suc k))" using run t by (auto simp: between_cycles_def)
    have "next_node_id (es k) < total_nodes (es k)" using t [of k] b i by (simp add: word_less_nat_alt)
    note e = RR_Advance_effect(2) [OF b(1) _ this adv, of i]
    have "\<exists>new. in_buffers (es (Suc k)) ! i = in_buffers (rs (Suc k)) ! i @ new"
      using run [THEN spec, of "Suc k"] i t [of "Suc k"] by (simp add: between_cycles_def)
    then show ?thesis using e q b(2) small by auto
  qed
qed

text \<open>C29: the round-robin arbiter starves no input.  Whatever is injected and ejected between cycles, the packet
  at the front of an input leaves it within as many cycles as there are nodes, provided its output has
  room in these cycles.\<close>

theorem RR_no_starvation:
  assumes "\<forall>k. between_cycles src (rs k) (es k) \<and> RR_Advance (es k) = Inr (rs (Suc k))"
    and "unat (total_nodes (rs 0)) \<le> 2 ^ 31" and "next_node_id (rs 0) < total_nodes (rs 0)"
    and "i < unat (total_nodes (rs 0))" and "in_buffers (rs 0) ! i = p # ps"
    and "\<forall>k < unat (total_nodes (rs 0)). length (out_buffers (es k) ! unat (pk_output_deviceID p)) < unat (out_buffer_limit (es k))"
  shows "\<exists>k < unat (total_nodes (rs 0)). \<exists>qs. in_buffers (es k) ! i = p # qs \<and> in_buffers (rs (Suc k)) ! i = qs"
proof -
  let ?n = "unat (total_nodes (rs 0))" let ?s = "unat (next_node_id (rs 0))"
  define k where "k = (i + ?n - ?s) mod ?n"
  have s: "?s < ?n" using assms(3) by (simp add: word_less_nat_alt)
  have k: "k < ?n" "(?s + k) mod ?n = i" using s assms(4) by (simp_all add: k_def mod_add_right_eq)
  note t = RR_turns [OF assms(1-3), of k]
  have b: "router_ok src (es k)" "total_nodes (es k) = total_nodes (rs 0)" "next_node_id (es k) = next_node_id (rs k)"
    and adv: "RR_Advance (es k) = Inr (rs (Suc k))" using assms(1) t by (auto simp: between_cycles_def)
  have nn: "next_node_id (es k) < total_nodes (es k)" "unat (next_node_id (es k)) = i" using t b k assms(4) by (simp_all add: word_less_nat_alt)
  show ?thesis
  proof (cases "\<exists>j < k. \<exists>qs. in_buffers (es j) ! i = p # qs \<and> in_buffers (rs (Suc j)) ! i = qs")
    case True
    then show ?thesis using k(1) by (meson less_trans)
  next
    case False
    then obtain qs where "in_buffers (es k) ! i = p # qs" using RR_front_stays [OF assms(1-5), of k] by blast
    then show ?thesis using RR_Advance_effect(3) [OF b(1) _ nn(1) adv] b(2) nn(2) assms(2,6) k(1) by auto
  qed
qed

primrec rr_orbit :: "'d xbar_router \<Rightarrow> nat \<Rightarrow> 'd xbar_router" where
  "rr_orbit r 0 = r"
| "rr_orbit r (Suc k) = (case RR_Advance (rr_orbit r k) of Inl _ \<Rightarrow> rr_orbit r k | Inr r' \<Rightarrow> r')"

lemma rr_orbit_ok: "router_ok src r \<Longrightarrow> router_ok src (rr_orbit r k)"
proof (induction k)
  case (Suc k)
  then obtain r' where "RR_Advance (rr_orbit r k) = Inr r'" "moved src (rr_orbit r k) r'" using RR_Advance_moved by blast
  then show ?case using moved_router_ok by simp
qed simp

lemma rr_orbit_run:
  assumes "router_ok src r"
  shows "between_cycles src (rr_orbit r k) (rr_orbit r k) \<and> RR_Advance (rr_orbit r k) = Inr (rr_orbit r (Suc k))"
proof -
  have "router_ok src (rr_orbit r k)" by (rule rr_orbit_ok [OF assms])
  then show ?thesis using RR_Advance_moved by (fastforce simp: between_cycles_def)
qed

lemma two_elements: "replicate 2 x = [x, x]" "[0..<2] = [0, 1 :: nat]" "(\<forall>i < 2. P i) \<longleftrightarrow> P 0 \<and> P (1 :: nat)"
  by (auto simp: numeral_2_eq_2 less_Suc_eq)

definition example_router :: "(nat \<times> nat) xbar_router" where
  "example_router = (xbar_router_new 0 REQ_NET 1 1 (example_net\<lparr>ic_arbiter_algo := NAIVE_RR\<rparr>))
     \<lparr>in_buffers := [[], [\<lparr>pk_data = (1, 7), pk_output_deviceID = 0\<rparr>]]\<rparr>"

lemma example_router_ok: "router_ok fst example_router"
  by (simp add: example_router_def router_ok_def xbar_router_new_def example_net_def two_elements)

lemma example_router_sel: "total_nodes example_router = 2" "next_node_id example_router = 0" "out_buffer_limit example_router = 2"
  "in_buffers example_router = [[], [\<lparr>pk_data = (1, 7), pk_output_deviceID = 0\<rparr>]]" "out_buffers example_router = [[], []]"
  by (simp_all add: example_router_def xbar_router_new_def example_net_def two_elements)

lemma example_router_step: "length (out_buffers (rr_orbit example_router 1) ! 0) = 1" "out_buffer_limit (rr_orbit example_router 1) = 2"
  by (simp_all add: RR_Advance_def example_router_sel two_elements Has_Buffer_Out_def send_def collect_util_def Let_def)

theorem RR_no_starvation_witness:
  "\<exists>k < 2. \<exists>qs. in_buffers (rr_orbit example_router k) ! 1 = \<lparr>pk_data = (1, 7), pk_output_deviceID = 0\<rparr> # qs \<and>
    in_buffers (rr_orbit example_router (Suc k)) ! 1 = qs"
proof -
  have room: "length (out_buffers (rr_orbit example_router k) ! 0) < unat (out_buffer_limit (rr_orbit example_router k))" if "k < 2" for k
    using that example_router_step by (auto simp: less_2_cases_iff example_router_sel)
  have run: "\<forall>k. between_cycles fst (rr_orbit example_router k) (rr_orbit example_router k) \<and>
      RR_Advance (rr_orbit example_router k) = Inr (rr_orbit example_router (Suc k))"
    using rr_orbit_run [OF example_router_ok] by blast
  from RR_no_starvation [OF run, of 1] room show ?thesis by (simp add: example_router_sel)
qed

section \<open>One subnet\<close>

text \<open>With one subnet requests and replies share network 0, but \<open>Pop\<close> looks for replies in network 1.\<close>

lemma single_subnet_pop_undefined:
  assumes "ic_subnets c = 1" and "k < n_shader"
  shows "li_Pop k (CreateInterconnect n_shader n_mem (LocalInterconnect_new c)) = Inl Undefined"
  using assms by (simp add: li_Pop_def CreateInterconnect_def LocalInterconnect_new_def)

text \<open>\<open>iSLIP_Advance\<close> lets one input send to several outputs in the same cycle.\<close>

definition burst_router :: "nat xbar_router" where
  "burst_router = (xbar_router_new 0 REQ_NET 1 1 example_net)
     \<lparr>in_buffers := [[\<lparr>pk_data = 7, pk_output_deviceID = 0\<rparr>, \<lparr>pk_data = 8, pk_output_deviceID = 1\<rparr>], []]\<rparr>"

lemma iSLIP_input_sends_twice: "\<exists>r. iSLIP_Advance burst_router = Inr r \<and> in_buffers r ! 0 = []"
  by (simp add: iSLIP_Advance_def burst_router_def xbar_router_new_def example_net_def two_elements Has_Buffer_Out_def send_def
      collect_util_def Let_def)

end
