(* ===== verification/Spec2Isabelle.thy ===== *)
theory Spec2Isabelle
  imports Frfcfs Dram_Commands Address_Decoder Delay_Queue Data_Cache Tex_Cache Arbitration Sampling Sub_Partition Coalescing Local_Interconnect
begin

text \<open>
  \<^bold>\<open>A verification library of GPGPU-Sim with a Huffman-compressed DRAM interface.\<close>

  The program is a cycle-level simulator of a GPU.  Shader cores send memory requests (\<open>mem_fetch\<close>)
  through L1 caches and an interconnect to memory partitions; a partition has L2 banks, an arbiter of DRAM
  credits, and, the addition of this repository, a compressor that samples the lines it reads, builds a
  prefix code for their most frequent 16-bit symbols, and charges the DRAM for the compressed size.  The
  library models the memory system: \<open>src/src/gpgpu-sim\<close> (caches, queues, compression, partition) and the
  memory contents of \<open>src/src/cuda-sim/memory.cc\<close>.

  \<^bold>\<open>Conventions.\<close>  \<open>unsigned\<close> is \<open>u32\<close>, \<open>unsigned long long\<close>, \<open>size_t\<close>, \<open>uint64_t\<close> and
  \<open>new_addr_type\<close> are \<open>u64\<close>, so arithmetic wraps where the C++ does.  A failed \<open>assert\<close>, \<open>abort\<close>, a thrown
  exception and undefined behaviour are values of \<open>cpp_error\<close>; an operation that can meet one returns
  \<open>'a res\<close>.  Classes are records, enumerations datatypes, and each method one definition that keeps the
  name of the method (with a prefix where two classes share it).  Objects shared by pointer live in an
  explicit store (\<open>world\<close>).  Containers of the standard library are lists, association lists or maps; what
  the standard leaves open (the order of a hash map, of equal elements after \<open>std::sort\<close>, of equal
  priorities) and \<open>std::log2\<close> are the parameter \<open>cxx_lib\<close> with the contract \<open>cxx_ok\<close>, which \<open>plain_lib\<close>
  satisfies.  The \<open>double\<close>s that decide code lengths are rounded as in the program (\<open>Doubles\<close>); those that
  are only reported (entropy, ratios, averages) are real numbers.

  \<^bold>\<open>The theories, bottom up.\<close>

  \<^item> \<open>Prelude\<close>: machine types, failures and their inversion rules (\<open>res_simps\<close>), words as naturals (\<open>word_nat\<close>).
  \<^item> \<open>Fifo_Spec\<close>: the locale \<open>bounded_fifo\<close>; interpreted by \<open>Delay_Queue\<close> (\<open>fifo_pipeline\<close>, \<open>delayqueue.h\<close>) and
    \<open>Ring_Fifo\<close> (\<open>tex_cache::fifo\<close>).  FIFO order over all runs, the delay of a pipeline, the drift of its counter.
  \<^item> \<open>Gpu_Misc\<close> (\<open>gpu-misc.cc\<close>) and \<open>Hashing\<close> (\<open>hashing.cc\<close>): the integer logarithm; the IPOLY tables are residues
    modulo irreducible polynomials over GF(2) and therefore free of conflicts at power-of-two strides from an
    aligned base, within the bits they read; outside them they are not.
  \<^item> \<open>Cache_Block\<close>, \<open>Cache_Config\<close>, \<open>Tag_Array\<close>, \<open>Mshr\<close>, \<open>Cache_Stats\<close> (\<open>gpu-cache.{h,cc}\<close>): lines and sectors (locale
    \<open>block_contract\<close>), the configuration string and set index, tag lookup, replacement and allocation, miss
    registers (locale \<open>request_table\<close>), counters.  The probe loop refines a specification of hit and victim;
    accesses keep the array well formed with unique tags.
  \<^item> \<open>Mem_Fetch\<close> (\<open>mem_fetch.{h,cc}\<close>, \<open>abstract_hardware_model.h\<close>): requests, their store and allocators.
  \<^item> \<open>Baseline_Cache\<close>, \<open>Data_Cache\<close>, \<open>Tex_Cache\<close>: the caches composed of these parts.  A miss that is sent and
    filled comes back unchanged; every write policy keeps the miss queue bounded; a refused access changes
    nothing; the texture cache keeps its in-order invariant and delivers what was filled, in one reply or in parts.
  \<^item> \<open>Doubles\<close>: rounding to 53 bits, and the rounded logarithm of a quotient of numbers up to \<open>2 ^ 44\<close>.
  \<^item> \<open>Freq_Table\<close>, \<open>Prefix_Code\<close>, \<open>Huffman\<close>, \<open>Codebook\<close>, \<open>Shannon_Codes\<close>, \<open>Compressor\<close> (\<open>huffman.{h,cc}\<close>): symbol counts and
    eviction, canonical codes, the three generators, the compressed size.  Up to the totals below, all
    generators succeed with prefix-free codes of at most 64 bits, and with a generated codebook the reported size
    is that of an encoding that can be decoded.
  \<^item> \<open>Memory_Space\<close> (\<open>cuda-sim/memory.{h,cc}\<close>): block-wise memory contents (locale \<open>byte_store\<close>); reads return what
    was written, except in the last block of the address space.
  \<^item> \<open>Arbitration\<close>, \<open>Sampling\<close> (\<open>l2cache.{h,cc}\<close>): DRAM credits (locale \<open>credit_pool\<close>) and the life cycle of the
    codebook.  Credits account for the requests in flight; over all runs of bounded length whose sampled
    lines lie before the last block of memory, sampling never fails and the codebook stays a prefix-free code.
  \<^item> \<open>Sub_Partition\<close> (\<open>l2cache.{h,cc}\<close>): an L2 bank with its queues, composed of \<open>Delay_Queue\<close> and \<open>Data_Cache\<close>.  Without
    an L2 it is a pipeline without loss; with one it follows the answers of the L2, and aborts on one kind of write-back miss; requests are split by sector.
  \<^item> \<open>Address_Decoder\<close> (\<open>addrdec.{h,cc}\<close>): the mapping of linear addresses to channels, banks, rows and
    columns.  Decoding loses nothing and passes the self test under consecutive, permuted and custom indexing;
    its identifiers are in range; with \<open>IPOLY\<close> a shipped configuration decodes two addresses alike and fails the test.
  \<^item> \<open>Dram\<close> (\<open>dram.{h,cc}\<close>, \<open>dram_sched.{h,cc}\<close>, timing of \<open>gpu-sim.h\<close>): the DRAM controller, with the requests in a store of
    its own.  \<open>Dram_Timing\<close>: over every run the commands keep the minimal distances of the timing table (locale
    \<open>countdown\<close>, interpreted on the timers of the controller).  \<open>Dram_Commands\<close>: at most one row and one column
    command a cycle, exact counters, and two commands on a single bus.  \<open>Frfcfs\<close>: the bins and counters of the
    scheduler refine FR-FCFS on one list of waiting requests per bank.
  \<^item> \<open>Simt_Stack\<close>, \<open>Scoreboard\<close>, \<open>Coalescing\<close> (\<open>abstract_hardware_model.{h,cc}\<close>, \<open>scoreboard.{h,cc}\<close>): the part of a shader
    core before the caches.  The divergence stack keeps every running thread at the program counter it computed;
    the scoreboard detects exactly the hazards of the instructions in flight; the accesses that a warp instruction
    generates cover what its threads access, and shared memory costs the conflicts of its worst bank.
  \<^item> \<open>Local_Interconnect\<close> (\<open>local_interconnect.{h,cc}\<close>): the crossbar between cores and partitions under both
    arbiters; each flow is a FIFO without loss, and round robin starves no input.

  \<^bold>\<open>Bounds.\<close>  The Huffman tree is at most 64 deep for totals below the 67th Fibonacci number; Shannon-Fano
  splits are balanced enough for totals below \<open>1.5 ^ 65\<close>; Shannon's lengths are exact in \<open>double\<close>s for totals up
  to \<open>2 ^ 44\<close> (far above it they can be too short); the runs of \<open>Sampling\<close> have at most \<open>2 ^ 36\<close> events (\<open>2 ^ 38\<close>
  counted symbols), which is below all three.  Loops over blocks of memory take one unit of fuel per byte, and
  each iteration moves at least one byte.

  \<^bold>\<open>Parameters.\<close>  The memory port below a cache (\<open>full\<close> and \<open>push\<close> of \<open>mem_fetch_interface\<close>), the decoding
  functions a request reads from its \<open>memory_config\<close> (\<open>Address_Decoder\<close> models them), the callback
  \<open>set_done\<close> of the partition above a controller, the contents of uninitialised counters, the sequence of
  \<open>rand()\<close>, and \<open>cxx_lib\<close>.

  \<^bold>\<open>Not modelled.\<close>  Printing, visualisation and statistics sinks (output only); the PTX parser and
  instruction semantics; the shader pipeline around the components above, the request path of a memory
  partition to its controller and the clock domains of the top level; the vendored BookSim network and McPAT power models; the CUDA and OpenCL front ends.
\<close>

end
